(* ===== verification/Prelude.thy ===== *)
theory Prelude
  imports Main "HOL-Library.Word" "HOL-Library.Monad_Syntax"
begin

text \<open>
  Shared vocabulary of the development: C characters and the byte memory the C library
  routines run on, with \<open>None\<close> for an access outside the memory (undefined behaviour in C),
  NUL-terminated strings in that memory, block replacement, and the generic list facts the
  components share.
\<close>

section \<open>Collections used by the automation\<close>

named_theorems mem_simps \<open>reading and writing the byte memory\<close>
named_theorems world_simps \<open>allocation and error state of the process\<close>

section \<open>C characters\<close>

text \<open>
  A C \<open>char\<close> is a HOL \<^typ>\<open>char\<close> (eight bits). \<open>uc\<close> reads it as \<open>unsigned char\<close> and \<open>sc\<close> as
  the signed \<open>char\<close> of the supported targets; \<open>to_char\<close> is the conversion of an \<open>int\<close> to \<open>char\<close>.
\<close>

abbreviation NUL :: char where "NUL \<equiv> CHR 0x00"
abbreviation NL :: char where "NL \<equiv> CHR 0x0A"

definition uc :: "char \<Rightarrow> int" where
  "uc c = of_char c"

definition sc :: "char \<Rightarrow> int" where
  "sc c = (if uc c < 128 then uc c else uc c - 256)"

definition to_char :: "int \<Rightarrow> char" where
  "to_char i = char_of (i mod 256)"

lemma uc_nat: "uc c = int (of_char c :: nat)"
  by (simp add: uc_def of_nat_of_char)

lemma uc_bounds: "0 \<le> uc c" "uc c < 256"
  using nat_of_char_less_256 [of c] by (simp_all add: uc_nat)

lemma uc_inject [simp]: "uc a = uc b \<longleftrightarrow> a = b"
  by (simp add: uc_def)

lemma uc_NUL [simp]: "uc NUL = 0"
  by (simp add: uc_def)

lemma uc_eq_0 [simp]: "uc c = 0 \<longleftrightarrow> c = NUL"
  using uc_inject [of c NUL] by simp

lemma uc_pos: "c \<noteq> NUL \<Longrightarrow> 0 < uc c"
  using uc_bounds(1) [of c] uc_eq_0 [of c] by linarith

lemma to_char_uc [simp]: "to_char (uc c) = c"
  using uc_bounds [of c] by (simp add: to_char_def uc_def)

lemma sc_eq_0 [simp]: "sc c = 0 \<longleftrightarrow> c = NUL"
  using uc_bounds [of c] by (auto simp: sc_def)

lemma sc_inject [simp]: "sc a = sc b \<longleftrightarrow> a = b"
  using uc_bounds [of a] uc_bounds [of b] uc_inject [of a b]
  by (auto simp: sc_def split: if_splits)

section \<open>The byte memory\<close>

type_synonym mem = "char list"

definition load :: "mem \<Rightarrow> nat \<Rightarrow> char option" where
  "load m a = (if a < length m then Some (m ! a) else None)"

definition store :: "mem \<Rightarrow> nat \<Rightarrow> char \<Rightarrow> mem option" where
  "store m a c = (if a < length m then Some (m[a := c]) else None)"

lemma load_Some [mem_simps]: "load m a = Some c \<longleftrightarrow> a < length m \<and> m ! a = c"
  by (auto simp: load_def)

lemma load_None [mem_simps]: "load m a = None \<longleftrightarrow> length m \<le> a"
  by (auto simp: load_def)

lemma store_Some [mem_simps]: "store m a c = Some m' \<longleftrightarrow> a < length m \<and> m' = m[a := c]"
  by (auto simp: store_def)

lemma load_in [simp]: "a < length m \<Longrightarrow> load m a = Some (m ! a)"
  by (simp add: load_def)

lemma store_in [simp]: "a < length m \<Longrightarrow> store m a c = Some (m[a := c])"
  by (simp add: store_def)

lemma load_store_eq: "store m a c = Some m' \<Longrightarrow> load m' a = Some c"
  by (auto simp: mem_simps)

lemma load_store_neq: "store m a c = Some m' \<Longrightarrow> b \<noteq> a \<Longrightarrow> load m' b = load m b"
  by (auto simp: store_Some load_def)

lemma length_store: "store m a c = Some m' \<Longrightarrow> length m' = length m"
  by (auto simp: mem_simps)

text \<open>\<open>cstr_at m s xs\<close>: the memory holds the NUL-terminated string \<open>xs\<close> at \<open>s\<close>.\<close>

fun cstr_at :: "mem \<Rightarrow> nat \<Rightarrow> string \<Rightarrow> bool" where
  "cstr_at m s [] \<longleftrightarrow> load m s = Some NUL"
| "cstr_at m s (x # xs) \<longleftrightarrow> load m s = Some x \<and> x \<noteq> NUL \<and> cstr_at m (Suc s) xs"

lemma cstr_at_nonnul: "cstr_at m s xs \<Longrightarrow> NUL \<notin> set xs"
  by (induction xs arbitrary: s) auto

lemma cstr_at_length: "cstr_at m s xs \<Longrightarrow> s + length xs < length m"
  by (induction xs arbitrary: s) (fastforce simp: mem_simps)+

lemma cstr_at_nth: "cstr_at m s xs \<Longrightarrow> i < length xs \<Longrightarrow> m ! (s + i) = xs ! i"
proof (induction xs arbitrary: s i)
  case (Cons x xs)
  then show ?case
    using Cons.IH [of "Suc s"] by (cases i) (auto simp: mem_simps)
qed simp

lemma cstr_at_end: "cstr_at m s xs \<Longrightarrow> m ! (s + length xs) = NUL"
proof (induction xs arbitrary: s)
  case (Cons x xs)
  then show ?case using Cons.IH [of "Suc s"] by simp
qed (simp add: mem_simps)

lemma cstr_at_iff:
  "cstr_at m s xs \<longleftrightarrow> s + length xs < length m \<and> (\<forall>i < length xs. m ! (s + i) = xs ! i)
     \<and> m ! (s + length xs) = NUL \<and> NUL \<notin> set xs"
proof (induction xs arbitrary: s)
  case Nil
  show ?case by (auto simp: mem_simps)
next
  case (Cons x xs)
  then show ?case by (auto simp: mem_simps less_Suc_eq_0_disj)
qed

lemma cstr_at_drop: "cstr_at m s (xs @ ys) \<Longrightarrow> cstr_at m (s + length xs) ys"
proof (induction xs arbitrary: s)
  case (Cons x xs)
  from Cons.prems have "cstr_at m (Suc s) (xs @ ys)" by simp
  from Cons.IH [OF this] show ?case by simp
qed simp

lemma cstr_at_unique: "cstr_at m s xs \<Longrightarrow> cstr_at m s ys \<Longrightarrow> xs = ys"
proof (induction xs arbitrary: s ys)
  case Nil
  then show ?case by (cases ys) auto
next
  case (Cons x xs)
  then show ?case by (cases ys) auto
qed

text \<open>Replacing the block of \<open>length xs\<close> bytes at \<open>d\<close>.\<close>

definition blit :: "mem \<Rightarrow> nat \<Rightarrow> string \<Rightarrow> mem" where
  "blit m d xs = take d m @ xs @ drop (d + length xs) m"

definition block :: "mem \<Rightarrow> nat \<Rightarrow> nat \<Rightarrow> string" where
  "block m s n = take n (drop s m)"

lemma blit_Nil [simp]: "blit m d [] = m"
  by (simp add: blit_def)

lemma length_blit [simp]: "d + length xs \<le> length m \<Longrightarrow> length (blit m d xs) = length m"
  by (simp add: blit_def)

lemma length_block [simp]: "s + n \<le> length m \<Longrightarrow> length (block m s n) = n"
  by (simp add: block_def)

lemma nth_blit:
  "d + length xs \<le> length m \<Longrightarrow> i < length m \<Longrightarrow>
   blit m d xs ! i = (if d \<le> i \<and> i < d + length xs then xs ! (i - d) else m ! i)"
  by (auto simp: blit_def nth_append min_def)

lemma nth_block [simp]: "s + n \<le> length m \<Longrightarrow> i < n \<Longrightarrow> block m s n ! i = m ! (s + i)"
  by (simp add: block_def add.commute)

lemma blit_Cons: "d < length m \<Longrightarrow> blit (m[d := x]) (Suc d) xs = blit m d (x # xs)"
  by (simp add: blit_def take_Suc_conv_app_nth)

lemma blit_snoc:
  "d + length xs < length m \<Longrightarrow> blit (m[d + length xs := x]) d xs = blit m d (xs @ [x])"
  using Cons_nth_drop_Suc [of "d + length xs" "m[d + length xs := x]"] by (simp add: blit_def)

lemma block_Suc: "s < length m \<Longrightarrow> block m s (Suc n) = m ! s # block m (Suc s) n"
  by (simp add: block_def flip: Cons_nth_drop_Suc)

lemma block_snoc: "s + n < length m \<Longrightarrow> block m s (Suc n) = block m s n @ [m ! (s + n)]"
  by (simp add: block_def take_Suc_conv_app_nth)

lemma block_update_other: "d < s \<or> s + n \<le> d \<Longrightarrow> block (m[d := x]) s n = block m s n"
  by (auto simp: block_def drop_update_swap not_less)

lemma cstr_at_update_other:
  "cstr_at m s xs \<Longrightarrow> d < s \<or> s + length xs < d \<Longrightarrow> cstr_at (m[d := x]) s xs"
  by (auto simp: cstr_at_iff)

lemma mem_eqI: "length m = length m' \<Longrightarrow> (\<And>i. i < length m \<Longrightarrow> m ! i = m' ! i) \<Longrightarrow> m = m'"
  for m m' :: mem
  by (rule nth_equalityI)

lemma cstr_at_block: "cstr_at m s xs \<Longrightarrow> block m s (length xs) = xs"
  by (rule nth_equalityI) (auto simp: block_def cstr_at_iff add.commute)

lemma cstr_at_blitI:
  "NUL \<notin> set xs \<Longrightarrow> d + length xs < length m \<Longrightarrow> cstr_at (blit m d (xs @ [NUL])) d xs"
  by (auto simp: cstr_at_iff nth_blit nth_append)

lemma cstr_at_blit_other:
  "cstr_at m s ys \<Longrightarrow> d + length xs \<le> length m \<Longrightarrow>
   s + length ys < d \<or> d + length xs \<le> s \<Longrightarrow> cstr_at (blit m d xs) s ys"
  by (auto simp: cstr_at_iff nth_blit)

lemma block_split: "n \<le> l \<Longrightarrow> block m s l = block m s n @ block m (s + n) (l - n)"
  by (simp add: block_def take_add [symmetric] drop_drop [symmetric] del: drop_drop)
    (metis add.commute drop_drop le_add_diff_inverse take_add)

lemma block_0 [simp]: "block m s 0 = []"
  by (simp add: block_def)

lemma take_block: "take n (block m s l) = block m s (min n l)"
  by (simp add: block_def)

lemma block_blit_before: "d + length xs \<le> length m \<Longrightarrow> s + n \<le> d \<Longrightarrow> block (blit m d xs) s n = block m s n"
  by (rule nth_equalityI) (auto simp: nth_blit)

lemma block_blit_self: "d + length xs \<le> length m \<Longrightarrow> block (blit m d xs) d (length xs) = xs"
  by (rule nth_equalityI) (auto simp: nth_blit)

lemma blit_end: "d + length xs < length m \<Longrightarrow> (blit m d xs)[d + length xs := x] = blit m d (xs @ [x])"
  by (rule nth_equalityI) (auto simp: nth_list_update nth_blit nth_append)

lemma blit_blit: "d + length s + length t \<le> length m \<Longrightarrow> blit (blit m d s) (d + length s) t = blit m d (s @ t)"
  by (rule nth_equalityI) (auto simp: nth_blit nth_append)

lemma block_blit_same: "length bs = n \<Longrightarrow> off + n \<le> length v \<Longrightarrow> block (blit v off bs) off n = bs"
  by (simp add: block_def blit_def)

lemma block_blit_disjoint:
  "off + length bs \<le> length v \<Longrightarrow> i + n \<le> off \<or> off + length bs \<le> i \<Longrightarrow> i + n \<le> length v \<Longrightarrow>
   block (blit v off bs) i n = block v i n"
  by (rule nth_equalityI) (auto simp: nth_blit)

section \<open>Searching lists\<close>

lemma takeWhile_eq_length_iff: "length (takeWhile P xs) = length xs \<longleftrightarrow> (\<forall>x\<in>set xs. P x)"
  by (metis order_refl takeWhile_eq_all_conv take_all_iff takeWhile_eq_take)

text \<open>The position of the first element with a property.\<close>

fun first_index :: "('a \<Rightarrow> bool) \<Rightarrow> 'a list \<Rightarrow> nat option" where
  "first_index P [] = None"
| "first_index P (x # xs) = (if P x then Some 0 else map_option Suc (first_index P xs))"

lemma first_index_None: "first_index P xs = None \<longleftrightarrow> (\<forall>x\<in>set xs. \<not> P x)"
  by (induction xs) auto

lemma first_index_Some:
  "first_index P xs = Some i \<longleftrightarrow> i < length xs \<and> P (xs ! i) \<and> (\<forall>j < i. \<not> P (xs ! j))"
proof (induction xs arbitrary: i)
  case (Cons x xs)
  show ?case
  proof (cases i)
    case 0
    then show ?thesis by auto
  next
    case (Suc k)
    then show ?thesis using Cons.IH [of k] by (auto simp: less_Suc_eq_0_disj)
  qed
qed simp

section \<open>Strings read from the front\<close>

text \<open>
  Routines that only move forward over a NUL-terminated string work on the rest of the string;
  \<open>peek\<close> is the byte at the pointer, the terminator at the end.
\<close>

fun peek :: "string \<Rightarrow> char" where
  "peek [] = NUL"
| "peek (c # s) = c"

definition nth_opt :: "'a list \<Rightarrow> nat \<Rightarrow> 'a option" where
  "nth_opt xs i = (if i < length xs then Some (xs ! i) else None)"

lemma nth_opt_Some [simp]: "i < length xs \<Longrightarrow> nth_opt xs i = Some (xs ! i)"
  by (simp add: nth_opt_def)

end
