(* ===== verification/Libc_String.thy ===== *)
theory Libc_String
  imports Prelude
begin

text \<open>
  The C library's \<open>libc/src/string.c\<close> over the byte memory of \<open>Prelude\<close>. A pointer is an address
  (\<^typ>\<open>nat\<close>), \<open>NULL\<close> is \<open>None\<close> of \<open>ptr\<close>; the outer option of a result is \<open>None\<close> when the code
  reads or writes outside the memory. Every loop of the source is a recursive function on the
  loop's variables; all of them end, because every turn reads a byte and moves on.
  The lemmas give each routine's result on NUL-terminated strings and byte blocks.
\<close>

type_synonym ptr = "nat option"

section \<open>Blocks of bytes\<close>

fun memchr_loop :: "mem \<Rightarrow> nat \<Rightarrow> char \<Rightarrow> nat \<Rightarrow> ptr option" where
  "memchr_loop m ls lc 0 = Some None"
| "memchr_loop m ls lc (Suc n) =
     do { c \<leftarrow> load m ls; if c = lc then Some (Some ls) else memchr_loop m (Suc ls) lc n }"

definition memchr :: "mem \<Rightarrow> nat \<Rightarrow> int \<Rightarrow> nat \<Rightarrow> ptr option" where
  "memchr m s c n = memchr_loop m s (to_char c) n"

text \<open>\<open>while(--n && *u1 == *u2)\<close>: the loop is entered with \<open>n\<close> at least one.\<close>

fun memcmp_loop :: "mem \<Rightarrow> nat \<Rightarrow> nat \<Rightarrow> nat \<Rightarrow> int option" where
  "memcmp_loop m u1 u2 n =
     do { a \<leftarrow> load m u1; b \<leftarrow> load m u2;
          if 1 < n \<and> a = b then memcmp_loop m (Suc u1) (Suc u2) (n - 1)
          else Some (uc a - uc b) }"

definition memcmp :: "mem \<Rightarrow> nat \<Rightarrow> nat \<Rightarrow> nat \<Rightarrow> int option" where
  "memcmp m s1 s2 n = (if n = 0 then Some 0 else memcmp_loop m s1 s2 n)"

fun memcpy_loop :: "mem \<Rightarrow> nat \<Rightarrow> nat \<Rightarrow> nat \<Rightarrow> mem option" where
  "memcpy_loop m d s 0 = Some m"
| "memcpy_loop m d s (Suc n) =
     do { c \<leftarrow> load m s; m' \<leftarrow> store m d c; memcpy_loop m' (Suc d) (Suc s) n }"

definition memcpy :: "mem \<Rightarrow> nat \<Rightarrow> nat \<Rightarrow> nat \<Rightarrow> mem option" where
  "memcpy m dest src n = memcpy_loop m dest src n"

text \<open>The descending copy of \<open>memmove\<close>: \<open>n\<close> bytes remain, \<open>d + n - 1\<close> is written next.\<close>

fun memmove_down :: "mem \<Rightarrow> nat \<Rightarrow> nat \<Rightarrow> nat \<Rightarrow> mem option" where
  "memmove_down m d s 0 = Some m"
| "memmove_down m d s (Suc n) =
     do { c \<leftarrow> load m (s + n); m' \<leftarrow> store m (d + n) c; memmove_down m' d s n }"

definition memmove :: "mem \<Rightarrow> nat \<Rightarrow> nat \<Rightarrow> nat \<Rightarrow> mem option" where
  "memmove m d s n =
     (if n = 0 \<or> d = s then Some m
      else if d + n < s \<or> d > s + n then memcpy m d s n
      else if s < d then memmove_down m d s n
      else memcpy m d s n)"

fun memset_loop :: "mem \<Rightarrow> nat \<Rightarrow> char \<Rightarrow> nat \<Rightarrow> mem option" where
  "memset_loop m d c 0 = Some m"
| "memset_loop m d c (Suc n) = do { m' \<leftarrow> store m d c; memset_loop m' (Suc d) c n }"

definition memset :: "mem \<Rightarrow> nat \<Rightarrow> int \<Rightarrow> nat \<Rightarrow> mem option" where
  "memset m dest c n = memset_loop m dest (to_char c) n"

section \<open>Strings: reading\<close>

function strlen_loop :: "mem \<Rightarrow> nat \<Rightarrow> nat \<Rightarrow> nat option" where
  "strlen_loop m s len =
     do { c \<leftarrow> load m s; if c \<noteq> NUL then strlen_loop m (Suc s) (Suc len) else Some len }"
  by pat_completeness auto
termination
  by (relation "measure (\<lambda>(m, s, len). length m - s)") (auto simp: mem_simps)

definition strlen :: "mem \<Rightarrow> nat \<Rightarrow> nat option" where
  "strlen m s = strlen_loop m s 0"

function strchr_loop :: "mem \<Rightarrow> nat \<Rightarrow> char \<Rightarrow> ptr option" where
  "strchr_loop m ls lc =
     do { c \<leftarrow> load m ls;
          if c \<noteq> NUL then (if c = lc then Some (Some ls) else strchr_loop m (Suc ls) lc)
          else Some (if lc = NUL then Some ls else None) }"
  by pat_completeness auto
termination
  by (relation "measure (\<lambda>(m, s, lc). length m - s)") (auto simp: mem_simps)

definition strchr :: "mem \<Rightarrow> nat \<Rightarrow> int \<Rightarrow> ptr option" where
  "strchr m s c = strchr_loop m s (to_char c)"

function strrchr_loop :: "mem \<Rightarrow> nat \<Rightarrow> char \<Rightarrow> ptr \<Rightarrow> ptr option" where
  "strrchr_loop m ls lc ret =
     do { c \<leftarrow> load m ls;
          if c \<noteq> NUL then strrchr_loop m (Suc ls) lc (if c = lc then Some ls else ret)
          else Some (if lc = NUL then Some ls else ret) }"
  by pat_completeness auto
termination
  by (relation "measure (\<lambda>(m, s, lc, ret). length m - s)") (auto simp: mem_simps)

definition strrchr :: "mem \<Rightarrow> nat \<Rightarrow> int \<Rightarrow> ptr option" where
  "strrchr m s c = strrchr_loop m s (to_char c) None"

function strcmp_loop :: "mem \<Rightarrow> nat \<Rightarrow> nat \<Rightarrow> int option" where
  "strcmp_loop m u1 u2 =
     do { a \<leftarrow> load m u1; b \<leftarrow> load m u2;
          if a \<noteq> NUL \<and> b \<noteq> NUL \<and> a = b then strcmp_loop m (Suc u1) (Suc u2)
          else Some (uc a - uc b) }"
  by pat_completeness auto
termination
  by (relation "measure (\<lambda>(m, u1, u2). length m - u1)") (auto simp: mem_simps)

definition strcmp :: "mem \<Rightarrow> nat \<Rightarrow> nat \<Rightarrow> int option" where
  "strcmp m s1 s2 = strcmp_loop m s1 s2"

definition strcoll :: "mem \<Rightarrow> nat \<Rightarrow> nat \<Rightarrow> int option" where
  "strcoll m s1 s2 = strcmp m s1 s2"

text \<open>\<open>--n\<close> on a \<open>size_t\<close>: zero wraps to the largest value.\<close>

definition size_max :: nat where
  "size_max = 2 ^ 64 - 1"

definition dec_size :: "nat \<Rightarrow> nat" where
  "dec_size n = (if n = 0 then size_max else n - 1)"

text \<open>The condition \<open>--n && *u1 && *u2 && *u1 == *u2\<close> reads the bytes only when \<open>--n\<close> is not zero,
  but the return statement reads them in any case.\<close>

function strncmp :: "mem \<Rightarrow> nat \<Rightarrow> nat \<Rightarrow> nat \<Rightarrow> int option" where
  "strncmp m u1 u2 n =
     do { a \<leftarrow> load m u1; b \<leftarrow> load m u2;
          if dec_size n \<noteq> 0 \<and> a \<noteq> NUL \<and> b \<noteq> NUL \<and> a = b
          then strncmp m (Suc u1) (Suc u2) (dec_size n)
          else Some (uc a - uc b) }"
  by pat_completeness auto
termination
  by (relation "measure (\<lambda>(m, u1, u2, n). length m - u1)") (auto simp: mem_simps)

function strnlen_loop :: "mem \<Rightarrow> nat \<Rightarrow> nat \<Rightarrow> nat \<Rightarrow> nat option" where
  "strnlen_loop m s maxlen len =
     do { c \<leftarrow> load m s;
          if c \<noteq> NUL \<and> len < maxlen then strnlen_loop m (Suc s) maxlen (Suc len)
          else Some len }"
  by pat_completeness auto
termination
  by (relation "measure (\<lambda>(m, s, x, len). length m - s)") (auto simp: mem_simps)

definition strnlen :: "mem \<Rightarrow> nat \<Rightarrow> nat \<Rightarrow> nat option" where
  "strnlen m s maxlen = strnlen_loop m s maxlen 0"

text \<open>The inner loop of \<open>strcspn\<close>, \<open>strpbrk\<close>, \<open>strspn\<close> and \<open>strtok\<close>: is \<open>c\<close> a byte of the string at \<open>q\<close>?\<close>

function set_scan :: "mem \<Rightarrow> nat \<Rightarrow> char \<Rightarrow> bool option" where
  "set_scan m q c =
     do { b \<leftarrow> load m q;
          if b \<noteq> NUL then (if c = b then Some True else set_scan m (Suc q) c) else Some False }"
  by pat_completeness auto
termination
  by (relation "measure (\<lambda>(m, q, c). length m - q)") (auto simp: mem_simps)

function strcspn_loop :: "mem \<Rightarrow> nat \<Rightarrow> nat \<Rightarrow> 32 word \<Rightarrow> 32 word \<Rightarrow> nat option" where
  "strcspn_loop m s1 s2 ret len =
     do { c \<leftarrow> load m s1;
          if c \<noteq> NUL then
            do { hit \<leftarrow> set_scan m s2 c;
                 if hit then strcspn_loop m (Suc s1) s2 (if len + 1 < ret then ret else len + 1) (- 1)
                 else strcspn_loop m (Suc s1) s2 ret (len + 1) }
          else Some (unat ret) }"
  by pat_completeness auto
termination
  by (relation "measure (\<lambda>(m, s1, s2, ret, len). length m - s1)") (auto simp: mem_simps)

definition strcspn :: "mem \<Rightarrow> nat \<Rightarrow> nat \<Rightarrow> nat option" where
  "strcspn m s1 s2 = strcspn_loop m s1 s2 0 0"

function strpbrk :: "mem \<Rightarrow> nat \<Rightarrow> nat \<Rightarrow> ptr option" where
  "strpbrk m p s2 =
     do { c \<leftarrow> load m p;
          if c \<noteq> NUL then
            do { hit \<leftarrow> set_scan m s2 c;
                 if hit then Some (Some p) else strpbrk m (Suc p) s2 }
          else Some None }"
  by pat_completeness auto
termination
  by (relation "measure (\<lambda>(m, p, s2). length m - p)") (auto simp: mem_simps)

function strspn_loop :: "mem \<Rightarrow> nat \<Rightarrow> nat \<Rightarrow> nat \<Rightarrow> nat option" where
  "strspn_loop m s1 s2 i =
     do { c \<leftarrow> load m (s1 + i); hit \<leftarrow> set_scan m s2 c;
          if hit then strspn_loop m s1 s2 (Suc i) else Some i }"
  by pat_completeness auto
termination
  by (relation "measure (\<lambda>(m, s1, s2, i). length m - (s1 + i))") (auto simp: mem_simps)

definition strspn :: "mem \<Rightarrow> nat \<Rightarrow> nat \<Rightarrow> nat option" where
  "strspn m s1 s2 = strspn_loop m s1 s2 0"

text \<open>\<open>strstr\<close> keeps both lengths in an \<open>unsigned int\<close>.\<close>

function strstr_loop :: "mem \<Rightarrow> nat \<Rightarrow> nat \<Rightarrow> nat \<Rightarrow> nat \<Rightarrow> nat \<Rightarrow> ptr option" where
  "strstr_loop m s1 s2 len1 len2 i =
     (if i < len1 - len2 then
        do { r \<leftarrow> strncmp m (s1 + i) s2 len2;
             if r = 0 then Some (Some (s1 + i)) else strstr_loop m s1 s2 len1 len2 (Suc i) }
      else Some None)"
  by pat_completeness auto
termination
  by (relation "measure (\<lambda>(m, s1, s2, len1, len2, i). len1 - len2 - i)") auto

definition strstr :: "mem \<Rightarrow> nat \<Rightarrow> nat \<Rightarrow> ptr option" where
  "strstr m s1 s2 =
     do { l1 \<leftarrow> strlen m s1; l2 \<leftarrow> strlen m s2;
          let len1 = l1 mod 2 ^ 32; len2 = l2 mod 2 ^ 32 in
          if len2 = 0 then Some (Some s1)
          else if len1 < len2 then Some None
          else strstr_loop m s1 s2 len1 len2 0 }"

text \<open>\<open>strtok\<close> keeps its place in the static pointer \<open>s\<close> (\<open>sv\<close> here): the result carries the
  new one. A call with \<open>NULL\<close> before any other call dereferences \<open>NULL\<close>.\<close>

function strtok_loop :: "mem \<Rightarrow> nat \<Rightarrow> nat \<Rightarrow> nat \<Rightarrow> (ptr \<times> ptr) option" where
  "strtok_loop m s s2 i =
     do { c \<leftarrow> load m (s + i);
          if c \<noteq> NUL then
            do { hit \<leftarrow> set_scan m s2 c;
                 if hit then Some (Some s, Some (s + i + 1)) else strtok_loop m s s2 (Suc i) }
          else Some (None, Some s) }"
  by pat_completeness auto
termination
  by (relation "measure (\<lambda>(m, s, s2, i). length m - (s + i))") (auto simp: mem_simps)

definition strtok :: "mem \<Rightarrow> ptr \<Rightarrow> ptr \<Rightarrow> nat \<Rightarrow> (ptr \<times> ptr) option" where
  "strtok m sv s1 s2 =
     (case (if s1 \<noteq> None then s1 else sv) of None \<Rightarrow> None | Some s \<Rightarrow> strtok_loop m s s2 0)"

section \<open>Strings: writing\<close>

function strcpy_loop :: "mem \<Rightarrow> nat \<Rightarrow> nat \<Rightarrow> mem option" where
  "strcpy_loop m dest src =
     do { c \<leftarrow> load m src; m' \<leftarrow> store m dest c;
          if c \<noteq> NUL then strcpy_loop m' (Suc dest) (Suc src) else Some m' }"
  by pat_completeness auto
termination
  by (relation "measure (\<lambda>(m, d, s). length m - s)") (auto simp: mem_simps)

definition strcpy :: "mem \<Rightarrow> nat \<Rightarrow> nat \<Rightarrow> (mem \<times> nat) option" where
  "strcpy m dest src = do { m' \<leftarrow> strcpy_loop m dest src; Some (m', dest) }"

function skip_to_nul :: "mem \<Rightarrow> nat \<Rightarrow> nat option" where
  "skip_to_nul m dest =
     do { c \<leftarrow> load m dest; if c \<noteq> NUL then skip_to_nul m (Suc dest) else Some dest }"
  by pat_completeness auto
termination
  by (relation "measure (\<lambda>(m, s). length m - s)") (auto simp: mem_simps)

text \<open>\<open>while(*src) *(dest++) = *(src++); *dest = NUL\<close>.\<close>

function strcat_copy :: "mem \<Rightarrow> nat \<Rightarrow> nat \<Rightarrow> mem option" where
  "strcat_copy m dest src =
     do { c \<leftarrow> load m src;
          if c \<noteq> NUL then do { m' \<leftarrow> store m dest c; strcat_copy m' (Suc dest) (Suc src) }
          else store m dest NUL }"
  by pat_completeness auto
termination
  by (relation "measure (\<lambda>(m, d, s). length m - s)") (auto simp: mem_simps)

definition strcat :: "mem \<Rightarrow> nat \<Rightarrow> nat \<Rightarrow> (mem \<times> nat) option" where
  "strcat m dest src =
     do { e \<leftarrow> skip_to_nul m dest; m' \<leftarrow> strcat_copy m e src; Some (m', dest) }"

fun strncat_copy :: "mem \<Rightarrow> nat \<Rightarrow> nat \<Rightarrow> nat \<Rightarrow> mem option" where
  "strncat_copy m dest src 0 = store m dest NUL"
| "strncat_copy m dest src (Suc n) =
     do { c \<leftarrow> load m src;
          if c \<noteq> NUL then do { m' \<leftarrow> store m dest c; strncat_copy m' (Suc dest) (Suc src) n }
          else store m dest NUL }"

definition strncat :: "mem \<Rightarrow> nat \<Rightarrow> nat \<Rightarrow> nat \<Rightarrow> (mem \<times> nat) option" where
  "strncat m dest src n =
     do { e \<leftarrow> skip_to_nul m dest; m' \<leftarrow> strncat_copy m e src n; Some (m', dest) }"

fun strncpy_loop :: "mem \<Rightarrow> nat \<Rightarrow> nat \<Rightarrow> nat \<Rightarrow> mem option" where
  "strncpy_loop m dest src 0 = Some m"
| "strncpy_loop m dest src (Suc n) =
     do { c \<leftarrow> load m src; m' \<leftarrow> store m dest c;
          if c \<noteq> NUL then strncpy_loop m' (Suc dest) (Suc src) n else Some m' }"

definition strncpy :: "mem \<Rightarrow> nat \<Rightarrow> nat \<Rightarrow> nat \<Rightarrow> (mem \<times> nat) option" where
  "strncpy m dest src n = do { m' \<leftarrow> strncpy_loop m dest src n; Some (m', dest) }"

declare strlen_loop.simps [simp del] strchr_loop.simps [simp del] strrchr_loop.simps [simp del]
  strcmp_loop.simps [simp del] strncmp.simps [simp del] strnlen_loop.simps [simp del]
  set_scan.simps [simp del] strcspn_loop.simps [simp del] strpbrk.simps [simp del]
  strspn_loop.simps [simp del] strstr_loop.simps [simp del] strtok_loop.simps [simp del]
  strcpy_loop.simps [simp del] skip_to_nul.simps [simp del] strcat_copy.simps [simp del]
  memcmp_loop.simps [simp del]

section \<open>Results on blocks\<close>

lemma memcpy_loop_blit:
  "d \<le> s \<or> s + n \<le> d \<Longrightarrow> s + n \<le> length m \<Longrightarrow> d + n \<le> length m \<Longrightarrow>
   memcpy_loop m d s n = Some (blit m d (block m s n))"
proof (induction n arbitrary: m d s)
  case 0
  show ?case by (simp add: block_def)
next
  case (Suc n)
  let ?m = "m[d := m ! s]"
  have "memcpy_loop m d s (Suc n) = memcpy_loop ?m (Suc d) (Suc s) n"
    using Suc.prems by simp
  also have "\<dots> = Some (blit ?m (Suc d) (block ?m (Suc s) n))"
    using Suc.prems by (intro Suc.IH) auto
  also have "block ?m (Suc s) n = block m (Suc s) n"
    using Suc.prems by (intro block_update_other) auto
  also have "blit ?m (Suc d) (block m (Suc s) n) = blit m d (block m s (Suc n))"
    using Suc.prems by (simp add: blit_Cons block_Suc)
  finally show ?case .
qed

lemma memmove_down_blit:
  "s \<le> d \<Longrightarrow> d + n \<le> length m \<Longrightarrow> memmove_down m d s n = Some (blit m d (block m s n))"
proof (induction n arbitrary: m)
  case 0
  show ?case by (simp add: block_def)
next
  case (Suc n)
  let ?m = "m[d + n := m ! (s + n)]"
  have "memmove_down m d s (Suc n) = memmove_down ?m d s n"
    using Suc.prems by simp
  also have "\<dots> = Some (blit ?m d (block ?m s n))"
    using Suc.prems by (intro Suc.IH) auto
  also have "block ?m s n = block m s n"
    using Suc.prems by (intro block_update_other) auto
  also have "blit ?m d (block m s n) = blit m d (block m s (Suc n))"
    using Suc.prems blit_snoc [of d "block m s n" m "m ! (s + n)"] by (simp add: block_snoc)
  finally show ?case .
qed

lemma memset_loop_blit:
  "d + n \<le> length m \<Longrightarrow> memset_loop m d c n = Some (blit m d (replicate n c))"
proof (induction n arbitrary: m d)
  case 0
  show ?case by simp
next
  case (Suc n)
  let ?m = "m[d := c]"
  have "memset_loop m d c (Suc n) = memset_loop ?m (Suc d) c n"
    using Suc.prems by simp
  also have "\<dots> = Some (blit ?m (Suc d) (replicate n c))"
    using Suc.prems by (intro Suc.IH) auto
  also have "blit ?m (Suc d) (replicate n c) = blit m d (replicate (Suc n) c)"
    using Suc.prems by (simp add: blit_Cons)
  finally show ?case .
qed

lemma memmove_blit:
  "s + n \<le> length m \<Longrightarrow> d + n \<le> length m \<Longrightarrow> memmove m d s n = Some (blit m d (block m s n))"
proof -
  assume "s + n \<le> length m" "d + n \<le> length m"
  moreover have "blit m d (block m d n) = m" if "d + n \<le> length m"
    using that by (intro mem_eqI) (auto simp: nth_blit)
  ultimately show ?thesis
    by (auto simp: memmove_def memcpy_def memcpy_loop_blit memmove_down_blit block_def)
qed

lemma memchr_loop_index:
  "s + n \<le> length m \<Longrightarrow>
   memchr_loop m s c n = Some (map_option ((+) s) (first_index (\<lambda>x. x = c) (block m s n)))"
proof (induction n arbitrary: s)
  case 0
  show ?case by (simp add: block_def)
next
  case (Suc n)
  from Suc.prems have "block m s (Suc n) = m ! s # block m (Suc s) n"
    by (simp add: block_def Cons_nth_drop_Suc [symmetric])
  with Suc show ?case
    by (cases "first_index (\<lambda>x. x = c) (block m (Suc s) n)") auto
qed

section \<open>Results on strings\<close>

lemma strlen_loop_length: "cstr_at m s xs \<Longrightarrow> strlen_loop m s k = Some (k + length xs)"
proof (induction xs arbitrary: s k)
  case Nil
  then show ?case by (subst strlen_loop.simps) simp
next
  case (Cons x xs)
  then show ?case by (subst strlen_loop.simps) simp
qed

lemma strlen_length: "cstr_at m s xs \<Longrightarrow> strlen m s = Some (length xs)"
  by (simp add: strlen_def strlen_loop_length)

lemma strlen_loop_SomeD:
  "strlen_loop m s k = Some n \<Longrightarrow> \<exists>xs. cstr_at m s xs \<and> n = k + length xs"
proof (induction m s k arbitrary: n rule: strlen_loop.induct)
  case (1 m s k)
  show ?case
  proof (cases "load m s")
    case None
    with "1.prems" show ?thesis by (subst (asm) strlen_loop.simps) simp
  next
    case (Some c)
    show ?thesis
    proof (cases "c = NUL")
      case True
      with Some "1.prems" show ?thesis
        by (intro exI [of _ "[]"]) (subst (asm) strlen_loop.simps, simp)
    next
      case False
      with Some "1.prems" have "strlen_loop m (Suc s) (Suc k) = Some n"
        by (subst (asm) strlen_loop.simps) simp
      with "1.IH" [OF Some False] obtain xs where "cstr_at m (Suc s) xs" "n = Suc k + length xs"
        by blast
      with Some False show ?thesis by (intro exI [of _ "c # xs"]) simp
    qed
  qed
qed

lemma skip_to_nul_end: "cstr_at m s xs \<Longrightarrow> skip_to_nul m s = Some (s + length xs)"
proof (induction xs arbitrary: s)
  case Nil
  then show ?case by (subst skip_to_nul.simps) simp
next
  case (Cons x xs)
  then show ?case by (subst skip_to_nul.simps) simp
qed

lemma strchr_loop_index:
  "cstr_at m s xs \<Longrightarrow>
   strchr_loop m s c = Some (map_option ((+) s) (first_index (\<lambda>x. x = c) (xs @ [NUL])))"
proof (induction xs arbitrary: s)
  case Nil
  then show ?case by (subst strchr_loop.simps) auto
next
  case (Cons x xs)
  then show ?case
    by (subst strchr_loop.simps)
      (cases "first_index (\<lambda>x. x = c) (xs @ [NUL])", auto)
qed

lemma set_scan_mem: "cstr_at m q ys \<Longrightarrow> set_scan m q c = Some (c \<in> set ys)"
proof (induction ys arbitrary: q)
  case Nil
  then show ?case by (subst set_scan.simps) simp
next
  case (Cons y ys)
  then show ?case by (subst set_scan.simps) auto
qed

text \<open>The comparison of two strings, as a function of their values.\<close>

fun cmp_spec :: "string \<Rightarrow> string \<Rightarrow> int" where
  "cmp_spec [] [] = 0"
| "cmp_spec [] (y # ys) = - uc y"
| "cmp_spec (x # xs) [] = uc x"
| "cmp_spec (x # xs) (y # ys) = (if x = y then cmp_spec xs ys else uc x - uc y)"

lemma strcmp_loop_spec:
  "cstr_at m s xs \<Longrightarrow> cstr_at m t ys \<Longrightarrow> strcmp_loop m s t = Some (cmp_spec xs ys)"
proof (induction xs ys arbitrary: s t rule: cmp_spec.induct)
  case (1)
  then show ?case by (subst strcmp_loop.simps) simp
next
  case (2 y ys)
  then show ?case by (subst strcmp_loop.simps) simp
next
  case (3 x xs)
  then show ?case by (subst strcmp_loop.simps) simp
next
  case (4 x xs y ys)
  then show ?case by (subst strcmp_loop.simps) simp
qed

lemma cmp_spec_eq_0: "NUL \<notin> set xs \<Longrightarrow> NUL \<notin> set ys \<Longrightarrow> cmp_spec xs ys = 0 \<longleftrightarrow> xs = ys"
  by (induction xs ys rule: cmp_spec.induct) auto

text \<open>The strict order \<open>strcmp\<close> decides: the dictionary order on unsigned bytes.\<close>

fun lex_less :: "string \<Rightarrow> string \<Rightarrow> bool" where
  "lex_less xs [] \<longleftrightarrow> False"
| "lex_less [] (y # ys) \<longleftrightarrow> True"
| "lex_less (x # xs) (y # ys) \<longleftrightarrow> uc x < uc y \<or> x = y \<and> lex_less xs ys"

lemma cmp_spec_less:
  "NUL \<notin> set xs \<Longrightarrow> NUL \<notin> set ys \<Longrightarrow> cmp_spec xs ys < 0 \<longleftrightarrow> lex_less xs ys"
proof (induction xs ys rule: cmp_spec.induct)
  case (3 x xs)
  then show ?case using uc_bounds(1) [of x] by (simp add: not_less)
next
  case (2 y ys)
  then show ?case using uc_pos [of y] by auto
next
  case (4 x xs y ys)
  then show ?case by auto
qed simp

lemma cmp_spec_swap: "cmp_spec ys xs = - cmp_spec xs ys"
  by (induction xs ys rule: cmp_spec.induct) auto

lemma strcpy_loop_blit:
  "cstr_at m src xs \<Longrightarrow> dest + length xs < length m \<Longrightarrow> dest \<le> src \<or> src + length xs < dest \<Longrightarrow>
   strcpy_loop m dest src = Some (blit m dest (xs @ [NUL]))"
proof (induction xs arbitrary: m dest src)
  case Nil
  then show ?case
    by (subst strcpy_loop.simps)
      (auto simp: load_Some blit_def upd_conv_take_nth_drop)
next
  case (Cons x xs)
  let ?m = "m[dest := x]"
  have x: "src < length m" "m ! src = x" "x \<noteq> NUL"
    using Cons.prems by (auto simp: mem_simps)
  have "strcpy_loop m dest src = strcpy_loop ?m (Suc dest) (Suc src)"
    using Cons.prems x by (subst strcpy_loop.simps) simp
  also have "\<dots> = Some (blit ?m (Suc dest) (xs @ [NUL]))"
  proof (rule Cons.IH)
    show "cstr_at ?m (Suc src) xs"
      using Cons.prems by (intro cstr_at_update_other) auto
  qed (use Cons.prems in auto)
  also have "blit ?m (Suc dest) (xs @ [NUL]) = blit m dest ((x # xs) @ [NUL])"
    using Cons.prems by (simp add: blit_Cons)
  finally show ?case .
qed

lemma strcat_copy_blit:
  "cstr_at m src xs \<Longrightarrow> dest + length xs < length m \<Longrightarrow> src + length xs < dest \<or> dest + length xs < src
   \<Longrightarrow> strcat_copy m dest src = Some (blit m dest (xs @ [NUL]))"
proof (induction xs arbitrary: m dest src)
  case Nil
  then show ?case
    by (subst strcat_copy.simps)
      (auto simp: load_Some blit_def upd_conv_take_nth_drop)
next
  case (Cons x xs)
  let ?m = "m[dest := x]"
  have x: "src < length m" "m ! src = x" "x \<noteq> NUL"
    using Cons.prems by (auto simp: mem_simps)
  have "strcat_copy m dest src = strcat_copy ?m (Suc dest) (Suc src)"
    using Cons.prems x by (subst strcat_copy.simps) simp
  also have "\<dots> = Some (blit ?m (Suc dest) (xs @ [NUL]))"
  proof (rule Cons.IH)
    show "cstr_at ?m (Suc src) xs"
      using Cons.prems by (intro cstr_at_update_other) auto
  qed (use Cons.prems in auto)
  also have "blit ?m (Suc dest) (xs @ [NUL]) = blit m dest ((x # xs) @ [NUL])"
    using Cons.prems by (simp add: blit_Cons)
  finally show ?case .
qed

lemma strncmp_spec:
  "cstr_at m s xs \<Longrightarrow> cstr_at m t ys \<Longrightarrow>
   strncmp m s t (Suc n) = Some (cmp_spec (take (Suc n) xs) (take (Suc n) ys))"
proof (induction n arbitrary: s t xs ys)
  case 0
  then show ?case
    by (cases xs; cases ys) (subst strncmp.simps, simp add: dec_size_def)+
next
  case (Suc n)
  then show ?case
    by (cases xs; cases ys) (subst strncmp.simps, simp add: dec_size_def)+
qed

lemma strncmp_eq_0:
  assumes "cstr_at m s xs" "cstr_at m t ys" "ys \<noteq> []"
  shows "\<exists>r. strncmp m s t (length ys) = Some r \<and> (r = 0 \<longleftrightarrow> take (length ys) xs = ys)"
proof -
  from \<open>ys \<noteq> []\<close> obtain n where n: "length ys = Suc n" by (cases ys) auto
  have "NUL \<notin> set (take (Suc n) xs)" "NUL \<notin> set ys"
    using assms cstr_at_nonnul in_set_takeD by fast+
  with strncmp_spec [OF assms(1,2), of n] n cmp_spec_eq_0 [of "take (Suc n) xs" ys] show ?thesis
    by simp
qed

lemma strstr_loop_index:
  assumes "cstr_at m s xs" "cstr_at m t ys" "ys \<noteq> []" "len1 \<le> length xs" "i \<le> len1 - length ys"
  shows "strstr_loop m s t len1 (length ys) i =
      Some (map_option ((+) s)
        (find (\<lambda>j. take (length ys) (drop j xs) = ys) [i ..< len1 - length ys]))"
  using assms(5)
proof (induction "len1 - length ys - i" arbitrary: i)
  case 0
  then have "\<not> i < len1 - length ys" by simp
  then show ?case by (subst strstr_loop.simps) simp
next
  case (Suc d)
  let ?P = "\<lambda>j. take (length ys) (drop j xs) = ys"
  from Suc have i: "i < len1 - length ys" "[i ..< len1 - length ys] = i # [Suc i ..< len1 - length ys]"
    by (auto simp: upt_conv_Cons)
  have "cstr_at m (s + i) (drop i xs)"
    using cstr_at_drop [of m s "take i xs" "drop i xs"] assms(1,4) i by (simp add: min_absorb2)
  from strncmp_eq_0 [OF this assms(2,3)]
  obtain r where r: "strncmp m (s + i) t (length ys) = Some r" "r = 0 \<longleftrightarrow> ?P i" by blast
  have "strstr_loop m s t len1 (length ys) (Suc i) =
      Some (map_option ((+) s) (find ?P [Suc i ..< len1 - length ys]))"
    using Suc i by auto
  with r i show ?case by (subst strstr_loop.simps) auto
qed


text \<open>
  \<open>strlen\<close> returns exactly the length of the NUL-terminated string at its argument and
  reads out of bounds exactly when no terminator follows.
\<close>

theorem strlen_iff:
  "strlen m s = Some n \<longleftrightarrow> (\<exists>xs. cstr_at m s xs \<and> n = length xs)"
  using strlen_loop_SomeD [of m s 0 n] by (auto simp: strlen_def strlen_loop_length)

text \<open>
  C27: \<open>memmove\<close> moves \<open>n\<close> bytes for every overlap of source and destination: afterwards the
  destination block holds the source bytes as they were before the call, and no other byte has
  changed.
\<close>

theorem memmove_correct:
  assumes "s + n \<le> length m" "d + n \<le> length m"
  shows "\<exists>m'. memmove m d s n = Some m' \<and> length m' = length m
    \<and> (\<forall>i < length m. m' ! i = (if d \<le> i \<and> i < d + n then m ! (s + (i - d)) else m ! i))"
proof -
  have "block m s n ! (i - d) = m ! (s + (i - d))" if "d \<le> i" "i < d + n" for i
    using assms that by (intro nth_block) auto
  with assms show ?thesis by (auto simp: memmove_blit nth_blit)
qed

theorem memmove_correct_witness:
  "\<exists>m'. memmove ''abcdef'' 1 0 4 = Some m' \<and> length m' = length ''abcdef''
    \<and> (\<forall>i < length ''abcdef''. m' ! i =
          (if 1 \<le> i \<and> i < 1 + 4 then ''abcdef'' ! (0 + (i - 1)) else ''abcdef'' ! i))"
  by (rule memmove_correct) simp_all

text \<open>
  C28: \<open>strcmp\<close> decides the dictionary order of unsigned bytes: on two strings it returns, without
  leaving them, a value that is negative, zero or positive as the first is smaller, equal or larger.
\<close>

theorem strcmp_order:
  assumes "cstr_at m s xs" "cstr_at m t ys"
  shows "\<exists>r. strcmp m s t = Some r \<and> (r < 0 \<longleftrightarrow> lex_less xs ys) \<and> (r = 0 \<longleftrightarrow> xs = ys)
    \<and> (0 < r \<longleftrightarrow> lex_less ys xs)"
proof (intro exI conjI)
  note nul = assms [THEN cstr_at_nonnul]
  show "strcmp m s t = Some (cmp_spec xs ys)"
    using assms by (simp add: strcmp_def strcmp_loop_spec)
  show "cmp_spec xs ys < 0 \<longleftrightarrow> lex_less xs ys" "cmp_spec xs ys = 0 \<longleftrightarrow> xs = ys"
    using nul by (simp_all add: cmp_spec_less cmp_spec_eq_0)
  show "0 < cmp_spec xs ys \<longleftrightarrow> lex_less ys xs"
    using nul cmp_spec_less [of ys xs] cmp_spec_swap [of ys xs] by simp
qed

theorem strcmp_order_witness:
  "\<exists>r. strcmp [CHR ''a'', CHR ''b'', NUL, CHR ''a'', NUL] 0 3 = Some r
    \<and> (r < 0 \<longleftrightarrow> lex_less ''ab'' ''a'') \<and> (r = 0 \<longleftrightarrow> ''ab'' = ''a'') \<and> (0 < r \<longleftrightarrow> lex_less ''a'' ''ab'')"
  by (rule strcmp_order) (simp_all add: load_def)

text \<open>
  \<open>strcat\<close> appends: with room for the result after the destination string and the source
  clear of it, the destination holds the concatenation, the source is intact and no byte outside
  the appended part changes.
\<close>

theorem strcat_correct:
  assumes "cstr_at m dest xs" "cstr_at m src ys"
    and "dest + length xs + length ys < length m"
    and "src + length ys < dest \<or> dest + length xs + length ys < src"
  shows "\<exists>m'. strcat m dest src = Some (m', dest) \<and> cstr_at m' dest (xs @ ys) \<and> cstr_at m' src ys
    \<and> length m' = length m
    \<and> (\<forall>i < length m. i < dest + length xs \<or> dest + length xs + length ys < i \<longrightarrow> m' ! i = m ! i)"
proof -
  let ?e = "dest + length xs"
  let ?m = "blit m ?e (ys @ [NUL])"
  have "strcat_copy m ?e src = Some ?m"
    using assms by (intro strcat_copy_blit) auto
  then have "strcat m dest src = Some (?m, dest)"
    using assms by (simp add: strcat_def skip_to_nul_end)
  moreover have "cstr_at ?m dest (xs @ ys)"
    using assms by (auto simp: cstr_at_iff nth_blit nth_append)
  moreover have "cstr_at ?m src ys"
    using assms by (intro cstr_at_blit_other) auto
  ultimately show ?thesis using assms(3) by (simp add: nth_blit)
qed

theorem strcat_correct_witness:
  "let m = [CHR ''a'', NUL, CHR ''x'', CHR ''b'', NUL] in
   \<exists>m'. strcat m 0 3 = Some (m', 0) \<and> cstr_at m' 0 (''a'' @ ''b'') \<and> cstr_at m' 3 ''b''
    \<and> length m' = length m
    \<and> (\<forall>i < length m. i < 0 + length ''a'' \<or> 0 + length ''a'' + length ''b'' < i \<longrightarrow> m' ! i = m ! i)"
  unfolding Let_def by (rule strcat_correct) simp_all

text \<open>
  \<open>strstr\<close> searches the positions before \<open>strlen(s1) - strlen(s2)\<close> only: it returns the first
  occurrence among them, so an occurrence at the very end of \<open>s1\<close> is never reported.
\<close>

theorem strstr_first_but_last:
  assumes "cstr_at m s xs" "cstr_at m t ys" "ys \<noteq> []" "length xs < 2 ^ 32" "length ys < 2 ^ 32"
  shows "strstr m s t =
    Some (map_option ((+) s)
      (find (\<lambda>j. take (length ys) (drop j xs) = ys) [0 ..< length xs - length ys]))"
proof (cases "length xs < length ys")
  case True
  with assms show ?thesis by (simp add: strstr_def strlen_length)
next
  case False
  with assms show ?thesis by (simp add: strstr_def strlen_length strstr_loop_index Let_def)
qed

theorem strstr_first_but_last_witness:
  "strstr [CHR ''a'', CHR ''b'', NUL, CHR ''b'', NUL] 0 3 =
    Some (map_option ((+) 0) (find (\<lambda>j. take 1 (drop j ''ab'') = ''b'') [0 ..< 1]))"
  using strstr_first_but_last [of "[CHR ''a'', CHR ''b'', NUL, CHR ''b'', NUL]" 0 "''ab''" 3 "''b''"]
  by (simp add: load_def)

end
