(* ===== verification/Sys_World.thy ===== *)
theory Sys_World
  imports Libc_String
begin

text \<open>
  What the libSystem routines share: the outcome of the next allocations, \<open>errno\<close>, the error
  slot of \<open>libSystem/src/error.c\<close> and the objects of \<open>libSystem/src/object.c\<close>; also the message
  table of \<open>strerror\<close> in \<open>libc/src/string.c\<close>, which the error texts come from.

  Memory exhaustion is an input of the model: \<open>alloc\<close> lists the outcomes of the coming calls of
  \<open>malloc\<close> and \<open>realloc\<close> (\<open>False\<close>: it returns \<open>NULL\<close>); when the list is used up, all later calls
  succeed. A formatted message is passed to the error routines as the text it formats to.
\<close>

record world =
  alloc :: "bool list"
  errno :: int
  err_buf :: string
  err_code :: int
  err_out :: string

text \<open>A fresh process: no error recorded and memory for every allocation.\<close>

abbreviation world0 :: world where
  "world0 \<equiv> \<lparr>alloc = [], errno = 0, err_buf = [], err_code = 0, err_out = []\<rparr>"

definition ENOMEM :: int where "ENOMEM = 12"
definition EINVAL :: int where "EINVAL = 22"
definition ERANGE :: int where "ERANGE = 34"

text \<open>The error table of \<open>strerror_r\<close>, with the numbers of \<open>kernel/linux/errno.h\<close>.\<close>

definition strerror_table :: "(int \<times> string) list" where
  "strerror_table =
    [(0, ''Success''), (7, ''Argument list too long''), (13, ''Permission denied''),
     (11, ''Resource temporarily unavailable''), (9, ''Bad file descriptor''),
     (16, ''Device or resource busy''), (10, ''No child processes''), (17, ''File exists''),
     (14, ''Bad address''), (4, ''Interrupted system call''), (22, ''Invalid argument''),
     (21, ''Is a directory''), (105, ''No buffer space available''), (19, ''No such device''),
     (2, ''No such file or directory''), (8, ''Exec format error''), (12, ''Not enough memory''),
     (38, ''Not implemented''), (20, ''Not a directory''), (95, ''Operation not supported''),
     (25, ''Inappropriate ioctl for device''), (6, ''Device not configured''),
     (1, ''Permission denied''), (32, ''Broken pipe''), (34, ''Result too large or too small''),
     (30, ''Read-only filesystem''), (3, ''No such process''), (18, ''Cross-device link'')]"

text \<open>Decimal digits of a natural number, as \<open>%d\<close> prints them.\<close>

fun show_nat :: "nat \<Rightarrow> string" where
  "show_nat n = (if n < 10 then [char_of (48 + n)] else show_nat (n div 10) @ [char_of (48 + n mod 10)])"

declare show_nat.simps [simp del]

definition show_int :: "int \<Rightarrow> string" where
  "show_int i = (if i < 0 then CHR ''-'' # show_nat (nat (- i)) else show_nat (nat i))"

text \<open>
  \<open>strerror_r\<close>: the text stored in the buffer (at most \<open>buflen - 1\<close> bytes of it) and the return
  value; \<open>buflen\<close> is at least one.
\<close>

definition strerror_r :: "int \<Rightarrow> nat \<Rightarrow> int \<times> string" where
  "strerror_r errnum buflen =
     (case map_of strerror_table errnum of
        Some msg \<Rightarrow>
          (if buflen \<le> length msg then ERANGE else 0, take (buflen - 1) msg)
      | None \<Rightarrow>
          let msg = ''Unknown error: '' @ show_int errnum in
          (if buflen \<le> length msg then ERANGE else EINVAL, take (buflen - 1) msg))"

definition strerror :: "int \<Rightarrow> world \<Rightarrow> string \<times> world" where
  "strerror errnum w =
     (case strerror_r errnum 256 of
        (r, msg) \<Rightarrow> (msg, if r \<noteq> 0 then w\<lparr>errno := EINVAL\<rparr> else w))"

section \<open>Error slot\<close>

text \<open>
  \<open>_error_do\<close>: with a format it stores the message (255 bytes and the terminator fit in the
  buffer) and, when a code is given, the code; without one it only reads the slot.
\<close>

definition error_do :: "int option \<Rightarrow> string option \<Rightarrow> world \<Rightarrow> string \<times> int option \<times> world" where
  "error_do codeptr format w =
     (case format of
        Some msg \<Rightarrow>
          let w' = w\<lparr>err_buf := take 255 msg\<rparr>;
              w'' = (case codeptr of Some c \<Rightarrow> w'\<lparr>err_code := c\<rparr> | None \<Rightarrow> w')
          in (err_buf w'', codeptr, w'')
      | None \<Rightarrow> (err_buf w, map_option (\<lambda>_. err_code w) codeptr, w))"

definition error_get :: "world \<Rightarrow> string" where
  "error_get w = fst (error_do None None w)"

definition error_get_code :: "world \<Rightarrow> string \<times> int" where
  "error_get_code w = (case error_do (Some 0) None w of (msg, c, _) \<Rightarrow> (msg, the c))"

definition error_set :: "string \<Rightarrow> world \<Rightarrow> world" where
  "error_set msg w = snd (snd (error_do None (Some msg) w))"

definition error_set_code :: "int \<Rightarrow> string \<Rightarrow> world \<Rightarrow> int \<times> world" where
  "error_set_code code msg w = (code, snd (snd (error_do (Some code) (Some msg) w)))"

definition error_print :: "string option \<Rightarrow> world \<Rightarrow> int \<times> world" where
  "error_print program w =
     (let w1 = (case program of Some p \<Rightarrow> w\<lparr>err_out := err_out w @ p @ '': ''\<rparr> | None \<Rightarrow> w) in
      case error_do (Some 0) None w1 of
        (msg, c, w2) \<Rightarrow> (the c, w2\<lparr>err_out := err_out w2 @ msg @ [NL]\<rparr>))"

definition error_set_print :: "string option \<Rightarrow> int \<Rightarrow> string \<Rightarrow> world \<Rightarrow> int \<times> world" where
  "error_set_print program code msg w =
     error_print program (snd (snd (error_do (Some code) (Some msg) w)))"

section \<open>Allocation\<close>

text \<open>\<open>malloc\<close> and \<open>realloc\<close> as the callers see them: they succeed or set \<open>errno\<close>.\<close>

definition w_alloc :: "world \<Rightarrow> bool \<times> world" where
  "w_alloc w =
     (case alloc w of
        [] \<Rightarrow> (True, w)
      | ok # rest \<Rightarrow> (ok, if ok then w\<lparr>alloc := rest\<rparr> else w\<lparr>alloc := rest, errno := ENOMEM\<rparr>))"

text \<open>The error the wrappers report: \<open>error_set_code(1, "%s", strerror(e))\<close>.\<close>

definition fail_errno :: "int \<Rightarrow> world \<Rightarrow> world" where
  "fail_errno e w = (case strerror e w of (msg, w') \<Rightarrow> snd (error_set_code 1 msg w'))"

definition object_new :: "nat \<Rightarrow> world \<Rightarrow> bool \<times> world" where
  "object_new sz w =
     (if sz = 0 then (False, fail_errno EINVAL w)
      else case w_alloc w of
        (True, w') \<Rightarrow> (True, w')
      | (False, w') \<Rightarrow> (False, fail_errno (errno w') w'))"

definition object_resize :: "nat \<Rightarrow> world \<Rightarrow> int \<times> world" where
  "object_resize sz w =
     (case w_alloc w of
        (True, w') \<Rightarrow> (0, w')
      | (False, w') \<Rightarrow> (1, fail_errno (errno w') w'))"

section \<open>Facts\<close>

text \<open>A world in which no allocation fails.\<close>

definition plenty :: "world \<Rightarrow> bool" where
  "plenty w \<longleftrightarrow> (\<forall>ok \<in> set (alloc w). ok)"

lemma plenty_Nil [simp]: "alloc w = [] \<Longrightarrow> plenty w"
  by (simp add: plenty_def)

lemma plenty_update [simp]:
  "plenty (w\<lparr>errno := e\<rparr>) = plenty w" "plenty (w\<lparr>err_buf := b\<rparr>) = plenty w"
  "plenty (w\<lparr>err_code := c\<rparr>) = plenty w" "plenty (w\<lparr>err_out := t\<rparr>) = plenty w"
  by (simp_all add: plenty_def)

lemma w_alloc_plenty [world_simps]:
  "plenty w \<Longrightarrow> \<exists>w'. w_alloc w = (True, w') \<and> plenty w' \<and> errno w' = errno w
     \<and> err_buf w' = err_buf w \<and> err_code w' = err_code w \<and> err_out w' = err_out w"
  by (cases "alloc w") (auto simp: w_alloc_def plenty_def)

lemma strerror_alloc [simp]: "alloc (snd (strerror e w)) = alloc w"
  by (auto simp: strerror_def split: prod.split)

lemma fail_errno_alloc [simp]: "alloc (fail_errno e w) = alloc w"
  by (cases "strerror e w") (use strerror_alloc [of e w] in
    \<open>simp add: fail_errno_def error_set_code_def error_do_def Let_def\<close>)

lemma plenty_fail_errno [simp]: "plenty (fail_errno e w) = plenty w"
  by (simp add: plenty_def)

lemma error_set_code_fst [simp]: "fst (error_set_code c msg w) = c"
  by (simp add: error_set_code_def)

lemma error_set_code_snd:
  "snd (error_set_code c msg w) = w\<lparr>err_buf := take 255 msg, err_code := c\<rparr>"
  by (simp add: error_set_code_def error_do_def Let_def)

lemma plenty_error_set_code [simp]: "plenty (snd (error_set_code c msg w)) = plenty w"
  by (simp add: error_set_code_snd)

lemma error_get_code_set: "error_get_code (snd (error_set_code c msg w)) = (take 255 msg, c)"
  by (simp add: error_get_code_def error_do_def error_set_code_snd)

lemma fail_errno_code: "err_code (fail_errno e w) = 1"
  by (simp add: fail_errno_def error_set_code_snd split: prod.split)

lemma object_new_ok:
  "plenty w \<Longrightarrow> 0 < sz \<Longrightarrow> \<exists>w'. object_new sz w = (True, w') \<and> plenty w'"
  using w_alloc_plenty [of w] by (auto simp: object_new_def)

lemma object_resize_ok: "plenty w \<Longrightarrow> \<exists>w'. object_resize sz w = (0, w') \<and> plenty w'"
  using w_alloc_plenty [of w] by (auto simp: object_resize_def)

lemma object_resize_result: "fst (object_resize sz w) \<in> {0, 1}"
  by (auto simp: object_resize_def split: prod.split bool.split)

lemma object_new_fail_code: "object_new sz w = (False, w') \<Longrightarrow> err_code w' = 1"
  by (auto simp: object_new_def fail_errno_code split: if_splits prod.splits bool.splits)

lemma object_resize_fail_code: "object_resize sz w = (r, w') \<Longrightarrow> r \<noteq> 0 \<Longrightarrow> r = 1 \<and> err_code w' = 1"
  by (auto simp: object_resize_def fail_errno_code split: prod.splits bool.splits)

end
