(* ===== verification/Sys_Array.thy ===== *)
theory Sys_Array
  imports Sys_World
begin

text \<open>
  The growing array of \<open>libSystem/src/array.c\<close>: elements of \<open>arr_size\<close> bytes, one after the other, in
  one allocated block \<open>arr_value\<close> (the bytes the block has, \<open>[]\<close> for \<open>NULL\<close>). Offsets into the block
  are computed as the code does, modulo \<open>2^64\<close>; an access outside the block is undefined behaviour,
  the result \<open>None\<close>. The bytes \<open>realloc\<close> adds are indeterminate: \<open>junk\<close> gives them, and every fact
  holds for each choice of it.

  The second half gives the array's contract, the list of its elements, as a locale, and interprets
  it on the byte-level operations and on the element lists the other components use.
\<close>

record Array =
  arr_count :: nat
  arr_size :: nat
  arr_value :: string

definition szt :: "nat \<Rightarrow> nat" where
  "szt n = n mod 2 ^ 64"

definition realloc_block :: "(nat \<Rightarrow> char) \<Rightarrow> string \<Rightarrow> nat \<Rightarrow> string" where
  "realloc_block junk v n = map (\<lambda>i. if i < length v then v ! i else junk i) [0 ..< n]"

definition read_block :: "string \<Rightarrow> nat \<Rightarrow> nat \<Rightarrow> string option" where
  "read_block v off n = (if off + n \<le> length v then Some (block v off n) else None)"

definition write_block :: "string \<Rightarrow> nat \<Rightarrow> string \<Rightarrow> string option" where
  "write_block v off bs = (if off + length bs \<le> length v then Some (blit v off bs) else None)"

section \<open>The operations\<close>

definition array_new :: "nat \<Rightarrow> world \<Rightarrow> Array option \<times> world" where
  "array_new sz w =
     (case object_new 24 w of
        (False, w') \<Rightarrow> (None, w')
      | (True, w') \<Rightarrow> (Some \<lparr>arr_count = 0, arr_size = sz, arr_value = []\<rparr>, w'))"

definition array_count :: "Array \<Rightarrow> nat" where
  "array_count a = arr_count a"

text \<open>\<open>array_get\<close> returns a pointer into the block, given as the offset.\<close>

definition array_get :: "Array \<Rightarrow> nat \<Rightarrow> nat option" where
  "array_get a pos = (if pos \<ge> arr_count a then None else Some (szt (pos * arr_size a)))"

definition array_get_copy :: "Array \<Rightarrow> nat \<Rightarrow> (int \<times> string) option" where
  "array_get_copy a pos =
     (if pos \<ge> arr_count a then Some (1, [])
      else do { bs \<leftarrow> read_block (arr_value a) (szt (pos * arr_size a)) (arr_size a); Some (0, bs) })"

text \<open>\<open>value\<close> points to \<open>arr_size a\<close> bytes, \<open>v\<close>.\<close>

definition array_set ::
  "(nat \<Rightarrow> char) \<Rightarrow> Array \<Rightarrow> nat \<Rightarrow> string \<Rightarrow> world \<Rightarrow> (int \<times> Array \<times> world) option" where
  "array_set junk a pos v w =
     (let newpos = szt (arr_count a * pos) in
      if arr_count a \<le> pos then
        (case w_alloc w of
           (False, w') \<Rightarrow> Some (1, a, fail_errno (errno w') w')
         | (True, w') \<Rightarrow>
             let p = realloc_block junk (arr_value a) (szt (arr_size a * szt (pos + 1)));
                 cursize = szt (arr_count a * arr_size a) in
             do { q \<leftarrow> write_block p cursize (replicate (szt (2 ^ 64 + newpos - cursize)) NUL);
                  r \<leftarrow> write_block q newpos (take (arr_size a) v);
                  Some (0, a\<lparr>arr_value := r, arr_count := szt (pos + 1)\<rparr>, w') })
      else
        do { r \<leftarrow> write_block (arr_value a) newpos (take (arr_size a) v);
             Some (0, a\<lparr>arr_value := r\<rparr>, w) })"

definition array_append ::
  "(nat \<Rightarrow> char) \<Rightarrow> Array \<Rightarrow> string \<Rightarrow> world \<Rightarrow> (int \<times> Array \<times> world) option" where
  "array_append junk a v w =
     (case w_alloc w of
        (False, w') \<Rightarrow> Some (1, a, fail_errno (errno w') w')
      | (True, w') \<Rightarrow>
          let p = realloc_block junk (arr_value a) (szt (arr_size a * szt (arr_count a + 1))) in
          do { q \<leftarrow> write_block p (szt (arr_size a * arr_count a)) (take (arr_size a) v);
               Some (0, a\<lparr>arr_value := q, arr_count := szt (arr_count a + 1)\<rparr>, w') })"

definition array_remove_pos :: "Array \<Rightarrow> nat \<Rightarrow> (int \<times> Array) option" where
  "array_remove_pos a pos =
     (if pos \<ge> arr_count a then Some (1, a)
      else
        let n = arr_count a - 1 in
        do { v \<leftarrow> memmove (arr_value a) (szt (pos * arr_size a)) (szt ((pos + 1) * arr_size a))
                    (szt ((n - pos) * arr_size a));
             Some (0, a\<lparr>arr_count := n, arr_value := v\<rparr>) })"

text \<open>\<open>array_foreach\<close> passes a pointer to each element; \<open>func\<close> may write the element and its data.\<close>

function foreach_loop ::
  "(string \<Rightarrow> 'd \<Rightarrow> string \<times> 'd) \<Rightarrow> Array \<Rightarrow> nat \<Rightarrow> 'd \<Rightarrow> (Array \<times> 'd) option" where
  "foreach_loop func a i d =
     (if i < arr_count a then
        do { bs \<leftarrow> read_block (arr_value a) (szt (i * arr_size a)) (arr_size a);
             v \<leftarrow> write_block (arr_value a) (szt (i * arr_size a)) (take (arr_size a) (fst (func bs d)));
             foreach_loop func (a\<lparr>arr_value := v\<rparr>) (i + 1) (snd (func bs d)) }
      else Some (a, d))"
  by pat_completeness auto
termination
  by (relation "measure (\<lambda>(f, a, i, d). arr_count a - i)") auto

declare foreach_loop.simps [simp del]

definition array_foreach ::
  "(string \<Rightarrow> 'd \<Rightarrow> string \<times> 'd) \<Rightarrow> Array \<Rightarrow> 'd \<Rightarrow> (Array \<times> 'd) option" where
  "array_foreach func a d = foreach_loop func a 0 d"

section \<open>The elements of an array\<close>

text \<open>The block holds all elements and its size is a \<open>size_t\<close> with room for one more element.\<close>

definition array_wf :: "Array \<Rightarrow> bool" where
  "array_wf a \<longleftrightarrow> 0 < arr_size a \<and> arr_count a * arr_size a \<le> length (arr_value a)
     \<and> (arr_count a + 1) * arr_size a < 2 ^ 64 \<and> length (arr_value a) < 2 ^ 64"

definition elems :: "Array \<Rightarrow> string list" where
  "elems a = map (\<lambda>i. block (arr_value a) (i * arr_size a) (arr_size a)) [0 ..< arr_count a]"

lemma length_elems [simp]: "length (elems a) = arr_count a"
  by (simp add: elems_def)

lemma nth_elems: "i < arr_count a \<Longrightarrow> elems a ! i = block (arr_value a) (i * arr_size a) (arr_size a)"
  by (simp add: elems_def)

lemma szt_id: "n < 2 ^ 64 \<Longrightarrow> szt n = n"
  by (simp add: szt_def)

lemma length_realloc_block [simp]: "length (realloc_block junk v n) = n"
  by (simp add: realloc_block_def)

lemma nth_realloc_block: "i < n \<Longrightarrow> i < length v \<Longrightarrow> realloc_block junk v n ! i = v ! i"
  by (simp add: realloc_block_def)

lemma elem_end: "i < n \<Longrightarrow> i * z + z \<le> n * z" for i n z :: nat
  using mult_le_mono1 [of "i + 1" n z] by (simp add: algebra_simps)

lemma array_wf_offset:
  assumes "array_wf a" "i < arr_count a"
  shows "szt (i * arr_size a) = i * arr_size a" "i * arr_size a + arr_size a \<le> length (arr_value a)"
proof -
  have "i * arr_size a + arr_size a \<le> arr_count a * arr_size a"
    using assms(2) by (rule elem_end)
  with assms(1) show "i * arr_size a + arr_size a \<le> length (arr_value a)"
    by (simp add: array_wf_def)
  with assms(1) show "szt (i * arr_size a) = i * arr_size a"
    by (intro szt_id) (simp add: array_wf_def)
qed

lemma array_get_elems:
  "array_wf a \<Longrightarrow> array_get a pos =
     (if pos < arr_count a then Some (pos * arr_size a) else None)"
  by (simp add: array_get_def array_wf_offset)

lemma array_get_copy_elems:
  "array_wf a \<Longrightarrow> array_get_copy a pos =
     Some (if pos < arr_count a then (0, elems a ! pos) else (1, []))"
  by (auto simp: array_get_copy_def read_block_def array_wf_offset nth_elems)

lemma array_new_elems:
  "array_new sz w = (Some a, w') \<Longrightarrow> 0 < sz \<Longrightarrow> sz < 2 ^ 64 \<Longrightarrow> array_wf a \<and> elems a = [] \<and> arr_size a = sz"
  by (auto simp: array_new_def array_wf_def elems_def split: prod.splits bool.splits)

text \<open>Appending writes the element just behind the others, in a block that has room for it.\<close>

lemma block_realloc: "i + n \<le> k \<Longrightarrow> i + n \<le> length v \<Longrightarrow> block (realloc_block junk v k) i n = block v i n"
  by (rule nth_equalityI) (auto simp: nth_realloc_block)

lemma array_append_elems:
  assumes wf: "array_wf a" and v: "length v = arr_size a" and "w_alloc w = (True, w')"
    and room: "(arr_count a + 2) * arr_size a < 2 ^ 64"
  shows "\<exists>a'. array_append junk a v w = Some (0, a', w') \<and> array_wf a' \<and> elems a' = elems a @ [v]
     \<and> arr_size a' = arr_size a"
proof -
  let ?n = "arr_count a" and ?z = "arr_size a"
  let ?p = "realloc_block junk (arr_value a) (?n * ?z + ?z)"
  let ?q = "blit ?p (?n * ?z) v"
  have z: "0 < ?z" and fits: "?n * ?z \<le> length (arr_value a)" and cap: "?n * ?z + ?z < 2 ^ 64"
    using wf by (auto simp: array_wf_def algebra_simps)
  have n: "?n + 1 < 2 ^ 64"
  proof -
    have "?n + 1 \<le> (?n + 1) * ?z" using z by (cases ?z) auto
    also have "\<dots> < 2 ^ 64" using cap by (simp add: algebra_simps)
    finally show ?thesis .
  qed
  have szt: "szt (?z * (?n + 1)) = ?n * ?z + ?z" "szt (?z * ?n) = ?n * ?z" "szt (?n + 1) = ?n + 1"
    using n cap by (simp_all add: szt_id algebra_simps)
  have el: "block ?q (i * ?z) ?z = (elems a @ [v]) ! i" if "i < ?n + 1" for i
  proof (cases "i = ?n")
    case True
    with v show ?thesis by (simp add: block_blit_same nth_append)
  next
    case False
    with that have i: "i < ?n" by simp
    with elem_end [of i ?n ?z] v fits show ?thesis
      by (simp add: block_blit_disjoint block_realloc nth_append nth_elems)
  qed
  let ?a = "a\<lparr>arr_value := ?q, arr_count := ?n + 1\<rparr>"
  have "array_append junk a v w = Some (0, ?a, w')"
    using assms(3) v unfolding array_append_def Let_def szt write_block_def by simp
  moreover have "array_wf ?a"
    using z cap room v by (simp add: array_wf_def algebra_simps)
  moreover have "elems ?a = elems a @ [v]"
    using el by (intro nth_equalityI) (auto simp: nth_elems)
  ultimately show ?thesis by auto
qed

lemma array_append_fail:
  "w_alloc w = (False, w') \<Longrightarrow> array_append junk a v w = Some (1, a, fail_errno (errno w') w')"
  by (simp add: array_append_def)

lemma array_remove_pos_elems:
  assumes wf: "array_wf a" and pos: "pos < arr_count a"
  shows "\<exists>a'. array_remove_pos a pos = Some (0, a') \<and> array_wf a'
     \<and> elems a' = take pos (elems a) @ drop (Suc pos) (elems a) \<and> arr_size a' = arr_size a"
proof -
  let ?n = "arr_count a" and ?z = "arr_size a" and ?v = "arr_value a"
  let ?k = "(?n - 1 - pos) * ?z"
  let ?q = "blit ?v (pos * ?z) (block ?v ((pos + 1) * ?z) ?k)"
  have fits: "?n * ?z \<le> length ?v" "length ?v < 2 ^ 64"
    using wf by (auto simp: array_wf_def)
  obtain r where r: "?n = pos + 1 + r" using pos less_imp_Suc_add by fastforce
  have k: "?k = r * ?z" "(pos + 1) * ?z + ?k = ?n * ?z"
    using r by (simp_all add: algebra_simps)
  have szt: "szt (pos * ?z) = pos * ?z" "szt ((pos + 1) * ?z) = (pos + 1) * ?z" "szt ?k = ?k"
    using k fits by (auto intro!: szt_id simp: algebra_simps)
  have bounds: "(pos + 1) * ?z + ?k \<le> length ?v" "pos * ?z + ?k \<le> length ?v"
    using k fits by (auto simp: algebra_simps)
  let ?a = "a\<lparr>arr_count := ?n - 1, arr_value := ?q\<rparr>"
  have "array_remove_pos a pos = Some (0, ?a)"
    using pos bounds by (simp add: array_remove_pos_def szt [simplified] memmove_blit [simplified] Let_def)
  moreover have "array_wf ?a"
    using wf bounds pos r by (auto simp: array_wf_def algebra_simps)
  moreover have "elems ?a = take pos (elems a) @ drop (Suc pos) (elems a)"
  proof (rule nth_equalityI)
    show "length (elems ?a) = length (take pos (elems a) @ drop (Suc pos) (elems a))"
      using r by simp
  next
    fix i assume "i < length (elems ?a)"
    then have i: "i < ?n - 1" "i < ?n" by auto
    show "elems ?a ! i = (take pos (elems a) @ drop (Suc pos) (elems a)) ! i"
    proof (cases "i < pos")
      case True
      with i bounds elem_end [of i pos ?z] show ?thesis
        by (simp add: nth_elems nth_append block_blit_disjoint)
    next
      case False
      then obtain j where j: "i = pos + j" using le_Suc_ex not_less by blast
      with i(1) r have "j < r" by simp
      from elem_end [OF this, of ?z] have jz: "j * ?z + ?z \<le> ?k" by (simp only: k(1))
      have "block ?q (i * ?z) ?z = block ?v ((i + 1) * ?z) ?z"
      proof (rule nth_equalityI)
        show "length (block ?q (i * ?z) ?z) = length (block ?v ((i + 1) * ?z) ?z)"
          using jz bounds j by (simp add: algebra_simps)
      next
        fix x assume "x < length (block ?q (i * ?z) ?z)"
        then have x: "x < ?z" by (simp add: block_def)
        have "?q ! (i * ?z + x) = block ?v ((pos + 1) * ?z) ?k ! (j * ?z + x)"
          using x jz bounds by (subst nth_blit) (auto simp: j algebra_simps)
        also have "\<dots> = ?v ! ((pos + 1) * ?z + (j * ?z + x))"
          using x jz bounds by (intro nth_block) auto
        finally show "block ?q (i * ?z) ?z ! x = block ?v ((i + 1) * ?z) ?z ! x"
          using x jz bounds by (simp add: j algebra_simps)
      qed
      with i j r show ?thesis by (simp add: nth_elems nth_append)
    qed
  qed
  ultimately show ?thesis by auto
qed

lemma array_remove_pos_out: "arr_count a \<le> pos \<Longrightarrow> array_remove_pos a pos = Some (1, a)"
  by (simp add: array_remove_pos_def)

section \<open>Element lists\<close>

text \<open>
  The view of an array its clients have: the list of its elements, with the same allocation
  behaviour. \<open>ARRAY(type, name)\<close> gives each element type such an array.
\<close>

definition larr_get :: "'e list \<Rightarrow> nat \<Rightarrow> 'e option" where
  "larr_get xs pos = (if pos \<ge> length xs then None else Some (xs ! pos))"

definition larr_append :: "'e list \<Rightarrow> 'e \<Rightarrow> world \<Rightarrow> (int \<times> 'e list \<times> world) option" where
  "larr_append xs x w =
     (case w_alloc w of
        (False, w') \<Rightarrow> Some (1, xs, fail_errno (errno w') w')
      | (True, w') \<Rightarrow> Some (0, xs @ [x], w'))"

definition larr_remove_pos :: "'e list \<Rightarrow> nat \<Rightarrow> (int \<times> 'e list) option" where
  "larr_remove_pos xs pos =
     (if pos \<ge> length xs then Some (1, xs) else Some (0, take pos xs @ drop (Suc pos) xs))"

section \<open>The contract\<close>

locale array_contract =
  fixes content :: "'a \<Rightarrow> 'e list"
    and valid :: "'a \<Rightarrow> bool"
    and fits :: "'a \<Rightarrow> 'e \<Rightarrow> bool"
    and cnt :: "'a \<Rightarrow> nat"
    and get :: "'a \<Rightarrow> nat \<Rightarrow> 'e option"
    and app :: "'a \<Rightarrow> 'e \<Rightarrow> world \<Rightarrow> (int \<times> 'a \<times> world) option"
    and rem :: "'a \<Rightarrow> nat \<Rightarrow> (int \<times> 'a) option"
  assumes cnt_content: "valid a \<Longrightarrow> cnt a = length (content a)"
    and get_content: "valid a \<Longrightarrow> get a i = larr_get (content a) i"
    and app_ok: "valid a \<Longrightarrow> fits a e \<Longrightarrow> w_alloc w = (True, w') \<Longrightarrow>
      \<exists>a'. app a e w = Some (0, a', w') \<and> valid a' \<and> content a' = content a @ [e]"
    and app_fail: "w_alloc w = (False, w') \<Longrightarrow> app a e w = Some (1, a, fail_errno (errno w') w')"
    and rem_in: "valid a \<Longrightarrow> i < length (content a) \<Longrightarrow>
      \<exists>a'. rem a i = Some (0, a') \<and> valid a' \<and> content a' = take i (content a) @ drop (Suc i) (content a)"
    and rem_out: "valid a \<Longrightarrow> length (content a) \<le> i \<Longrightarrow> rem a i = Some (1, a)"
begin

lemma get_bound: "valid a \<Longrightarrow> get a i = None \<longleftrightarrow> cnt a \<le> i"
  by (simp add: get_content cnt_content larr_get_def)

text \<open>Both operations do to the element list what the list operations do.\<close>

lemma app_simulates:
  "valid a \<Longrightarrow> fits a e \<Longrightarrow>
   \<exists>r a' w'. app a e w = Some (r, a', w') \<and> valid a'
     \<and> larr_append (content a) e w = Some (r, content a', w')"
  using app_ok [of a e w] app_fail [of w _ a e]
  by (cases "w_alloc w"; cases "fst (w_alloc w)") (auto simp: larr_append_def)

lemma rem_simulates:
  "valid a \<Longrightarrow>
   \<exists>r a'. rem a i = Some (r, a') \<and> valid a' \<and> larr_remove_pos (content a) i = Some (r, content a')"
  using rem_in [of a i] rem_out [of a i]
  by (cases "i < length (content a)") (auto simp: larr_remove_pos_def)

lemma get_after_app:
  "valid a \<Longrightarrow> fits a e \<Longrightarrow> app a e w = Some (0, a', w') \<Longrightarrow>
   get a' (cnt a) = Some e \<and> (\<forall>i < cnt a. get a' i = get a i)"
proof -
  assume a: "valid a" "fits a e" "app a e w = Some (0, a', w')"
  then have "content a' = content a @ [e]" "valid a'"
    using app_ok [of a e w] app_fail [of w _ a e]
    by (cases "w_alloc w"; cases "fst (w_alloc w)"; force)+
  with a(1) show ?thesis by (simp add: get_content cnt_content larr_get_def nth_append)
qed

end

definition array_fits :: "Array \<Rightarrow> string \<Rightarrow> bool" where
  "array_fits a v \<longleftrightarrow> length v = arr_size a \<and> (arr_count a + 2) * arr_size a < 2 ^ 64"

text \<open>Reading through \<open>array_get_copy\<close>: the copied bytes when the return value is 0.\<close>

definition copied :: "(int \<times> string) option \<Rightarrow> string option" where
  "copied r = (case r of Some (c, bs) \<Rightarrow> if c = 0 then Some bs else None | None \<Rightarrow> None)"

interpretation bytes: array_contract elems array_wf array_fits array_count
  "\<lambda>a i. copied (array_get_copy a i)" "array_append junk" array_remove_pos
  for junk
proof (unfold_locales, goal_cases)
  case (2 a i)
  then show ?case by (simp add: array_get_copy_elems copied_def larr_get_def)
next
  case (3 a e w w')
  then show ?case using array_append_elems [of a e w w' junk] by (auto simp: array_fits_def)
next
  case (5 a i)
  then show ?case using array_remove_pos_elems [of a i] by auto
qed (simp_all add: array_count_def array_append_fail array_remove_pos_out)

interpretation larr: array_contract "\<lambda>xs. xs" "\<lambda>_. True" "\<lambda>_ _. True" length larr_get
  larr_append larr_remove_pos
  by unfold_locales (auto simp: larr_append_def larr_remove_pos_def)

section \<open>Runs of operations\<close>

datatype array_op = Append string | Remove nat

fun array_run :: "(nat \<Rightarrow> char) \<Rightarrow> array_op list \<Rightarrow> Array \<Rightarrow> world \<Rightarrow> (int list \<times> Array \<times> world) option" where
  "array_run junk [] a w = Some ([], a, w)"
| "array_run junk (Append v # ops) a w =
     do { (r, a', w') \<leftarrow> array_append junk a v w; (rs, s) \<leftarrow> array_run junk ops a' w'; Some (r # rs, s) }"
| "array_run junk (Remove i # ops) a w =
     do { (r, a') \<leftarrow> array_remove_pos a i; (rs, s) \<leftarrow> array_run junk ops a' w; Some (r # rs, s) }"

fun list_run :: "array_op list \<Rightarrow> string list \<Rightarrow> world \<Rightarrow> (int list \<times> string list \<times> world) option" where
  "list_run [] xs w = Some ([], xs, w)"
| "list_run (Append v # ops) xs w =
     do { (r, xs', w') \<leftarrow> larr_append xs v w; (rs, s) \<leftarrow> list_run ops xs' w'; Some (r # rs, s) }"
| "list_run (Remove i # ops) xs w =
     do { (r, xs') \<leftarrow> larr_remove_pos xs i; (rs, s) \<leftarrow> list_run ops xs' w; Some (r # rs, s) }"

fun sized :: "nat \<Rightarrow> array_op \<Rightarrow> bool" where
  "sized z (Append v) \<longleftrightarrow> length v = z"
| "sized z (Remove i) \<longleftrightarrow> True"

lemma array_append_count:
  "array_append junk a v w = Some (r, a', w') \<Longrightarrow> array_wf a' \<Longrightarrow> array_wf a \<Longrightarrow> array_fits a v \<Longrightarrow>
   arr_size a' = arr_size a \<and> arr_count a' \<le> arr_count a + 1"
  by (auto simp: array_append_def Let_def szt_def Option.bind_eq_Some_conv mod_less_eq_dividend
      split: prod.splits bool.splits)

lemma array_remove_count:
  "array_remove_pos a i = Some (r, a') \<Longrightarrow> arr_size a' = arr_size a \<and> arr_count a' \<le> arr_count a"
  by (auto simp: array_remove_pos_def Let_def Option.bind_eq_Some_conv split: if_splits)

lemma array_run_simulates:
  "array_wf a \<Longrightarrow> list_all (sized (arr_size a)) ops \<Longrightarrow> (arr_count a + length ops + 2) * arr_size a < 2 ^ 64 \<Longrightarrow>
   \<exists>rs a' w'. array_run junk ops a w = Some (rs, a', w') \<and> array_wf a'
     \<and> list_run ops (elems a) w = Some (rs, elems a', w')"
proof (induction junk ops a w rule: array_run.induct)
  case (1 junk a w)
  then show ?case by simp
next
  case (2 junk v ops a w)
  have "(arr_count a + 2) * arr_size a \<le> (arr_count a + length (Append v # ops) + 2) * arr_size a"
    by (intro mult_le_mono1) simp
  with 2 have fits: "array_fits a v" by (simp add: array_fits_def)
  from bytes.app_simulates [OF 2(2) this, of junk w] obtain r a' w' where
    s: "array_append junk a v w = Some (r, a', w')" "array_wf a'"
      "larr_append (elems a) v w = Some (r, elems a', w')" by blast
  from array_append_count [OF s(1,2) 2(2) fits] have sz: "arr_size a' = arr_size a"
    and cn: "arr_count a' \<le> arr_count a + 1" by auto
  have "(arr_count a' + length ops + 2) * arr_size a' < 2 ^ 64"
    using mult_le_mono1 [of "arr_count a' + length ops + 2" "arr_count a + length (Append v # ops) + 2"
        "arr_size a"] cn sz 2(4) by simp
  with "2.IH" [OF s(1)] s(2) sz 2(3) s show ?case by fastforce
next
  case (3 junk i ops a w)
  from bytes.rem_simulates [OF 3(2), of i] obtain r a' where
    s: "array_remove_pos a i = Some (r, a')" "array_wf a'"
      "larr_remove_pos (elems a) i = Some (r, elems a')" by blast
  from array_remove_count [OF s(1)] have sz: "arr_size a' = arr_size a"
    and cn: "arr_count a' \<le> arr_count a" by auto
  have "(arr_count a' + length ops + 2) * arr_size a' < 2 ^ 64"
    using mult_le_mono1 [of "arr_count a' + length ops + 2" "arr_count a + length (Remove i # ops) + 2"
        "arr_size a"] cn sz 3(4) by simp
  with "3.IH" [OF s(1)] s(2) sz 3(3) s show ?case by fastforce
qed

section \<open>Properties\<close>

text \<open>
  C26: the array is a list of its elements: for every sequence of \<open>array_append\<close> and
  \<open>array_remove_pos\<close> calls on a new array, whatever the allocator answers and whatever fresh memory
  contains, no call leaves the block, the return values are those of the list operations, and at the end
  \<open>array_get_copy\<close> gives the elements of the list they produce, and an error behind its end.
\<close>

theorem array_run_refines:
  assumes "array_new z w = (Some a, w1)" "0 < z" "(length ops + 2) * z < 2 ^ 64" "list_all (sized z) ops"
  shows "\<exists>rs a' w' xs. array_run junk ops a w1 = Some (rs, a', w') \<and> list_run ops [] w1 = Some (rs, xs, w')
    \<and> (\<forall>i. array_get_copy a' i = Some (if i < length xs then (0, xs ! i) else (1, [])))"
proof -
  have "1 * z \<le> (length ops + 2) * z" by (intro mult_le_mono1) simp
  with assms(3) have "z < 2 ^ 64" by simp
  from array_new_elems [OF assms(1,2) this] have "array_wf a" "elems a = []" "arr_size a = z"
    by auto
  moreover from \<open>elems a = []\<close> have "arr_count a = 0" using length_elems [of a] by simp
  ultimately obtain rs a' w' where run: "array_run junk ops a w1 = Some (rs, a', w')" "array_wf a'"
    "list_run ops [] w1 = Some (rs, elems a', w')"
    using array_run_simulates [of a ops junk w1] assms(3,4) by auto
  with array_get_copy_elems [OF run(2)] show ?thesis by (auto simp: length_elems)
qed

theorem array_run_refines_witness:
  "\<exists>rs a' w' xs. array_run (\<lambda>_. NUL) [Append ''ab'', Append ''cd'', Remove 0]
      \<lparr>arr_count = 0, arr_size = 2, arr_value = []\<rparr> world0 = Some (rs, a', w')
    \<and> list_run [Append ''ab'', Append ''cd'', Remove 0] [] world0 = Some (rs, xs, w')
    \<and> (\<forall>i. array_get_copy a' i = Some (if i < length xs then (0, xs ! i) else (1, [])))"
  by (rule array_run_refines [where z = 2 and w = "world0"])
    (simp_all add: array_new_def object_new_def w_alloc_def)

text \<open>
  \<open>array_set\<close> computes the element's offset from the number of elements instead of their size:
  on an empty array \<open>array_set(array, pos, value)\<close> makes room for \<open>pos + 1\<close> elements but stores the
  value in the first, and leaves the requested one indeterminate.
\<close>

theorem array_set_empty:
  assumes "arr_count a = 0" "arr_value a = []" "0 < arr_size a" "length v = arr_size a"
    and "0 < pos" "(pos + 1) * arr_size a < 2 ^ 64" "w_alloc w = (True, w')"
  shows "\<exists>a'. array_set junk a pos v w = Some (0, a', w') \<and> arr_count a' = pos + 1 \<and> elems a' ! 0 = v
    \<and> elems a' ! pos = map junk [pos * arr_size a ..< (pos + 1) * arr_size a]"
proof -
  let ?z = "arr_size a"
  let ?p = "realloc_block junk [] (?z * (pos + 1))"
  have "pos + 1 \<le> (pos + 1) * ?z" using assms(3) by (cases ?z) auto
  with assms(6) have pos: "pos + 1 < 2 ^ 64" by linarith
  have szt: "szt (?z * (pos + 1)) = ?z * (pos + 1)" "szt (pos + 1) = pos + 1" "szt 0 = 0"
    "szt (2 ^ 64 + 0 - 0) = 0"
    using assms(6) pos by (simp_all add: szt_def mult.commute)
  let ?a = "a\<lparr>arr_value := blit ?p 0 v, arr_count := pos + 1\<rparr>"
  have "array_set junk a pos v w = Some (0, ?a, w')"
    using assms unfolding array_set_def Let_def by (simp add: write_block_def szt [simplified])
  moreover have "elems ?a ! 0 = v"
    using assms(4) by (simp add: nth_elems block_blit_same)
  moreover have "elems ?a ! pos = block (realloc_block junk [] (?z * (pos + 1))) (pos * ?z) ?z"
    using assms(3-5) by (simp add: nth_elems block_blit_disjoint)
  moreover have "block (realloc_block junk [] (?z * (pos + 1))) (pos * ?z) ?z
      = map junk [pos * ?z ..< (pos + 1) * ?z]"
    by (rule nth_equalityI) (auto simp: realloc_block_def algebra_simps)
  ultimately show ?thesis by auto
qed

theorem array_set_empty_witness:
  "\<exists>a'. array_set (\<lambda>_. CHR ''?'') \<lparr>arr_count = 0, arr_size = 2, arr_value = []\<rparr> 1 ''xy''
      world0
      = Some (0, a', world0)
    \<and> arr_count a' = 1 + 1 \<and> elems a' ! 0 = ''xy'' \<and> elems a' ! 1 = map (\<lambda>_. CHR ''?'') [2 ..< 4]"
  using array_set_empty [of "\<lparr>arr_count = 0, arr_size = 2, arr_value = []\<rparr>" "''xy''" 1
      "world0"
      "world0" "\<lambda>_. CHR ''?''"]
  by (simp add: w_alloc_def)

end
