(* ===== verification/Sys_String.thy ===== *)
theory Sys_String
  imports Sys_World
begin

text \<open>
  The \<open>String\<close> class of \<open>libSystem/src/string.c\<close>. A C string is the list of its bytes before the
  terminator, so \<open>&s[i]\<close> is \<open>drop i s\<close> and a loop that advances a pointer recurses on the tail; the
  end of the list is the NUL byte. A \<open>String *\<close> that may be \<open>NULL\<close> is an option. The operations
  that allocate pass the \<open>world\<close> along.
\<close>

section \<open>Length and comparison\<close>

fun string_length :: "string \<Rightarrow> nat" where
  "string_length [] = 0"
| "string_length (c # s) = Suc (string_length s)"

text \<open>The byte a pointer reads: NUL at the end of the string.\<close>

fun head_byte :: "string \<Rightarrow> char" where
  "head_byte [] = NUL"
| "head_byte (c # s) = c"

fun string_compare :: "string \<Rightarrow> string \<Rightarrow> int" where
  "string_compare (a # s) (b # t) =
     (if a = b then string_compare s t else uc a - uc b)"
| "string_compare s t = uc (head_byte s) - uc (head_byte t)"

text \<open>\<open>while(--length && *u1 && *u2 && *u1 == *u2)\<close>, entered with a positive length.\<close>

fun compare_length_loop :: "string \<Rightarrow> string \<Rightarrow> nat \<Rightarrow> int" where
  "compare_length_loop (a # s) (b # t) n =
     (if n - 1 \<noteq> 0 \<and> a = b then compare_length_loop s t (n - 1) else uc a - uc b)"
| "compare_length_loop s t n = uc (head_byte s) - uc (head_byte t)"

definition string_compare_length :: "string \<Rightarrow> string \<Rightarrow> nat \<Rightarrow> int" where
  "string_compare_length s t n = (if n = 0 then 0 else compare_length_loop s t n)"

section \<open>Searching\<close>

fun index_loop :: "string \<Rightarrow> string \<Rightarrow> nat \<Rightarrow> int \<Rightarrow> int" where
  "index_loop [] key len i = - 1"
| "index_loop (c # s) key len i =
     (if string_compare_length (c # s) key len \<noteq> 0 then index_loop s key len (i + 1) else i)"

definition string_index :: "string \<Rightarrow> string \<Rightarrow> int" where
  "string_index s key = index_loop s key (string_length key) 0"

text \<open>The result is the pointer \<open>&string[i]\<close>, given as the offset and the string it points to.\<close>

definition string_find :: "string \<Rightarrow> string \<Rightarrow> (nat \<times> string) option" where
  "string_find s key =
     (let i = string_index s key in if i < 0 then None else Some (nat i, drop (nat i) s))"

section \<open>Construction\<close>

text \<open>The result of a constructor is the new string, or \<open>None\<close> for \<open>NULL\<close>.\<close>

definition string_set :: "string option \<Rightarrow> string \<Rightarrow> world \<Rightarrow> int \<times> string option \<times> world" where
  "string_set s s2 w =
     (case object_resize (string_length s2 + 1) w of
        (r, w') \<Rightarrow> if r \<noteq> 0 then (1, s, w') else (0, Some (take (string_length s2) s2), w'))"

definition string_new :: "string option \<Rightarrow> world \<Rightarrow> string option \<times> world" where
  "string_new s w =
     (case s of
        None \<Rightarrow> (None, fail_errno EINVAL w)
      | Some str \<Rightarrow>
          (case string_set None str w of
             (r, ret, w') \<Rightarrow> if r \<noteq> 0 then (None, w') else (ret, w')))"

text \<open>\<open>++length\<close> wraps on the largest \<open>size_t\<close>; \<open>snprintf\<close> copies up to \<open>length\<close> bytes.\<close>

definition string_new_length :: "string \<Rightarrow> nat \<Rightarrow> world \<Rightarrow> string option \<times> world" where
  "string_new_length s n w =
     (let n' = (n + 1) mod 2 ^ 64 in
      case object_new n' w of
        (False, w') \<Rightarrow> (None, w')
      | (True, w') \<Rightarrow> (Some (take (n' - 1) s), w'))"

definition string_append :: "string option \<Rightarrow> string option \<Rightarrow> world \<Rightarrow> int \<times> string option \<times> world" where
  "string_append s app w =
     (let slength = (case s of Some t \<Rightarrow> string_length t | None \<Rightarrow> 0) in
      case app of
        None \<Rightarrow> (1, s, fail_errno EINVAL w)
      | Some a \<Rightarrow>
          let alength = string_length a in
          if alength = 0 then (0, s, w)
          else case object_resize (slength + alength + 1) w of
            (r, w') \<Rightarrow>
              if r \<noteq> 0 then (1, s, w')
              else (0, Some (take slength (case s of Some t \<Rightarrow> t | None \<Rightarrow> []) @ a), w'))"

text \<open>The variable arguments of \<open>string_new_append\<close>, up to the terminating \<open>NULL\<close>.\<close>

fun new_append_loop :: "string option \<Rightarrow> string list \<Rightarrow> world \<Rightarrow> string option \<times> world" where
  "new_append_loop ret [] w = (ret, w)"
| "new_append_loop ret (s # ap) w =
     (case string_append ret (Some s) w of
        (r, ret', w') \<Rightarrow> if r \<noteq> 0 then (None, w') else new_append_loop ret' ap w')"

definition string_new_append :: "string option \<Rightarrow> string list \<Rightarrow> world \<Rightarrow> string option \<times> world" where
  "string_new_append s ap w =
     (case s of
        None \<Rightarrow> string_new (Some []) w
      | Some str \<Rightarrow> (case string_new (Some str) w of (ret, w') \<Rightarrow> new_append_loop ret ap w'))"

text \<open>\<open>string_clear\<close> overwrites every byte; what is left is the empty string.\<close>

fun string_clear :: "string \<Rightarrow> string" where
  "string_clear s = takeWhile (\<lambda>c. c \<noteq> NUL) (map (\<lambda>_. NUL) s)"

section \<open>Splitting and replacing\<close>

text \<open>
  \<open>string_explode\<close>: the outer option is \<open>None\<close> when the clean-up after a failed allocation runs
  over an array that has no terminating \<open>NULL\<close> (or is \<open>NULL\<close> itself): the array gets its
  terminator only at the end, or from the failed \<open>string_new\<close> that leaves \<open>NULL\<close> in it.
\<close>

function explode_loop ::
  "string \<Rightarrow> string \<Rightarrow> nat \<Rightarrow> string list \<Rightarrow> world \<Rightarrow> (string list option \<times> world) option" where
  "explode_loop s separator l ret w =
     (let j = string_index s separator in
      case w_alloc w of
        (False, w1) \<Rightarrow> None
      | (True, w1) \<Rightarrow>
          if j < 0 then
            (case string_new (Some s) w1 of
               (None, w2) \<Rightarrow> Some (None, w2)
             | (Some t, w2) \<Rightarrow> Some (Some (ret @ [t]), w2))
          else
            (case string_new_length s (nat j) w1 of
               (None, w2) \<Rightarrow> Some (None, w2)
             | (Some t, w2) \<Rightarrow>
                 if l = 0 then None
                 else explode_loop (drop (nat j + l) s) separator l (ret @ [t]) w2))"
  by pat_completeness auto
termination
proof (relation "measure (\<lambda>(s, sep, l, ret, w). length s)", simp, clarsimp)
  fix s sep :: string and l :: nat
  assume "\<not> string_index s sep < 0" "0 < l"
  then show "length s - (nat (string_index s sep) + l) < length s"
    by (cases s) (simp_all add: string_index_def)
qed

text \<open>\<open>l\<close> is not zero in \<open>string_explode\<close>, which rejects the empty separator first.\<close>

definition string_explode ::
  "string \<Rightarrow> string option \<Rightarrow> world \<Rightarrow> (string list option \<times> world) option" where
  "string_explode s separator w =
     (case separator of
        None \<Rightarrow> Some (None, fail_errno EINVAL w)
      | Some sep \<Rightarrow>
          if string_length sep = 0 then Some (None, fail_errno EINVAL w)
          else explode_loop s sep (string_length sep) [] w)"

text \<open>
  \<open>string_replace\<close> may run for ever (for the empty \<open>what\<close>), hence \<open>partial_function\<close>: \<open>None\<close> is
  "does not return". The result is the return value and the string afterwards.
\<close>

partial_function (option) replace_loop ::
  "string \<Rightarrow> string \<Rightarrow> string option \<Rightarrow> string option \<Rightarrow> world
     \<Rightarrow> (int \<times> string option \<times> string \<times> world) option" where
  "replace_loop p what by_str ret w =
     (let index = string_index p what in
      if index < 0 then Some (0, ret, p, w)
      else case string_new_length p (nat index) w of
        (None, w1) \<Rightarrow> Some (- 1, ret, p, w1)
      | (Some q, w1) \<Rightarrow>
        (case string_append ret (Some q) w1 of
          (r2, ret2, w2) \<Rightarrow>
            if r2 \<noteq> 0 then Some (- 1, ret2, p, w2)
            else case string_append ret2 by_str w2 of
              (r3, ret3, w3) \<Rightarrow>
                if r3 \<noteq> 0 then Some (- 1, ret3, p, w3)
                else replace_loop (drop (nat index + string_length what) p) what by_str ret3 w3))"

definition string_replace ::
  "string \<Rightarrow> string \<Rightarrow> string option \<Rightarrow> world \<Rightarrow> (int \<times> string \<times> world) option" where
  "string_replace s what by_str w =
     do { (r, ret, p, w') \<leftarrow> replace_loop s what by_str None w;
          if r \<noteq> 0 then Some (- 1, s, w')
          else case ret of
            None \<Rightarrow> Some (0, s, w')
          | Some _ \<Rightarrow>
              (case string_append ret (Some p) w' of
                 (r2, ret2, w2) \<Rightarrow>
                   if r2 \<noteq> 0 then Some (- 1, s, w2)
                   else (case ret2 of Some t \<Rightarrow> Some (0, t, w2) | None \<Rightarrow> Some (0, s, w2))) }"

section \<open>Comparison and search as functions of the values\<close>

lemma string_length_eq [simp]: "string_length s = length s"
  by (induction s) auto

lemma string_compare_cmp: "string_compare s t = cmp_spec s t"
  by (induction s t rule: cmp_spec.induct) auto

lemma cmp_spec_take_1:
  "cmp_spec (take (Suc 0) s) (take (Suc 0) t) = uc (head_byte s) - uc (head_byte t)"
  by (cases s; cases t) auto

lemma compare_length_loop_cmp:
  "0 < n \<Longrightarrow> compare_length_loop s t n = cmp_spec (take n s) (take n t)"
proof (induction s t n rule: compare_length_loop.induct, goal_cases both left right)
  case (both a s b t n)
  then obtain k where n: "n = Suc k" by (cases n) auto
  show ?case
  proof (cases "k = 0")
    case True
    with n show ?thesis by simp
  next
    case False
    with both n show ?thesis by simp
  qed
next
  case (left t n)
  then show ?case by (cases t; cases n) auto
next
  case (right s n)
  then show ?case by (cases s; cases n) auto
qed

lemma string_compare_length_cmp:
  "string_compare_length s t n = cmp_spec (take n s) (take n t)"
  by (cases "n = 0") (auto simp: string_compare_length_def compare_length_loop_cmp)

lemma string_compare_length_eq_0:
  "NUL \<notin> set s \<Longrightarrow> NUL \<notin> set t \<Longrightarrow> string_compare_length s t n = 0 \<longleftrightarrow> take n s = take n t"
  by (metis in_set_takeD cmp_spec_eq_0 string_compare_length_cmp)

text \<open>The offset of the first occurrence of \<open>key\<close>, within a non-empty rest.\<close>

fun sub_index :: "string \<Rightarrow> string \<Rightarrow> nat option" where
  "sub_index [] key = None"
| "sub_index (c # s) key =
     (if take (length key) (c # s) = key then Some 0 else map_option Suc (sub_index s key))"

lemma index_loop_sub:
  "NUL \<notin> set s \<Longrightarrow> NUL \<notin> set key \<Longrightarrow> 0 \<le> i \<Longrightarrow>
   index_loop s key (length key) i = (case sub_index s key of None \<Rightarrow> - 1 | Some j \<Rightarrow> i + int j)"
proof (induction s arbitrary: i)
  case (Cons c s)
  have "string_compare_length (c # s) key (length key) = 0 \<longleftrightarrow> take (length key) (c # s) = key"
    using Cons.prems by (subst string_compare_length_eq_0) auto
  moreover have "index_loop s key (length key) (i + 1) =
      (case sub_index s key of None \<Rightarrow> - 1 | Some j \<Rightarrow> (i + 1) + int j)"
    using Cons by auto
  ultimately show ?case by (cases "sub_index s key") auto
qed simp

lemma string_index_sub:
  "NUL \<notin> set s \<Longrightarrow> NUL \<notin> set key \<Longrightarrow>
   string_index s key = (case sub_index s key of None \<Rightarrow> - 1 | Some j \<Rightarrow> int j)"
  by (simp add: string_index_def index_loop_sub split: option.split)

lemma sub_index_Some:
  "sub_index s key = Some j \<longleftrightarrow>
     j < length s \<and> take (length key) (drop j s) = key
     \<and> (\<forall>i < j. take (length key) (drop i s) \<noteq> key)"
proof (induction s arbitrary: j)
  case (Cons c s)
  show ?case
  proof (cases j)
    case 0
    then show ?thesis by auto
  next
    case (Suc k)
    then show ?thesis using Cons.IH [of k] by (auto simp: less_Suc_eq_0_disj)
  qed
qed simp

lemma sub_index_None:
  "sub_index s key = None \<longleftrightarrow> (\<forall>i < length s. take (length key) (drop i s) \<noteq> key)"
  by (induction s) (auto simp: less_Suc_eq_0_disj)

lemma sub_index_split:
  assumes "sub_index s key = Some j"
  shows "s = take j s @ key @ drop (j + length key) s" "j + length key \<le> length s"
proof -
  from assms have key: "take (length key) (drop j s) = key" and j: "j < length s"
    by (auto simp: sub_index_Some)
  have "length (take (length key) (drop j s)) = length key"
    by (simp only: key)
  with j show "j + length key \<le> length s" by auto
  show "s = take j s @ key @ drop (j + length key) s"
    by (metis key append_take_drop_id drop_drop add.commute)
qed

section \<open>Construction without failure\<close>

lemma string_set_ok:
  "plenty w \<Longrightarrow> \<exists>w'. string_set s t w = (0, Some t, w') \<and> plenty w'"
  using object_resize_ok [of w "string_length t + 1"] by (auto simp: string_set_def)

lemma string_new_ok: "plenty w \<Longrightarrow> \<exists>w'. string_new (Some t) w = (Some t, w') \<and> plenty w'"
  using string_set_ok [of w None t] by (auto simp: string_new_def)

lemma string_new_result:
  "string_new (Some t) w = (ret, w') \<Longrightarrow> ret = None \<or> ret = Some t"
  by (auto simp: string_new_def string_set_def split: prod.splits if_splits)

lemma string_new_length_ok:
  "plenty w \<Longrightarrow> n + 1 < 2 ^ 64 \<Longrightarrow>
   \<exists>w'. string_new_length s n w = (Some (take n s), w') \<and> plenty w'"
  using object_new_ok [of w "n + 1"] by (auto simp: string_new_length_def Let_def)

text \<open>The characters of a possibly \<open>NULL\<close> string.\<close>

definition str_of :: "string option \<Rightarrow> string" where
  "str_of s = (case s of None \<Rightarrow> [] | Some t \<Rightarrow> t)"

lemma str_of_simps [simp]: "str_of None = []" "str_of (Some t) = t"
  by (simp_all add: str_of_def)

lemma string_append_ok:
  "plenty w \<Longrightarrow> \<exists>s' w'. string_append s (Some a) w = (0, s', w') \<and> plenty w'
     \<and> str_of s' = str_of s @ a \<and> (s' = None \<longleftrightarrow> s = None \<and> a = [])"
  using object_resize_ok [of w "length (str_of s) + length a + 1"]
  by (cases s) (auto simp: string_append_def Let_def)

lemma string_append_fail:
  "string_append s a w = (r, s', w') \<Longrightarrow> r \<noteq> 0 \<Longrightarrow> r = 1 \<and> s' = s \<and> err_code w' = 1"
  by (auto simp: string_append_def Let_def fail_errno_code dest: object_resize_fail_code
      split: option.splits if_splits prod.splits)

section \<open>Splitting and replacing, specified\<close>

lemma drop_shorter [simp]:
  "j < length s \<Longrightarrow> key \<noteq> [] \<Longrightarrow> length s - (j + length key) < length s"
  for s :: string
  by (cases key) auto

text \<open>Replacing every occurrence from left to right, none overlapping an earlier one.\<close>

function replace_all :: "string \<Rightarrow> string \<Rightarrow> string \<Rightarrow> string" where
  "replace_all s what b =
     (case sub_index s what of
        None \<Rightarrow> s
      | Some j \<Rightarrow>
          if what = [] then s
          else take j s @ b @ replace_all (drop (j + length what) s) what b)"
  by pat_completeness auto
termination
  by (relation "measure (\<lambda>(s, what, b). length s)") (auto simp: sub_index_Some)

function split_all :: "string \<Rightarrow> string \<Rightarrow> string list" where
  "split_all s sep =
     (case sub_index s sep of
        None \<Rightarrow> [s]
      | Some j \<Rightarrow> if sep = [] then [s] else take j s # split_all (drop (j + length sep) s) sep)"
  by pat_completeness auto
termination
  by (relation "measure (\<lambda>(s, sep). length s)") (auto simp: sub_index_Some)

declare replace_all.simps [simp del] split_all.simps [simp del]

text \<open>Joining with a separator undoes the split, and no piece contains the separator.\<close>

fun join :: "string \<Rightarrow> string list \<Rightarrow> string" where
  "join sep [] = []"
| "join sep [s] = s"
| "join sep (s # t # ts) = s @ sep @ join sep (t # ts)"

lemma split_all_nonempty: "split_all s sep \<noteq> []"
  by (subst split_all.simps) (auto split: option.split)

lemma join_Cons: "ts \<noteq> [] \<Longrightarrow> join sep (s # ts) = s @ sep @ join sep ts"
  by (cases ts) auto

lemma join_split_all: "join sep (split_all s sep) = s"
proof (induction s sep rule: split_all.induct)
  case (1 s sep)
  show ?case
  proof (cases "sub_index s sep")
    case None
    then show ?thesis by (subst split_all.simps) simp
  next
    case (Some j)
    with 1 sub_index_split(1) [OF Some] show ?thesis
      by (subst split_all.simps) (simp add: join_Cons split_all_nonempty)
  qed
qed

lemma sub_index_take: "sub_index s key = Some j \<Longrightarrow> sub_index (take j s) key = None"
proof (subst sub_index_None, intro allI impI)
  fix i
  assume j: "sub_index s key = Some j" and i: "i < length (take j s)"
  show "take (length key) (drop i (take j s)) \<noteq> key"
  proof
    assume eq: "take (length key) (drop i (take j s)) = key"
    then have "length (take (length key) (drop i (take j s))) = length key" by simp
    then have "length key \<le> j - i" by auto
    with eq have "take (length key) (drop i s) = key"
      by (simp add: drop_take min_absorb1)
    with i j show False by (auto simp: sub_index_Some)
  qed
qed

lemma split_all_no_sep:
  "sep \<noteq> [] \<Longrightarrow> t \<in> set (split_all s sep) \<Longrightarrow> sub_index t sep = None"
proof (induction s sep rule: split_all.induct)
  case (1 s sep)
  from "1.prems" show ?case
    by (subst (asm) split_all.simps) (auto split: option.splits dest: sub_index_take "1.IH")
qed

declare explode_loop.simps [simp del]

lemma explode_loop_split:
  "plenty w \<Longrightarrow> sep \<noteq> [] \<Longrightarrow> NUL \<notin> set s \<Longrightarrow> NUL \<notin> set sep \<Longrightarrow> length s + 1 < 2 ^ 64 \<Longrightarrow>
   \<exists>w'. explode_loop s sep (length sep) ret w = Some (Some (ret @ split_all s sep), w') \<and> plenty w'"
proof (induction s arbitrary: ret w rule: length_induct)
  case (1 s)
  obtain w1 where w1: "w_alloc w = (True, w1)" "plenty w1"
    using w_alloc_plenty [OF "1.prems"(1)] by blast
  note idx = string_index_sub [OF "1.prems"(3,4)]
  show ?case
  proof (cases "sub_index s sep")
    case None
    with w1 string_new_ok [OF w1(2), of s] idx "1.prems" show ?thesis
      by (subst explode_loop.simps) (auto simp: split_all.simps [of s sep])
  next
    case (Some j)
    then have j: "j < length s" by (simp add: sub_index_Some)
    with "1.prems" string_new_length_ok [OF w1(2), of j s]
    obtain w2 where w2: "string_new_length s j w1 = (Some (take j s), w2)" "plenty w2"
      by auto
    let ?rest = "drop (j + length sep) s"
    have "length ?rest < length s" "NUL \<notin> set ?rest" "length ?rest + 1 < 2 ^ 64"
      using j "1.prems" by (auto dest: in_set_dropD)
    with "1.IH" "1.prems"(2,4) w2(2) obtain w' where
      "explode_loop ?rest sep (length sep) (ret @ [take j s]) w2 =
         Some (Some ((ret @ [take j s]) @ split_all ?rest sep), w')" "plenty w'"
      by blast
    with w1 w2 idx Some "1.prems"(2) show ?thesis
      by (subst explode_loop.simps) (auto simp: split_all.simps [of s sep] Let_def)
  qed
qed

lemma replace_loop_all:
  "plenty w \<Longrightarrow> what \<noteq> [] \<Longrightarrow> NUL \<notin> set p \<Longrightarrow> NUL \<notin> set what \<Longrightarrow> length p + 1 < 2 ^ 64 \<Longrightarrow>
   \<exists>ret' t w'. replace_loop p what (Some b) ret w = Some (0, ret', t, w') \<and> plenty w'
     \<and> str_of ret' @ t = str_of ret @ replace_all p what b
     \<and> (ret' = None \<longrightarrow> ret = None \<and> (sub_index p what = None \<or> b = []))
     \<and> (sub_index p what = None \<longrightarrow> ret' = ret \<and> t = p)"
proof (induction p arbitrary: ret w rule: length_induct)
  case (1 p)
  note idx = string_index_sub [OF "1.prems"(3,4)]
  show ?case
  proof (cases "sub_index p what")
    case None
    with idx "1.prems" show ?thesis
      by (subst replace_loop.simps) (simp add: replace_all.simps [of p what])
  next
    case (Some j)
    then have j: "j < length p" by (simp add: sub_index_Some)
    with "1.prems" string_new_length_ok [of w j p]
    obtain w1 where w1: "string_new_length p j w = (Some (take j p), w1)" "plenty w1"
      by auto
    from string_append_ok [OF w1(2), of ret "take j p"] obtain r2 w2 where
      w2: "string_append ret (Some (take j p)) w1 = (0, r2, w2)" "plenty w2"
        "str_of r2 = str_of ret @ take j p" "r2 = None \<longrightarrow> ret = None"
      by blast
    from string_append_ok [OF w2(2), of r2 b] obtain r3 w3 where
      w3: "string_append r2 (Some b) w2 = (0, r3, w3)" "plenty w3"
        "str_of r3 = str_of r2 @ b" "r3 = None \<longrightarrow> r2 = None \<and> b = []"
      by blast
    let ?rest = "drop (j + length what) p"
    have "length ?rest < length p" "NUL \<notin> set ?rest" "length ?rest + 1 < 2 ^ 64"
      using j "1.prems" by (auto dest: in_set_dropD)
    with "1.IH" "1.prems"(2,4) w3(2) obtain r4 t w4 where
      "replace_loop ?rest what (Some b) r3 w3 = Some (0, r4, t, w4)" "plenty w4"
      "str_of r4 @ t = str_of r3 @ replace_all ?rest what b" "r4 = None \<longrightarrow> r3 = None"
      by metis
    with w1 w2 w3 idx Some "1.prems"(2) show ?thesis
      by (subst replace_loop.simps) (auto simp: replace_all.simps [of p what])
  qed
qed


section \<open>Properties\<close>

text \<open>
  \<open>string_compare\<close> of libSystem and \<open>strcmp\<close> of the C library are the same comparison: on two
  strings in memory \<open>strcmp\<close> returns the very number \<open>string_compare\<close> does.
\<close>

theorem string_compare_strcmp:
  assumes "cstr_at m p s" "cstr_at m q t"
  shows "strcmp m p q = Some (string_compare s t)"
  using assms by (simp add: strcmp_def strcmp_loop_spec string_compare_cmp)

theorem string_compare_strcmp_witness:
  "strcmp [CHR ''a'', NUL, CHR ''b'', NUL] 0 2 = Some (string_compare ''a'' ''b'')"
  by (rule string_compare_strcmp) simp_all

text \<open>
  \<open>string_index\<close> returns the position of the first occurrence of the key before the end of the
  string, and -1 exactly when there is none.
\<close>

theorem string_index_first:
  assumes "NUL \<notin> set s" "NUL \<notin> set key"
  shows "(string_index s key = - 1 \<longleftrightarrow> (\<forall>i < length s. take (length key) (drop i s) \<noteq> key))
    \<and> (string_index s key \<noteq> - 1 \<longrightarrow>
        (\<exists>j < length s. string_index s key = int j \<and> take (length key) (drop j s) = key
           \<and> (\<forall>i < j. take (length key) (drop i s) \<noteq> key)))"
proof (cases "sub_index s key")
  case None
  with assms show ?thesis
    by (simp add: string_index_sub flip: sub_index_None)
next
  case (Some j)
  then have "j < length s" "take (length key) (drop j s) = key"
    "\<forall>i < j. take (length key) (drop i s) \<noteq> key"
    by (auto simp: sub_index_Some)
  with Some assms show ?thesis by (auto simp: string_index_sub)
qed

theorem string_index_first_witness:
  "\<exists>j < length ''abcb''. string_index ''abcb'' ''b'' = int j \<and> take (length ''b'') (drop j ''abcb'') = ''b''
     \<and> (\<forall>i < j. take (length ''b'') (drop i ''abcb'') \<noteq> ''b'')"
proof -
  have nul: "NUL \<notin> set ''abcb''" "NUL \<notin> set ''b''" by simp_all
  have "1 < length ''abcb''" "take (length ''b'') (drop 1 ''abcb'') = ''b''" by simp_all
  with string_index_first [OF nul] show ?thesis by blast
qed

text \<open>
  C29: \<open>string_explode\<close> splits without loss: when no allocation fails it returns pieces whose join
  with the separator is the original string, and no piece contains the separator.
\<close>

theorem string_explode_join:
  assumes "plenty w" "sep \<noteq> []" "NUL \<notin> set s" "NUL \<notin> set sep" "length s + 1 < 2 ^ 64"
  shows "\<exists>ts w'. string_explode s (Some sep) w = Some (Some ts, w') \<and> join sep ts = s
    \<and> (\<forall>t \<in> set ts. sub_index t sep = None)"
  using explode_loop_split [OF assms, of "[]"] assms(2)
  by (auto simp: string_explode_def join_split_all split_all_no_sep)

theorem string_explode_join_witness:
  "\<exists>ts w'. string_explode ''a,b'' (Some '','') world0
      = Some (Some ts, w') \<and> join '','' ts = ''a,b'' \<and> (\<forall>t \<in> set ts. sub_index t '','' = None)"
  by (rule string_explode_join) simp_all

text \<open>
  C30: \<open>string_replace\<close> with a non-empty pattern always returns; when no allocation fails it succeeds,
  and when moreover the replacement is not empty the new string is the old one with every occurrence
  of the pattern replaced, from left to right.
\<close>

theorem string_replace_all:
  assumes "plenty w" "what \<noteq> []" "NUL \<notin> set s" "NUL \<notin> set what" "length s + 1 < 2 ^ 64" "b \<noteq> []"
  shows "\<exists>w'. string_replace s what (Some b) w = Some (0, replace_all s what b, w')"
proof -
  from replace_loop_all [OF assms(1-5), of b None] obtain ret t w' where
    *: "replace_loop s what (Some b) None w = Some (0, ret, t, w')" "plenty w'"
      "str_of ret @ t = replace_all s what b"
      "ret = None \<longrightarrow> sub_index s what = None \<or> b = []" "sub_index s what = None \<longrightarrow> ret = None \<and> t = s"
    by auto
  show ?thesis
  proof (cases ret)
    case None
    with * assms(6) show ?thesis by (auto simp: string_replace_def)
  next
    case (Some r)
    with * string_append_ok [OF *(2), of ret t] show ?thesis
      by (auto simp: string_replace_def split: option.split)
  qed
qed

theorem string_replace_all_witness:
  "\<exists>w'. string_replace ''abab'' ''b'' (Some ''xy'')
      world0 = Some (0, replace_all ''abab'' ''b'' ''xy'', w')"
  by (rule string_replace_all) simp_all

text \<open>
  with an empty replacement the result is lost whenever it is empty up to the last occurrence:
  deleting a leading run of the pattern leaves the string unchanged and still reports success.
\<close>

theorem string_replace_delete_prefix:
  assumes "plenty w" "what \<noteq> []" "NUL \<notin> set what" "NUL \<notin> set t" "sub_index t what = None"
    and "length what + length t + 1 < 2 ^ 64"
  shows "\<exists>w'. string_replace (what @ t) what (Some []) w = Some (0, what @ t, w')"
proof -
  obtain c ws where what: "what = c # ws" using assms(2) by (cases what) auto
  then have sub: "sub_index (what @ t) what = Some 0" by simp
  have nul: "NUL \<notin> set (what @ t)" using assms by simp
  obtain w1 where w1: "string_new_length (what @ t) 0 w = (Some [], w1)"
    using string_new_length_ok [OF assms(1), of 0 "what @ t"] by auto
  have "replace_loop t what (Some []) None w1 = Some (0, None, t, w1)"
    using assms by (subst replace_loop.simps) (simp add: string_index_sub)
  then have "replace_loop (what @ t) what (Some []) None w = Some (0, None, t, w1)"
    using sub w1 assms(3) nul
    by (subst replace_loop.simps) (simp add: string_index_sub string_append_def)
  then show ?thesis by (simp add: string_replace_def)
qed

theorem string_replace_delete_prefix_witness:
  "\<exists>w'. string_replace (''a'' @ ''b'') ''a'' (Some [])
      world0 = Some (0, ''a'' @ ''b'', w')"
  by (rule string_replace_delete_prefix) simp_all

text \<open>The empty pattern is found at the start of every non-empty string and skips nothing.\<close>

lemma sub_index_empty: "s \<noteq> [] \<Longrightarrow> sub_index s [] = Some 0"
  by (cases s) auto

lemma replace_loop_empty:
  assumes "replace_loop p what b ret w = Some r" "what = []" "p \<noteq> []" "NUL \<notin> set p" "plenty w" "b = Some c"
  shows False
  using assms(2-6)
proof (induction rule: replace_loop.raw_induct [OF _ assms(1), consumes 0, case_names step])
  case (step f p what b ret w r)
  from step.prems(1-3) have idx: "string_index p what = 0"
    by (simp add: string_index_sub sub_index_empty)
  obtain w1 where w1: "string_new_length p 0 w = (Some [], w1)" "plenty w1"
    using string_new_length_ok [OF step.prems(4), of 0 p] by auto
  have a1: "string_append ret (Some []) w1 = (0, ret, w1)"
    by (simp add: string_append_def)
  obtain r3 w3 where w3: "string_append ret (Some c) w1 = (0, r3, w3)" "plenty w3"
    using string_append_ok [OF w1(2), of ret c] by blast
  from step.hyps idx w1 a1 w3 step.prems have "f p what b r3 w3 = Some r"
    by simp
  then show False using step.IH step.prems w3(2) by blast
qed

text \<open>
  \<open>string_replace\<close> with an empty pattern never returns on a non-empty string: the first
  occurrence is always at the start and the cursor does not move.
\<close>

theorem string_replace_empty_pattern:
  assumes "s \<noteq> []" "NUL \<notin> set s" "plenty w"
  shows "string_replace s [] (Some b) w = None"
proof (cases "replace_loop s [] (Some b) None w")
  case None
  then show ?thesis by (simp add: string_replace_def)
next
  case (Some r)
  with replace_loop_empty assms show ?thesis by blast
qed

theorem string_replace_empty_pattern_witness:
  "string_replace ''a'' [] (Some ''b'')
     world0 = None"
  by (rule string_replace_empty_pattern) simp_all

end
