(* ===== verification/Sys_Hash.thy ===== *)
theory Sys_Hash
  imports Sys_Array Sys_String
begin

text \<open>
  The hash of \<open>libSystem/src/hash.c\<close>: an array of entries searched linearly, each with the hash
  value of its key. Keys and values are pointers owned by the caller and compared through the
  \<open>compare\<close> function only, so they are values of arbitrary types here; a \<open>NULL\<close> value (delete) is
  \<open>None\<close>. Function pointers are fields of the record, \<open>NULL\<close> being \<open>None\<close>.

  The contract (an associative array) is the locale \<open>map_contract\<close>, in the strict form of hashes
  \<open>assoc_contract\<close>; \<open>hash_keys\<close> states what the two
  functions must satisfy and gives the contract; string keys satisfy it.
\<close>

record ('k, 'v) HashEntry =
  he_hash :: "32 word"
  he_key :: 'k
  he_value :: 'v

record ('k, 'v) Hash =
  h_func :: "('k \<Rightarrow> 32 word) option"
  h_compare :: "'k \<Rightarrow> 'k \<Rightarrow> int"
  h_entries :: "('k, 'v) HashEntry list"

section \<open>The operations\<close>

definition hash_of :: "('k \<Rightarrow> 32 word) option \<Rightarrow> 'k \<Rightarrow> 32 word" where
  "hash_of func key = (case func of Some f \<Rightarrow> f key | None \<Rightarrow> 0)"

definition hashentry_init :: "('k \<Rightarrow> 32 word) option \<Rightarrow> 'k \<Rightarrow> 'v \<Rightarrow> ('k, 'v) HashEntry" where
  "hashentry_init func key v = \<lparr>he_hash = hash_of func key, he_key = key, he_value = v\<rparr>"

definition hashentry_set_value :: "('k, 'v) HashEntry \<Rightarrow> 'v \<Rightarrow> int \<times> ('k, 'v) HashEntry" where
  "hashentry_set_value he v = (0, he\<lparr>he_value := v\<rparr>)"

text \<open>The two allocations are the \<open>Hash\<close> itself and, in \<open>array_new\<close>, its array.\<close>

definition hash_new ::
  "('k \<Rightarrow> 32 word) option \<Rightarrow> ('k \<Rightarrow> 'k \<Rightarrow> int) option \<Rightarrow> world \<Rightarrow> ('k, 'v) Hash option \<times> world" where
  "hash_new func cmp w =
     (case cmp of
        None \<Rightarrow> (None, snd (error_set_code 1 ''Invalid comparison function'' w))
      | Some c \<Rightarrow>
          (case object_new 24 w of
             (False, w1) \<Rightarrow> (None, w1)
           | (True, w1) \<Rightarrow>
               (case object_new 24 w1 of
                  (False, w2) \<Rightarrow> (None, w2)
                | (True, w2) \<Rightarrow> (Some \<lparr>h_func = func, h_compare = c, h_entries = []\<rparr>, w2))))"

text \<open>\<open>for(i = 0; i < sizeof(hash) && str[i] != NUL; i++) hash |= str[i] << (i << 3)\<close>; \<open>str[i]\<close> is signed.\<close>

fun func_string_loop :: "string \<Rightarrow> nat \<Rightarrow> 32 word \<Rightarrow> 32 word" where
  "func_string_loop [] i h = h"
| "func_string_loop (c # s) i h =
     (if i < 4 then func_string_loop s (i + 1) (or h (push_bit (8 * i) (word_of_int (sc c)))) else h)"

definition hash_func_string :: "string \<Rightarrow> 32 word" where
  "hash_func_string s = func_string_loop s 0 0"

definition hash_compare_string :: "string \<Rightarrow> string \<Rightarrow> int" where
  "hash_compare_string s t = string_compare s t"

fun get_loop :: "('k, 'v) HashEntry list \<Rightarrow> ('k \<Rightarrow> 'k \<Rightarrow> int) \<Rightarrow> 32 word \<Rightarrow> 'k \<Rightarrow> nat \<Rightarrow> world \<Rightarrow> 'v option \<times> world" where
  "get_loop es cmp h key 0 w = (None, snd (error_set_code 1 ''Key not found'' w))"
| "get_loop es cmp h key (Suc i) w =
     (case larr_get es i of
        None \<Rightarrow> (None, w)
      | Some he \<Rightarrow>
          if he_hash he \<noteq> h then get_loop es cmp h key i w
          else if cmp (he_key he) key = 0 then (Some (he_value he), w)
          else get_loop es cmp h key i w)"

definition hash_get :: "('k, 'v) Hash \<Rightarrow> 'k \<Rightarrow> world \<Rightarrow> 'v option \<times> world" where
  "hash_get hash key w =
     get_loop (h_entries hash) (h_compare hash) (hash_of (h_func hash) key) key (length (h_entries hash)) w"

text \<open>\<open>p\<close> points into the array, so \<open>_hashentry_set_value\<close> changes the entry in place.\<close>

function set_loop :: "('k, 'v) Hash \<Rightarrow> 'k \<Rightarrow> 'v option \<Rightarrow> 32 word \<Rightarrow> nat \<Rightarrow> nat \<Rightarrow> world
    \<Rightarrow> int \<times> ('k, 'v) Hash \<times> world" where
  "set_loop hash key v h i count w =
     (if i < count then
        (case larr_get (h_entries hash) i of
           None \<Rightarrow> (1, hash, w)
         | Some p \<Rightarrow>
             if he_hash p \<noteq> h then set_loop hash key v h (i + 1) count w
             else if h_compare hash (he_key p) key \<noteq> 0 then set_loop hash key v h (i + 1) count w
             else case v of
               None \<Rightarrow>
                 (case larr_remove_pos (h_entries hash) i of
                    Some (r, es) \<Rightarrow> (if r = 0 then 0 else 1, hash\<lparr>h_entries := es\<rparr>, w)
                  | None \<Rightarrow> (1, hash, w))
             | Some val \<Rightarrow>
                 (case hashentry_set_value p val of
                    (r, p') \<Rightarrow> (r, hash\<lparr>h_entries := (h_entries hash)[i := p']\<rparr>, w)))
      else case v of
        None \<Rightarrow> (0, hash, w)
      | Some val \<Rightarrow>
          (case larr_append (h_entries hash) (hashentry_init (h_func hash) key val) w of
             Some (r, es, w') \<Rightarrow> (if r = 0 then 0 else 1, hash\<lparr>h_entries := es\<rparr>, w')
           | None \<Rightarrow> (1, hash, w)))"
  by pat_completeness auto
termination
  by (relation "measure (\<lambda>(hash, k, v, h, i, c, w). c - i)") auto

declare set_loop.simps [simp del]

definition hash_set :: "('k, 'v) Hash \<Rightarrow> 'k \<Rightarrow> 'v option \<Rightarrow> world \<Rightarrow> int \<times> ('k, 'v) Hash \<times> world" where
  "hash_set hash key v w =
     set_loop hash key v (hash_of (h_func hash) key) 0 (length (h_entries hash)) w"

definition hash_foreach_entry :: "('k \<Rightarrow> 'v \<Rightarrow> 'd \<Rightarrow> 'd) \<Rightarrow> ('k, 'v) HashEntry \<Rightarrow> 'd \<Rightarrow> 'd" where
  "hash_foreach_entry func he d = func (he_key he) (he_value he) d"

definition hash_foreach :: "('k, 'v) Hash \<Rightarrow> ('k \<Rightarrow> 'v \<Rightarrow> 'd \<Rightarrow> 'd) \<Rightarrow> 'd \<Rightarrow> 'd" where
  "hash_foreach hash func d = fold (hash_foreach_entry func) (h_entries hash) d"

function hash_reset :: "('k, 'v) Hash \<Rightarrow> int \<times> ('k, 'v) Hash" where
  "hash_reset hash =
     (if length (h_entries hash) \<noteq> 0 then
        (case larr_remove_pos (h_entries hash) 0 of
           Some (r, es) \<Rightarrow> if r \<noteq> 0 then (1, hash\<lparr>h_entries := es\<rparr>) else hash_reset (hash\<lparr>h_entries := es\<rparr>)
         | None \<Rightarrow> (1, hash))
      else (0, hash))"
  by pat_completeness auto
termination
  by (relation "measure (\<lambda>hash. length (h_entries hash))")
    (auto simp: larr_remove_pos_def split: if_splits)

declare hash_reset.simps [simp del]

section \<open>The contract of an associative array\<close>

text \<open>A failed change may have rearranged the object, but not what it holds.\<close>

locale map_contract =
  fixes lookup :: "'m \<Rightarrow> 'k \<Rightarrow> 'v option"
    and inv :: "'m \<Rightarrow> bool"
    and okkey :: "'k \<Rightarrow> bool"
    and get :: "'m \<Rightarrow> 'k \<Rightarrow> world \<Rightarrow> 'v option \<times> world"
    and set :: "'m \<Rightarrow> 'k \<Rightarrow> 'v option \<Rightarrow> world \<Rightarrow> int \<times> 'm \<times> world"
  assumes get_lookup: "inv m \<Longrightarrow> okkey k \<Longrightarrow> fst (get m k w) = lookup m k"
    and get_alloc: "inv m \<Longrightarrow> alloc (snd (get m k w)) = alloc w"
    and set_ok: "inv m \<Longrightarrow> okkey k \<Longrightarrow> set m k v w = (0, m', w') \<Longrightarrow>
      inv m' \<and> lookup m' = (lookup m)(k := v)"
    and set_kept: "inv m \<Longrightarrow> okkey k \<Longrightarrow> set m k v w = (r, m', w') \<Longrightarrow> r \<noteq> 0 \<Longrightarrow>
      inv m' \<and> lookup m' = lookup m"
    and set_plenty: "inv m \<Longrightarrow> okkey k \<Longrightarrow> plenty w \<Longrightarrow> \<exists>m' w'. set m k v w = (0, m', w') \<and> plenty w'"
begin

lemma get_after_set:
  "inv m \<Longrightarrow> okkey k \<Longrightarrow> okkey k' \<Longrightarrow> set m k v w = (0, m', w') \<Longrightarrow>
   fst (get m' k' w1) = (if k' = k then v else fst (get m k' w1))"
  using set_ok [of m k v w m' w'] by (simp add: get_lookup)

lemma set_result:
  "inv m \<Longrightarrow> okkey k \<Longrightarrow> set m k v w = (r, m', w') \<Longrightarrow>
   inv m' \<and> lookup m' = (if r = 0 then (lookup m)(k := v) else lookup m)"
  using set_ok [of m k v w m' w'] set_kept [of m k v w r m' w'] by (cases "r = 0") auto

lemma set_inv: "inv m \<Longrightarrow> okkey k \<Longrightarrow> set m k v w = (r, m', w') \<Longrightarrow> inv m'"
  using set_result [of m k v w r m' w'] by blast

text \<open>What any sequence of changes that all succeed leaves is the map of the last change of each key.\<close>

fun set_all :: "('k \<times> 'v option) list \<Rightarrow> 'm \<Rightarrow> world \<Rightarrow> bool \<times> 'm \<times> world" where
  "set_all [] m w = (True, m, w)"
| "set_all ((k, v) # kvs) m w =
     (case set m k v w of (r, m', w') \<Rightarrow> if r = 0 then set_all kvs m' w' else (False, m', w'))"

lemma set_all_lookup:
  "inv m \<Longrightarrow> list_all (\<lambda>(k, v). okkey k) kvs \<Longrightarrow> set_all kvs m w = (True, m', w') \<Longrightarrow>
   inv m' \<and> lookup m' = fold (\<lambda>(k, v) l. l(k := v)) kvs (lookup m)"
proof (induction kvs arbitrary: m w)
  case (Cons kv kvs)
  obtain k v where kv: "kv = (k, v)" by fastforce
  obtain r m1 w1 where step: "set m k v w = (r, m1, w1)" by (metis prod_cases3)
  with Cons.prems(3) kv have r: "r = 0" "set_all kvs m1 w1 = (True, m', w')" by (auto split: if_splits)
  from set_ok [OF Cons.prems(1), of k v w m1 w1] step r Cons.prems(2) kv
  have "inv m1" "lookup m1 = (lookup m)(k := v)" by auto
  with Cons.IH [of m1 w1] r(2) Cons.prems(2) kv show ?case by simp
qed simp

lemma set_all_plenty:
  "inv m \<Longrightarrow> plenty w \<Longrightarrow> list_all (\<lambda>(k, v). okkey k) kvs \<Longrightarrow>
   \<exists>m' w'. set_all kvs m w = (True, m', w') \<and> inv m' \<and> plenty w'"
proof (induction kvs arbitrary: m w)
  case (Cons kv kvs)
  obtain k v where kv: "kv = (k, v)" by fastforce
  with Cons.prems set_plenty [of m k w v] obtain m1 w1 where step: "set m k v w = (0, m1, w1)" "plenty w1" by auto
  with set_inv [OF Cons.prems(1), of k v w 0 m1 w1] Cons.prems(3) kv have "inv m1" by auto
  with Cons.IH [of m1 w1] step kv Cons.prems(3) show ?case by auto
qed simp

end

text \<open>The stronger contract: a failed change leaves the object as it was.\<close>

locale assoc_contract = map_contract +
  assumes set_fail: "inv m \<Longrightarrow> okkey k \<Longrightarrow> set m k v w = (r, m', w') \<Longrightarrow> r \<noteq> 0 \<Longrightarrow> m' = m"

section \<open>The loops\<close>

definition matches :: "('k, 'v) Hash \<Rightarrow> 'k \<Rightarrow> ('k, 'v) HashEntry \<Rightarrow> bool" where
  "matches hash key p \<longleftrightarrow> he_hash p = hash_of (h_func hash) key \<and> h_compare hash (he_key p) key = 0"

lemma get_loop_find:
  "n \<le> length (h_entries hash) \<Longrightarrow>
   get_loop (h_entries hash) (h_compare hash) (hash_of (h_func hash) key) key n w =
     (case find (matches hash key) (rev (take n (h_entries hash))) of
        Some he \<Rightarrow> (Some (he_value he), w)
      | None \<Rightarrow> (None, snd (error_set_code 1 ''Key not found'' w)))"
proof (induction n)
  case (Suc n)
  then have "take (Suc n) (h_entries hash) = take n (h_entries hash) @ [h_entries hash ! n]"
    by (simp add: take_Suc_conv_app_nth)
  with Suc show ?case by (simp add: larr_get_def matches_def)
qed simp

lemma set_loop_miss:
  "h_entries hash = us @ vs \<Longrightarrow> \<forall>p \<in> set vs. \<not> matches hash key p \<Longrightarrow>
   set_loop hash key v (hash_of (h_func hash) key) (length us) (length (us @ vs)) w =
     (case v of None \<Rightarrow> (0, hash, w)
      | Some val \<Rightarrow>
          (case larr_append (us @ vs) (hashentry_init (h_func hash) key val) w of
             Some (r, es, w') \<Rightarrow> (if r = 0 then 0 else 1, hash\<lparr>h_entries := es\<rparr>, w')
           | None \<Rightarrow> (1, hash, w)))"
proof (induction vs arbitrary: us)
  case Nil
  then show ?case by (subst set_loop.simps) (auto split: option.split)
next
  case (Cons p vs)
  from Cons.IH [of "us @ [p]", unfolded append_assoc append_Cons append_Nil] Cons.prems show ?case
    by (subst set_loop.simps) (auto simp: larr_get_def matches_def nth_append split: option.split)
qed

lemma set_loop_hit:
  "h_entries hash = us @ ns @ p # vs \<Longrightarrow> \<forall>q \<in> set ns. \<not> matches hash key q \<Longrightarrow> matches hash key p \<Longrightarrow>
   set_loop hash key v (hash_of (h_func hash) key) (length us) (length (us @ ns @ p # vs)) w =
     (0, hash\<lparr>h_entries := (case v of None \<Rightarrow> us @ ns @ vs
        | Some val \<Rightarrow> us @ ns @ p\<lparr>he_value := val\<rparr> # vs)\<rparr>, w)"
proof (induction ns arbitrary: us)
  case Nil
  then show ?case
    by (subst set_loop.simps)
      (auto simp: larr_get_def larr_remove_pos_def matches_def nth_append hashentry_set_value_def
        split: option.split)
next
  case (Cons q ns)
  from Cons.IH [of "us @ [q]", unfolded append_assoc append_Cons append_Nil] Cons.prems show ?case
    by (subst set_loop.simps) (auto simp: larr_get_def matches_def nth_append split: option.split)
qed

section \<open>Keys\<close>

text \<open>
  What a hash needs of its two functions: on the keys used, \<open>compare\<close> returns 0 for equal keys
  only. (\<open>func\<close> is a function of the key, so equal keys have equal hash values.)
\<close>

definition pairs :: "('k, 'v) Hash \<Rightarrow> ('k \<times> 'v) list" where
  "pairs hash = map (\<lambda>e. (he_key e, he_value e)) (h_entries hash)"

definition hash_lookup :: "('k, 'v) Hash \<Rightarrow> 'k \<Rightarrow> 'v option" where
  "hash_lookup hash = map_of (pairs hash)"

definition hash_inv ::
  "('k \<Rightarrow> 32 word) option \<Rightarrow> ('k \<Rightarrow> 'k \<Rightarrow> int) \<Rightarrow> ('k \<Rightarrow> bool) \<Rightarrow> ('k, 'v) Hash \<Rightarrow> bool" where
  "hash_inv func cmp ok hash \<longleftrightarrow> h_func hash = func \<and> h_compare hash = cmp
     \<and> distinct (map he_key (h_entries hash))
     \<and> (\<forall>e \<in> set (h_entries hash). ok (he_key e) \<and> he_hash e = hash_of func (he_key e))"

lemma map_of_rev_distinct: "distinct (map fst ps) \<Longrightarrow> map_of (rev ps) = map_of ps"
proof (induction ps)
  case (Cons p ps)
  then have "map_of ps (fst p) = None" by (simp add: map_of_eq_None_iff)
  with Cons show ?case by (cases p) (auto simp: map_add_def fun_eq_iff split: option.split)
qed simp

locale hash_keys =
  fixes func :: "('k \<Rightarrow> 32 word) option"
    and cmp :: "'k \<Rightarrow> 'k \<Rightarrow> int"
    and ok :: "'k \<Rightarrow> bool"
  assumes cmp_eq: "ok a \<Longrightarrow> ok b \<Longrightarrow> cmp a b = 0 \<longleftrightarrow> a = b"
begin

lemma matches_key:
  "hash_inv func cmp ok hash \<Longrightarrow> ok key \<Longrightarrow> e \<in> set (h_entries hash) \<Longrightarrow>
   matches hash key e \<longleftrightarrow> he_key e = key"
  by (auto simp: hash_inv_def matches_def cmp_eq)

lemma find_matches_lookup:
  assumes "hash_inv func cmp ok hash" "ok key" "set es \<subseteq> set (h_entries hash)"
  shows "map_option he_value (find (matches hash key) es) = map_of (map (\<lambda>e. (he_key e, he_value e)) es) key"
  using assms(3)
proof (induction es)
  case (Cons e es)
  with matches_key [OF assms(1,2), of e] show ?case by auto
qed simp

lemma hash_get_lookup:
  assumes "hash_inv func cmp ok hash" "ok key"
  shows "fst (hash_get hash key w) = hash_lookup hash key"
proof -
  let ?es = "h_entries hash"
  have "fst (hash_get hash key w) = map_option he_value (find (matches hash key) (rev ?es))"
    unfolding hash_get_def by (subst get_loop_find) (auto split: option.split)
  also have "\<dots> = map_of (map (\<lambda>e. (he_key e, he_value e)) (rev ?es)) key"
    by (rule find_matches_lookup [OF assms]) simp
  also have "\<dots> = hash_lookup hash key"
    using assms(1)
    by (auto simp: hash_lookup_def pairs_def hash_inv_def comp_def rev_map [symmetric]
        intro!: map_of_rev_distinct [THEN fun_cong])
  finally show ?thesis .
qed

text \<open>Either no entry matches the key or exactly one does.\<close>

lemma entries_cases:
  assumes "hash_inv func cmp ok hash" "ok key"
  obtains (miss) "\<forall>p \<in> set (h_entries hash). \<not> matches hash key p" "key \<notin> fst ` set (pairs hash)"
  | (hit) us p vs where "h_entries hash = us @ p # vs" "\<forall>q \<in> set us. \<not> matches hash key q"
      "matches hash key p" "he_key p = key" "key \<notin> he_key ` set us" "key \<notin> he_key ` set vs"
proof (cases "\<exists>p \<in> set (h_entries hash). matches hash key p")
  case False
  with matches_key [OF assms] have "key \<notin> fst ` set (pairs hash)"
    by (auto simp: pairs_def)
  with False miss show ?thesis by blast
next
  case True
  then obtain us p vs where split: "h_entries hash = us @ p # vs" "\<forall>q \<in> set us. \<not> matches hash key q"
    "matches hash key p"
    using split_list_first_prop by metis
  then have "he_key p = key" using matches_key [OF assms, of p] by simp
  moreover from assms(1) split(1) have "distinct (map he_key (us @ p # vs))"
    by (simp add: hash_inv_def)
  ultimately show ?thesis using split hit by auto
qed

lemma hash_set_ok:
  assumes inv: "hash_inv func cmp ok hash" and key: "ok key" and set: "hash_set hash key v w = (0, hash', w')"
  shows "hash_inv func cmp ok hash' \<and> hash_lookup hash' = (hash_lookup hash)(key := v)"
proof (rule entries_cases [OF inv key], goal_cases miss hit)
  case miss
  note loop = set_loop_miss [of hash "[]" "h_entries hash" key v w, simplified, OF miss(1)]
  from miss(2) have none: "hash_lookup hash key = None"
    by (simp add: hash_lookup_def map_of_eq_None_iff)
  show ?case
  proof (cases v)
    case None
    with loop set have "hash' = hash" by (simp add: hash_set_def)
    with None inv none show ?thesis by auto
  next
    case (Some val)
    let ?e = "hashentry_init func key val"
    have "h_func hash = func" using inv by (simp add: hash_inv_def)
    with loop set Some have h': "hash' = hash\<lparr>h_entries := h_entries hash @ [?e]\<rparr>"
      by (auto simp: hash_set_def larr_append_def split: prod.splits bool.splits)
    have "hash_lookup hash' = (hash_lookup hash)(key \<mapsto> val)"
      using none
      by (auto simp: h' hash_lookup_def pairs_def hashentry_init_def map_add_def fun_eq_iff
          split: option.split)
    moreover have "hash_inv func cmp ok hash'"
      using inv key miss(2) by (auto simp: h' hash_inv_def hashentry_init_def pairs_def image_image)
    ultimately show ?thesis using Some by simp
  qed
next
  case (hit us p vs)
  from set_loop_hit [of hash "[]" us p vs key v w, unfolded append_Nil] hit set have
    h': "hash' = hash\<lparr>h_entries := (case v of None \<Rightarrow> us @ vs | Some val \<Rightarrow> us @ p\<lparr>he_value := val\<rparr> # vs)\<rparr>"
    by (simp add: hash_set_def)
  have "map_of (map (\<lambda>e. (he_key e, he_value e)) us) key = None"
    "map_of (map (\<lambda>e. (he_key e, he_value e)) vs) key = None"
    using hit(5,6) by (auto simp: map_of_eq_None_iff image_image)
  then have "hash_lookup hash' = (hash_lookup hash)(key := v)"
    using hit(1,4)
    by (auto simp: h' hash_lookup_def pairs_def map_add_def fun_eq_iff split: option.splits)
  moreover have "hash_inv func cmp ok hash'"
    using inv hit(1) by (auto simp: h' hash_inv_def split: option.split)
  ultimately show ?case by simp
qed

lemma hash_set_shape:
  assumes "hash_inv func cmp ok hash" "ok key"
  shows "fst (hash_set hash key v w) = 0 \<and> snd (snd (hash_set hash key v w)) = w
    \<or> v \<noteq> None \<and> hash_set hash key v w =
        (case w_alloc w of
           (True, w') \<Rightarrow> (0, hash\<lparr>h_entries := h_entries hash @ [hashentry_init (h_func hash) key (the v)]\<rparr>, w')
         | (False, w') \<Rightarrow> (1, hash, fail_errno (errno w') w'))"
proof (rule entries_cases [OF assms], goal_cases miss hit)
  case miss
  with set_loop_miss [of hash "[]" "h_entries hash" key v w] show ?case
    by (cases v) (auto simp: hash_set_def larr_append_def split: prod.splits bool.splits)
next
  case (hit us p vs)
  with set_loop_hit [of hash "[]" us p vs key v w] show ?case by (simp add: hash_set_def)
qed

lemma hash_get_alloc: "alloc (snd (hash_get hash key w)) = alloc w"
  unfolding hash_get_def
  by (subst get_loop_find) (auto simp: error_set_code_snd split: option.split)

lemma hash_set_fail:
  assumes "hash_inv func cmp ok hash" "ok key" "hash_set hash key v w = (r, hash', w')" "r \<noteq> 0"
  shows "hash' = hash"
  using hash_set_shape [OF assms(1,2), of v w] assms(3,4)
  by (auto split: prod.splits bool.splits)

lemma hash_set_plenty:
  assumes "hash_inv func cmp ok hash" "ok key" "plenty w"
  shows "\<exists>hash' w'. hash_set hash key v w = (0, hash', w') \<and> plenty w'"
  using hash_set_shape [OF assms(1,2), of v w] assms(3) w_alloc_plenty [OF assms(3)]
  by (cases "hash_set hash key v w") auto

end

sublocale hash_keys \<subseteq> assoc_contract hash_lookup "hash_inv func cmp ok" ok hash_get hash_set
proof (unfold_locales, goal_cases get get_alloc ok kept plenty fail)
  case (get m k w)
  then show ?case by (rule hash_get_lookup)
next
  case (get_alloc m k w)
  show ?case by (rule hash_get_alloc)
next
  case (ok m k v w m' w')
  then show ?case by (rule hash_set_ok)
next
  case (kept m k v w r m' w')
  then show ?case using hash_set_fail [OF kept] by simp
next
  case (plenty m k w v)
  then show ?case by (rule hash_set_plenty)
next
  case (fail m k v w r m' w')
  then show ?case by (rule hash_set_fail)
qed

lemma hash_new_ok:
  assumes "plenty w"
  shows "\<exists>hash w'. hash_new func (Some c) w = (Some hash, w') \<and> plenty w' \<and> hash_inv func c ok hash
    \<and> h_entries hash = []"
proof -
  obtain w1 where w1: "object_new 24 w = (True, w1)" "plenty w1"
    using object_new_ok [OF assms, of 24] by auto
  obtain w2 where "object_new 24 w1 = (True, w2)" "plenty w2"
    using object_new_ok [OF w1(2), of 24] by auto
  with w1 show ?thesis by (simp add: hash_new_def hash_inv_def)
qed

lemma hash_reset_empties: "hash_reset hash = (0, hash\<lparr>h_entries := []\<rparr>)"
proof (induction "length (h_entries hash)" arbitrary: hash)
  case 0
  then show ?case by (subst hash_reset.simps) simp
next
  case (Suc n)
  then obtain e es where es: "h_entries hash = e # es" by (cases "h_entries hash") auto
  with Suc(1) [of "hash\<lparr>h_entries := es\<rparr>"] Suc(2) show ?case
    by (subst hash_reset.simps) (simp add: larr_remove_pos_def)
qed

section \<open>String keys\<close>

text \<open>A key that is a C string.\<close>

definition cstring :: "string \<Rightarrow> bool" where
  "cstring s \<longleftrightarrow> NUL \<notin> set s"

interpretation strkeys: hash_keys "Some hash_func_string" hash_compare_string cstring
  by unfold_locales (simp add: hash_compare_string_def string_compare_cmp cmp_spec_eq_0 cstring_def)

lemma hash_inv_str_empty [simp]:
  "hash_inv func cmp ok \<lparr>h_func = func, h_compare = cmp, h_entries = []\<rparr>"
  by (simp add: hash_inv_def)

abbreviation str_hash_inv :: "(string, 'v) Hash \<Rightarrow> bool" where
  "str_hash_inv \<equiv> hash_inv (Some hash_func_string) hash_compare_string cstring"

section \<open>Properties\<close>

text \<open>
  C8: a hash with string keys is a map: after \<open>hash_set\<close> of a key, \<open>hash_get\<close> returns the new
  value for that key (nothing after a deletion, the \<open>NULL\<close> value) and the old value for every other
  key; when \<open>hash_set\<close> fails, the hash is unchanged.
\<close>

theorem hash_set_get:
  assumes "str_hash_inv hash" "cstring key" "cstring key'" "hash_set hash key v w = (r, hash', w')"
  shows "str_hash_inv hash'
    \<and> fst (hash_get hash' key' w1) = (if r = 0 \<and> key' = key then v else fst (hash_get hash key' w1))
    \<and> (r \<noteq> 0 \<longrightarrow> hash' = hash)"
proof -
  from strkeys.set_result [OF assms(1,2,4)] have inv: "str_hash_inv hash'"
    and look: "hash_lookup hash' = (if r = 0 then (hash_lookup hash)(key := v) else hash_lookup hash)"
    by auto
  from strkeys.get_lookup [OF inv assms(3)] strkeys.get_lookup [OF assms(1,3)] look
  have "fst (hash_get hash' key' w1) = (if r = 0 \<and> key' = key then v else fst (hash_get hash key' w1))"
    by simp
  moreover have "r \<noteq> 0 \<longrightarrow> hash' = hash"
    using strkeys.set_fail [OF assms(1,2,4)] by blast
  ultimately show ?thesis using inv by simp
qed

theorem hash_set_get_witness:
  "let h = \<lparr>h_func = Some hash_func_string, h_compare = hash_compare_string,
       h_entries = [\<lparr>he_hash = hash_func_string ''a'', he_key = ''a'', he_value = (1::int)\<rparr>]\<rparr>;
       h' = h\<lparr>h_entries := h_entries h @ [\<lparr>he_hash = hash_func_string ''b'', he_key = ''b'', he_value = 2\<rparr>]\<rparr>
   in hash_set h ''b'' (Some 2) world0 = (0, h', world0) \<and> str_hash_inv h'
     \<and> fst (hash_get h' ''b'' world0) = Some 2"
proof -
  let ?h = "\<lparr>h_func = Some hash_func_string, h_compare = hash_compare_string,
       h_entries = [\<lparr>he_hash = hash_func_string ''a'', he_key = ''a'', he_value = (1::int)\<rparr>]\<rparr>"
  let ?h' = "?h\<lparr>h_entries := h_entries ?h @ [\<lparr>he_hash = hash_func_string ''b'', he_key = ''b'', he_value = 2\<rparr>]\<rparr>"
  have set: "hash_set ?h ''b'' (Some 2) world0 = (0, ?h', world0)"
    by (simp add: hash_set_def set_loop.simps larr_get_def larr_append_def w_alloc_def hashentry_init_def
        hash_of_def hash_func_string_def hash_compare_string_def sc_def uc_def)
  have inv: "str_hash_inv ?h"
    by (simp add: hash_inv_def cstring_def hash_of_def)
  have keys: "cstring ''b''" by (simp add: cstring_def)
  show ?thesis
    using hash_set_get [OF inv keys keys set, of world0] set by (simp add: Let_def)
qed

text \<open>
  \<open>hash_func_string\<close> only looks at the first four bytes: strings that agree on them collide, so
  \<open>hash_get\<close> separates such keys by comparison alone, and it still finds the right one.
\<close>

theorem hash_collision_get:
  assumes "str_hash_inv hash" "cstring key" "cstring key'" "take 4 key = take 4 key'"
    and "key \<noteq> key'" "hash_set hash key (Some v) w = (0, hash', w')"
  shows "hash_func_string key = hash_func_string key'
    \<and> fst (hash_get hash' key w1) = Some v \<and> fst (hash_get hash' key' w1) = fst (hash_get hash key' w1)"
proof -
  have "func_string_loop s i h = func_string_loop (take (4 - i) s) i h" for s i h
  proof (induction s i h rule: func_string_loop.induct)
    case (2 c s i h)
    show ?case
    proof (cases "i < 4")
      case True
      then have "4 - i = Suc (4 - (i + 1))" by simp
      with 2 True show ?thesis by simp
    qed simp
  qed simp
  from this [of key 0 0] this [of key' 0 0] assms(4) have "hash_func_string key = hash_func_string key'"
    by (simp add: hash_func_string_def)
  with strkeys.get_after_set [OF assms(1,2,2,6)] strkeys.get_after_set [OF assms(1,2,3,6)] assms(5)
  show ?thesis by auto
qed

theorem hash_collision_get_witness:
  "let h = \<lparr>h_func = Some hash_func_string, h_compare = hash_compare_string, h_entries = []\<rparr>;
       h' = h\<lparr>h_entries := [\<lparr>he_hash = hash_func_string ''abcde'', he_key = ''abcde'', he_value = (1::int)\<rparr>]\<rparr>
   in hash_func_string ''abcde'' = hash_func_string ''abcdx'' \<and> fst (hash_get h' ''abcde'' world0) = Some 1
     \<and> fst (hash_get h' ''abcdx'' world0) = fst (hash_get h ''abcdx'' world0)"
proof -
  let ?h = "\<lparr>h_func = Some hash_func_string, h_compare = hash_compare_string, h_entries = []\<rparr>"
  let ?h' = "?h\<lparr>h_entries := [\<lparr>he_hash = hash_func_string ''abcde'', he_key = ''abcde'', he_value = (1::int)\<rparr>]\<rparr>"
  have set: "hash_set ?h ''abcde'' (Some 1) world0 = (0, ?h', world0)"
    by (simp add: hash_set_def set_loop.simps larr_append_def w_alloc_def hashentry_init_def hash_of_def)
  have inv: "str_hash_inv ?h" by (simp add: hash_inv_def)
  have keys: "cstring ''abcde''" "cstring ''abcdx''" by (simp_all add: cstring_def)
  have agree: "take 4 ''abcde'' = take 4 ''abcdx''" "''abcde'' \<noteq> ''abcdx''" by simp_all
  show ?thesis
    unfolding Let_def by (rule hash_collision_get [OF inv keys agree set])
qed

end
