(* ===== verification/Sys_File.thy ===== *)
theory Sys_File
  imports Sys_World
begin

text \<open>
  The files the libSystem routines read and write, as they see them through \<open>stdio\<close>. An input
  stream is the rest of its contents, whether reading past them fails instead of reporting the end
  of the file, and the end-of-file indicator. An output stream is the text written so far and
  the outcomes of the coming \<open>fprintf\<close> calls. Opening and closing are outcomes too.
\<close>

record infile =
  in_rest :: string
  in_fails :: bool
  in_eof :: bool

definition in_open :: "string \<Rightarrow> infile" where
  "in_open text = \<lparr>in_rest = text, in_fails = False, in_eof = False\<rparr>"

text \<open>\<open>fgetc\<close>: \<open>None\<close> is \<open>EOF\<close>.\<close>

definition fgetc :: "infile \<Rightarrow> char option \<times> infile" where
  "fgetc f =
     (case in_rest f of
        c # cs \<Rightarrow> (Some c, f\<lparr>in_rest := cs\<rparr>)
      | [] \<Rightarrow> (None, if in_fails f then f else f\<lparr>in_eof := True\<rparr>))"

definition feof :: "infile \<Rightarrow> bool" where
  "feof f = in_eof f"

text \<open>A failed \<open>fprintf\<close> writes the given number of characters and sets \<open>errno\<close>.\<close>

record outfile =
  out_text :: string
  out_outcomes :: "(nat \<times> int) option list"

definition out_open :: "(nat \<times> int) option list \<Rightarrow> outfile" where
  "out_open outcomes = \<lparr>out_text = [], out_outcomes = outcomes\<rparr>"

definition fprintf_text :: "outfile \<Rightarrow> string \<Rightarrow> world \<Rightarrow> int \<times> outfile \<times> world" where
  "fprintf_text f s w =
     (case out_outcomes f of
        [] \<Rightarrow> (int (length s), f\<lparr>out_text := out_text f @ s\<rparr>, w)
      | None # rest \<Rightarrow> (int (length s), f\<lparr>out_text := out_text f @ s, out_outcomes := rest\<rparr>, w)
      | Some (n, e) # rest \<Rightarrow>
          (- 1, f\<lparr>out_text := out_text f @ take n s, out_outcomes := rest\<rparr>, w\<lparr>errno := e\<rparr>))"

text \<open>\<open>fclose\<close>: 0, or \<open>EOF\<close> and \<open>errno\<close>.\<close>

definition fclose_result :: "int option \<Rightarrow> world \<Rightarrow> int \<times> world" where
  "fclose_result err w = (case err of None \<Rightarrow> (0, w) | Some e \<Rightarrow> (- 1, w\<lparr>errno := e\<rparr>))"

section \<open>Facts\<close>

lemma fgetc_Cons [simp]: "in_rest f = c # cs \<Longrightarrow> fgetc f = (Some c, f\<lparr>in_rest := cs\<rparr>)"
  by (simp add: fgetc_def)

lemma fgetc_Nil [simp]:
  "in_rest f = [] \<Longrightarrow> fgetc f = (None, if in_fails f then f else f\<lparr>in_eof := True\<rparr>)"
  by (simp add: fgetc_def)

lemma fgetc_shorter: "fgetc f = (Some c, f') \<Longrightarrow> length (in_rest f) = Suc (length (in_rest f'))"
  by (auto simp: fgetc_def split: list.splits)

lemma fgetc_None: "fgetc f = (None, f') \<Longrightarrow> in_rest f = [] \<and> in_rest f' = []"
  by (auto simp: fgetc_def split: list.splits if_splits)

lemma fgetc_Some_record:
  "fgetc f = (Some c, f') \<longleftrightarrow> in_rest f = c # in_rest f' \<and> in_fails f' = in_fails f \<and> in_eof f' = in_eof f"
  by (cases f; cases f') (auto simp: fgetc_def split: list.splits)

end
