(* ===== verification/Sys_Config.thy ===== *)
theory Sys_Config
  imports Sys_Hash Sys_File
begin

text \<open>
  Configuration files, \<open>libSystem/src/config.c\<close>: a \<open>Config\<close> is a hash of sections, each a hash of
  variables. The file operations are over the streams of \<open>Sys_File\<close>. The main results are the
  behaviour of \<open>config_set\<close> as an update of a two-level map and the round trip of
  \<open>config_save\<close> and \<open>config_load\<close>.

  A section is reached through the pointer stored in the configuration, so a change of it is
  written back to its entry (\<open>section_store\<close>). Code that only frees memory has no counterpart.
\<close>

type_synonym section_hash = "(string, string) Hash"
type_synonym Config = "(string, section_hash) Hash"

definition section_store :: "Config \<Rightarrow> string \<Rightarrow> section_hash \<Rightarrow> Config" where
  "section_store config sec h =
     config\<lparr>h_entries := map (\<lambda>e. if matches config sec e then e\<lparr>he_value := h\<rparr> else e) (h_entries config)\<rparr>"

section \<open>Operations in memory\<close>

definition config_new :: "world \<Rightarrow> Config option \<times> world" where
  "config_new w = hash_new (Some hash_func_string) (Some hash_compare_string) w"

definition config_get :: "Config \<Rightarrow> string option \<Rightarrow> string \<Rightarrow> world \<Rightarrow> string option \<times> world" where
  "config_get config section_p variable w =
     (let sec = (case section_p of None \<Rightarrow> [] | Some s \<Rightarrow> s) in
      case hash_get config sec w of
        (None, w1) \<Rightarrow>
          if sec = [] then (None, snd (error_set_code 1 ''No default section'' w1))
          else (None, snd (error_set_code 1 (sec @ '': No such section'') w1))
      | (Some h, w1) \<Rightarrow>
          (case hash_get h variable w1 of
             (None, w2) \<Rightarrow>
               (None, snd (error_set_code 1
                  (variable @ '': Not defined in'' @ (if sec = [] then '' default'' else [])
                   @ '' section '' @ (if sec \<noteq> [] then sec else [])) w2))
           | (Some value, w2) \<Rightarrow> (Some value, w2)))"

definition config_set_variable ::
  "Config \<Rightarrow> string \<Rightarrow> section_hash \<Rightarrow> string \<Rightarrow> string option \<Rightarrow> world \<Rightarrow> int \<times> Config \<times> world" where
  "config_set_variable config sec h variable value w =
     (case string_new (Some variable) w of
        (None, w1) \<Rightarrow> (1, config, w1)
      | (Some p, w1) \<Rightarrow>
          (case (case value of None \<Rightarrow> (None, w1) | Some v \<Rightarrow> string_new (Some v) w1) of
             (newvalue, w2) \<Rightarrow>
               if value \<noteq> None \<and> newvalue = None then (1, config, w2)
               else (case hash_set h p newvalue w2 of
                 (r, h', w3) \<Rightarrow> (if r \<noteq> 0 then 1 else 0, section_store config sec h', w3))))"

definition config_set ::
  "Config \<Rightarrow> string option \<Rightarrow> string \<Rightarrow> string option \<Rightarrow> world \<Rightarrow> int \<times> Config \<times> world" where
  "config_set config section_p variable value w =
     (let sec = (case section_p of None \<Rightarrow> [] | Some s \<Rightarrow> s) in
      case hash_get config sec w of
        (None, w1) \<Rightarrow>
          (case hash_new (Some hash_func_string) (Some hash_compare_string) w1 of
             (None, w2) \<Rightarrow> (1, config, w2)
           | (Some h, w2) \<Rightarrow>
               (case string_new (Some sec) w2 of
                  (None, w3) \<Rightarrow> (1, config, w3)
                | (Some p, w3) \<Rightarrow>
                    (case hash_set config p (Some h) w3 of
                       (r, config', w4) \<Rightarrow>
                         if r \<noteq> 0 then (1, config', w4)
                         else config_set_variable config' sec h variable value w4)))
      | (Some h, w1) \<Rightarrow>
          (case hash_get h variable w1 of
             (oldvalue, w2) \<Rightarrow> config_set_variable config sec h variable value w2))"

definition foreach_callback :: "(string \<Rightarrow> 'd \<Rightarrow> 'd) \<Rightarrow> string \<Rightarrow> section_hash \<Rightarrow> 'd \<Rightarrow> 'd" where
  "foreach_callback callback key value d = callback key d"

definition config_foreach :: "Config \<Rightarrow> (string \<Rightarrow> 'd \<Rightarrow> 'd) \<Rightarrow> 'd \<Rightarrow> 'd" where
  "config_foreach config callback priv = hash_foreach config (foreach_callback callback) priv"

definition config_foreach_section ::
  "Config \<Rightarrow> string \<Rightarrow> (string \<Rightarrow> string \<Rightarrow> 'd \<Rightarrow> 'd) \<Rightarrow> 'd \<Rightarrow> world \<Rightarrow> 'd \<times> world" where
  "config_foreach_section config sec callback priv w =
     (case hash_get config sec w of
        (None, w') \<Rightarrow> (priv, w')
      | (Some h, w') \<Rightarrow> (hash_foreach h callback priv, w'))"

definition config_reset :: "Config \<Rightarrow> int \<times> Config" where
  "config_reset config = hash_reset config"

section \<open>Loading\<close>

definition load_isprint :: "char \<Rightarrow> bool" where
  "load_isprint c = (c \<noteq> NL \<and> c \<noteq> NUL)"

text \<open>In the three readers \<open>str\<close> is the text collected so far, \<open>None\<close> the \<open>NULL\<close> pointer.\<close>

function load_section :: "infile \<Rightarrow> string option \<Rightarrow> world \<Rightarrow> string option \<times> infile \<times> world" where
  "load_section f str w =
     (case fgetc f of
        (None, f') \<Rightarrow> (None, f', w)
      | (Some c, f') \<Rightarrow>
          if c \<noteq> CHR '']'' \<and> load_isprint c then
            (case w_alloc w of
               (False, w') \<Rightarrow> (None, f', w')
             | (True, w') \<Rightarrow> load_section f' (Some (str_of str @ [c])) w')
          else if c \<noteq> CHR '']'' then (None, f', w)
          else (case str of
            None \<Rightarrow> (case string_new (Some []) w of (s, w') \<Rightarrow> (s, f', w'))
          | Some s \<Rightarrow> (Some s, f', w)))"
  by pat_completeness auto
termination
  by (relation "measure (\<lambda>(f, str, w). length (in_rest f))") (auto dest: fgetc_shorter [OF sym])

function load_variable_loop :: "infile \<Rightarrow> string option \<Rightarrow> world \<Rightarrow> string option \<times> infile \<times> world" where
  "load_variable_loop f str w =
     (case fgetc f of
        (None, f') \<Rightarrow> (None, f', w)
      | (Some c, f') \<Rightarrow>
          if c \<noteq> CHR ''='' \<and> load_isprint c then
            (case string_append str (Some [c]) w of
               (r, str', w') \<Rightarrow>
                 if r \<noteq> 0 then (None, f', w') else load_variable_loop f' str' w')
          else if c \<noteq> CHR ''='' then (None, f', w)
          else (str, f', w))"
  by pat_completeness auto
termination
  by (relation "measure (\<lambda>(f, str, w). length (in_rest f))") (auto dest: fgetc_shorter [OF sym])

definition load_variable :: "infile \<Rightarrow> char \<Rightarrow> world \<Rightarrow> string option \<times> infile \<times> world" where
  "load_variable f c w =
     (case string_new (Some [c]) w of
        (None, w') \<Rightarrow> (None, f, w')
      | (Some str, w') \<Rightarrow> load_variable_loop f (Some str) w')"

function load_value :: "infile \<Rightarrow> string option \<Rightarrow> world \<Rightarrow> string option \<times> infile \<times> world" where
  "load_value f str w =
     (case fgetc f of
        (None, f') \<Rightarrow> (None, f', w)
      | (Some c, f') \<Rightarrow>
          if load_isprint c then
            (case w_alloc w of
               (False, w') \<Rightarrow> (None, f', w')
             | (True, w') \<Rightarrow> load_value f' (Some (str_of str @ [c])) w')
          else if c \<noteq> NL then (None, f', w)
          else (case str of
            None \<Rightarrow> (case string_new (Some []) w of (s, w') \<Rightarrow> (s, f', w'))
          | Some s \<Rightarrow> (Some s, f', w)))"
  by pat_completeness auto
termination
  by (relation "measure (\<lambda>(f, str, w). length (in_rest f))") (auto dest: fgetc_shorter [OF sym])

function skip_comment :: "infile \<Rightarrow> infile" where
  "skip_comment f =
     (case fgetc f of
        (None, f') \<Rightarrow> f'
      | (Some c, f') \<Rightarrow> if c \<noteq> NL then skip_comment f' else f')"
  by pat_completeness auto
termination
  by (relation "measure (\<lambda>f. length (in_rest f))") (auto dest: fgetc_shorter [OF sym])

declare load_section.simps [simp del] load_variable_loop.simps [simp del] load_value.simps [simp del]
  skip_comment.simps [simp del]

lemma load_section_rest: "load_section f str w = (r, f', w') \<Longrightarrow> length (in_rest f') \<le> length (in_rest f)"
proof (induction f str w rule: load_section.induct)
  case (1 f str w)
  obtain oc f1 where fg: "fgetc f = (oc, f1)" by fastforce
  show ?case
  proof (cases oc)
    case None
    with fg "1.prems" show ?thesis
      by (subst (asm) load_section.simps) (auto dest: fgetc_None)
  next
    case (Some c)
    note IH = "1.IH" [OF fg [symmetric] Some]
    from fg Some have "length (in_rest f1) \<le> length (in_rest f)"
      by (auto dest: fgetc_shorter)
    with fg Some "1.prems" show ?thesis
      by (subst (asm) load_section.simps)
        (auto dest!: IH [OF conjI sym] split: prod.splits bool.splits option.splits if_splits)
  qed
qed

lemma load_variable_loop_rest:
  "load_variable_loop f str w = (r, f', w') \<Longrightarrow> length (in_rest f') \<le> length (in_rest f)"
proof (induction f str w rule: load_variable_loop.induct)
  case (1 f str w)
  obtain oc f1 where fg: "fgetc f = (oc, f1)" by fastforce
  show ?case
  proof (cases oc)
    case None
    with fg "1.prems" show ?thesis
      by (subst (asm) load_variable_loop.simps) (auto dest: fgetc_None)
  next
    case (Some c)
    note IH = "1.IH" [OF fg [symmetric] Some]
    from fg Some have "length (in_rest f1) \<le> length (in_rest f)"
      by (auto dest: fgetc_shorter)
    with fg Some "1.prems" show ?thesis
      by (subst (asm) load_variable_loop.simps)
        (auto dest!: IH [OF conjI sym refl] split: prod.splits bool.splits option.splits if_splits)
  qed
qed

lemma load_variable_rest:
  "load_variable f c w = (r, f', w') \<Longrightarrow> length (in_rest f') \<le> length (in_rest f)"
  by (auto simp: load_variable_def dest: load_variable_loop_rest split: prod.splits option.splits)

lemma load_value_rest: "load_value f str w = (r, f', w') \<Longrightarrow> length (in_rest f') \<le> length (in_rest f)"
proof (induction f str w rule: load_value.induct)
  case (1 f str w)
  obtain oc f1 where fg: "fgetc f = (oc, f1)" by fastforce
  show ?case
  proof (cases oc)
    case None
    with fg "1.prems" show ?thesis
      by (subst (asm) load_value.simps) (auto dest: fgetc_None)
  next
    case (Some c)
    note IH = "1.IH" [OF fg [symmetric] Some]
    from fg Some have "length (in_rest f1) \<le> length (in_rest f)"
      by (auto dest: fgetc_shorter)
    with fg Some "1.prems" show ?thesis
      by (subst (asm) load_value.simps)
        (auto dest!: IH [OF _ sym] split: prod.splits bool.splits option.splits if_splits)
  qed
qed

lemma skip_comment_rest: "length (in_rest (skip_comment f)) \<le> length (in_rest f)"
  by (induction f rule: skip_comment.induct, subst skip_comment.simps)
    (force dest: fgetc_shorter fgetc_None split: prod.splits option.splits)

text \<open>
  The loop of \<open>config_load\<close>, up to a \<open>break\<close> or the end of the file. The outcome of
  \<open>config_set\<close> is ignored there. \<open>line\<close> counts the iterations.
\<close>

function load_loop :: "Config \<Rightarrow> string \<Rightarrow> infile \<Rightarrow> nat \<Rightarrow> world \<Rightarrow> Config \<times> infile \<times> nat \<times> world" where
  "load_loop config sec f line w =
     (case fgetc f of
        (None, f') \<Rightarrow> (config, f', line, w)
      | (Some c, f') \<Rightarrow>
          if c = CHR ''#'' then load_loop config sec (skip_comment f') (line + 1) w
          else if c = CHR ''['' then
            (case load_section f' None w of
               (None, f1, w1) \<Rightarrow> (config, f1, line, w1)
             | (Some str, f1, w1) \<Rightarrow> load_loop config str f1 (line + 1) w1)
          else if load_isprint c then
            (case load_variable f' c w of
               (None, f1, w1) \<Rightarrow> (config, f1, line, w1)
             | (Some variable, f1, w1) \<Rightarrow>
                 (case load_value f1 None w1 of
                    (None, f2, w2) \<Rightarrow> (config, f2, line, w2)
                  | (Some str, f2, w2) \<Rightarrow>
                      (case config_set config (Some sec) variable (Some str) w2 of
                         (r, config', w3) \<Rightarrow> load_loop config' sec f2 (line + 1) w3)))
          else if c \<noteq> NL then (config, f', line, w)
          else load_loop config sec f' (line + 1) w)"
  by pat_completeness auto
termination
proof (relation "measure (\<lambda>(config, sec, f, line, w). length (in_rest f))", goal_cases)
  case (2 config sec f line w oc f' c)
  with skip_comment_rest [of f'] show ?case by (auto dest!: fgetc_shorter [OF sym])
qed (auto dest!: fgetc_shorter [OF sym] load_section_rest [OF sym] load_variable_rest [OF sym]
    load_value_rest [OF sym])

declare load_loop.simps [simp del]

text \<open>
  The file system is a parameter: \<open>fopen\<close> gives the stream a name opens to or the \<open>errno\<close> of
  the failure, \<open>closing\<close> the outcome of \<open>fclose\<close>.
\<close>

definition config_load ::
  "(string \<Rightarrow> int + infile) \<Rightarrow> int option \<Rightarrow> Config \<Rightarrow> string \<Rightarrow> world \<Rightarrow> int \<times> Config \<times> world" where
  "config_load fopen closing config filename w =
     (case string_new (Some []) w of
        (None, w1) \<Rightarrow> (1, config, w1)
      | (Some sec, w1) \<Rightarrow>
          (case fopen filename of
             Inl e \<Rightarrow>
               (case strerror e (w1\<lparr>errno := e\<rparr>) of
                  (msg, w2) \<Rightarrow>
                    (case error_set_code 1 (filename @ '': '' @ msg) w2 of (r, w3) \<Rightarrow> (r, config, w3)))
           | Inr f \<Rightarrow>
               (case load_loop config sec f 0 w1 of
                  (config', f', line, w2) \<Rightarrow>
                    (case (if feof f' then (0, w2)
                           else error_set_code 1
                             (filename @ '': Syntax error at line '' @ show_nat line) w2) of
                       (ret, w3) \<Rightarrow>
                         (case fclose_result closing w3 of
                            (r, w4) \<Rightarrow>
                              if r \<noteq> 0 then
                                (case strerror (errno w4) w4 of
                                   (msg, w5) \<Rightarrow>
                                     (case error_set_code 1 (filename @ '': '' @ msg) w5 of
                                        (ret', w6) \<Rightarrow> (ret', config', w6)))
                              else (ret, config', w4))))))"

section \<open>Saving\<close>

text \<open>The callbacks get a pointer to \<open>fp\<close>; they close it and set it to \<open>NULL\<close> (\<open>None\<close>) on failure.\<close>

type_synonym saving = "outfile option \<times> world"

definition save_foreach_section :: "string \<Rightarrow> string \<Rightarrow> saving \<Rightarrow> saving" where
  "save_foreach_section var val d =
     (case d of
        (None, w) \<Rightarrow> (None, w)
      | (Some fp, w) \<Rightarrow>
          (case fprintf_text fp (var @ ''='' @ val @ [NL]) w of
             (r, fp', w') \<Rightarrow> if r \<ge> 0 then (Some fp', w') else (None, w')))"

definition save_foreach_default :: "string \<Rightarrow> section_hash \<Rightarrow> saving \<Rightarrow> saving" where
  "save_foreach_default sec h d =
     (if fst d = None then d
      else if head_byte sec \<noteq> NUL then d
      else hash_foreach h save_foreach_section d)"

definition save_foreach :: "string \<Rightarrow> section_hash \<Rightarrow> saving \<Rightarrow> saving" where
  "save_foreach sec h d =
     (case d of
        (None, w) \<Rightarrow> (None, w)
      | (Some fp, w) \<Rightarrow>
          if head_byte sec = NUL then (Some fp, w)
          else case fprintf_text fp ([NL] @ ''['' @ sec @ '']'' @ [NL]) w of
            (r, fp', w') \<Rightarrow>
              if r < 0 then (None, w') else hash_foreach h save_foreach_section (Some fp', w'))"

text \<open>
  The stream returned is the one closed at the end; when a \<open>fprintf\<close> failed it was closed by the
  callback and there is none. \<open>fopen\<close> gives the outcomes of the writes.
\<close>

definition config_save ::
  "(string \<Rightarrow> int + (nat \<times> int) option list) \<Rightarrow> int option \<Rightarrow> Config \<Rightarrow> string \<Rightarrow> world
     \<Rightarrow> int \<times> outfile option \<times> world" where
  "config_save fopen closing config filename w =
     (case fopen filename of
        Inl e \<Rightarrow>
          (case strerror e (w\<lparr>errno := e\<rparr>) of
             (msg, w1) \<Rightarrow>
               (case error_set_code 1 (filename @ '': '' @ msg) w1 of (r, w2) \<Rightarrow> (r, None, w2)))
      | Inr outcomes \<Rightarrow>
          (case hash_foreach config save_foreach
                  (hash_foreach config save_foreach_default (Some (out_open outcomes), w)) of
             (fp, w1) \<Rightarrow>
               (case (if fp = None then (- 1, w1) else fclose_result closing w1) of
                  (r, w2) \<Rightarrow>
                    if r \<noteq> 0 then
                      (case strerror (errno w2) w2 of
                         (msg, w3) \<Rightarrow>
                           (case error_set_code 1 (filename @ '': '' @ msg) w3 of
                              (ret, w4) \<Rightarrow> (ret, fp, w4)))
                    else (0, fp, w2))))"

section \<open>The configuration as a two-level map\<close>

definition cfg_inv :: "Config \<Rightarrow> bool" where
  "cfg_inv config \<longleftrightarrow> str_hash_inv config \<and> (\<forall>s h. hash_lookup config s = Some h \<longrightarrow> str_hash_inv h)"

definition cfg_lookup :: "Config \<Rightarrow> string \<Rightarrow> string \<Rightarrow> string option" where
  "cfg_lookup config s = (case hash_lookup config s of None \<Rightarrow> Map.empty | Some h \<Rightarrow> hash_lookup h)"

lemma section_store_lookup:
  assumes "str_hash_inv config" "cstring sec" "hash_lookup config sec \<noteq> None"
  shows "str_hash_inv (section_store config sec h)
    \<and> hash_lookup (section_store config sec h) = (hash_lookup config)(sec \<mapsto> h)"
proof -
  let ?upd = "\<lambda>e. if matches config sec e then e\<lparr>he_value := h\<rparr> else e"
  have key: "matches config sec e \<longleftrightarrow> he_key e = sec" if "e \<in> set (h_entries config)" for e
    using strkeys.matches_key [OF assms(1,2) that] .
  have "map (he_key \<circ> ?upd) es = map he_key es" for es
    by (induction es) auto
  then have "str_hash_inv (section_store config sec h)"
    using assms(1) by (auto simp: hash_inv_def section_store_def simp del: map_eq_conv)
  moreover have "map_of (map (\<lambda>e. (he_key e, he_value e)) (map ?upd es)) k =
      (if k = sec \<and> k \<in> he_key ` set es then Some h else map_of (map (\<lambda>e. (he_key e, he_value e)) es) k)"
    if "set es \<subseteq> set (h_entries config)" for k es
    using that
  proof (induction es)
    case (Cons e es)
    with key [of e] show ?case by auto
  qed simp
  moreover from assms(3) have "sec \<in> he_key ` set (h_entries config)"
    by (simp add: hash_lookup_def pairs_def map_of_eq_None_iff image_image)
  ultimately show ?thesis
    by (auto simp: hash_lookup_def pairs_def section_store_def fun_eq_iff)
qed

lemma config_get_lookup:
  assumes "cfg_inv config" "cstring sec" "cstring variable"
  shows "fst (config_get config (Some sec) variable w) = cfg_lookup config sec variable"
proof (cases "hash_get config sec w")
  case (Pair r w1)
  with assms strkeys.get_lookup [of config sec w] have r: "r = hash_lookup config sec"
    by (simp add: cfg_inv_def)
  show ?thesis
  proof (cases r)
    case None
    with Pair r show ?thesis by (simp add: config_get_def cfg_lookup_def)
  next
    case (Some h)
    with assms r have "str_hash_inv h" by (simp add: cfg_inv_def)
    with Some Pair r strkeys.get_lookup [of h variable w1] assms(3) show ?thesis
      by (auto simp: config_get_def cfg_lookup_def split: prod.splits option.splits)
  qed
qed

text \<open>What \<open>config_set\<close> must do to the map: \<open>val\<close> \<open>None\<close> removes the variable.\<close>

definition cfg_upd ::
  "(string \<Rightarrow> string \<Rightarrow> string option) \<Rightarrow> string \<Rightarrow> string \<Rightarrow> string option \<Rightarrow> string \<Rightarrow> string \<Rightarrow> string option" where
  "cfg_upd M sec var val = M(sec := (M sec)(var := val))"

lemma config_set_variable_result:
  assumes inv: "cfg_inv config" "cstring sec" "cstring var"
    and sec: "hash_lookup config sec = Some h"
    and set: "config_set_variable config sec h var val w = (r, config', w')"
  shows "cfg_inv config' \<and> cfg_lookup config' =
    (if r = 0 then cfg_upd (cfg_lookup config) sec var val else cfg_lookup config)"
proof -
  have h: "str_hash_inv h" using inv(1) sec by (simp add: cfg_inv_def)
  from set consider "r = 1" "config' = config"
    | h' w1 w2 rh where "hash_set h var val w1 = (rh, h', w2)" "r = (if rh \<noteq> 0 then 1 else 0)"
        "config' = section_store config sec h'"
    by (auto simp: config_set_variable_def dest!: string_new_result
        split: prod.splits option.splits if_splits)
  then show ?thesis
  proof cases
    case 1
    then show ?thesis using inv(1) by simp
  next
    case 2
    from strkeys.set_result [OF h inv(3) 2(1)] have h': "str_hash_inv h'"
      "hash_lookup h' = (if rh = 0 then (hash_lookup h)(var := val) else hash_lookup h)" by auto
    have "str_hash_inv config" using inv(1) by (simp add: cfg_inv_def)
    from section_store_lookup [OF this inv(2)] sec have store:
      "str_hash_inv config'" "hash_lookup config' = (hash_lookup config)(sec \<mapsto> h')"
      using 2(3) by auto
    with h'(1) inv(1) have "cfg_inv config'" by (auto simp: cfg_inv_def)
    moreover have "cfg_lookup config' =
        (if r = 0 then cfg_upd (cfg_lookup config) sec var val else cfg_lookup config)"
      using store(2) h'(2) sec 2(2) by (auto simp: cfg_lookup_def cfg_upd_def fun_eq_iff)
    ultimately show ?thesis by blast
  qed
qed

lemma hash_new_result:
  "hash_new func (Some c) w = (Some h, w') \<Longrightarrow> h = \<lparr>h_func = func, h_compare = c, h_entries = []\<rparr>"
  by (auto simp: hash_new_def split: prod.splits bool.splits)

lemma config_set_result:
  assumes inv: "cfg_inv config" "cstring sec" "cstring var"
    and set: "config_set config (Some sec) var val w = (r, config', w')"
  shows "cfg_inv config' \<and> cfg_lookup config' =
    (if r = 0 then cfg_upd (cfg_lookup config) sec var val else cfg_lookup config)"
proof -
  have c: "str_hash_inv config" using inv(1) by (simp add: cfg_inv_def)
  obtain p w1 where get: "hash_get config sec w = (p, w1)" by fastforce
  with strkeys.get_lookup [OF c inv(2), of w] have p: "p = hash_lookup config sec" by simp
  show ?thesis
  proof (cases p)
    case (Some h)
    obtain q w2 where "hash_get h var w1 = (q, w2)" by fastforce
    with set get Some have "config_set_variable config sec h var val w2 = (r, config', w')"
      by (simp add: config_set_def)
    moreover have "hash_lookup config sec = Some h" using p Some by simp
    ultimately show ?thesis using config_set_variable_result [OF inv] by blast
  next
    case None
    let ?h = "\<lparr>h_func = Some hash_func_string, h_compare = hash_compare_string, h_entries = []\<rparr> :: section_hash"
    from set get None consider "r = 1" "config' = config"
      | c1 w3 w4 r1 where "hash_set config sec (Some ?h) w3 = (r1, c1, w4)" "r1 \<noteq> 0" "r = 1" "config' = c1"
      | c1 w3 w4 where "hash_set config sec (Some ?h) w3 = (0, c1, w4)"
          "config_set_variable c1 sec ?h var val w4 = (r, config', w')"
      by (auto simp: config_set_def dest!: string_new_result hash_new_result
          split: prod.splits option.splits if_splits)
    then show ?thesis
    proof cases
      case 1
      then show ?thesis using inv(1) by simp
    next
      case 2
      with strkeys.set_fail [OF c inv(2) 2(1)] inv(1) show ?thesis by simp
    next
      case 3
      from strkeys.set_ok [OF c inv(2) 3(1)] have c1: "str_hash_inv c1"
        "hash_lookup c1 = (hash_lookup config)(sec \<mapsto> ?h)" by auto
      then have "cfg_inv c1" using inv(1) by (auto simp: cfg_inv_def)
      moreover have "cfg_lookup c1 = cfg_lookup config"
        using c1(2) p None by (auto simp: cfg_lookup_def fun_eq_iff hash_lookup_def pairs_def)
      ultimately show ?thesis
        using config_set_variable_result [OF _ inv(2,3) _ 3(2)] c1(2) by auto
    qed
  qed
qed

lemma plenty_hash_get: "hash_get hash key w = (r, w') \<Longrightarrow> plenty w' = plenty w"
  using strkeys.hash_get_alloc [of hash key w] by (simp add: plenty_def)

lemma config_set_variable_plenty:
  assumes "str_hash_inv h" "cstring var" "plenty w"
  shows "\<exists>config' w'. config_set_variable config sec h var val w = (0, config', w') \<and> plenty w'"
proof -
  obtain w1 where w1: "string_new (Some var) w = (Some var, w1)" "plenty w1"
    using string_new_ok [OF assms(3)] by blast
  obtain w2 where w2: "(case val of None \<Rightarrow> (None, w1) | Some v \<Rightarrow> string_new (Some v) w1) = (val, w2)" "plenty w2"
    using string_new_ok [OF w1(2)] w1(2) by (cases val) auto
  obtain h' w3 where "hash_set h var val w2 = (0, h', w3)" "plenty w3"
    using strkeys.set_plenty [OF assms(1,2) w2(2)] by blast
  with w1 w2 show ?thesis by (cases val) (simp_all add: config_set_variable_def)
qed

lemma config_set_plenty:
  assumes inv: "cfg_inv config" "cstring sec" "cstring var" and w: "plenty w"
  shows "\<exists>config' w'. config_set config (Some sec) var val w = (0, config', w') \<and> plenty w'"
proof -
  have c: "str_hash_inv config" using inv(1) by (simp add: cfg_inv_def)
  obtain p w1 where get: "hash_get config sec w = (p, w1)" by fastforce
  with strkeys.get_lookup [OF c inv(2), of w] have p: "p = hash_lookup config sec" by simp
  from get w have w1: "plenty w1" by (simp add: plenty_hash_get)
  show ?thesis
  proof (cases p)
    case (Some h)
    obtain q w2 where q: "hash_get h var w1 = (q, w2)" by fastforce
    with w1 have "plenty w2" by (simp add: plenty_hash_get)
    moreover have "str_hash_inv h" using inv(1) p Some by (simp add: cfg_inv_def)
    ultimately show ?thesis
      using config_set_variable_plenty [of h var w2 config sec val] inv(3) get Some q
      by (simp add: config_set_def)
  next
    case None
    obtain h :: section_hash and w2 where h: "hash_new (Some hash_func_string) (Some hash_compare_string) w1 = (Some h, w2)"
      "plenty w2" "str_hash_inv h"
      using hash_new_ok [OF w1] by blast
    obtain w3 where w3: "string_new (Some sec) w2 = (Some sec, w3)" "plenty w3"
      using string_new_ok [OF h(2)] by blast
    obtain c1 w4 where "hash_set config sec (Some h) w3 = (0, c1, w4)" "plenty w4"
      using strkeys.set_plenty [OF c inv(2) w3(2)] by blast
    with get None h w3 config_set_variable_plenty [of h var w4 c1 sec val] inv(3) show ?thesis
      by (simp add: config_set_def)
  qed
qed

section \<open>Reading back one line\<close>

definition printable :: "string \<Rightarrow> bool" where
  "printable s \<longleftrightarrow> (\<forall>c \<in> set s. load_isprint c)"

lemma load_variable_loop_text:
  "in_rest f = v @ CHR ''='' # rest \<Longrightarrow> printable v \<Longrightarrow> CHR ''='' \<notin> set v \<Longrightarrow> plenty w \<Longrightarrow> s \<noteq> [] \<Longrightarrow>
   \<exists>w'. load_variable_loop f (Some s) w = (Some (s @ v), f\<lparr>in_rest := rest\<rparr>, w') \<and> plenty w'"
proof (induction v arbitrary: f s w)
  case Nil
  then show ?case by (subst load_variable_loop.simps) simp
next
  case (Cons c v)
  obtain s' w1 where app: "string_append (Some s) (Some [c]) w = (0, s', w1)" "plenty w1"
    "str_of s' = s @ [c]" "s' \<noteq> None"
    using string_append_ok [OF Cons.prems(4), of "Some s" "[c]"] by auto
  then have "s' = Some (s @ [c])" by (cases s') auto
  with app Cons.IH [of "f\<lparr>in_rest := v @ CHR ''='' # rest\<rparr>" w1 "s @ [c]"] Cons.prems show ?case
    by (subst load_variable_loop.simps) (auto simp: printable_def)
qed

lemma load_variable_text:
  assumes "in_rest f = v @ CHR ''='' # rest" "printable v" "CHR ''='' \<notin> set v" "plenty w"
  shows "\<exists>w'. load_variable f c w = (Some (c # v), f\<lparr>in_rest := rest\<rparr>, w') \<and> plenty w'"
proof -
  obtain w1 where "string_new (Some [c]) w = (Some [c], w1)" "plenty w1"
    using string_new_ok [OF assms(4)] by blast
  with load_variable_loop_text [OF assms(1-3), of w1 "[c]"] show ?thesis
    by (simp add: load_variable_def)
qed

lemma load_value_text:
  "in_rest f = v @ NL # rest \<Longrightarrow> printable v \<Longrightarrow> plenty w \<Longrightarrow>
   \<exists>w'. load_value f str w = (Some (str_of str @ v), f\<lparr>in_rest := rest\<rparr>, w') \<and> plenty w'"
proof (induction v arbitrary: f str w)
  case Nil
  with string_new_ok [of w "[]"] show ?case
    by (subst load_value.simps) (auto simp: load_isprint_def split: option.split)
next
  case (Cons c v)
  obtain w1 where "w_alloc w = (True, w1)" "plenty w1" using w_alloc_plenty [OF Cons.prems(3)] by auto
  with Cons.IH [of "f\<lparr>in_rest := v @ NL # rest\<rparr>" w1 "Some (str_of str @ [c])"] Cons.prems show ?case
    by (subst load_value.simps) (simp add: printable_def)
qed

lemma load_section_text:
  "in_rest f = v @ CHR '']'' # rest \<Longrightarrow> printable v \<Longrightarrow> CHR '']'' \<notin> set v \<Longrightarrow> plenty w \<Longrightarrow>
   \<exists>w'. load_section f str w = (Some (str_of str @ v), f\<lparr>in_rest := rest\<rparr>, w') \<and> plenty w'"
proof (induction v arbitrary: f str w)
  case Nil
  with string_new_ok [of w "[]"] show ?case
    by (subst load_section.simps) (auto split: option.split)
next
  case (Cons c v)
  obtain w1 where "w_alloc w = (True, w1)" "plenty w1" using w_alloc_plenty [OF Cons.prems(4)] by auto
  with Cons.IH [of "f\<lparr>in_rest := v @ CHR '']'' # rest\<rparr>" w1 "Some (str_of str @ [c])"] Cons.prems show ?case
    by (subst load_section.simps) (auto simp: printable_def)
qed

section \<open>Reading back a saved file\<close>

text \<open>The names and values that a configuration file can represent.\<close>

definition savable_variable :: "string \<Rightarrow> bool" where
  "savable_variable v \<longleftrightarrow> v \<noteq> [] \<and> hd v \<noteq> CHR ''#'' \<and> hd v \<noteq> CHR ''['' \<and> printable v \<and> CHR ''='' \<notin> set v"

definition savable_section :: "string \<Rightarrow> bool" where
  "savable_section s \<longleftrightarrow> printable s \<and> CHR '']'' \<notin> set s"

definition savable :: "Config \<Rightarrow> bool" where
  "savable config \<longleftrightarrow> (\<forall>(s, h) \<in> set (pairs config). savable_section s
     \<and> (\<forall>(v, x) \<in> set (pairs h). savable_variable v \<and> printable x))"

lemma printable_cstring: "printable s \<Longrightarrow> cstring s"
  by (auto simp: printable_def cstring_def load_isprint_def)

definition line_text :: "string \<times> string \<Rightarrow> string" where
  "line_text p = fst p @ ''='' @ snd p @ [NL]"

definition lines_text :: "(string \<times> string) list \<Rightarrow> string" where
  "lines_text ps = concat (map line_text ps)"

definition section_text :: "string \<times> section_hash \<Rightarrow> string" where
  "section_text p = [NL, CHR ''[''] @ fst p @ [CHR '']'', NL] @ lines_text (pairs (snd p))"

definition sections_text :: "(string \<times> section_hash) list \<Rightarrow> string" where
  "sections_text ps = concat (map section_text ps)"

lemma load_loop_line:
  assumes "cfg_inv config" "cstring sec" "plenty w" "savable_variable v" "printable x"
    and "in_rest f = line_text (v, x) @ rest"
  shows "\<exists>config' w'. load_loop config sec f line w = load_loop config' sec (f\<lparr>in_rest := rest\<rparr>) (line + 1) w'
    \<and> plenty w' \<and> cfg_inv config' \<and> cfg_lookup config' = cfg_upd (cfg_lookup config) sec v (Some x)"
proof -
  obtain c v' where v: "v = c # v'" "c \<noteq> CHR ''#''" "c \<noteq> CHR ''[''" "load_isprint c" "printable v'"
    "CHR ''='' \<notin> set v'"
    using assms(4) by (cases v) (auto simp: savable_variable_def printable_def)
  then have rest: "in_rest f = c # v' @ CHR ''='' # (x @ NL # rest)"
    using assms(6) by (simp add: line_text_def)
  let ?f1 = "f\<lparr>in_rest := v' @ CHR ''='' # (x @ NL # rest)\<rparr>"
  obtain w1 where var: "load_variable ?f1 c w = (Some v, f\<lparr>in_rest := x @ NL # rest\<rparr>, w1)" "plenty w1"
    using load_variable_text [of ?f1 v' "x @ NL # rest" w c] v assms(3) by auto
  obtain w2 where val: "load_value (f\<lparr>in_rest := x @ NL # rest\<rparr>) None w1 = (Some x, f\<lparr>in_rest := rest\<rparr>, w2)"
    "plenty w2"
    using load_value_text [of "f\<lparr>in_rest := x @ NL # rest\<rparr>" x rest w1 None] var(2) assms(5) by auto
  have cv: "cstring v" using assms(4) by (simp add: printable_cstring savable_variable_def)
  obtain config' w3 where set: "config_set config (Some sec) v (Some x) w2 = (0, config', w3)" "plenty w3"
    using config_set_plenty [OF assms(1,2) cv val(2)] by blast
  with config_set_result [OF assms(1,2) cv set(1)] rest v var val show ?thesis
    by (subst load_loop.simps) auto
qed

lemma in_rest_twice: "f\<lparr>in_rest := a, in_rest := b\<rparr> = f\<lparr>in_rest := b\<rparr>"
  by simp

lemma load_loop_lines:
  "cfg_inv config \<Longrightarrow> cstring sec \<Longrightarrow> plenty w \<Longrightarrow>
   \<forall>(v, x) \<in> set ps. savable_variable v \<and> printable x \<Longrightarrow> in_rest f = lines_text ps @ rest \<Longrightarrow>
   \<exists>config' line' w'. load_loop config sec f line w = load_loop config' sec (f\<lparr>in_rest := rest\<rparr>) line' w'
    \<and> plenty w' \<and> cfg_inv config'
    \<and> cfg_lookup config' = (cfg_lookup config)(sec := cfg_lookup config sec ++ map_of (rev ps))"
proof (induction ps arbitrary: config f line w)
  case Nil
  then have "f\<lparr>in_rest := rest\<rparr> = f" by (simp add: lines_text_def)
  with Nil(1,3) show ?case by (intro exI [of _ config] exI [of _ line] exI [of _ w]) simp
next
  case (Cons p ps)
  obtain v x where p: "p = (v, x)" by fastforce
  then have "savable_variable v" "printable x" "in_rest f = line_text (v, x) @ (lines_text ps @ rest)"
    using Cons.prems by (auto simp: lines_text_def)
  from load_loop_line [OF Cons.prems(1-3) this] obtain config1 w1 where
    1: "load_loop config sec f line w =
        load_loop config1 sec (f\<lparr>in_rest := lines_text ps @ rest\<rparr>) (line + 1) w1"
      "plenty w1" "cfg_inv config1" "cfg_lookup config1 = cfg_upd (cfg_lookup config) sec v (Some x)"
    by blast
  have "\<forall>(v, x) \<in> set ps. savable_variable v \<and> printable x"
    "in_rest (f\<lparr>in_rest := lines_text ps @ rest\<rparr>) = lines_text ps @ rest" using Cons.prems(4) by simp_all
  from Cons.IH [OF 1(3) Cons.prems(2) 1(2) this, of "line + 1", unfolded in_rest_twice] obtain config' line' w' where 2:
    "load_loop config1 sec (f\<lparr>in_rest := lines_text ps @ rest\<rparr>) (line + 1) w1
      = load_loop config' sec (f\<lparr>in_rest := rest\<rparr>) line' w'" "plenty w'" "cfg_inv config'"
    "cfg_lookup config' = (cfg_lookup config1)(sec := cfg_lookup config1 sec ++ map_of (rev ps))"
    by blast
  have "cfg_lookup config' = (cfg_lookup config)(sec := cfg_lookup config sec ++ map_of (rev (p # ps)))"
    by (simp add: 2(4) 1(4) cfg_upd_def p map_of_append)
  with 1(1) 2(1-3) show ?case by metis
qed

lemma load_loop_sections:
  "cfg_inv config \<Longrightarrow> plenty w \<Longrightarrow>
   \<forall>(s, h) \<in> set ps. savable_section s \<and> (\<forall>(v, x) \<in> set (pairs h). savable_variable v \<and> printable x) \<Longrightarrow>
   distinct (map fst ps) \<Longrightarrow> cstring sec \<Longrightarrow> in_rest f = sections_text ps \<Longrightarrow> \<not> in_fails f \<Longrightarrow>
   \<exists>config' f' line' w'. load_loop config sec f line w = (config', f', line', w') \<and> feof f' \<and> cfg_inv config'
    \<and> cfg_lookup config' = (\<lambda>s. case map_of ps s of None \<Rightarrow> cfg_lookup config s
        | Some h \<Rightarrow> cfg_lookup config s ++ map_of (rev (pairs h)))"
proof (induction ps arbitrary: config sec f line w)
  case Nil
  then show ?case by (subst load_loop.simps) (simp add: sections_text_def feof_def)
next
  case (Cons p ps)
  obtain s h where p: "p = (s, h)" by fastforce
  let ?rest = "lines_text (pairs h) @ sections_text ps"
  have s: "savable_section s" "cstring s" using Cons.prems(3)
    by (auto simp: p savable_section_def printable_cstring)
  have rest: "in_rest f = NL # CHR ''['' # s @ CHR '']'' # NL # ?rest"
    using Cons.prems(6) by (simp add: p sections_text_def section_text_def)
  obtain w1 where sec: "load_section (f\<lparr>in_rest := s @ CHR '']'' # NL # ?rest\<rparr>) None w
      = (Some s, f\<lparr>in_rest := NL # ?rest\<rparr>, w1)" "plenty w1"
    using load_section_text [of "f\<lparr>in_rest := s @ CHR '']'' # NL # ?rest\<rparr>" s "NL # ?rest" w None] s Cons.prems(2)
    by (auto simp: savable_section_def)
  have "load_loop config sec f line w =
      load_loop config sec (f\<lparr>in_rest := CHR ''['' # s @ CHR '']'' # NL # ?rest\<rparr>) (line + 1) w"
    using rest by (subst load_loop.simps) (simp add: load_isprint_def)
  also have "\<dots> = load_loop config s (f\<lparr>in_rest := NL # ?rest\<rparr>) (line + 2) w1"
    using sec(1) by (subst load_loop.simps) simp
  also have "\<dots> = load_loop config s (f\<lparr>in_rest := ?rest\<rparr>) (line + 3) w1"
    by (subst load_loop.simps) (simp add: load_isprint_def numeral_3_eq_3)
  finally have head: "load_loop config sec f line w = load_loop config s (f\<lparr>in_rest := ?rest\<rparr>) (line + 3) w1" .
  have "\<forall>(v, x) \<in> set (pairs h). savable_variable v \<and> printable x" using Cons.prems(3) by (simp add: p)
  from load_loop_lines [OF Cons.prems(1) s(2) sec(2) this, of "f\<lparr>in_rest := ?rest\<rparr>" "sections_text ps" "line + 3"]
  obtain config1 line1 w2 where 1: "load_loop config sec f line w =
      load_loop config1 s (f\<lparr>in_rest := sections_text ps\<rparr>) line1 w2" "plenty w2" "cfg_inv config1"
    "cfg_lookup config1 = (cfg_lookup config)(s := cfg_lookup config s ++ map_of (rev (pairs h)))"
    using head by auto
  from Cons.IH [OF 1(3,2) _ _ s(2), of "f\<lparr>in_rest := sections_text ps\<rparr>" line1] Cons.prems(3,4,7)
  obtain config' f' line' w' where 2: "load_loop config1 s (f\<lparr>in_rest := sections_text ps\<rparr>) line1 w2
      = (config', f', line', w')" "feof f'" "cfg_inv config'"
    "cfg_lookup config' = (\<lambda>s. case map_of ps s of None \<Rightarrow> cfg_lookup config1 s
        | Some h \<Rightarrow> cfg_lookup config1 s ++ map_of (rev (pairs h)))"
    by auto
  have "map_of ps s = None" using Cons.prems(4) by (simp add: p map_of_eq_None_iff)
  then have "cfg_lookup config' = (\<lambda>t. case map_of (p # ps) t of None \<Rightarrow> cfg_lookup config t
      | Some h \<Rightarrow> cfg_lookup config t ++ map_of (rev (pairs h)))"
    by (intro ext [of "cfg_lookup config'"]) (simp add: p 1(4) 2(4) split: option.split)
  with 1(1) 2 show ?case by simp
qed

section \<open>The text of a saved configuration\<close>

definition defaults_text :: "(string \<times> section_hash) list \<Rightarrow> string" where
  "defaults_text ps = concat (map (\<lambda>(s, h). if s = [] then lines_text (pairs h) else []) ps)"

definition config_text :: "Config \<Rightarrow> string" where
  "config_text config = defaults_text (pairs config)
     @ sections_text (filter (\<lambda>p. fst p \<noteq> []) (pairs config))"

lemma hash_foreach_pairs: "hash_foreach h func d = fold (\<lambda>(k, v). func k v) (pairs h) d"
proof -
  have "fold (hash_foreach_entry func) es d = fold (\<lambda>(k, v). func k v) (map (\<lambda>e. (he_key e, he_value e)) es) d" for es
    by (induction es arbitrary: d) (simp_all add: hash_foreach_entry_def)
  then show ?thesis by (simp add: hash_foreach_def pairs_def)
qed

lemma fold_save_section:
  "out_outcomes fp = [] \<Longrightarrow> fold (\<lambda>(k, v). save_foreach_section k v) ps (Some fp, w)
     = (Some (fp\<lparr>out_text := out_text fp @ lines_text ps\<rparr>), w)"
  by (induction ps arbitrary: fp)
    (auto simp: save_foreach_section_def fprintf_text_def lines_text_def line_text_def)

lemma head_byte_NUL: "cstring s \<Longrightarrow> head_byte s = NUL \<longleftrightarrow> s = []"
  by (cases s) (auto simp: cstring_def)

lemma fold_save_default:
  "out_outcomes fp = [] \<Longrightarrow> \<forall>p \<in> set ps. cstring (fst p) \<Longrightarrow>
   fold (\<lambda>(k, v). save_foreach_default k v) ps (Some fp, w)
     = (Some (fp\<lparr>out_text := out_text fp @ defaults_text ps\<rparr>), w)"
  by (induction ps arbitrary: fp)
    (auto simp: save_foreach_default_def defaults_text_def hash_foreach_pairs fold_save_section head_byte_NUL)

lemma fold_save_foreach:
  "out_outcomes fp = [] \<Longrightarrow> \<forall>p \<in> set ps. cstring (fst p) \<Longrightarrow>
   fold (\<lambda>(k, v). save_foreach k v) ps (Some fp, w)
     = (Some (fp\<lparr>out_text := out_text fp @ sections_text (filter (\<lambda>p. fst p \<noteq> []) ps)\<rparr>), w)"
  by (induction ps arbitrary: fp)
    (auto simp: save_foreach_def sections_text_def section_text_def fprintf_text_def hash_foreach_pairs
      fold_save_section head_byte_NUL)

lemma pairs_keys: "str_hash_inv h \<Longrightarrow> distinct (map fst (pairs h)) \<and> (\<forall>p \<in> set (pairs h). cstring (fst p))"
  by (auto simp: hash_inv_def pairs_def comp_def)

lemma config_save_text:
  assumes "cfg_inv config" "fopen name = Inr []"
  shows "config_save fopen None config name w
    = (0, Some \<lparr>out_text = config_text config, out_outcomes = []\<rparr>, w)"
  using assms pairs_keys [of config]
  by (simp add: config_save_def hash_foreach_pairs fold_save_default fold_save_foreach cfg_inv_def
      config_text_def out_open_def fclose_result_def)

text \<open>The empty configuration \<open>config_new\<close> returns.\<close>

abbreviation config_empty :: Config where
  "config_empty \<equiv> \<lparr>h_func = Some hash_func_string, h_compare = hash_compare_string, h_entries = []\<rparr>"

lemma cfg_inv_empty [simp]: "cfg_inv config_empty"
  by (simp add: cfg_inv_def hash_lookup_def pairs_def)

lemma cfg_lookup_empty: "cfg_lookup config_empty = (\<lambda>s. Map.empty)"
  by (intro ext) (simp add: cfg_lookup_def hash_lookup_def pairs_def)

text \<open>The default section is a section without a header.\<close>

lemma defaults_split:
  "distinct (map fst ps) \<Longrightarrow> defaults_text ps = lines_text (case map_of ps [] of None \<Rightarrow> [] | Some h \<Rightarrow> pairs h)"
proof (induction ps)
  case (Cons p ps)
  have "defaults_text ps = []" if "[] \<notin> fst ` set ps"
    using that by (force simp: defaults_text_def)
  with Cons show ?case by (cases p) (auto simp: defaults_text_def)
qed (simp add: defaults_text_def lines_text_def)

lemma map_of_filter_key:
  "map_of (filter (\<lambda>p. fst p \<noteq> k) ps) = (map_of ps)(k := None)"
  by (induction ps) (auto simp: fun_eq_iff)

lemma load_loop_config_text:
  assumes inv: "cfg_inv config" and sav: "savable config" and w: "plenty w"
  shows "\<exists>config' f' line' w'. load_loop config_empty [] (in_open (config_text config)) 0 w
      = (config', f', line', w') \<and> feof f' \<and> cfg_lookup config' = cfg_lookup config"
proof -
  let ?ps = "pairs config" and ?f = "in_open (config_text config)"
  define ds where "ds = (case map_of ?ps [] of None \<Rightarrow> [] | Some h \<Rightarrow> pairs h)"
  let ?qs = "filter (\<lambda>p. fst p \<noteq> []) ?ps"
  have dist: "distinct (map fst ?ps)" using inv pairs_keys [of config] by (simp add: cfg_inv_def)
  have parts: "in_rest ?f = lines_text ds @ sections_text ?qs"
    using defaults_split [OF dist] by (simp add: in_open_def config_text_def ds_def)
  have "\<forall>(v, x) \<in> set ds. savable_variable v \<and> printable x"
    using sav by (cases "map_of ?ps []") (auto simp: ds_def savable_def dest!: map_of_SomeD)
  then have "\<exists>c1 l1 w1. load_loop config_empty [] ?f 0 w = load_loop c1 [] (?f\<lparr>in_rest := sections_text ?qs\<rparr>) l1 w1
      \<and> plenty w1 \<and> cfg_inv c1 \<and> cfg_lookup c1 = (\<lambda>s. Map.empty)([] := map_of (rev ds))"
    using load_loop_lines [OF cfg_inv_empty _ w _ parts, of "[]" 0]
    by (simp only: cfg_lookup_empty cstring_def map_add_empty list.set empty_iff) simp
  then obtain c1 l1 w1 where
    1: "load_loop config_empty [] ?f 0 w = load_loop c1 [] (?f\<lparr>in_rest := sections_text ?qs\<rparr>) l1 w1"
      "plenty w1" "cfg_inv c1" "cfg_lookup c1 = (\<lambda>s. Map.empty)([] := map_of (rev ds))"
    by blast
  have "\<forall>(s, h) \<in> set ?qs. savable_section s \<and> (\<forall>(v, x) \<in> set (pairs h). savable_variable v \<and> printable x)"
    using sav by (auto simp: savable_def)
  from load_loop_sections [OF 1(3,2) this, of "[]" "?f\<lparr>in_rest := sections_text ?qs\<rparr>" l1] dist
  obtain config' f' line' w' where 2: "load_loop c1 [] (?f\<lparr>in_rest := sections_text ?qs\<rparr>) l1 w1
      = (config', f', line', w')" "feof f'"
    "cfg_lookup config' = (\<lambda>s. case map_of ?qs s of None \<Rightarrow> cfg_lookup c1 s
      | Some h \<Rightarrow> cfg_lookup c1 s ++ map_of (rev (pairs h)))"
    by (auto simp: in_open_def cstring_def distinct_map_filter)
  have "cfg_lookup config' s = cfg_lookup config s" for s
  proof -
    have "map_of (rev (pairs h)) = hash_lookup h" if "hash_lookup config t = Some h" for h t
    proof -
      from that inv have "str_hash_inv h" by (auto simp: cfg_inv_def)
      with pairs_keys [of h] show ?thesis by (simp add: hash_lookup_def map_of_rev_distinct)
    qed
    then show ?thesis
      by (auto simp: 2(3) 1(4) map_of_filter_key cfg_lookup_def ds_def hash_lookup_def split: option.split)
  qed
  with 1(1) 2 show ?thesis by auto
qed

section \<open>Properties\<close>

text \<open>
  C9: \<open>config_set\<close> followed by \<open>config_get\<close>: a successful call changes the one variable of the one
  section (removing it for a \<open>NULL\<close> value) and nothing else, creating the section when needed;
  after a failed call every variable reads as before. The structure stays well formed.
\<close>

theorem config_set_get:
  assumes "cfg_inv config" "cstring sec" "cstring var" "cstring sec'" "cstring var'"
    and "config_set config (Some sec) var val w = (r, config', w')"
  shows "cfg_inv config' \<and> fst (config_get config' (Some sec') var' w1) =
    (if r = 0 \<and> sec' = sec \<and> var' = var then val else fst (config_get config (Some sec') var' w1))"
  using config_set_result [OF assms(1-3,6)] assms(1,4,5)
  by (simp add: config_get_lookup cfg_upd_def)

theorem config_set_get_witness:
  "let (r, config', w') = config_set config_empty (Some ''s'') ''v'' (Some ''x'') world0 in
     cfg_inv config' \<and> fst (config_get config' (Some ''s'') ''v'' world0) =
       (if r = 0 \<and> ''s'' = ''s'' \<and> ''v'' = ''v'' then Some ''x''
        else fst (config_get config_empty (Some ''s'') ''v'' world0))"
  using config_set_get [of config_empty "''s''" "''v''" "''s''" "''v''" "Some ''x''" world0]
  by (simp add: cstring_def split: prod.split)

text \<open>
  C2: a configuration that \<open>config_save\<close> writes is read back by \<open>config_load\<close> with every
  variable of every section as it was, provided no allocation or I/O fails and the names and values fit the file
  format, which has no escapes (\<open>savable\<close>): none contains a newline, the names of sections contain no \<open>]\<close>, and the
  names of variables are not empty, contain no \<open>=\<close> and do not begin with \<open>#\<close> or \<open>[\<close>. Every other byte is allowed.
\<close>

theorem config_save_load:
  assumes "cfg_inv config" "savable config" "plenty w" "fopen name = Inr []"
  shows "\<exists>text config' w'.
    config_save fopen None config name w = (0, Some \<lparr>out_text = text, out_outcomes = []\<rparr>, w)
    \<and> config_load (\<lambda>_. Inr (in_open text)) None config_empty name w = (0, config', w')
    \<and> cfg_lookup config' = cfg_lookup config"
proof -
  obtain w1 where w1: "string_new (Some []) w = (Some [], w1)" "plenty w1"
    using string_new_ok [OF assms(3)] by blast
  from load_loop_config_text [OF assms(1,2) w1(2)] w1(1) have
    "\<exists>config' w'. config_load (\<lambda>_. Inr (in_open (config_text config))) None config_empty name w = (0, config', w')
      \<and> cfg_lookup config' = cfg_lookup config"
    by (auto simp: config_load_def fclose_result_def)
  with config_save_text [of config fopen name w] assms show ?thesis by blast
qed

theorem config_save_load_witness:
  "let section = \<lparr>h_func = Some hash_func_string, h_compare = hash_compare_string,
        h_entries = [\<lparr>he_hash = hash_func_string ''v'', he_key = ''v'', he_value = ''x=y''\<rparr>]\<rparr>;
       config = \<lparr>h_func = Some hash_func_string, h_compare = hash_compare_string,
        h_entries = [\<lparr>he_hash = hash_func_string ''s'', he_key = ''s'', he_value = section\<rparr>]\<rparr>
   in \<exists>text config' w'.
    config_save (\<lambda>_. Inr []) None config ''f'' world0 = (0, Some \<lparr>out_text = text, out_outcomes = []\<rparr>, world0)
    \<and> config_load (\<lambda>_. Inr (in_open text)) None config_empty ''f'' world0 = (0, config', w')
    \<and> cfg_lookup config' = cfg_lookup config"
  unfolding Let_def
  by (rule config_save_load)
    (auto simp: cfg_inv_def hash_inv_def hash_lookup_def pairs_def hash_of_def savable_def cstring_def
      savable_section_def savable_variable_def printable_def load_isprint_def split: if_splits)

text \<open>
  A file whose last line is cut off is loaded without an error: a final assignment without a
  newline is dropped, and so is an unterminated section header; \<open>config_load\<close> returns 0 with the
  configuration unchanged.
\<close>

theorem config_load_truncated:
  assumes "plenty w" "savable_variable v" "printable x" "printable s" "CHR '']'' \<notin> set s"
  shows "\<exists>w1 w2. config_load (\<lambda>_. Inr (in_open (v @ CHR ''='' # x))) None config name w = (0, config, w1)
    \<and> config_load (\<lambda>_. Inr (in_open (CHR ''['' # s))) None config name w = (0, config, w2)"
proof -
  obtain w1 where w1: "string_new (Some []) w = (Some [], w1)" "plenty w1"
    using string_new_ok [OF assms(1)] by blast
  obtain c v' where v: "v = c # v'" "c \<noteq> CHR ''#''" "c \<noteq> CHR ''[''" "load_isprint c" "printable v'"
    "CHR ''='' \<notin> set v'"
    using assms(2) by (cases v) (auto simp: savable_variable_def printable_def)
  let ?f = "\<lparr>in_rest = v' @ CHR ''='' # x, in_fails = False, in_eof = False\<rparr>"
  obtain w2 where var: "load_variable ?f c w1 = (Some v, ?f\<lparr>in_rest := x\<rparr>, w2)" "plenty w2"
    using load_variable_text [of ?f v' x w1 c] v w1(2) by auto
  have eof: "\<exists>f' w'. load_value g str w = (None, f', w') \<and> feof f'"
    if "in_rest g = y" "printable y" "plenty w" "\<not> in_fails g" for g y str w
    using that
  proof (induction y arbitrary: g str w)
    case (Cons c y)
    obtain w' where "w_alloc w = (True, w')" "plenty w'" using w_alloc_plenty [OF Cons.prems(3)] by auto
    with Cons.IH [of "g\<lparr>in_rest := y\<rparr>" w' "Some (str_of str @ [c])"] Cons.prems show ?case
      by (subst load_value.simps) (simp add: printable_def)
  qed (subst load_value.simps, simp add: feof_def)
  have sec: "\<exists>f' w'. load_section g str w = (None, f', w') \<and> feof f'"
    if "in_rest g = y" "printable y" "CHR '']'' \<notin> set y" "plenty w" "\<not> in_fails g" for g y str w
    using that
  proof (induction y arbitrary: g str w)
    case (Cons c y)
    obtain w' where "w_alloc w = (True, w')" "plenty w'" using w_alloc_plenty [OF Cons.prems(4)] by auto
    with Cons.IH [of "g\<lparr>in_rest := y\<rparr>" w' "Some (str_of str @ [c])"] Cons.prems show ?case
      by (subst load_section.simps) (auto simp: printable_def)
  qed (subst load_section.simps, simp add: feof_def)
  have "\<exists>f' l w'. load_loop config [] (in_open (v @ CHR ''='' # x)) 0 w1 = (config, f', l, w') \<and> feof f'"
    using eof [of "?f\<lparr>in_rest := x\<rparr>" x w2 None] var v assms(3)
    by (subst load_loop.simps) (auto simp: in_open_def)
  moreover have "\<exists>f' l w'. load_loop config [] (in_open (CHR ''['' # s)) 0 w1 = (config, f', l, w') \<and> feof f'"
    using sec [of "in_open s" s w1 None] w1(2) assms(4,5)
    by (subst load_loop.simps) (auto simp: in_open_def)
  ultimately show ?thesis using w1(1) by (fastforce simp: config_load_def fclose_result_def)
qed

theorem config_load_truncated_witness:
  "\<exists>w1 w2. config_load (\<lambda>_. Inr (in_open (''a'' @ CHR ''='' # ''1''))) None config_empty ''f'' world0 = (0, config_empty, w1)
    \<and> config_load (\<lambda>_. Inr (in_open (CHR ''['' # ''s''))) None config_empty ''f'' world0 = (0, config_empty, w2)"
  by (rule config_load_truncated) (simp_all add: savable_variable_def printable_def load_isprint_def)

end
