(* ===== verification/Sys_Token.thy ===== *)
theory Sys_Token
  imports Sys_String
begin

text \<open>
  The tokens of \<open>libSystem/src/token.c\<close>: what a parser callback fills in. The \<open>data\<close> pointer is an
  address given by the user (0 is \<open>NULL\<close>); codes, lines and columns are \<open>unsigned int\<close>.
\<close>

record Token =
  t_code :: "32 word"
  t_string :: "string option"
  t_filename :: "string option"
  t_line :: "32 word"
  t_col :: "32 word"
  t_data :: nat

definition TC_NULL :: "32 word" where "TC_NULL = 0"

definition token_new :: "string option \<Rightarrow> 32 word \<Rightarrow> 32 word \<Rightarrow> world \<Rightarrow> Token option \<times> world" where
  "token_new filename line col w =
     (case object_new 40 w of
        (False, w1) \<Rightarrow> (None, w1)
      | (True, w1) \<Rightarrow>
          (case (if filename \<noteq> None then string_new filename w1 else (None, w1)) of
             (name, w2) \<Rightarrow>
               if filename \<noteq> None \<and> name = None then (None, fail_errno (errno w2) w2)
               else (Some \<lparr>t_code = 0, t_string = None, t_filename = name, t_line = line, t_col = col,
                           t_data = 0\<rparr>, w2)))"

definition token_get_code :: "Token \<Rightarrow> 32 word" where "token_get_code token = t_code token"
definition token_get_col :: "Token \<Rightarrow> 32 word" where "token_get_col token = t_col token"
definition token_get_data :: "Token \<Rightarrow> nat" where "token_get_data token = t_data token"
definition token_get_filename :: "Token \<Rightarrow> string option" where "token_get_filename token = t_filename token"
definition token_get_line :: "Token \<Rightarrow> 32 word" where "token_get_line token = t_line token"
definition token_get_string :: "Token \<Rightarrow> string option" where "token_get_string token = t_string token"

definition token_set_code :: "Token \<Rightarrow> int \<Rightarrow> Token" where
  "token_set_code token code = token\<lparr>t_code := word_of_int code\<rparr>"

definition token_set_col :: "Token \<Rightarrow> 32 word \<Rightarrow> Token" where
  "token_set_col token col = token\<lparr>t_col := col\<rparr>"

definition token_set_data :: "Token \<Rightarrow> nat \<Rightarrow> Token" where
  "token_set_data token data = token\<lparr>t_data := data\<rparr>"

text \<open>The old name or text is freed first, so a failure leaves \<open>NULL\<close>.\<close>

definition token_set_filename :: "Token \<Rightarrow> string option \<Rightarrow> world \<Rightarrow> int \<times> Token \<times> world" where
  "token_set_filename token filename w =
     (case string_new filename w of
        (s, w') \<Rightarrow> (if s = None then 1 else 0, token\<lparr>t_filename := s\<rparr>, w'))"

definition token_set_line :: "Token \<Rightarrow> 32 word \<Rightarrow> Token" where
  "token_set_line token line = token\<lparr>t_line := line\<rparr>"

definition token_set_string :: "Token \<Rightarrow> string option \<Rightarrow> world \<Rightarrow> int \<times> Token \<times> world" where
  "token_set_string token str w =
     (case string_new str w of
        (s, w') \<Rightarrow> (if s = None then 1 else 0, token\<lparr>t_string := s\<rparr>, w'))"

text \<open>A set is an array of codes ended by \<open>TC_NULL\<close>; \<open>None\<close> is a read past the end of the array.\<close>

fun token_in_set :: "Token \<Rightarrow> 32 word list \<Rightarrow> int option" where
  "token_in_set token [] = None"
| "token_in_set token (code # codes) =
     (if code = TC_NULL then Some 0
      else if t_code token = code then Some 1
      else token_in_set token codes)"

section \<open>Facts\<close>

lemma token_new_ok:
  assumes "plenty w"
  shows "\<exists>w'. token_new filename line col w = (Some \<lparr>t_code = 0, t_string = None, t_filename = filename,
     t_line = line, t_col = col, t_data = 0\<rparr>, w') \<and> plenty w'"
proof -
  obtain w1 where w1: "object_new 40 w = (True, w1)" "plenty w1"
    using object_new_ok [OF assms, of 40] by auto
  show ?thesis
  proof (cases filename)
    case None
    with w1 show ?thesis by (simp add: token_new_def)
  next
    case (Some s)
    with string_new_ok [OF w1(2), of s] w1 show ?thesis by (auto simp: token_new_def)
  qed
qed

lemma token_new_result:
  "token_new filename line col w = (Some t, w') \<Longrightarrow>
   t_line t = line \<and> t_col t = col \<and> t_filename t = filename \<and> t_string t = None \<and> t_code t = 0"
  by (auto simp: token_new_def dest: string_new_result split: prod.splits bool.splits if_splits)

section \<open>Properties\<close>

text \<open>
  \<open>token_in_set\<close> on an array of codes ended by \<open>TC_NULL\<close> returns 1 when the token's code is
  one of the codes before the end mark, 0 otherwise, and reads nothing behind the mark; a token
  without a code is in no set.
\<close>

theorem token_in_set_iff:
  assumes "TC_NULL \<notin> set codes"
  shows "token_in_set token (codes @ TC_NULL # junk) = Some (if token_get_code token \<in> set codes then 1 else 0)
    \<and> (token_get_code token = TC_NULL \<longrightarrow> token_in_set token (codes @ TC_NULL # junk) = Some 0)"
proof -
  have "token_in_set token (codes @ TC_NULL # junk) = Some (if t_code token \<in> set codes then 1 else 0)"
    using assms by (induction codes) auto
  with assms show ?thesis by (simp add: token_get_code_def)
qed

theorem token_in_set_iff_witness:
  "token_in_set (token_set_code \<lparr>t_code = 0, t_string = None, t_filename = None, t_line = 1, t_col = 1, t_data = 0\<rparr> 7)
     ([5, 7] @ TC_NULL # [9]) = Some 1"
  using token_in_set_iff [of "[5, 7]" "token_set_code \<lparr>t_code = 0, t_string = None, t_filename = None,
      t_line = 1, t_col = 1, t_data = 0\<rparr> 7" "[9]"]
  by (simp add: TC_NULL_def token_set_code_def token_get_code_def)

end
