(* ===== verification/Sys_Parser.thy ===== *)
theory Sys_Parser
  imports Sys_Token Sys_File
begin

text \<open>
  The parser of \<open>libSystem/src/parser.c\<close>: a source of characters (a file or a string), filters that
  transform each character, and callbacks that try to recognise a token.

  Filters and callbacks are function pointers; they are numbers here, with the functions behind
  them given by an environment. A filter gets the character and may change it, the parser (the
  filters in use call \<open>parser_scan\<close>) and the user's data; a callback in addition fills the token.
  The environment works on a state \<open>'u\<close> that holds everything the user's pointers lead to.
  \<open>None\<close> is a read outside an array, or a loop that does not end, here or in a function called.
\<close>

definition EOF :: int where "EOF = - 1"

datatype scanner = Scanner_file | Scanner_string

record Parser =
  p_filename :: "string option"
  p_fp :: "infile option"
  p_string :: string
  p_string_cnt :: nat
  p_string_pos :: nat
  p_line :: "32 word"
  p_col :: "32 word"
  p_last :: int
  p_lookahead :: "32 word"
  p_scanner :: scanner
  p_filters :: "(nat \<times> nat) list"
  p_filters_cnt :: nat
  p_callbacks :: "(nat \<times> nat) list"
  p_callbacks_cnt :: nat

type_synonym 'u filter_env =
  "nat \<Rightarrow> int \<Rightarrow> nat \<Rightarrow> Parser \<times> 'u \<Rightarrow> (int \<times> int \<times> Parser \<times> 'u) option"
type_synonym 'u callback_env =
  "nat \<Rightarrow> Token \<Rightarrow> int \<Rightarrow> nat \<Rightarrow> Parser \<times> 'u \<Rightarrow> (int \<times> Token \<times> Parser \<times> 'u) option"

section \<open>Scanning\<close>

text \<open>Both scanners first advance the position over the character scanned before.\<close>

definition advance :: "Parser \<Rightarrow> Parser" where
  "advance parser =
     (if p_last parser = uc NL then parser\<lparr>p_line := p_line parser + 1, p_col := 1\<rparr>
      else if p_last parser \<noteq> EOF then parser\<lparr>p_col := p_col parser + 1\<rparr>
      else parser)"

text \<open>The result is the return value and the character read.\<close>

definition parser_scanner_file :: "Parser \<Rightarrow> (int \<times> int \<times> Parser) option" where
  "parser_scanner_file parser0 =
     (let parser = advance parser0 in
      case p_fp parser of
        None \<Rightarrow> None
      | Some fp \<Rightarrow>
          (case fgetc fp of
             (oc, fp') \<Rightarrow>
               let c = (case oc of None \<Rightarrow> EOF | Some ch \<Rightarrow> uc ch);
                   parser' = parser\<lparr>p_fp := Some fp'\<rparr>
               in if oc = None \<and> \<not> feof fp' then Some (- 1, c, parser')
                  else Some (0, c, parser'\<lparr>p_last := c\<rparr>)))"

text \<open>\<open>parser->string[i]\<close> is a signed \<open>char\<close>.\<close>

definition parser_scanner_string :: "Parser \<Rightarrow> (int \<times> int \<times> Parser) option" where
  "parser_scanner_string parser0 =
     (let parser = advance parser0 in
      do { c \<leftarrow> (if p_string_pos parser = p_string_cnt parser then Some EOF
                else map_option sc (load (p_string parser) (p_string_pos parser)));
           Some (0, c, parser\<lparr>p_string_pos := p_string_pos parser + 1, p_last := c\<rparr>) })"

definition run_scanner :: "Parser \<Rightarrow> (int \<times> int \<times> Parser) option" where
  "run_scanner parser =
     (case p_scanner parser of
        Scanner_file \<Rightarrow> parser_scanner_file parser
      | Scanner_string \<Rightarrow> parser_scanner_string parser)"

definition parser_scan :: "Parser \<Rightarrow> (int \<times> Parser) option" where
  "parser_scan parser =
     do { (r, c, parser') \<leftarrow> run_scanner parser;
          Some (if r \<noteq> 0 then EOF else c, parser') }"

text \<open>
  The loop over the filters from position \<open>i\<close>; it ends with the character, or with \<open>None\<close> in the
  place of the character when a filter returns a negative value.
\<close>

partial_function (option) filters_loop ::
  "'u filter_env \<Rightarrow> nat \<Rightarrow> int \<Rightarrow> Parser \<Rightarrow> 'u \<Rightarrow> (int option \<times> Parser \<times> 'u) option" where
  "filters_loop env i c parser st =
     (if i < p_filters_cnt parser then
        if i < length (p_filters parser) then
          do { (l, c', parser', st') \<leftarrow>
                 env (fst (p_filters parser ! i)) c (snd (p_filters parser ! i)) (parser, st);
               if l < 0 then Some (None, parser', st')
               else filters_loop env (i + 1) c'
                 (parser'\<lparr>p_lookahead := p_lookahead parser' + word_of_int l\<rparr>) st' }
        else None
      else Some (Some c, parser, st))"

definition parser_scan_filter ::
  "'u filter_env \<Rightarrow> Parser \<Rightarrow> 'u \<Rightarrow> (int \<times> Parser \<times> 'u) option" where
  "parser_scan_filter env parser st =
     do { (r, c, parser1) \<leftarrow>
            (if p_lookahead parser \<noteq> 0
             then Some (0, p_last parser, parser\<lparr>p_lookahead := p_lookahead parser - 1\<rparr>)
             else run_scanner parser);
          if r \<noteq> 0 then Some (EOF, parser1, st)
          else do { (oc, parser2, st') \<leftarrow> filters_loop env 0 c parser1 st;
                    case oc of
                      None \<Rightarrow> Some (EOF, parser2, st')
                    | Some c' \<Rightarrow> Some (c', parser2\<lparr>p_last := c'\<rparr>, st') } }"

section \<open>Creation and deletion\<close>

definition new_do :: "scanner \<Rightarrow> world \<Rightarrow> Parser option \<times> world" where
  "new_do scanner w =
     (case object_new 96 w of
        (False, w') \<Rightarrow> (None, w')
      | (True, w') \<Rightarrow>
          (Some \<lparr>p_filename = None, p_fp = None, p_string = [], p_string_cnt = 0, p_string_pos = 0,
                p_line = 1, p_col = 1, p_last = EOF, p_lookahead = 0, p_scanner = scanner,
                p_filters = [], p_filters_cnt = 0, p_callbacks = [], p_callbacks_cnt = 0\<rparr>, w'))"

definition parser_delete :: "int option \<Rightarrow> Parser \<Rightarrow> world \<Rightarrow> int \<times> world" where
  "parser_delete closing parser w =
     (if p_fp parser \<noteq> None then
        (case fclose_result closing w of
           (r, w1) \<Rightarrow>
             if r \<noteq> 0 then
               (case strerror (errno w1) w1 of
                  (msg, w2) \<Rightarrow> error_set_code 1 (str_of (p_filename parser) @ '': '' @ msg) w2)
             else (0, w1))
      else (0, w))"

definition parser_new ::
  "(string \<Rightarrow> int + infile) \<Rightarrow> int option \<Rightarrow> string \<Rightarrow> world \<Rightarrow> Parser option \<times> world" where
  "parser_new fopen closing pathname w =
     (case new_do Scanner_file w of
        (None, w1) \<Rightarrow> (None, w1)
      | (Some parser, w1) \<Rightarrow>
          (case string_new (Some pathname) w1 of
             (name, w2) \<Rightarrow>
               let w3 = (if name = None then fail_errno (errno w2) w2 else w2);
                   (fp, w4) =
                     (case fopen pathname of
                        Inr f \<Rightarrow> (Some f, w3)
                      | Inl e \<Rightarrow>
                          (case strerror e (w3\<lparr>errno := e\<rparr>) of
                             (msg, w') \<Rightarrow> (None, snd (error_set_code 1 (pathname @ '': '' @ msg) w'))));
                   parser' = parser\<lparr>p_filename := name, p_fp := fp\<rparr>
               in if name = None \<or> fp = None then (None, snd (parser_delete closing parser' w4))
                  else (Some parser', w4)))"

text \<open>\<open>string\<close> is the memory from the pointer on; \<open>memcpy\<close> reads \<open>n\<close> bytes of it.\<close>

definition parser_new_string :: "string \<Rightarrow> nat \<Rightarrow> world \<Rightarrow> (Parser option \<times> world) option" where
  "parser_new_string str n w =
     (case new_do Scanner_string w of
        (None, w1) \<Rightarrow> Some (None, w1)
      | (Some parser, w1) \<Rightarrow>
          (case w_alloc w1 of
             (ok, w2) \<Rightarrow>
               if \<not> ok \<and> n \<noteq> 0 then
                 Some (None, snd (parser_delete None (parser\<lparr>p_string_cnt := n\<rparr>) (fail_errno (errno w2) w2)))
               else if n \<le> length str then
                 Some (Some (parser\<lparr>p_string := take n str, p_string_cnt := n\<rparr>), w2)
               else None))"

definition parser_get_filename :: "Parser \<Rightarrow> string option" where
  "parser_get_filename parser = p_filename parser"

section \<open>Tokens\<close>

text \<open>The result is the last return value and the index the loop stopped at.\<close>

partial_function (option) callbacks_loop ::
  "'u callback_env \<Rightarrow> nat \<Rightarrow> int \<Rightarrow> Token \<Rightarrow> Parser \<Rightarrow> 'u
     \<Rightarrow> (int \<times> nat \<times> Token \<times> Parser \<times> 'u) option" where
  "callbacks_loop env i ret token parser st =
     (if i < p_callbacks_cnt parser then
        if i < length (p_callbacks parser) then
          do { (ret', token', parser', st') \<leftarrow>
                 env (fst (p_callbacks parser ! i)) token (p_last parser) (snd (p_callbacks parser ! i))
                   (parser, st);
               if ret' \<le> 0 then Some (ret', i, token', parser', st')
               else callbacks_loop env (i + 1) ret' token' parser' st' }
        else None
      else Some (ret, i, token, parser, st))"

text \<open>The token and what the functions called allocate come from the same memory, so the world is part of their state.\<close>

definition parser_get_token ::
  "('u \<times> world) filter_env \<Rightarrow> ('u \<times> world) callback_env \<Rightarrow> Parser \<Rightarrow> 'u \<Rightarrow> world
     \<Rightarrow> (int \<times> Token option \<times> Parser \<times> 'u \<times> world) option" where
  "parser_get_token fenv cenv parser st w =
     (case token_new (p_filename parser) (p_line parser) (p_col parser) w of
        (None, w1) \<Rightarrow> Some (1, None, parser, st, w1)
      | (Some token, w1) \<Rightarrow>
          do { (_, parser1, stw1) \<leftarrow>
                 (if p_last parser = EOF then parser_scan_filter fenv parser (st, w1)
                  else Some (0, parser, st, w1));
               (ret, i, token', parser2, stw2) \<leftarrow> callbacks_loop cenv 0 0 token parser1 stw1;
               if ret = 0 \<and> i \<noteq> p_callbacks_cnt parser2 then Some (0, Some token', parser2, stw2)
               else Some (if ret \<ge> 0 \<and> p_last parser2 = EOF then 0 else 1, None, parser2, stw2) })"

section \<open>Registering filters and callbacks\<close>

definition parser_add_callback :: "Parser \<Rightarrow> nat \<Rightarrow> nat \<Rightarrow> world \<Rightarrow> int \<times> Parser \<times> world" where
  "parser_add_callback parser cb data w =
     (case w_alloc w of
        (False, w') \<Rightarrow> (1, parser, w')
      | (True, w') \<Rightarrow>
          (0, parser\<lparr>p_callbacks := take (p_callbacks_cnt parser) (p_callbacks parser) @ [(cb, data)],
                     p_callbacks_cnt := p_callbacks_cnt parser + 1\<rparr>, w'))"

definition parser_add_filter :: "Parser \<Rightarrow> nat \<Rightarrow> nat \<Rightarrow> world \<Rightarrow> int \<times> Parser \<times> world" where
  "parser_add_filter parser fl data w =
     (case w_alloc w of
        (False, w') \<Rightarrow> (1, parser, w')
      | (True, w') \<Rightarrow>
          (0, parser\<lparr>p_filters := take (p_filters_cnt parser) (p_filters parser) @ [(fl, data)],
                     p_filters_cnt := p_filters_cnt parser + 1\<rparr>, w'))"

text \<open>\<open>find_pair\<close> is the search loop: the index of the function or the count.\<close>

fun find_pair :: "(nat \<times> nat) list \<Rightarrow> nat \<Rightarrow> nat \<Rightarrow> nat" where
  "find_pair [] f i = i"
| "find_pair ((g, d) # ps) f i = (if g = f then i else find_pair ps f (i + 1))"

text \<open>
  The code goes on when the search ended at the count; it then moves no entry at all
  (\<open>cnt - i\<close> is 0) and decrements the count, a \<open>size_t\<close>.
\<close>

definition parser_remove_callback :: "Parser \<Rightarrow> nat \<Rightarrow> int \<times> Parser" where
  "parser_remove_callback parser cb =
     (let cnt = p_callbacks_cnt parser;
          i = find_pair (take cnt (p_callbacks parser)) cb 0
      in if i \<noteq> cnt then (1, parser)
         else (0, parser\<lparr>p_callbacks_cnt := (if cnt = 0 then 2 ^ 64 - 1 else cnt - 1)\<rparr>))"

definition parser_remove_filter :: "Parser \<Rightarrow> nat \<Rightarrow> int \<times> Parser" where
  "parser_remove_filter parser fl =
     (let cnt = p_filters_cnt parser;
          i = find_pair (take cnt (p_filters parser)) fl 0
      in if i \<noteq> cnt then (1, parser)
         else (0, parser\<lparr>p_filters_cnt := (if cnt = 0 then 2 ^ 64 - 1 else cnt - 1)\<rparr>))"

section \<open>Sources\<close>

text \<open>
  The contract of a source: it delivers its characters in order, then \<open>EOF\<close>, and the parser's
  position moves over the character delivered before. \<open>step\<close> is the effect of one character on a
  position, \<open>pending\<close> the position of the next character.
\<close>

definition step :: "int \<Rightarrow> 32 word \<times> 32 word \<Rightarrow> 32 word \<times> 32 word" where
  "step x lc = (if x = uc NL then (fst lc + 1, 1) else (fst lc, snd lc + 1))"

definition pending :: "Parser \<Rightarrow> 32 word \<times> 32 word" where
  "pending parser = (p_line (advance parser), p_col (advance parser))"

definition place :: "Parser \<Rightarrow> 32 word \<times> 32 word" where
  "place parser = (p_line parser, p_col parser)"

lemma pending_step:
  "pending parser = (if p_last parser = EOF then place parser else step (p_last parser) (place parser))"
  by (auto simp: pending_def advance_def place_def step_def EOF_def uc_def)

fun scan_n :: "(Parser \<Rightarrow> (int \<times> Parser) option) \<Rightarrow> nat \<Rightarrow> Parser \<Rightarrow> (int list \<times> Parser) option" where
  "scan_n scan 0 parser = Some ([], parser)"
| "scan_n scan (Suc n) parser =
     do { (c, parser1) \<leftarrow> scan parser;
          (cs, parser2) \<leftarrow> scan_n scan n parser1;
          Some (c # cs, parser2) }"

declare scan_n.simps(2) [simp del]

lemma scan_n_step:
  "scan p = Some (x, p1) \<Longrightarrow> scan_n scan n p1 = Some (xs, p2) \<Longrightarrow> scan_n scan (Suc n) p = Some (x # xs, p2)"
  by (simp add: scan_n.simps(2))

locale scan_source =
  fixes scan :: "Parser \<Rightarrow> (int \<times> Parser) option"
    and input :: "Parser \<Rightarrow> int list"
    and valid :: "Parser \<Rightarrow> bool"
  assumes scan_Cons: "valid p \<Longrightarrow> input p = x # xs \<Longrightarrow>
      \<exists>p'. scan p = Some (x, p') \<and> valid p' \<and> input p' = xs \<and> p_last p' = x \<and> place p' = pending p"
    and scan_Nil: "valid p \<Longrightarrow> input p = [] \<Longrightarrow>
      \<exists>p'. scan p = Some (EOF, p') \<and> p_last p' = EOF \<and> place p' = pending p"
    and no_EOF: "valid p \<Longrightarrow> EOF \<notin> set (input p)"
begin

lemma scan_n_Suc:
  "valid p \<Longrightarrow> n < length (input p) \<Longrightarrow>
   \<exists>p'. scan_n scan (Suc n) p = Some (take (Suc n) (input p), p') \<and> valid p'
     \<and> input p' = drop (Suc n) (input p) \<and> p_last p' = input p ! n
     \<and> place p' = fold step (take n (input p)) (pending p)"
proof (induction n arbitrary: p)
  case 0
  then obtain x xs where "input p = x # xs" by (cases "input p") auto
  with scan_Cons [OF 0(1) this] show ?case by (auto simp: scan_n.simps(2))
next
  case (Suc n)
  from Suc.prems(2) obtain x xs where x: "input p = x # xs" by (cases "input p") auto
  from scan_Cons [OF Suc.prems(1) this] obtain p1 where
    p1: "scan p = Some (x, p1)" "valid p1" "input p1 = xs" "p_last p1 = x" "place p1 = pending p"
    by blast
  have "x \<noteq> EOF" using no_EOF [OF Suc.prems(1)] x by auto
  with p1(4,5) have pend: "pending p1 = step x (pending p)" by (simp add: pending_step [of p1])
  have "n < length (input p1)" using Suc.prems(2) x p1(3) by simp
  from Suc.IH [OF p1(2) this] obtain p' where
    "scan_n scan (Suc n) p1 = Some (take (Suc n) xs, p')" "valid p'" "input p' = drop (Suc n) xs"
    "p_last p' = xs ! n" "place p' = fold step (take n xs) (step x (pending p))"
    using p1(3) pend by auto
  with scan_n_step [of scan, OF p1(1)] x show ?case by auto
qed

text \<open>After its whole input, a source delivers \<open>EOF\<close> once.\<close>

lemma scan_all_EOF:
  assumes "valid p"
  shows "\<exists>p'. scan_n scan (Suc (length (input p))) p = Some (input p @ [EOF], p') \<and> p_last p' = EOF"
  using assms
proof (induction "input p" arbitrary: p)
  case Nil
  from scan_Nil [OF Nil(2) Nil(1) [symmetric]] Nil(1) show ?case
    by (auto simp: Nil(1) [symmetric] scan_n.simps(2))
next
  case (Cons x xs)
  from scan_Cons [OF Cons(3) Cons(2) [symmetric]] obtain p1 where
    p1: "scan p = Some (x, p1)" "valid p1" "input p1 = xs" by blast
  from Cons(1) [OF p1(3) [symmetric] p1(2)] p1(3) obtain p2 where
    p2: "scan_n scan (Suc (length xs)) p1 = Some (xs @ [EOF], p2)" "p_last p2 = EOF" by auto
  from scan_n_step [of scan, OF p1(1) p2(1)] p2(2) show ?case by (auto simp: Cons(2) [symmetric])
qed

end

definition file_input :: "Parser \<Rightarrow> int list" where
  "file_input parser = (case p_fp parser of None \<Rightarrow> [] | Some fp \<Rightarrow> map uc (in_rest fp))"

definition file_valid :: "Parser \<Rightarrow> bool" where
  "file_valid parser \<longleftrightarrow> p_scanner parser = Scanner_file \<and> (\<exists>fp. p_fp parser = Some fp \<and> \<not> in_fails fp)"

definition string_input :: "Parser \<Rightarrow> int list" where
  "string_input parser = map sc (drop (p_string_pos parser) (p_string parser))"

text \<open>The byte 255 would read as \<open>EOF\<close>.\<close>

definition string_valid :: "Parser \<Rightarrow> bool" where
  "string_valid parser \<longleftrightarrow> p_scanner parser = Scanner_string \<and> p_string_cnt parser = length (p_string parser)
     \<and> p_string_pos parser \<le> p_string_cnt parser \<and> CHR 0xFF \<notin> set (p_string parser)"

lemma advance_fields [simp]:
  "p_fp (advance p) = p_fp p" "p_scanner (advance p) = p_scanner p" "p_string (advance p) = p_string p"
  "p_string_pos (advance p) = p_string_pos p" "p_string_cnt (advance p) = p_string_cnt p"
  "p_filters (advance p) = p_filters p" "p_filters_cnt (advance p) = p_filters_cnt p"
  by (simp_all add: advance_def)

lemma sc_EOF: "sc c = EOF \<longleftrightarrow> c = CHR 0xFF"
proof -
  have "sc c = EOF \<longleftrightarrow> uc c = uc (CHR 0xFF)"
    using uc_bounds [of c] by (auto simp: EOF_def sc_def uc_def)
  then show ?thesis by simp
qed

interpretation file_source: scan_source parser_scan file_input file_valid
proof (unfold_locales, goal_cases more none eof)
  case (more p x xs)
  then obtain fp c cs where "p_fp p = Some fp" "p_scanner p = Scanner_file" "\<not> in_fails fp"
    "in_rest fp = c # cs" "x = uc c" "xs = map uc cs"
    by (auto simp: file_valid_def file_input_def)
  then show ?case
    by (simp add: parser_scan_def run_scanner_def parser_scanner_file_def Let_def file_valid_def
        file_input_def place_def pending_def)
next
  case (none p)
  then show ?case
    by (auto simp: parser_scan_def run_scanner_def parser_scanner_file_def Let_def file_valid_def
        file_input_def place_def pending_def feof_def)
next
  case (eof p)
  have "EOF \<noteq> uc c" for c using uc_bounds(1) [of c] by (simp add: EOF_def)
  then show ?case by (auto simp: file_input_def split: option.splits)
qed

interpretation string_source: scan_source parser_scan string_input string_valid
proof (unfold_locales, goal_cases more none eof)
  case (more p x xs)
  then have pos: "p_string_pos p < length (p_string p)"
    by (cases "p_string_pos p < length (p_string p)") (auto simp: string_input_def)
  with more have "x = sc (p_string p ! p_string_pos p)" "xs = map sc (drop (Suc (p_string_pos p)) (p_string p))"
    by (auto simp: string_input_def Cons_nth_drop_Suc [symmetric])
  with pos more(1) show ?case
    by (simp add: parser_scan_def run_scanner_def parser_scanner_string_def Let_def string_valid_def
        string_input_def place_def pending_def)
next
  case (none p)
  then show ?case
    by (simp add: parser_scan_def run_scanner_def parser_scanner_string_def Let_def string_valid_def
        string_input_def place_def pending_def)
next
  case (eof p)
  then have "CHR 0xFF \<notin> set (drop (p_string_pos p) (p_string p))"
    using in_set_dropD unfolding string_valid_def by fast
  then have ff: "c \<noteq> CHR 0xFF" if "c \<in> set (drop (p_string_pos p) (p_string p))" for c
    using that by metis
  show ?case
  proof
    assume "EOF \<in> set (string_input p)"
    then obtain c where c: "c \<in> set (drop (p_string_pos p) (p_string p))" "EOF = sc c"
      unfolding string_input_def set_map by (rule imageE)
    from c(2) [symmetric] have "c = CHR 0xFF" by (rule sc_EOF [THEN iffD1])
    with ff [OF c(1)] show False by (rule notE)
  qed
qed

section \<open>The loops over filters and callbacks\<close>

text \<open>
  What the loops compute when the functions called leave the registrations alone:
  one pass over the list, stopped by a return value.
\<close>

definition keeps_filters :: "'u filter_env \<Rightarrow> bool" where
  "keeps_filters env \<longleftrightarrow> (\<forall>f c d p st l c' p' st'. env f c d (p, st) = Some (l, c', p', st') \<longrightarrow>
     p_filters p' = p_filters p \<and> p_filters_cnt p' = p_filters_cnt p)"

definition keeps_callbacks :: "'u callback_env \<Rightarrow> bool" where
  "keeps_callbacks env \<longleftrightarrow> (\<forall>f t c d p st r t' p' st'. env f t c d (p, st) = Some (r, t', p', st') \<longrightarrow>
     p_callbacks p' = p_callbacks p \<and> p_callbacks_cnt p' = p_callbacks_cnt p)"

fun run_filters :: "'u filter_env \<Rightarrow> (nat \<times> nat) list \<Rightarrow> int \<Rightarrow> Parser \<Rightarrow> 'u
    \<Rightarrow> (int option \<times> Parser \<times> 'u) option" where
  "run_filters env [] c p st = Some (Some c, p, st)"
| "run_filters env ((f, d) # fs) c p st =
     do { (l, c', p', st') \<leftarrow> env f c d (p, st);
          if l < 0 then Some (None, p', st')
          else run_filters env fs c' (p'\<lparr>p_lookahead := p_lookahead p' + word_of_int l\<rparr>) st' }"

fun run_callbacks :: "'u callback_env \<Rightarrow> (nat \<times> nat) list \<Rightarrow> Token \<Rightarrow> Parser \<Rightarrow> 'u
    \<Rightarrow> (int option \<times> Token \<times> Parser \<times> 'u) option" where
  "run_callbacks env [] t p st = Some (None, t, p, st)"
| "run_callbacks env ((f, d) # fs) t p st =
     do { (r, t', p', st') \<leftarrow> env f t (p_last p) d (p, st);
          if r \<le> 0 then Some (Some r, t', p', st') else run_callbacks env fs t' p' st' }"

lemma filters_loop_run:
  assumes "keeps_filters env"
  shows "p_filters p = us @ fs \<Longrightarrow> p_filters_cnt p = length (us @ fs) \<Longrightarrow>
    filters_loop env (length us) c p st = run_filters env fs c p st"
proof (induction fs arbitrary: us c p st)
  case Nil
  then show ?case by (subst filters_loop.simps) simp
next
  case (Cons fd fs)
  obtain f d where fd: "fd = (f, d)" by fastforce
  show ?case
  proof (cases "env f c d (p, st)")
    case None
    with Cons.prems fd show ?thesis by (subst filters_loop.simps) simp
  next
    case (Some r)
    then obtain l c' p' st' where call: "env f c d (p, st) = Some (l, c', p', st')" by (cases r) auto
    with assms have "p_filters p' = p_filters p" "p_filters_cnt p' = p_filters_cnt p"
      unfolding keeps_filters_def by blast+
    with Cons.IH [of "p'\<lparr>p_lookahead := p_lookahead p' + word_of_int l\<rparr>" "us @ [fd]"] Cons.prems call fd
    show ?thesis by (subst filters_loop.simps) simp
  qed
qed

lemma callbacks_loop_run:
  assumes "keeps_callbacks env"
  shows "p_callbacks p = us @ fs \<Longrightarrow> p_callbacks_cnt p = length (us @ fs) \<Longrightarrow> 0 \<le> ret \<Longrightarrow>
    (case run_callbacks env fs t p st of
       None \<Rightarrow> callbacks_loop env (length us) ret t p st = None
     | Some (r, t', p', st') \<Rightarrow>
         \<exists>ret' i. callbacks_loop env (length us) ret t p st = Some (ret', i, t', p', st')
           \<and> p_callbacks_cnt p' = length (us @ fs)
           \<and> (case r of Some r' \<Rightarrow> ret' = r' \<and> r' \<le> 0 \<and> i < length (us @ fs)
               | None \<Rightarrow> 0 \<le> ret' \<and> i = length (us @ fs)))"
proof (induction fs arbitrary: us ret t p st)
  case Nil
  then show ?case by (subst callbacks_loop.simps) simp
next
  case (Cons fd fs)
  obtain f d where fd: "fd = (f, d)" by fastforce
  show ?case
  proof (cases "env f t (p_last p) d (p, st)")
    case None
    with Cons.prems fd show ?thesis by (subst callbacks_loop.simps) simp
  next
    case (Some x)
    then obtain r1 t1 p1 st1 where call: "env f t (p_last p) d (p, st) = Some (r1, t1, p1, st1)"
      by (cases x) auto
    with assms have keep: "p_callbacks p1 = p_callbacks p" "p_callbacks_cnt p1 = p_callbacks_cnt p"
      unfolding keeps_callbacks_def by blast+
    show ?thesis
    proof (cases "r1 \<le> 0")
      case True
      with keep Cons.prems call fd show ?thesis by (subst callbacks_loop.simps) simp
    next
      case False
      with Cons.prems call fd
      have "callbacks_loop env (length us) ret t p st = callbacks_loop env (Suc (length us)) r1 t1 p1 st1"
        by (subst callbacks_loop.simps) simp
      with Cons.IH [of p1 "us @ [fd]" r1 t1 st1, unfolded append_assoc append_Cons append_Nil] keep Cons.prems
        call fd False show ?thesis by (cases "run_callbacks env fs t1 p1 st1") auto
    qed
  qed
qed

text \<open>One call of \<open>parser_get_token\<close>, with \<open>p1\<close> the parser after the first character is scanned if need be.\<close>

lemma parser_get_token_run:
  assumes "keeps_callbacks cenv" "p_callbacks_cnt p1 = length (p_callbacks p1)"
    and "token_new (p_filename p) (p_line p) (p_col p) w = (Some token, w1)"
    and "(if p_last p = EOF then parser_scan_filter fenv p (st, w1) else Some (c0, p, st, w1)) = Some (c, p1, stw1)"
  shows "parser_get_token fenv cenv p st w =
      (case run_callbacks cenv (p_callbacks p1) token p1 stw1 of
         None \<Rightarrow> None
       | Some (Some r, t, p', stw) \<Rightarrow> Some (if r = 0 then (0, Some t, p', stw) else (1, None, p', stw))
       | Some (None, t, p', stw) \<Rightarrow> Some (if p_last p' = EOF then 0 else 1, None, p', stw))"
proof -
  have loop: "case run_callbacks cenv (p_callbacks p1) token p1 stw1 of
       None \<Rightarrow> callbacks_loop cenv 0 0 token p1 stw1 = None
     | Some (r, t', p', st') \<Rightarrow>
         \<exists>ret' i. callbacks_loop cenv 0 0 token p1 stw1 = Some (ret', i, t', p', st')
           \<and> p_callbacks_cnt p' = length (p_callbacks p1)
           \<and> (case r of Some r' \<Rightarrow> ret' = r' \<and> r' \<le> 0 \<and> i < length (p_callbacks p1)
               | None \<Rightarrow> 0 \<le> ret' \<and> i = length (p_callbacks p1))"
    using callbacks_loop_run [OF assms(1), of p1 "[]" "p_callbacks p1" 0 token stw1,
        unfolded append_Nil list.size(3)] assms(2) by simp
  obtain c' where c': "(if p_last p = EOF then parser_scan_filter fenv p (st, w1) else Some (0, p, st, w1)) = Some (c', p1, stw1)"
    using assms(4) by (auto split: if_splits)
  show ?thesis
  proof (cases "run_callbacks cenv (p_callbacks p1) token p1 stw1")
    case None
    with loop assms(3) c' show ?thesis by (simp add: parser_get_token_def)
  next
    case (Some x)
    obtain r t p' stw where x: "x = (r, t, p', stw)" by (metis prod_cases4)
    with loop Some obtain ret i where "callbacks_loop cenv 0 0 token p1 stw1 = Some (ret, i, t, p', stw)"
      "p_callbacks_cnt p' = length (p_callbacks p1)"
      "case r of Some r' \<Rightarrow> ret = r' \<and> r' \<le> 0 \<and> i < length (p_callbacks p1)
         | None \<Rightarrow> 0 \<le> ret \<and> i = length (p_callbacks p1)" by auto
    with Some x assms(3) c' show ?thesis by (cases r) (auto simp: parser_get_token_def)
  qed
qed

lemma parser_scan_filter_run:
  assumes "keeps_filters env" "p_filters_cnt p = length (p_filters p)"
  shows "parser_scan_filter env p st =
    do { (r, c, p1) \<leftarrow> (if p_lookahead p \<noteq> 0 then Some (0, p_last p, p\<lparr>p_lookahead := p_lookahead p - 1\<rparr>)
                         else run_scanner p);
         if r \<noteq> 0 then Some (EOF, p1, st)
         else do { (oc, p2, st') \<leftarrow> run_filters env (p_filters p) c p1 st;
                   Some (case oc of None \<Rightarrow> (EOF, p2, st') | Some c' \<Rightarrow> (c', p2\<lparr>p_last := c'\<rparr>, st')) } }"
proof -
  have keep: "p_filters p1 = p_filters p \<and> p_filters_cnt p1 = p_filters_cnt p"
    if "run_scanner p = Some (r, c, p1)" for r c p1
    using that by (auto simp: run_scanner_def parser_scanner_file_def parser_scanner_string_def Let_def
        split: scanner.splits option.splits prod.splits bind_splits if_splits)
  have loop: "filters_loop env 0 c p1 st = run_filters env (p_filters p) c p1 st"
    if "p_filters p1 = p_filters p" "p_filters_cnt p1 = p_filters_cnt p" for c p1
    using filters_loop_run [OF assms(1), of p1 "[]" "p_filters p" c st] that assms(2) by simp
  have tail: "(case oc of None \<Rightarrow> Some (EOF, p2, st') | Some c' \<Rightarrow> Some (c', p2\<lparr>p_last := c'\<rparr>, st')) =
      Some (case oc of None \<Rightarrow> (EOF, p2, st') | Some c' \<Rightarrow> (c', p2\<lparr>p_last := c'\<rparr>, st'))"
    for oc p2 and st' :: 'a
    by (cases oc) simp_all
  show ?thesis
  proof (cases "p_lookahead p \<noteq> 0")
    case True
    then show ?thesis by (simp add: parser_scan_filter_def loop tail)
  next
    case False
    then show ?thesis
      by (cases "run_scanner p") (auto simp: parser_scan_filter_def keep loop tail)
  qed
qed

section \<open>Properties\<close>

text \<open>
  C23: a parser on a string of \<open>n\<close> bytes (none of them 255) and a parser on a file both deliver the
  characters in order, and after the character number \<open>k\<close> the parser's line and column are those of
  that character: \<open>step\<close> applied over the characters before it, from line 1, column 1.
\<close>

theorem parser_scan_position:
  assumes "parser_new_string str n w = Some (Some p, w1)" "CHR 0xFF \<notin> set (take n str)" "k < n" "n \<le> length str"
    and "parser_new fopen closing name w2 = (Some q, w3)" "fopen name = Inr (in_open str)"
  shows "(\<exists>p'. scan_n parser_scan (Suc k) p = Some (map sc (take (Suc k) str), p')
      \<and> place p' = fold step (map sc (take k str)) (1, 1))
    \<and> (\<exists>q'. scan_n parser_scan (Suc k) q = Some (map uc (take (Suc k) str), q')
      \<and> place q' = fold step (map uc (take k str)) (1, 1))"
proof -
  from assms(1) have p: "string_valid p" "string_input p = map sc (take n str)" "pending p = (1, 1)"
    using assms(2,4) by (auto simp: parser_new_string_def new_do_def string_valid_def string_input_def
        pending_def advance_def EOF_def uc_def split: prod.splits bool.splits if_splits)
  from assms(5,6) have q: "file_valid q" "file_input q = map uc str" "pending q = (1, 1)"
    by (auto simp: parser_new_def new_do_def Let_def file_valid_def file_input_def in_open_def
        pending_def advance_def EOF_def uc_def split: prod.splits bool.splits if_splits)
  from string_source.scan_n_Suc [OF p(1), of k] file_source.scan_n_Suc [OF q(1), of k] p(2,3) q(2,3) assms(3,4)
  show ?thesis by (auto simp: take_map min_absorb1 min_absorb2)
qed

theorem parser_scan_position_witness:
  "\<exists>p q. (\<exists>p'. scan_n parser_scan (Suc 2) p = Some (map sc (take (Suc 2) (''a'' @ NL # ''b'')), p')
      \<and> place p' = fold step (map sc (take 2 (''a'' @ NL # ''b''))) (1, 1))
    \<and> (\<exists>q'. scan_n parser_scan (Suc 2) q = Some (map uc (take (Suc 2) (''a'' @ NL # ''b'')), q')
      \<and> place q' = fold step (map uc (take 2 (''a'' @ NL # ''b''))) (1, 1))"
proof -
  let ?s = "''a'' @ NL # ''b''"
  have "\<exists>p w. parser_new_string ?s 3 world0 = Some (Some p, w)"
    by (simp add: parser_new_string_def new_do_def object_new_def w_alloc_def)
  moreover have "\<exists>q w. parser_new (\<lambda>_. Inr (in_open ?s)) None ''f'' world0 = (Some q, w)"
    by (simp add: parser_new_def new_do_def object_new_def w_alloc_def Let_def string_new_def string_set_def
        object_resize_def)
  ultimately obtain p w q v where "parser_new_string ?s 3 world0 = Some (Some p, w)"
    "parser_new (\<lambda>_. Inr (in_open ?s)) None ''f'' world0 = (Some q, v)" by blast
  from parser_scan_position [OF this(1) _ _ _ this(2), of 2] show ?thesis by auto
qed

text \<open>
  \<open>parser_scan_filter\<close> takes the next character of the source, or the last one again while
  lookahead is pending, and passes it through all the filters in order; what they return is the
  new last character.
\<close>

theorem parser_scan_filter_chain:
  assumes "keeps_filters env" "p_filters_cnt p = length (p_filters p)"
  shows "parser_scan_filter env p st =
    do { (r, c, p1) \<leftarrow> (if p_lookahead p \<noteq> 0 then Some (0, p_last p, p\<lparr>p_lookahead := p_lookahead p - 1\<rparr>)
                         else run_scanner p);
         if r \<noteq> 0 then Some (EOF, p1, st)
         else do { (oc, p2, st') \<leftarrow> run_filters env (p_filters p) c p1 st;
                   Some (case oc of None \<Rightarrow> (EOF, p2, st') | Some c' \<Rightarrow> (c', p2\<lparr>p_last := c'\<rparr>, st')) } }"
  by (rule parser_scan_filter_run [OF assms])

theorem parser_scan_filter_chain_witness:
  "let env = (\<lambda>f c d (p, st). Some (0, c + 1, p, st :: nat));
       p = \<lparr>p_filename = None, p_fp = None, p_string = ''ab'', p_string_cnt = 2, p_string_pos = 0,
            p_line = 1, p_col = 1, p_last = EOF, p_lookahead = 0, p_scanner = Scanner_string,
            p_filters = [(1, 0)], p_filters_cnt = 1, p_callbacks = [], p_callbacks_cnt = 0\<rparr>
   in parser_scan_filter env p 0 =
    do { (r, c, p1) \<leftarrow> (if p_lookahead p \<noteq> 0 then Some (0, p_last p, p\<lparr>p_lookahead := p_lookahead p - 1\<rparr>)
                         else run_scanner p);
         if r \<noteq> 0 then Some (EOF, p1, 0)
         else do { (oc, p2, st') \<leftarrow> run_filters env (p_filters p) c p1 0;
                   Some (case oc of None \<Rightarrow> (EOF, p2, st') | Some c' \<Rightarrow> (c', p2\<lparr>p_last := c'\<rparr>, st')) } }"
  unfolding Let_def by (rule parser_scan_filter_chain) (auto simp: keeps_filters_def)

text \<open>
  \<open>parser_remove_callback\<close> and \<open>parser_remove_filter\<close> have their test the wrong way round: a
  registered function is never removed (the call fails with 1 and changes nothing), and a call
  for a function that is not registered succeeds and drops the one registered last.
\<close>

theorem parser_remove_inverted:
  "(p_callbacks_cnt p = length (p_callbacks p) \<longrightarrow>
      parser_remove_callback p f =
        (if f \<in> fst ` set (p_callbacks p) then (1, p)
         else (0, p\<lparr>p_callbacks_cnt := (if p_callbacks p = [] then 2 ^ 64 - 1 else length (p_callbacks p) - 1)\<rparr>)))
    \<and> (p_filters_cnt p = length (p_filters p) \<longrightarrow>
      parser_remove_filter p f =
        (if f \<in> fst ` set (p_filters p) then (1, p)
         else (0, p\<lparr>p_filters_cnt := (if p_filters p = [] then 2 ^ 64 - 1 else length (p_filters p) - 1)\<rparr>)))"
proof -
  have ge: "i \<le> find_pair ps f i" for ps i
    by (induction ps f i rule: find_pair.induct) auto
  have "find_pair ps f i \<noteq> i + length ps \<longleftrightarrow> f \<in> fst ` set ps" for ps i
    by (induction ps f i rule: find_pair.induct) auto
  from this [of _ 0] show ?thesis
    by (auto simp: parser_remove_callback_def parser_remove_filter_def Let_def)
qed

theorem parser_remove_inverted_witness:
  "let p = \<lparr>p_filename = None, p_fp = None, p_string = [], p_string_cnt = 0, p_string_pos = 0,
            p_line = 1, p_col = 1, p_last = EOF, p_lookahead = 0, p_scanner = Scanner_string,
            p_filters = [(7, 0)], p_filters_cnt = 1, p_callbacks = [(3, 0), (4, 0)], p_callbacks_cnt = 2\<rparr>
   in parser_remove_callback p 3 = (1, p)
    \<and> parser_remove_callback p 5 = (0, p\<lparr>p_callbacks_cnt := 1\<rparr>)
    \<and> parser_remove_filter p 7 = (1, p)"
  using parser_remove_inverted [of "\<lparr>p_filename = None, p_fp = None, p_string = [], p_string_cnt = 0,
            p_string_pos = 0, p_line = 1, p_col = 1, p_last = EOF, p_lookahead = 0, p_scanner = Scanner_string,
            p_filters = [(7, 0)], p_filters_cnt = 1, p_callbacks = [(3, 0), (4, 0)], p_callbacks_cnt = 2\<rparr>" 3]
    parser_remove_inverted [of "\<lparr>p_filename = None, p_fp = None, p_string = [], p_string_cnt = 0,
            p_string_pos = 0, p_line = 1, p_col = 1, p_last = EOF, p_lookahead = 0, p_scanner = Scanner_string,
            p_filters = [(7, 0)], p_filters_cnt = 1, p_callbacks = [(3, 0), (4, 0)], p_callbacks_cnt = 2\<rparr>" 5]
    parser_remove_inverted [of "\<lparr>p_filename = None, p_fp = None, p_string = [], p_string_cnt = 0,
            p_string_pos = 0, p_line = 1, p_col = 1, p_last = EOF, p_lookahead = 0, p_scanner = Scanner_string,
            p_filters = [(7, 0)], p_filters_cnt = 1, p_callbacks = [(3, 0), (4, 0)], p_callbacks_cnt = 2\<rparr>" 7]
  by simp

text \<open>
  a string source delivers the end of the input only once: after \<open>parser_scan\<close> returned
  \<open>EOF\<close>, \<open>string_pos\<close> is behind \<open>string_cnt\<close> and the next call reads outside the string.
\<close>

theorem parser_scan_past_end:
  assumes "string_valid p" "p_string_pos p = p_string_cnt p"
  shows "\<exists>p'. parser_scan p = Some (EOF, p') \<and> parser_scan p' = None"
  using assms
  by (simp add: parser_scan_def run_scanner_def parser_scanner_string_def Let_def string_valid_def load_def)

theorem parser_scan_past_end_witness:
  "\<exists>p'. parser_scan \<lparr>p_filename = None, p_fp = None, p_string = ''a'', p_string_cnt = 1, p_string_pos = 1,
      p_line = 1, p_col = 1, p_last = 97, p_lookahead = 0, p_scanner = Scanner_string,
      p_filters = [], p_filters_cnt = 0, p_callbacks = [], p_callbacks_cnt = 0\<rparr> = Some (EOF, p')
    \<and> parser_scan p' = None"
  by (rule parser_scan_past_end) (simp_all add: string_valid_def)

end
