(* ===== verification/Sys_Event.thy ===== *)
theory Sys_Event
  imports Sys_Array
begin

text \<open>
  The event loop of \<open>libSystem/src/event.c\<close>. The arrays hold pointers to allocated objects, and a
  callback may register and unregister while the loop runs, so the objects live in a store:
  \<open>ev_ets\<close> and \<open>ev_eios\<close> map the addresses in use to the objects, and an access to a freed object,
  like a second \<open>free\<close>, is \<open>None\<close>. Addresses are never reused. \<open>None\<close> also stands for a loop
  that does not end.

  The callbacks (numbers, as they are compared) and the system calls \<open>gettimeofday\<close> and \<open>select\<close> are
  given by an environment; they work on the event, the process and a state \<open>'u\<close> of their own (\<open>None\<close>:
  undefined behaviour in a callback).
  \<open>time_t\<close> and \<open>suseconds_t\<close> are the 64-bit \<open>long\<close>: every sum and difference of times that the
  code computes passes through \<open>long\<close>, which is \<open>None\<close> on a signed overflow (undefined behaviour).
\<close>

record timeval =
  tv_sec :: int
  tv_usec :: int

record EventTimeout =
  et_initial :: timeval
  et_timeout :: timeval
  et_func :: nat
  et_data :: nat

record EventIO =
  eio_fd :: int
  eio_func :: nat
  eio_data :: nat

record Event =
  ev_loop :: "32 word"
  ev_fdmax :: int
  ev_rfds :: "int set"
  ev_wfds :: "int set"
  ev_reads :: "nat list"
  ev_writes :: "nat list"
  ev_timeouts :: "nat list"
  ev_timeout :: timeval
  ev_eios :: "nat \<Rightarrow> EventIO option"
  ev_ets :: "nat \<Rightarrow> EventTimeout option"
  ev_next :: nat

type_synonym 'u rt = "Event \<times> world \<times> 'u"

record 'u event_env =
  e_io :: "nat \<Rightarrow> int \<Rightarrow> nat \<Rightarrow> 'u rt \<Rightarrow> (int \<times> 'u rt) option"
  e_timer :: "nat \<Rightarrow> nat \<Rightarrow> 'u rt \<Rightarrow> (int \<times> 'u rt) option"
  e_now :: "'u \<Rightarrow> (int + timeval) \<times> 'u"
  e_select :: "int \<Rightarrow> int set \<Rightarrow> int set \<Rightarrow> timeval option \<Rightarrow> 'u
     \<Rightarrow> (int + int set \<times> int set \<times> timeval) \<times> 'u"

definition LONG_MAX :: int where "LONG_MAX = 2 ^ 63 - 1"

definition forever :: timeval where "forever = \<lparr>tv_sec = LONG_MAX, tv_usec = LONG_MAX\<rparr>"

text \<open>The arithmetic of \<open>long\<close>: the exact result where it fits, undefined behaviour otherwise.\<close>

definition long :: "int \<Rightarrow> int option" where
  "long x = (if - LONG_MAX - 1 \<le> x \<and> x \<le> LONG_MAX then Some x else None)"

definition max_fd :: "int \<Rightarrow> int \<Rightarrow> int" where
  "max_fd a b = (if a \<ge> b then a else b)"

section \<open>Creation and deletion\<close>

text \<open>
  The allocations are the event and the three arrays. When an array cannot be allocated,
  \<open>event_delete\<close> is called and counts the elements of a \<open>NULL\<close> array.
\<close>

definition event_new :: "world \<Rightarrow> (Event option \<times> world) option" where
  "event_new w =
     (case object_new 344 w of
        (False, w1) \<Rightarrow> Some (None, w1)
      | (True, w1) \<Rightarrow>
          (case object_new 24 w1 of
             (t, w2) \<Rightarrow>
               (case object_new 24 w2 of
                  (r, w3) \<Rightarrow>
                    (case object_new 24 w3 of
                       (wr, w4) \<Rightarrow>
                         if \<not> t \<or> \<not> r \<or> \<not> wr then None
                         else Some (Some \<lparr>ev_loop = 0, ev_fdmax = - 1, ev_rfds = {}, ev_wfds = {},
                                          ev_reads = [], ev_writes = [], ev_timeouts = [],
                                          ev_timeout = forever, ev_eios = Map.empty,
                                          ev_ets = Map.empty, ev_next = 0\<rparr>, w4)))))"

definition free_et :: "nat \<Rightarrow> Event \<Rightarrow> Event option" where
  "free_et p ev = (if ev_ets ev p = None then None else Some (ev\<lparr>ev_ets := (ev_ets ev)(p := None)\<rparr>))"

definition free_eio :: "nat \<Rightarrow> Event \<Rightarrow> Event option" where
  "free_eio p ev = (if ev_eios ev p = None then None else Some (ev\<lparr>ev_eios := (ev_eios ev)(p := None)\<rparr>))"

text \<open>
  The first loop of \<open>event_delete\<close> runs over the timeouts but fetches from \<open>event->writes\<close>; when
  there is no such element, \<open>et\<close> keeps the value it had, which is indeterminate at first.
\<close>

fun delete_timeouts :: "nat \<Rightarrow> nat option \<Rightarrow> nat \<Rightarrow> Event \<Rightarrow> Event option" where
  "delete_timeouts 0 et i ev = Some ev"
| "delete_timeouts (Suc n) et i ev =
     do { p \<leftarrow> (case larr_get (ev_writes ev) i of Some p \<Rightarrow> Some p | None \<Rightarrow> et);
          ev' \<leftarrow> (if ev_eios ev p \<noteq> None then free_eio p ev else free_et p ev);
          delete_timeouts n (Some p) (i + 1) ev' }"

fun delete_eios :: "nat list \<Rightarrow> Event \<Rightarrow> Event option" where
  "delete_eios [] ev = Some ev"
| "delete_eios (p # ps) ev = do { ev' \<leftarrow> free_eio p ev; delete_eios ps ev' }"

definition event_delete :: "Event \<Rightarrow> Event option" where
  "event_delete ev =
     do { ev1 \<leftarrow> delete_timeouts (length (ev_timeouts ev)) None 0 ev;
          ev2 \<leftarrow> delete_eios (ev_reads ev1) ev1;
          delete_eios (ev_writes ev2) ev2 }"

section \<open>Registration\<close>

text \<open>
  \<open>assert(fd >= 0)\<close>, and \<open>FD_SET\<close> needs \<open>fd\<close> below \<open>FD_SETSIZE\<close>; \<open>None\<close> otherwise. The result
  of \<open>array_append\<close> is not looked at.
\<close>

definition FD_SETSIZE :: int where "FD_SETSIZE = 1024"

definition append_ptr :: "nat list \<Rightarrow> nat \<Rightarrow> world \<Rightarrow> nat list \<times> world" where
  "append_ptr ps p w = (case larr_append ps p w of Some (r, ps', w') \<Rightarrow> (ps', w') | None \<Rightarrow> (ps, w))"

definition event_register_io_read :: "Event \<Rightarrow> int \<Rightarrow> nat \<Rightarrow> nat \<Rightarrow> world \<Rightarrow> (int \<times> Event \<times> world) option" where
  "event_register_io_read ev fd func userdata w =
     (if fd < 0 then None
      else case object_new 24 w of
        (False, w1) \<Rightarrow> Some (1, ev, w1)
      | (True, w1) \<Rightarrow>
          if fd \<ge> FD_SETSIZE then None
          else (case append_ptr (ev_reads ev) (ev_next ev) w1 of
            (ps, w2) \<Rightarrow>
              Some (0, ev\<lparr>ev_eios := (ev_eios ev)(ev_next ev \<mapsto>
                                \<lparr>eio_fd = fd, eio_func = func, eio_data = userdata\<rparr>),
                          ev_next := ev_next ev + 1,
                          ev_fdmax := max_fd (ev_fdmax ev) fd,
                          ev_rfds := insert fd (ev_rfds ev),
                          ev_reads := ps\<rparr>, w2)))"

definition event_register_io_write :: "Event \<Rightarrow> int \<Rightarrow> nat \<Rightarrow> nat \<Rightarrow> world \<Rightarrow> (int \<times> Event \<times> world) option" where
  "event_register_io_write ev fd func userdata w =
     (if fd < 0 then None
      else case object_new 24 w of
        (False, w1) \<Rightarrow> Some (1, ev, w1)
      | (True, w1) \<Rightarrow>
          if fd \<ge> FD_SETSIZE then None
          else (case append_ptr (ev_writes ev) (ev_next ev) w1 of
            (ps, w2) \<Rightarrow>
              Some (0, ev\<lparr>ev_eios := (ev_eios ev)(ev_next ev \<mapsto>
                                \<lparr>eio_fd = fd, eio_func = func, eio_data = userdata\<rparr>),
                          ev_next := ev_next ev + 1,
                          ev_fdmax := max_fd (ev_fdmax ev) fd,
                          ev_wfds := insert fd (ev_wfds ev),
                          ev_writes := ps\<rparr>, w2)))"

definition event_register_timeout ::
  "'u event_env \<Rightarrow> timeval \<Rightarrow> nat \<Rightarrow> nat \<Rightarrow> 'u rt \<Rightarrow> (int \<times> 'u rt) option" where
  "event_register_timeout env timeout func data s =
     (case s of (ev, w, st) \<Rightarrow>
        case e_now env st of
          (Inl e, st') \<Rightarrow> Some (1, ev, fail_errno e (w\<lparr>errno := e\<rparr>), st')
        | (Inr now, st') \<Rightarrow>
            (case object_new 48 w of
               (False, w1) \<Rightarrow> Some (1, ev, w1, st')
             | (True, w1) \<Rightarrow>
                 do { sec \<leftarrow> long (tv_sec now + tv_sec timeout);
                      usec \<leftarrow> long (tv_usec now + tv_usec timeout);
                      (case append_ptr (ev_timeouts ev) (ev_next ev) w1 of
                         (ps, w2) \<Rightarrow>
                           let ev1 = ev\<lparr>ev_ets := (ev_ets ev)(ev_next ev \<mapsto>
                                          \<lparr>et_initial = timeout,
                                           et_timeout = \<lparr>tv_sec = sec, tv_usec = usec\<rparr>,
                                           et_func = func, et_data = data\<rparr>),
                                        ev_next := ev_next ev + 1,
                                        ev_timeouts := ps\<rparr>
                           in Some (0, if tv_sec (ev_timeout ev1) > tv_sec timeout
                                     \<or> tv_sec (ev_timeout ev1) = tv_sec timeout
                                       \<and> tv_usec (ev_timeout ev1) > tv_usec timeout
                                  then ev1\<lparr>ev_timeout := timeout\<rparr> else ev1, w2, st')) }))"

text \<open>
  \<open>_unregister_io\<close> over the array \<open>eios\<close> from index \<open>i\<close>: the objects with the descriptor are freed and
  their entries removed. The set is \<open>None\<close> for the \<open>NULL\<close> pointer; clearing in it is an error.
\<close>

function unregister_io ::
  "(nat \<Rightarrow> EventIO option) \<Rightarrow> nat list \<Rightarrow> int set option \<Rightarrow> int \<Rightarrow> nat \<Rightarrow> int
     \<Rightarrow> (int \<times> (nat \<Rightarrow> EventIO option) \<times> nat list \<times> int set option) option" where
  "unregister_io objs eios fds fd i fdmax =
     (case larr_get eios i of
        None \<Rightarrow> Some (fdmax, objs, eios, fds)
      | Some p \<Rightarrow>
          (case objs p of
             None \<Rightarrow> None
           | Some eio \<Rightarrow>
               if eio_fd eio \<noteq> fd then unregister_io objs eios fds fd (i + 1) (max_fd fdmax (eio_fd eio))
               else (case fds of
                 None \<Rightarrow> None
               | Some s \<Rightarrow>
                   unregister_io (objs(p := None)) (take i eios @ drop (Suc i) eios) (Some (s - {fd})) fd i fdmax)))"
  by pat_completeness auto
termination
  by (relation "measure (\<lambda>(objs, eios, fds, fd, i, fdmax). length eios - i)")
    (auto simp: larr_get_def split: if_splits)

declare unregister_io.simps [simp del]

definition event_unregister_io_read :: "Event \<Rightarrow> int \<Rightarrow> (int \<times> Event) option" where
  "event_unregister_io_read ev fd =
     do { (m, objs, ps, fds) \<leftarrow> unregister_io (ev_eios ev) (ev_reads ev) (Some (ev_rfds ev)) fd 0 (- 1);
          (m', objs', ps', _) \<leftarrow> unregister_io objs (ev_writes ev) None (- 1) 0 (- 1);
          Some (0, ev\<lparr>ev_fdmax := max_fd m m', ev_eios := objs', ev_reads := ps, ev_writes := ps',
                      ev_rfds := the fds\<rparr>) }"

definition event_unregister_io_write :: "Event \<Rightarrow> int \<Rightarrow> (int \<times> Event) option" where
  "event_unregister_io_write ev fd =
     do { (m, objs, ps, fds) \<leftarrow> unregister_io (ev_eios ev) (ev_writes ev) (Some (ev_wfds ev)) fd 0 (- 1);
          (m', objs', ps', _) \<leftarrow> unregister_io objs (ev_reads ev) None (- 1) 0 (- 1);
          Some (0, ev\<lparr>ev_fdmax := max_fd m m', ev_eios := objs', ev_writes := ps, ev_reads := ps',
                      ev_wfds := the fds\<rparr>) }"

function remove_timeouts :: "nat \<Rightarrow> nat \<Rightarrow> Event \<Rightarrow> Event option" where
  "remove_timeouts func i ev =
     (case larr_get (ev_timeouts ev) i of
        None \<Rightarrow> Some ev
      | Some p \<Rightarrow>
          (case ev_ets ev p of
             None \<Rightarrow> None
           | Some et \<Rightarrow>
               if et_func et \<noteq> func then remove_timeouts func (i + 1) ev
               else remove_timeouts func i
                 (ev\<lparr>ev_timeouts := take i (ev_timeouts ev) @ drop (Suc i) (ev_timeouts ev),
                     ev_ets := (ev_ets ev)(p := None)\<rparr>)))"
  by pat_completeness auto
termination
  by (relation "measure (\<lambda>(func, i, ev). length (ev_timeouts ev) - i)")
    (auto simp: larr_get_def split: if_splits)

declare remove_timeouts.simps [simp del]

text \<open>The second loop computes the new waiting time; \<open>et->timeout\<close> is absolute, \<open>event->timeout\<close> is not.\<close>

fun next_timeout :: "nat list \<Rightarrow> timeval \<Rightarrow> Event \<Rightarrow> Event option" where
  "next_timeout [] now ev = Some ev"
| "next_timeout (p # ps) now ev =
     (case ev_ets ev p of
        None \<Rightarrow> None
      | Some et \<Rightarrow>
          if tv_sec (et_timeout et) < tv_sec (ev_timeout ev)
             \<or> tv_sec (et_timeout et) = tv_sec (ev_timeout ev)
               \<and> tv_usec (et_timeout et) < tv_usec (ev_timeout ev)
          then
            do { sec \<leftarrow> long (tv_sec (et_timeout et) - tv_sec now);
                 if sec < 0 then Some (ev\<lparr>ev_timeout := \<lparr>tv_sec = 0, tv_usec = 0\<rparr>\<rparr>)
                 else
                   do { usec \<leftarrow> long (tv_usec (et_timeout et) - tv_usec now);
                        if usec \<ge> 0 then next_timeout ps now (ev\<lparr>ev_timeout := \<lparr>tv_sec = sec, tv_usec = usec\<rparr>\<rparr>)
                        else
                          do { minus \<leftarrow> long (- usec);
                               next_timeout ps now (ev\<lparr>ev_timeout :=
                                 \<lparr>tv_sec = (if 0 \<ge> sec - 1 then 0 else sec - 1), tv_usec = minus\<rparr>\<rparr>) } } }
          else next_timeout ps now ev)"

definition event_unregister_timeout ::
  "'u event_env \<Rightarrow> nat \<Rightarrow> 'u rt \<Rightarrow> (int \<times> 'u rt) option" where
  "event_unregister_timeout env func s =
     (case s of (ev, w, st) \<Rightarrow>
        do { ev1 \<leftarrow> remove_timeouts func 0 ev;
             case e_now env st of
               (Inl e, st') \<Rightarrow> Some (1, ev1, fail_errno e (w\<lparr>errno := e\<rparr>), st')
             | (Inr now, st') \<Rightarrow>
                 do { ev2 \<leftarrow> next_timeout (ev_timeouts ev1) now (ev1\<lparr>ev_timeout := forever\<rparr>);
                      Some (0, ev2, w, st') } })"

section \<open>The loop\<close>

definition due :: "timeval \<Rightarrow> EventTimeout \<Rightarrow> bool" where
  "due now et \<longleftrightarrow> tv_sec now > tv_sec (et_timeout et)
     \<or> tv_sec now = tv_sec (et_timeout et) \<and> tv_usec now \<ge> tv_usec (et_timeout et)"

text \<open>A timeout that fired and stays is started again.\<close>

definition reschedule :: "timeval \<Rightarrow> nat \<Rightarrow> Event \<Rightarrow> Event option" where
  "reschedule now p ev =
     (case ev_ets ev p of
        None \<Rightarrow> None
      | Some et \<Rightarrow>
          do { sec \<leftarrow> long (tv_sec (et_initial et) + tv_sec now);
               usec \<leftarrow> long (tv_usec (et_initial et) + tv_usec now);
               let ev1 = ev\<lparr>ev_ets := (ev_ets ev)(p \<mapsto> et\<lparr>et_timeout := \<lparr>tv_sec = sec, tv_usec = usec\<rparr>\<rparr>)\<rparr>;
               Some (if tv_sec (et_initial et) < tv_sec (ev_timeout ev1)
                       \<or> tv_sec (et_initial et) = tv_sec (ev_timeout ev1)
                         \<and> tv_usec (et_initial et) < tv_usec (ev_timeout ev1)
                     then ev1\<lparr>ev_timeout := et_initial et\<rparr> else ev1) })"

text \<open>
  A timeout that is not due yet may shorten the next wait. The microseconds are subtracted in the
  test only when the seconds are the same.
\<close>

definition sooner :: "timeval \<Rightarrow> EventTimeout \<Rightarrow> Event \<Rightarrow> bool option" where
  "sooner now et ev =
     do { sec \<leftarrow> long (tv_sec (et_timeout et) - tv_sec now);
          if sec < tv_sec (ev_timeout ev) then Some True
          else if sec = tv_sec (ev_timeout ev) then
            do { usec \<leftarrow> long (tv_usec (et_timeout et) - tv_usec now);
                 Some (usec < tv_usec (ev_timeout ev)) }
          else Some False }"

definition wait_for :: "timeval \<Rightarrow> EventTimeout \<Rightarrow> Event \<Rightarrow> Event option" where
  "wait_for now et ev =
     do { less \<leftarrow> sooner now et ev;
          if less then
            do { sec \<leftarrow> long (tv_sec (et_timeout et) - tv_sec now);
                 if tv_usec (et_timeout et) \<ge> tv_usec now then
                   do { usec \<leftarrow> long (tv_usec (et_timeout et) - tv_usec now);
                        Some (ev\<lparr>ev_timeout := \<lparr>tv_sec = sec, tv_usec = usec\<rparr>\<rparr>) }
                 else
                   do { sec' \<leftarrow> long (sec - 1);
                        usec \<leftarrow> long (tv_usec now - tv_usec (et_timeout et));
                        Some (ev\<lparr>ev_timeout := \<lparr>tv_sec = sec', tv_usec = usec\<rparr>\<rparr>) } }
          else Some ev }"

partial_function (option) timeouts_loop :: "'u event_env \<Rightarrow> timeval \<Rightarrow> nat \<Rightarrow> 'u rt \<Rightarrow> 'u rt option" where
  "timeouts_loop env now i s =
     (case s of (ev, w, st) \<Rightarrow>
       (if i < length (ev_timeouts ev) then
          do { et \<leftarrow> ev_ets ev (ev_timeouts ev ! i);
               if due now et then
                 do { (r, ev1, w1, st1) \<leftarrow> e_timer env (et_func et) (et_data et) (ev, w, st);
                      if r \<noteq> 0 then
                        do { ev2 \<leftarrow> free_et (ev_timeouts ev ! i)
                               (case larr_remove_pos (ev_timeouts ev1) i of
                                  Some (_, ps) \<Rightarrow> ev1\<lparr>ev_timeouts := ps\<rparr> | None \<Rightarrow> ev1);
                             timeouts_loop env now i (ev2, w1, st1) }
                      else
                        do { ev2 \<leftarrow> reschedule now (ev_timeouts ev ! i) ev1;
                             timeouts_loop env now (i + 1) (ev2, w1, st1) } }
               else do { ev1 \<leftarrow> wait_for now et ev; timeouts_loop env now (i + 1) (ev1, w, st) } }
        else Some (ev, w, st)))"

definition loop_timeout :: "'u event_env \<Rightarrow> 'u rt \<Rightarrow> (int \<times> 'u rt) option" where
  "loop_timeout env s =
     (case s of (ev, w, st) \<Rightarrow>
        case e_now env st of
          (Inl e, st') \<Rightarrow> Some (- 1, ev, fail_errno e (w\<lparr>errno := e\<rparr>), st')
        | (Inr now, st') \<Rightarrow>
            do { s' \<leftarrow> timeouts_loop env now 0 (ev\<lparr>ev_timeout := forever\<rparr>, w, st'); Some (0, s') })"

datatype direction = Reads | Writes

definition eios_of :: "direction \<Rightarrow> Event \<Rightarrow> nat list" where
  "eios_of d ev = (case d of Reads \<Rightarrow> ev_reads ev | Writes \<Rightarrow> ev_writes ev)"

definition unregister_of :: "direction \<Rightarrow> Event \<Rightarrow> int \<Rightarrow> (int \<times> Event) option" where
  "unregister_of d ev fd =
     (case d of Reads \<Rightarrow> event_unregister_io_read ev fd | Writes \<Rightarrow> event_unregister_io_write ev fd)"

text \<open>\<open>fds\<close> is the set \<open>select\<close> returned.\<close>

partial_function (option) loop_io :: "'u event_env \<Rightarrow> direction \<Rightarrow> int set \<Rightarrow> nat \<Rightarrow> 'u rt \<Rightarrow> 'u rt option" where
  "loop_io env d fds i s =
     (case s of (ev, w, st) \<Rightarrow>
       (if i < length (eios_of d ev) then
          do { eio \<leftarrow> ev_eios ev (eios_of d ev ! i);
               if eio_fd eio \<le> ev_fdmax ev \<and> eio_fd eio \<in> fds then
                 do { (r, ev1, w1, st1) \<leftarrow> e_io env (eio_func eio) (eio_fd eio) (eio_data eio) (ev, w, st);
                      if r \<noteq> 0 then
                        do { (_, ev2) \<leftarrow> unregister_of d ev1 (eio_fd eio);
                             loop_io env d fds i (ev2, w1, st1) }
                      else loop_io env d fds (i + 1) (ev1, w1, st1) }
               else loop_io env d fds (i + 1) (ev, w, st) }
        else Some (ev, w, st)))"

text \<open>
  The \<open>while\<close> loop; \<open>timed\<close> tells whether \<open>timeout\<close> points to \<open>event->timeout\<close> (else it is
  \<open>NULL\<close>). \<open>select\<close> may change the time it is given, as Linux does.
\<close>

partial_function (option) event_while ::
  "'u event_env \<Rightarrow> bool \<Rightarrow> int set \<Rightarrow> int set \<Rightarrow> 'u rt \<Rightarrow> (int \<times> 'u rt) option" where
  "event_while env timed rfds wfds s =
     (case s of (ev, w, st) \<Rightarrow>
       (if ev_loop ev \<noteq> 0 \<and> (timed \<or> ev_fdmax ev \<noteq> - 1) then
          (case e_select env (ev_fdmax ev + 1) rfds wfds (if timed then Some (ev_timeout ev) else None) st of
             (Inl e, st1) \<Rightarrow> Some (1, ev, fail_errno e (w\<lparr>errno := e\<rparr>), st1)
           | (Inr (rfds1, wfds1, left), st1) \<Rightarrow>
               do { (r, s2) \<leftarrow> loop_timeout env (if timed then ev\<lparr>ev_timeout := left\<rparr> else ev, w, st1);
                    if r \<noteq> 0 then Some (1, s2)
                    else do { s3 \<leftarrow> loop_io env Reads rfds1 0 s2;
                              s4 \<leftarrow> loop_io env Writes wfds1 0 s3;
                              event_while env (ev_timeout (fst s4) \<noteq> forever)
                                (ev_rfds (fst s4)) (ev_wfds (fst s4)) s4 } })
        else Some (0, ev, w, st)))"

definition event_loop :: "'u event_env \<Rightarrow> 'u rt \<Rightarrow> (int \<times> 'u rt) option" where
  "event_loop env s =
     (case s of (ev, w, st) \<Rightarrow>
        event_while env (ev_timeout ev \<noteq> forever) (ev_rfds ev) (ev_wfds ev)
          (ev\<lparr>ev_loop := ev_loop ev + 1\<rparr>, w, st))"

definition event_loop_quit :: "Event \<Rightarrow> Event" where
  "event_loop_quit ev = (if ev_loop ev > 0 then ev\<lparr>ev_loop := ev_loop ev - 1\<rparr> else ev)"

section \<open>Registered descriptors\<close>

definition fd_of :: "(nat \<Rightarrow> EventIO option) \<Rightarrow> nat \<Rightarrow> int" where
  "fd_of objs p = eio_fd (the (objs p))"

definition ev_inv :: "Event \<Rightarrow> bool" where
  "ev_inv ev \<longleftrightarrow> distinct (ev_reads ev @ ev_writes ev)
     \<and> (\<forall>p \<in> set (ev_reads ev @ ev_writes ev). p < ev_next ev \<and> ev_eios ev p \<noteq> None
          \<and> 0 \<le> fd_of (ev_eios ev) p \<and> fd_of (ev_eios ev) p < FD_SETSIZE)
     \<and> ev_rfds ev = fd_of (ev_eios ev) ` set (ev_reads ev)
     \<and> ev_wfds ev = fd_of (ev_eios ev) ` set (ev_writes ev)
     \<and> ev_fdmax ev = Max (insert (- 1) (ev_rfds ev \<union> ev_wfds ev))"

lemma max_fd_max [simp]: "max_fd a b = max a b"
  by (simp add: max_fd_def)

lemma fold_max_Max: "fold max xs m = Max (insert m (set xs))" for m :: int
  using Max.set_eq_fold [of m xs] by simp

lemma unregister_io_filter:
  "distinct (us @ ps) \<Longrightarrow> \<forall>p \<in> set ps. objs p \<noteq> None \<Longrightarrow>
   fds \<noteq> None \<or> fd \<notin> fd_of objs ` set ps \<Longrightarrow>
   unregister_io objs (us @ ps) fds fd (length us) m =
     Some (fold max (map (fd_of objs) (filter (\<lambda>p. fd_of objs p \<noteq> fd) ps)) m,
       (\<lambda>q. if q \<in> set ps \<and> fd_of objs q = fd then None else objs q),
       us @ filter (\<lambda>p. fd_of objs p \<noteq> fd) ps,
       if fd \<in> fd_of objs ` set ps then map_option (\<lambda>s. s - {fd}) fds else fds)"
proof (induction ps arbitrary: us objs fds m)
  case Nil
  then show ?case by (subst unregister_io.simps) (simp add: larr_get_def)
next
  case (Cons p ps)
  then obtain eio where eio: "objs p = Some eio" by auto
  then have fd: "fd_of objs p = eio_fd eio" by (simp add: fd_of_def)
  have at: "larr_get (us @ p # ps) (length us) = Some p" by (simp add: larr_get_def)
  show ?case
  proof (cases "eio_fd eio = fd")
    case False
    have "unregister_io objs (us @ p # ps) fds fd (length us) m =
        unregister_io objs ((us @ [p]) @ ps) fds fd (length (us @ [p])) (max m (eio_fd eio))"
      using False eio at by (subst unregister_io.simps) simp
    also note Cons.IH [of "us @ [p]" objs fds "max m (eio_fd eio)"]
    finally show ?thesis using Cons.prems False fd eio
      by (auto simp: fun_eq_iff max.commute)
  next
    case True
    with Cons.prems(3) fd obtain s where s: "fds = Some s" by auto
    define objs1 where "objs1 = objs(p := None)"
    have eq: "fd_of objs1 q = fd_of objs q" if "q \<in> set ps" for q
      using that Cons.prems(1) by (auto simp: fd_of_def objs1_def)
    then have filt: "filter (\<lambda>p. fd_of objs1 p \<noteq> fd) ps = filter (\<lambda>p. fd_of objs p \<noteq> fd) ps"
      "map (fd_of objs1) (filter (\<lambda>p. fd_of objs p \<noteq> fd) ps) = map (fd_of objs) (filter (\<lambda>p. fd_of objs p \<noteq> fd) ps)"
      "fd_of objs1 ` set ps = fd_of objs ` set ps"
      by (simp_all cong: filter_cong map_cong image_cong)
    have alloc: "\<forall>q \<in> set ps. objs1 q \<noteq> None" using Cons.prems(1,2) by (auto simp: objs1_def)
    have "unregister_io objs (us @ p # ps) fds fd (length us) m =
        unregister_io objs1 (us @ ps) (Some (s - {fd})) fd (length us) m"
      using True eio at s by (subst unregister_io.simps) (simp add: objs1_def)
    also have "\<dots> = Some (fold max (map (fd_of objs1) (filter (\<lambda>p. fd_of objs1 p \<noteq> fd) ps)) m,
       (\<lambda>q. if q \<in> set ps \<and> fd_of objs1 q = fd then None else objs1 q),
       us @ filter (\<lambda>p. fd_of objs1 p \<noteq> fd) ps,
       if fd \<in> fd_of objs1 ` set ps then map_option (\<lambda>s. s - {fd}) (Some (s - {fd})) else Some (s - {fd}))"
      using Cons.prems(1) by (intro Cons.IH alloc) auto
    also have "(\<lambda>q. if q \<in> set ps \<and> fd_of objs1 q = fd then None else objs1 q)
        = (\<lambda>q. if q \<in> set (p # ps) \<and> fd_of objs q = fd then None else objs q)"
      using eq True fd by (auto simp: fun_eq_iff objs1_def)
    finally show ?thesis using True fd s by (simp add: filt)
  qed
qed

lemma unregister_io_other:
  assumes "distinct ps" "\<forall>p \<in> set ps. objs p \<noteq> None \<and> 0 \<le> fd_of objs p"
  shows "unregister_io objs ps None (- 1) 0 m = Some (fold max (map (fd_of objs) ps) m, objs, ps, None)"
proof -
  have "filter (\<lambda>p. fd_of objs p \<noteq> - 1) ps = ps" using assms(2) by (intro filter_True) auto
  moreover have "- 1 \<notin> fd_of objs ` set ps" using assms(2) by force
  moreover have "(\<lambda>q. if q \<in> set ps \<and> fd_of objs q = - 1 then None else objs q) = objs"
    using assms(2) by force
  ultimately show ?thesis
    using unregister_io_filter [of "[]" ps objs None "- 1" m] assms by (simp only: append_Nil list.size) auto
qed

text \<open>The two calls of \<open>event_unregister_io_read\<close> and \<open>event_unregister_io_write\<close>, with the arrays \<open>ps\<close> and \<open>qs\<close>.\<close>

lemma unregister_both:
  fixes fd :: int
  assumes "distinct (ps @ qs)" "\<forall>p \<in> set (ps @ qs). objs p \<noteq> None \<and> 0 \<le> fd_of objs p"
  defines "keep \<equiv> filter (\<lambda>p. fd_of objs p \<noteq> fd) ps"
  shows "\<exists>m m' objs' fds'. unregister_io objs ps (Some (fd_of objs ` set ps)) fd 0 (- 1) = Some (m, objs', keep, Some fds')
    \<and> unregister_io objs' qs None (- 1) 0 (- 1) = Some (m', objs', qs, None)
    \<and> (\<forall>q \<in> set (keep @ qs). objs' q = objs q)
    \<and> fds' = fd_of objs ` set keep
    \<and> max m m' = Max (insert (- 1) (fd_of objs ` set keep \<union> fd_of objs ` set qs))"
proof -
  define objs' where "objs' = (\<lambda>q. if q \<in> set ps \<and> fd_of objs q = fd then None else objs q)"
  have same: "objs' q = objs q" if "q \<in> set (keep @ qs)" for q
    using that assms(1) by (auto simp: objs'_def keep_def)
  then have fds: "fd_of objs' q = fd_of objs q" if "q \<in> set (keep @ qs)" for q
    using that by (simp add: fd_of_def)
  have 1: "unregister_io objs ps (Some (fd_of objs ` set ps)) fd 0 (- 1)
      = Some (fold max (map (fd_of objs) keep) (- 1), objs', keep,
          Some (fd_of objs ` set keep))"
    using unregister_io_filter [of "[]" ps objs "Some (fd_of objs ` set ps)" fd "- 1"] assms(1,2)
    by (auto simp: objs'_def keep_def)
  have 2: "unregister_io objs' qs None (- 1) 0 (- 1) = Some (fold max (map (fd_of objs') qs) (- 1), objs', qs, None)"
    using assms(1,2) same fds by (intro unregister_io_other) auto
  have "map (fd_of objs') qs = map (fd_of objs) qs" using fds by simp
  moreover have "max (Max (insert (- 1) A)) (Max (insert (- 1) B)) = Max (insert (- 1) (A \<union> B))"
    if "finite A" "finite B" for A B :: "int set"
    using that by (subst Max_Un [symmetric]) (auto simp: insert_commute Un_commute)
  ultimately show ?thesis using 1 2 same by (fastforce simp: fold_max_Max)
qed

lemma ev_inv_new: "event_new w = Some (Some ev, w') \<Longrightarrow> ev_inv ev"
  by (auto simp: event_new_def ev_inv_def split: prod.splits bool.splits if_splits)

lemma append_ptr_plenty: "plenty w \<Longrightarrow> \<exists>w'. append_ptr ps p w = (ps @ [p], w') \<and> plenty w'"
  using w_alloc_plenty [of w] by (auto simp: append_ptr_def larr_append_def)

lemma Max_insert_late:
  "finite A \<Longrightarrow> max (Max (insert (- 1) A)) fd = Max (insert (- 1) (insert fd A))" for fd :: int
  by (subst insert_commute, subst (2) Max_insert) (auto simp: max.commute)

lemma ev_inv_register_read:
  assumes inv: "ev_inv ev" and w: "plenty w" and fd: "0 \<le> fd" "fd < FD_SETSIZE"
  shows "\<exists>ev' w'. event_register_io_read ev fd func data w = Some (0, ev', w') \<and> ev_inv ev' \<and> plenty w'
    \<and> ev_reads ev' = ev_reads ev @ [ev_next ev] \<and> ev_rfds ev' = insert fd (ev_rfds ev)
    \<and> ev_eios ev' (ev_next ev) = Some \<lparr>eio_fd = fd, eio_func = func, eio_data = data\<rparr>"
proof -
  obtain w1 where w1: "object_new 24 w = (True, w1)" "plenty w1" using object_new_ok [OF w, of 24] by auto
  obtain w2 where w2: "append_ptr (ev_reads ev) (ev_next ev) w1 = (ev_reads ev @ [ev_next ev], w2)" "plenty w2"
    using append_ptr_plenty [OF w1(2)] by blast
  define objs where "objs = (ev_eios ev)(ev_next ev \<mapsto> \<lparr>eio_fd = fd, eio_func = func, eio_data = data\<rparr>)"
  let ?ev = "ev\<lparr>ev_eios := objs, ev_next := ev_next ev + 1, ev_fdmax := max (ev_fdmax ev) fd,
    ev_rfds := insert fd (ev_rfds ev), ev_reads := ev_reads ev @ [ev_next ev]\<rparr>"
  have eq: "event_register_io_read ev fd func data w = Some (0, ?ev, w2)"
    using w1 w2 fd by (simp add: event_register_io_read_def objs_def)
  have fresh: "ev_next ev \<notin> set (ev_reads ev @ ev_writes ev)" using inv by (auto simp: ev_inv_def)
  then have old: "objs q = ev_eios ev q" "fd_of objs q = fd_of (ev_eios ev) q"
    if "q \<in> set (ev_reads ev @ ev_writes ev)" for q
    using that by (auto simp: objs_def fd_of_def)
  have new: "fd_of objs (ev_next ev) = fd" "objs (ev_next ev) = Some \<lparr>eio_fd = fd, eio_func = func, eio_data = data\<rparr>"
    by (simp_all add: objs_def fd_of_def)
  have fds: "insert fd (ev_rfds ev) = fd_of objs ` set (ev_reads ev @ [ev_next ev])" "ev_wfds ev = fd_of objs ` set (ev_writes ev)"
    using inv old new by (auto simp: ev_inv_def image_iff)
  have "max (ev_fdmax ev) fd = Max (insert (- 1) (insert fd (ev_rfds ev) \<union> ev_wfds ev))"
    using inv Max_insert_late [of "ev_rfds ev \<union> ev_wfds ev" fd] by (simp add: ev_inv_def)
  moreover have "distinct (ev_reads ?ev @ ev_writes ?ev)" using inv fresh by (auto simp: ev_inv_def)
  moreover have "\<forall>p \<in> set (ev_reads ?ev @ ev_writes ?ev). p < ev_next ?ev \<and> objs p \<noteq> None
      \<and> 0 \<le> fd_of objs p \<and> fd_of objs p < FD_SETSIZE"
    using inv old new fd by (auto simp: ev_inv_def less_Suc_eq)
  ultimately have "ev_inv ?ev" using fds by (simp add: ev_inv_def del: Max_insert)
  with eq w2(2) new show ?thesis by auto
qed

lemma ev_inv_register_write:
  assumes inv: "ev_inv ev" and w: "plenty w" and fd: "0 \<le> fd" "fd < FD_SETSIZE"
  shows "\<exists>ev' w'. event_register_io_write ev fd func data w = Some (0, ev', w') \<and> ev_inv ev' \<and> plenty w'
    \<and> ev_writes ev' = ev_writes ev @ [ev_next ev] \<and> ev_wfds ev' = insert fd (ev_wfds ev)
    \<and> ev_eios ev' (ev_next ev) = Some \<lparr>eio_fd = fd, eio_func = func, eio_data = data\<rparr>"
proof -
  obtain w1 where w1: "object_new 24 w = (True, w1)" "plenty w1" using object_new_ok [OF w, of 24] by auto
  obtain w2 where w2: "append_ptr (ev_writes ev) (ev_next ev) w1 = (ev_writes ev @ [ev_next ev], w2)" "plenty w2"
    using append_ptr_plenty [OF w1(2)] by blast
  define objs where "objs = (ev_eios ev)(ev_next ev \<mapsto> \<lparr>eio_fd = fd, eio_func = func, eio_data = data\<rparr>)"
  let ?ev = "ev\<lparr>ev_eios := objs, ev_next := ev_next ev + 1, ev_fdmax := max (ev_fdmax ev) fd,
    ev_wfds := insert fd (ev_wfds ev), ev_writes := ev_writes ev @ [ev_next ev]\<rparr>"
  have eq: "event_register_io_write ev fd func data w = Some (0, ?ev, w2)"
    using w1 w2 fd by (simp add: event_register_io_write_def objs_def)
  have fresh: "ev_next ev \<notin> set (ev_reads ev @ ev_writes ev)" using inv by (auto simp: ev_inv_def)
  then have old: "objs q = ev_eios ev q" "fd_of objs q = fd_of (ev_eios ev) q"
    if "q \<in> set (ev_reads ev @ ev_writes ev)" for q
    using that by (auto simp: objs_def fd_of_def)
  have new: "fd_of objs (ev_next ev) = fd" "objs (ev_next ev) = Some \<lparr>eio_fd = fd, eio_func = func, eio_data = data\<rparr>"
    by (simp_all add: objs_def fd_of_def)
  have fds: "insert fd (ev_wfds ev) = fd_of objs ` set (ev_writes ev @ [ev_next ev])" "ev_rfds ev = fd_of objs ` set (ev_reads ev)"
    using inv old new by (auto simp: ev_inv_def image_iff)
  have "max (ev_fdmax ev) fd = Max (insert (- 1) (ev_rfds ev \<union> insert fd (ev_wfds ev)))"
    using inv Max_insert_late [of "ev_rfds ev \<union> ev_wfds ev" fd] by (simp add: ev_inv_def)
  moreover have "distinct (ev_reads ?ev @ ev_writes ?ev)" using inv fresh by (auto simp: ev_inv_def)
  moreover have "\<forall>p \<in> set (ev_reads ?ev @ ev_writes ?ev). p < ev_next ?ev \<and> objs p \<noteq> None
      \<and> 0 \<le> fd_of objs p \<and> fd_of objs p < FD_SETSIZE"
    using inv old new fd by (auto simp: ev_inv_def less_Suc_eq)
  ultimately have "ev_inv ?ev" using fds by (simp add: ev_inv_def del: Max_insert)
  with eq w2(2) new show ?thesis by auto
qed

lemma ev_inv_unregister_read:
  assumes inv: "ev_inv ev"
  shows "\<exists>ev'. event_unregister_io_read ev fd = Some (0, ev') \<and> ev_inv ev' \<and> ev_next ev' = ev_next ev
    \<and> ev_reads ev' = filter (\<lambda>p. fd_of (ev_eios ev) p \<noteq> fd) (ev_reads ev) \<and> ev_writes ev' = ev_writes ev
    \<and> ev_rfds ev' = ev_rfds ev - {fd} \<and> ev_wfds ev' = ev_wfds ev"
proof -
  let ?keep = "filter (\<lambda>p. fd_of (ev_eios ev) p \<noteq> fd) (ev_reads ev)"
  have "distinct (ev_reads ev @ ev_writes ev)"
    "\<forall>p \<in> set (ev_reads ev @ ev_writes ev). ev_eios ev p \<noteq> None \<and> 0 \<le> fd_of (ev_eios ev) p"
    using inv by (auto simp: ev_inv_def)
  from unregister_both [OF this, of fd] obtain m m' objs fds where
    un: "unregister_io (ev_eios ev) (ev_reads ev) (Some (ev_rfds ev)) fd 0 (- 1) = Some (m, objs, ?keep, Some fds)"
      "unregister_io objs (ev_writes ev) None (- 1) 0 (- 1) = Some (m', objs, ev_writes ev, None)"
    and same: "\<forall>q \<in> set (?keep @ ev_writes ev). objs q = ev_eios ev q"
    and fds: "fds = fd_of (ev_eios ev) ` set ?keep"
    and m: "max m m' = Max (insert (- 1) (fd_of (ev_eios ev) ` set ?keep \<union> fd_of (ev_eios ev) ` set (ev_writes ev)))"
    using inv by (auto simp: ev_inv_def)
  from same have same': "\<forall>q \<in> set (?keep @ ev_writes ev). fd_of objs q = fd_of (ev_eios ev) q"
    by (simp add: fd_of_def)
  let ?ev = "ev\<lparr>ev_fdmax := max m m', ev_eios := objs, ev_reads := ?keep, ev_writes := ev_writes ev, ev_rfds := fds\<rparr>"
  have "event_unregister_io_read ev fd = Some (0, ?ev)"
    by (simp add: event_unregister_io_read_def un)
  moreover have "ev_inv ?ev"
    using inv same same' fds m by (auto simp: ev_inv_def image_Un [symmetric])
  moreover have "fds = ev_rfds ev - {fd}" using inv by (auto simp: ev_inv_def fds)
  ultimately show ?thesis by auto
qed

lemma ev_inv_unregister_write:
  assumes inv: "ev_inv ev"
  shows "\<exists>ev'. event_unregister_io_write ev fd = Some (0, ev') \<and> ev_inv ev' \<and> ev_next ev' = ev_next ev
    \<and> ev_writes ev' = filter (\<lambda>p. fd_of (ev_eios ev) p \<noteq> fd) (ev_writes ev) \<and> ev_reads ev' = ev_reads ev
    \<and> ev_wfds ev' = ev_wfds ev - {fd} \<and> ev_rfds ev' = ev_rfds ev"
proof -
  let ?keep = "filter (\<lambda>p. fd_of (ev_eios ev) p \<noteq> fd) (ev_writes ev)"
  have "distinct (ev_writes ev @ ev_reads ev)"
    "\<forall>p \<in> set (ev_writes ev @ ev_reads ev). ev_eios ev p \<noteq> None \<and> 0 \<le> fd_of (ev_eios ev) p"
    using inv by (auto simp: ev_inv_def)
  from unregister_both [OF this, of fd] obtain m m' objs fds where
    un: "unregister_io (ev_eios ev) (ev_writes ev) (Some (ev_wfds ev)) fd 0 (- 1) = Some (m, objs, ?keep, Some fds)"
      "unregister_io objs (ev_reads ev) None (- 1) 0 (- 1) = Some (m', objs, ev_reads ev, None)"
    and same: "\<forall>q \<in> set (?keep @ ev_reads ev). objs q = ev_eios ev q"
    and fds: "fds = fd_of (ev_eios ev) ` set ?keep"
    and m: "max m m' = Max (insert (- 1) (fd_of (ev_eios ev) ` set ?keep \<union> fd_of (ev_eios ev) ` set (ev_reads ev)))"
    using inv by (auto simp: ev_inv_def)
  from same have same': "\<forall>q \<in> set (?keep @ ev_reads ev). fd_of objs q = fd_of (ev_eios ev) q"
    by (simp add: fd_of_def)
  let ?ev = "ev\<lparr>ev_fdmax := max m m', ev_eios := objs, ev_writes := ?keep, ev_reads := ev_reads ev, ev_wfds := fds\<rparr>"
  have "event_unregister_io_write ev fd = Some (0, ?ev)"
    by (simp add: event_unregister_io_write_def un)
  moreover have "ev_inv ?ev"
    using inv same same' fds m by (auto simp: ev_inv_def image_Un [symmetric] Un_commute)
  moreover have "fds = ev_wfds ev - {fd}" using inv by (auto simp: ev_inv_def fds)
  ultimately show ?thesis by auto
qed

text \<open>
  The events a program can reach by registering and unregistering descriptors, starting with memory
  available. (The result of \<open>array_append\<close> is not looked at: when it fails, the descriptor stays in
  the set without an entry.)
\<close>

inductive event_run :: "Event \<Rightarrow> world \<Rightarrow> bool" where
  new: "plenty w \<Longrightarrow> event_new w = Some (Some ev, w') \<Longrightarrow> event_run ev w'"
| register_read: "event_run ev w \<Longrightarrow> 0 \<le> fd \<Longrightarrow> fd < FD_SETSIZE \<Longrightarrow>
    event_register_io_read ev fd func data w = Some (r, ev', w') \<Longrightarrow> event_run ev' w'"
| register_write: "event_run ev w \<Longrightarrow> 0 \<le> fd \<Longrightarrow> fd < FD_SETSIZE \<Longrightarrow>
    event_register_io_write ev fd func data w = Some (r, ev', w') \<Longrightarrow> event_run ev' w'"
| unregister_read: "event_run ev w \<Longrightarrow> event_unregister_io_read ev fd = Some (r, ev') \<Longrightarrow> event_run ev' w"
| unregister_write: "event_run ev w \<Longrightarrow> event_unregister_io_write ev fd = Some (r, ev') \<Longrightarrow> event_run ev' w"

lemma object_new_plenty: "object_new sz w = (ok, w') \<Longrightarrow> plenty w \<Longrightarrow> plenty w'"
  using w_alloc_plenty [of w] by (auto simp: object_new_def split: if_splits)

lemma event_new_plenty: "plenty w \<Longrightarrow> event_new w = Some (oe, w') \<Longrightarrow> plenty w'"
  by (auto simp: event_new_def dest: object_new_plenty split: prod.splits bool.splits if_splits)

lemma event_run_inv: "event_run ev w \<Longrightarrow> ev_inv ev \<and> plenty w"
proof (induction rule: event_run.induct)
  case (new w ev w')
  then show ?case by (simp add: ev_inv_new event_new_plenty)
next
  case (register_read ev w fd func data r ev' w')
  with ev_inv_register_read [of ev w fd func data] show ?case by auto
next
  case (register_write ev w fd func data r ev' w')
  with ev_inv_register_write [of ev w fd func data] show ?case by auto
next
  case (unregister_read ev w fd r ev')
  with ev_inv_unregister_read [of ev fd] show ?case by auto
next
  case (unregister_write ev w fd r ev')
  with ev_inv_unregister_write [of ev fd] show ?case by auto
qed

section \<open>Timers\<close>

text \<open>
  One round over the timeouts \<open>ps\<close> at time \<open>now\<close>, for callbacks \<open>cb\<close> that leave the event alone: the
  due ones are called in order, and those whose callback returns non-zero are dropped.
\<close>

fun fire :: "(nat \<Rightarrow> nat \<Rightarrow> 's \<Rightarrow> int \<times> 's) \<Rightarrow> timeval \<Rightarrow> (nat \<Rightarrow> EventTimeout option) \<Rightarrow> nat list \<Rightarrow> 's \<Rightarrow> nat list \<times> 's" where
  "fire cb now ets [] s = ([], s)"
| "fire cb now ets (p # ps) s =
     (let et = the (ets p) in
      if due now et then
        (case cb (et_func et) (et_data et) s of
           (r, s') \<Rightarrow>
             (case fire cb now ets ps s' of (kept, s'') \<Rightarrow> (if r \<noteq> 0 then kept else p # kept, s'')))
      else (case fire cb now ets ps s of (kept, s') \<Rightarrow> (p # kept, s')))"

definition restarted :: "timeval \<Rightarrow> EventTimeout \<Rightarrow> EventTimeout" where
  "restarted now et = (if due now et
     then et\<lparr>et_timeout := \<lparr>tv_sec = tv_sec (et_initial et) + tv_sec now,
                              tv_usec = tv_usec (et_initial et) + tv_usec now\<rparr>\<rparr>
     else et)"

text \<open>
  Times far enough from the ends of \<open>long\<close> that no sum or difference of two of them overflows.
\<close>

definition time_in_range :: "timeval \<Rightarrow> bool" where
  "time_in_range t \<longleftrightarrow> 0 \<le> tv_sec t \<and> tv_sec t < 2 ^ 62 \<and> 0 \<le> tv_usec t \<and> tv_usec t < 2 ^ 62"

definition et_times_ok :: "EventTimeout \<Rightarrow> bool" where
  "et_times_ok et \<longleftrightarrow> time_in_range (et_initial et) \<and> time_in_range (et_timeout et)"

lemma long_exact: "- LONG_MAX - 1 \<le> x \<Longrightarrow> x \<le> LONG_MAX \<Longrightarrow> long x = Some x"
  by (simp add: long_def)

lemma long_add: "0 \<le> x \<Longrightarrow> x < 2 ^ 62 \<Longrightarrow> 0 \<le> y \<Longrightarrow> y < 2 ^ 62 \<Longrightarrow> long (x + y) = Some (x + y)"
  by (simp add: long_def LONG_MAX_def)

lemma long_diff: "0 \<le> x \<Longrightarrow> x < 2 ^ 62 \<Longrightarrow> 0 \<le> y \<Longrightarrow> y < 2 ^ 62 \<Longrightarrow> long (x - y) = Some (x - y)"
  by (simp add: long_def LONG_MAX_def)

lemma long_pred: "0 \<le> x \<Longrightarrow> x < 2 ^ 62 \<Longrightarrow> 0 \<le> y \<Longrightarrow> y < 2 ^ 62 \<Longrightarrow> long (x - y - 1) = Some (x - y - 1)"
  by (simp add: long_def LONG_MAX_def)

lemma reschedule_fields:
  "ev_ets ev p = Some et \<Longrightarrow> due now et \<Longrightarrow> time_in_range now \<Longrightarrow> et_times_ok et \<Longrightarrow> \<exists>ev'. reschedule now p ev = Some ev'
     \<and> ev_timeouts ev' = ev_timeouts ev \<and> ev_ets ev' = (ev_ets ev)(p \<mapsto> restarted now et)"
  by (simp add: reschedule_def Let_def restarted_def long_add et_times_ok_def time_in_range_def)

text \<open>What \<open>wait_for\<close> computes for times in range.\<close>

definition wait_value :: "timeval \<Rightarrow> EventTimeout \<Rightarrow> timeval" where
  "wait_value now et =
     (if tv_usec (et_timeout et) \<ge> tv_usec now
      then \<lparr>tv_sec = tv_sec (et_timeout et) - tv_sec now, tv_usec = tv_usec (et_timeout et) - tv_usec now\<rparr>
      else \<lparr>tv_sec = tv_sec (et_timeout et) - tv_sec now - 1, tv_usec = tv_usec now - tv_usec (et_timeout et)\<rparr>)"

lemma wait_for_value:
  assumes "time_in_range now" "time_in_range (et_timeout et)"
  shows "wait_for now et ev = Some (if tv_sec (et_timeout et) - tv_sec now < tv_sec (ev_timeout ev)
      \<or> tv_sec (et_timeout et) - tv_sec now = tv_sec (ev_timeout ev)
        \<and> tv_usec (et_timeout et) - tv_usec now < tv_usec (ev_timeout ev)
     then ev\<lparr>ev_timeout := wait_value now et\<rparr> else ev)"
proof -
  define sec where "sec = tv_sec (et_timeout et) - tv_sec now"
  have l: "long sec = Some sec" "long (sec - 1) = Some (sec - 1)"
    "long (tv_usec (et_timeout et) - tv_usec now) = Some (tv_usec (et_timeout et) - tv_usec now)"
    "long (tv_usec now - tv_usec (et_timeout et)) = Some (tv_usec now - tv_usec (et_timeout et))"
    using assms unfolding time_in_range_def sec_def by (blast intro: long_diff long_pred)+
  show ?thesis
    unfolding wait_for_def sooner_def wait_value_def sec_def [symmetric] l Option.bind_lunit by simp
qed

lemma wait_for_fields:
  "time_in_range now \<Longrightarrow> time_in_range (et_timeout et) \<Longrightarrow> \<exists>ev'. wait_for now et ev = Some ev'
     \<and> ev_timeouts ev' = ev_timeouts ev \<and> ev_ets ev' = ev_ets ev"
  by (simp add: wait_for_value)

lemma fire_subset: "set (fst (fire cb now ets ps s)) \<subseteq> set ps"
proof (induction ps arbitrary: s)
  case (Cons p ps)
  from subsetD [OF Cons.IH] show ?case by (auto simp: Let_def case_prod_beta)
qed simp

lemma fire_cong: "\<forall>p \<in> set ps. ets p = ets' p \<Longrightarrow> fire cb now ets ps s = fire cb now ets' ps s"
  by (induction ps arbitrary: s) (simp_all add: Let_def split: prod.split)

lemma timeouts_loop_fire:
  assumes cb: "\<And>f d ev w st. e_timer env f d (ev, w, st) = (case cb f d (w, st) of (r, w', st') \<Rightarrow> Some (r, ev, w', st'))"
    and now: "time_in_range now"
  shows "ev_timeouts ev = us @ ps \<Longrightarrow> distinct (us @ ps) \<Longrightarrow>
    \<forall>p \<in> set ps. \<exists>et. ev_ets ev p = Some et \<and> et_times_ok et \<Longrightarrow>
    fire cb now (ev_ets ev) ps (w, st) = (kept, w', st') \<Longrightarrow>
    \<exists>ev'. timeouts_loop env now (length us) (ev, w, st) = Some (ev', w', st')
      \<and> ev_timeouts ev' = us @ kept
      \<and> ev_ets ev' = (\<lambda>p. if p \<in> set ps then
          (if p \<in> set kept then Some (restarted now (the (ev_ets ev p))) else None) else ev_ets ev p)"
proof (induction ps arbitrary: us ev w st kept)
  case Nil
  then show ?case by (subst timeouts_loop.simps) simp
next
  case (Cons p ps)
  obtain et where et: "ev_ets ev p = Some et" "et_times_ok et" using Cons.prems(3) by auto
  have notin: "p \<notin> set ps" "p \<notin> set us" using Cons.prems(2) by auto
  have sub: "set (fst (fire cb now ets ps s)) \<subseteq> set ps" for ets s by (rule fire_subset)
  show ?case
  proof (cases "due now et")
    case False
    obtain k where k: "fire cb now (ev_ets ev) ps (w, st) = (k, w', st')" "kept = p # k"
      using Cons.prems(4) et False by (auto split: prod.splits)
    obtain ev1 where ev1: "wait_for now et ev = Some ev1" "ev_timeouts ev1 = ev_timeouts ev" "ev_ets ev1 = ev_ets ev"
      using wait_for_fields [OF now] et(2) unfolding et_times_ok_def by blast
    have "timeouts_loop env now (length us) (ev, w, st) = timeouts_loop env now (length (us @ [p])) (ev1, w, st)"
      using Cons.prems(1) et False ev1(1) by (subst timeouts_loop.simps) simp
    with Cons.IH [of ev1 "us @ [p]" w st k] Cons.prems(1-3) k ev1(2,3) obtain ev' where
      "timeouts_loop env now (length us) (ev, w, st) = Some (ev', w', st')" "ev_timeouts ev' = us @ kept"
      "ev_ets ev' = (\<lambda>q. if q \<in> set ps then
          (if q \<in> set k then Some (restarted now (the (ev_ets ev q))) else None) else ev_ets ev q)"
      by (auto cong: if_cong)
    moreover have "restarted now et = et" using False by (simp add: restarted_def)
    ultimately show ?thesis using notin k(2) et by (auto simp: fun_eq_iff)
  next
    case True
    obtain r w1 st1 where call: "cb (et_func et) (et_data et) (w, st) = (r, w1, st1)" by (metis prod_cases3)
    obtain k where k: "fire cb now (ev_ets ev) ps (w1, st1) = (k, w', st')" "kept = (if r \<noteq> 0 then k else p # k)"
      using Cons.prems(4) et True call by (auto split: prod.splits)
    from sub [of "ev_ets ev" "(w1, st1)"] k(1) notin have pk: "p \<notin> set k" by auto
    define ev1 where "ev1 = (if r \<noteq> 0 then ev\<lparr>ev_timeouts := us @ ps, ev_ets := (ev_ets ev)(p := None)\<rparr>
      else the (reschedule now p ev))"
    define us' where "us' = (if r \<noteq> 0 then us else us @ [p])"
    have ev1: "ev_timeouts ev1 = us' @ ps" "distinct (us' @ ps)"
      "ev_ets ev1 = (ev_ets ev)(p := if r \<noteq> 0 then None else Some (restarted now et))"
      using reschedule_fields [OF et(1) True now et(2)] Cons.prems(1,2) by (auto simp: ev1_def us'_def)
    have "timeouts_loop env now (length us) (ev, w, st) = timeouts_loop env now (length us') (ev1, w1, st1)"
      using Cons.prems(1) et True call reschedule_fields [OF et(1) True now et(2)]
      by (subst timeouts_loop.simps) (auto simp: cb ev1_def us'_def free_et_def larr_remove_pos_def)
    moreover have "fire cb now (ev_ets ev1) ps (w1, st1) = (k, w', st')"
      using k(1) fire_cong [of ps "ev_ets ev1" "ev_ets ev" cb now "(w1, st1)"] notin ev1(3) by auto
    moreover have "\<forall>q \<in> set ps. \<exists>et. ev_ets ev1 q = Some et \<and> et_times_ok et"
      using Cons.prems(3) notin by (auto simp: ev1(3))
    ultimately obtain ev' where
      "timeouts_loop env now (length us) (ev, w, st) = Some (ev', w', st')" "ev_timeouts ev' = us' @ k"
      "ev_ets ev' = (\<lambda>q. if q \<in> set ps then
          (if q \<in> set k then Some (restarted now (the (ev_ets ev1 q))) else None) else ev_ets ev1 q)"
      using Cons.IH [OF ev1(1,2)] by fastforce
    then show ?thesis
      using notin pk k(2) et ev1(3) by (auto simp: us'_def fun_eq_iff)
  qed
qed

section \<open>Deletion\<close>

lemma delete_timeouts_mono:
  "delete_timeouts n et i ev = Some ev' \<Longrightarrow> ev_writes ev' = ev_writes ev \<and> ev_reads ev' = ev_reads ev
     \<and> (\<forall>p. ev_eios ev p = None \<longrightarrow> ev_eios ev' p = None)"
  by (induction n et i ev rule: delete_timeouts.induct)
    (auto simp: free_eio_def free_et_def split: bind_splits if_splits option.splits)

lemma delete_eios_mono:
  "delete_eios ps ev = Some ev' \<Longrightarrow> ev_writes ev' = ev_writes ev
     \<and> (\<forall>p. ev_eios ev p = None \<longrightarrow> ev_eios ev' p = None) \<and> (\<forall>p \<in> set ps. ev_eios ev p \<noteq> None)"
proof (induction ps arbitrary: ev)
  case (Cons p ps)
  then have rest: "ev_eios ev p \<noteq> None" "delete_eios ps (ev\<lparr>ev_eios := (ev_eios ev)(p := None)\<rparr>) = Some ev'"
    by (auto simp: free_eio_def split: bind_splits if_splits)
  from Cons.IH [OF rest(2)] rest(1) show ?case by (auto split: if_splits)
qed simp

lemma delete_eios_ok:
  "distinct ps \<Longrightarrow> \<forall>p \<in> set ps. ev_eios ev p \<noteq> None \<Longrightarrow>
   \<exists>ev'. delete_eios ps ev = Some ev' \<and> ev_writes ev' = ev_writes ev
     \<and> (\<forall>q. q \<notin> set ps \<longrightarrow> ev_eios ev' q = ev_eios ev q)"
proof (induction ps arbitrary: ev)
  case (Cons p ps)
  let ?ev = "ev\<lparr>ev_eios := (ev_eios ev)(p := None)\<rparr>"
  have "\<forall>q \<in> set ps. ev_eios ?ev q \<noteq> None" using Cons.prems by auto
  with Cons.IH [of ?ev] Cons.prems(1) obtain ev' where "delete_eios ps ?ev = Some ev'"
    "ev_writes ev' = ev_writes ev" "\<forall>q. q \<notin> set ps \<longrightarrow> ev_eios ev' q = ev_eios ?ev q"
    by auto
  with Cons.prems show ?case by (auto simp: free_eio_def)
qed simp

section \<open>Properties\<close>

text \<open>
  C6: in every event reached by registering and unregistering descriptors while memory is available
  (no allocation fails, \<open>plenty\<close>), the sets given to
  \<open>select\<close> are exactly the descriptors of the registered readers and writers, \<open>fdmax\<close> is the
  largest of them (or -1), no two entries share an object, and unregistering neither touches a freed
  object nor the \<open>NULL\<close> set: it removes all entries of the descriptor and leaves the others.
\<close>

theorem event_registered_fds:
  assumes "event_run ev w"
  shows "ev_rfds ev = fd_of (ev_eios ev) ` set (ev_reads ev) \<and> ev_wfds ev = fd_of (ev_eios ev) ` set (ev_writes ev)
    \<and> ev_fdmax ev = Max (insert (- 1) (ev_rfds ev \<union> ev_wfds ev)) \<and> distinct (ev_reads ev @ ev_writes ev)
    \<and> (\<exists>ev'. event_unregister_io_read ev fd = Some (0, ev') \<and> ev_rfds ev' = ev_rfds ev - {fd}
        \<and> ev_reads ev' = filter (\<lambda>p. fd_of (ev_eios ev) p \<noteq> fd) (ev_reads ev) \<and> ev_writes ev' = ev_writes ev)
    \<and> (\<exists>ev'. event_unregister_io_write ev fd = Some (0, ev') \<and> ev_wfds ev' = ev_wfds ev - {fd}
        \<and> ev_writes ev' = filter (\<lambda>p. fd_of (ev_eios ev) p \<noteq> fd) (ev_writes ev) \<and> ev_reads ev' = ev_reads ev)"
proof -
  have inv: "ev_inv ev" using event_run_inv [OF assms] by blast
  then have "ev_rfds ev = fd_of (ev_eios ev) ` set (ev_reads ev)"
    "ev_wfds ev = fd_of (ev_eios ev) ` set (ev_writes ev)"
    "ev_fdmax ev = Max (insert (- 1) (ev_rfds ev \<union> ev_wfds ev))" "distinct (ev_reads ev @ ev_writes ev)"
    unfolding ev_inv_def by blast+
  with ev_inv_unregister_read [OF inv, of fd] ev_inv_unregister_write [OF inv, of fd] show ?thesis by blast
qed

text \<open>An event with one reader on descriptor 3.\<close>

definition event_one_reader :: Event where
  "event_one_reader = \<lparr>ev_loop = 0, ev_fdmax = 3, ev_rfds = {3}, ev_wfds = {}, ev_reads = [0], ev_writes = [],
     ev_timeouts = [], ev_timeout = forever, ev_eios = [0 \<mapsto> \<lparr>eio_fd = 3, eio_func = 1, eio_data = 0\<rparr>],
     ev_ets = Map.empty, ev_next = 1\<rparr>"

lemma event_one_reader_run: "event_run event_one_reader world0"
proof -
  let ?ev = "\<lparr>ev_loop = 0, ev_fdmax = - 1, ev_rfds = {}, ev_wfds = {}, ev_reads = [], ev_writes = [],
     ev_timeouts = [], ev_timeout = forever, ev_eios = Map.empty, ev_ets = Map.empty, ev_next = 0\<rparr> :: Event"
  have "event_new world0 = Some (Some ?ev, world0)"
    by (simp add: event_new_def object_new_def w_alloc_def)
  then have "event_run ?ev world0" by (intro event_run.new [of world0]) simp_all
  moreover have "event_register_io_read ?ev 3 1 0 world0 = Some (0, event_one_reader, world0)"
    by (simp add: event_register_io_read_def object_new_def w_alloc_def append_ptr_def larr_append_def
        FD_SETSIZE_def event_one_reader_def)
  ultimately show ?thesis using event_run.register_read [of ?ev world0 3 1 0 0] by (simp add: FD_SETSIZE_def)
qed

theorem event_registered_fds_witness:
  "\<exists>ev'. event_unregister_io_read event_one_reader 3 = Some (0, ev') \<and> ev_rfds ev' = {}
    \<and> ev_reads ev' = filter (\<lambda>p. fd_of (ev_eios event_one_reader) p \<noteq> 3) (ev_reads event_one_reader)
    \<and> ev_writes ev' = ev_writes event_one_reader"
proof -
  have "ev_rfds event_one_reader - {3} = {}" by (simp add: event_one_reader_def)
  with event_registered_fds [OF event_one_reader_run, of 3] show ?thesis by metis
qed

text \<open>
  C7: one pass of \<open>_loop_timeout\<close>, when the timer callbacks leave the event alone (they neither
  register nor unregister anything) and all times lie between 0 and 2 to the 62, calls the callbacks
  of the due timeouts, each once and in order, and no others; a timeout whose callback returns
  non-zero is removed and freed, one whose callback returns 0 is due again its interval from now,
  and the others keep their time.
\<close>

theorem loop_timeout_fires:
  assumes "\<And>f d ev w st. e_timer env f d (ev, w, st) = (case cb f d (w, st) of (r, w', st') \<Rightarrow> Some (r, ev, w', st'))"
    and "distinct (ev_timeouts ev)" "\<forall>p \<in> set (ev_timeouts ev). \<exists>et. ev_ets ev p = Some et \<and> et_times_ok et"
    and "e_now env st = (Inr now, st1)" "time_in_range now" "fire cb now (ev_ets ev) (ev_timeouts ev) (w, st1) = (kept, w', st')"
  shows "\<exists>ev'. loop_timeout env (ev, w, st) = Some (0, ev', w', st') \<and> ev_timeouts ev' = kept
    \<and> (\<forall>p \<in> set (ev_timeouts ev). ev_ets ev' p =
        (if p \<in> set kept then Some (restarted now (the (ev_ets ev p))) else None))"
proof -
  let ?ev = "ev\<lparr>ev_timeout := forever\<rparr>"
  have fire': "fire cb now (ev_ets ?ev) (ev_timeouts ev) (w, st1) = (kept, w', st')" using assms(6) by simp
  have "\<forall>p \<in> set (ev_timeouts ev). \<exists>et. ev_ets ?ev p = Some et \<and> et_times_ok et" using assms(3) by simp
  from timeouts_loop_fire [OF assms(1,5), of ?ev "[]" "ev_timeouts ev" w st1, OF _ _ this fire'] assms(2,4)
  show ?thesis by (fastforce simp: loop_timeout_def)
qed

text \<open>
  A kernel whose clock stands at second 4, and callbacks that leave the event alone: the one with
  number 1 is done after its first call, the others go on. The state counts the calls.
\<close>

definition demo_env :: "timeval \<Rightarrow> nat event_env" where
  "demo_env now = \<lparr>e_io = (\<lambda>f fd d s. Some (0, s)),
     e_timer = (\<lambda>f d (ev, w, st). Some (if f = 1 then 1 else 0, ev, w, st + 1)),
     e_now = (\<lambda>st. (Inr now, st)),
     e_select = (\<lambda>n r w t st. (Inr (r, w, \<lparr>tv_sec = 0, tv_usec = 0\<rparr>), st))\<rparr>"

definition demo_event :: "(nat \<Rightarrow> EventTimeout option) \<Rightarrow> nat list \<Rightarrow> Event" where
  "demo_event ets ps = \<lparr>ev_loop = 1, ev_fdmax = - 1, ev_rfds = {}, ev_wfds = {}, ev_reads = [], ev_writes = [],
     ev_timeouts = ps, ev_timeout = forever, ev_eios = Map.empty, ev_ets = ets, ev_next = 10\<rparr>"

definition demo_timer :: "nat \<Rightarrow> timeval \<Rightarrow> EventTimeout" where
  "demo_timer f t = \<lparr>et_initial = \<lparr>tv_sec = 2, tv_usec = 0\<rparr>, et_timeout = t, et_func = f, et_data = 0\<rparr>"

theorem loop_timeout_fires_witness:
  "\<exists>ev'. loop_timeout (demo_env \<lparr>tv_sec = 4, tv_usec = 0\<rparr>)
      (demo_event [1 \<mapsto> demo_timer 1 \<lparr>tv_sec = 3, tv_usec = 0\<rparr>, 2 \<mapsto> demo_timer 2 \<lparr>tv_sec = 4, tv_usec = 0\<rparr>,
         3 \<mapsto> demo_timer 1 \<lparr>tv_sec = 5, tv_usec = 0\<rparr>] [1, 2, 3], world0, 0) = Some (0, ev', world0, 2)
    \<and> ev_timeouts ev' = [2, 3]"
proof -
  let ?ets = "[1 \<mapsto> demo_timer 1 \<lparr>tv_sec = 3, tv_usec = 0\<rparr>, 2 \<mapsto> demo_timer 2 \<lparr>tv_sec = 4, tv_usec = 0\<rparr>,
         3 \<mapsto> demo_timer 1 \<lparr>tv_sec = 5, tv_usec = 0\<rparr>]"
  let ?cb = "\<lambda>f (d :: nat) (w :: world, st :: nat). (if f = 1 then 1 else 0 :: int, w, st + 1)"
  have "fire ?cb \<lparr>tv_sec = 4, tv_usec = 0\<rparr> (ev_ets (demo_event ?ets [1, 2, 3])) (ev_timeouts (demo_event ?ets [1, 2, 3]))
      (world0, 0) = ([2, 3], world0, 2)"
    by (simp add: demo_event_def demo_timer_def due_def Let_def)
  from loop_timeout_fires [of "demo_env \<lparr>tv_sec = 4, tv_usec = 0\<rparr>", OF _ _ _ _ _ this]
  show ?thesis by (fastforce simp: demo_env_def demo_event_def demo_timer_def et_times_ok_def time_in_range_def)
qed

text \<open>
  when the next timeout is \<open>s\<close> seconds away with fewer microseconds than the current time,
  \<open>_loop_timeout\<close> borrows a second but sets the microseconds to \<open>now - timeout\<close> instead of
  \<open>1000000 + timeout - now\<close>: the wait is wrong by twice the difference less a second.
\<close>

theorem loop_timeout_borrow:
  assumes "e_now env st = (Inr now, st1)" "ev_timeouts ev = [p]" "ev_ets ev p = Some et"
    and "tv_sec now < tv_sec (et_timeout et)" "tv_usec (et_timeout et) < tv_usec now"
    and "time_in_range now" "time_in_range (et_timeout et)"
  shows "\<exists>ev'. loop_timeout env (ev, w, st) = Some (0, ev', w, st1)
    \<and> tv_sec (ev_timeout ev') * 1000000 + tv_usec (ev_timeout ev') =
      (tv_sec (et_timeout et) - tv_sec now) * 1000000 + (tv_usec (et_timeout et) - tv_usec now)
      + (2 * (tv_usec now - tv_usec (et_timeout et)) - 1000000)"
proof -
  let ?ev = "ev\<lparr>ev_timeout := forever\<rparr>"
  have "tv_sec (et_timeout et) - tv_sec now < LONG_MAX"
    using assms(6,7) by (auto simp: time_in_range_def LONG_MAX_def)
  then have wait: "wait_for now et ?ev = Some (?ev\<lparr>ev_timeout := wait_value now et\<rparr>)"
    using assms(6,7) by (simp add: wait_for_value forever_def)
  have "timeouts_loop env now 0 (?ev, w, st1) = Some (?ev\<lparr>ev_timeout := wait_value now et\<rparr>, w, st1)"
    using assms(2-4) by (subst timeouts_loop.simps, simp add: due_def wait, subst timeouts_loop.simps, simp)
  then show ?thesis using assms
    by (simp add: loop_timeout_def wait_value_def)
qed

theorem loop_timeout_borrow_witness:
  "\<exists>ev'. loop_timeout (demo_env \<lparr>tv_sec = 4, tv_usec = 900000\<rparr>)
      (demo_event [1 \<mapsto> demo_timer 1 \<lparr>tv_sec = 6, tv_usec = 0\<rparr>] [1], world0, 0) = Some (0, ev', world0, 0)
    \<and> tv_sec (ev_timeout ev') * 1000000 + tv_usec (ev_timeout ev') =
      (6 - 4) * 1000000 + (0 - 900000) + (2 * (900000 - 0) - 1000000)"
  using loop_timeout_borrow [of "demo_env \<lparr>tv_sec = 4, tv_usec = 900000\<rparr>" 0 "\<lparr>tv_sec = 4, tv_usec = 900000\<rparr>" 0
      "demo_event [1 \<mapsto> demo_timer 1 \<lparr>tv_sec = 6, tv_usec = 0\<rparr>] [1]" 1 "demo_timer 1 \<lparr>tv_sec = 6, tv_usec = 0\<rparr>" world0]
  by (simp add: demo_env_def demo_event_def demo_timer_def time_in_range_def)

text \<open>
  \<open>event_delete\<close> works for an event without timeouts; with one or more it frees the objects of
  \<open>writes\<close> (or an indeterminate pointer) in place of those of \<open>timeouts\<close>, and so frees an object
  twice.
\<close>

theorem event_delete_timeouts:
  assumes "ev_inv ev"
  shows "event_delete ev = None \<longleftrightarrow> ev_timeouts ev \<noteq> []"
proof (cases "ev_timeouts ev")
  case Nil
  have dist: "distinct (ev_reads ev)" "distinct (ev_writes ev)" "set (ev_reads ev) \<inter> set (ev_writes ev) = {}"
    and alloc: "\<forall>p \<in> set (ev_reads ev). ev_eios ev p \<noteq> None" "\<forall>p \<in> set (ev_writes ev). ev_eios ev p \<noteq> None"
    using assms by (auto simp: ev_inv_def)
  obtain ev1 where ev1: "delete_eios (ev_reads ev) ev = Some ev1" "ev_writes ev1 = ev_writes ev"
    "\<forall>q. q \<notin> set (ev_reads ev) \<longrightarrow> ev_eios ev1 q = ev_eios ev q"
    using delete_eios_ok [OF dist(1) alloc(1)] by blast
  have "\<forall>p \<in> set (ev_writes ev). ev_eios ev1 p \<noteq> None" using ev1(3) alloc(2) dist(3) by auto
  from delete_eios_ok [OF dist(2) this] ev1 Nil show ?thesis by (auto simp: event_delete_def)
next
  case (Cons p ps)
  have "event_delete ev = None"
  proof (cases "ev_writes ev")
    case Nil
    with Cons show ?thesis by (simp add: event_delete_def larr_get_def)
  next
    case (Cons q qs)
    obtain n where n: "length (ev_timeouts ev) = Suc n" using \<open>ev_timeouts ev = p # ps\<close> by simp
    have q: "ev_eios ev q \<noteq> None" using assms Cons by (simp add: ev_inv_def)
    show ?thesis
    proof (rule ccontr)
      assume "event_delete ev \<noteq> None"
      with n q Cons obtain ev1 ev2 ev3 where
        d: "delete_timeouts n (Some q) 1 (ev\<lparr>ev_eios := (ev_eios ev)(q := None)\<rparr>) = Some ev1"
          "delete_eios (ev_reads ev1) ev1 = Some ev2" "delete_eios (ev_writes ev2) ev2 = Some ev3"
        by (auto simp: event_delete_def larr_get_def free_eio_def split: bind_splits)
      from delete_timeouts_mono [OF d(1)] delete_eios_mono [OF d(2)] delete_eios_mono [OF d(3)] Cons
      show False by auto
    qed
  qed
  with Cons show ?thesis by simp
qed

theorem event_delete_timeouts_witness:
  "event_delete event_one_reader \<noteq> None
    \<and> event_delete (event_one_reader\<lparr>ev_timeouts := [5], ev_ets := [5 \<mapsto> demo_timer 1 forever]\<rparr>) = None"
proof -
  let ?ev = "event_one_reader\<lparr>ev_timeouts := [5], ev_ets := [5 \<mapsto> demo_timer 1 forever]\<rparr>"
  have "ev_inv event_one_reader" using event_run_inv [OF event_one_reader_run] by blast
  then have "ev_inv ?ev" by (simp add: ev_inv_def)
  moreover have "ev_timeouts event_one_reader = []" by (simp add: event_one_reader_def)
  ultimately show ?thesis
    using event_delete_timeouts [of event_one_reader] event_delete_timeouts [of ?ev]
      \<open>ev_inv event_one_reader\<close> by simp
qed

end
