(* ===== verification/Sys_Buffer.thy ===== *)
theory Sys_Buffer
  imports Sys_Array
begin

text \<open>
  The byte buffer of \<open>libSystem/src/buffer.c\<close>. The block's length is \<open>buf_size\<close> as long as the
  buffer is only changed by these operations (\<open>buffer_wf\<close>); \<open>offset + size\<close> is computed modulo
  \<open>2^64\<close>, as the code computes it.
\<close>

record Buffer =
  buf_size :: nat
  buf_data :: string

text \<open>The outer option is \<open>None\<close> when the caller's data is shorter than \<open>size\<close>.\<close>

definition buffer_new :: "nat \<Rightarrow> string option \<Rightarrow> world \<Rightarrow> (Buffer option \<times> world) option" where
  "buffer_new sz data w =
     (case object_new 16 w of
        (False, w1) \<Rightarrow> Some (None, w1)
      | (True, w1) \<Rightarrow>
          (case object_new sz w1 of
             (ok, w2) \<Rightarrow>
               if \<not> ok \<and> sz \<noteq> 0 then Some (None, w2)
               else case data of
                 None \<Rightarrow> Some (Some \<lparr>buf_size = sz, buf_data = replicate sz NUL\<rparr>, w2)
               | Some d \<Rightarrow>
                   do { bs \<leftarrow> read_block d 0 sz; Some (Some \<lparr>buf_size = sz, buf_data = bs\<rparr>, w2) }))"

definition buffer_get_data :: "Buffer \<Rightarrow> string" where
  "buffer_get_data b = buf_data b"

definition buffer_get_size :: "Buffer \<Rightarrow> nat" where
  "buffer_get_size b = buf_size b"

definition buffer_set_size ::
  "(nat \<Rightarrow> char) \<Rightarrow> Buffer \<Rightarrow> nat \<Rightarrow> world \<Rightarrow> (int \<times> Buffer \<times> world) option" where
  "buffer_set_size junk b sz w =
     (case w_alloc w of
        (ok, w') \<Rightarrow>
          if \<not> ok \<and> sz \<noteq> 0 then Some (1, b, fail_errno (errno w') w')
          else
            let p = realloc_block junk (buf_data b) sz in
            if sz > buf_size b then
              do { q \<leftarrow> write_block p (buf_size b) (replicate (sz - buf_size b) NUL);
                   Some (0, b\<lparr>buf_data := q, buf_size := sz\<rparr>, w') }
            else Some (0, b\<lparr>buf_data := p, buf_size := sz\<rparr>, w'))"

definition buffer_set_data ::
  "(nat \<Rightarrow> char) \<Rightarrow> Buffer \<Rightarrow> nat \<Rightarrow> string \<Rightarrow> nat \<Rightarrow> world \<Rightarrow> (int \<times> Buffer \<times> world) option" where
  "buffer_set_data junk b off data sz w =
     do { (r, b', w') \<leftarrow>
            (if szt (off + sz) > buf_size b then buffer_set_size junk b (szt (off + sz)) w
             else Some (0, b, w));
          if r \<noteq> 0 then Some (1, b', w')
          else do { bs \<leftarrow> read_block data 0 sz; v \<leftarrow> write_block (buf_data b') off bs;
                    Some (0, b'\<lparr>buf_data := v\<rparr>, w') } }"

section \<open>Facts\<close>

definition buffer_wf :: "Buffer \<Rightarrow> bool" where
  "buffer_wf b \<longleftrightarrow> length (buf_data b) = buf_size b"

lemma buffer_new_wf: "buffer_new sz data w = Some (Some b, w') \<Longrightarrow> buffer_wf b \<and> buf_size b = sz"
  by (auto simp: buffer_new_def buffer_wf_def read_block_def Option.bind_eq_Some_conv
      split: prod.splits bool.splits if_splits option.splits)

text \<open>The buffer resized: cut, or filled with zeroes.\<close>

definition resized :: "string \<Rightarrow> nat \<Rightarrow> string" where
  "resized d n = take n d @ replicate (n - length d) NUL"

lemma length_resized [simp]: "length (resized d n) = n"
  by (simp add: resized_def)

lemma buffer_set_size_ok:
  assumes "buffer_wf b" "w_alloc w = (True, w')"
  shows "buffer_set_size junk b n w = Some (0, \<lparr>buf_size = n, buf_data = resized (buf_data b) n\<rparr>, w')"
proof -
  let ?d = "buf_data b"
  have "realloc_block junk ?d n = take n ?d" if "n \<le> length ?d"
    using that by (intro nth_equalityI) (auto simp: realloc_block_def)
  moreover have "blit (realloc_block junk ?d n) (length ?d) (replicate (n - length ?d) NUL) = resized ?d n"
    if "length ?d < n"
    using that by (intro nth_equalityI) (auto simp: nth_blit nth_realloc_block resized_def nth_append)
  ultimately show ?thesis
    using assms by (cases b) (auto simp: buffer_set_size_def buffer_wf_def write_block_def Let_def resized_def)
qed

lemma buffer_set_size_fail:
  "w_alloc w = (False, w') \<Longrightarrow> n \<noteq> 0 \<Longrightarrow>
   buffer_set_size junk b n w = Some (1, b, fail_errno (errno w') w')"
  by (simp add: buffer_set_size_def)

text \<open>
  \<open>buffer_set_data\<close> is a bounded write that grows the buffer: when \<open>offset + size\<close> does not
  overflow and no allocation fails, it succeeds, the written range holds the data, bytes before the
  old size keep their value and a gap between the old size and the offset is zeroed.
\<close>

theorem buffer_set_data_ok:
  assumes wf: "buffer_wf b" and "plenty w" and len: "length data = n" and ov: "off + n < 2 ^ 64"
  shows "\<exists>b' w'. buffer_set_data junk b off data n w = Some (0, b', w') \<and> buffer_wf b'
    \<and> buf_size b' = max (buf_size b) (off + n) \<and> block (buf_data b') off n = data
    \<and> (\<forall>i < buf_size b'. i < off \<or> off + n \<le> i \<longrightarrow>
         buf_data b' ! i = (if i < buf_size b then buf_data b ! i else NUL))"
proof -
  let ?grow = "off + n > buf_size b"
  obtain w1 where w1: "w_alloc w = (True, w1)" using w_alloc_plenty [OF assms(2)] by blast
  define b1 where "b1 = (if ?grow then \<lparr>buf_size = off + n, buf_data = resized (buf_data b) (off + n)\<rparr> else b)"
  have b1: "length (buf_data b1) = buf_size b1" "buf_size b1 = max (buf_size b) (off + n)"
    using wf by (auto simp: b1_def buffer_wf_def)
  have sz: "szt (off + n) = off + n" using ov by (simp add: szt_id)
  have bytes: "buf_data b1 ! i = (if i < buf_size b then buf_data b ! i else NUL)" if "i < buf_size b1" for i
    using that wf by (auto simp: b1_def buffer_wf_def resized_def nth_append)
  let ?v = "blit (buf_data b1) off data"
  have "buffer_set_data junk b off data n w = Some (0, b1\<lparr>buf_data := ?v\<rparr>, if ?grow then w1 else w)"
    using buffer_set_size_ok [OF wf w1, of junk "off + n"] len b1 sz
    by (cases ?grow) (auto simp: buffer_set_data_def b1_def read_block_def write_block_def block_def)
  moreover have "block ?v off n = data"
    using len b1 by (intro block_blit_same) auto
  moreover have "?v ! i = buf_data b1 ! i" if "i < buf_size b1" "i < off \<or> off + n \<le> i" for i
    using that len b1 by (subst nth_blit) auto
  ultimately show ?thesis
    using b1 len bytes by (intro exI [of _ "b1\<lparr>buf_data := ?v\<rparr>"]) (auto simp: buffer_wf_def)
qed

theorem buffer_set_data_ok_witness:
  "\<exists>b' w'. buffer_set_data (\<lambda>_. CHR ''?'') \<lparr>buf_size = 1, buf_data = ''a''\<rparr> 2 ''xy'' 2 world0 = Some (0, b', w')
    \<and> buffer_wf b' \<and> buf_size b' = max (buf_size \<lparr>buf_size = 1, buf_data = ''a''\<rparr>) (2 + 2)
    \<and> block (buf_data b') 2 2 = ''xy''
    \<and> (\<forall>i < buf_size b'. i < 2 \<or> 2 + 2 \<le> i \<longrightarrow>
         buf_data b' ! i = (if i < buf_size \<lparr>buf_size = 1, buf_data = ''a''\<rparr>
           then buf_data \<lparr>buf_size = 1, buf_data = ''a''\<rparr> ! i else NUL))"
  by (rule buffer_set_data_ok) (simp_all add: buffer_wf_def)

text \<open>
  the overflow the code's comment warns about is reachable: when \<open>offset + size\<close> wraps to at
  most the current size, \<open>buffer_set_data\<close> takes no action to grow the buffer and then writes
  outside it.
\<close>

theorem buffer_set_data_overflow:
  assumes "buffer_wf b" "length data = n" "0 < n" "2 ^ 64 \<le> off + n" "off + n < 2 ^ 64 + buf_size b"
    and "buf_size b < 2 ^ 63"
  shows "buffer_set_data junk b off data n w = None"
proof -
  have "szt (off + n) = off + n - 2 ^ 64"
    using assms by (simp add: szt_def mod_if)
  then have "\<not> szt (off + n) > buf_size b"
    using assms(5) by linarith
  moreover have "\<not> off + n \<le> buf_size b"
    using assms(4,6) by simp
  ultimately show ?thesis
    using assms(1,2) by (simp add: buffer_set_data_def buffer_wf_def read_block_def write_block_def block_def)
qed

theorem buffer_set_data_overflow_witness:
  "buffer_set_data (\<lambda>_. NUL) \<lparr>buf_size = 2, buf_data = ''ab''\<rparr> (2 ^ 64 - 1) ''xy'' 2 world0 = None"
  by (rule buffer_set_data_overflow) (simp_all add: buffer_wf_def)

end
