(* ===== verification/Libc_Alloc.thy ===== *)
theory Libc_Alloc
  imports Prelude
begin

unbundle bit_operations_syntax

text \<open>
  The allocator of \<open>libc/src/stdlib.c\<close> (\<open>malloc\<close>, \<open>free\<close>, \<open>realloc\<close>, \<open>calloc\<close>) over \<open>sbrk\<close> of
  \<open>libc/src/unistd.c\<close>, at the level of its pointers. Each block is preceded by a header of 24
  bytes with its size and the links to its neighbours; the headers are a store from node to header,
  where a node is \<open>NULL\<close>, the static \<open>_alloc\<close> or an address. The payload bytes are a second store.
  Addresses are integers; the kernel is the parameter \<open>grant\<close>: whether it accepts a new break.
  An access to a header that is not there (or lies behind the break) is \<open>None\<close>, like a loop that
  does not end.

  The results relate this to a list of blocks sorted by address and disjoint (\<open>heap_wf\<close>).
\<close>

datatype aptr = Null | Root | Blk int

record Alloc =
  a_size :: int
  a_prev :: aptr
  a_next :: aptr

record heap =
  hp_hdr :: "aptr \<Rightarrow> Alloc option"
  hp_mem :: "int \<Rightarrow> char"
  hp_brk :: int
  hp_errno :: int
  hp_stderr :: "int list"

definition HEADER :: int where "HEADER = 24"
definition INT_MAX :: int where "INT_MAX = 2 ^ 31 - 1"
definition ENOMEM_HEAP :: int where "ENOMEM_HEAP = 12"

definition addr :: "aptr \<Rightarrow> int" where
  "addr a = (case a of Blk x \<Rightarrow> x | _ \<Rightarrow> 0)"

lemma addr_Blk [simp]: "addr (Blk x) = x"
  by (simp add: addr_def)

section \<open>The operations\<close>

text \<open>\<open>sbrk\<close>: the old break, or \<open>None\<close> for \<open>(void*)-1\<close>. Memory behind a lowered break is gone.\<close>

definition sbrk :: "(int \<Rightarrow> bool) \<Rightarrow> int \<Rightarrow> heap \<Rightarrow> int option \<times> heap" where
  "sbrk grant increment s =
     (if increment = 0 then (Some (hp_brk s), s)
      else if grant (hp_brk s + increment) then
        (Some (hp_brk s),
         s\<lparr>hp_brk := hp_brk s + increment,
           hp_hdr := (\<lambda>a. case a of Blk x \<Rightarrow> if x + HEADER \<le> hp_brk s + increment then hp_hdr s a else None
                                  | _ \<Rightarrow> hp_hdr s a)\<rparr>)
      else (None, s\<lparr>hp_errno := ENOMEM_HEAP\<rparr>))"

text \<open>Updates of one field of a header.\<close>

definition set_hdr :: "aptr \<Rightarrow> (Alloc \<Rightarrow> Alloc) \<Rightarrow> heap \<Rightarrow> heap option" where
  "set_hdr a f s =
     (case hp_hdr s a of None \<Rightarrow> None | Some h \<Rightarrow> Some (s\<lparr>hp_hdr := (hp_hdr s)(a \<mapsto> f h)\<rparr>))"

text \<open>
  The search of \<open>malloc\<close> for a gap: the node it stops at, and whether the gap after it is large
  enough.
\<close>

partial_function (option) malloc_find :: "heap \<Rightarrow> aptr \<Rightarrow> int \<Rightarrow> (aptr \<times> bool) option" where
  "malloc_find s a inc =
     do { h \<leftarrow> hp_hdr s a;
          if a_next h = Null then Some (a, False)
          else if inc \<le> addr (a_next h) - addr a - HEADER - a_size h then Some (a, True)
          else malloc_find s (a_next h) inc }"

text \<open>The last lines of \<open>malloc\<close>, which link the new block \<open>b\<close> behind \<open>a\<close>.\<close>

definition malloc_link :: "aptr \<Rightarrow> aptr \<Rightarrow> int \<Rightarrow> heap \<Rightarrow> (int option \<times> heap) option" where
  "malloc_link a b sz s =
     do { ha \<leftarrow> hp_hdr s a;
          s' \<leftarrow> set_hdr a (\<lambda>h. h\<lparr>a_next := b\<rparr>)
                  (s\<lparr>hp_hdr := (hp_hdr s)(b \<mapsto> \<lparr>a_size = sz, a_prev = a, a_next = a_next ha\<rparr>)\<rparr>);
          Some (Some (addr b + HEADER), s') }"

definition malloc :: "(int \<Rightarrow> bool) \<Rightarrow> int \<Rightarrow> heap \<Rightarrow> (int option \<times> heap) option" where
  "malloc grant size0 s =
     (if size0 \<ge> INT_MAX - HEADER - 8 then Some (None, s\<lparr>hp_errno := ENOMEM_HEAP\<rparr>)
      else
        let sz = (size0 OR 7) + 1;
            inc = sz + HEADER
        in do { root \<leftarrow> hp_hdr s Root;
                (a, found) \<leftarrow> (if a_next root \<noteq> Null then malloc_find s (a_next root) inc
                               else Some (Root, False));
                if found then
                  do { h \<leftarrow> hp_hdr s a;
                       s1 \<leftarrow> set_hdr (a_next h) (\<lambda>hn. hn\<lparr>a_prev := Blk (addr a + HEADER + a_size h)\<rparr>) s;
                       malloc_link a (Blk (addr a + HEADER + a_size h)) sz s1 }
                else
                  (case sbrk grant inc s of
                     (None, s1) \<Rightarrow> Some (None, s1)
                   | (Some cur, s1) \<Rightarrow> malloc_link a (Blk cur) sz s1) })"

text \<open>\<open>hp_stderr\<close> lists the pointers reported as an invalid free. The result of \<open>sbrk\<close> is ignored.\<close>

definition free :: "(int \<Rightarrow> bool) \<Rightarrow> int option \<Rightarrow> heap \<Rightarrow> heap option" where
  "free grant ptr s =
     (case ptr of
        None \<Rightarrow> Some s
      | Some p \<Rightarrow>
          let a = Blk (p - HEADER) in
          do { ha \<leftarrow> hp_hdr s a;
               hb \<leftarrow> hp_hdr s (a_prev ha);
               if a_next hb \<noteq> a then Some (s\<lparr>hp_stderr := hp_stderr s @ [p]\<rparr>)
               else do {
                 s1 \<leftarrow> set_hdr (a_prev ha) (\<lambda>h. h\<lparr>a_next := a_next ha\<rparr>) s;
                 if a_next ha \<noteq> Null then set_hdr (a_next ha) (\<lambda>h. h\<lparr>a_prev := a_prev ha\<rparr>) s1
                 else Some (snd (sbrk grant (- (a_size ha + HEADER)) s1)) } })"

definition copy_bytes :: "int \<Rightarrow> int \<Rightarrow> int \<Rightarrow> (int \<Rightarrow> char) \<Rightarrow> int \<Rightarrow> char" where
  "copy_bytes dst src n m = (\<lambda>x. if dst \<le> x \<and> x < dst + n then m (src + (x - dst)) else m x)"

text \<open>In \<open>realloc\<close> the rounding is done in \<open>size_t\<close>.\<close>

definition realloc :: "(int \<Rightarrow> bool) \<Rightarrow> int option \<Rightarrow> int \<Rightarrow> heap \<Rightarrow> (int option \<times> heap) option" where
  "realloc grant ptr size0 s =
     (case ptr of
        None \<Rightarrow> malloc grant size0 s
      | Some p \<Rightarrow>
          let a = Blk (p - HEADER) in
          do { ha \<leftarrow> hp_hdr s a;
               if size0 = a_size ha then Some (Some p, s)
               else
                 let sz = ((size0 OR 15) + 1) mod 2 ^ 64 in
                 if sz < a_size ha \<or> a_next ha \<noteq> Null \<and> addr (a_next ha) - addr a - HEADER \<ge> sz
                 then do { s' \<leftarrow> set_hdr a (\<lambda>h. h\<lparr>a_size := sz\<rparr>) s; Some (Some p, s') }
                 else do { (r, s1) \<leftarrow> malloc grant sz s;
                           case r of
                             None \<Rightarrow> Some (None, s1)
                           | Some q \<Rightarrow>
                               do { h1 \<leftarrow> hp_hdr s1 a;
                                    s2 \<leftarrow> free grant (Some p)
                                      (s1\<lparr>hp_mem := copy_bytes q p (min (a_size h1) sz) (hp_mem s1)\<rparr>);
                                    Some (Some q, s2) } } })"

text \<open>The assertions of \<open>calloc\<close> are checked in \<open>size_t\<close>; \<open>None\<close> is also a failed assertion.\<close>

definition calloc :: "(int \<Rightarrow> bool) \<Rightarrow> int \<Rightarrow> int \<Rightarrow> heap \<Rightarrow> (int option \<times> heap) option" where
  "calloc grant nmemb size0 s =
     (let sz = (nmemb * size0) mod 2 ^ 64 in
      if \<not> ((nmemb + size0) mod 2 ^ 64 \<ge> max nmemb size0) then None
      else if \<not> (sz \<ge> (nmemb + size0 - 1) mod 2 ^ 64) then None
      else do { (r, s1) \<leftarrow> malloc grant sz s;
                case r of
                  None \<Rightarrow> Some (None, s1)
                | Some p \<Rightarrow>
                    Some (Some p, s1\<lparr>hp_mem := (\<lambda>x. if p \<le> x \<and> x < p + sz then NUL else hp_mem s1 x)\<rparr>) })"

section \<open>Chains of headers\<close>

text \<open>
  \<open>chain h p c ns m\<close>: starting at node \<open>c\<close> with predecessor \<open>p\<close>, the headers link the nodes \<open>ns\<close>
  (with their sizes) in both directions, and the last one points to \<open>m\<close>.
\<close>

fun chain :: "(aptr \<Rightarrow> Alloc option) \<Rightarrow> aptr \<Rightarrow> aptr \<Rightarrow> (aptr \<times> int) list \<Rightarrow> aptr \<Rightarrow> bool" where
  "chain h p c [] m \<longleftrightarrow> c = m"
| "chain h p c ((a, n) # ns) m \<longleftrightarrow>
     c = a \<and> (\<exists>nx. h a = Some \<lparr>a_size = n, a_prev = p, a_next = nx\<rparr> \<and> chain h a nx ns m)"

definition next_of :: "(aptr \<times> int) list \<Rightarrow> aptr \<Rightarrow> aptr" where
  "next_of ns m = (case ns of [] \<Rightarrow> m | n # _ \<Rightarrow> fst n)"

lemma next_of_simps [simp]: "next_of [] m = m" "next_of ((a, n) # ns) m = a"
  by (simp_all add: next_of_def)

lemma chain_head: "chain h p c ns m \<Longrightarrow> c = next_of ns m"
  by (cases ns) auto

lemma chain_cong: "(\<And>a n. (a, n) \<in> set ns \<Longrightarrow> h a = h' a) \<Longrightarrow> chain h p c ns m = chain h' p c ns m"
proof (induction ns arbitrary: p c)
  case (Cons x ns)
  obtain a n where x: "x = (a, n)" by fastforce
  then have "h a = h' a" using Cons.prems [of a n] by simp
  moreover have "chain h q d ns m = chain h' q d ns m" for q d
    using Cons.prems x by (intro Cons.IH) auto
  ultimately show ?case using x by simp
qed simp

lemma chain_at:
  "chain h p c (us @ (a, n) # vs) m \<Longrightarrow>
   h a = Some \<lparr>a_size = n, a_prev = (if us = [] then p else fst (last us)), a_next = next_of vs m\<rparr>"
proof (induction us arbitrary: p c)
  case Nil
  then show ?case by (auto dest: chain_head)
next
  case (Cons u us)
  then show ?case by (cases u) auto
qed

lemma chain_insert:
  assumes "chain h p c (us @ (a, na) # vs) m" "distinct (map fst (us @ (a, na) # vs))"
    and "b \<notin> fst ` set (us @ (a, na) # vs)"
    and "h' a = Some \<lparr>a_size = na, a_prev = (if us = [] then p else fst (last us)), a_next = b\<rparr>"
    and "h' b = Some \<lparr>a_size = sz, a_prev = a, a_next = next_of vs m\<rparr>"
    and "\<And>x n ws. vs = (x, n) # ws \<Longrightarrow> h' x = Some \<lparr>a_size = n, a_prev = b, a_next = next_of ws m\<rparr>"
    and "\<And>x. x \<in> fst ` set (us @ vs) \<Longrightarrow> x \<noteq> next_of vs m \<or> vs = [] \<Longrightarrow> h' x = h x"
  shows "chain h' p c (us @ (a, na) # (b, sz) # vs) m"
  using assms
proof (induction us arbitrary: p c)
  case Nil
  show ?case
  proof (cases vs)
    case Nil
    with Nil.prems show ?thesis by auto
  next
    case (Cons xn ws)
    obtain x n where xn: "xn = (x, n)" by fastforce
    from Nil.prems(1) Cons xn have "chain h x (next_of ws m) ws m" by (auto dest: chain_head)
    moreover have "h' y = h y" if "(y, k) \<in> set ws" for y k
    proof (rule Nil.prems(7))
      have "y \<in> fst ` set ws" using that by (force simp: image_iff)
      then show "y \<in> fst ` set ([] @ vs)" "y \<noteq> next_of vs m \<or> vs = []"
        using Nil.prems(2) Cons xn by auto
    qed
    ultimately have "chain h' x (next_of ws m) ws m" using chain_cong [of ws h' h] by blast
    with Nil.prems Cons xn show ?thesis by auto
  qed
next
  case (Cons u us)
  obtain x n where u: "u = (x, n)" by fastforce
  from Cons.prems(1) u obtain nx where nx: "c = x" "h x = Some \<lparr>a_size = n, a_prev = p, a_next = nx\<rparr>"
    "chain h x nx (us @ (a, na) # vs) m" by auto
  have keep: "x \<in> fst ` set ((u # us) @ vs)" "x \<noteq> next_of vs m \<or> vs = []"
    using Cons.prems(2) u by (auto simp: next_of_def split: list.splits)
  have "chain h' x nx (us @ (a, na) # (b, sz) # vs) m"
    using Cons.prems u by (intro Cons.IH [OF nx(3)]) (auto split: if_splits)
  with nx Cons.prems(7) [OF keep] u show ?case by simp
qed

lemma chain_delete:
  assumes "chain h p c (us @ (a, na) # (b, nb) # vs) m" "distinct (map fst (us @ (a, na) # (b, nb) # vs))"
    and "h' a = Some \<lparr>a_size = na, a_prev = (if us = [] then p else fst (last us)), a_next = next_of vs m\<rparr>"
    and "\<And>x n ws. vs = (x, n) # ws \<Longrightarrow> h' x = Some \<lparr>a_size = n, a_prev = a, a_next = next_of ws m\<rparr>"
    and "\<And>x. x \<in> fst ` set (us @ vs) \<Longrightarrow> x \<noteq> next_of vs m \<or> vs = [] \<Longrightarrow> h' x = h x"
  shows "chain h' p c (us @ (a, na) # vs) m"
  using assms
proof (induction us arbitrary: p c)
  case Nil
  show ?case
  proof (cases vs)
    case Nil
    with Nil.prems show ?thesis by auto
  next
    case (Cons xn ws)
    obtain x n where xn: "xn = (x, n)" by fastforce
    from Nil.prems(1) Cons xn have "chain h x (next_of ws m) ws m" by (auto dest: chain_head)
    moreover have "h' y = h y" if "(y, k) \<in> set ws" for y k
    proof (rule Nil.prems(5))
      have "y \<in> fst ` set ws" using that by (force simp: image_iff)
      then show "y \<in> fst ` set ([] @ vs)" "y \<noteq> next_of vs m \<or> vs = []"
        using Nil.prems(2) Cons xn by auto
    qed
    ultimately have "chain h' x (next_of ws m) ws m" using chain_cong [of ws h' h] by blast
    with Nil.prems Cons xn show ?thesis by auto
  qed
next
  case (Cons u us)
  obtain x n where u: "u = (x, n)" by fastforce
  from Cons.prems(1) u obtain nx where nx: "c = x" "h x = Some \<lparr>a_size = n, a_prev = p, a_next = nx\<rparr>"
    "chain h x nx (us @ (a, na) # (b, nb) # vs) m" by auto
  have keep: "x \<in> fst ` set ((u # us) @ vs)" "x \<noteq> next_of vs m \<or> vs = []"
    using Cons.prems(2) u by (auto simp: next_of_def split: list.splits)
  have "chain h' x nx (us @ (a, na) # vs) m"
    using Cons.prems u by (intro Cons.IH [OF nx(3)]) (auto split: if_splits)
  with nx Cons.prems(5) [OF keep] u show ?case by simp
qed

section \<open>The heap as a list of blocks\<close>

text \<open>Blocks (address of the header, size of the payload), in order and disjoint, between two limits.\<close>

fun fits :: "int \<Rightarrow> (int \<times> int) list \<Rightarrow> int \<Rightarrow> bool" where
  "fits lo [] hi \<longleftrightarrow> lo \<le> hi"
| "fits lo ((x, n) # bs) hi \<longleftrightarrow> lo \<le> x \<and> 0 \<le> n \<and> fits (x + HEADER + n) bs hi"

definition node_of :: "int \<times> int \<Rightarrow> aptr \<times> int" where
  "node_of b = (Blk (fst b), snd b)"

abbreviation nodes :: "(int \<times> int) list \<Rightarrow> (aptr \<times> int) list" where
  "nodes bs \<equiv> (Root, 0) # map node_of bs"

definition heap_wf :: "int \<Rightarrow> heap \<Rightarrow> (int \<times> int) list \<Rightarrow> bool" where
  "heap_wf lo s bs \<longleftrightarrow> 0 < lo \<and> chain (hp_hdr s) Null Root (nodes bs) Null \<and> fits lo bs (hp_brk s)"

lemma fits_le: "fits lo bs hi \<Longrightarrow> lo \<le> hi"
  by (induction lo bs hi rule: fits.induct) (auto simp: HEADER_def)

lemma fits_mono: "fits lo bs hi \<Longrightarrow> lo' \<le> lo \<Longrightarrow> hi \<le> hi' \<Longrightarrow> fits lo' bs hi'"
  by (induction lo bs hi arbitrary: lo' rule: fits.induct) auto

lemma fits_split:
  "fits lo (us @ (x, n) # vs) hi \<longleftrightarrow> fits lo us x \<and> 0 \<le> n \<and> fits (x + HEADER + n) vs hi"
  by (induction us arbitrary: lo) (auto dest: fits_le)

lemma fits_in: "fits lo bs hi \<Longrightarrow> (x, n) \<in> set bs \<Longrightarrow> lo \<le> x \<and> 0 \<le> n \<and> x + HEADER + n \<le> hi"
  by (induction lo bs hi rule: fits.induct) (auto simp: HEADER_def dest: fits_le)

lemma fits_distinct: "fits lo bs hi \<Longrightarrow> distinct (map fst bs)"
proof (induction lo bs hi rule: fits.induct)
  case (2 lo x n bs hi)
  have "x \<notin> fst ` set bs"
  proof
    assume "x \<in> fst ` set bs"
    then obtain k where "(x, k) \<in> set bs" by auto
    with fits_in [of "x + HEADER + n" bs hi x k] 2(2) show False by (simp add: HEADER_def)
  qed
  with 2 show ?case by simp
qed simp

lemma node_of_pair [simp]: "node_of (x, n) = (Blk x, n)"
  by (simp add: node_of_def)

lemma nodes_distinct: "fits lo bs hi \<Longrightarrow> distinct (map fst (nodes bs))"
  using fits_distinct [of lo bs hi] by (auto simp: distinct_map inj_on_def node_of_def)

lemma Blk_nodes [simp]: "Blk x \<in> fst ` set (nodes bs) \<longleftrightarrow> x \<in> fst ` set bs"
  by (force simp: node_of_def)

lemma next_nodes_Null: "next_of (map node_of bs) Null = Null \<longleftrightarrow> bs = []"
  by (cases bs) (auto simp: node_of_def)

text \<open>Looking up the header of a block or of the root.\<close>

lemma heap_wf_at:
  assumes "heap_wf lo s (us @ (x, n) # vs)"
  shows "hp_hdr s (Blk x) = Some \<lparr>a_size = n, a_prev = fst (last (nodes us)),
    a_next = next_of (map node_of vs) Null\<rparr>"
  using chain_at [of "hp_hdr s" Null Root "nodes us" "Blk x" n "map node_of vs" Null] assms
  by (simp add: heap_wf_def)

lemma heap_wf_root:
  "heap_wf lo s bs \<Longrightarrow> hp_hdr s Root = Some \<lparr>a_size = 0, a_prev = Null, a_next = next_of (map node_of bs) Null\<rparr>"
  using chain_at [of "hp_hdr s" Null Root "[]" Root 0 "map node_of bs" Null] by (simp add: heap_wf_def)

section \<open>Searching for a gap\<close>

lemma malloc_find_spec:
  "chain (hp_hdr s) p (next_of (map node_of bs) Null) (map node_of bs) Null \<Longrightarrow> bs \<noteq> [] \<Longrightarrow>
   \<exists>us x n vs. bs = us @ (x, n) # vs \<and> malloc_find s (next_of (map node_of bs) Null) inc = Some (Blk x, vs \<noteq> [])
     \<and> (vs \<noteq> [] \<longrightarrow> inc \<le> fst (hd vs) - x - HEADER - n)"
proof (induction bs arbitrary: p)
  case (Cons b bs)
  obtain x n where b: "b = (x, n)" by fastforce
  with Cons.prems(1) have h: "hp_hdr s (Blk x) = Some \<lparr>a_size = n, a_prev = p, a_next = next_of (map node_of bs) Null\<rparr>"
    "chain (hp_hdr s) (Blk x) (next_of (map node_of bs) Null) (map node_of bs) Null"
    by (auto dest: chain_head)
  show ?case
  proof (cases bs)
    case Nil
    with h(1) b show ?thesis
      by (intro exI [of _ "[]"] exI [of _ x] exI [of _ n]) (subst malloc_find.simps, simp)
  next
    case (Cons c cs)
    obtain y k where c: "c = (y, k)" by fastforce
    show ?thesis
    proof (cases "inc \<le> y - x - HEADER - n")
      case True
      with h(1) b Cons c show ?thesis
        by (intro exI [of _ "[]"] exI [of _ x] exI [of _ n] exI [of _ bs])
          (subst malloc_find.simps, simp add: addr_def)
    next
      case False
      from Cons.IH [OF h(2)] Cons obtain us z l vs where
        ih: "bs = us @ (z, l) # vs" "malloc_find s (next_of (map node_of bs) Null) inc = Some (Blk z, vs \<noteq> [])"
          "vs \<noteq> [] \<longrightarrow> inc \<le> fst (hd vs) - z - HEADER - l" by blast
      have "malloc_find s (Blk x) inc = malloc_find s (next_of (map node_of bs) Null) inc"
        using h(1) Cons c False by (subst malloc_find.simps) (simp add: addr_def)
      with ih b show ?thesis by (intro exI [of _ "b # us"] exI [of _ z] exI [of _ l] exI [of _ vs]) simp
    qed
  qed
qed simp

section \<open>Correctness of the operations\<close>

lemma nodes_last: "nodes us = butlast (nodes us) @ [(fst (last (nodes us)), snd (last (nodes us)))]"
  by (simp only: prod.collapse append_butlast_last_id list.simps not_False_eq_True)

lemma malloc_link_ok:
  assumes wf: "heap_wf lo s (us @ vs)" and fits: "fits lo (us @ (y, sz) # vs) (hp_brk s1)"
    and same: "\<And>x. x \<in> fst ` set (nodes (us @ vs)) \<Longrightarrow> x \<noteq> next_of (map node_of vs) Null \<or> vs = []
      \<Longrightarrow> hp_hdr s1 x = hp_hdr s x"
    and nxt: "\<And>x n ws. vs = (x, n) # ws \<Longrightarrow>
      hp_hdr s1 (Blk x) = Some \<lparr>a_size = n, a_prev = Blk y, a_next = next_of (map node_of ws) Null\<rparr>"
  shows "\<exists>s'. malloc_link (fst (last (nodes us))) (Blk y) sz s1 = Some (Some (y + HEADER), s')
    \<and> heap_wf lo s' (us @ (y, sz) # vs) \<and> hp_mem s' = hp_mem s1 \<and> hp_stderr s' = hp_stderr s1
    \<and> hp_brk s' = hp_brk s1"
proof -
  define a na ns where a: "a = fst (last (nodes us))" "na = snd (last (nodes us))" "ns = butlast (nodes us)"
  have nodes: "nodes us = ns @ [(a, na)]" unfolding a by (rule nodes_last)
  let ?vs = "map node_of vs"
  have whole: "nodes (us @ vs) = ns @ (a, na) # ?vs" using nodes by simp
  have chain: "chain (hp_hdr s) Null Root (ns @ (a, na) # ?vs) Null" "0 < lo"
    using wf unfolding heap_wf_def whole by blast+
  have dist: "distinct (map fst (us @ (y, sz) # vs))" by (rule fits_distinct [OF fits])
  have whole': "nodes (us @ (y, sz) # vs) = ns @ (a, na) # (Blk y, sz) # ?vs" using nodes by simp
  have distn: "distinct (map fst (ns @ (a, na) # ?vs))" "Blk y \<notin> fst ` set (ns @ (a, na) # ?vs)"
    using nodes_distinct [OF fits] unfolding whole' by (force simp: image_iff)+
  have an: "(a, na) \<in> set (nodes us)" using nodes by simp
  have "a \<noteq> next_of ?vs Null \<or> vs = []" using distn(1) by (cases vs) auto
  with same [of a] an chain_at [OF chain(1)] have ha:
    "hp_hdr s1 a = Some \<lparr>a_size = na, a_prev = (if ns = [] then Null else fst (last ns)), a_next = next_of ?vs Null\<rparr>"
    by (force simp: image_iff)
  have ab: "a \<noteq> Blk y" using distn(2) by auto
  let ?b = "\<lparr>a_size = sz, a_prev = a, a_next = next_of ?vs Null\<rparr>"
  let ?ha = "\<lparr>a_size = na, a_prev = (if ns = [] then Null else fst (last ns)), a_next = Blk y\<rparr>"
  let ?h = "(hp_hdr s1)(Blk y \<mapsto> ?b, a \<mapsto> ?ha)"
  have link: "malloc_link a (Blk y) sz s1 = Some (Some (y + HEADER), s1\<lparr>hp_hdr := ?h\<rparr>)"
    using ha ab by (simp add: malloc_link_def set_hdr_def addr_def)
  have "chain ?h Null Root (ns @ (a, na) # (Blk y, sz) # ?vs) Null"
  proof (rule chain_insert [OF chain(1) distn])
    show "?h a = Some \<lparr>a_size = na, a_prev = (if ns = [] then Null else fst (last ns)), a_next = Blk y\<rparr>" by simp
    show "?h (Blk y) = Some \<lparr>a_size = sz, a_prev = a, a_next = next_of ?vs Null\<rparr>" using ab by simp
  next
    fix x n ws
    assume "?vs = (x, n) # ws"
    then obtain x' vs' where v: "vs = (x', n) # vs'" "x = Blk x'" "ws = map node_of vs'" by (cases vs) auto
    with distn nxt [OF v(1)] show "?h x = Some \<lparr>a_size = n, a_prev = Blk y, a_next = next_of ws Null\<rparr>" by auto
  next
    fix x
    assume x: "x \<in> fst ` set (ns @ ?vs)" "x \<noteq> next_of ?vs Null \<or> ?vs = []"
    then have "x \<in> fst ` set (ns @ (a, na) # ?vs)" by auto
    with distn(2) have "x \<noteq> Blk y" by metis
    moreover have "a \<notin> fst ` set (ns @ ?vs)" using distn(1) by (simp add: image_Un image_image)
    with x(1) have "x \<noteq> a" by metis
    moreover have "x \<in> fst ` set (nodes us @ ?vs)" using x(1) by (auto simp: nodes)
    ultimately show "?h x = hp_hdr s x" using same [of x] x(2) by simp
  qed
  with chain(2) fits have "heap_wf lo (s1\<lparr>hp_hdr := ?h\<rparr>) (us @ (y, sz) # vs)"
    unfolding heap_wf_def whole' by simp
  with link show ?thesis unfolding a(1) by auto
qed

lemma sbrk_cases:
  assumes "sbrk grant inc s = (r, s')" "inc \<noteq> 0"
  obtains "r = None" "s' = s\<lparr>hp_errno := ENOMEM_HEAP\<rparr>"
  | "r = Some (hp_brk s)" "hp_brk s' = hp_brk s + inc" "hp_mem s' = hp_mem s" "hp_stderr s' = hp_stderr s"
    "\<And>x. (\<And>y. x = Blk y \<Longrightarrow> y + HEADER \<le> hp_brk s + inc) \<Longrightarrow> hp_hdr s' x = hp_hdr s x"
  using assms by (auto simp: sbrk_def split: if_splits aptr.splits)

lemma heap_wf_errno [simp]: "heap_wf lo (s\<lparr>hp_errno := e\<rparr>) bs = heap_wf lo s bs"
  "heap_wf lo (s\<lparr>hp_mem := m\<rparr>) bs = heap_wf lo s bs" "heap_wf lo (s\<lparr>hp_stderr := t\<rparr>) bs = heap_wf lo s bs"
  by (simp_all add: heap_wf_def)

lemma malloc_spec:
  assumes wf: "heap_wf lo s bs" and sz: "0 \<le> sz"
  shows "\<exists>r s'. malloc grant sz s = Some (r, s') \<and> hp_mem s' = hp_mem s \<and> hp_stderr s' = hp_stderr s
    \<and> (case r of
         None \<Rightarrow> heap_wf lo s' bs
       | Some p \<Rightarrow> (\<exists>us vs n. bs = us @ vs \<and> sz < n \<and> heap_wf lo s' (us @ (p - HEADER, n) # vs)))"
proof (cases "sz \<ge> INT_MAX - HEADER - 8")
  case True
  with wf show ?thesis by (simp add: malloc_def)
next
  case False
  define n where "n = (sz OR 7) + 1"
  have n: "sz < n" using or_greater_eq [of 7 sz] by (simp add: n_def)
  let ?inc = "n + HEADER"
  have inc: "?inc > 0" using n sz by (simp add: HEADER_def)
  note root = heap_wf_root [OF wf]
  define end_case where "end_case a = (case sbrk grant ?inc s of
      (None, s1) \<Rightarrow> Some (None, s1) | (Some cur, s1) \<Rightarrow> malloc_link a (Blk cur) n s1)" for a
  have at_end: "\<exists>r s'. end_case (fst (last (nodes bs))) = Some (r, s') \<and> hp_mem s' = hp_mem s
      \<and> hp_stderr s' = hp_stderr s \<and> (case r of None \<Rightarrow> heap_wf lo s' bs
       | Some p \<Rightarrow> (\<exists>us vs k. bs = us @ vs \<and> sz < k \<and> heap_wf lo s' (us @ (p - HEADER, k) # vs)))"
  proof -
    obtain r s1 where sb: "sbrk grant ?inc s = (r, s1)" by fastforce
    then show ?thesis
    proof (rule sbrk_cases)
      show "?inc \<noteq> 0" using inc by simp
    next
      assume "r = None" "s1 = s\<lparr>hp_errno := ENOMEM_HEAP\<rparr>"
      with sb wf show ?thesis by (simp add: end_case_def)
    next
      assume some: "r = Some (hp_brk s)" "hp_brk s1 = hp_brk s + ?inc" "hp_mem s1 = hp_mem s"
        "hp_stderr s1 = hp_stderr s"
        "\<And>x. (\<And>y. x = Blk y \<Longrightarrow> y + HEADER \<le> hp_brk s + ?inc) \<Longrightarrow> hp_hdr s1 x = hp_hdr s x"
      have fits: "fits lo (bs @ [(hp_brk s, n)]) (hp_brk s1)"
        using wf n sz some(2) fits_split [of lo bs "hp_brk s" n "[]"] by (simp add: heap_wf_def)
      have "hp_hdr s1 x = hp_hdr s x" if "x \<in> fst ` set (nodes (bs @ []))" for x
      proof (rule some(5))
        fix y
        assume "x = Blk y"
        with that have "y \<in> fst ` set bs" by (force simp: node_of_def)
        then obtain k where "(y, k) \<in> set bs" by auto
        with fits_in [of lo bs "hp_brk s" y k] wf inc show "y + HEADER \<le> hp_brk s + ?inc"
          by (simp add: heap_wf_def)
      qed
      with malloc_link_ok [of lo s bs "[]" "hp_brk s" n s1] wf fits obtain s' where
        "malloc_link (fst (last (nodes bs))) (Blk (hp_brk s)) n s1 = Some (Some (hp_brk s + HEADER), s')"
        "heap_wf lo s' (bs @ [(hp_brk s, n)])" "hp_mem s' = hp_mem s1" "hp_stderr s' = hp_stderr s1"
        by auto
      moreover from this have "\<exists>us vs k. bs = us @ vs \<and> sz < k
          \<and> heap_wf lo s' (us @ (hp_brk s + HEADER - HEADER, k) # vs)"
        using n by - (rule exI [of _ bs], rule exI [of _ "[]"], rule exI [of _ n], simp)
      ultimately show ?thesis using sb some(1,3,4) by (simp add: end_case_def)
    qed
  qed
  show ?thesis
  proof (cases bs)
    case Nil
    with root False at_end show ?thesis
      by (simp add: malloc_def Let_def n_def [symmetric] end_case_def)
  next
    case (Cons b0 bs0)
    have "chain (hp_hdr s) Root (next_of (map node_of bs) Null) (map node_of bs) Null" "bs \<noteq> []"
      using wf root Cons by (simp_all add: heap_wf_def)
    from malloc_find_spec [OF this, of ?inc] obtain us x k vs where
      find: "bs = us @ (x, k) # vs" "malloc_find s (next_of (map node_of bs) Null) ?inc = Some (Blk x, vs \<noteq> [])"
        "vs \<noteq> [] \<longrightarrow> ?inc \<le> fst (hd vs) - x - HEADER - k" by blast
    have ne: "next_of (map node_of bs) Null \<noteq> Null" using \<open>bs \<noteq> []\<close> next_nodes_Null [of bs] by blast
    have last: "last (nodes (us @ [(x, k)])) = (Blk x, k)" by simp
    show ?thesis
    proof (cases vs)
      case Nil
      with find last have fl: "fst (last (nodes bs)) = Blk x" by simp
      have "malloc grant sz s = end_case (Blk x)"
        using root False ne find(2) Nil by (simp add: malloc_def Let_def n_def [symmetric] end_case_def)
      with at_end [unfolded fl] show ?thesis by simp
    next
      case (Cons v ws)
      obtain y l where v: "v = (y, l)" by fastforce
      have hx: "hp_hdr s (Blk x) = Some \<lparr>a_size = k, a_prev = fst (last (nodes us)), a_next = Blk y\<rparr>"
        using heap_wf_at [of lo s us x k vs] wf find(1) Cons v by simp
      have hy: "hp_hdr s (Blk y) = Some \<lparr>a_size = l, a_prev = Blk x, a_next = next_of (map node_of ws) Null\<rparr>"
        using heap_wf_at [of lo s "us @ [(x, k)]" y l ws] wf find(1) Cons v by simp
      let ?z = "x + HEADER + k"
      define s1 where "s1 = s\<lparr>hp_hdr := (hp_hdr s)(Blk y \<mapsto>
          \<lparr>a_size = l, a_prev = Blk ?z, a_next = next_of (map node_of ws) Null\<rparr>)\<rparr>"
      have fits: "fits lo ((us @ [(x, k)]) @ (?z, n) # vs) (hp_brk s1)"
        using wf find(1,3) Cons v n sz by (auto simp: heap_wf_def fits_split s1_def algebra_simps)
      have "\<exists>s'. malloc_link (fst (last (nodes (us @ [(x, k)])))) (Blk ?z) n s1 = Some (Some (?z + HEADER), s')
        \<and> heap_wf lo s' ((us @ [(x, k)]) @ (?z, n) # vs) \<and> hp_mem s' = hp_mem s1 \<and> hp_stderr s' = hp_stderr s1
        \<and> hp_brk s' = hp_brk s1"
      proof (rule malloc_link_ok [of lo s])
        show "heap_wf lo s ((us @ [(x, k)]) @ vs)" using wf find(1) by simp
        show "fits lo ((us @ [(x, k)]) @ (?z, n) # vs) (hp_brk s1)" by (rule fits)
      next
        fix q
        assume "q \<noteq> next_of (map node_of vs) Null \<or> vs = []"
        then show "hp_hdr s1 q = hp_hdr s q" using Cons v by (simp add: s1_def)
      next
        fix q j qs
        assume "vs = (q, j) # qs"
        then show "hp_hdr s1 (Blk q) = Some \<lparr>a_size = j, a_prev = Blk ?z, a_next = next_of (map node_of qs) Null\<rparr>"
          using Cons v by (simp add: s1_def)
      qed
      then obtain s' where s': "malloc_link (Blk x) (Blk ?z) n s1 = Some (Some (?z + HEADER), s')"
        "heap_wf lo s' ((us @ [(x, k)]) @ (?z, n) # vs)" "hp_mem s' = hp_mem s1" "hp_stderr s' = hp_stderr s1"
        by auto
      have "malloc grant sz s = Some (Some (?z + HEADER), s')"
        using False root ne find(2) Cons hx hy s'(1)
        by (simp add: malloc_def Let_def n_def [symmetric] set_hdr_def s1_def addr_def)
      moreover have "\<exists>us vs n. bs = us @ vs \<and> sz < n \<and> heap_wf lo s' (us @ (?z + HEADER - HEADER, n) # vs)"
        using s'(2) n find(1) by - (rule exI [of _ "us @ [(x, k)]"], rule exI [of _ vs], rule exI [of _ n], simp add: algebra_simps)
      ultimately show ?thesis using s'(3,4) by (simp add: s1_def)
    qed
  qed
qed

lemma free_spec:
  assumes wf: "heap_wf lo s (us @ (x, n) # vs)"
  shows "\<exists>s'. free grant (Some (x + HEADER)) s = Some s' \<and> heap_wf lo s' (us @ vs) \<and> hp_mem s' = hp_mem s
    \<and> hp_stderr s' = hp_stderr s \<and> (vs \<noteq> [] \<longrightarrow> hp_hdr s' (Blk x) = hp_hdr s (Blk x))"
proof -
  define a na ns where a: "a = fst (last (nodes us))" "na = snd (last (nodes us))" "ns = butlast (nodes us)"
  have nodes: "nodes us = ns @ [(a, na)]" unfolding a by (rule nodes_last)
  let ?vs = "map node_of vs"
  have whole: "nodes (us @ (x, n) # vs) = ns @ (a, na) # (Blk x, n) # ?vs"
    "nodes (us @ vs) = ns @ (a, na) # ?vs" using nodes by simp_all
  have chain: "chain (hp_hdr s) Null Root (ns @ (a, na) # (Blk x, n) # ?vs) Null" "0 < lo"
    and fits: "fits lo (us @ (x, n) # vs) (hp_brk s)"
    using wf unfolding heap_wf_def whole by blast+
  have dist: "distinct (map fst (ns @ (a, na) # (Blk x, n) # ?vs))"
    using nodes_distinct [OF fits] unfolding whole .
  have hx: "hp_hdr s (Blk x) = Some \<lparr>a_size = n, a_prev = a, a_next = next_of ?vs Null\<rparr>"
    using heap_wf_at [OF wf] by (simp add: a)
  let ?p = "if ns = [] then Null else fst (last ns)"
  have ha: "hp_hdr s a = Some \<lparr>a_size = na, a_prev = ?p, a_next = Blk x\<rparr>"
    using chain_at [OF chain(1)] by simp
  have neq: "a \<noteq> Blk x" using dist by auto
  let ?h1 = "(hp_hdr s)(a \<mapsto> \<lparr>a_size = na, a_prev = ?p, a_next = next_of ?vs Null\<rparr>)"
  show ?thesis
  proof (cases vs)
    case Nil
    let ?s1 = "s\<lparr>hp_hdr := ?h1\<rparr>"
    have run: "free grant (Some (x + HEADER)) s = Some (snd (sbrk grant (- (n + HEADER)) ?s1))"
      using hx ha Nil by (simp add: free_def Let_def set_hdr_def)
    have chain1: "chain h' Null Root (ns @ [(a, na)]) Null"
      if "\<And>y. y \<in> fst ` set (ns @ [(a, na)]) \<Longrightarrow> h' y = ?h1 y" for h'
    proof -
      have "a \<in> fst ` set (ns @ [(a, na)])" by simp
      from that [OF this] have "h' a = Some \<lparr>a_size = na, a_prev = ?p, a_next = Null\<rparr>" using Nil by simp
      moreover have "h' y = hp_hdr s y" if "y \<in> fst ` set (ns @ [])" for y
        using \<open>\<And>y. y \<in> fst ` set (ns @ [(a, na)]) \<Longrightarrow> h' y = ?h1 y\<close> [of y] that dist by auto
      ultimately show ?thesis
        using chain_delete [of "hp_hdr s" Null Root ns a na "Blk x" n "[]" Null h'] chain(1) dist Nil by auto
    qed
    obtain r s2 where sb: "sbrk grant (- (n + HEADER)) ?s1 = (r, s2)" by fastforce
    have n: "0 \<le> n" using fits by (simp add: fits_split)
    from sb have "heap_wf lo s2 us \<and> hp_mem s2 = hp_mem s \<and> hp_stderr s2 = hp_stderr s"
    proof (rule sbrk_cases)
      show "- (n + HEADER) \<noteq> 0" using n by (simp add: HEADER_def)
    next
      assume "s2 = ?s1\<lparr>hp_errno := ENOMEM_HEAP\<rparr>"
      moreover have "fits lo us (hp_brk s)"
        using fits n Nil fits_mono [of lo us x lo "hp_brk s"] by (simp add: fits_split HEADER_def)
      moreover have "chain ?h1 Null Root (ns @ [(a, na)]) Null" by (rule chain1) simp
      ultimately show ?thesis using chain(2) unfolding heap_wf_def nodes by simp
    next
      assume some: "hp_brk s2 = hp_brk ?s1 + - (n + HEADER)" "hp_mem s2 = hp_mem ?s1" "hp_stderr s2 = hp_stderr ?s1"
        "\<And>y. (\<And>z. y = Blk z \<Longrightarrow> z + HEADER \<le> hp_brk ?s1 + - (n + HEADER)) \<Longrightarrow> hp_hdr s2 y = hp_hdr ?s1 y"
      have brk: "x \<le> hp_brk s2" "fits lo us x" using fits some(1) Nil by (auto simp: fits_split)
      have "chain (hp_hdr s2) Null Root (ns @ [(a, na)]) Null"
      proof (rule chain1)
        fix y
        assume y: "y \<in> fst ` set (ns @ [(a, na)])"
        have "hp_hdr s2 y = hp_hdr ?s1 y"
        proof (rule some(4))
          fix z
          assume "y = Blk z"
          with y have "z \<in> fst ` set us" unfolding nodes [symmetric] by (force simp: node_of_def)
          then obtain k where "(z, k) \<in> set us" by auto
          with fits_in [OF brk(2)] brk(1) some(1) show "z + HEADER \<le> hp_brk ?s1 + - (n + HEADER)" by fastforce
        qed
        then show "hp_hdr s2 y = ?h1 y" by simp
      qed
      moreover have "fits lo us (hp_brk s2)" using brk fits_mono by blast
      ultimately show ?thesis using chain(2) some(2,3) unfolding heap_wf_def nodes by simp
    qed
    with run sb Nil show ?thesis by simp
  next
    case (Cons v ws)
    obtain y k where v: "v = (y, k)" by fastforce
    have hy: "hp_hdr s (Blk y) = Some \<lparr>a_size = k, a_prev = Blk x, a_next = next_of (map node_of ws) Null\<rparr>"
      using heap_wf_at [of lo s "us @ [(x, n)]" y k ws] wf Cons v by simp
    have ay: "Blk y \<noteq> a" "Blk y \<noteq> Blk x" using dist Cons v by auto
    let ?h2 = "?h1(Blk y \<mapsto> \<lparr>a_size = k, a_prev = a, a_next = next_of (map node_of ws) Null\<rparr>)"
    have run: "free grant (Some (x + HEADER)) s = Some (s\<lparr>hp_hdr := ?h2\<rparr>)"
      using hx ha hy ay Cons v by (simp add: free_def Let_def set_hdr_def)
    have "chain ?h2 Null Root (ns @ (a, na) # ?vs) Null"
    proof (rule chain_delete [OF chain(1) dist])
      show "?h2 a = Some \<lparr>a_size = na, a_prev = ?p, a_next = next_of ?vs Null\<rparr>" using ay by simp
    next
      fix z l zs
      assume "?vs = (z, l) # zs"
      then show "?h2 z = Some \<lparr>a_size = l, a_prev = a, a_next = next_of zs Null\<rparr>" using Cons v by auto
    next
      fix z
      assume z: "z \<in> fst ` set (ns @ ?vs)" "z \<noteq> next_of ?vs Null \<or> ?vs = []"
      moreover have "a \<notin> fst ` set (ns @ ?vs)" using dist by (simp add: image_Un image_image)
      ultimately have "z \<noteq> a" by metis
      with z(2) show "?h2 z = hp_hdr s z" using Cons v by simp
    qed
    moreover have "fits lo (us @ vs) (hp_brk s)"
      using fits Cons v fits_mono [of lo us x lo y] by (simp add: fits_split HEADER_def)
    ultimately have "heap_wf lo (s\<lparr>hp_hdr := ?h2\<rparr>) (us @ vs)"
      using chain(2) unfolding heap_wf_def whole(2) by simp
    with run neq ay show ?thesis by simp
  qed
qed

lemma chain_resize:
  "chain h p c (us @ (a, n) # vs) m \<Longrightarrow> distinct (map fst (us @ (a, n) # vs)) \<Longrightarrow>
   h' a = map_option (\<lambda>h. h\<lparr>a_size := k\<rparr>) (h a) \<Longrightarrow> (\<And>x. x \<noteq> a \<Longrightarrow> h' x = h x) \<Longrightarrow>
   chain h' p c (us @ (a, k) # vs) m"
proof (induction us arbitrary: p c)
  case Nil
  then have "chain h' a nx vs m = chain h a nx vs m" for nx
    by (intro chain_cong) force
  with Nil show ?case by auto
next
  case (Cons u us)
  then show ?case by (cases u) auto
qed

lemma heap_wf_resize:
  assumes wf: "heap_wf lo s (us @ (x, n) # vs)" and k: "0 \<le> k"
    and room: "k \<le> n \<or> (\<exists>y l ws. vs = (y, l) # ws \<and> x + HEADER + k \<le> y)"
  shows "\<exists>h. hp_hdr s (Blk x) = Some h \<and> heap_wf lo (s\<lparr>hp_hdr := (hp_hdr s)(Blk x \<mapsto> h\<lparr>a_size := k\<rparr>)\<rparr>) (us @ (x, k) # vs)"
proof -
  have fits: "fits lo (us @ (x, n) # vs) (hp_brk s)" using wf by (simp add: heap_wf_def)
  have "fits lo (us @ (x, k) # vs) (hp_brk s)"
    using fits room k fits_mono [of "x + HEADER + n" vs "hp_brk s" "x + HEADER + k" "hp_brk s"]
    by (auto simp: fits_split)
  moreover have whole: "nodes (us @ (x, j) # vs) = nodes us @ (Blk x, j) # map node_of vs" for j by simp
  have "chain (hp_hdr s) Null Root (nodes us @ (Blk x, n) # map node_of vs) Null" "0 < lo"
    using wf unfolding heap_wf_def whole by blast+
  moreover have "distinct (map fst (nodes us @ (Blk x, n) # map node_of vs))"
    using nodes_distinct [OF fits] unfolding whole .
  ultimately show ?thesis
    using chain_resize [of "hp_hdr s" Null Root "nodes us" "Blk x" n "map node_of vs" Null
        "(hp_hdr s)(Blk x \<mapsto> (the (hp_hdr s (Blk x)))\<lparr>a_size := k\<rparr>)" k] heap_wf_at [OF wf]
    unfolding heap_wf_def whole by simp
qed

lemma fits_disjoint:
  "fits lo bs hi \<Longrightarrow> (x, n) \<in> set bs \<Longrightarrow> (y, k) \<in> set bs \<Longrightarrow> x \<noteq> y \<Longrightarrow>
   x + HEADER + n \<le> y \<or> y + HEADER + k \<le> x"
  by (induction lo bs hi rule: fits.induct) (auto dest: fits_in)

text \<open>The header of the last block after it was freed.\<close>

lemma free_last:
  assumes wf: "heap_wf lo s (us @ [(x, n)])" and run: "free grant (Some (x + HEADER)) s = Some s'"
  shows "hp_hdr s' (Blk x) =
    (if grant (hp_brk s - (n + HEADER)) \<and> hp_brk s - (n + HEADER) < x + HEADER then None else hp_hdr s (Blk x))"
proof -
  define a na ns where a: "a = fst (last (nodes us))" "na = snd (last (nodes us))" "ns = butlast (nodes us)"
  have nodes: "nodes us = ns @ [(a, na)]" unfolding a by (rule nodes_last)
  have whole: "nodes (us @ [(x, n)]) = ns @ (a, na) # (Blk x, n) # []" using nodes by (simp add: node_of_def)
  have chain: "chain (hp_hdr s) Null Root (ns @ (a, na) # (Blk x, n) # []) Null" and fits: "fits lo (us @ [(x, n)]) (hp_brk s)"
    using wf unfolding heap_wf_def whole by blast+
  have neq: "a \<noteq> Blk x" using nodes_distinct [OF fits] unfolding whole by auto
  have hx: "hp_hdr s (Blk x) = Some \<lparr>a_size = n, a_prev = a, a_next = Null\<rparr>" using heap_wf_at [OF wf] by (simp add: a)
  obtain h where ha: "hp_hdr s a = Some h" "a_next h = Blk x" using chain_at [OF chain] by auto
  have n: "0 \<le> n" using fits by (simp add: fits_split)
  define i b where i: "i = - (n + HEADER)" "b = hp_brk s - (n + HEADER)"
  have "i \<noteq> 0" "hp_brk s + i = b" using n by (simp_all add: i HEADER_def)
  moreover from run hx ha have "s' = snd (sbrk grant i (s\<lparr>hp_hdr := (hp_hdr s)(a \<mapsto> h\<lparr>a_next := Null\<rparr>)\<rparr>))"
    by (simp add: free_def Let_def set_hdr_def i)
  ultimately show ?thesis using neq unfolding i(2) [symmetric] by (auto simp: sbrk_def)
qed

text \<open>The rounding of \<open>realloc\<close>, away from the wrap-around.\<close>

lemma round_up: "0 \<le> sz \<Longrightarrow> sz + 16 < 2 ^ 64 \<Longrightarrow> ((sz OR 15) + 1) mod 2 ^ 64 = (sz OR 15) + 1 \<and> sz \<le> sz OR 15"
  for sz :: int
proof -
  assume sz: "0 \<le> sz" "sz + 16 < 2 ^ 64"
  have "(sz AND 15) + (sz OR 15) = sz + 15" by (rule plus_and_or)
  moreover have "0 \<le> sz AND 15" using sz(1) by (intro AND_lower)
  moreover have le: "sz \<le> sz OR 15" by (rule or_greater_eq) simp
  ultimately have "((sz OR 15) + 1) mod 2 ^ 64 = (sz OR 15) + 1"
    using sz by (intro mod_pos_pos_trivial) linarith+
  with le show "((sz OR 15) + 1) mod 2 ^ 64 = (sz OR 15) + 1 \<and> sz \<le> sz OR 15" by blast
qed

definition block_kept :: "heap \<Rightarrow> heap \<Rightarrow> int \<times> int \<Rightarrow> bool" where
  "block_kept s s' b \<longleftrightarrow> (\<forall>i. 0 \<le> i \<and> i < snd b \<longrightarrow>
     hp_mem s' (fst b + HEADER + i) = hp_mem s (fst b + HEADER + i))"

lemma realloc_spec:
  assumes wf: "heap_wf lo s (us @ (x, n) # vs)" and sz: "0 \<le> sz" "sz + 16 < 2 ^ 64"
  shows "\<exists>r s'. realloc grant (Some (x + HEADER)) sz s = Some (r, s')
    \<and> (case r of
         None \<Rightarrow> heap_wf lo s' (us @ (x, n) # vs) \<and> hp_mem s' = hp_mem s
       | Some q \<Rightarrow> (\<exists>bs m. heap_wf lo s' bs \<and> set bs = insert (q - HEADER, m) (set (us @ vs)) \<and> sz \<le> m
           \<and> (\<forall>i. 0 \<le> i \<and> i < min n sz \<longrightarrow> hp_mem s' (q + i) = hp_mem s (x + HEADER + i))
           \<and> (\<forall>b \<in> set (us @ vs). block_kept s s' b)))"
proof -
  define m where "m = (sz OR 15) + 1"
  have m: "((sz OR 15) + 1) mod 2 ^ 64 = m" "sz < m" "0 \<le> m" using round_up [OF sz] sz(1) by (simp_all add: m_def)
  note hx = heap_wf_at [OF wf]
  let ?inplace = "m < n \<or> next_of (map node_of vs) Null \<noteq> Null
    \<and> addr (next_of (map node_of vs) Null) - x - HEADER \<ge> m"
  show ?thesis
  proof (cases "sz = n")
    case True
    then have "realloc grant (Some (x + HEADER)) sz s = Some (Some (x + HEADER), s)"
      using hx by (simp add: realloc_def)
    moreover have "\<exists>bs k. heap_wf lo s bs \<and> set bs = insert (x + HEADER - HEADER, k) (set (us @ vs)) \<and> sz \<le> k
      \<and> (\<forall>b \<in> set (us @ vs). block_kept s s b)"
      using wf True by (intro exI [of _ "us @ (x, n) # vs"] exI [of _ n]) (auto simp: block_kept_def)
    ultimately show ?thesis by auto
  next
    case ne: False
    show ?thesis
    proof (cases ?inplace)
      case True
      then have "m \<le> n \<or> (\<exists>y l ws. vs = (y, l) # ws \<and> x + HEADER + m \<le> y)"
        by (cases vs) (auto simp: node_of_def)
      from heap_wf_resize [OF wf m(3) this] hx have
        wf': "heap_wf lo (s\<lparr>hp_hdr := (hp_hdr s)(Blk x \<mapsto> (the (hp_hdr s (Blk x)))\<lparr>a_size := m\<rparr>)\<rparr>) (us @ (x, m) # vs)"
        (is "heap_wf lo ?s' _") by auto
      have "realloc grant (Some (x + HEADER)) sz s = Some (Some (x + HEADER), ?s')"
        using hx ne True m(1) by (simp add: realloc_def Let_def set_hdr_def)
      moreover have "\<exists>bs k. heap_wf lo ?s' bs \<and> set bs = insert (x + HEADER - HEADER, k) (set (us @ vs)) \<and> sz \<le> k"
        using wf' m(2) by (intro exI [of _ "us @ (x, m) # vs"] exI [of _ m]) auto
      ultimately show ?thesis by (auto simp: block_kept_def)
    next
      case False
      from malloc_spec [OF wf m(3), of grant] obtain r s1 where
        mal: "malloc grant m s = Some (r, s1)" "hp_mem s1 = hp_mem s"
          "case r of None \<Rightarrow> heap_wf lo s1 (us @ (x, n) # vs)
           | Some p \<Rightarrow> (\<exists>us' vs' k. us @ (x, n) # vs = us' @ vs' \<and> m < k \<and> heap_wf lo s1 (us' @ (p - HEADER, k) # vs'))"
        by blast
      show ?thesis
      proof (cases r)
        case None
        with mal hx ne False m(1) show ?thesis by (auto simp: realloc_def Let_def)
      next
        case (Some q)
        with mal(3) obtain us' vs' k where new: "us @ (x, n) # vs = us' @ vs'" "m < k"
          "heap_wf lo s1 (us' @ (q - HEADER, k) # vs')" by auto
        let ?bs = "us' @ (q - HEADER, k) # vs'"
        have fits: "fits lo ?bs (hp_brk s1)" using new(3) by (simp add: heap_wf_def)
        have sets: "set ?bs = insert (q - HEADER, k) (set (us @ (x, n) # vs))" unfolding new(1) by auto
        have dist: "distinct (map fst (us @ (x, n) # vs))" "distinct (map fst ?bs)"
          using wf fits_distinct [of lo "us @ (x, n) # vs" "hp_brk s"] fits_distinct [OF fits]
          by (simp_all add: heap_wf_def)
        have fresh: "q - HEADER \<notin> fst ` set (us @ (x, n) # vs)" using dist(2) unfolding new(1) by auto
        then have qx: "q - HEADER \<noteq> x" by auto
        from sets obtain P Q where PQ: "?bs = P @ (x, n) # Q" using split_list [of "(x, n)" ?bs] by auto
        let ?s1 = "s1\<lparr>hp_mem := copy_bytes q (x + HEADER) (min n m) (hp_mem s1)\<rparr>"
        have wf1: "heap_wf lo ?s1 (P @ (x, n) # Q)" using new(3) PQ by simp
        from free_spec [OF wf1, of grant] obtain s2 where
          fr: "free grant (Some (x + HEADER)) ?s1 = Some s2" "heap_wf lo s2 (P @ Q)" "hp_mem s2 = hp_mem ?s1" by blast
        have h1: "hp_hdr s1 (Blk x) = Some \<lparr>a_size = n, a_prev = fst (last (nodes P)), a_next = next_of (map node_of Q) Null\<rparr>"
          using heap_wf_at [OF wf1] by simp
        have run: "realloc grant (Some (x + HEADER)) sz s = Some (Some q, s2)"
          using hx ne False m(1) mal(1) Some h1 fr(1)
          by (cases "next_of (map node_of vs) Null = Null") (simp_all add: realloc_def Let_def)
        have "distinct (map fst (P @ (x, n) # Q))" using dist(2) PQ by simp
        then have keepset: "set (P @ Q) = set ?bs - {(x, n)}" unfolding PQ by force
        have "x \<notin> fst ` set (us @ vs)" using dist(1) by (simp add: image_Un)
        then have notin: "(x, n) \<notin> set (us @ vs)" by (metis fst_conv image_eqI)
        have inq: "set (P @ Q) = insert (q - HEADER, k) (set (us @ vs))"
          unfolding keepset sets using notin qx by auto
        have copied: "hp_mem s2 (q + i) = hp_mem s (x + HEADER + i)" if "0 \<le> i" "i < min n sz" for i
          using that m(2) by (simp add: fr(3) copy_bytes_def mal(2))
        have kept: "block_kept s s2 b" if "b \<in> set (us @ vs)" for b
        proof -
          obtain y l where b: "b = (y, l)" by fastforce
          with that sets have "(y, l) \<in> set ?bs" by auto
          moreover have "y \<noteq> q - HEADER" using fresh that b by force
          ultimately have "y + HEADER + l \<le> q - HEADER \<or> q + k \<le> y"
            using fits_disjoint [OF fits, of y l "q - HEADER" k] by auto
          with new(2) show ?thesis
            by (auto simp: block_kept_def b fr(3) copy_bytes_def mal(2) HEADER_def)
        qed
        show ?thesis
          using run fr(2) inq copied kept new(2) m(2)
          by (intro exI [of _ "Some q"] exI [of _ s2], simp only: option.case)
            (intro conjI exI [of _ "P @ Q"] exI [of _ k], auto)
      qed
    qed
  qed
qed

section \<open>Properties\<close>

text \<open>
  C1: on a well-formed heap \<open>malloc\<close> always returns. Either it returns \<open>NULL\<close> and the blocks are
  as before, or it returns an address whose bytes, as many as asked for, lie in a new block that
  overlaps neither a block nor a header in use, and the heap is well formed with it. No byte in memory
  changes.
\<close>

theorem malloc_disjoint:
  assumes "heap_wf lo s bs" "0 \<le> sz"
  shows "\<exists>r s'. malloc grant sz s = Some (r, s') \<and> hp_mem s' = hp_mem s
    \<and> (case r of
         None \<Rightarrow> heap_wf lo s' bs
       | Some p \<Rightarrow> (\<exists>bs' n. heap_wf lo s' bs' \<and> set bs' = insert (p - HEADER, n) (set bs) \<and> sz < n
           \<and> (\<forall>(y, k) \<in> set bs. y + HEADER + k \<le> p - HEADER \<or> p + n \<le> y)))"
proof -
  from malloc_spec [OF assms, of grant] obtain r s' where
    m: "malloc grant sz s = Some (r, s')" "hp_mem s' = hp_mem s"
    "case r of None \<Rightarrow> heap_wf lo s' bs
     | Some p \<Rightarrow> (\<exists>us vs n. bs = us @ vs \<and> sz < n \<and> heap_wf lo s' (us @ (p - HEADER, n) # vs))" by blast
  show ?thesis
  proof (cases r)
    case None
    with m show ?thesis by auto
  next
    case (Some p)
    with m(3) obtain us vs n where b: "bs = us @ vs" "sz < n" "heap_wf lo s' (us @ (p - HEADER, n) # vs)" by auto
    then have fits: "fits lo (us @ (p - HEADER, n) # vs) (hp_brk s')" by (simp add: heap_wf_def)
    have "\<forall>(y, k) \<in> set bs. y + HEADER + k \<le> p - HEADER \<or> p + n \<le> y"
    proof safe
      fix y k
      assume yk: "(y, k) \<in> set bs" "\<not> p + n \<le> y"
      have "y \<noteq> p - HEADER" using fits_distinct [OF fits] yk(1) b(1) by (force simp: image_iff)
      with fits_disjoint [OF fits, of y k "p - HEADER" n] yk b(1) show "y + HEADER + k \<le> p - HEADER" by auto
    qed
    with m Some b show ?thesis
      by (intro exI [of _ "Some p"] exI [of _ s']) (auto intro!: exI [of _ "us @ (p - HEADER, n) # vs"] exI [of _ n])
  qed
qed

text \<open>A heap with two blocks of 8 bytes, the first starting at address 1000.\<close>

definition heap_two :: heap where
  "heap_two = \<lparr>hp_hdr = [Root \<mapsto> \<lparr>a_size = 0, a_prev = Null, a_next = Blk 1000\<rparr>,
      Blk 1000 \<mapsto> \<lparr>a_size = 8, a_prev = Root, a_next = Blk 1032\<rparr>,
      Blk 1032 \<mapsto> \<lparr>a_size = 8, a_prev = Blk 1000, a_next = Null\<rparr>],
     hp_mem = (\<lambda>x. CHR ''m''), hp_brk = 1064, hp_errno = 0, hp_stderr = []\<rparr>"

lemma heap_two_wf: "heap_wf 1000 heap_two [(1000, 8), (1032, 8)]"
  by (simp add: heap_wf_def heap_two_def HEADER_def)

theorem malloc_disjoint_witness:
  "\<exists>r s'. malloc (\<lambda>b. True) 5 heap_two = Some (r, s') \<and> hp_mem s' = hp_mem heap_two
    \<and> (case r of
         None \<Rightarrow> heap_wf 1000 s' [(1000, 8), (1032, 8)]
       | Some p \<Rightarrow> (\<exists>bs' n. heap_wf 1000 s' bs' \<and> set bs' = insert (p - HEADER, n) (set [(1000, 8), (1032, 8)]) \<and> 5 < n
           \<and> (\<forall>(y, k) \<in> set [(1000, 8), (1032, 8)]. y + HEADER + k \<le> p - HEADER \<or> p + n \<le> y)))"
  by (rule malloc_disjoint [OF heap_two_wf]) simp

text \<open>
  C5: \<open>free\<close> of a block in use takes exactly this block out of the heap, and changes no byte of the
  others. A second \<open>free\<close> of the block is recognised, reported and changes nothing, unless it was the last
  block and its header has been given back to the kernel with it: then the second \<open>free\<close> reads memory that is gone.
\<close>

theorem free_removes:
  assumes "heap_wf lo s (us @ (x, n) # vs)"
  shows "\<exists>s'. free grant (Some (x + HEADER)) s = Some s' \<and> heap_wf lo s' (us @ vs) \<and> hp_mem s' = hp_mem s
    \<and> free grant (Some (x + HEADER)) s' =
      (if vs = [] \<and> grant (hp_brk s - (n + HEADER)) \<and> hp_brk s - (n + HEADER) < x + HEADER then None
       else Some (s'\<lparr>hp_stderr := hp_stderr s' @ [x + HEADER]\<rparr>))"
proof -
  from free_spec [OF assms, of grant] obtain s' where
    f: "free grant (Some (x + HEADER)) s = Some s'" "heap_wf lo s' (us @ vs)" "hp_mem s' = hp_mem s"
    "vs \<noteq> [] \<longrightarrow> hp_hdr s' (Blk x) = hp_hdr s (Blk x)" by blast
  let ?a = "fst (last (nodes us))"
  have reported: "free grant (Some (x + HEADER)) s' = Some (s'\<lparr>hp_stderr := hp_stderr s' @ [x + HEADER]\<rparr>)"
    if "hp_hdr s' (Blk x) = hp_hdr s (Blk x)"
  proof -
    have "chain (hp_hdr s') Null Root (butlast (nodes us) @ (?a, snd (last (nodes us))) # map node_of vs) Null"
      using f(2) nodes_last [of us] unfolding heap_wf_def
      by (metis append.assoc append_Cons append_Nil list.simps(9) map_append)
    from chain_at [OF this] have "\<exists>h. hp_hdr s' ?a = Some h \<and> a_next h = next_of (map node_of vs) Null" by auto
    moreover have "next_of (map node_of vs) Null \<noteq> Blk x"
      using assms fits_distinct [of lo "us @ (x, n) # vs" "hp_brk s"]
      by (cases vs) (auto simp: heap_wf_def node_of_def)
    ultimately show ?thesis using that heap_wf_at [OF assms] by (auto simp: free_def Let_def)
  qed
  show ?thesis
  proof (cases "vs = []")
    case False
    with f reported show ?thesis by auto
  next
    case True
    with free_last [of lo s us x n grant s'] assms f(1) have
      "hp_hdr s' (Blk x) = (if grant (hp_brk s - (n + HEADER)) \<and> hp_brk s - (n + HEADER) < x + HEADER then None else hp_hdr s (Blk x))"
      by simp
    with True f reported show ?thesis
      by (cases "grant (hp_brk s - (n + HEADER)) \<and> hp_brk s - (n + HEADER) < x + HEADER") (auto simp: free_def)
  qed
qed

theorem free_removes_witness:
  "(\<exists>s'. free (\<lambda>b. True) (Some (1000 + HEADER)) heap_two = Some s' \<and> heap_wf 1000 s' [(1032, 8)]
      \<and> free (\<lambda>b. True) (Some (1000 + HEADER)) s' = Some (s'\<lparr>hp_stderr := hp_stderr s' @ [1000 + HEADER]\<rparr>))
    \<and> (\<exists>s'. free (\<lambda>b. True) (Some (1032 + HEADER)) heap_two = Some s' \<and> heap_wf 1000 s' [(1000, 8)]
      \<and> free (\<lambda>b. True) (Some (1032 + HEADER)) s' = None)"
proof -
  have "heap_wf 1000 heap_two ([] @ (1000, 8) # [(1032, 8)])" "heap_wf 1000 heap_two ([(1000, 8)] @ (1032, 8) # [])"
    using heap_two_wf by simp_all
  from free_removes [OF this(1), of "\<lambda>b. True"] free_removes [OF this(2), of "\<lambda>b. True"]
  show ?thesis by (auto simp: heap_two_def HEADER_def)
qed

text \<open>
  C4: \<open>realloc\<close> of a block in use, for any size \<open>sz\<close> with \<open>sz + 16 < 2 ^ 64\<close> (so that rounding up does not
  wrap), always returns: \<open>NULL\<close> with the heap as it was, or the address of a block of at least the
  new size that starts with the bytes of the old one, as many as both hold. The heap consists of this
  block and the other blocks, which keep their place and their bytes: a block that was moved is
  free again.
\<close>

theorem realloc_preserves:
  assumes "heap_wf lo s (us @ (x, n) # vs)" "0 \<le> sz" "sz + 16 < 2 ^ 64"
  shows "\<exists>r s'. realloc grant (Some (x + HEADER)) sz s = Some (r, s')
    \<and> (case r of
         None \<Rightarrow> heap_wf lo s' (us @ (x, n) # vs) \<and> hp_mem s' = hp_mem s
       | Some q \<Rightarrow> (\<exists>bs m. heap_wf lo s' bs \<and> set bs = insert (q - HEADER, m) (set (us @ vs)) \<and> sz \<le> m
           \<and> (\<forall>i. 0 \<le> i \<and> i < min n sz \<longrightarrow> hp_mem s' (q + i) = hp_mem s (x + HEADER + i))
           \<and> (\<forall>b \<in> set (us @ vs). block_kept s s' b)))"
  by (rule realloc_spec [OF assms])

theorem realloc_preserves_witness:
  "\<exists>r s'. realloc (\<lambda>b. True) (Some (1000 + HEADER)) 100 heap_two = Some (r, s')
    \<and> (case r of
         None \<Rightarrow> heap_wf 1000 s' ([] @ (1000, 8) # [(1032, 8)]) \<and> hp_mem s' = hp_mem heap_two
       | Some q \<Rightarrow> (\<exists>bs m. heap_wf 1000 s' bs \<and> set bs = insert (q - HEADER, m) (set ([] @ [(1032, 8)])) \<and> 100 \<le> m
           \<and> (\<forall>i. 0 \<le> i \<and> i < min 8 100 \<longrightarrow> hp_mem s' (q + i) = hp_mem heap_two (1000 + HEADER + i))
           \<and> (\<forall>b \<in> set ([] @ [(1032, 8)]). block_kept heap_two s' b)))"
  by (rule realloc_preserves) (simp_all add: heap_two_wf)

text \<open>
  the rounding of \<open>realloc\<close> wraps for the 16 largest sizes: \<open>realloc(ptr, SIZE_MAX)\<close> succeeds,
  returns the same pointer and leaves a block of size 0.
\<close>

theorem realloc_wraps:
  assumes "heap_wf lo s (us @ (x, n) # vs)" "0 < n" "n \<noteq> 2 ^ 64 - 1"
  shows "\<exists>s'. realloc grant (Some (x + HEADER)) (2 ^ 64 - 1) s = Some (Some (x + HEADER), s')
    \<and> heap_wf lo s' (us @ (x, 0) # vs)"
proof -
  have "((2 ^ 64 - 1 OR 15) + 1) mod 2 ^ 64 = (0 :: int)" by simp
  then show ?thesis
    using heap_wf_at [OF assms(1)] heap_wf_resize [OF assms(1), of 0] assms(2,3)
    by (auto simp: realloc_def Let_def set_hdr_def)
qed

theorem realloc_wraps_witness:
  "\<exists>s'. realloc (\<lambda>b. True) (Some (1000 + HEADER)) (2 ^ 64 - 1) heap_two = Some (Some (1000 + HEADER), s')
    \<and> heap_wf 1000 s' ([] @ (1000, 0) # [(1032, 8)])"
  by (rule realloc_wraps [where n = 8]) (simp_all add: heap_two_wf)

text \<open>
  \<open>calloc\<close> never returns a block smaller than the product of its arguments, although its
  assertions do not exclude every overflow: what they let through is rejected by \<open>malloc\<close>; the bytes
  returned are zero. And the assertion fails for a legal call: 0 elements of two or more bytes.
\<close>

theorem calloc_no_overflow:
  assumes "heap_wf lo s bs" "0 \<le> nmemb" "nmemb < 2 ^ 64" "0 \<le> size0" "size0 < 2 ^ 64"
  shows "(\<forall>p s'. calloc grant nmemb size0 s = Some (Some p, s') \<longrightarrow>
      (\<exists>bs' n. heap_wf lo s' bs' \<and> (p - HEADER, n) \<in> set bs' \<and> nmemb * size0 \<le> n
        \<and> (\<forall>i. 0 \<le> i \<and> i < nmemb * size0 \<longrightarrow> hp_mem s' (p + i) = NUL)))
    \<and> (2 \<le> size0 \<longrightarrow> calloc grant 0 size0 s = None)"
proof -
  have "\<exists>bs' n. heap_wf lo s' bs' \<and> (p - HEADER, n) \<in> set bs' \<and> nmemb * size0 \<le> n
      \<and> (\<forall>i. 0 \<le> i \<and> i < nmemb * size0 \<longrightarrow> hp_mem s' (p + i) = NUL)"
    if run: "calloc grant nmemb size0 s = Some (Some p, s')" for p s'
  proof -
    define sz where "sz = (nmemb * size0) mod 2 ^ 64"
    from run have a1: "(nmemb + size0) mod 2 ^ 64 \<ge> max nmemb size0"
      and a2: "sz \<ge> (nmemb + size0 - 1) mod 2 ^ 64" and "malloc grant sz s \<noteq> None"
      by (auto simp: calloc_def Let_def sz_def split: if_splits bind_splits)
    from run obtain s1 where mal: "malloc grant sz s = Some (Some p, s1)"
      "s' = s1\<lparr>hp_mem := (\<lambda>x. if p \<le> x \<and> x < p + sz then NUL else hp_mem s1 x)\<rparr>"
      by (auto simp: calloc_def Let_def sz_def split: if_splits bind_splits option.splits)
    have sz: "0 \<le> sz" by (simp add: sz_def)
    from mal(1) have small: "sz < 2 ^ 31" by (auto simp: malloc_def INT_MAX_def HEADER_def split: if_splits)
    have nowrap: "nmemb + size0 < 2 ^ 64"
    proof (rule ccontr)
      assume "\<not> nmemb + size0 < 2 ^ 64"
      then have "(nmemb + size0) mod 2 ^ 64 = nmemb + size0 - 2 ^ 64"
        using assms(3,5) mod_pos_pos_trivial [of "nmemb + size0 - 2 ^ 64" "2 ^ 64"] by simp
      with a1 assms(3,5) show False by linarith
    qed
    have "nmemb + size0 \<noteq> 0"
      using a2 small by (auto simp: zmod_minus1)
    with nowrap assms(2,4) have "(nmemb + size0 - 1) mod 2 ^ 64 = nmemb + size0 - 1"
      by (intro mod_pos_pos_trivial) linarith+
    with a2 small assms(2,4) have "nmemb \<le> 2 ^ 31" "size0 \<le> 2 ^ 31" by linarith+
    then have "nmemb * size0 \<le> 2 ^ 31 * 2 ^ 31" using assms(2,4) by (intro mult_mono) simp_all
    then have eq: "sz = nmemb * size0" using assms(2,4) unfolding sz_def by (intro mod_pos_pos_trivial) simp_all
    from malloc_spec [OF assms(1) sz, of grant] mal(1) obtain us vs n where
      "sz < n" "heap_wf lo s1 (us @ (p - HEADER, n) # vs)" by auto
    then show ?thesis using eq mal(2)
      by (intro exI [of _ "us @ (p - HEADER, n) # vs"] exI [of _ n]) auto
  qed
  moreover have "calloc grant 0 size0 s = None" if "2 \<le> size0"
    using that assms(5) mod_pos_pos_trivial [of "size0 - 1" "2 ^ 64"] by (simp add: calloc_def)
  ultimately show ?thesis by blast
qed

theorem calloc_no_overflow_witness:
  "(\<exists>p s' bs' n. calloc (\<lambda>b. True) 3 4 heap_two = Some (Some p, s') \<and> heap_wf 1000 s' bs'
      \<and> (p - HEADER, n) \<in> set bs' \<and> 3 * 4 \<le> n \<and> hp_mem s' (p + 11) = NUL)
    \<and> calloc (\<lambda>b. True) 0 4 heap_two = None"
proof -
  have "\<exists>p s'. malloc (\<lambda>b. True) 12 heap_two = Some (Some p, s')"
    by (simp add: malloc_def malloc_find.simps malloc_link_def set_hdr_def sbrk_def heap_two_def INT_MAX_def
        HEADER_def Let_def addr_def)
  then obtain p s' where run: "calloc (\<lambda>b. True) 3 4 heap_two = Some (Some p, s')"
    by (auto simp: calloc_def)
  note calloc_no_overflow [OF heap_two_wf, of 3 4 "\<lambda>b. True"]
  then have "\<forall>p s'. calloc (\<lambda>b. True) 3 4 heap_two = Some (Some p, s') \<longrightarrow>
      (\<exists>bs' n. heap_wf 1000 s' bs' \<and> (p - HEADER, n) \<in> set bs' \<and> 3 * 4 \<le> n
        \<and> (\<forall>i. 0 \<le> i \<and> i < 3 * 4 \<longrightarrow> hp_mem s' (p + i) = NUL))"
    "calloc (\<lambda>b. True) 0 4 heap_two = None" by simp_all
  moreover have "(0 :: int) \<le> 11 \<and> 11 < (3 * 4 :: int)" by simp
  ultimately show ?thesis using run by blast
qed

end
