(* ===== verification/Libc_Ctype.thy ===== *)
theory Libc_Ctype
  imports Libc_String
begin

unbundle bit_operations_syntax

text \<open>
  Character classes (\<open>libc/src/ctype.c\<close>) and the comparison of strings without regard to case
  (\<open>libc/src/strings.c\<close>). Characters are the \<open>int\<close> arguments of the C functions; a string is given
  by its bytes before the terminator.
\<close>

abbreviation ch :: "char \<Rightarrow> int" where "ch c \<equiv> uc c"

definition isascii :: "int \<Rightarrow> bool" where "isascii c \<longleftrightarrow> 0 \<le> c \<and> c \<le> 127"
definition isblank :: "int \<Rightarrow> bool" where "isblank c \<longleftrightarrow> c = ch CHR '' '' \<or> c = ch CHR 0x09"
definition iscntrl :: "int \<Rightarrow> bool" where "iscntrl c \<longleftrightarrow> False"
definition isdigit :: "int \<Rightarrow> bool" where "isdigit c \<longleftrightarrow> ch CHR ''0'' \<le> c \<and> c \<le> ch CHR ''9''"
definition isgraph :: "int \<Rightarrow> bool" where "isgraph c \<longleftrightarrow> ch CHR '' '' < c \<and> c \<le> ch CHR ''~''"
definition islower :: "int \<Rightarrow> bool" where "islower c \<longleftrightarrow> ch CHR ''a'' \<le> c \<and> c \<le> ch CHR ''z''"
definition isprint :: "int \<Rightarrow> bool" where "isprint c \<longleftrightarrow> ch CHR '' '' \<le> c \<and> c \<le> ch CHR ''~''"

definition isspace :: "int \<Rightarrow> bool" where
  "isspace c \<longleftrightarrow> c = ch CHR '' '' \<or> ch CHR 0x09 \<le> c \<and> c \<le> ch CHR 0x0D"

definition isupper :: "int \<Rightarrow> bool" where "isupper c \<longleftrightarrow> ch CHR ''A'' \<le> c \<and> c \<le> ch CHR ''Z''"

definition isxdigit :: "int \<Rightarrow> bool" where
  "isxdigit c \<longleftrightarrow> ch CHR ''0'' \<le> c \<and> c \<le> ch CHR ''9'' \<or> ch CHR ''a'' \<le> c \<and> c \<le> ch CHR ''f''
     \<or> ch CHR ''A'' \<le> c \<and> c \<le> ch CHR ''F''"

text \<open>The macros of \<open>ctype.h\<close>.\<close>

definition isalpha :: "int \<Rightarrow> bool" where "isalpha c \<longleftrightarrow> islower c \<or> isupper c"
definition isalnum :: "int \<Rightarrow> bool" where "isalnum c \<longleftrightarrow> isalpha c \<or> isdigit c"
definition ispunct :: "int \<Rightarrow> bool" where "ispunct c \<longleftrightarrow> isprint c \<and> \<not> (isspace c \<or> isalnum c)"

definition toascii :: "int \<Rightarrow> int" where "toascii c = c AND 127"

definition tolower :: "int \<Rightarrow> int" where
  "tolower c = (if isupper c then c + ch CHR ''a'' - ch CHR ''A'' else c)"

definition toupper :: "int \<Rightarrow> int" where
  "toupper c = (if islower c then c + ch CHR ''A'' - ch CHR ''a'' else c)"

text \<open>\<open>i << n\<close> on an \<open>int\<close> of 32 bits; a shift by the width or more is undefined.\<close>

definition shl32 :: "int \<Rightarrow> nat \<Rightarrow> int option" where
  "shl32 i n = (if n \<ge> 32 then None else Some (i * 2 ^ n mod 2 ^ 32))"

function ffs_loop :: "int \<Rightarrow> nat \<Rightarrow> int option" where
  "ffs_loop i j =
     (if j < 32 then
        (case shl32 i (32 - j) of
           None \<Rightarrow> None
         | Some x \<Rightarrow> if x \<noteq> 0 then Some (int j) else ffs_loop i (j + 1))
      else Some 0)"
  by pat_completeness auto
termination
  by (relation "measure (\<lambda>(i, j). 32 - j)") auto

declare ffs_loop.simps [simp del]

definition ffs :: "int \<Rightarrow> int option" where
  "ffs i = ffs_loop i 0"

fun strcasecmp :: "string \<Rightarrow> string \<Rightarrow> int" where
  "strcasecmp (a # s) (b # t) =
     (if a \<noteq> NUL \<and> b \<noteq> NUL \<and> tolower (uc a) = tolower (uc b) then strcasecmp s t else uc a - uc b)"
| "strcasecmp s t = uc (peek s) - uc (peek t)"

text \<open>\<open>--n\<close> comes first, in \<open>size_t\<close>, so that \<open>n = 0\<close> stands for the largest length.\<close>

fun strncasecmp :: "string \<Rightarrow> string \<Rightarrow> nat \<Rightarrow> int" where
  "strncasecmp (a # s) (b # t) n =
     (let n' = (if n = 0 then 2 ^ 64 - 1 else n - 1) in
      if n' \<noteq> 0 \<and> a \<noteq> NUL \<and> b \<noteq> NUL \<and> tolower (uc a) = tolower (uc b) then strncasecmp s t n'
      else uc a - uc b)"
| "strncasecmp s t n = uc (peek s) - uc (peek t)"

section \<open>Properties\<close>

text \<open>
  \<open>strcasecmp\<close> returns 0 exactly for two strings that are equal up to case; for others its
  sign follows the bytes as they are, so that it is not the order of the lower case strings: ''a''
  compares greater than ''B'' although ''a'' comes first.
\<close>

theorem strcasecmp_equal:
  assumes "NUL \<notin> set s" "NUL \<notin> set t"
  shows "(strcasecmp s t = 0 \<longleftrightarrow> map (\<lambda>c. tolower (uc c)) s = map (\<lambda>c. tolower (uc c)) t)
    \<and> 0 < strcasecmp ''a'' ''B'' \<and> tolower (uc CHR ''a'') < tolower (uc CHR ''B'')"
proof -
  have "strcasecmp s t = 0 \<longleftrightarrow> map (\<lambda>c. tolower (uc c)) s = map (\<lambda>c. tolower (uc c)) t"
    using assms
  proof (induction s t rule: strcasecmp.induct, goal_cases both left right)
    case (both a s b t)
    then show ?case by auto
  next
    case (left t)
    then show ?case by (cases t) (auto dest: sym [of 0])
  next
    case (right s)
    then show ?case by (cases s) auto
  qed
  moreover have "0 < strcasecmp ''a'' ''B''" "tolower (uc CHR ''a'') < tolower (uc CHR ''B'')"
    by (simp_all add: tolower_def isupper_def uc_def)
  ultimately show ?thesis by blast
qed

theorem strcasecmp_equal_witness:
  "(strcasecmp ''aB'' ''Ab'' = 0 \<longleftrightarrow> map (\<lambda>c. tolower (uc c)) ''aB'' = map (\<lambda>c. tolower (uc c)) ''Ab'')
    \<and> 0 < strcasecmp ''a'' ''B'' \<and> tolower (uc CHR ''a'') < tolower (uc CHR ''B'')"
  by (rule strcasecmp_equal) simp_all

text \<open>\<open>ffs\<close> shifts an \<open>int\<close> by its full width in its first iteration, which is undefined for every argument.\<close>

theorem ffs_undefined: "ffs i = None"
  by (simp add: ffs_def ffs_loop.simps shl32_def)

end
