(* ===== verification/Libc_Number.thy ===== *)
theory Libc_Number
  imports Libc_Ctype
begin

text \<open>
  Numbers from text, \<open>libc/src/stdlib.c\<close>: \<open>atoi\<close> and its variants, the \<open>strtol\<close> family with its
  common part \<open>_strtoull\<close>, and the absolute values. \<open>long\<close> and \<open>long long\<close> have 64 bits.
  A string is the rest of the string at the pointer; signed overflow is \<open>None\<close>.
\<close>

definition in_range :: "nat \<Rightarrow> int \<Rightarrow> bool" where
  "in_range bits i \<longleftrightarrow> - (2 ^ (bits - 1)) \<le> i \<and> i < 2 ^ (bits - 1)"

definition checked :: "nat \<Rightarrow> int \<Rightarrow> int option" where
  "checked bits i = (if in_range bits i then Some i else None)"

definition abs_of :: "nat \<Rightarrow> int \<Rightarrow> int option" where
  "abs_of bits x = (if x \<ge> 0 then Some x else checked bits (- x))"

definition abs_int :: "int \<Rightarrow> int option" where "abs_int x = abs_of 32 x"
definition labs :: "int \<Rightarrow> int option" where "labs x = abs_of 64 x"
definition llabs :: "int \<Rightarrow> int option" where "llabs x = abs_of 64 x"

section \<open>atoi\<close>

fun skip_spaces :: "string \<Rightarrow> string" where
  "skip_spaces [] = []"
| "skip_spaces (c # s) = (if isspace (sc c) then skip_spaces s else c # s)"

fun atoi_digits :: "nat \<Rightarrow> string \<Rightarrow> int \<Rightarrow> int \<Rightarrow> int option" where
  "atoi_digits bits [] pos ret = Some ret"
| "atoi_digits bits (c # s) pos ret =
     (if sc CHR ''0'' \<le> sc c \<and> sc c \<le> sc CHR ''9'' then
        (case checked bits (ret * 10) of
           None \<Rightarrow> None
         | Some r10 \<Rightarrow>
             (case checked bits (r10 + pos * (sc c - sc CHR ''0'')) of
                None \<Rightarrow> None
              | Some r \<Rightarrow> atoi_digits bits s pos r))
      else Some ret)"

definition atoi_bits :: "nat \<Rightarrow> string \<Rightarrow> int option" where
  "atoi_bits bits s =
     (case skip_spaces s of
        [] \<Rightarrow> Some 0
      | c # s' \<Rightarrow> if c = CHR ''-'' then atoi_digits bits s' (- 1) 0 else atoi_digits bits (c # s') 1 0)"

definition atoi :: "string \<Rightarrow> int option" where "atoi s = atoi_bits 32 s"
definition atol :: "string \<Rightarrow> int option" where "atol s = atoi_bits 64 s"
definition atoll :: "string \<Rightarrow> int option" where "atoll s = atoi_bits 64 s"

section \<open>The strtol family\<close>

definition LONG_MAX :: int where "LONG_MAX = 2 ^ 63 - 1"
definition LONG_MIN :: int where "LONG_MIN = - (2 ^ 63)"

text \<open>The value of one digit, with its test against the base.\<close>

definition strtoull_digit :: "char \<Rightarrow> int \<Rightarrow> int option" where
  "strtoull_digit c base =
     (if sc c \<ge> sc CHR ''0'' \<and> sc c - sc CHR ''0'' < min 10 base then Some (sc c - sc CHR ''0'')
      else if base > 10 then
        (let lower = sc c - sc CHR ''a''; upper = sc c - sc CHR ''A'';
             r = (if lower \<ge> 0 \<and> lower < 26 then lower else upper)
         in if (lower \<ge> 0 \<and> lower < 26 \<or> upper \<ge> 0 \<and> upper < 26) \<and> r < base - 10 then Some (r + 10) else None)
      else None)"

fun strtoull_digits :: "string \<Rightarrow> int \<Rightarrow> 64 word \<Rightarrow> 64 word \<times> string" where
  "strtoull_digits [] base ret = (ret, [])"
| "strtoull_digits (c # s) base ret =
     (if c = NUL then (ret, c # s)
      else case strtoull_digit c base of
        Some d \<Rightarrow> strtoull_digits s base (ret * word_of_int base + word_of_int d)
      | None \<Rightarrow> (ret, c # s))"

definition strtoull_base :: "string \<Rightarrow> int \<times> string" where
  "strtoull_base p =
     (if peek p = CHR ''0'' then
        (if peek (tl p) = CHR ''x'' \<or> peek (tl p) = CHR ''X'' then (16, tl (tl p)) else (8, tl p))
      else (10, p))"

text \<open>
  The result is the value, what \<open>*endptr\<close> is set to (\<open>None\<close>: not set), whether a minus sign was
  seen, and the new \<open>errno\<close> (\<open>None\<close>: unchanged).
\<close>

definition strtoull_do :: "string \<Rightarrow> int \<Rightarrow> 64 word \<times> string option \<times> bool \<times> int option" where
  "strtoull_do str base =
     (if base > 36 \<or> base < 0 \<or> base = 1 then (0, None, False, Some 22)
      else
        let p0 = skip_spaces str in
        if peek p0 = NUL then (0, Some p0, False, Some 34)
        else
          let sign = (peek p0 = CHR ''+'' \<or> peek p0 = CHR ''-'');
              neg = (peek p0 = CHR ''-'');
              p1 = (if sign then tl p0 else p0);
              (base', p2) = (if base = 0 then strtoull_base p1 else (base, p1));
              p3 = (if base' = 16 \<and> peek p2 = CHR ''0'' then
                      (if peek (tl p2) = CHR ''x'' \<or> peek (tl p2) = CHR ''X'' then tl (tl p2) else tl p2)
                    else p2);
              (ret, p4) = strtoull_digits p3 base' 0
          in (ret, Some p4, neg, None))"

text \<open>
  \<open>(unsigned)LONG_MAX + 1\<close> is computed in \<open>unsigned int\<close>. The result is the value,
  \<open>*endptr\<close> and the new \<open>errno\<close>.
\<close>

definition strtol :: "string \<Rightarrow> int \<Rightarrow> int \<times> string option \<times> int option" where
  "strtol str base =
     (case strtoull_do str base of
        (ret, endptr, neg, e) \<Rightarrow>
          if neg then
            (if uint ret > (LONG_MAX mod 2 ^ 32 + 1) mod 2 ^ 32 then (LONG_MIN, endptr, Some 34)
             else (sint (- ret), endptr, e))
          else if uint ret > LONG_MAX then (LONG_MAX, endptr, Some 34)
          else (sint ret, endptr, e))"

definition strtoll :: "string \<Rightarrow> int \<Rightarrow> int \<times> string option \<times> int option" where
  "strtoll str base = strtol str base"

definition strtoul :: "string \<Rightarrow> int \<Rightarrow> 64 word \<times> string option \<times> int option" where
  "strtoul str base = (case strtoull_do str base of (ret, endptr, neg, e) \<Rightarrow> (ret, endptr, e))"

definition strtoull :: "string \<Rightarrow> int \<Rightarrow> 64 word \<times> string option \<times> int option" where
  "strtoull str base = (case strtoull_do str base of (ret, endptr, neg, e) \<Rightarrow> (ret, endptr, e))"

section \<open>Digits\<close>

text \<open>The digit characters, and the number a list of digits stands for.\<close>

definition digit_char :: "int \<Rightarrow> char" where
  "digit_char d = (if d < 10 then to_char (48 + d) else to_char (87 + d))"

definition digits_value :: "int \<Rightarrow> int list \<Rightarrow> int" where
  "digits_value base ds = foldl (\<lambda>v d. v * base + d) 0 ds"

lemma uc_to_char: "0 \<le> i \<Longrightarrow> i < 256 \<Longrightarrow> uc (to_char i) = i"
proof -
  assume "0 \<le> i" "i < 256"
  then have "i mod 256 = i" by (intro mod_pos_pos_trivial)
  then show "uc (to_char i) = i" by (simp add: uc_def to_char_def of_char_of)
qed

lemma sc_digit_char: "0 \<le> d \<Longrightarrow> d < 36 \<Longrightarrow> sc (digit_char d) = (if d < 10 then 48 + d else 87 + d)"
  by (simp add: digit_char_def sc_def uc_to_char)

lemma sc_consts [simp]:
  "sc CHR ''0'' = 48" "sc CHR ''9'' = 57" "sc CHR ''a'' = 97" "sc CHR ''A'' = 65" "sc CHR ''-'' = 45"
  "sc CHR ''+'' = 43" "sc NUL = 0"
  by (simp_all add: sc_def uc_def)

lemma strtoull_digit_char:
  "0 \<le> d \<Longrightarrow> d < base \<Longrightarrow> base \<le> 36 \<Longrightarrow> strtoull_digit (digit_char d) base = Some d"
  by (auto simp: strtoull_digit_def sc_digit_char Let_def)

lemma digit_char_not:
  assumes "0 \<le> d" "d < 36"
  shows "digit_char d \<noteq> NUL" "digit_char d \<noteq> CHR ''-''" "digit_char d \<noteq> CHR ''+''" "\<not> isspace (sc (digit_char d))"
    "digit_char d = CHR ''0'' \<longleftrightarrow> d = 0"
proof -
  have sc_neq: "sc (digit_char d) \<noteq> sc c \<Longrightarrow> digit_char d \<noteq> c" for c by auto
  show "digit_char d \<noteq> NUL" "digit_char d \<noteq> CHR ''-''" "digit_char d \<noteq> CHR ''+''"
    using assms by (auto intro!: sc_neq simp: sc_digit_char split: if_splits)
  show "\<not> isspace (sc (digit_char d))"
    using assms by (auto simp: isspace_def sc_digit_char uc_def)
  have "digit_char d = CHR ''0'' \<longleftrightarrow> sc (digit_char d) = sc CHR ''0''" by (rule sc_inject [symmetric])
  then show "digit_char d = CHR ''0'' \<longleftrightarrow> d = 0" using assms by (auto simp: sc_digit_char)
qed

lemma strtoull_digits_value:
  assumes "2 \<le> base" "base \<le> 36" "rest = [] \<or> hd rest = NUL \<or> strtoull_digit (hd rest) base = None"
  shows "\<forall>d \<in> set ds. 0 \<le> d \<and> d < base \<Longrightarrow> strtoull_digits (map digit_char ds @ rest) base (word_of_int v)
    = (word_of_int (foldl (\<lambda>v d. v * base + d) v ds), rest)"
proof (induction ds arbitrary: v)
  case Nil
  then show ?case using assms(3) by (cases rest) auto
next
  case (Cons d ds)
  then have d: "0 \<le> d" "d < base" "d < 36" using assms(2) by auto
  have "word_of_int v * word_of_int base + word_of_int d = (word_of_int (v * base + d) :: 64 word)" by simp
  moreover have "strtoull_digits (map digit_char ds @ rest) base (word_of_int (v * base + d))
      = (word_of_int (foldl (\<lambda>v d. v * base + d) (v * base + d) ds), rest)"
    using Cons.prems by (intro Cons.IH) simp
  ultimately show ?case
    using digit_char_not(1) [OF d(1,3)] strtoull_digit_char [OF d(1,2) assms(2)]
    by (simp del: of_int_add of_int_mult)
qed

lemma strtoull_do_digits:
  assumes "2 \<le> base" "base \<le> 36" "ds \<noteq> []" "\<forall>d \<in> set ds. 0 \<le> d \<and> d < base" "base \<noteq> 16 \<or> hd ds \<noteq> 0"
    and "rest = [] \<or> hd rest = NUL \<or> strtoull_digit (hd rest) base = None"
    and "\<forall>c \<in> set sp. isspace (sc c)"
  shows "strtoull_do (sp @ map digit_char ds @ rest) base
      = (word_of_int (digits_value base ds), Some rest, False, None)"
    and "strtoull_do (sp @ CHR ''-'' # map digit_char ds @ rest) base
      = (word_of_int (digits_value base ds), Some rest, True, None)"
proof -
  have skip: "skip_spaces (sp @ c # s) = c # s" if "\<not> isspace (sc c)" for c s
    using assms(7) that by (induction sp) auto
  obtain d es where ds: "ds = d # es" using assms(3) by (cases ds) auto
  then have d: "0 \<le> d" "d < 36" using assms(2,4) by auto
  note digs = strtoull_digits_value [OF assms(1,2,6,4), of 0]
  have z: "base = 16 \<Longrightarrow> digit_char d \<noteq> CHR ''0''" using digit_char_not(5) [OF d] assms(5) ds by auto
  have b: "base \<noteq> 0" "base \<noteq> 1" "\<not> base > 36" "\<not> base < 0" using assms(1,2) by auto
  have minus: "\<not> isspace (sc CHR ''-'')" by (simp add: isspace_def uc_def)
  show "strtoull_do (sp @ map digit_char ds @ rest) base
      = (word_of_int (digits_value base ds), Some rest, False, None)"
    using digs z b skip [OF digit_char_not(4) [OF d]] digit_char_not(1-3) [OF d]
    by (auto simp: strtoull_do_def ds digits_value_def Let_def)
  show "strtoull_do (sp @ CHR ''-'' # map digit_char ds @ rest) base
      = (word_of_int (digits_value base ds), Some rest, True, None)"
    using digs z b skip [OF minus] by (auto simp: strtoull_do_def ds digits_value_def Let_def)
qed

section \<open>Numerals\<close>

text \<open>A numeral: the digits, as lower or upper case characters, and the prefixes with the base they stand for.\<close>

definition digit_of :: "char \<Rightarrow> int \<Rightarrow> bool" where
  "digit_of c d \<longleftrightarrow> 0 \<le> d \<and> d < 36 \<and> (c = digit_char d \<or> 10 \<le> d \<and> c = to_char (55 + d))"

definition numeral_prefix :: "int \<Rightarrow> string \<Rightarrow> int \<Rightarrow> bool" where
  "numeral_prefix base pre b \<longleftrightarrow> 2 \<le> base \<and> base \<le> 36 \<and> pre = [] \<and> b = base
     \<or> base \<in> {0, 16} \<and> pre \<in> {''0x'', ''0X''} \<and> b = 16
     \<or> base = 0 \<and> pre = ''0'' \<and> b = 8 \<or> base = 0 \<and> pre = [] \<and> b = 10"

lemma sc_to_char: "0 \<le> i \<Longrightarrow> i < 128 \<Longrightarrow> sc (to_char i) = i"
  by (simp add: sc_def uc_to_char)

lemma digit_of_sc:
  "digit_of c d \<longleftrightarrow> 0 \<le> d \<and> d < 36 \<and> (if d < 10 then sc c = 48 + d else sc c = 87 + d \<or> sc c = 55 + d)"
proof (cases "0 \<le> d \<and> d < 36")
  case True
  have "c = digit_char d \<longleftrightarrow> sc c = sc (digit_char d)" "c = to_char (55 + d) \<longleftrightarrow> sc c = sc (to_char (55 + d))"
    by (rule sc_inject [symmetric])+
  with True show ?thesis by (auto simp: digit_of_def sc_digit_char sc_to_char)
qed (auto simp: digit_of_def)

lemma strtoull_digit_of:
  assumes "2 \<le> b" "b \<le> 36"
  shows "strtoull_digit c b = Some d \<longleftrightarrow> digit_of c d \<and> d < b"
  using assms by (auto simp: strtoull_digit_def digit_of_sc Let_def min_def)

lemma digits_of_value:
  assumes "2 \<le> b" "b \<le> 36" "rest = [] \<or> (\<forall>d. digit_of (hd rest) d \<longrightarrow> b \<le> d)"
  shows "list_all2 digit_of cs ds \<Longrightarrow> \<forall>d \<in> set ds. d < b \<Longrightarrow>
    strtoull_digits (cs @ rest) b (word_of_int v) = (word_of_int (foldl (\<lambda>v d. v * b + d) v ds), rest)"
proof (induction cs arbitrary: ds v)
  case Nil
  have "strtoull_digit (hd rest) b = None" if "rest \<noteq> []"
    using strtoull_digit_of [OF assms(1,2), of "hd rest"] assms(3) that by (cases "strtoull_digit (hd rest) b") force+
  with Nil show ?case by (cases rest) simp_all
next
  case (Cons c cs)
  then obtain d es where ds: "ds = d # es" "digit_of c d" "list_all2 digit_of cs es" "d < b" by (auto simp: list_all2_Cons1)
  have "sc c \<noteq> sc NUL" using ds(2) by (auto simp: digit_of_sc sc_def uc_def split: if_splits)
  then have "c \<noteq> NUL" by auto
  moreover have "strtoull_digit c b = Some d" using strtoull_digit_of [OF assms(1,2)] ds(2,4) by simp
  moreover have "word_of_int v * word_of_int b + word_of_int d = (word_of_int (v * b + d) :: 64 word)" by simp
  moreover have "strtoull_digits (cs @ rest) b (word_of_int (v * b + d)) = (word_of_int (foldl (\<lambda>v d. v * b + d) (v * b + d) es), rest)"
    using Cons.prems ds by (intro Cons.IH) auto
  ultimately show ?case by (simp add: ds(1) del: of_int_add of_int_mult)
qed

lemma digit_of_not:
  assumes "digit_of c d"
  shows "c \<noteq> NUL" "c \<noteq> CHR ''-''" "c \<noteq> CHR ''+''" "\<not> isspace (sc c)" "c = CHR ''0'' \<longleftrightarrow> d = 0"
    "d < 33 \<Longrightarrow> c \<noteq> CHR ''x'' \<and> c \<noteq> CHR ''X''"
proof -
  have neq: "sc c \<noteq> sc x \<Longrightarrow> c \<noteq> x" for x by auto
  have x: "sc CHR ''x'' = 120" "sc CHR ''X'' = 88" by (simp_all add: sc_def uc_def)
  show "c \<noteq> NUL" "c \<noteq> CHR ''-''" "c \<noteq> CHR ''+''"
    using assms by (auto intro!: neq simp: digit_of_sc split: if_splits)
  show "\<not> isspace (sc c)" using assms by (auto simp: isspace_def digit_of_sc uc_def split: if_splits)
  show "d < 33 \<Longrightarrow> c \<noteq> CHR ''x'' \<and> c \<noteq> CHR ''X''"
    using assms by (intro conjI neq) (auto simp: digit_of_sc x split: if_splits)
  have "c = CHR ''0'' \<longleftrightarrow> sc c = sc CHR ''0''" by (rule sc_inject [symmetric])
  then show "c = CHR ''0'' \<longleftrightarrow> d = 0" using assms by (auto simp: digit_of_sc split: if_splits)
qed

text \<open>The zero that is skipped in base 16 is a digit.\<close>

lemma hex_zero:
  assumes "2 \<le> b" "b \<le> 36" "list_all2 digit_of cs ds" "\<forall>d \<in> set ds. d < b" "rest = [] \<or> (\<forall>d. digit_of (hd rest) d \<longrightarrow> b \<le> d)"
    and "ds \<noteq> []" "b = 16 \<and> ds = [0] \<longrightarrow> rest = [] \<or> hd rest \<notin> {CHR ''x'', CHR ''X''}"
  shows "strtoull_digits (if b = 16 \<and> peek (cs @ rest) = CHR ''0'' then
      (if peek (tl (cs @ rest)) = CHR ''x'' \<or> peek (tl (cs @ rest)) = CHR ''X'' then tl (tl (cs @ rest)) else tl (cs @ rest))
      else cs @ rest) b 0 = (word_of_int (digits_value b ds), rest)"
proof -
  obtain c cs' d ds' where cs: "cs = c # cs'" "ds = d # ds'" "digit_of c d" "list_all2 digit_of cs' ds'"
    using assms(3,6) by (auto simp: neq_Nil_conv list_all2_Cons2)
  note val = digits_of_value [OF assms(1,2,5), where v = 0, simplified]
  show ?thesis
  proof (cases "b = 16 \<and> c = CHR ''0''")
    case True
    then have "d = 0" using digit_of_not(5) [OF cs(3)] by simp
    have "peek (cs' @ rest) \<noteq> CHR ''x'' \<and> peek (cs' @ rest) \<noteq> CHR ''X''"
    proof (cases cs')
      case Nil
      then show ?thesis using assms(7) cs True \<open>d = 0\<close> by (cases rest) auto
    next
      case (Cons e es)
      then obtain x xs where "ds' = x # xs" "digit_of e x" using cs(4) by (auto simp: list_all2_Cons1)
      moreover have "x < 16" using assms(4) cs(2) calculation(1) True by simp
      ultimately show ?thesis using digit_of_not(6) [of e x] Cons by simp
    qed
    with True val [OF cs(4)] assms(4) cs \<open>d = 0\<close> show ?thesis by (simp add: digits_value_def)
  next
    case False
    with val [OF assms(3,4)] cs(1) show ?thesis by (auto simp: digits_value_def)
  qed
qed

text \<open>What \<open>strtoull_do\<close> does behind the sign.\<close>

abbreviation strtoull_tail :: "int \<Rightarrow> string \<Rightarrow> 64 word \<times> string" where
  "strtoull_tail base p1 \<equiv> (let (base', p2) = (if base = 0 then strtoull_base p1 else (base, p1));
       p3 = (if base' = 16 \<and> peek p2 = CHR ''0'' then
               (if peek (tl p2) = CHR ''x'' \<or> peek (tl p2) = CHR ''X'' then tl (tl p2) else tl p2)
             else p2)
    in strtoull_digits p3 base' 0)"

lemma strtoull_sign:
  assumes "skip_spaces str = sign @ p1" "sign \<in> {[], ''+'', ''-''}" "\<not> (base > 36 \<or> base < 0 \<or> base = 1)"
    and "peek p1 \<noteq> NUL" "peek p1 \<noteq> CHR ''-''" "peek p1 \<noteq> CHR ''+''"
  shows "strtoull str base = (case strtoull_tail base p1 of (ret, p4) \<Rightarrow> (ret, Some p4, None))"
proof -
  from assms(2) consider "sign = []" | "sign = ''+''" | "sign = ''-''" by auto
  then show ?thesis
    using assms(1,4-6) by cases (simp_all add: strtoull_def strtoull_do_def Let_def split_def assms(3) del: de_Morgan_disj)
qed

section \<open>Properties\<close>

text \<open>
  C31: \<open>strtoull\<close> reads numerals: after white space and an optional sign, in a base from 2 to 36, with the optional prefix
  \<open>0x\<close> or \<open>0X\<close> for base 16, and for base 0 in the base that the prefix \<open>0x\<close>, \<open>0X\<close>, \<open>0\<close> or none tells, the digits
  in lower and upper case up to the first character that is none give the value modulo 2^64; overflow is not reported, and a minus
  sign makes no difference. \<open>*endptr\<close> is set to the first character behind the digits.
  (In base 16 the number 0 must not be followed by an \<open>x\<close>.)
\<close>

theorem strtoull_value:
  assumes "numeral_prefix base pre b" "list_all2 digit_of cs ds" "\<forall>d \<in> set ds. d < b" "ds \<noteq> []"
    and "base = 0 \<and> pre = [] \<longrightarrow> hd ds \<noteq> 0" "rest = [] \<or> (\<forall>d. digit_of (hd rest) d \<longrightarrow> b \<le> d)"
    and "b = 16 \<and> ds = [0] \<longrightarrow> rest = [] \<or> hd rest \<notin> {CHR ''x'', CHR ''X''}"
    and "\<forall>c \<in> set sp. isspace (sc c)" "sign \<in> {[], ''+'', ''-''}"
  shows "strtoull (sp @ sign @ pre @ cs @ rest) base = (word_of_int (digits_value b ds), Some rest, None)"
proof -
  have b: "2 \<le> b" "b \<le> 36" "\<not> (base > 36 \<or> base < 0 \<or> base = 1)" using assms(1) by (auto simp: numeral_prefix_def)
  have skip: "skip_spaces (sp @ c # s) = c # s" if "\<not> isspace (sc c)" for c s
    using assms(8) that by (induction sp) auto
  obtain c cs' d ds' where cs: "cs = c # cs'" "ds = d # ds'" "digit_of c d" "d < b"
    using assms(2,3,4) by (auto simp: neq_Nil_conv list_all2_Cons2)
  note c = digit_of_not [OF cs(3)]
  note val = digits_of_value [OF b(1,2) assms(6,2,3), of 0]
  note zero = hex_zero [OF b(1,2) assms(2,3,6,4,7)]
  let ?p1 = "pre @ cs @ rest"
  have head: "peek ?p1 \<noteq> NUL" "peek ?p1 \<noteq> CHR ''-''" "peek ?p1 \<noteq> CHR ''+''" "\<not> isspace (sc (peek ?p1))" "?p1 = peek ?p1 # tl ?p1"
    using assms(1) c(1-4) cs(1) by (auto simp: numeral_prefix_def isspace_def uc_def)
  have sign: "\<not> isspace (sc CHR ''+'')" "\<not> isspace (sc CHR ''-'')" by (simp_all add: isspace_def uc_def)
  have "skip_spaces (sp @ sign @ ?p1) = sign @ ?p1"
    using assms(9) skip [OF head(4), of "tl ?p1"] skip [OF sign(1)] skip [OF sign(2)] head(5) by auto
  then have "strtoull (sp @ sign @ ?p1) base = (case strtoull_tail base ?p1 of (ret, p4) \<Rightarrow> (ret, Some p4, None))"
    by (rule strtoull_sign [OF _ assms(9) b(3) head(1-3)])
  moreover have "strtoull_tail base ?p1 = (word_of_int (digits_value b ds), rest)"
  proof -
    from assms(1) consider (plain) "base \<noteq> 0" "pre = []" "b = base" | (hex) "base = 16" "pre \<in> {''0x'', ''0X''}" "b = 16"
      | (hex0) "base = 0" "pre \<in> {''0x'', ''0X''}" "b = 16" | (octal) "base = 0" "pre = ''0''" "b = 8"
      | (decimal) "base = 0" "pre = []" "b = 10" by (auto simp: numeral_prefix_def)
    then show ?thesis
    proof cases
      case plain
      then show ?thesis using zero by simp
    next
      case hex
      then show ?thesis using val by (auto simp: digits_value_def)
    next
      case hex0
      then have "strtoull_base ?p1 = (16, cs @ rest)" by (auto simp: strtoull_base_def)
      then show ?thesis using hex0 zero by (simp)
    next
      case octal
      then have "strtoull_base ?p1 = (8, cs @ rest)" using c(6) cs(1,4) by (simp add: strtoull_base_def)
      then show ?thesis using octal val by (simp add: digits_value_def)
    next
      case decimal
      then have "strtoull_base ?p1 = (10, cs @ rest)" using c(5) cs(1,2) assms(5) by (simp add: strtoull_base_def)
      then show ?thesis using decimal val by (simp add: digits_value_def)
    qed
  qed
  ultimately show ?thesis by simp
qed

theorem strtoull_value_witness:
  "strtoull ('' '' @ ''-'' @ ''0X'' @ ''1fA'' @ ''g'') 0 = (word_of_int (digits_value 16 [1, 15, 10]), Some ''g'', None)
    \<and> strtoull ([] @ [] @ [] @ ''0z'' @ []) 36 = (word_of_int (digits_value 36 [0, 35]), Some [], None)"
proof -
  have d: "digit_of CHR ''1'' 1" "digit_of CHR ''f'' 15" "digit_of CHR ''A'' 10" "digit_of CHR ''0'' 0" "digit_of CHR ''z'' 35"
    "digit_of CHR ''g'' e \<Longrightarrow> 16 \<le> e" for e
    by (auto simp: digit_of_sc sc_def uc_def split: if_splits)
  show ?thesis
  proof
    show "strtoull ('' '' @ ''-'' @ ''0X'' @ ''1fA'' @ ''g'') 0 = (word_of_int (digits_value 16 [1, 15, 10]), Some ''g'', None)"
      by (rule strtoull_value) (use d in \<open>auto simp: numeral_prefix_def isspace_def uc_def sc_def\<close>)
    show "strtoull ([] @ [] @ [] @ ''0z'' @ []) 36 = (word_of_int (digits_value 36 [0, 35]), Some [], None)"
      by (rule strtoull_value) (use d in \<open>auto simp: numeral_prefix_def\<close>)
  qed
qed

text \<open>
  \<open>strtol\<close> converts every number up to \<open>LONG_MAX\<close>, but no negative one: the limit
  \<open>(unsigned)LONG_MAX+1\<close> wraps to 0 in \<open>unsigned int\<close>, and the result for a minus sign and a non-zero
  number is \<open>LONG_MIN\<close> with \<open>ERANGE\<close>.
\<close>

theorem strtol_sign:
  assumes "2 \<le> base" "base \<le> 36" "ds \<noteq> []" "\<forall>d \<in> set ds. 0 \<le> d \<and> d < base" "base \<noteq> 16 \<or> hd ds \<noteq> 0"
    and "rest = [] \<or> hd rest = NUL \<or> strtoull_digit (hd rest) base = None" "\<forall>c \<in> set sp. isspace (sc c)"
    and "0 < digits_value base ds" "digits_value base ds \<le> LONG_MAX"
  shows "strtol (sp @ map digit_char ds @ rest) base = (digits_value base ds, Some rest, None)
    \<and> strtol (sp @ CHR ''-'' # map digit_char ds @ rest) base = (LONG_MIN, Some rest, Some 34)"
proof -
  let ?v = "digits_value base ds"
  have u: "uint (word_of_int ?v :: 64 word) = ?v"
    using assms(8,9) by (simp add: uint_word_of_int LONG_MAX_def)
  have "signed_take_bit 63 ?v = ?v"
    using assms(8,9) by (intro signed_take_bit_int_eq_self) (simp_all add: LONG_MAX_def)
  then have s: "sint (word_of_int ?v :: 64 word) = ?v" by (simp add: signed_of_int)
  show ?thesis
    using strtoull_do_digits [OF assms(1-7)] u s assms(8,9) by (simp add: strtol_def LONG_MAX_def)
qed

theorem strtol_sign_witness:
  "strtol ([] @ map digit_char [4, 2] @ []) 10 = (digits_value 10 [4, 2], Some [], None)
    \<and> strtol ([] @ CHR ''-'' # map digit_char [4, 2] @ []) 10 = (LONG_MIN, Some [], Some 34)"
  by (rule strtol_sign) (auto simp: digits_value_def LONG_MAX_def)

text \<open>
  \<open>atoi\<close> of white space, an optional minus sign and decimal digits is the number they stand
  for, when it fits an \<open>int\<close>; whatever follows the digits does not matter.
\<close>

theorem atoi_value:
  assumes "ds \<noteq> []" "\<forall>d \<in> set ds. 0 \<le> d \<and> d < 10" "\<forall>c \<in> set sp. isspace (sc c)"
    and "rest = [] \<or> \<not> (sc CHR ''0'' \<le> sc (hd rest) \<and> sc (hd rest) \<le> sc CHR ''9'')"
    and "digits_value 10 ds < 2 ^ 31"
  shows "atoi (sp @ map digit_char ds @ rest) = Some (digits_value 10 ds)
    \<and> atoi (sp @ CHR ''-'' # map digit_char ds @ rest) = Some (- digits_value 10 ds)"
proof -
  have skip: "skip_spaces (sp @ c # s) = c # s" if "\<not> isspace (sc c)" for c s
    using assms(3) that by (induction sp) auto
  have mono: "v \<le> foldl (\<lambda>v d. v * 10 + d) v es" if "0 \<le> v" "\<forall>d \<in> set es. 0 \<le> d" for v :: int and es
    using that
  proof (induction es arbitrary: v)
    case (Cons d es)
    then have "v \<le> v * 10 + d" "0 \<le> v * 10 + d" by auto
    with Cons.IH [of "v * 10 + d"] Cons.prems(2) show ?case by auto
  qed simp
  have digs: "atoi_digits 32 (map digit_char es @ rest) pos (pos * v) = Some (pos * foldl (\<lambda>v d. v * 10 + d) v es)"
    if "pos = 1 \<or> pos = - 1" "0 \<le> v" "\<forall>d \<in> set es. 0 \<le> d \<and> d < 10" "foldl (\<lambda>v d. v * 10 + d) v es < 2 ^ 31" for pos v es
    using that
  proof (induction es arbitrary: v)
    case Nil
    then show ?case using assms(4) by (cases rest) auto
  next
    case (Cons d es)
    then have d: "0 \<le> d" "d < 10" by auto
    have v1: "v * 10 + d < 2 ^ 31" using mono [of "v * 10 + d" es] Cons.prems d by auto
    then have "checked 32 (pos * v * 10) = Some (pos * v * 10)"
      "checked 32 (pos * v * 10 + pos * d) = Some (pos * (v * 10 + d))"
      using Cons.prems(1,2) d by (auto simp: checked_def in_range_def)
    with Cons.IH [of "v * 10 + d"] Cons.prems d show ?case by (simp add: sc_digit_char)
  qed
  obtain d es where ds: "ds = d # es" using assms(1) by (cases ds) auto
  then have d: "0 \<le> d" "d < 36" using assms(2) by auto
  have minus: "\<not> isspace (sc CHR ''-'')" by (simp add: isspace_def uc_def)
  have "atoi (sp @ map digit_char ds @ rest) = Some (digits_value 10 ds)"
    using digs [of 1 0 ds] assms(2,5) skip [OF digit_char_not(4) [OF d]] digit_char_not(2) [OF d]
    by (simp add: atoi_def atoi_bits_def ds digits_value_def)
  moreover have "atoi (sp @ CHR ''-'' # map digit_char ds @ rest) = Some (- digits_value 10 ds)"
    using digs [of "- 1" 0 ds] assms(2,5) skip [OF minus] by (simp add: atoi_def atoi_bits_def digits_value_def)
  ultimately show ?thesis ..
qed

theorem atoi_value_witness:
  "atoi ('' '' @ map digit_char [1, 2] @ ''x'') = Some (digits_value 10 [1, 2])
    \<and> atoi ('' '' @ CHR ''-'' # map digit_char [1, 2] @ ''x'') = Some (- digits_value 10 [1, 2])"
  by (rule atoi_value) (auto simp: isspace_def digits_value_def sc_def uc_def)

end
