(* ===== verification/Libc_Sort.thy ===== *)
theory Libc_Sort
  imports Libc_String
begin

text \<open>
  Searching and sorting arrays, \<open>libc/src/stdlib.c\<close>. The array is in the byte memory: \<open>nel\<close> elements
  of \<open>size\<close> bytes from \<open>base\<close>. The comparison function gets the addresses of two elements and is
  a parameter; address arithmetic and indices are in \<open>size_t\<close>. \<open>None\<close> is an access outside the
  memory, or a loop that does not end.

  The contract of a comparison function is the locale \<open>comparison\<close>; \<open>strcmp\<close> satisfies it on strings.
\<close>

type_synonym compar = "mem \<Rightarrow> nat \<Rightarrow> nat \<Rightarrow> int option"

definition wrap :: "int \<Rightarrow> nat" where
  "wrap i = nat (i mod 2 ^ 64)"

section \<open>bsearch\<close>

text \<open>\<open>cmp p\<close> compares the key with the element at \<open>p\<close>. The result is the address found, or \<open>NULL\<close>.\<close>

function bsearch_loop :: "(nat \<Rightarrow> int option) \<Rightarrow> nat \<Rightarrow> nat \<Rightarrow> nat \<Rightarrow> nat option option" where
  "bsearch_loop cmp base nel sz =
     (if nel = 0 then Some None
      else
        (case cmp (base + nel div 2 * sz) of
           None \<Rightarrow> None
         | Some tmp \<Rightarrow>
             if tmp < 0 then bsearch_loop cmp base (nel div 2) sz
             else if tmp > 0 then
               bsearch_loop cmp (base + nel div 2 * sz + sz) (nel - (nel div 2 + 1)) sz
             else Some (Some (base + nel div 2 * sz))))"
  by pat_completeness auto
termination
  by (relation "measure (\<lambda>(cmp, base, nel, sz). nel)") auto

declare bsearch_loop.simps [simp del]

definition bsearch :: "mem \<Rightarrow> nat \<Rightarrow> nat \<Rightarrow> nat \<Rightarrow> nat \<Rightarrow> compar \<Rightarrow> nat option option" where
  "bsearch m key base nel sz compar = bsearch_loop (compar m key) base nel sz"

section \<open>qsort\<close>

text \<open>\<open>tmp = *(pa++); *pa = *pb; *(pb++) = tmp;\<close>\<close>

fun qsort_exch_loop :: "mem \<Rightarrow> nat \<Rightarrow> nat \<Rightarrow> nat \<Rightarrow> mem option" where
  "qsort_exch_loop m pa pb 0 = Some m"
| "qsort_exch_loop m pa pb (Suc n) =
     do { tmp \<leftarrow> load m pa;
          c \<leftarrow> load m pb;
          m1 \<leftarrow> store m (pa + 1) c;
          m2 \<leftarrow> store m1 pb tmp;
          qsort_exch_loop m2 (pa + 1) (pb + 1) n }"

definition elem_at :: "nat \<Rightarrow> nat \<Rightarrow> nat \<Rightarrow> nat" where
  "elem_at base sz i = wrap (int base + int i * int sz)"

definition qsort_exch :: "mem \<Rightarrow> nat \<Rightarrow> nat \<Rightarrow> nat \<Rightarrow> nat \<Rightarrow> mem option" where
  "qsort_exch m base sz a b = qsort_exch_loop m (elem_at base sz a) (elem_at base sz b) sz"

partial_function (option) qsort_left :: "compar \<Rightarrow> mem \<Rightarrow> nat \<Rightarrow> nat \<Rightarrow> nat \<Rightarrow> nat \<Rightarrow> nat option" where
  "qsort_left compar m base sz p i =
     do { c \<leftarrow> compar m (elem_at base sz (wrap (int i + 1))) p;
          if c < 0 then qsort_left compar m base sz p (wrap (int i + 1)) else Some (wrap (int i + 1)) }"

partial_function (option) qsort_right :: "compar \<Rightarrow> mem \<Rightarrow> nat \<Rightarrow> nat \<Rightarrow> nat \<Rightarrow> nat \<Rightarrow> nat \<Rightarrow> nat option" where
  "qsort_right compar m base sz p l j =
     do { c \<leftarrow> compar m p (elem_at base sz (wrap (int j - 1)));
          if c < 0 then
            if wrap (int j - 1) = l then Some (wrap (int j - 1))
            else qsort_right compar m base sz p l (wrap (int j - 1))
          else Some (wrap (int j - 1)) }"

partial_function (option) qsort_partition ::
  "compar \<Rightarrow> nat \<Rightarrow> nat \<Rightarrow> nat \<Rightarrow> nat \<Rightarrow> mem \<Rightarrow> nat \<Rightarrow> nat \<Rightarrow> (nat \<times> mem) option" where
  "qsort_partition compar base sz p l m i j =
     do { i' \<leftarrow> qsort_left compar m base sz p i;
          j' \<leftarrow> qsort_right compar m base sz p l j;
          if i' \<ge> j' then Some (i', m)
          else do { m' \<leftarrow> qsort_exch m base sz i' j'; qsort_partition compar base sz p l m' i' j' } }"

partial_function (option) qsort_do :: "compar \<Rightarrow> nat \<Rightarrow> nat \<Rightarrow> mem \<Rightarrow> nat \<Rightarrow> nat \<Rightarrow> mem option" where
  "qsort_do compar base sz m l r =
     (if r \<le> l then Some m
      else do { (i, m1) \<leftarrow> qsort_partition compar base sz (elem_at base sz r) l m (wrap (int l - 1)) r;
                m2 \<leftarrow> qsort_exch m1 base sz i r;
                m3 \<leftarrow> qsort_do compar base sz m2 l (wrap (int i - 1));
                qsort_do compar base sz m3 (i + 1) r })"

definition qsort :: "mem \<Rightarrow> nat \<Rightarrow> nat \<Rightarrow> nat \<Rightarrow> compar \<Rightarrow> mem option" where
  "qsort m base nel sz compar = (if nel > 1 then qsort_do compar base sz m 0 (nel - 1) else Some m)"

section \<open>The contract of a comparison\<close>

locale comparison =
  fixes cmp :: "'a \<Rightarrow> 'a \<Rightarrow> int"
    and ok :: "'a \<Rightarrow> bool"
  assumes cmp_swap: "ok a \<Longrightarrow> ok b \<Longrightarrow> 0 < cmp a b \<longleftrightarrow> cmp b a < 0"
    and cmp_trans: "ok a \<Longrightarrow> ok b \<Longrightarrow> ok c \<Longrightarrow> cmp a b \<le> 0 \<Longrightarrow> cmp b c \<le> 0 \<Longrightarrow> cmp a c \<le> 0"
begin

definition sorted_by :: "'a list \<Rightarrow> bool" where
  "sorted_by xs \<longleftrightarrow> (\<forall>x \<in> set xs. ok x) \<and> sorted_wrt (\<lambda>a b. cmp a b \<le> 0) xs"

lemma cmp_mono_below:
  assumes "sorted_by xs" "ok key" "i \<le> j" "j < length xs" "cmp key (xs ! i) < 0"
  shows "cmp key (xs ! j) < 0"
proof (cases "i = j")
  case False
  then have ij: "cmp (xs ! i) (xs ! j) \<le> 0" "ok (xs ! i)" "ok (xs ! j)"
    using assms by (auto simp: sorted_by_def sorted_wrt_iff_nth_less)
  show ?thesis
  proof (rule ccontr)
    assume "\<not> cmp key (xs ! j) < 0"
    then have "cmp (xs ! j) key \<le> 0" using cmp_swap [OF ij(3) assms(2)] by linarith
    with cmp_trans [OF ij(2,3) assms(2) ij(1)] have "cmp (xs ! i) key \<le> 0" .
    then show False using cmp_swap [OF ij(2) assms(2)] assms(5) by linarith
  qed
qed (use assms in simp)

lemma cmp_mono_above:
  assumes "sorted_by xs" "ok key" "i \<le> j" "j < length xs" "0 < cmp key (xs ! j)"
  shows "0 < cmp key (xs ! i)"
proof (cases "i = j")
  case False
  then have ij: "cmp (xs ! i) (xs ! j) \<le> 0" "ok (xs ! i)" "ok (xs ! j)"
    using assms by (auto simp: sorted_by_def sorted_wrt_iff_nth_less)
  show ?thesis
  proof (rule ccontr)
    assume "\<not> 0 < cmp key (xs ! i)"
    then have "cmp key (xs ! i) \<le> 0" by linarith
    with cmp_trans [OF assms(2) ij(2,3) _ ij(1)] assms(5) show False by linarith
  qed
qed (use assms in simp)

lemma bsearch_loop_finds:
  assumes xs: "sorted_by xs" "ok key"
    and at: "\<And>i. i < length xs \<Longrightarrow> compar (base + i * sz) = Some (cmp key (xs ! i))"
  shows "lo + n \<le> length xs \<Longrightarrow> \<forall>i < length xs. cmp key (xs ! i) = 0 \<longrightarrow> lo \<le> i \<and> i < lo + n \<Longrightarrow>
    \<exists>r. bsearch_loop compar (base + lo * sz) n sz = Some r
      \<and> (case r of Some p \<Rightarrow> \<exists>i < length xs. p = base + i * sz \<and> cmp key (xs ! i) = 0
         | None \<Rightarrow> \<forall>i < length xs. cmp key (xs ! i) \<noteq> 0)"
proof (induction n arbitrary: lo rule: less_induct)
  case (less n)
  show ?case
  proof (cases "n = 0")
    case True
    with less.prems show ?thesis by (subst bsearch_loop.simps) auto
  next
    case False
    let ?m = "lo + n div 2"
    have m: "?m < length xs" "?m < lo + n" using less.prems False by linarith+
    have addr: "base + lo * sz + n div 2 * sz = base + ?m * sz" by (simp add: algebra_simps)
    consider "cmp key (xs ! ?m) < 0" | "0 < cmp key (xs ! ?m)" | "cmp key (xs ! ?m) = 0" by linarith
    then show ?thesis
    proof cases
      case 1
      have "\<forall>i < length xs. cmp key (xs ! i) = 0 \<longrightarrow> lo \<le> i \<and> i < lo + n div 2"
        using cmp_mono_below [OF xs _ _ 1] less.prems(2) by (metis less_irrefl not_le)
      with less.IH [of "n div 2" lo] False less.prems(1) show ?thesis
        using at [OF m(1)] 1 by (subst bsearch_loop.simps) (simp add: addr)
    next
      case 2
      have "\<forall>i < length xs. cmp key (xs ! i) = 0 \<longrightarrow> ?m + 1 \<le> i \<and> i < ?m + 1 + (n - (n div 2 + 1))"
      proof (intro allI impI)
        fix i
        assume i: "i < length xs" "cmp key (xs ! i) = 0"
        then have "\<not> i \<le> ?m" using cmp_mono_above [OF xs _ m(1) 2, of i] by auto
        with less.prems(2) i show "?m + 1 \<le> i \<and> i < ?m + 1 + (n - (n div 2 + 1))" by auto
      qed
      with less.IH [of "n - (n div 2 + 1)" "?m + 1"] False less.prems(1) show ?thesis
        using at [OF m(1)] 2 by (subst bsearch_loop.simps) (simp add: addr algebra_simps)
    next
      case 3
      with at [OF m(1)] False m(1) show ?thesis
        by (subst bsearch_loop.simps) (auto simp: addr)
    qed
  qed
qed

end

text \<open>\<open>strcmp\<close> on the addresses of strings.\<close>

lemma cmp_spec_trans:
  "NUL \<notin> set s \<Longrightarrow> NUL \<notin> set t \<Longrightarrow> NUL \<notin> set u \<Longrightarrow> cmp_spec s t \<le> 0 \<Longrightarrow> cmp_spec t u \<le> 0 \<Longrightarrow> cmp_spec s u \<le> 0"
proof (induction s arbitrary: t u)
  case Nil
  then show ?case using uc_bounds by (cases u) auto
next
  case (Cons a s)
  have "a \<noteq> NUL" using Cons.prems(1) by auto
  with Cons.prems(4) obtain b t' where t: "t = b # t'" using uc_pos [of a] by (cases t) auto
  then have "b \<noteq> NUL" using Cons.prems(2) by auto
  with Cons.prems(5) t obtain c u' where u: "u = c # u'" using uc_pos [of b] by (cases u) auto
  show ?case
  proof (cases "a = b \<and> b = c")
    case True
    have "cmp_spec s u' \<le> 0"
      using Cons.prems True t u by (intro Cons.IH [of t' u']) simp_all
    with True u show ?thesis by simp
  next
    case False
    have "uc a \<noteq> uc c \<or> uc a = uc c" "uc a \<le> uc b" "uc b \<le> uc c"
      using Cons.prems(4,5) t u by (auto split: if_splits)
    moreover have "a \<noteq> c"
    proof
      assume "a = c"
      with \<open>uc b \<le> uc c\<close> have "uc b \<le> uc a" by simp
      with \<open>uc a \<le> uc b\<close> have "uc a = uc b" by linarith
      with \<open>a = c\<close> False show False by simp
    qed
    ultimately show ?thesis using u by simp
  qed
qed

lemma strcmp_cstr: "cstr_at m a s \<Longrightarrow> cstr_at m b t \<Longrightarrow> strcmp m a b = Some (cmp_spec s t)"
  by (simp add: strcmp_def strcmp_loop_spec)

interpretation strcmp_at: comparison "\<lambda>a b. the (strcmp m a b)" "\<lambda>p. \<exists>s. cstr_at m p s" for m
proof (unfold_locales, goal_cases swap trans)
  case (swap a b)
  then obtain s t where "cstr_at m a s" "cstr_at m b t" by blast
  then show ?case using cmp_spec_swap [of s t] by (simp add: strcmp_cstr)
next
  case (trans a b c)
  then obtain s t u where "cstr_at m a s" "cstr_at m b t" "cstr_at m c u" by blast
  with trans show ?case using cmp_spec_trans [of s t u] by (simp add: strcmp_cstr cstr_at_nonnul)
qed

lemma qsort_exch_loop_below:
  "qsort_exch_loop m pa pb n = Some m' \<Longrightarrow> x \<le> pa \<Longrightarrow> x < pb \<Longrightarrow> load m' x = load m x"
proof (induction m pa pb n rule: qsort_exch_loop.induct)
  case (2 m pa pb n)
  then obtain tmp c m1 m2 where
    steps: "load m pa = Some tmp" "load m pb = Some c" "store m (pa + 1) c = Some m1" "store m1 pb tmp = Some m2"
      "qsort_exch_loop m2 (pa + 1) (pb + 1) n = Some m'" by (auto split: bind_splits)
  with 2 have "load m' x = load m2 x" by auto
  with steps(3,4) 2(3,4) show ?case by (auto simp: load_store_neq)
qed simp

lemma wrap_id: "0 \<le> i \<Longrightarrow> i < 2 ^ 64 \<Longrightarrow> wrap i = nat i"
  by (simp add: wrap_def)

section \<open>Properties\<close>

text \<open>
  \<open>bsearch\<close> over an array of strings sorted by \<open>strcmp\<close> (the elements are the addresses of the
  strings, \<open>compar\<close> compares the string \<open>key\<close> with the string an element refers to) always returns,
  finds an equal string when there is one, and \<open>NULL\<close> otherwise.
\<close>

theorem bsearch_strings:
  assumes "\<forall>p \<in> set ptrs. \<exists>s. cstr_at m p s" "\<exists>s. cstr_at m key s"
    and "sorted_wrt (\<lambda>p q. the (strcmp m p q) \<le> 0) ptrs"
    and "\<And>i. i < length ptrs \<Longrightarrow> compar m key (base + i * sz) = strcmp m key (ptrs ! i)"
  shows "\<exists>r. bsearch m key base (length ptrs) sz compar = Some r
    \<and> (case r of Some p \<Rightarrow> \<exists>i < length ptrs. p = base + i * sz \<and> strcmp m key (ptrs ! i) = Some 0
       | None \<Rightarrow> \<forall>i < length ptrs. strcmp m key (ptrs ! i) \<noteq> Some 0)"
proof -
  have sorted: "strcmp_at.sorted_by m ptrs" using assms(1,3) by (simp add: strcmp_at.sorted_by_def)
  have some: "strcmp m key (ptrs ! i) = Some (the (strcmp m key (ptrs ! i)))" if "i < length ptrs" for i
    using assms(1,2) that by (metis nth_mem option.sel strcmp_cstr)
  then have at: "compar m key (base + i * sz) = Some (the (strcmp m key (ptrs ! i)))" if "i < length ptrs" for i
    using assms(4) that by metis
  from strcmp_at.bsearch_loop_finds [OF sorted assms(2) at, of 0 "length ptrs"] show ?thesis
    unfolding bsearch_def using some by (fastforce split: option.splits)
qed

text \<open>Two sorted strings at 0 and 2, in an array of pointers; the key at 4 equals the second.\<close>

theorem bsearch_strings_witness:
  "\<exists>r. bsearch [CHR ''a'', NUL, CHR ''b'', NUL, CHR ''b'', NUL] 4 100 2 8
         (\<lambda>m k p. strcmp m k ([0, 2] ! ((p - 100) div 8))) = Some r
    \<and> (case r of Some p \<Rightarrow> \<exists>i < 2. p = 100 + i * 8
           \<and> strcmp [CHR ''a'', NUL, CHR ''b'', NUL, CHR ''b'', NUL] 4 ([0, 2] ! i) = Some 0
       | None \<Rightarrow> \<forall>i < 2. strcmp [CHR ''a'', NUL, CHR ''b'', NUL, CHR ''b'', NUL] 4 ([0, 2] ! i) \<noteq> Some 0)"
proof -
  let ?m = "[CHR ''a'', NUL, CHR ''b'', NUL, CHR ''b'', NUL]"
  have at: "cstr_at ?m 0 [CHR ''a'']" "cstr_at ?m 2 [CHR ''b'']" "cstr_at ?m 4 [CHR ''b'']"
    by (simp_all add: load_def)
  have ok: "\<forall>p \<in> set [0, 2]. \<exists>s. cstr_at ?m p s" "\<exists>s. cstr_at ?m 4 s"
    using exI [of "cstr_at ?m 0", OF at(1)] exI [of "cstr_at ?m 2", OF at(2)] exI [of "cstr_at ?m 4", OF at(3)]
    by simp_all
  have sorted: "sorted_wrt (\<lambda>p q. the (strcmp ?m p q) \<le> 0) [0, 2]"
    by (simp add: strcmp_cstr [OF at(1,2)] uc_def)
  have two: "length [0, 2 :: nat] = 2" by simp
  show ?thesis
    using bsearch_strings [OF ok sorted, of "\<lambda>m k p. strcmp m k ([0, 2] ! ((p - 100) div 8))" 100 8]
    unfolding two by simp
qed

text \<open>A comparison of single bytes, as a caller of \<open>qsort\<close> passes it.\<close>

definition compare_bytes :: compar where
  "compare_bytes m p q = do { a \<leftarrow> load m p; b \<leftarrow> load m q; Some (uc a - uc b) }"

text \<open>
  C35: \<open>_qsort_exch\<close> does not exchange: it leaves the first byte of the lower element as it is, so
  that two elements that differ there are never swapped. And \<open>qsort\<close> leaves the array when the
  smallest element is the last one, as \<open>i - 1\<close> wraps: it reads before the array for two bytes in the wrong
  order.
\<close>

theorem qsort_broken:
  assumes "qsort_exch m base sz a b = Some m'" "a < b" "0 < sz" "base + (b + 1) * sz < 2 ^ 64"
  shows "load m' (base + a * sz) = load m (base + a * sz)
    \<and> (uc y < uc x \<longrightarrow> qsort [x, y] 0 2 1 compare_bytes = None)"
proof -
  have "a * sz < b * sz" using assms(2,3) by simp
  moreover have "elem_at base sz i = base + i * sz" if "i \<le> b" for i
  proof -
    have "i * sz \<le> (b + 1) * sz" using that by (intro mult_le_mono1) simp
    then have "base + i * sz < 2 ^ 64" using assms(4) by linarith
    then have "int base + int i * int sz < 2 ^ 64" by (metis of_nat_add of_nat_less_numeral_power_cancel_iff of_nat_mult)
    then show ?thesis by (simp add: elem_at_def wrap_id nat_add_distrib nat_mult_distrib)
  qed
  ultimately have 1: "load m' (base + a * sz) = load m (base + a * sz)"
    using qsort_exch_loop_below [OF assms(1) [unfolded qsort_exch_def], of "base + a * sz"] assms(2) by simp
  have "qsort [x, y] 0 2 1 compare_bytes = None" if "uc y < uc x"
  proof -
    have e: "elem_at 0 1 0 = 0" "elem_at 0 1 1 = 1" "elem_at 0 1 (2 ^ 64 - 1) = 2 ^ 64 - 1"
      "wrap (- 1) = 2 ^ 64 - 1" "wrap (int (2 ^ 64 - 1) + 1) = 0" "wrap 0 = 0"
      by (simp_all add: elem_at_def wrap_def)
    have left: "qsort_left compare_bytes [x, y] 0 1 1 (2 ^ 64 - 1) = Some 0"
      using that by (subst qsort_left.simps) (simp only: e, simp add: compare_bytes_def load_def)
    have right: "qsort_right compare_bytes [x, y] 0 1 1 0 1 = Some 0"
      using that by (subst qsort_right.simps) (simp add: e [simplified] compare_bytes_def load_def)
    have part: "qsort_partition compare_bytes 0 1 1 0 [x, y] (2 ^ 64 - 1) 1 = Some (0, [x, y])"
      by (subst qsort_partition.simps) (simp only: left right, simp)
    have exch: "qsort_exch [x, y] 0 1 0 1 = Some [x, x]"
      by (simp add: qsort_exch_def e [simplified] load_def store_def)
    have read: "qsort_left compare_bytes [x, x] 0 1 (2 ^ 64 - 1) (2 ^ 64 - 1) = None"
      by (subst qsort_left.simps) (simp only: e, simp add: compare_bytes_def load_def)
    have "qsort_do compare_bytes 0 1 [x, x] 0 (2 ^ 64 - 1) = None"
      by (subst qsort_do.simps) (simp only: e, simp add: e qsort_partition.simps read [simplified])
    then have "qsort_do compare_bytes 0 1 [x, y] 0 1 = None"
      by (subst qsort_do.simps) (simp only: e part exch, simp add: e part [simplified] exch [simplified])
    then show ?thesis by (simp add: qsort_def)
  qed
  with 1 show ?thesis by blast
qed

theorem qsort_broken_witness:
  "load [CHR ''a'', CHR ''a''] 0 = load [CHR ''a'', CHR ''b''] 0
   \<and> qsort [CHR ''b'', CHR ''a''] 0 2 1 compare_bytes = None"
proof -
  have "qsort_exch [CHR ''a'', CHR ''b''] 0 1 0 1 = Some [CHR ''a'', CHR ''a'']"
    by (simp add: qsort_exch_def elem_at_def wrap_def load_def store_def)
  from qsort_broken [OF this, of "CHR ''a''" "CHR ''b''"] show ?thesis by (simp add: uc_def)
qed

end
