(* ===== verification/Libc_Fcntl.thy ===== *)
theory Libc_Fcntl
  imports Prelude
begin

text \<open>
  Constants for files of the C library for Linux: the flags of \<open>open\<close> (\<open>libc/include/kernel/linux/fcntl.h\<close>), which are
  single bits, and the places of \<open>lseek\<close> (\<open>unistd.h\<close>).
\<close>

definition O_RDONLY :: "32 word" where "O_RDONLY = 0"
definition O_WRONLY :: "32 word" where "O_WRONLY = 1"
definition O_RDWR :: "32 word" where "O_RDWR = 2"
definition O_ACCMODE :: "32 word" where "O_ACCMODE = 3"
definition O_CREAT :: "32 word" where "O_CREAT = 64"
definition O_EXCL :: "32 word" where "O_EXCL = 128"
definition O_NOCTTY :: "32 word" where "O_NOCTTY = 256"
definition O_TRUNC :: "32 word" where "O_TRUNC = 512"
definition O_APPEND :: "32 word" where "O_APPEND = 1024"
definition O_NONBLOCK :: "32 word" where "O_NONBLOCK = 2048"
definition O_SYNC :: "32 word" where "O_SYNC = 4096"

text \<open>\<open>O_DSYNC\<close> and \<open>O_RSYNC\<close> are \<open>O_SYNC\<close>.\<close>

definition O_DSYNC :: "32 word" where "O_DSYNC = O_SYNC"
definition O_RSYNC :: "32 word" where "O_RSYNC = O_SYNC"

definition SEEK_SET :: int where "SEEK_SET = 0"
definition SEEK_CUR :: int where "SEEK_CUR = 1"
definition SEEK_END :: int where "SEEK_END = 2"

end
