(* ===== verification/Libc_Stdio.thy ===== *)
theory Libc_Stdio
  imports Libc_String Libc_Fcntl
begin

text \<open>
  Buffered streams, \<open>libc/src/stdio.c\<close>. A \<open>FILE\<close> is a record; its buffer is the memory \<open>buf\<close> points to
  (empty for \<open>NULL\<close>). The system calls are the parameter \<open>K\<close>: functions on the state of the process,
  which holds \<open>errno\<close> and whatever the kernel keeps. The values of the constants are those of Linux.
  A result \<open>None\<close> is an access outside a buffer, or a loop that does not end.
\<close>

section \<open>Streams and system calls\<close>

datatype fdir = FD_READ | FD_WRITE

record FILE =
  f_fd :: int
  f_flags :: "32 word"
  f_buf :: mem
  f_bufsiz :: nat
  f_len :: nat
  f_pos :: nat
  f_eof :: bool
  f_error :: bool
  f_fbuf :: int
  f_dir :: fdir

record 'k proc =
  p_kernel :: 'k
  p_errno :: int

record 'k syscalls =
  sys_write :: "int \<Rightarrow> string \<Rightarrow> 'k proc \<Rightarrow> int \<times> 'k proc"
  sys_read :: "int \<Rightarrow> nat \<Rightarrow> 'k proc \<Rightarrow> string option \<times> 'k proc"
  sys_lseek :: "int \<Rightarrow> int \<Rightarrow> int \<Rightarrow> 'k proc \<Rightarrow> int \<times> 'k proc"
  sys_open :: "string \<Rightarrow> 32 word \<Rightarrow> int \<Rightarrow> 'k proc \<Rightarrow> int \<times> 'k proc"
  sys_close :: "int \<Rightarrow> 'k proc \<Rightarrow> int \<times> 'k proc"
  sys_isatty :: "int \<Rightarrow> 'k proc \<Rightarrow> bool \<times> 'k proc"
  sys_setfl :: "int \<Rightarrow> 32 word \<Rightarrow> 'k proc \<Rightarrow> int \<times> 'k proc"
  sys_unlink :: "string \<Rightarrow> 'k proc \<Rightarrow> int \<times> 'k proc"
  sys_rmdir :: "string \<Rightarrow> 'k proc \<Rightarrow> int \<times> 'k proc"

definition BUFSIZ :: nat where "BUFSIZ = 8192"
definition IOFBF :: int where "IOFBF = 0"
definition IOLBF :: int where "IOLBF = 1"
definition IONBF :: int where "IONBF = 2"
definition EOF :: int where "EOF = - 1"

definition stdin_init :: FILE where
  "stdin_init = \<lparr>f_fd = 0, f_flags = O_RDONLY, f_buf = replicate BUFSIZ NUL, f_bufsiz = BUFSIZ, f_len = 0,
     f_pos = 0, f_eof = False, f_error = False, f_fbuf = IOFBF, f_dir = FD_READ\<rparr>"

definition stdout_init :: FILE where
  "stdout_init = \<lparr>f_fd = 1, f_flags = O_WRONLY, f_buf = replicate BUFSIZ NUL, f_bufsiz = BUFSIZ, f_len = 0,
     f_pos = 0, f_eof = False, f_error = False, f_fbuf = IOLBF, f_dir = FD_WRITE\<rparr>"

definition stderr_init :: FILE where
  "stderr_init = \<lparr>f_fd = 2, f_flags = O_WRONLY, f_buf = replicate BUFSIZ NUL, f_bufsiz = BUFSIZ, f_len = 0,
     f_pos = 0, f_eof = False, f_error = False, f_fbuf = IONBF, f_dir = FD_WRITE\<rparr>"

text \<open>Part of a buffer read, or written by \<open>memcpy\<close> from another object.\<close>

definition bytes_at :: "mem \<Rightarrow> nat \<Rightarrow> nat \<Rightarrow> string option" where
  "bytes_at m a n = (if a + n \<le> length m then Some (block m a n) else None)"

definition bytes_to :: "mem \<Rightarrow> nat \<Rightarrow> string \<Rightarrow> mem option" where
  "bytes_to m a s = (if s = [] then Some m else if a + length s \<le> length m then Some (blit m a s) else None)"

definition size_sub :: "nat \<Rightarrow> nat \<Rightarrow> nat" where
  "size_sub a b = nat ((int a - int b) mod 2 ^ 64)"

section \<open>Writing\<close>

text \<open>
  The loop that empties the buffer up to \<open>j\<close>, in \<open>fflush\<close> and at the end of \<open>fwrite\<close>; the flag of
  the result is whether every \<open>write\<close> succeeded.
\<close>

partial_function (option) drain :: "'k syscalls \<Rightarrow> nat \<Rightarrow> FILE \<Rightarrow> 'k proc \<Rightarrow> (bool \<times> FILE \<times> 'k proc) option" where
  "drain K j f k =
     (if f_pos f < j then
        do { out \<leftarrow> bytes_at (f_buf f) (f_pos f) (j - f_pos f);
             case sys_write K (f_fd f) out k of
               (w, k') \<Rightarrow>
                 if w < 0 then Some (False, f\<lparr>f_error := True\<rparr>, k')
                 else drain K j (f\<lparr>f_pos := f_pos f + nat w\<rparr>) k' }
      else Some (True, f, k))"

definition fflush :: "'k syscalls \<Rightarrow> FILE option \<Rightarrow> 'k proc \<Rightarrow> (int \<times> FILE option \<times> 'k proc) option" where
  "fflush K file k =
     (case file of
        None \<Rightarrow> Some (- 1, None, k\<lparr>p_errno := 38\<rparr>)
      | Some f \<Rightarrow>
          if f_dir f = FD_WRITE then
            do { (ok, f', k') \<leftarrow> drain K (f_len f) f k;
                 if ok then Some (0, Some (f'\<lparr>f_pos := 0, f_len := 0\<rparr>), k') else Some (EOF, Some f', k') }
          else Some (0, Some (f\<lparr>f_pos := 0, f_len := 0\<rparr>), k))"

text \<open>One item of \<open>fwrite\<close>: \<open>todo\<close> bytes of it, \<open>size - j\<close>, remain at \<open>p\<close>.\<close>

partial_function (option) fwrite_item ::
  "'k syscalls \<Rightarrow> string \<Rightarrow> nat \<Rightarrow> FILE \<Rightarrow> 'k proc \<Rightarrow> (bool \<times> string \<times> FILE \<times> 'k proc) option" where
  "fwrite_item K p todo f k =
     (if todo = 0 then Some (True, p, f, k)
      else do {
        n \<leftarrow> Some (min (size_sub (f_bufsiz f) (f_len f)) todo);
        s \<leftarrow> bytes_at p 0 n;
        b \<leftarrow> bytes_to (f_buf f) (f_len f) s;
        f1 \<leftarrow> Some (f\<lparr>f_buf := b, f_len := f_len f + n\<rparr>);
        if f_len f1 \<noteq> f_bufsiz f1 then fwrite_item K (drop n p) (todo - n) f1 k
        else do {
          x \<leftarrow> Some (size_sub (f_bufsiz f1) (f_pos f1));
          out \<leftarrow> bytes_at (f_buf f1) (f_pos f1) x;
          case sys_write K (f_fd f1) out k of
            (w, k1) \<Rightarrow>
              if w < 0 then Some (False, drop n p, f1\<lparr>f_error := True\<rparr>, k1)
              else if nat w \<noteq> x then fwrite_item K (drop n p) (todo - n) (f1\<lparr>f_pos := nat w\<rparr>) k1
              else fwrite_item K (drop n p) (todo - n) (f1\<lparr>f_pos := 0, f_len := 0\<rparr>) k1 } })"

text \<open>The items: \<open>n\<close> of them are left, \<open>i\<close> are done.\<close>

fun fwrite_items ::
  "'k syscalls \<Rightarrow> string \<Rightarrow> nat \<Rightarrow> nat \<Rightarrow> nat \<Rightarrow> FILE \<Rightarrow> 'k proc \<Rightarrow> (bool \<times> nat \<times> FILE \<times> 'k proc) option" where
  "fwrite_items K p sz 0 i f k = Some (True, i, f, k)"
| "fwrite_items K p sz (Suc n) i f k =
     do { (ok, p', f', k') \<leftarrow> fwrite_item K p sz f k;
          if ok then fwrite_items K p' sz n (Suc i) f' k' else Some (False, i, f', k') }"

text \<open>\<open>for(j = file->len; j > file->pos; j--) if(file->buf[j - 1] == '\n') break;\<close>\<close>

fun line_end :: "mem \<Rightarrow> nat \<Rightarrow> nat \<Rightarrow> nat option" where
  "line_end b lo 0 = Some 0"
| "line_end b lo (Suc j) =
     (if Suc j > lo then do { c \<leftarrow> load b j; if c = NL then Some (Suc j) else line_end b lo j } else Some (Suc j))"

definition fwrite :: "'k syscalls \<Rightarrow> string \<Rightarrow> nat \<Rightarrow> nat \<Rightarrow> FILE \<Rightarrow> 'k proc \<Rightarrow> (nat \<times> FILE \<times> 'k proc) option" where
  "fwrite K p sz nb f k =
     do { (ok0, f0, k0) \<leftarrow>
            (if f_dir f = FD_WRITE then Some (True, f, k)
             else do { (r, g, k') \<leftarrow> fflush K (Some f) k;
                       if r \<noteq> 0 then Some (False, the g, k') else Some (True, (the g)\<lparr>f_dir := FD_WRITE\<rparr>, k') });
          if \<not> ok0 then Some (0, f0, k0)
          else do {
            (ok, i, f1, k1) \<leftarrow> fwrite_items K p sz nb 0 f0 k0;
            if \<not> ok then Some (i, f1, k1)
            else if f_fbuf f1 = IOFBF then Some (nb, f1, k1)
            else do {
              j \<leftarrow> (if f_fbuf f1 = IOLBF then line_end (f_buf f1) (f_pos f1) (f_len f1) else Some (f_len f1));
              (ok2, f2, k2) \<leftarrow> drain K j f1 k1;
              Some (nb, f2, k2) } } }"

definition fputc :: "'k syscalls \<Rightarrow> int \<Rightarrow> FILE \<Rightarrow> 'k proc \<Rightarrow> (int \<times> FILE \<times> 'k proc) option" where
  "fputc K c f k =
     do { (n, f', k') \<leftarrow> fwrite K [to_char c] 1 1 f k;
          Some (if n \<noteq> 1 then EOF else uc (to_char c), f', k') }"

definition putc :: "'k syscalls \<Rightarrow> int \<Rightarrow> FILE \<Rightarrow> 'k proc \<Rightarrow> (int \<times> FILE \<times> 'k proc) option" where
  "putc K c f k = fputc K c f k"

text \<open>\<open>putchar\<close>, \<open>puts\<close> and \<open>getchar\<close> get the stream \<open>stdout\<close> or \<open>stdin\<close> as an argument.\<close>

definition putchar :: "'k syscalls \<Rightarrow> int \<Rightarrow> FILE \<Rightarrow> 'k proc \<Rightarrow> (int \<times> FILE \<times> 'k proc) option" where
  "putchar K c stdout k = fputc K c stdout k"

definition fputs :: "'k syscalls \<Rightarrow> string \<Rightarrow> FILE \<Rightarrow> 'k proc \<Rightarrow> (int \<times> FILE \<times> 'k proc) option" where
  "fputs K s f k =
     (if length s = 0 then Some (0, f, k)
      else do { (n, f', k') \<leftarrow> fwrite K s 1 (length s) f k;
                Some (if n = length s then 0 else EOF, f', k') })"

definition puts :: "'k syscalls \<Rightarrow> string \<Rightarrow> FILE \<Rightarrow> 'k proc \<Rightarrow> (int \<times> FILE \<times> 'k proc) option" where
  "puts K s stdout k =
     do { (n, f1, k1) \<leftarrow> fwrite K s 1 (length s) stdout k;
          if n \<noteq> length s then Some (EOF, f1, k1)
          else do { (r, f2, k2) \<leftarrow> fputc K (uc NL) f1 k1;
                    Some (if int (length s) \<le> 2 ^ 31 - 1 then int (length s) else 2 ^ 31 - 1, f2, k2) } }"

section \<open>Reading\<close>

text \<open>One item of \<open>fread\<close>: \<open>todo\<close> bytes remain; the bytes stored at \<open>ptr\<close> are collected.\<close>

partial_function (option) fread_item ::
  "'k syscalls \<Rightarrow> nat \<Rightarrow> string \<Rightarrow> FILE \<Rightarrow> 'k proc \<Rightarrow> (bool \<times> string \<times> FILE \<times> 'k proc) option" where
  "fread_item K todo acc f k =
     (if todo = 0 then Some (True, acc, f, k)
      else do {
        (ok, f1, k1) \<leftarrow>
          (if f_pos f = f_len f then
             (case sys_read K (f_fd f) (f_bufsiz f) k of
                (None, k') \<Rightarrow> Some (False, f\<lparr>f_error := True\<rparr>, k')
              | (Some d, k') \<Rightarrow>
                  if d = [] then Some (False, f\<lparr>f_eof := True\<rparr>, k')
                  else do { b \<leftarrow> bytes_to (f_buf f) 0 d;
                            Some (True, f\<lparr>f_buf := b, f_pos := 0, f_len := length d\<rparr>, k') })
           else Some (True, f, k));
        if \<not> ok then Some (False, acc, f1, k1)
        else do {
          n \<leftarrow> Some (min (size_sub (f_len f1) (f_pos f1)) todo);
          s \<leftarrow> bytes_at (f_buf f1) (f_pos f1) n;
          fread_item K (todo - n) (acc @ s) (f1\<lparr>f_pos := f_pos f1 + n\<rparr>) k1 } })"

fun fread_items ::
  "'k syscalls \<Rightarrow> nat \<Rightarrow> nat \<Rightarrow> nat \<Rightarrow> string \<Rightarrow> FILE \<Rightarrow> 'k proc \<Rightarrow> (nat \<times> string \<times> FILE \<times> 'k proc) option" where
  "fread_items K sz 0 i acc f k = Some (i, acc, f, k)"
| "fread_items K sz (Suc n) i acc f k =
     do { (ok, acc', f', k') \<leftarrow> fread_item K sz acc f k;
          if ok then fread_items K sz n (Suc i) acc' f' k' else Some (i, acc', f', k') }"

definition fread :: "'k syscalls \<Rightarrow> nat \<Rightarrow> nat \<Rightarrow> FILE \<Rightarrow> 'k proc \<Rightarrow> (nat \<times> string \<times> FILE \<times> 'k proc) option" where
  "fread K sz nb f k =
     (if f_dir f = FD_READ then fread_items K sz nb 0 [] f k
      else do { (r, g, k') \<leftarrow> fflush K (Some f) k;
                if r \<noteq> 0 then Some (0, [], the g, k')
                else fread_items K sz nb 0 [] ((the g)\<lparr>f_dir := FD_READ\<rparr>) k' })"

definition fgetc :: "'k syscalls \<Rightarrow> FILE \<Rightarrow> 'k proc \<Rightarrow> (int \<times> FILE \<times> 'k proc) option" where
  "fgetc K f k =
     do { (n, s, f', k') \<leftarrow> fread K 1 1 f k;
          Some (if n \<noteq> 1 then EOF else uc (hd s), f', k') }"

definition getc :: "'k syscalls \<Rightarrow> FILE \<Rightarrow> 'k proc \<Rightarrow> (int \<times> FILE \<times> 'k proc) option" where
  "getc K f k = fgetc K f k"

definition getchar :: "'k syscalls \<Rightarrow> FILE \<Rightarrow> 'k proc \<Rightarrow> (int \<times> FILE \<times> 'k proc) option" where
  "getchar K stdin k = fgetc K stdin k"

definition clearerr :: "FILE \<Rightarrow> FILE" where
  "clearerr f = f\<lparr>f_eof := False, f_error := False\<rparr>"

definition feof :: "FILE \<Rightarrow> bool" where "feof f = f_eof f"
definition ferror :: "FILE \<Rightarrow> bool" where "ferror f = f_error f"

definition fileno :: "FILE option \<Rightarrow> 'k proc \<Rightarrow> int \<times> 'k proc" where
  "fileno file k = (case file of None \<Rightarrow> (- 1, k\<lparr>p_errno := 9\<rparr>) | Some f \<Rightarrow> (f_fd f, k))"

text \<open>
  The loop of \<open>fgets\<close>: it stops with \<open>i\<close> at a newline, at the end of the file or at the size; the flag
  is whether \<open>fgets\<close> returns \<open>NULL\<close> from the loop. \<open>str\<close> is the memory \<open>str\<close> points to.
\<close>

function fgets_loop ::
  "'k syscalls \<Rightarrow> int \<Rightarrow> nat \<Rightarrow> mem \<Rightarrow> FILE \<Rightarrow> 'k proc \<Rightarrow> (bool \<times> nat \<times> mem \<times> FILE \<times> 'k proc) option" where
  "fgets_loop K sz i str f k =
     (if int i + 1 < sz then
        (case fgetc K f k of
           None \<Rightarrow> None
         | Some (c, f1, k1) \<Rightarrow>
             if c = EOF then Some (i = 0 \<or> \<not> feof f1, i, str, f1, k1)
             else (case store str i (to_char c) of
                     None \<Rightarrow> None
                   | Some str1 \<Rightarrow>
                       if c = uc NL then Some (False, i, str1, f1, k1)
                       else fgets_loop K sz (Suc i) str1 f1 k1))
      else Some (False, i, str, f, k))"
  by pat_completeness auto
termination
  by (relation "measure (\<lambda>(K, sz, i, str, f, k). nat (sz - int i))") auto

declare fgets_loop.simps [simp del]

text \<open>The result is whether \<open>str\<close> is returned, not \<open>NULL\<close>.\<close>

definition fgets :: "'k syscalls \<Rightarrow> mem \<Rightarrow> int \<Rightarrow> FILE \<Rightarrow> 'k proc \<Rightarrow> (bool \<times> mem \<times> FILE \<times> 'k proc) option" where
  "fgets K str sz f k =
     (if sz < 0 then Some (False, str, f, k\<lparr>p_errno := 22\<rparr>)
      else do { (null, i, str1, f1, k1) \<leftarrow> fgets_loop K sz 0 str f k;
                if null then Some (False, str1, f1, k1)
                else if int (Suc i) \<ge> sz then Some (False, str1, f1, k1)
                else do { str2 \<leftarrow> store str1 (Suc i) NUL; Some (True, str2, f1, k1) } })"

text \<open>\<open>sizeof(file->buf)\<close> is the size of a pointer. The result is the character stored.\<close>

definition ungetc :: "int \<Rightarrow> FILE \<Rightarrow> 'k proc \<Rightarrow> (int \<times> FILE \<times> 'k proc) option" where
  "ungetc c f k =
     (if c = EOF \<or> c < 0 then Some (EOF, f, k\<lparr>p_errno := 22\<rparr>)
      else if f_len f = 8 then Some (EOF, f, k\<lparr>p_errno := 105\<rparr>)
      else do { b1 \<leftarrow> memmove (f_buf f) (f_pos f + 1) (f_pos f) (size_sub (f_len f) (f_pos f));
                b2 \<leftarrow> store b1 (f_pos f) (to_char c);
                Some (uc (to_char c), f\<lparr>f_buf := b2, f_len := f_len f + 1\<rparr>, k) })"

section \<open>Opening and positioning\<close>

text \<open>\<open>_fopen_mode\<close> on the mode string; \<open>None\<close> stands for -1, with \<open>EINVAL\<close>.\<close>

definition skip_b :: "string \<Rightarrow> string" where
  "skip_b m = (if peek m = CHR ''b'' then tl m else m)"

definition mode_end :: "string \<Rightarrow> 32 word \<Rightarrow> 32 word option" where
  "mode_end m flags = (if peek (skip_b m) = NUL then Some flags else None)"

definition fopen_mode :: "string \<Rightarrow> 32 word option" where
  "fopen_mode mode =
     (if peek mode = CHR ''r'' then
        (let m = skip_b (tl mode) in
           if peek m = NUL then Some O_RDONLY
           else if peek m = CHR ''+'' then mode_end (tl m) O_RDWR else mode_end m O_RDONLY)
      else if peek mode = CHR ''w'' then
        (let m = skip_b (tl mode) in
           if peek m = NUL then Some (or O_WRONLY O_CREAT)
           else if peek m = CHR ''+'' then mode_end (tl m) (or O_RDWR O_CREAT)
           else mode_end m (or O_WRONLY O_CREAT))
      else if peek mode = CHR ''a'' then
        (let m = skip_b (tl mode) in
           if peek m = NUL then Some O_APPEND
           else if peek m = CHR ''+'' then mode_end (tl m) (or O_APPEND O_CREAT)
           else mode_end m O_APPEND)
      else None)"

definition dir_of :: "32 word \<Rightarrow> fdir" where
  "dir_of flags = (if and flags O_WRONLY \<noteq> 0 then FD_WRITE else FD_READ)"

text \<open>\<open>alloc\<close>: whether \<open>malloc\<close> succeeds; the fresh buffer holds \<open>fresh\<close>.\<close>

definition fopen_new :: "mem option \<Rightarrow> int \<Rightarrow> 32 word option \<Rightarrow> int \<Rightarrow> FILE option" where
  "fopen_new alloc fd flags fbuf =
     (case (flags, alloc) of
        (Some fl, Some fresh) \<Rightarrow>
          Some \<lparr>f_fd = fd, f_flags = fl, f_buf = fresh, f_bufsiz = BUFSIZ, f_len = 0, f_pos = 0,
             f_eof = False, f_error = False, f_fbuf = fbuf, f_dir = dir_of fl\<rparr>
      | _ \<Rightarrow> None)"

definition fdopen :: "'k syscalls \<Rightarrow> mem option \<Rightarrow> int \<Rightarrow> string \<Rightarrow> 'k proc \<Rightarrow> FILE option \<times> 'k proc" where
  "fdopen K alloc fd mode k =
     (case sys_isatty K fd k of
        (tty, k1) \<Rightarrow>
          (fopen_new alloc fd (fopen_mode mode) (if tty then IONBF else IOFBF),
           if fopen_mode mode = None then k1\<lparr>p_errno := 22\<rparr> else k1))"

definition fopen :: "'k syscalls \<Rightarrow> mem option \<Rightarrow> string \<Rightarrow> string \<Rightarrow> 'k proc \<Rightarrow> FILE option \<times> 'k proc" where
  "fopen K alloc path mode k =
     (case fopen_mode mode of
        None \<Rightarrow> (None, k\<lparr>p_errno := 22\<rparr>)
      | Some flags \<Rightarrow>
          (case sys_open K path flags 511 k of
             (fd, k1) \<Rightarrow>
               if fd < 0 then (None, k1)
               else (case sys_isatty K fd k1 of
                       (tty, k2) \<Rightarrow>
                         (case fopen_new alloc fd (Some flags) (if tty then IONBF else IOFBF) of
                            None \<Rightarrow> (None, snd (sys_close K fd k2))
                          | Some f \<Rightarrow> (Some f, k2)))))"

definition fclose :: "'k syscalls \<Rightarrow> FILE \<Rightarrow> 'k proc \<Rightarrow> (int \<times> 'k proc) option" where
  "fclose K f k =
     do { (r, g, k1) \<leftarrow> fflush K (Some f) k;
          Some (r, snd (sys_close K (f_fd (the g)) k1)) }"

text \<open>The flags -1 of a bad mode reach \<open>fcntl\<close>; the new file is opened with the old flags.\<close>

definition freopen ::
  "'k syscalls \<Rightarrow> string option \<Rightarrow> string \<Rightarrow> FILE \<Rightarrow> 'k proc \<Rightarrow> (bool \<times> FILE \<times> 'k proc) option" where
  "freopen K path mode f k =
     do { (r, g, k1) \<leftarrow> fflush K (Some f) k;
          f1 \<leftarrow> Some (the g);
          if path = None \<and> fopen_mode mode = None then
            (case sys_setfl K (f_fd f1) (- 1) (k1\<lparr>p_errno := 22\<rparr>) of
               (s, k2) \<Rightarrow>
                 if s = - 1 then Some (False, f1, k2)
                 else Some (True, f1\<lparr>f_flags := - 1, f_dir := dir_of (- 1)\<rparr>, k2))
          else
            (case sys_close K (f_fd f1) k1 of
               (s, k2) \<Rightarrow>
                 do { f2 \<leftarrow> Some (clearerr f1);
                      case fopen_mode mode of
                        None \<Rightarrow> Some (False, f2, k2\<lparr>p_errno := 22\<rparr>)
                      | Some flags \<Rightarrow>
                          do { name \<leftarrow> path;
                               case sys_open K name (f_flags f2) 511 k2 of
                                 (fd, k3) \<Rightarrow>
                                   if fd < 0 then Some (False, f2\<lparr>f_fd := fd\<rparr>, k3)
                                   else (case sys_isatty K fd k3 of
                                           (tty, k4) \<Rightarrow>
                                             Some (True, f2\<lparr>f_fd := fd, f_flags := flags, f_dir := dir_of flags,
                                                f_fbuf := (if tty then IONBF else IOFBF)\<rparr>, k4)) } }) }"

definition fseeko :: "'k syscalls \<Rightarrow> FILE \<Rightarrow> int \<Rightarrow> int \<Rightarrow> 'k proc \<Rightarrow> (int \<times> FILE \<times> 'k proc) option" where
  "fseeko K f offset whence k =
     (if whence \<noteq> SEEK_CUR \<and> whence \<noteq> SEEK_END \<and> whence \<noteq> SEEK_SET
      then Some (- 1, f, k\<lparr>p_errno := 22\<rparr>)
      else do { (r, g, k1) \<leftarrow> fflush K (Some f) k;
                if r \<noteq> 0 then Some (- 1, the g, k1)
                else (case sys_lseek K (f_fd (the g)) offset whence k1 of
                        (p, k2) \<Rightarrow> Some (if p \<noteq> - 1 then 0 else - 1, the g, k2)) })"

definition fseek :: "'k syscalls \<Rightarrow> FILE \<Rightarrow> int \<Rightarrow> int \<Rightarrow> 'k proc \<Rightarrow> (int \<times> FILE \<times> 'k proc) option" where
  "fseek K f offset whence k = fseeko K f offset whence k"

text \<open>\<open>ftell\<close> passes \<open>SEEK_CUR\<close> as the offset and 0 as \<open>whence\<close>.\<close>

definition ftell :: "'k syscalls \<Rightarrow> FILE \<Rightarrow> 'k proc \<Rightarrow> int \<times> 'k proc" where
  "ftell K f k =
     (case sys_lseek K (f_fd f) SEEK_CUR 0 k of
        (ret, k1) \<Rightarrow> (if ret < 0 then - 1 else ret - int (f_len f) + int (f_pos f), k1))"

definition rewind :: "'k syscalls \<Rightarrow> FILE \<Rightarrow> 'k proc \<Rightarrow> (FILE \<times> 'k proc) option" where
  "rewind K f k =
     do { (r, f1, k1) \<leftarrow> fseek K f 0 SEEK_SET k; Some (if r = 0 then clearerr f1 else f1, k1) }"

text \<open>The buffer given by the caller, \<open>None\<close> for \<open>NULL\<close>, becomes the buffer of the stream.\<close>

definition setvbuf :: "FILE \<Rightarrow> mem option \<Rightarrow> int \<Rightarrow> nat \<Rightarrow> 'k proc \<Rightarrow> int \<times> FILE \<times> 'k proc" where
  "setvbuf f b type sz k =
     (if f_fd f < 0 \<or> f_len f > 0 then (- 1, f, k\<lparr>p_errno := 9\<rparr>)
      else (0, f\<lparr>f_buf := (case b of None \<Rightarrow> [] | Some m \<Rightarrow> m), f_fbuf := type, f_bufsiz := sz\<rparr>, k))"

definition setbuf :: "FILE \<Rightarrow> mem option \<Rightarrow> 'k proc \<Rightarrow> FILE \<times> 'k proc" where
  "setbuf f b k = (case setvbuf f b (if b \<noteq> None then IOFBF else IONBF) BUFSIZ k of (r, f', k') \<Rightarrow> (f', k'))"

text \<open>\<open>remove\<close>: \<open>EISDIR\<close> is 21.\<close>

definition remove_file :: "'k syscalls \<Rightarrow> string \<Rightarrow> 'k proc \<Rightarrow> int \<times> 'k proc" where
  "remove_file K path k =
     (case sys_unlink K path k of
        (u, k1) \<Rightarrow>
          if u = 0 then (0, k1)
          else if p_errno k1 = 21 then
            (case sys_rmdir K path k1 of (r, k2) \<Rightarrow> if r = 0 then (0, k2) else (- 1, k2))
          else (- 1, k1))"

section \<open>Streams and kernels that behave\<close>

text \<open>
  The buffer of a stream in good order; what is in it between \<open>pos\<close> and \<open>len\<close>; a \<open>write\<close> that takes
  some bytes, or all, and delivers them to \<open>sink\<close>; a \<open>read\<close> that gives a part of the rest \<open>src\<close> of the
  input, nothing only at its end.
\<close>

definition file_wf :: "FILE \<Rightarrow> bool" where
  "file_wf f \<longleftrightarrow> f_pos f \<le> f_len f \<and> f_len f \<le> f_bufsiz f \<and> f_bufsiz f = length (f_buf f)
     \<and> 0 < f_bufsiz f \<and> f_bufsiz f < 2 ^ 64"

definition writing :: "FILE \<Rightarrow> bool" where
  "writing f \<longleftrightarrow> file_wf f \<and> f_dir f = FD_WRITE \<and> f_len f < f_bufsiz f"

definition pending :: "FILE \<Rightarrow> string" where
  "pending f = block (f_buf f) (f_pos f) (f_len f - f_pos f)"

text \<open>
  How \<open>write\<close> may behave from a state of the kernel on: it makes progress, or it takes all the bytes it is given (as a pipe
  without \<open>O_NONBLOCK\<close> does). Nothing is said about other states.
\<close>

coinductive writer :: "'k syscalls \<Rightarrow> int \<Rightarrow> ('k proc \<Rightarrow> string) \<Rightarrow> 'k proc \<Rightarrow> bool" for K fd sink where
  "(\<And>s w k'. s \<noteq> [] \<Longrightarrow> sys_write K fd s k = (w, k') \<Longrightarrow>
      0 < w \<and> w \<le> int (length s) \<and> sink k' = sink k @ take (nat w) s \<and> writer K fd sink k')
    \<Longrightarrow> writer K fd sink k"

coinductive full_writer :: "'k syscalls \<Rightarrow> int \<Rightarrow> ('k proc \<Rightarrow> string) \<Rightarrow> 'k proc \<Rightarrow> bool" for K fd sink where
  "(\<And>s w k'. sys_write K fd s k = (w, k') \<Longrightarrow>
      w = int (length s) \<and> sink k' = sink k @ s \<and> full_writer K fd sink k')
    \<Longrightarrow> full_writer K fd sink k"

definition reader :: "'k syscalls \<Rightarrow> int \<Rightarrow> ('k proc \<Rightarrow> string) \<Rightarrow> bool" where
  "reader K fd src \<longleftrightarrow>
     (\<forall>n k. 0 < n \<longrightarrow> (case sys_read K fd n k of
        (None, k') \<Rightarrow> False
      | (Some d, k') \<Rightarrow> src k = d @ src k' \<and> length d \<le> n \<and> (d = [] \<longrightarrow> src k = [])))"

lemma writerD:
  assumes "writer K fd sink k" "s \<noteq> []" "sys_write K fd s k = (w, k')"
  shows "0 < w" "w \<le> int (length s)" "sink k' = sink k @ take (nat w) s" "writer K fd sink k'"
  using assms(1) by (cases rule: writer.cases, use assms(2,3) in blast)+

lemma full_writerD:
  assumes "full_writer K fd sink k" "sys_write K fd s k = (w, k')"
  shows "w = int (length s)" "sink k' = sink k @ s" "full_writer K fd sink k'"
  using assms(1) by (cases rule: full_writer.cases, use assms(2) in blast)+

lemma full_writer_writer: "full_writer K fd sink k \<Longrightarrow> writer K fd sink k"
proof (coinduction arbitrary: k rule: writer.coinduct)
  case writer
  then show ?case using full_writerD by fastforce
qed

lemma size_sub [simp]: "b \<le> a \<Longrightarrow> a < 2 ^ 64 \<Longrightarrow> size_sub a b = a - b"
proof -
  assume "b \<le> a" "a < 2 ^ 64"
  then have "0 \<le> int a - int b" "int a < 2 ^ 64" by (simp_all add: of_nat_less_numeral_power_cancel_iff)
  then have "0 \<le> int a - int b" "int a - int b < 2 ^ 64" by linarith+
  then have "(int a - int b) mod 2 ^ 64 = int a - int b" by (rule mod_pos_pos_trivial)
  then show "size_sub a b = a - b" unfolding size_sub_def by linarith
qed

lemma drain_delivers:
  assumes "writer K (f_fd f) sink k" "f_pos f \<le> j" "j \<le> length (f_buf f)"
  shows "\<exists>k'. drain K j f k = Some (True, f\<lparr>f_pos := j\<rparr>, k') \<and> sink k' = sink k @ block (f_buf f) (f_pos f) (j - f_pos f)
    \<and> (full_writer K (f_fd f) sink k \<longrightarrow> full_writer K (f_fd f) sink k')"
  using assms
proof (induction "j - f_pos f" arbitrary: f k rule: less_induct)
  case less
  show ?case
  proof (cases "f_pos f < j")
    case False
    then show ?thesis using less.prems by (simp add: drain.simps)
  next
    case True
    let ?out = "block (f_buf f) (f_pos f) (j - f_pos f)"
    have out: "bytes_at (f_buf f) (f_pos f) (j - f_pos f) = Some ?out" "length ?out = j - f_pos f"
      using True less.prems by (simp_all add: bytes_at_def)
    obtain w k1 where w: "sys_write K (f_fd f) ?out k = (w, k1)" by fastforce
    have "?out \<noteq> []" using True out(2) by fastforce
    from writerD [OF less.prems(1) this w] out(2)
    have w_ok: "0 < w" "w \<le> int (j - f_pos f)" "sink k1 = sink k @ take (nat w) ?out" "writer K (f_fd f) sink k1" by simp_all
    let ?g = "f\<lparr>f_pos := f_pos f + nat w\<rparr>"
    have "j - f_pos ?g < j - f_pos f" "f_pos ?g \<le> j" "writer K (f_fd ?g) sink k1" "j \<le> length (f_buf ?g)"
      using w_ok True less.prems by auto
    from less.hyps [OF this(1,3,2,4)] obtain k' where k': "drain K j ?g k1 = Some (True, f\<lparr>f_pos := j\<rparr>, k')"
      "sink k' = sink k1 @ block (f_buf f) (f_pos f + nat w) (j - (f_pos f + nat w))"
      "full_writer K (f_fd f) sink k1 \<longrightarrow> full_writer K (f_fd f) sink k'" by auto
    have "full_writer K (f_fd f) sink k \<longrightarrow> full_writer K (f_fd f) sink k'" using k'(3) full_writerD(3) [OF _ w] by blast
    moreover have "drain K j f k = Some (True, f\<lparr>f_pos := j\<rparr>, k')"
      using True w_ok(1) by (subst drain.simps) (simp add: out(1) w k'(1))
    moreover have "sink k' = sink k @ ?out"
    proof -
      have "nat w \<le> j - f_pos f" using w_ok(2) by linarith
      then have "take (nat w) ?out = block (f_buf f) (f_pos f) (nat w)" by (simp add: take_block)
      then show ?thesis
        using block_split [OF \<open>nat w \<le> j - f_pos f\<close>, of "f_buf f" "f_pos f"] w_ok(3) k'(2) by simp
    qed
    ultimately show ?thesis by (intro exI [of _ k']) simp
  qed
qed

lemma fflush_delivers:
  assumes "file_wf f" "f_dir f = FD_WRITE" "writer K (f_fd f) sink k"
  shows "\<exists>k'. fflush K (Some f) k = Some (0, Some (f\<lparr>f_pos := 0, f_len := 0\<rparr>), k') \<and> sink k' = sink k @ pending f"
  using drain_delivers [OF assms(3), of "f_len f"] assms(1,2)
  by (auto simp: fflush_def file_wf_def pending_def)

text \<open>What \<open>fwrite\<close> keeps of the stream.\<close>

definition same_stream :: "FILE \<Rightarrow> FILE \<Rightarrow> bool" where
  "same_stream f g \<longleftrightarrow> f_fd g = f_fd f \<and> f_bufsiz g = f_bufsiz f \<and> f_fbuf g = f_fbuf f \<and> f_dir g = f_dir f
     \<and> f_error g = f_error f \<and> f_eof g = f_eof f"

lemma same_stream_trans: "same_stream f g \<Longrightarrow> same_stream g h \<Longrightarrow> same_stream f h"
  by (simp add: same_stream_def)

lemma fwrite_item_step:
  assumes "full_writer K (f_fd f) sink k" "writing f" "0 < todo" "todo \<le> length p"
  shows "\<exists>n f1 k1. 0 < n \<and> n \<le> todo \<and> fwrite_item K p todo f k = fwrite_item K (drop n p) (todo - n) f1 k1
    \<and> writing f1 \<and> same_stream f f1 \<and> sink k1 @ pending f1 = sink k @ pending f @ take n p
    \<and> full_writer K (f_fd f) sink k1"
proof -
  define n where "n = min (f_bufsiz f - f_len f) todo"
  define b where "b = blit (f_buf f) (f_len f) (take n p)"
  define f1 where "f1 = f\<lparr>f_buf := b, f_len := f_len f + n\<rparr>"
  have wf: "f_pos f \<le> f_len f" "f_len f < f_bufsiz f" "f_bufsiz f = length (f_buf f)" "f_bufsiz f < 2 ^ 64" "f_dir f = FD_WRITE"
    using assms(2) by (auto simp: writing_def file_wf_def)
  have n: "0 < n" "n \<le> todo" "f_len f + n \<le> f_bufsiz f" "n \<le> length p"
    using wf assms(3,4) by (auto simp: n_def)
  have sub: "size_sub (f_bufsiz f) (f_len f) = f_bufsiz f - f_len f" "size_sub (f_bufsiz f) (f_pos f) = f_bufsiz f - f_pos f"
    using wf by (intro size_sub; linarith)+
  have s: "bytes_at p 0 n = Some (take n p)" "bytes_to (f_buf f) (f_len f) (take n p) = Some b"
    using wf n by (simp_all add: bytes_at_def bytes_to_def block_def b_def)
  have lb: "length b = length (f_buf f)" using wf n by (simp add: b_def)
  have "block b (f_len f) n = take n p"
    using block_blit_self [of "f_len f" "take n p" "f_buf f"] wf n by (simp add: b_def)
  moreover have "block b (f_pos f) (f_len f - f_pos f) = pending f"
    unfolding pending_def b_def using wf n by (intro block_blit_before) simp_all
  ultimately have p1: "block b (f_pos f) (f_len f + n - f_pos f) = pending f @ take n p"
    using block_split [of "f_len f - f_pos f" "f_len f + n - f_pos f" b "f_pos f"] wf(1) by simp
  note unfold = fwrite_item.simps [of K p todo f k]
  show ?thesis
  proof (cases "f_len f + n = f_bufsiz f")
    case False
    have "f_buf f \<noteq> []" using wf by auto
    have "fwrite_item K p todo f k = fwrite_item K (drop n p) (todo - n) f1 k"
      using assms(3) False unfolding unfold sub(1) n_def [symmetric] by (simp add: s f1_def)
    moreover have "writing f1" using wf n lb False \<open>f_buf f \<noteq> []\<close> by (simp add: writing_def file_wf_def f1_def)
    moreover have "pending f1 = pending f @ take n p" using p1 by (simp add: pending_def f1_def)
    moreover have "same_stream f f1" by (simp add: same_stream_def f1_def)
    ultimately show ?thesis using n(1,2) assms(1) by (intro exI [of _ n] exI [of _ f1] exI [of _ k]) simp
  next
    case True
    let ?x = "f_bufsiz f - f_pos f"
    define f2 where "f2 = f1\<lparr>f_pos := 0, f_len := 0\<rparr>"
    have out: "bytes_at b (f_pos f) ?x = Some (pending f @ take n p)" "length (pending f @ take n p) = ?x"
      using p1 True lb wf n by (simp_all add: bytes_at_def pending_def)
    obtain k1 where k1: "sys_write K (f_fd f) (pending f @ take n p) k = (int ?x, k1)" "sink k1 = sink k @ pending f @ take n p"
      "full_writer K (f_fd f) sink k1"
      using full_writerD [OF assms(1)] out(2) by (metis surj_pair)
    have step2: "fwrite_item K p todo f k = fwrite_item K (drop n p) (todo - n) f2 k1"
      using assms(3) True unfolding unfold sub(1) n_def [symmetric]
      by (simp add: s sub(2) out(1) k1(1) f1_def f2_def)
    have "f_buf f \<noteq> []" using wf by auto
    then have w2: "writing f2" using wf lb by (simp add: writing_def file_wf_def f1_def f2_def)
    have "pending f2 = []" by (simp add: pending_def f2_def)
    moreover have "same_stream f f2" by (simp add: same_stream_def f1_def f2_def)
    ultimately show ?thesis using n(1,2) k1(2,3) w2 step2 by (intro exI [of _ n] exI [of _ f2] exI [of _ k1]) simp
  qed
qed

lemma fwrite_item_delivers:
  assumes "full_writer K (f_fd f) sink k" "writing f" "todo \<le> length p"
  shows "\<exists>f' k'. fwrite_item K p todo f k = Some (True, drop todo p, f', k') \<and> writing f' \<and> same_stream f f'
    \<and> sink k' @ pending f' = sink k @ pending f @ take todo p \<and> full_writer K (f_fd f) sink k'"
  using assms
proof (induction todo arbitrary: p f k rule: less_induct)
  case (less todo)
  show ?case
  proof (cases "todo = 0")
    case True
    then show ?thesis using less.prems by (simp add: fwrite_item.simps same_stream_def)
  next
    case False
    then obtain n f1 k1 where step: "0 < n" "n \<le> todo"
      "fwrite_item K p todo f k = fwrite_item K (drop n p) (todo - n) f1 k1" "writing f1" "same_stream f f1"
      "sink k1 @ pending f1 = sink k @ pending f @ take n p" "full_writer K (f_fd f) sink k1"
      using fwrite_item_step [OF less.prems(1,2) _ less.prems(3)] by blast
    have fd: "f_fd f1 = f_fd f" using step(5) by (simp add: same_stream_def)
    have "full_writer K (f_fd f1) sink k1" using step(7) fd by simp
    moreover have "todo - n < todo" "todo - n \<le> length (drop n p)" using step(1,2) less.prems(3) by simp_all
    ultimately obtain f' k' where ih:
      "fwrite_item K (drop n p) (todo - n) f1 k1 = Some (True, drop (todo - n) (drop n p), f', k')"
      "writing f'" "same_stream f1 f'" "sink k' @ pending f' = sink k1 @ pending f1 @ take (todo - n) (drop n p)"
      "full_writer K (f_fd f) sink k'"
      using less.IH [of "todo - n" f1 k1 "drop n p"] step(4) fd by auto
    have "drop (todo - n) (drop n p) = drop todo p" "take n p @ take (todo - n) (drop n p) = take todo p"
      using step(2) take_add [of n "todo - n" p] by simp_all
    then show ?thesis
      using ih(1,2,4,5) step(3,6) same_stream_trans [OF step(5) ih(3)] by (metis append.assoc)
  qed
qed

lemma fwrite_items_delivers:
  assumes "full_writer K (f_fd f) sink k" "writing f" "sz * nb \<le> length p"
  shows "\<exists>f' k'. fwrite_items K p sz nb i f k = Some (True, i + nb, f', k') \<and> writing f' \<and> same_stream f f'
    \<and> sink k' @ pending f' = sink k @ pending f @ take (sz * nb) p \<and> full_writer K (f_fd f) sink k'"
  using assms
proof (induction nb arbitrary: p f k i)
  case 0
  then show ?case by (simp add: same_stream_def)
next
  case (Suc nb)
  have "sz \<le> length p" "sz * nb \<le> length (drop sz p)" using Suc.prems(3) by auto
  then obtain f1 k1 where item: "fwrite_item K p sz f k = Some (True, drop sz p, f1, k1)" "writing f1" "same_stream f f1"
    "sink k1 @ pending f1 = sink k @ pending f @ take sz p" "full_writer K (f_fd f) sink k1"
    using fwrite_item_delivers [OF Suc.prems(1,2)] by metis
  have fd: "f_fd f1 = f_fd f" using item(3) by (simp add: same_stream_def)
  have "full_writer K (f_fd f1) sink k1" using item(5) fd by simp
  from Suc.IH [OF this item(2) \<open>sz * nb \<le> length (drop sz p)\<close>, of "Suc i"]
  obtain f' k' where rest: "fwrite_items K (drop sz p) sz nb (Suc i) f1 k1 = Some (True, Suc i + nb, f', k')"
    "writing f'" "same_stream f1 f'" "sink k' @ pending f' = sink k1 @ pending f1 @ take (sz * nb) (drop sz p)"
    "full_writer K (f_fd f) sink k'"
    unfolding fd by blast
  have "take (sz * Suc nb) p = take sz p @ take (sz * nb) (drop sz p)" by (simp add: take_add)
  moreover have "fwrite_items K p sz (Suc nb) i f k = Some (True, i + Suc nb, f', k')" using item(1) rest(1) by simp
  ultimately show ?case
    using rest(2,4,5) item(4) same_stream_trans [OF item(3) rest(3)] by (metis append.assoc)
qed

lemma line_end_spec:
  "j \<le> length b \<Longrightarrow> lo \<le> j \<Longrightarrow> \<exists>e. line_end b lo j = Some e \<and> lo \<le> e \<and> e \<le> j \<and> NL \<notin> set (block b e (j - e))"
proof (induction j)
  case (Suc j)
  show ?case
  proof (cases "Suc j > lo \<and> b ! j \<noteq> NL")
    case True
    then obtain e where e: "line_end b lo j = Some e" "lo \<le> e" "e \<le> j" "NL \<notin> set (block b e (j - e))"
      using Suc by auto
    moreover have "block b e (Suc j - e) = block b e (j - e) @ [b ! j]"
      using block_snoc [of e "j - e" b] e(3) Suc.prems(1) by (simp add: Suc_diff_le)
    ultimately show ?thesis using True Suc.prems(1) by (intro exI [of _ e]) simp
  next
    case False
    then have "line_end b lo (Suc j) = Some (Suc j)" using Suc.prems by auto
    then show ?thesis using Suc.prems by simp
  qed
qed simp

text \<open>What a stream keeps to itself after \<open>fwrite\<close>.\<close>

definition kept :: "FILE \<Rightarrow> bool" where
  "kept f \<longleftrightarrow> (if f_fbuf f = IOFBF then True else if f_fbuf f = IOLBF then NL \<notin> set (pending f) else pending f = [])"

lemma fwrite_writes:
  assumes "full_writer K (f_fd f) sink k" "writing f" "sz * nb \<le> length p"
  shows "\<exists>f' k'. fwrite K p sz nb f k = Some (nb, f', k') \<and> writing f' \<and> same_stream f f' \<and> kept f'
    \<and> sink k' @ pending f' = sink k @ pending f @ take (sz * nb) p \<and> full_writer K (f_fd f) sink k'"
proof -
  from fwrite_items_delivers [OF assms(1-3), of 0]
  obtain f1 k1 where items: "fwrite_items K p sz nb 0 f k = Some (True, nb, f1, k1)" "writing f1" "same_stream f f1"
    "sink k1 @ pending f1 = sink k @ pending f @ take (sz * nb) p" "full_writer K (f_fd f) sink k1" by auto
  have fd: "f_fd f1 = f_fd f" using items(3) by (simp add: same_stream_def)
  have dir: "f_dir f = FD_WRITE" using assms(2) by (simp add: writing_def)
  show ?thesis
  proof (cases "f_fbuf f1 = IOFBF")
    case True
    then have "fwrite K p sz nb f k = Some (nb, f1, k1)" using items(1) dir by (simp add: fwrite_def)
    with True items show ?thesis by (auto simp: kept_def)
  next
    case False
    have wf: "f_pos f1 \<le> f_len f1" "f_len f1 \<le> length (f_buf f1)" using items(2) by (auto simp: writing_def file_wf_def)
    obtain e where e: "(if f_fbuf f1 = IOLBF then line_end (f_buf f1) (f_pos f1) (f_len f1) else Some (f_len f1)) = Some e"
      "f_pos f1 \<le> e" "e \<le> f_len f1" "f_fbuf f1 = IOLBF \<Longrightarrow> NL \<notin> set (block (f_buf f1) e (f_len f1 - e))"
      "f_fbuf f1 \<noteq> IOLBF \<Longrightarrow> e = f_len f1"
      using line_end_spec [OF wf(2,1)] wf(1) by (cases "f_fbuf f1 = IOLBF") auto
    have "writer K (f_fd f1) sink k1" using full_writer_writer [OF items(5)] fd by simp
    from drain_delivers [OF this e(2)] e(3) wf(2) items(5) fd obtain k2
      where d: "drain K e f1 k1 = Some (True, f1\<lparr>f_pos := e\<rparr>, k2)" "sink k2 = sink k1 @ block (f_buf f1) (f_pos f1) (e - f_pos f1)"
        "full_writer K (f_fd f) sink k2"
      by auto
    let ?g = "f1\<lparr>f_pos := e\<rparr>"
    have "fwrite K p sz nb f k = Some (nb, ?g, k2)" using items(1) dir False e(1) d(1) by (simp add: fwrite_def)
    moreover have "writing ?g" using items(2) e(3) by (auto simp: writing_def file_wf_def)
    moreover have "same_stream f ?g" using items(3) by (simp add: same_stream_def)
    moreover have "kept ?g" using False e(4,5) by (simp add: kept_def pending_def)
    moreover have "sink k2 @ pending ?g = sink k1 @ pending f1"
      using block_split [of "e - f_pos f1" "f_len f1 - f_pos f1" "f_buf f1" "f_pos f1"] e(2,3) d(2)
      by (simp add: pending_def)
    ultimately show ?thesis using items(4) d(3) by auto
  qed
qed

section \<open>Reading from a kernel that behaves\<close>

definition reading :: "FILE \<Rightarrow> bool" where
  "reading f \<longleftrightarrow> file_wf f \<and> f_dir f = FD_READ"

lemma readerD:
  assumes "reader K fd src" "0 < n"
  shows "\<exists>d k'. sys_read K fd n k = (Some d, k') \<and> src k = d @ src k' \<and> length d \<le> n \<and> (d = [] \<longrightarrow> src k = [])"
  using assms(1) [unfolded reader_def, rule_format, OF assms(2), of k] by (auto split: prod.splits option.splits)

text \<open>An item takes its bytes from what is ahead, or all there is, at the end of the input.\<close>

lemma fread_item_delivers:
  assumes "reader K (f_fd f) src" "reading f"
  shows "\<exists>f' k'. fread_item K todo acc f k
      = Some (todo \<le> length (pending f @ src k), acc @ take todo (pending f @ src k), f', k')
    \<and> reading f' \<and> f_fd f' = f_fd f \<and> pending f' @ src k' = drop todo (pending f @ src k)
    \<and> f_error f' = f_error f \<and> f_eof f' = (f_eof f \<or> length (pending f @ src k) < todo)"
  using assms
proof (induction todo arbitrary: acc f k rule: less_induct)
  case (less todo)
  have wf: "f_pos f \<le> f_len f" "f_len f \<le> length (f_buf f)" "f_bufsiz f = length (f_buf f)" "0 < f_bufsiz f"
    "f_bufsiz f < 2 ^ 64" "f_dir f = FD_READ"
    using less.prems(2) by (auto simp: reading_def file_wf_def)
  note unfold = fread_item.simps [of K todo acc f k]
  have go: ?case if g: "f_pos g < f_len g" "reading g" "f_fd g = f_fd f" "pending g @ src k1 = pending f @ src k"
    "f_error g = f_error f" "f_eof g = f_eof f" "0 < todo"
    and step: "fread_item K todo acc f k =
      do { n \<leftarrow> Some (min (size_sub (f_len g) (f_pos g)) todo);
           s \<leftarrow> bytes_at (f_buf g) (f_pos g) n;
           fread_item K (todo - n) (acc @ s) (g\<lparr>f_pos := f_pos g + n\<rparr>) k1 }" for g k1
  proof -
    define n where "n = min (f_len g - f_pos g) todo"
    define h where "h = g\<lparr>f_pos := f_pos g + n\<rparr>"
    have gw: "f_len g \<le> length (f_buf g)" "f_len g < 2 ^ 64" using g(2) by (auto simp: reading_def file_wf_def)
    have n: "0 < n" "n \<le> todo" "n \<le> f_len g - f_pos g" using g(1,7) by (auto simp: n_def)
    have sub: "size_sub (f_len g) (f_pos g) = f_len g - f_pos g" using g(1) gw by simp
    have split: "pending g = block (f_buf g) (f_pos g) n @ pending h"
      using block_split [OF n(3), of "f_buf g" "f_pos g"] n(3) by (simp add: pending_def h_def)
    have lb: "length (block (f_buf g) (f_pos g) n) = n" using n(3) gw(1) g(1) by simp
    have "bytes_at (f_buf g) (f_pos g) n = Some (block (f_buf g) (f_pos g) n)"
      using n(3) gw(1) g(1) by (simp add: bytes_at_def)
    then have s: "fread_item K todo acc f k = fread_item K (todo - n) (acc @ block (f_buf g) (f_pos g) n) h k1"
      unfolding step sub n_def [symmetric] by (simp add: h_def)
    have "todo - n < todo" "reader K (f_fd h) src" "reading h"
      using n g(2,3) less.prems(1) by (auto simp: h_def reading_def file_wf_def)
    from less.IH [OF this, of "acc @ block (f_buf g) (f_pos g) n" k1] obtain f' k' where ih:
      "fread_item K (todo - n) (acc @ block (f_buf g) (f_pos g) n) h k1
        = Some (todo - n \<le> length (pending h @ src k1), (acc @ block (f_buf g) (f_pos g) n) @ take (todo - n) (pending h @ src k1), f', k')"
      "reading f'" "f_fd f' = f_fd h" "pending f' @ src k' = drop (todo - n) (pending h @ src k1)"
      "f_error f' = f_error h" "f_eof f' = (f_eof h \<or> length (pending h @ src k1) < todo - n)" by blast
    have all: "pending f @ src k = block (f_buf g) (f_pos g) n @ pending h @ src k1" using split g(4) by simp
    have "take todo (pending f @ src k) = block (f_buf g) (f_pos g) n @ take (todo - n) (pending h @ src k1)"
      "drop todo (pending f @ src k) = drop (todo - n) (pending h @ src k1)"
      "todo \<le> length (pending f @ src k) \<longleftrightarrow> todo - n \<le> length (pending h @ src k1)"
      unfolding all using lb n(2) by auto
    moreover have "length (pending f @ src k) < todo \<longleftrightarrow> length (pending h @ src k1) < todo - n"
      unfolding all using lb n(2) by auto
    moreover have "f_fd h = f_fd f" "f_error h = f_error f" "f_eof h = f_eof f" using g by (simp_all add: h_def)
    ultimately show ?thesis unfolding s using ih by (intro exI [of _ f'] exI [of _ k']) simp
  qed
  show ?case
  proof (cases "todo = 0")
    case True
    then show ?thesis using less.prems(2) unfolding unfold by simp
  next
    case todo: False
    show ?thesis
    proof (cases "f_pos f = f_len f")
      case False
      show ?thesis
        by (rule go [of f k]) (use False todo wf(1) less.prems(2) in \<open>simp_all add: unfold\<close>)
    next
      case True
      then have empty: "pending f = []" by (simp add: pending_def)
      obtain d k1 where d: "sys_read K (f_fd f) (f_bufsiz f) k = (Some d, k1)" "src k = d @ src k1"
        "length d \<le> f_bufsiz f" "d = [] \<longrightarrow> src k = []"
        using readerD [OF less.prems(1) wf(4)] by blast
      show ?thesis
      proof (cases "d = []")
        case True
        let ?g = "f\<lparr>f_eof := True\<rparr>"
        have "fread_item K todo acc f k = Some (False, acc, ?g, k1)"
          unfolding unfold using todo \<open>f_pos f = f_len f\<close> d(1) True by simp
        moreover have "reading ?g" "pending ?g = []" "src k1 = []"
          using less.prems(2) empty d(2,4) True by (auto simp: reading_def file_wf_def pending_def)
        ultimately show ?thesis using todo empty d(4) True by (intro exI [of _ ?g] exI [of _ k1]) simp
      next
        case False
        define g where "g = f\<lparr>f_buf := blit (f_buf f) 0 d, f_pos := 0, f_len := length d\<rparr>"
        have b: "bytes_to (f_buf f) 0 d = Some (blit (f_buf f) 0 d)" using d(3) wf(3) by (simp add: bytes_to_def)
        have pg: "pending g = d" using block_blit_self [of 0 d "f_buf f"] d(3) wf(3) by (simp add: pending_def g_def)
        have "reading g" using less.prems(2) d(3) wf by (simp add: reading_def file_wf_def g_def)
        moreover have "fread_item K todo acc f k =
          do { n \<leftarrow> Some (min (size_sub (f_len g) (f_pos g)) todo);
               s \<leftarrow> bytes_at (f_buf g) (f_pos g) n;
               fread_item K (todo - n) (acc @ s) (g\<lparr>f_pos := f_pos g + n\<rparr>) k1 }"
          unfolding unfold using todo True d(1) False b by (simp add: g_def)
        ultimately show ?thesis using False todo empty d(2) pg by (intro go [of g k1]) (simp_all add: g_def)
      qed
    qed
  qed
qed

lemma fread_items_delivers:
  assumes "reader K (f_fd f) src" "reading f" "0 < sz"
  shows "\<exists>f' k'. fread_items K sz nb i acc f k
      = Some (i + min nb (length (pending f @ src k) div sz), acc @ take (sz * nb) (pending f @ src k), f', k')
    \<and> reading f' \<and> f_fd f' = f_fd f \<and> pending f' @ src k' = drop (sz * nb) (pending f @ src k)
    \<and> f_error f' = f_error f \<and> f_eof f' = (f_eof f \<or> length (pending f @ src k) < sz * nb)"
  using assms
proof (induction nb arbitrary: i acc f k)
  case 0
  then show ?case by simp
next
  case (Suc nb)
  let ?all = "pending f @ src k"
  obtain f1 k1 where item: "fread_item K sz acc f k = Some (sz \<le> length ?all, acc @ take sz ?all, f1, k1)"
    "reading f1" "f_fd f1 = f_fd f" "pending f1 @ src k1 = drop sz ?all" "f_error f1 = f_error f"
    "f_eof f1 = (f_eof f \<or> length ?all < sz)"
    using fread_item_delivers [OF Suc.prems(1,2), of sz acc k] by blast
  show ?case
  proof (cases "sz \<le> length ?all")
    case True
    have "reader K (f_fd f1) src" using Suc.prems(1) item(3) by simp
    from Suc.IH [OF this item(2) Suc.prems(3), of "Suc i" "acc @ take sz ?all" k1] obtain f' k' where ih:
      "fread_items K sz nb (Suc i) (acc @ take sz ?all) f1 k1
        = Some (Suc i + min nb (length (drop sz ?all) div sz), (acc @ take sz ?all) @ take (sz * nb) (drop sz ?all), f', k')"
      "reading f'" "f_fd f' = f_fd f1" "pending f' @ src k' = drop (sz * nb) (drop sz ?all)" "f_error f' = f_error f1"
      "f_eof f' = (f_eof f1 \<or> length (drop sz ?all) < sz * nb)" unfolding item(4) by blast
    have "take (sz * Suc nb) ?all = take sz ?all @ take (sz * nb) (drop sz ?all)"
      using take_add [of sz "sz * nb" ?all] by (simp del: take_append drop_append)
    moreover have "drop (sz * Suc nb) ?all = drop (sz * nb) (drop sz ?all)"
      by (simp add: add.commute del: drop_append)
    moreover have "Suc i + min nb (length (drop sz ?all) div sz) = i + min (Suc nb) (length ?all div sz)"
      using True Suc.prems(3) by (simp add: le_div_geq del: drop_append length_append)
    moreover have "length (drop sz ?all) < sz * nb \<longleftrightarrow> length ?all < sz * Suc nb"
      using True by (auto simp del: drop_append length_append)
    moreover have "fread_items K sz (Suc nb) i acc f k = fread_items K sz nb (Suc i) (acc @ take sz ?all) f1 k1"
      using item(1) True by simp
    ultimately show ?thesis using ih item True
      by (intro exI [of _ f'] exI [of _ k']) (auto simp del: take_append drop_append)
  next
    case False
    have "fread_items K sz (Suc nb) i acc f k = Some (i, acc @ take sz ?all, f1, k1)" using item(1) False by simp
    moreover have "length ?all div sz = 0" "take (sz * Suc nb) ?all = take sz ?all" "drop (sz * Suc nb) ?all = drop sz ?all"
      "length ?all < sz * Suc nb"
      using False by auto
    ultimately show ?thesis using item False
      by (intro exI [of _ f1] exI [of _ k1]) (auto simp del: take_append drop_append)
  qed
qed

lemma fread_reads:
  assumes "reader K (f_fd f) src" "reading f" "0 < sz"
  shows "\<exists>f' k'. fread K sz nb f k
      = Some (min nb (length (pending f @ src k) div sz), take (sz * nb) (pending f @ src k), f', k')
    \<and> reading f' \<and> f_fd f' = f_fd f \<and> pending f' @ src k' = drop (sz * nb) (pending f @ src k)
    \<and> f_error f' = f_error f \<and> f_eof f' = (f_eof f \<or> length (pending f @ src k) < sz * nb)"
  using fread_items_delivers [OF assms, of nb 0 "[]" k] assms(2) by (simp add: fread_def reading_def)

lemma fgetc_reads:
  assumes "reader K (f_fd f) src" "reading f"
  shows "\<exists>f' k'. fgetc K f k = Some (if pending f @ src k = [] then EOF else uc (hd (pending f @ src k)), f', k')
    \<and> reading f' \<and> f_fd f' = f_fd f \<and> pending f' @ src k' = tl (pending f @ src k)
    \<and> f_eof f' = (f_eof f \<or> pending f @ src k = [])"
proof -
  obtain f' k' where r: "fread K 1 1 f k = Some (min 1 (length (pending f @ src k)), take 1 (pending f @ src k), f', k')"
    "reading f'" "f_fd f' = f_fd f" "pending f' @ src k' = drop 1 (pending f @ src k)"
    "f_eof f' = (f_eof f \<or> length (pending f @ src k) < 1)"
    using fread_reads [OF assms, of 1 1 k] by auto
  show ?thesis
    using r by (cases "pending f @ src k") (simp_all add: fgetc_def drop_Suc)
qed

lemma fgets_loop_prefix:
  assumes "reader K (f_fd f) src" "reading f" "pending f @ src k = line @ rest" "NL \<notin> set line"
    and "int i + int (length line) + 1 \<le> sz" "sz \<le> int (length str)"
  shows "\<exists>f' k'. fgets_loop K sz i str f k = fgets_loop K sz (i + length line) (blit str i line) f' k'
    \<and> reading f' \<and> f_fd f' = f_fd f \<and> pending f' @ src k' = rest \<and> f_eof f' = f_eof f"
  using assms
proof (induction line arbitrary: i str f k)
  case Nil
  then show ?case by (intro exI [of _ f] exI [of _ k]) (simp add: blit_def)
next
  case (Cons c line)
  obtain f1 k1 where g: "fgetc K f k = Some (uc c, f1, k1)" "reading f1" "f_fd f1 = f_fd f"
    "pending f1 @ src k1 = line @ rest" "f_eof f1 = f_eof f"
    using fgetc_reads [OF Cons.prems(1,2), of k] unfolding Cons.prems(3) by auto
  have c: "uc c \<noteq> EOF" "uc c \<noteq> uc NL" using uc_bounds(1) [of c] Cons.prems(4) by (auto simp: EOF_def)
  have i: "int i + 1 < sz" "i < length str" using Cons.prems(5,6) by auto
  have "fgets_loop K sz i str f k = fgets_loop K sz (Suc i) (str[i := c]) f1 k1"
    by (subst fgets_loop.simps) (simp only: i g(1) c option.case prod.case if_True if_False to_char_uc store_in)
  moreover have "reader K (f_fd f1) src" using Cons.prems(1) g(3) by simp
  from Cons.IH [OF this g(2,4), of "Suc i" "str[i := c]"] Cons.prems(4-6) obtain f' k' where
    "fgets_loop K sz (Suc i) (str[i := c]) f1 k1 = fgets_loop K sz (Suc i + length line) (blit (str[i := c]) (Suc i) line) f' k'"
    "reading f'" "f_fd f' = f_fd f1" "pending f' @ src k' = rest" "f_eof f' = f_eof f1" by auto
  ultimately show ?case using g(3,5) i(2) by (auto simp: blit_Cons)
qed

section \<open>Properties\<close>

text \<open>
  C10: As long as every \<open>write\<close> takes all the bytes it is given, \<open>fwrite\<close> reports all items written, and
  what the kernel got and what the stream still holds are together what they were before,
  followed by the new data, in order. An unbuffered stream holds nothing back, a line buffered one no complete line; and
  \<open>fflush\<close> then delivers the rest.
\<close>

theorem fwrite_delivers:
  assumes "full_writer K (f_fd f) sink k" "writing f" "length p = sz * nb"
  shows "\<exists>f' k' k''. fwrite K p sz nb f k = Some (nb, f', k') \<and> writing f' \<and> kept f'
    \<and> sink k' @ pending f' = sink k @ pending f @ p
    \<and> fflush K (Some f') k' = Some (0, Some (f'\<lparr>f_pos := 0, f_len := 0\<rparr>), k'') \<and> sink k'' = sink k @ pending f @ p"
proof -
  obtain f' k' where w: "fwrite K p sz nb f k = Some (nb, f', k')" "writing f'" "same_stream f f'" "kept f'"
    "sink k' @ pending f' = sink k @ pending f @ p" "full_writer K (f_fd f) sink k'"
    using fwrite_writes [OF assms(1,2) eq_refl [OF assms(3) [symmetric]]] assms(3) by auto
  have "file_wf f'" "f_dir f' = FD_WRITE" "writer K (f_fd f') sink k'"
    using w(2,3) full_writer_writer [OF w(6)] by (auto simp: writing_def same_stream_def)
  from fflush_delivers [OF this] w show ?thesis by auto
qed

text \<open>A kernel that keeps the bytes it is given, and one that takes at most three at a time.\<close>

definition accept :: "nat \<Rightarrow> int \<Rightarrow> string \<Rightarrow> string proc \<Rightarrow> int \<times> string proc" where
  "accept c fd s k = (int (min c (length s)), k\<lparr>p_kernel := p_kernel k @ take c s\<rparr>)"

definition demo_calls :: "(int \<Rightarrow> string \<Rightarrow> string proc \<Rightarrow> int \<times> string proc) \<Rightarrow> string syscalls" where
  "demo_calls wr =
     \<lparr>sys_write = wr, sys_read = (\<lambda>fd n k. (Some (take n (p_kernel k)), k\<lparr>p_kernel := drop n (p_kernel k)\<rparr>)),
      sys_lseek = (\<lambda>fd off whence k. (off, k)), sys_open = (\<lambda>path fl m k. (3, k)), sys_close = (\<lambda>fd k. (0, k)),
      sys_isatty = (\<lambda>fd k. (False, k)), sys_setfl = (\<lambda>fd fl k. (0, k)), sys_unlink = (\<lambda>p k. (0, k)),
      sys_rmdir = (\<lambda>p k. (0, k))\<rparr>"

definition all_calls :: "string syscalls" where
  "all_calls = demo_calls (\<lambda>fd s k. (int (length s), k\<lparr>p_kernel := p_kernel k @ s\<rparr>))"

definition demo_file :: "fdir \<Rightarrow> FILE" where
  "demo_file d = \<lparr>f_fd = 3, f_flags = O_RDWR, f_buf = replicate 8 NUL, f_bufsiz = 8, f_len = 0, f_pos = 0,
     f_eof = False, f_error = False, f_fbuf = IOFBF, f_dir = d\<rparr>"

lemma demo_full_writer: "full_writer all_calls fd p_kernel k"
  by (coinduction arbitrary: k rule: full_writer.coinduct) (auto simp: all_calls_def demo_calls_def)

lemma demo_kernel:
  "full_writer all_calls fd p_kernel k" "reader all_calls fd p_kernel" "writing (demo_file FD_WRITE)" "reading (demo_file FD_READ)"
  "pending (demo_file d) = []"
  using demo_full_writer by (auto simp: reader_def all_calls_def demo_calls_def writing_def reading_def file_wf_def demo_file_def pending_def)

theorem fwrite_delivers_witness:
  "\<exists>f' k' k''. fwrite all_calls ''abcdefghij'' 5 2 (demo_file FD_WRITE) \<lparr>p_kernel = [], p_errno = 0\<rparr> = Some (2, f', k')
    \<and> writing f' \<and> kept f'
    \<and> p_kernel k' @ pending f' = p_kernel \<lparr>p_kernel = [], p_errno = 0\<rparr> @ pending (demo_file FD_WRITE) @ ''abcdefghij''
    \<and> fflush all_calls (Some f') k' = Some (0, Some (f'\<lparr>f_pos := 0, f_len := 0\<rparr>), k'')
    \<and> p_kernel k'' = p_kernel \<lparr>p_kernel = [], p_errno = 0\<rparr> @ pending (demo_file FD_WRITE) @ ''abcdefghij''"
  by (rule fwrite_delivers [OF demo_kernel(1,3)]) simp

lemma fwrite_item_stuck:
  assumes "fwrite_item K p todo f k = Some y" "0 < todo \<and> f_len f = f_bufsiz f \<and> 2 * f_pos f < f_bufsiz f
    \<and> f_bufsiz f < 2 ^ 64 \<and> (\<forall>s k. 0 \<le> fst (sys_write K (f_fd f) s k) \<and> 2 * fst (sys_write K (f_fd f) s k) < int (f_bufsiz f))"
  shows False
  using assms(2)
proof (induction rule: fwrite_item.raw_induct [OF _ assms(1), consumes 0, case_names step])
  case (step rec K p todo f k y)
  let ?c = "f_pos f" and ?L = "f_bufsiz f"
  let ?out = "block (f_buf f) ?c (?L - ?c)"
  have pre: "0 < todo" "f_len f = ?L" "2 * ?c < ?L" "?L < 2 ^ 64"
    "\<And>s k. 0 \<le> fst (sys_write K (f_fd f) s k) \<and> 2 * fst (sys_write K (f_fd f) s k) < int ?L" using step.prems by blast+
  have z: "size_sub ?L (f_len f) = 0" "size_sub ?L ?c = ?L - ?c"
    using pre by simp_all
  obtain w k1 where w: "sys_write K (f_fd f) ?out k = (w, k1)" by fastforce
  have bounds: "0 \<le> w" "2 * w < int ?L" using pre(5) [of ?out k] w by simp_all
  show ?case
  proof (cases "?L \<le> length (f_buf f)")
    case True
    have "bytes_at (f_buf f) ?c (?L - ?c) = Some ?out"
      using True pre by (simp add: bytes_at_def)
    moreover have "bytes_at p 0 0 = Some []" by (simp add: bytes_at_def)
    moreover have "nat w \<noteq> ?L - ?c" using bounds pre(3) by linarith
    ultimately have "rec K (drop 0 p) (todo - 0) (f\<lparr>f_buf := f_buf f, f_len := f_len f + 0, f_pos := nat w\<rparr>) k1 = Some y"
      using step.hyps pre w z bounds(1) by (simp add: bytes_to_def)
    then show False
    proof (rule step.IH)
      have "2 * nat w < ?L" using bounds by linarith
      with pre show "0 < todo - 0 \<and> f_len (f\<lparr>f_buf := f_buf f, f_len := f_len f + 0, f_pos := nat w\<rparr>)
          = f_bufsiz (f\<lparr>f_buf := f_buf f, f_len := f_len f + 0, f_pos := nat w\<rparr>)
        \<and> 2 * f_pos (f\<lparr>f_buf := f_buf f, f_len := f_len f + 0, f_pos := nat w\<rparr>)
          < f_bufsiz (f\<lparr>f_buf := f_buf f, f_len := f_len f + 0, f_pos := nat w\<rparr>)
        \<and> f_bufsiz (f\<lparr>f_buf := f_buf f, f_len := f_len f + 0, f_pos := nat w\<rparr>) < 2 ^ 64
        \<and> (\<forall>s k. 0 \<le> fst (sys_write K (f_fd (f\<lparr>f_buf := f_buf f, f_len := f_len f + 0, f_pos := nat w\<rparr>)) s k)
          \<and> 2 * fst (sys_write K (f_fd (f\<lparr>f_buf := f_buf f, f_len := f_len f + 0, f_pos := nat w\<rparr>)) s k)
            < int (f_bufsiz (f\<lparr>f_buf := f_buf f, f_len := f_len f + 0, f_pos := nat w\<rparr>)))" by simp
    qed
  next
    case False
    then have "bytes_at (f_buf f) ?c (?L - ?c) = None" "bytes_at p 0 0 = Some []"
      using pre by (simp_all add: bytes_at_def)
    then show False using step.hyps pre z by (simp add: bytes_to_def)
  qed
qed

text \<open>
  C36: A \<open>write\<close> that takes only a part of a full buffer stops the stream for good: \<open>fwrite\<close> sets \<open>pos\<close>
  to what the last \<open>write\<close> took, instead of adding it, and as long as every \<open>write\<close> takes less than half of
  the buffer, however much each time, the next \<open>fwrite\<close> writes bytes of the same buffer over and over and never returns.
\<close>

theorem fwrite_short_write:
  assumes "writing f" "f_pos f = 0" "f_len f = 0" "f_fbuf f = IOFBF" "length p = f_bufsiz f" "p \<noteq> []"
    and "\<And>s k. 0 \<le> fst (sys_write K (f_fd f) s k) \<and> 2 * fst (sys_write K (f_fd f) s k) < int (f_bufsiz f)"
  shows "\<exists>f' k'. fwrite K p (length p) 1 f k = Some (1, f', k') \<and> fwrite K [x] 1 1 f' k' = None"
proof -
  obtain w k1 where w: "sys_write K (f_fd f) p k = (w, k1)" by fastforce
  have b: "0 \<le> w" "2 * w < int (f_bufsiz f)" using assms(7) [of p k] w by simp_all
  define f' where "f' = f\<lparr>f_buf := p, f_len := length p, f_pos := nat w\<rparr>"
  have wf: "length (f_buf f) = length p" "length p < 2 ^ 64" "f_dir f = FD_WRITE" "nat w \<noteq> length p" "2 * nat w < length p"
    using assms(1,5) b by (auto simp: writing_def file_wf_def)
  have item: "fwrite_item K p (length p) f k = Some (True, [], f', k1)"
    using wf assms(2,3,5,6) w b
    by (subst fwrite_item.simps) (simp add: bytes_at_def bytes_to_def blit_def block_def f'_def fwrite_item.simps [of K "[]"])
  then have 1: "fwrite K p (length p) 1 f k = Some (1, f', k1)"
    using wf(3) assms(4) by (simp add: fwrite_def f'_def)
  have "fwrite_item K [x] 1 f' k1 = None"
  proof (cases "fwrite_item K [x] 1 f' k1")
    case (Some y)
    have "f_len f' = f_bufsiz f'" "f_pos f' = nat w" "f_fd f' = f_fd f" "f_bufsiz f' = length p" using assms(5) by (simp_all add: f'_def)
    then show ?thesis using fwrite_item_stuck [OF Some] assms(5,7) wf(2,5) by simp
  qed simp
  then have "fwrite K [x] 1 1 f' k1 = None" using wf(3) by (simp add: fwrite_def f'_def)
  with 1 show ?thesis by blast
qed

theorem fwrite_short_write_witness:
  "\<exists>f' k'. fwrite (demo_calls (accept 3)) ''abcdefgh'' (length ''abcdefgh'') 1 (demo_file FD_WRITE) \<lparr>p_kernel = [], p_errno = 0\<rparr>
      = Some (1, f', k') \<and> fwrite (demo_calls (accept 3)) [CHR ''i''] 1 1 f' k' = None"
  by (rule fwrite_short_write [OF demo_kernel(3)])
    (simp_all add: demo_file_def demo_calls_def accept_def)

text \<open>
  C11: With a kernel that gives the input in pieces of any length, \<open>fread\<close> returns the number of
  complete items there are, up to the number asked for, and stores the bytes of the input in order, first what
  the stream holds; what is not read stays for the next call, and the end-of-file indicator is set when the input is
  too short.
\<close>

theorem fread_delivers:
  assumes "reader K (f_fd f) src" "reading f" "0 < sz"
  shows "\<exists>f' k'. fread K sz nb f k
      = Some (min nb (length (pending f @ src k) div sz), take (sz * nb) (pending f @ src k), f', k')
    \<and> reading f' \<and> pending f' @ src k' = drop (sz * nb) (pending f @ src k)
    \<and> f_eof f' = (f_eof f \<or> length (pending f @ src k) < sz * nb)"
  using fread_reads [OF assms, of nb k] by blast

theorem fread_delivers_witness:
  "\<exists>f' k'. fread all_calls 2 3 (demo_file FD_READ) \<lparr>p_kernel = ''abcde'', p_errno = 0\<rparr>
      = Some (min 3 (length (pending (demo_file FD_READ) @ p_kernel \<lparr>p_kernel = ''abcde'', p_errno = 0\<rparr>) div 2),
          take (2 * 3) (pending (demo_file FD_READ) @ p_kernel \<lparr>p_kernel = ''abcde'', p_errno = 0\<rparr>), f', k')
    \<and> reading f' \<and> pending f' @ p_kernel k' = drop (2 * 3) (pending (demo_file FD_READ) @ p_kernel \<lparr>p_kernel = ''abcde'', p_errno = 0\<rparr>)
    \<and> f_eof f' = (f_eof (demo_file FD_READ)
        \<or> length (pending (demo_file FD_READ) @ p_kernel \<lparr>p_kernel = ''abcde'', p_errno = 0\<rparr>) < 2 * 3)"
  by (rule fread_delivers [OF demo_kernel(2,4)]) simp

text \<open>
  \<open>fgets\<close> reads a line that fits, with its newline, and ends it. But the last line of a file that
  does not end in a newline comes with one byte of whatever was in \<open>str\<close> before behind it, as the terminator
  is stored one place too far.
\<close>

theorem fgets_lines:
  assumes "reader K (f_fd f) src" "reading f" "NL \<notin> set line"
    and "int (length line) + 2 \<le> sz" "sz \<le> int (length str)"
    and "pending f @ src k = line @ rest" "rest = [] \<and> line \<noteq> [] \<or> rest = NL # rest'"
  shows "\<exists>f' k'. fgets K str sz f k
      = Some (True, blit str 0 (line @ (if rest = [] then [str ! length line, NUL] else [NL, NUL])), f', k')
    \<and> pending f' @ src k' = tl rest"
proof -
  obtain f1 k1 where 1: "fgets_loop K sz 0 str f k = fgets_loop K sz (length line) (blit str 0 line) f1 k1"
    "reading f1" "f_fd f1 = f_fd f" "pending f1 @ src k1 = rest"
    using fgets_loop_prefix [OF assms(1,2,6,3), of 0 sz str] assms(4,5) by auto
  have "reader K (f_fd f1) src" using assms(1) 1(3) by simp
  from fgetc_reads [OF this 1(2), of k1] obtain f2 k2 where 2:
    "fgetc K f1 k1 = Some (if rest = [] then EOF else uc (hd rest), f2, k2)" "pending f2 @ src k2 = tl rest"
    "f_eof f2 = (f_eof f1 \<or> rest = [])" unfolding 1(4) by blast
  let ?n = "length line"
  have n: "int ?n + 1 < sz" "Suc ?n < length str" "\<not> sz < 0" "\<not> int (Suc ?n) \<ge> sz" using assms(4,5) by auto
  have nl: "uc NL \<noteq> EOF" by (simp add: EOF_def uc_def)
  show ?thesis
  proof (cases "rest = []")
    case True
    then have "fgets_loop K sz 0 str f k = Some (False, ?n, blit str 0 line, f2, k2)"
      unfolding 1(1) using assms(7) n(1) 2 by (subst fgets_loop.simps) (simp add: feof_def)
    moreover have "store (blit str 0 line) (Suc ?n) NUL = Some (blit str 0 (line @ [str ! ?n, NUL]))"
    proof -
      have "blit str 0 line = blit str 0 (line @ [str ! ?n])"
        using n(2) by (intro nth_equalityI) (auto simp: nth_blit nth_append less_Suc_eq)
      then show ?thesis using n(2) blit_end [of 0 "line @ [str ! ?n]" str NUL] by simp
    qed
    ultimately show ?thesis using n True 2(2) by (simp add: fgets_def)
  next
    case False
    then have rest: "rest = NL # rest'" using assms(7) by blast
    have "fgets_loop K sz 0 str f k = Some (False, ?n, (blit str 0 line)[?n := NL], f2, k2)"
      unfolding 1(1) using n(1,2) 2 rest nl by (subst fgets_loop.simps) simp
    moreover have "store ((blit str 0 line)[?n := NL]) (Suc ?n) NUL = Some (blit str 0 (line @ [NL, NUL]))"
      using n(2) blit_end [of 0 line str NL] blit_end [of 0 "line @ [NL]" str NUL] by simp
    ultimately show ?thesis using n rest 2(2) by (simp add: fgets_def)
  qed
qed

theorem fgets_lines_witness:
  "\<exists>f' k'. fgets all_calls ''......'' 6 (demo_file FD_READ) \<lparr>p_kernel = ''ab'', p_errno = 0\<rparr>
      = Some (True, blit ''......'' 0 (''ab'' @ (if ([]::string) = [] then [''......'' ! length ''ab'', NUL] else [NL, NUL])), f', k')
    \<and> pending f' @ p_kernel k' = tl []"
  by (rule fgets_lines [OF demo_kernel(2,4)]) (simp_all add: demo_kernel(5))

text \<open>
  A character put back by \<open>ungetc\<close> is the next one read, and the rest of the input is not
  changed, as long as there is room in the buffer and it does not happen to hold eight bytes, the size of a pointer.
\<close>

theorem ungetc_fgetc:
  assumes "reader K (f_fd f) src" "reading f" "f_len f < f_bufsiz f" "f_len f \<noteq> 8"
  shows "\<exists>f1 f2 k2. ungetc (uc c) f k = Some (uc c, f1, k) \<and> fgetc K f1 k = Some (uc c, f2, k2)
    \<and> pending f2 @ src k2 = pending f @ src k"
proof -
  have wf: "f_pos f \<le> f_len f" "f_len f < length (f_buf f)" "f_len f < 2 ^ 64" "f_bufsiz f = length (f_buf f)"
    using assms(2,3) by (auto simp: reading_def file_wf_def)
  let ?b1 = "blit (f_buf f) (f_pos f + 1) (pending f)"
  define f1 where "f1 = f\<lparr>f_buf := ?b1[f_pos f := c], f_len := f_len f + 1\<rparr>"
  have lp: "length (pending f) = f_len f - f_pos f" using wf by (simp add: pending_def)
  have mv: "memmove (f_buf f) (f_pos f + 1) (f_pos f) (f_len f - f_pos f) = Some ?b1"
    unfolding pending_def using wf by (intro memmove_blit) simp_all
  have "uc c \<noteq> EOF" "\<not> uc c < 0" using uc_bounds(1) [of c] by (auto simp: EOF_def)
  then have u: "ungetc (uc c) f k = Some (uc c, f1, k)"
    using assms(4) mv wf lp by (simp add: ungetc_def f1_def)
  have "pending f1 = c # pending f"
  proof (rule nth_equalityI)
    show "length (pending f1) = length (c # pending f)" using wf lp by (simp add: pending_def f1_def)
    show "pending f1 ! i = (c # pending f) ! i" if "i < length (pending f1)" for i
    proof -
      have "i < f_len f + 1 - f_pos f" using that wf lp by (simp add: pending_def f1_def)
      then have "pending f1 ! i = f_buf f1 ! (f_pos f + i)" using wf lp by (simp add: pending_def f1_def)
      then show ?thesis
        using \<open>i < f_len f + 1 - f_pos f\<close> wf lp by (cases i) (auto simp: f1_def nth_blit)
    qed
  qed
  moreover have "reader K (f_fd f1) src" "reading f1" using assms(1,2) wf lp by (auto simp: f1_def reading_def file_wf_def)
  ultimately obtain f2 k2 where "fgetc K f1 k = Some (uc c, f2, k2)" "pending f2 @ src k2 = pending f @ src k"
    using fgetc_reads [of K f1 src k] by fastforce
  with u show ?thesis by blast
qed

theorem ungetc_fgetc_witness:
  "\<exists>f1 f2 k2. ungetc (uc CHR ''x'') (demo_file FD_READ) \<lparr>p_kernel = ''ab'', p_errno = 0\<rparr>
      = Some (uc CHR ''x'', f1, \<lparr>p_kernel = ''ab'', p_errno = 0\<rparr>)
    \<and> fgetc all_calls f1 \<lparr>p_kernel = ''ab'', p_errno = 0\<rparr> = Some (uc CHR ''x'', f2, k2)
    \<and> pending f2 @ p_kernel k2 = pending (demo_file FD_READ) @ p_kernel \<lparr>p_kernel = ''ab'', p_errno = 0\<rparr>"
  by (rule ungetc_fgetc [OF demo_kernel(2,4)]) (simp_all add: demo_file_def)

text \<open>The flags of a mode: its letter, and whether it has a plus sign.\<close>

definition mode_flags :: "char \<Rightarrow> bool \<Rightarrow> 32 word" where
  "mode_flags c rw =
     (if c = CHR ''r'' then (if rw then O_RDWR else O_RDONLY)
      else if c = CHR ''w'' then (if rw then or O_RDWR O_CREAT else or O_WRONLY O_CREAT)
      else (if rw then or O_APPEND O_CREAT else O_APPEND))"

lemma peek_nonnul: "NUL \<notin> set m \<Longrightarrow> peek m = NUL \<longleftrightarrow> m = []"
  by (cases m) auto

lemma nonnul_skip_b: "NUL \<notin> set m \<Longrightarrow> NUL \<notin> set (skip_b m)"
  by (cases m) (auto simp: skip_b_def)

lemma mode_end_iff: "NUL \<notin> set m \<Longrightarrow> mode_end m fl = Some r \<longleftrightarrow> (m = [] \<or> m = ''b'') \<and> r = fl"
  using peek_nonnul [OF nonnul_skip_b [of m]]
  by (cases m) (auto simp: mode_end_def skip_b_def)

definition mode_tail :: "string \<Rightarrow> 32 word \<Rightarrow> 32 word \<Rightarrow> 32 word option" where
  "mode_tail m plain rw =
     (if peek m = NUL then Some plain else if peek m = CHR ''+'' then mode_end (tl m) rw else mode_end m plain)"

lemma mode_tail_iff:
  assumes "NUL \<notin> set m"
  shows "mode_tail m plain rw = Some r \<longleftrightarrow>
    m \<in> {[], ''b''} \<and> r = plain \<or> m \<in> {''+'', ''+b''} \<and> r = rw"
proof (cases m)
  case (Cons c m')
  with assms have "NUL \<notin> set m'" "c \<noteq> NUL" by auto
  then show ?thesis
    using assms by (auto simp: Cons mode_tail_def mode_end_iff)
qed (auto simp: mode_tail_def)

lemma fopen_mode_tail:
  "fopen_mode mode =
     (if peek mode \<in> {CHR ''r'', CHR ''w'', CHR ''a''}
      then mode_tail (skip_b (tl mode)) (mode_flags (peek mode) False) (mode_flags (peek mode) True) else None)"
  by (auto simp: fopen_mode_def mode_tail_def mode_flags_def Let_def)

text \<open>
  \<open>_fopen_mode\<close> accepts exactly a letter \<open>r\<close>, \<open>w\<close> or \<open>a\<close>, then optionally \<open>b\<close>, \<open>+\<close> and \<open>b\<close> again,
  in this order. No mode sets \<open>O_TRUNC\<close>, and those for appending do not allow writing: they open the stream
  for reading.
\<close>

theorem fopen_mode_table:
  assumes "NUL \<notin> set mode"
  shows "(fopen_mode mode = Some fl \<longleftrightarrow>
    (\<exists>c \<in> {CHR ''r'', CHR ''w'', CHR ''a''}. \<exists>b \<in> {[], ''b''}. \<exists>rw \<in> {[], ''+''}. \<exists>b' \<in> {[], ''b''}.
       mode = c # b @ rw @ b' \<and> fl = mode_flags c (rw \<noteq> [])))
    \<and> dir_of (mode_flags CHR ''a'' rw) = FD_READ"
proof
  show "fopen_mode mode = Some fl \<longleftrightarrow>
    (\<exists>c \<in> {CHR ''r'', CHR ''w'', CHR ''a''}. \<exists>b \<in> {[], ''b''}. \<exists>rw \<in> {[], ''+''}. \<exists>b' \<in> {[], ''b''}.
       mode = c # b @ rw @ b' \<and> fl = mode_flags c (rw \<noteq> []))"
  proof (cases mode)
    case Nil
    then show ?thesis by (simp add: fopen_mode_tail)
  next
    case (Cons c m)
    then have m: "NUL \<notin> set m" using assms by simp
    have skip: "skip_b m = [] \<longleftrightarrow> m = [] \<or> m = ''b''" "skip_b m = ''b'' \<longleftrightarrow> m = ''bb''"
      "skip_b m = ''+'' \<longleftrightarrow> m = ''+'' \<or> m = ''b+''" "skip_b m = ''+b'' \<longleftrightarrow> m = ''+b'' \<or> m = ''b+b''"
      by (cases m; auto simp: skip_b_def)+
    have "fopen_mode mode = Some fl \<longleftrightarrow> c \<in> {CHR ''r'', CHR ''w'', CHR ''a''}
      \<and> (m \<in> {[], ''b'', ''bb''} \<and> fl = mode_flags c False \<or> m \<in> {''+'', ''b+'', ''+b'', ''b+b''} \<and> fl = mode_flags c True)"
      using mode_tail_iff [OF nonnul_skip_b [OF m], of "mode_flags c False" "mode_flags c True" fl]
      unfolding Cons fopen_mode_tail insert_iff empty_iff skip by auto
    then show ?thesis unfolding Cons by auto
  qed
  show "dir_of (mode_flags CHR ''a'' rw) = FD_READ"
    by (simp add: dir_of_def mode_flags_def O_APPEND_def O_CREAT_def O_WRONLY_def)
qed

theorem fopen_mode_table_witness:
  "(fopen_mode ''rb+'' = Some O_RDWR \<longleftrightarrow>
    (\<exists>c \<in> {CHR ''r'', CHR ''w'', CHR ''a''}. \<exists>b \<in> {[], ''b''}. \<exists>rw \<in> {[], ''+''}. \<exists>b' \<in> {[], ''b''}.
       ''rb+'' = c # b @ rw @ b' \<and> O_RDWR = mode_flags c (rw \<noteq> [])))
    \<and> dir_of (mode_flags CHR ''a'' True) = FD_READ"
  by (rule fopen_mode_table) simp

text \<open>
  \<open>ftell\<close> does not tell the position of the stream, it moves it: \<open>lseek\<close> gets \<open>SEEK_CUR\<close> as the offset
  and \<open>SEEK_SET\<close> as \<open>whence\<close>, so that the file is at offset 1 afterwards, whatever it was before.
\<close>

theorem ftell_moves:
  assumes "\<And>off k. 0 \<le> off \<Longrightarrow> \<exists>k'. sys_lseek K (f_fd f) off SEEK_SET k = (off, k') \<and> offset k' = off"
  shows "\<exists>k'. ftell K f k = (1 - int (f_len f) + int (f_pos f), k') \<and> offset k' = 1"
  using assms [of 1 k] by (auto simp: ftell_def SEEK_CUR_def SEEK_SET_def)

theorem ftell_moves_witness:
  "\<exists>k'. ftell (all_calls\<lparr>sys_lseek := (\<lambda>fd off whence k. (off, k\<lparr>p_errno := off\<rparr>))\<rparr>) (demo_file FD_READ)
      \<lparr>p_kernel = [], p_errno = 7\<rparr> = (1 - int (f_len (demo_file FD_READ)) + int (f_pos (demo_file FD_READ)), k')
    \<and> p_errno k' = 1"
  by (rule ftell_moves) simp

text \<open>
  \<open>setbuf(file, NULL)\<close> does not make a stream unbuffered: it succeeds, and the first character
  written is copied to the address \<open>NULL\<close>.
\<close>

theorem setbuf_null:
  assumes "writing f" "f_len f = 0" "0 \<le> f_fd f"
  shows "\<exists>f'. setbuf f None k = (f', k) \<and> f_fbuf f' = IONBF \<and> fputc K c f' k = None"
proof -
  define f' where "f' = f\<lparr>f_buf := [], f_fbuf := IONBF, f_bufsiz := BUFSIZ\<rparr>"
  have "setbuf f None k = (f', k)" using assms by (simp add: setbuf_def setvbuf_def f'_def)
  moreover have "fwrite_item K [to_char c] 1 f' k = None"
    using assms(2) by (subst fwrite_item.simps) (simp add: f'_def BUFSIZ_def bytes_at_def bytes_to_def block_def)
  then have "fputc K c f' k = None"
    using assms(1) by (simp add: fputc_def fwrite_def writing_def f'_def)
  ultimately show ?thesis by (auto simp: f'_def)
qed

theorem setbuf_null_witness:
  "\<exists>f'. setbuf (demo_file FD_WRITE) None \<lparr>p_kernel = ([] :: string), p_errno = 0\<rparr> = (f', \<lparr>p_kernel = ([] :: string), p_errno = 0\<rparr>)
    \<and> f_fbuf f' = IONBF \<and> fputc all_calls 65 f' \<lparr>p_kernel = ([] :: string), p_errno = 0\<rparr> = None"
  by (rule setbuf_null [OF demo_kernel(3)]) (simp_all add: demo_file_def)

end
