(* ===== verification/Libc_Printf.thy ===== *)
theory Libc_Printf
  imports Libc_Stdio Libc_Number
begin

text \<open>
  Formatted output, the second half of \<open>libc/src/stdio.c\<close>. \<open>_vprintf\<close> gets a function that consumes the output,
  \<open>_sprint\<close> for strings or \<open>_fprint\<close> for streams. A format is the rest of the format string at the pointer, the
  variable arguments are a list of values with their types. The conversions use the buffers of the source, with their
  sizes; a result \<open>None\<close> is an access outside a buffer, an argument of the wrong type, or a read behind the
  end of the format.

  The contract between \<open>_vprintf\<close> and its consumers is the locale \<open>print_sink\<close>.
\<close>

section \<open>Arguments and state\<close>

text \<open>\<open>long\<close> and \<open>long long\<close> have the same width, and signed and unsigned types the same representation.\<close>

datatype va = AInt "32 word" | ALong "64 word" | AStr "string option" | APtr "64 word"

record 'd print_args =
  pa_ret :: int
  pa_flags :: "32 word"
  pa_width :: nat
  pa_precision :: nat
  pa_shrt :: nat
  pa_dest :: 'd
  pa_size :: nat
  pa_errno :: int

type_synonym 'd print_func = "'d \<Rightarrow> nat \<Rightarrow> string \<Rightarrow> (int \<times> 'd) option"

definition FLAGS_HASH :: "32 word" where "FLAGS_HASH = 1"
definition FLAGS_MINUS :: "32 word" where "FLAGS_MINUS = 2"
definition FLAGS_PLUS :: "32 word" where "FLAGS_PLUS = 4"
definition FLAGS_SPACE :: "32 word" where "FLAGS_SPACE = 8"
definition FLAGS_ZERO :: "32 word" where "FLAGS_ZERO = 16"

definition INT_MAX :: int where "INT_MAX = 2 ^ 31 - 1"

text \<open>The conversion of a value to \<open>int\<close>.\<close>

definition int32 :: "int \<Rightarrow> int" where
  "int32 i = (i + 2 ^ 31) mod 2 ^ 32 - 2 ^ 31"

section \<open>Padding\<close>

definition vfprintf_do_do :: "'d print_func \<Rightarrow> 'd print_args \<Rightarrow> string \<Rightarrow> nat \<Rightarrow> (int \<times> 'd print_args) option" where
  "vfprintf_do_do func a buf len =
     (let s = min (pa_size a) len in
      do { (r, d) \<leftarrow> func (pa_dest a) s buf;
           if r \<noteq> 0 then Some (- 1, a\<lparr>pa_dest := d\<rparr>)
           else if (INT_MAX - int len) mod 2 ^ 64 < pa_ret a mod 2 ^ 64 then Some (- 1, a\<lparr>pa_dest := d, pa_errno := 34\<rparr>)
           else Some (0, a\<lparr>pa_dest := d, pa_size := pa_size a - s, pa_ret := int32 (pa_ret a + int len)\<rparr>) })"

fun pad_loop :: "'d print_func \<Rightarrow> char \<Rightarrow> nat \<Rightarrow> 'd print_args \<Rightarrow> (int \<times> 'd print_args) option" where
  "pad_loop func padding 0 a = Some (0, a)"
| "pad_loop func padding (Suc n) a =
     do { (r, a1) \<leftarrow> vfprintf_do_do func a [padding] 1;
          if r \<noteq> 0 then Some (- 1, a1) else pad_loop func padding n a1 }"

definition vfprintf_do :: "'d print_func \<Rightarrow> 'd print_args \<Rightarrow> string \<Rightarrow> nat \<Rightarrow> (int \<times> 'd print_args) option" where
  "vfprintf_do func a buf len =
     (if and (pa_flags a) FLAGS_MINUS \<noteq> 0 then
        do { (r, a1) \<leftarrow> vfprintf_do_do func a buf len;
             pad_loop func CHR '' '' (pa_width a - len) a1 }
      else
        do { (r, a1) \<leftarrow> pad_loop func (if and (pa_flags a) FLAGS_ZERO \<noteq> 0 then CHR ''0'' else CHR '' '') (pa_width a - len) a;
             if r \<noteq> 0 then Some (- 1, a1) else vfprintf_do_do func a1 buf len })"

section \<open>Flags, width and precision\<close>

fun vprintf_flags :: "string \<Rightarrow> 32 word \<Rightarrow> 32 word \<times> string" where
  "vprintf_flags [] fl = (fl, [])"
| "vprintf_flags (c # q) fl =
     (if c = CHR ''#'' then vprintf_flags q (or fl FLAGS_HASH)
      else if c = CHR ''-'' then vprintf_flags q (or fl FLAGS_MINUS)
      else if c = CHR ''+'' then vprintf_flags q (or fl FLAGS_PLUS)
      else if c = CHR '' '' then vprintf_flags q (or fl FLAGS_SPACE)
      else if c = CHR ''0'' then vprintf_flags q (or fl FLAGS_ZERO)
      else (fl, c # q))"

fun vprintf_width :: "string \<Rightarrow> nat \<Rightarrow> nat \<times> string" where
  "vprintf_width [] w = (w, [])"
| "vprintf_width (c # q) w =
     (if sc c < sc CHR ''0'' \<or> sc c > sc CHR ''9'' then (w, c # q)
      else vprintf_width q ((w * 10 mod 2 ^ 64 + nat (sc c - sc CHR ''0'')) mod 2 ^ 64))"

definition vprintf_precision :: "string \<Rightarrow> nat \<times> string" where
  "vprintf_precision q = (if peek q \<noteq> CHR ''.'' then (0, q) else vprintf_width (tl q) 0)"

section \<open>Numbers\<close>

definition convl :: string where "convl = ''0123456789abcdefghijklmnopqrstuvwxyz''"
definition convu :: string where "convu = ''0123456789ABCDEFGHIJKLMNOPQRSTUVWXYZ''"

fun lutoa_len :: "nat \<Rightarrow> nat \<Rightarrow> nat" where
  "lutoa_len p base = (if p = 0 \<or> base < 2 then 0 else Suc (lutoa_len (p div base) base))"

declare lutoa_len.simps [simp del]

text \<open>The second loop of \<open>_format_lutoa\<close>, on the buffer \<open>m\<close> with \<open>dest\<close> at the offset \<open>d\<close>.\<close>

function lutoa_fill :: "mem \<Rightarrow> nat \<Rightarrow> nat \<Rightarrow> nat \<Rightarrow> nat \<Rightarrow> string \<Rightarrow> mem option" where
  "lutoa_fill m d i n base conv =
     (if n = 0 \<or> base < 2 then Some m
      else do { m1 \<leftarrow> store m (d + i - 1) (conv ! (n mod base));
                lutoa_fill m1 d (i - 1) ((n - n mod base) div base) base conv })"
  by pat_completeness auto
termination
proof (relation "measure (\<lambda>(m, d, i, n, base, conv). n)", goal_cases)
  case (2 m d i n base conv m1)
  then have "(n - n mod base) div base \<le> n div base" "n div base < n" by (auto intro: div_le_mono)
  then show ?case by simp
qed simp

declare lutoa_fill.simps [simp del]

definition format_lutoa :: "mem \<Rightarrow> nat \<Rightarrow> nat \<Rightarrow> nat \<Rightarrow> bool \<Rightarrow> mem option" where
  "format_lutoa m d n base upper =
     (if base < 2 \<or> base \<ge> length convl + 1 then store m d NUL
      else if n = 0 then do { m1 \<leftarrow> store m d CHR ''0''; store m1 (d + 1) NUL }
      else do { m1 \<leftarrow> lutoa_fill m d (lutoa_len n base) n base (if upper then convu else convl);
                store m1 (d + lutoa_len n base) NUL })"

definition print_tmp :: "'d print_func \<Rightarrow> 'd print_args \<Rightarrow> mem \<Rightarrow> (int \<times> 'd print_args) option" where
  "print_tmp func a tmp = do { n \<leftarrow> strlen tmp 0; vfprintf_do func a tmp n }"

definition format_c :: "'d print_func \<Rightarrow> 'd print_args \<Rightarrow> char \<Rightarrow> (int \<times> 'd print_args) option" where
  "format_c func a c = vfprintf_do func a [c] 1"

definition format_u :: "'d print_func \<Rightarrow> 'd print_args \<Rightarrow> 64 word \<Rightarrow> (int \<times> 'd print_args) option" where
  "format_u func a u = do { tmp \<leftarrow> format_lutoa (replicate 19 NUL) 0 (unat u) 10 False; print_tmp func a tmp }"

text \<open>\<open>-(*ptr)\<close> overflows for the least number.\<close>

definition format_d :: "'d print_func \<Rightarrow> 'd print_args \<Rightarrow> int \<Rightarrow> (int \<times> 'd print_args) option" where
  "format_d func a d =
     (if d \<ge> 0 then format_u func a (word_of_int d)
      else if d = - (2 ^ 63) then None
      else do { (r, a1) \<leftarrow> vfprintf_do func a ''-'' 1;
                if r \<noteq> 0 then Some (- 1, a1)
                else do { (r2, a2) \<leftarrow> format_u func a1 (word_of_int (- d));
                          Some (if r2 \<noteq> 0 then - 1 else 0, a2) } })"

definition format_o :: "'d print_func \<Rightarrow> 'd print_args \<Rightarrow> 64 word \<Rightarrow> (int \<times> 'd print_args) option" where
  "format_o func a u = do { tmp \<leftarrow> format_lutoa (replicate 22 NUL) 0 (unat u) 8 False; print_tmp func a tmp }"

definition format_s :: "'d print_func \<Rightarrow> 'd print_args \<Rightarrow> string option \<Rightarrow> (int \<times> 'd print_args) option" where
  "format_s func a str =
     (let s = (case str of None \<Rightarrow> ''(null)'' | Some s \<Rightarrow> s) in vfprintf_do func a s (length s))"

definition format_p :: "'d print_func \<Rightarrow> 'd print_args \<Rightarrow> 64 word \<Rightarrow> (int \<times> 'd print_args) option" where
  "format_p func a p = do { tmp \<leftarrow> format_lutoa (''0x'' @ replicate 17 NUL) 2 (unat p) 16 False; print_tmp func a tmp }"

definition format_x :: "'d print_func \<Rightarrow> 'd print_args \<Rightarrow> 64 word \<Rightarrow> bool \<Rightarrow> (int \<times> 'd print_args) option" where
  "format_x func a u upper =
     (let u1 = (if pa_shrt a = 1 then and u 0xffff else if pa_shrt a = 2 then and u 0xff else u) in
      do { tmp \<leftarrow> format_lutoa (replicate 17 NUL) 0 (unat u1) 16 upper;
           (r, a1) \<leftarrow> (if and (pa_flags a) FLAGS_HASH = FLAGS_HASH then vfprintf_do_do func a ''0x'' 2 else Some (0, a));
           if r \<noteq> 0 then Some (- 1, a1) else print_tmp func a1 tmp })"

section \<open>The interpreter of formats\<close>

text \<open>\<open>va_arg\<close> for the integer conversions, by the number of \<open>l\<close>s.\<close>

definition va_signed :: "nat \<Rightarrow> va list \<Rightarrow> (int \<times> va list) option" where
  "va_signed lng va =
     (case va of
        ALong w # va' \<Rightarrow> if lng \<ge> 1 then Some (sint w, va') else None
      | AInt w # va' \<Rightarrow> if lng = 0 then Some (sint w, va') else None
      | _ \<Rightarrow> None)"

definition va_unsigned :: "nat \<Rightarrow> va list \<Rightarrow> (64 word \<times> va list) option" where
  "va_unsigned lng va =
     (case va of
        ALong w # va' \<Rightarrow> if lng \<ge> 1 then Some (w, va') else None
      | AInt w # va' \<Rightarrow> if lng = 0 then Some (ucast w, va') else None
      | _ \<Rightarrow> None)"

text \<open>One conversion character; \<open>Inl\<close> is an error, with \<open>EINVAL\<close> for an unknown character.\<close>

definition vprintf_convert ::
  "'d print_func \<Rightarrow> 'd print_args \<Rightarrow> nat \<Rightarrow> va list \<Rightarrow> char \<Rightarrow> ('d print_args + va list \<times> 'd print_args) option" where
  "vprintf_convert func a lng va c =
     (let finish = (\<lambda>va' (f, a'). Some (if f \<noteq> 0 then Inl a' else Inr (va', a'))) in
      if c = CHR ''c'' then
        (case va of AInt w # va' \<Rightarrow> do { r \<leftarrow> format_c func a (to_char (sint w)); finish va' r } | _ \<Rightarrow> None)
      else if c = CHR ''d'' then do { (d, va') \<leftarrow> va_signed lng va; r \<leftarrow> format_d func a d; finish va' r }
      else if c = CHR ''o'' then do { (u, va') \<leftarrow> va_unsigned lng va; r \<leftarrow> format_o func a u; finish va' r }
      else if c = CHR ''p'' then
        (case va of APtr w # va' \<Rightarrow> do { r \<leftarrow> format_p func a w; finish va' r } | _ \<Rightarrow> None)
      else if c = CHR ''s'' then
        (case va of AStr s # va' \<Rightarrow> do { r \<leftarrow> format_s func a s; finish va' r } | _ \<Rightarrow> None)
      else if c = CHR ''u'' then do { (u, va') \<leftarrow> va_unsigned lng va; r \<leftarrow> format_u func a u; finish va' r }
      else if c = CHR ''x'' \<or> c = CHR ''X'' then
        do { (u, va') \<leftarrow> va_unsigned lng va; r \<leftarrow> format_x func a u (c = CHR ''X''); finish va' r }
      else Some (Inl (a\<lparr>pa_errno := 22\<rparr>)))"

text \<open>
  The loop over the length modifiers and the conversion character. At the end of the format the loop ends
  and \<open>i++\<close> steps behind the terminator.
\<close>

fun vprintf_conv ::
  "'d print_func \<Rightarrow> 'd print_args \<Rightarrow> nat \<Rightarrow> va list \<Rightarrow> string \<Rightarrow> ('d print_args + va list \<times> string \<times> 'd print_args) option" where
  "vprintf_conv func a lng va [] = None"
| "vprintf_conv func a lng va (c # q) =
     (if c = CHR ''l'' then
        (if lng + 1 > 2 then Some (Inl (a\<lparr>pa_errno := 22\<rparr>)) else vprintf_conv func a (lng + 1) va q)
      else if c = CHR ''h'' then
        (if pa_shrt a + 1 > 2 then Some (Inl (a\<lparr>pa_shrt := pa_shrt a + 1, pa_errno := 22\<rparr>))
         else vprintf_conv func (a\<lparr>pa_shrt := pa_shrt a + 1\<rparr>) lng va q)
      else if c = CHR ''z'' then
        (if lng \<noteq> 0 then Some (Inl (a\<lparr>pa_errno := 22\<rparr>)) else vprintf_conv func a 1 va q)
      else
        (case vprintf_convert func a lng va c of
           None \<Rightarrow> None
         | Some (Inl a') \<Rightarrow> Some (Inl a')
         | Some (Inr (va', a')) \<Rightarrow> Some (Inr (va', q, a'))))"

text \<open>A directive, from the character behind the percent sign on.\<close>

definition vprintf_directive ::
  "'d print_func \<Rightarrow> 'd print_args \<Rightarrow> va list \<Rightarrow> string \<Rightarrow> ('d print_args + va list \<times> string \<times> 'd print_args) option" where
  "vprintf_directive func a va q0 =
     (let (fl, q1) = vprintf_flags q0 0; (w, q2) = vprintf_width q1 0; (pr, q3) = vprintf_precision q2 in
      vprintf_conv func (a\<lparr>pa_flags := fl, pa_width := w, pa_precision := pr\<rparr>) 0 va q3)"

lemma vprintf_flags_length: "length (snd (vprintf_flags q fl)) \<le> length q"
  by (induction q fl rule: vprintf_flags.induct) auto

lemma vprintf_width_length: "length (snd (vprintf_width q w)) \<le> length q"
  by (induction q w rule: vprintf_width.induct) auto

lemma vprintf_precision_length: "length (snd (vprintf_precision q)) \<le> length q"
  using vprintf_width_length [of "tl q" 0] by (auto simp: vprintf_precision_def)

lemma vprintf_conv_length: "vprintf_conv func a lng va q = Some (Inr (va', q', a')) \<Longrightarrow> length q' < length q"
proof (induction func a lng va q rule: vprintf_conv.induct)
  case (2 func a lng va c q)
  then show ?case by (fastforce split: if_splits option.splits sum.splits prod.splits)
qed simp

lemma vprintf_directive_length:
  assumes "vprintf_directive func a va q = Some (Inr (va', q', a'))"
  shows "length q' < length q"
proof -
  obtain fl q1 w q2 pr q3 where p: "vprintf_flags q 0 = (fl, q1)" "vprintf_width q1 0 = (w, q2)" "vprintf_precision q2 = (pr, q3)"
    by (metis surj_pair)
  then have "length q' < length q3" using assms by (auto simp: vprintf_directive_def dest: vprintf_conv_length)
  with p show ?thesis
    using vprintf_flags_length [of q 0] vprintf_width_length [of q1 0] vprintf_precision_length [of q2] by simp
qed

lemma dropWhile_Cons_length: "dropWhile P xs = x # ys \<Longrightarrow> length ys < length xs"
  using length_dropWhile_le [of P xs] by simp

text \<open>
  The main loop. The text up to the next percent sign is printed first; for a second percent sign the character printed is
  the one at \<open>p\<close>, where that text started.
\<close>

function vprintf_loop ::
  "'d print_func \<Rightarrow> 'd print_args \<Rightarrow> va list \<Rightarrow> string \<Rightarrow> ('d print_args + 'd print_args) option" where
  "vprintf_loop func a va p =
     (if p = [] then Some (Inr a)
      else
        (case (if takeWhile (\<lambda>c. c \<noteq> CHR ''%'') p = []
               then Some (0, a\<lparr>pa_flags := 0, pa_width := 0, pa_precision := 0, pa_shrt := 0\<rparr>)
               else vfprintf_do func (a\<lparr>pa_flags := 0, pa_width := 0, pa_precision := 0, pa_shrt := 0\<rparr>) p
                      (length (takeWhile (\<lambda>c. c \<noteq> CHR ''%'') p))) of
           None \<Rightarrow> None
         | Some (r, a1) \<Rightarrow>
             if r \<noteq> 0 then Some (Inl a1)
             else
               (case dropWhile (\<lambda>c. c \<noteq> CHR ''%'') p of
                  [] \<Rightarrow> Some (Inr a1)
                | percent # q \<Rightarrow>
                    if peek q = CHR ''%'' then
                      (case vfprintf_do func a1 p 1 of
                         None \<Rightarrow> None
                       | Some (r2, a2) \<Rightarrow> if r2 \<noteq> 0 then Some (Inl a2) else vprintf_loop func a2 va (tl q))
                    else
                      (case vprintf_directive func a1 va q of
                         None \<Rightarrow> None
                       | Some (Inl a2) \<Rightarrow> Some (Inl a2)
                       | Some (Inr (va', q', a2)) \<Rightarrow> vprintf_loop func a2 va' q'))))"
  by pat_completeness auto
termination
  by (relation "measure (\<lambda>(func, a, va, p). length p)")
    (auto dest!: vprintf_directive_length dropWhile_Cons_length)

declare vprintf_loop.simps [simp del]

definition vprintf_do :: "'d print_func \<Rightarrow> 'd \<Rightarrow> nat \<Rightarrow> string \<Rightarrow> va list \<Rightarrow> (int \<times> 'd print_args) option" where
  "vprintf_do func dest sz format va =
     (case vprintf_loop func \<lparr>pa_ret = 0, pa_flags = 0, pa_width = 0, pa_precision = 0, pa_shrt = 0,
             pa_dest = dest, pa_size = sz, pa_errno = 0\<rparr> va format of
        None \<Rightarrow> None
      | Some (Inl a) \<Rightarrow> Some (- 1, a)
      | Some (Inr a) \<Rightarrow> Some (pa_ret a, a))"

section \<open>Strings and streams\<close>

text \<open>\<open>strncpy\<close> from another object.\<close>

fun strncpy_from :: "mem \<Rightarrow> nat \<Rightarrow> string \<Rightarrow> nat \<Rightarrow> mem option" where
  "strncpy_from m d src 0 = Some m"
| "strncpy_from m d [] (Suc n) = None"
| "strncpy_from m d (c # src) (Suc n) =
     do { m' \<leftarrow> store m d c; if c \<noteq> NUL then strncpy_from m' (Suc d) src n else Some m' }"

fun sprint :: "(mem \<times> ptr) print_func" where
  "sprint (m, None) n buf = Some (0, (m, None))"
| "sprint (m, Some p) n buf =
     (if n = 0 then Some (0, (m, Some p))
      else do { m' \<leftarrow> strncpy_from m p buf n; Some (0, (m', Some (p + n))) })"

definition vsnprintf :: "mem \<Rightarrow> ptr \<Rightarrow> nat \<Rightarrow> string \<Rightarrow> va list \<Rightarrow> (int \<times> mem) option" where
  "vsnprintf m str sz format va =
     do { (ret, a) \<leftarrow> vprintf_do sprint (m, str) sz format va;
          m1 \<leftarrow> Some (fst (pa_dest a));
          if ret < 0 then Some (ret, m1)
          else if ret < int sz then do { s \<leftarrow> str; m2 \<leftarrow> store m1 (s + nat ret) NUL; Some (ret, m2) }
          else if sz > 0 then do { s \<leftarrow> str; m2 \<leftarrow> store m1 (s + (sz - 1)) NUL; Some (ret, m2) }
          else Some (ret, m1) }"

definition snprintf :: "mem \<Rightarrow> ptr \<Rightarrow> nat \<Rightarrow> string \<Rightarrow> va list \<Rightarrow> (int \<times> mem) option" where
  "snprintf m str sz format va = vsnprintf m str sz format va"

definition vsprintf :: "mem \<Rightarrow> ptr \<Rightarrow> string \<Rightarrow> va list \<Rightarrow> (int \<times> mem) option" where
  "vsprintf m str format va =
     do { (ret, a) \<leftarrow> vprintf_do sprint (m, str) (2 ^ 64 - 1) format va;
          m1 \<leftarrow> Some (fst (pa_dest a));
          if ret < 0 then Some (ret, m1)
          else do { s \<leftarrow> str; m2 \<leftarrow> store m1 (s + nat ret) NUL; Some (ret, m2) } }"

definition sprintf :: "mem \<Rightarrow> ptr \<Rightarrow> string \<Rightarrow> va list \<Rightarrow> (int \<times> mem) option" where
  "sprintf m str format va = vsprintf m str format va"

fun fprint :: "'k syscalls \<Rightarrow> (FILE \<times> 'k proc) print_func" where
  "fprint K (f, k) n buf = do { (w, f', k') \<leftarrow> fwrite K buf 1 n f k; Some (if w = n then 0 else - 1, (f', k')) }"

definition vfprintf :: "'k syscalls \<Rightarrow> FILE \<Rightarrow> string \<Rightarrow> va list \<Rightarrow> 'k proc \<Rightarrow> (int \<times> FILE \<times> 'k proc) option" where
  "vfprintf K f format va k =
     do { (ret, a) \<leftarrow> vprintf_do (fprint K) (f, k) (2 ^ 64 - 1) format va; Some (ret, pa_dest a) }"

definition fprintf :: "'k syscalls \<Rightarrow> FILE \<Rightarrow> string \<Rightarrow> va list \<Rightarrow> 'k proc \<Rightarrow> (int \<times> FILE \<times> 'k proc) option" where
  "fprintf K f format va k = vfprintf K f format va k"

definition printf :: "'k syscalls \<Rightarrow> FILE \<Rightarrow> string \<Rightarrow> va list \<Rightarrow> 'k proc \<Rightarrow> (int \<times> FILE \<times> 'k proc) option" where
  "printf K stdout format va k = vfprintf K stdout format va k"

text \<open>\<open>ctermid\<close> with its own buffer \<open>tty\<close>, or the one of the caller; \<open>L_ctermid\<close> is 256.\<close>

definition ctermid :: "mem \<Rightarrow> (int \<times> mem) option" where
  "ctermid buf = snprintf buf (Some 0) 256 ''%s'' [AStr (Some ''/dev/tty'')]"

section \<open>Digits\<close>

text \<open>The digits of a number, and the text \<open>_format_lutoa\<close> makes of them.\<close>

fun nat_digits :: "nat \<Rightarrow> nat \<Rightarrow> nat list" where
  "nat_digits base n = (if n < base \<or> base < 2 then [n] else nat_digits base (n div base) @ [n mod base])"

declare nat_digits.simps [simp del]

definition number_text :: "nat \<Rightarrow> bool \<Rightarrow> nat \<Rightarrow> string" where
  "number_text base upper n = map (\<lambda>d. (if upper then convu else convl) ! d) (nat_digits base n)"

lemma nat_digits_small: "n < base \<Longrightarrow> nat_digits base n = [n]"
  by (simp add: nat_digits.simps)

lemma nat_digits_step: "2 \<le> base \<Longrightarrow> base \<le> n \<Longrightarrow> nat_digits base n = nat_digits base (n div base) @ [n mod base]"
  by (subst nat_digits.simps) simp

lemma nat_digits_nonempty [simp]: "nat_digits base n \<noteq> []"
  by (subst nat_digits.simps) simp

lemma nat_digits_less: "2 \<le> base \<Longrightarrow> d \<in> set (nat_digits base n) \<Longrightarrow> d < base"
proof (induction base n rule: nat_digits.induct)
  case (1 base n)
  then show ?case by (cases "n < base") (auto simp: nat_digits_small nat_digits_step)
qed

lemma length_nat_digits:
  "2 \<le> base \<Longrightarrow> n < base ^ Suc k \<Longrightarrow> length (nat_digits base n) \<le> Suc k"
proof (induction k arbitrary: n)
  case 0
  then show ?case by (simp add: nat_digits_small)
next
  case (Suc k)
  show ?case
  proof (cases "n < base")
    case False
    have "n div base < base ^ Suc k"
      using Suc.prems by (simp add: div_less_iff_less_mult mult.commute)
    then show ?thesis using Suc False by (simp add: nat_digits_step)
  qed (simp add: nat_digits_small)
qed

lemma length_nat_digits_ge:
  "2 \<le> base \<Longrightarrow> base ^ k \<le> n \<Longrightarrow> Suc k \<le> length (nat_digits base n)"
proof (induction k arbitrary: n)
  case 0
  then show ?case by (simp add: Suc_le_eq)
next
  case (Suc k)
  have "base ^ k \<le> n div base" using Suc.prems by (simp add: less_eq_div_iff_mult_less_eq mult.commute)
  moreover have "base \<le> base ^ Suc k" using Suc.prems(1) by (intro self_le_power) simp_all
  ultimately have "base \<le> n" "base ^ k \<le> n div base" using Suc.prems(2) by linarith+
  then show ?case using Suc by (simp add: nat_digits_step)
qed

lemma lutoa_len_digits: "2 \<le> base \<Longrightarrow> 0 < n \<Longrightarrow> lutoa_len n base = length (nat_digits base n)"
proof (induction n base rule: lutoa_len.induct)
  case (1 p base)
  show ?case
  proof (cases "p < base")
    case True
    then show ?thesis using 1 by (simp add: lutoa_len.simps nat_digits_small)
  next
    case False
    then have "0 < p div base" using 1 by (simp add: div_greater_zero_iff)
    with False 1 show ?thesis by (subst lutoa_len.simps) (simp add: nat_digits_step)
  qed
qed

lemma lutoa_fill_digits:
  assumes "2 \<le> base" "0 < n" "d + length (nat_digits base n) \<le> length m"
  shows "lutoa_fill m d (length (nat_digits base n)) n base conv = Some (blit m d (map (\<lambda>i. conv ! i) (nat_digits base n)))"
  using assms
proof (induction "length (nat_digits base n)" arbitrary: n m)
  case (Suc l)
  have div: "(n - n mod base) div base = n div base" by (simp add: minus_mod_eq_mult_div)
  show ?case
  proof (cases "n < base")
    case True
    then have "lutoa_fill m d 1 n base conv = Some (m[d := conv ! n])"
      using Suc.prems by (subst lutoa_fill.simps) (simp add: nat_digits_small lutoa_fill.simps [of _ _ _ 0])
    then show ?thesis using True Suc.prems by (simp add: nat_digits_small blit_def upd_conv_take_nth_drop)
  next
    case False
    then have dig: "nat_digits base n = nat_digits base (n div base) @ [n mod base]" using Suc.prems(1) by (simp add: nat_digits_step)
    have l: "length (nat_digits base (n div base)) = l" "0 < n div base"
      using Suc.hyps(2) dig False Suc.prems(1) by (auto simp: div_greater_zero_iff)
    have "d + l < length m" using Suc.prems(3) Suc.hyps(2) by simp
    then have "lutoa_fill m d (length (nat_digits base n)) n base conv
        = lutoa_fill (m[d + l := conv ! (n mod base)]) d l (n div base) base conv"
      using Suc.prems(1,2) unfolding Suc.hyps(2) [symmetric] by (subst lutoa_fill.simps) (simp add: div)
    also have "\<dots> = Some (blit (m[d + l := conv ! (n mod base)]) d (map (\<lambda>i. conv ! i) (nat_digits base (n div base))))"
      using Suc.hyps(1) [of "n div base" "m[d + l := conv ! (n mod base)]"] l Suc.prems(1) \<open>d + l < length m\<close> by simp
    also have "\<dots> = Some (blit m d (map (\<lambda>i. conv ! i) (nat_digits base n)))"
      using blit_snoc [of d "map (\<lambda>i. conv ! i) (nat_digits base (n div base))" m] l \<open>d + l < length m\<close> by (simp add: dig)
    finally show ?thesis .
  qed
qed simp

lemma format_lutoa_digits:
  assumes "2 \<le> base" "base \<le> 36" "d + length (number_text base upper n) < length m"
  shows "format_lutoa m d n base upper = Some (blit m d (number_text base upper n @ [NUL]))"
proof -
  have b: "\<not> base < 2" "\<not> base \<ge> length convl + 1" using assms(1,2) by (auto simp: convl_def)
  let ?conv = "if upper then convu else convl"
  show ?thesis
  proof (cases "n = 0")
    case True
    then have "number_text base upper n = ''0''"
      using assms(1) by (simp add: number_text_def nat_digits_small convl_def convu_def)
    moreover have "m[d := CHR ''0'', Suc d := NUL] = blit m d [CHR ''0'', NUL]"
    proof -
      have "Suc d < length m" using calculation assms(3) by simp
      then show ?thesis by (intro nth_equalityI) (auto simp: nth_blit nth_list_update nth_Cons')
    qed
    ultimately show ?thesis using b True assms(3) by (simp add: format_lutoa_def)
  next
    case False
    have len: "lutoa_len n base = length (nat_digits base n)" using lutoa_len_digits assms(1) False by simp
    have fill: "lutoa_fill m d (length (nat_digits base n)) n base ?conv = Some (blit m d (number_text base upper n))"
      unfolding number_text_def using assms False by (intro lutoa_fill_digits) (simp_all add: number_text_def)
    have "store (blit m d (number_text base upper n)) (d + length (nat_digits base n)) NUL
        = Some (blit m d (number_text base upper n @ [NUL]))"
      using blit_end [of d "number_text base upper n" m NUL] assms(3) by (simp add: number_text_def)
    then show ?thesis using b False len fill by (simp add: format_lutoa_def)
  qed
qed

lemma conv_nonnul: "d < 36 \<Longrightarrow> (if upper then convu else convl) ! d \<noteq> NUL"
proof -
  assume "d < 36"
  moreover have "length convl = 36" "length convu = 36" "NUL \<notin> set convl" "NUL \<notin> set convu" by (simp_all add: convl_def convu_def)
  ultimately show ?thesis by (metis nth_mem)
qed

lemma number_text_nonnul: "2 \<le> base \<Longrightarrow> base \<le> 36 \<Longrightarrow> NUL \<notin> set (number_text base upper n)"
  using nat_digits_less [of base _ n] conv_nonnul [of _ upper] by (auto simp: number_text_def) (metis less_le_trans)+

lemma length_number_text [simp]: "length (number_text base upper n) = length (nat_digits base n)"
  by (simp add: number_text_def)

lemma print_tmp_cstr: "cstr_at tmp 0 t \<Longrightarrow> print_tmp func a tmp = vfprintf_do func a tmp (length t)"
  by (simp add: print_tmp_def strlen_length)

lemma take_cstr: "cstr_at tmp 0 t \<Longrightarrow> take (length t) tmp = t"
  using cstr_at_block [of tmp 0 t] by (simp add: block_def)

section \<open>What a format means\<close>

definition padded :: "32 word \<Rightarrow> nat \<Rightarrow> string \<Rightarrow> string" where
  "padded fl w s =
     (if and fl FLAGS_MINUS \<noteq> 0 then s @ replicate (w - length s) CHR '' ''
      else replicate (w - length s) (if and fl FLAGS_ZERO \<noteq> 0 then CHR ''0'' else CHR '' '') @ s)"

definition signed_text :: "32 word \<Rightarrow> nat \<Rightarrow> int \<Rightarrow> string" where
  "signed_text fl w d =
     (if d \<ge> 0 then padded fl w (number_text 10 False (nat d))
      else padded fl w ''-'' @ padded fl w (number_text 10 False (nat (- d))))"

definition hex_value :: "nat \<Rightarrow> 64 word \<Rightarrow> 64 word" where
  "hex_value shrt u = (if shrt = 1 then and u 0xffff else if shrt = 2 then and u 0xff else u)"

text \<open>The text of a conversion, where the argument fits it and the buffer of the source fits the number.\<close>

definition conv_text :: "32 word \<Rightarrow> nat \<Rightarrow> nat \<Rightarrow> nat \<Rightarrow> char \<Rightarrow> va \<Rightarrow> string option" where
  "conv_text fl w lng shrt c x =
     (if c = CHR ''c'' then
        (case x of AInt i \<Rightarrow> if to_char (sint i) \<noteq> NUL then Some (padded fl w [to_char (sint i)]) else None | _ \<Rightarrow> None)
      else if c = CHR ''d'' then
        (case va_signed lng [x] of Some (d, _) \<Rightarrow> if \<bar>d\<bar> < 10 ^ 18 then Some (signed_text fl w d) else None | None \<Rightarrow> None)
      else if c = CHR ''s'' then
        (case x of AStr s \<Rightarrow>
           (let t = (case s of None \<Rightarrow> ''(null)'' | Some t \<Rightarrow> t) in if NUL \<notin> set t then Some (padded fl w t) else None)
         | _ \<Rightarrow> None)
      else if c = CHR ''p'' then
        (case x of APtr i \<Rightarrow> Some (padded fl w (''0x'' @ number_text 16 False (unat i))) | _ \<Rightarrow> None)
      else
        (case va_unsigned lng [x] of
           None \<Rightarrow> None
         | Some (u, _) \<Rightarrow>
             if c = CHR ''u'' \<and> unat u < 10 ^ 18 then Some (padded fl w (number_text 10 False (unat u)))
             else if c = CHR ''o'' \<and> unat u < 2 ^ 63 then Some (padded fl w (number_text 8 False (unat u)))
             else if c = CHR ''x'' \<or> c = CHR ''X'' then
               Some ((if and fl FLAGS_HASH = FLAGS_HASH then ''0x'' else [])
                 @ padded fl w (number_text 16 (c = CHR ''X'') (unat (hex_value shrt u))))
             else None))"

lemma cstr_at_front: "NUL \<notin> set s \<Longrightarrow> cstr_at (s @ NUL # rest) 0 s"
  by (simp add: cstr_at_iff nth_append)

lemma unat64: "unat (u :: 64 word) < 2 ^ 64"
proof -
  have "unat u < 2 ^ LENGTH(64)" by (rule unsigned_less)
  then show ?thesis by simp
qed

section \<open>The contract of a consumer\<close>

text \<open>
  \<open>out d\<close> is what the consumer has got, \<open>room d k\<close> that it can take \<open>k\<close> more bytes. Then the function
  takes a part of a buffer of at most \<open>k\<close> bytes, completely.
\<close>

locale print_sink =
  fixes func :: "'d \<Rightarrow> nat \<Rightarrow> string \<Rightarrow> (int \<times> 'd) option"
    and out :: "'d \<Rightarrow> string"
    and room :: "'d \<Rightarrow> nat \<Rightarrow> bool"
  assumes func_ok: "room d k \<Longrightarrow> n \<le> k \<Longrightarrow> n \<le> length buf \<Longrightarrow> NUL \<notin> set (take n buf) \<Longrightarrow>
    \<exists>d'. func d n buf = Some (0, d') \<and> out d' = out d @ take n buf \<and> room d' (k - n)"
begin

definition ready :: "'d print_args \<Rightarrow> bool" where
  "ready a \<longleftrightarrow> room (pa_dest a) (pa_size a) \<and> 0 \<le> pa_ret a \<and> pa_ret a \<le> INT_MAX"

definition prints :: "'d print_args \<Rightarrow> string \<Rightarrow> 'd print_args \<Rightarrow> bool" where
  "prints a s a' \<longleftrightarrow> ready a' \<and> out (pa_dest a') = out (pa_dest a) @ take (pa_size a) s
     \<and> pa_size a' = pa_size a - length s \<and> pa_ret a' = pa_ret a + int (length s) \<and> pa_flags a' = pa_flags a
     \<and> pa_width a' = pa_width a \<and> pa_shrt a' = pa_shrt a"

definition fits_in :: "'d print_args \<Rightarrow> string \<Rightarrow> bool" where
  "fits_in a s \<longleftrightarrow> pa_ret a + int (length s) \<le> INT_MAX"

lemma prints_nil: "ready a \<Longrightarrow> prints a [] a"
  by (simp add: prints_def)

lemma prints_trans: "prints a s a1 \<Longrightarrow> prints a1 t a2 \<Longrightarrow> prints a (s @ t) a2"
  by (auto simp: prints_def)

lemma fits_in_append: "prints a s a1 \<Longrightarrow> fits_in a (s @ t) \<Longrightarrow> fits_in a1 t"
  by (simp add: prints_def fits_in_def)

lemma fits_in_first: "fits_in a (s @ t) \<Longrightarrow> fits_in a s"
  by (simp add: fits_in_def)

lemma do_do_prints:
  assumes "ready a" "len \<le> length buf" "NUL \<notin> set (take len buf)" "fits_in a (take len buf)"
  shows "\<exists>a'. vfprintf_do_do func a buf len = Some (0, a') \<and> prints a (take len buf) a'"
proof -
  let ?s = "min (pa_size a) len"
  have "NUL \<notin> set (take ?s buf)" using assms(3) set_take_subset_set_take [of ?s len buf] by auto
  then obtain d' where d: "func (pa_dest a) ?s buf = Some (0, d')" "out d' = out (pa_dest a) @ take ?s buf"
    "room d' (pa_size a - ?s)"
    using func_ok [of "pa_dest a" "pa_size a" ?s buf] assms(1) order_trans [OF min.cobounded2 assms(2), of "pa_size a"]
    by (auto simp: ready_def)
  have r: "0 \<le> pa_ret a" "pa_ret a + int len \<le> INT_MAX" using assms by (auto simp: ready_def fits_in_def)
  then have m: "(INT_MAX - int len) mod 2 ^ 64 = INT_MAX - int len" "pa_ret a mod 2 ^ 64 = pa_ret a"
    "int32 (pa_ret a + int len) = pa_ret a + int len"
    by (simp_all add: INT_MAX_def int32_def)
  let ?a = "a\<lparr>pa_dest := d', pa_size := pa_size a - ?s, pa_ret := pa_ret a + int len\<rparr>"
  have "vfprintf_do_do func a buf len = Some (0, ?a)"
    using d(1) r(2) m by (simp add: vfprintf_do_do_def Let_def)
  moreover have "prints a (take len buf) ?a"
    using d(2,3) r assms(2) by (auto simp: prints_def ready_def min_def)
  ultimately show ?thesis by blast
qed

lemma pad_loop_prints:
  assumes "ready a" "c \<noteq> NUL" "fits_in a (replicate n c)"
  shows "\<exists>a'. pad_loop func c n a = Some (0, a') \<and> prints a (replicate n c) a'"
  using assms
proof (induction n arbitrary: a)
  case 0
  then show ?case by (simp add: prints_nil)
next
  case (Suc n)
  have "fits_in a (take 1 [c])" using Suc.prems(3) by (simp add: fits_in_def)
  then obtain a1 where a1: "vfprintf_do_do func a [c] 1 = Some (0, a1)" "prints a [c] a1"
    using do_do_prints [of a 1 "[c]"] Suc.prems by auto
  have "ready a1" "fits_in a1 (replicate n c)"
    using a1(2) fits_in_append [OF a1(2), of "replicate n c"] Suc.prems(3) by (simp_all add: prints_def)
  from Suc.IH [OF this(1) Suc.prems(2) this(2)] a1 prints_trans [OF a1(2)] show ?case by fastforce
qed

lemma do_prints:
  assumes "ready a" "len \<le> length buf" "NUL \<notin> set (take len buf)"
    and "fits_in a (padded (pa_flags a) (pa_width a) (take len buf))"
  shows "\<exists>a'. vfprintf_do func a buf len = Some (0, a') \<and> prints a (padded (pa_flags a) (pa_width a) (take len buf)) a'"
proof (cases "and (pa_flags a) FLAGS_MINUS = 0")
  case False
  let ?pad = "replicate (pa_width a - len) CHR '' ''"
  have shape: "padded (pa_flags a) (pa_width a) (take len buf) = take len buf @ ?pad"
    using False assms(2) by (simp add: padded_def min_def)
  with assms(4) have f: "fits_in a (take len buf @ ?pad)" by simp
  from do_do_prints [OF assms(1-3) fits_in_first [OF f]] obtain a1
    where a1: "vfprintf_do_do func a buf len = Some (0, a1)" "prints a (take len buf) a1" by blast
  from pad_loop_prints [of a1 "CHR '' ''" "pa_width a - len"] a1(2) fits_in_append [OF a1(2) f]
  obtain a2 where "pad_loop func CHR '' '' (pa_width a - len) a1 = Some (0, a2)" "prints a1 ?pad a2" by (auto simp: prints_def)
  then show ?thesis unfolding shape using a1 False prints_trans by (fastforce simp: vfprintf_do_def)
next
  case True
  let ?c = "if and (pa_flags a) FLAGS_ZERO \<noteq> 0 then CHR ''0'' else CHR '' ''"
  let ?pad = "replicate (pa_width a - len) ?c"
  have shape: "padded (pa_flags a) (pa_width a) (take len buf) = ?pad @ take len buf"
    using True assms(2) by (simp add: padded_def min_def)
  with assms(4) have f: "fits_in a (?pad @ take len buf)" by simp
  have "?c \<noteq> NUL" by simp
  from pad_loop_prints [OF assms(1) this fits_in_first [OF f]] obtain a1
    where a1: "pad_loop func ?c (pa_width a - len) a = Some (0, a1)" "prints a ?pad a1" by blast
  then have "ready a1" by (simp add: prints_def)
  from do_do_prints [OF this assms(2,3) fits_in_append [OF a1(2) f]] obtain a2
    where "vfprintf_do_do func a1 buf len = Some (0, a2)" "prints a1 (take len buf) a2" by blast
  then show ?thesis unfolding shape using a1 True prints_trans by (fastforce simp: vfprintf_do_def)
qed

lemma do_prints_cstr:
  assumes "ready a" "cstr_at tmp 0 t" "fits_in a (padded (pa_flags a) (pa_width a) t)"
  shows "\<exists>a'. print_tmp func a tmp = Some (0, a') \<and> prints a (padded (pa_flags a) (pa_width a) t) a'"
  using do_prints [OF assms(1), of "length t" tmp] take_cstr [OF assms(2)] cstr_at_nonnul [OF assms(2)]
    cstr_at_length [OF assms(2)] assms(3) print_tmp_cstr [OF assms(2), of func a] by simp

lemma lutoa_cstr:
  assumes "2 \<le> base" "base \<le> 36" "length (nat_digits base n) < z"
  shows "\<exists>tmp. format_lutoa (replicate z NUL) 0 n base upper = Some tmp \<and> cstr_at tmp 0 (number_text base upper n)"
  using format_lutoa_digits [OF assms(1,2), of 0 upper n "replicate z NUL"] assms(3)
    cstr_at_blitI [OF number_text_nonnul [OF assms(1,2)], of 0 upper n "replicate z NUL"] by simp

lemma format_u_prints:
  assumes "ready a" "unat u < 10 ^ 18" "fits_in a (padded (pa_flags a) (pa_width a) (number_text 10 False (unat u)))"
  shows "\<exists>a'. format_u func a u = Some (0, a') \<and> prints a (padded (pa_flags a) (pa_width a) (number_text 10 False (unat u))) a'"
proof -
  have "length (nat_digits 10 (unat u)) < 19" using length_nat_digits [of 10 "unat u" 17] assms(2) by simp
  then show ?thesis
    using lutoa_cstr [of 10 "unat u" 19 False] do_prints_cstr [OF assms(1) _ assms(3)] by (fastforce simp: format_u_def)
qed

lemma format_d_prints:
  assumes "ready a" "\<bar>d\<bar> < 10 ^ 18" "fits_in a (signed_text (pa_flags a) (pa_width a) d)"
  shows "\<exists>a'. format_d func a d = Some (0, a') \<and> prints a (signed_text (pa_flags a) (pa_width a) d) a'"
proof -
  have u: "unat (word_of_int i :: 64 word) = nat i" if "0 \<le> i" "i < 10 ^ 18" for i
  proof -
    have "uint (word_of_int i :: 64 word) = i" using that by (simp add: uint_word_of_int)
    then show ?thesis using that(1) by (simp flip: nat_uint_eq)
  qed
  have small: "nat i < 10 ^ 18" if "i < 10 ^ 18" for i :: int using that by simp
  show ?thesis
  proof (cases "d \<ge> 0")
    case True
    then show ?thesis
      using format_u_prints [OF assms(1), of "word_of_int d"] assms(2,3) u [of d] small [of d]
      by (simp add: format_d_def signed_text_def)
  next
    case False
    let ?neg = "padded (pa_flags a) (pa_width a) ''-''"
    let ?num = "padded (pa_flags a) (pa_width a) (number_text 10 False (nat (- d)))"
    have f: "fits_in a (?neg @ ?num)" using assms(3) False by (simp add: signed_text_def)
    obtain a1 where a1: "vfprintf_do func a ''-'' 1 = Some (0, a1)" "prints a ?neg a1"
      using do_prints [OF assms(1), of 1 "''-''"] fits_in_first [OF f] by auto
    have same: "ready a1" "pa_flags a1 = pa_flags a" "pa_width a1 = pa_width a" using a1(2) by (simp_all add: prints_def)
    have n: "unat (word_of_int (- d) :: 64 word) = nat (- d)" "nat (- d) < 10 ^ 18" using u [of "- d"] assms(2) False by simp_all
    obtain a2 where "format_u func a1 (word_of_int (- d)) = Some (0, a2)" "prints a1 ?num a2"
      using format_u_prints [OF same(1), of "word_of_int (- d)"] fits_in_append [OF a1(2) f] unfolding n(1) same(2,3) using n(2) by blast
    then show ?thesis
      using a1 False assms(2) prints_trans [OF a1(2)] by (auto simp: format_d_def signed_text_def)
  qed
qed

lemma format_o_prints:
  assumes "ready a" "unat u < 2 ^ 63" "fits_in a (padded (pa_flags a) (pa_width a) (number_text 8 False (unat u)))"
  shows "\<exists>a'. format_o func a u = Some (0, a') \<and> prints a (padded (pa_flags a) (pa_width a) (number_text 8 False (unat u))) a'"
proof -
  have "length (nat_digits 8 (unat u)) < 22" using length_nat_digits [of 8 "unat u" 20] assms(2) by simp
  then show ?thesis
    using lutoa_cstr [of 8 "unat u" 22 False] do_prints_cstr [OF assms(1) _ assms(3)] by (fastforce simp: format_o_def)
qed

lemma format_p_prints:
  assumes "ready a" "fits_in a (padded (pa_flags a) (pa_width a) (''0x'' @ number_text 16 False (unat p)))"
  shows "\<exists>a'. format_p func a p = Some (0, a')
    \<and> prints a (padded (pa_flags a) (pa_width a) (''0x'' @ number_text 16 False (unat p))) a'"
proof -
  let ?n = "number_text 16 False (unat p)"
  let ?tmp = "blit (''0x'' @ replicate 17 NUL) 2 (?n @ [NUL])"
  have l: "length (nat_digits 16 (unat p)) \<le> 16" using length_nat_digits [of 16 "unat p" 15] unat64 [of p] by simp
  then have "format_lutoa (''0x'' @ replicate 17 NUL) 2 (unat p) 16 False = Some ?tmp"
    by (intro format_lutoa_digits) simp_all
  moreover have "?tmp = (''0x'' @ ?n) @ [NUL] @ replicate (16 - length ?n) NUL"
    by (simp add: blit_def)
  then have "cstr_at ?tmp 0 (''0x'' @ ?n)"
    using number_text_nonnul [of 16 False "unat p"] cstr_at_front [of "''0x'' @ ?n" "replicate (16 - length ?n) NUL"] by simp
  ultimately show ?thesis using do_prints_cstr [OF assms(1) _ assms(2)] by (auto simp: format_p_def)
qed

lemma format_x_prints:
  assumes "ready a" "fits_in a ((if and (pa_flags a) FLAGS_HASH = FLAGS_HASH then ''0x'' else [])
      @ padded (pa_flags a) (pa_width a) (number_text 16 upper (unat (hex_value (pa_shrt a) u))))"
  shows "\<exists>a'. format_x func a u upper = Some (0, a')
    \<and> prints a ((if and (pa_flags a) FLAGS_HASH = FLAGS_HASH then ''0x'' else [])
      @ padded (pa_flags a) (pa_width a) (number_text 16 upper (unat (hex_value (pa_shrt a) u)))) a'"
proof -
  let ?v = "unat (hex_value (pa_shrt a) u)"
  let ?pre = "if and (pa_flags a) FLAGS_HASH = FLAGS_HASH then ''0x'' else []"
  have "length (nat_digits 16 ?v) < 17" using length_nat_digits [of 16 ?v 15] unat64 [of "hex_value (pa_shrt a) u"] by simp
  then obtain tmp where tmp: "format_lutoa (replicate 17 NUL) 0 ?v 16 upper = Some tmp" "cstr_at tmp 0 (number_text 16 upper ?v)"
    using lutoa_cstr [of 16 ?v 17 upper] by auto
  obtain a1 where a1: "(if and (pa_flags a) FLAGS_HASH = FLAGS_HASH then vfprintf_do_do func a ''0x'' 2 else Some (0, a)) = Some (0, a1)"
    "prints a ?pre a1"
    using do_do_prints [OF assms(1), of 2 "''0x''"] fits_in_first [OF assms(2)] prints_nil [OF assms(1)]
    by (cases "and (pa_flags a) FLAGS_HASH = FLAGS_HASH") auto
  have same: "ready a1" "pa_flags a1 = pa_flags a" "pa_width a1 = pa_width a" using a1(2) by (simp_all add: prints_def)
  from do_prints_cstr [OF same(1) tmp(2)] fits_in_append [OF a1(2) assms(2)] obtain a2
    where "print_tmp func a1 tmp = Some (0, a2)" "prints a1 (padded (pa_flags a) (pa_width a) (number_text 16 upper ?v)) a2"
    unfolding same(2,3) by blast
  then show ?thesis using tmp(1) a1 prints_trans [OF a1(2)] by (auto simp: format_x_def Let_def hex_value_def)
qed

lemma va_signed_Cons: "va_signed lng [x] = Some (d, r) \<Longrightarrow> va_signed lng (x # va) = Some (d, va)"
  by (auto simp: va_signed_def split: va.splits if_splits)

lemma va_unsigned_Cons: "va_unsigned lng [x] = Some (u, r) \<Longrightarrow> va_unsigned lng (x # va) = Some (u, va)"
  by (auto simp: va_unsigned_def split: va.splits if_splits)

lemma convert_prints:
  assumes "conv_text (pa_flags a) (pa_width a) lng (pa_shrt a) c x = Some t" "ready a" "fits_in a t"
  shows "\<exists>a'. vprintf_convert func a lng (x # va) c = Some (Inr (va, a')) \<and> prints a t a'"
proof -
  consider "c = CHR ''c''" | "c = CHR ''d''" | "c = CHR ''s''" | "c = CHR ''p''"
    | "c \<notin> {CHR ''c'', CHR ''d'', CHR ''s'', CHR ''p''}" by blast
  then show ?thesis
  proof cases
    case 1
    with assms(1) obtain i where i: "x = AInt i" "to_char (sint i) \<noteq> NUL" "t = padded (pa_flags a) (pa_width a) [to_char (sint i)]"
      by (auto simp: conv_text_def split: va.splits if_splits)
    then show ?thesis
      using do_prints [OF assms(2), of 1 "[to_char (sint i)]"] assms(3) 1 by (auto simp: vprintf_convert_def format_c_def)
  next
    case 2
    with assms(1) obtain d r where d: "va_signed lng [x] = Some (d, r)" "\<bar>d\<bar> < 10 ^ 18" "t = signed_text (pa_flags a) (pa_width a) d"
      by (auto simp: conv_text_def split: option.splits if_splits)
    from format_d_prints [OF assms(2) d(2)] assms(3) d(3) va_signed_Cons [OF d(1), of va] 2 show ?thesis
      by (auto simp: vprintf_convert_def)
  next
    case 3
    with assms(1) obtain s' where s': "x = AStr s'" "NUL \<notin> set (case s' of None \<Rightarrow> ''(null)'' | Some t \<Rightarrow> t)"
      "t = padded (pa_flags a) (pa_width a) (case s' of None \<Rightarrow> ''(null)'' | Some t \<Rightarrow> t)"
      by (auto simp: conv_text_def Let_def split: va.splits if_splits)
    let ?s = "case s' of None \<Rightarrow> ''(null)'' | Some t \<Rightarrow> t"
    from do_prints [OF assms(2), of "length ?s" ?s] s' assms(3) 3 show ?thesis
      by (auto simp: vprintf_convert_def format_s_def Let_def simp del: set_take_subset_set_take)
  next
    case 4
    with assms(1) obtain i where i: "x = APtr i" "t = padded (pa_flags a) (pa_width a) (''0x'' @ number_text 16 False (unat i))"
      by (auto simp: conv_text_def split: va.splits)
    from format_p_prints [OF assms(2), of i] i assms(3) 4 show ?thesis by (auto simp: vprintf_convert_def)
  next
    case 5
    with assms(1) obtain u r where u: "va_unsigned lng [x] = Some (u, r)"
      by (auto simp: conv_text_def split: option.splits)
    note va = va_unsigned_Cons [OF u, of va]
    have "c = CHR ''u'' \<and> unat u < 10 ^ 18 \<and> t = padded (pa_flags a) (pa_width a) (number_text 10 False (unat u))
      \<or> c = CHR ''o'' \<and> unat u < 2 ^ 63 \<and> t = padded (pa_flags a) (pa_width a) (number_text 8 False (unat u))
      \<or> (c = CHR ''x'' \<or> c = CHR ''X'') \<and> t = (if and (pa_flags a) FLAGS_HASH = FLAGS_HASH then ''0x'' else [])
          @ padded (pa_flags a) (pa_width a) (number_text 16 (c = CHR ''X'') (unat (hex_value (pa_shrt a) u)))"
      using 5 assms(1) u by (auto simp: conv_text_def split: if_splits)
    then consider
      (u) "c = CHR ''u''" "unat u < 10 ^ 18" "t = padded (pa_flags a) (pa_width a) (number_text 10 False (unat u))"
      | (o) "c = CHR ''o''" "unat u < 2 ^ 63" "t = padded (pa_flags a) (pa_width a) (number_text 8 False (unat u))"
      | (x) "c = CHR ''x'' \<or> c = CHR ''X''" "t = (if and (pa_flags a) FLAGS_HASH = FLAGS_HASH then ''0x'' else [])
          @ padded (pa_flags a) (pa_width a) (number_text 16 (c = CHR ''X'') (unat (hex_value (pa_shrt a) u)))"
      by blast
    then show ?thesis
    proof cases
      case u
      from format_u_prints [OF assms(2) u(2)] assms(3) [unfolded u(3)] obtain a'
        where "format_u func a u = Some (0, a')" "prints a t a'" unfolding u(3) by blast
      with va u(1) show ?thesis by (simp add: vprintf_convert_def)
    next
      case o
      from format_o_prints [OF assms(2) o(2)] assms(3) [unfolded o(3)] obtain a'
        where "format_o func a u = Some (0, a')" "prints a t a'" unfolding o(3) by blast
      with va o(1) show ?thesis by (simp add: vprintf_convert_def)
    next
      case x
      from format_x_prints [OF assms(2)] assms(3) [unfolded x(2)] obtain a'
        where "format_x func a u (c = CHR ''X'') = Some (0, a')" "prints a t a'" unfolding x(2) by blast
      with va x(1) show ?thesis by (auto simp: vprintf_convert_def)
    qed
  qed
qed

end

section \<open>Formats\<close>

text \<open>A directive by its parts: flags, width, precision, length modifiers, conversion character.\<close>

datatype directive = Directive string string "string option" string char

definition flag_bit :: "char \<Rightarrow> 32 word" where
  "flag_bit c =
     (if c = CHR ''#'' then FLAGS_HASH else if c = CHR ''-'' then FLAGS_MINUS else if c = CHR ''+'' then FLAGS_PLUS
      else if c = CHR '' '' then FLAGS_SPACE else FLAGS_ZERO)"

definition flags_of :: "string \<Rightarrow> 32 word" where
  "flags_of fs = foldl (\<lambda>fl c. or fl (flag_bit c)) 0 fs"

definition width_of :: "string \<Rightarrow> nat" where
  "width_of ws = foldl (\<lambda>w c. (w * 10 mod 2 ^ 64 + nat (sc c - 48)) mod 2 ^ 64) 0 ws"

definition lng_of :: "string \<Rightarrow> nat" where
  "lng_of mods = (if mods = ''z'' then 1 else length (filter (\<lambda>c. c = CHR ''l'') mods))"

definition shrt_of :: "string \<Rightarrow> nat" where
  "shrt_of mods = length (filter (\<lambda>c. c = CHR ''h'') mods)"

fun directive_body :: "directive \<Rightarrow> string" where
  "directive_body (Directive fs ws pr mods c) = fs @ ws @ (case pr of None \<Rightarrow> [] | Some d \<Rightarrow> ''.'' @ d) @ mods @ [c]"

fun directive_wf :: "directive \<Rightarrow> bool" where
  "directive_wf (Directive fs ws pr mods c) \<longleftrightarrow>
     set fs \<subseteq> set ''#-+ 0'' \<and> set ws \<subseteq> set ''0123456789'' \<and> (ws \<noteq> [] \<longrightarrow> hd ws \<noteq> CHR ''0'')
     \<and> (case pr of None \<Rightarrow> True | Some d \<Rightarrow> set d \<subseteq> set ''0123456789'')
     \<and> mods \<in> {[], ''l'', ''ll'', ''z'', ''h'', ''hh''} \<and> c \<in> set ''cdopsuxX''"

fun directive_text :: "directive \<Rightarrow> va \<Rightarrow> string option" where
  "directive_text (Directive fs ws pr mods c) x = conv_text (flags_of fs) (width_of ws) (lng_of mods) (shrt_of mods) c x"

text \<open>A format: literal text and directives in turn, and the text at the end; and what it prints.\<close>

definition format_of :: "(string \<times> directive) list \<Rightarrow> string \<Rightarrow> string" where
  "format_of segs tail = concat (map (\<lambda>(l, d). l @ CHR ''%'' # directive_body d) segs) @ tail"

definition format_wf :: "(string \<times> directive) list \<Rightarrow> string \<Rightarrow> bool" where
  "format_wf segs tail \<longleftrightarrow>
     (\<forall>(l, d) \<in> set segs. NUL \<notin> set l \<and> CHR ''%'' \<notin> set l \<and> directive_wf d) \<and> NUL \<notin> set tail \<and> CHR ''%'' \<notin> set tail"

fun text_of :: "(string \<times> directive) list \<Rightarrow> va list \<Rightarrow> string \<Rightarrow> string option" where
  "text_of [] [] tail = Some tail"
| "text_of ((l, d) # segs) (x # xs) tail =
     do { t \<leftarrow> directive_text d x; r \<leftarrow> text_of segs xs tail; Some (l @ t @ r) }"
| "text_of segs xs tail = None"

lemma flags_parse:
  "set fs \<subseteq> set ''#-+ 0'' \<Longrightarrow> q \<noteq> [] \<Longrightarrow> hd q \<notin> set ''#-+ 0'' \<Longrightarrow>
   vprintf_flags (fs @ q) fl = (foldl (\<lambda>fl c. or fl (flag_bit c)) fl fs, q)"
proof (induction fs arbitrary: fl)
  case Nil
  then show ?case by (cases q) auto
next
  case (Cons c fs)
  from Cons.prems have c: "c = CHR ''#'' \<or> c = CHR ''-'' \<or> c = CHR ''+'' \<or> c = CHR '' '' \<or> c = CHR ''0''" by auto
  have "vprintf_flags (fs @ q) fl' = (foldl (\<lambda>fl c. or fl (flag_bit c)) fl' fs, q)" for fl'
    using Cons.prems by (intro Cons.IH) auto
  with c show ?case by (auto simp: flag_bit_def)
qed

lemma digit_sc: "c \<in> set ''0123456789'' \<Longrightarrow> \<not> (sc c < sc CHR ''0'' \<or> sc c > sc CHR ''9'')"
  by (auto simp: sc_def uc_def)

lemma not_digit_sc: "c \<in> set ''.cdopsuxXlhz'' \<Longrightarrow> sc c < sc CHR ''0'' \<or> sc c > sc CHR ''9''"
  by (auto simp: sc_def uc_def)

lemma width_parse:
  "set ws \<subseteq> set ''0123456789'' \<Longrightarrow> q \<noteq> [] \<Longrightarrow> hd q \<in> set ''.cdopsuxXlhz'' \<Longrightarrow>
   vprintf_width (ws @ q) w = (foldl (\<lambda>w c. (w * 10 mod 2 ^ 64 + nat (sc c - 48)) mod 2 ^ 64) w ws, q)"
proof (induction ws arbitrary: w)
  case Nil
  then show ?case using not_digit_sc [of "hd q"] by (cases q) auto
next
  case (Cons c ws)
  have d: "\<not> (sc c < sc CHR ''0'' \<or> sc c > sc CHR ''9'')" using Cons.prems by (intro digit_sc) auto
  have "vprintf_width (ws @ q) w' = (foldl (\<lambda>w c. (w * 10 mod 2 ^ 64 + nat (sc c - 48)) mod 2 ^ 64) w' ws, q)" for w'
    using Cons.prems by (intro Cons.IH) auto
  with d show ?case by simp
qed

lemma hd_append_in: "set xs \<subseteq> A \<Longrightarrow> hd ys \<in> A \<Longrightarrow> hd (xs @ ys) \<in> A"
  by (cases xs) auto

text \<open>The part of a directive behind the precision, and the part behind the flags.\<close>

lemma directive_tail_hd:
  assumes "directive_wf (Directive fs ws pr mods c)"
  shows "hd (mods @ c # rest) \<in> set ''cdopsuxXlhz''"
    "hd ((case pr of None \<Rightarrow> [] | Some d \<Rightarrow> ''.'' @ d) @ mods @ c # rest) \<in> set ''.cdopsuxXlhz''"
    "hd (ws @ (case pr of None \<Rightarrow> [] | Some d \<Rightarrow> ''.'' @ d) @ mods @ c # rest) \<notin> set ''#-+ 0''"
    "hd (directive_body (Directive fs ws pr mods c) @ rest) \<noteq> CHR ''%''"
proof -
  have wf: "set fs \<subseteq> set ''#-+ 0''" "set ws \<subseteq> set ''0123456789''" "ws \<noteq> [] \<longrightarrow> hd ws \<noteq> CHR ''0''"
    "mods \<in> {[], ''l'', ''ll'', ''z'', ''h'', ''hh''}" "c \<in> set ''cdopsuxX''"
    using assms by simp_all
  have sub: "set ''lhz'' \<subseteq> set ''cdopsuxXlhz''" "set ''cdopsuxX'' \<subseteq> set ''cdopsuxXlhz''"
    "set ''cdopsuxXlhz'' \<subseteq> set ''.cdopsuxXlhz''" "set ''.cdopsuxXlhz'' \<subseteq> set ''123456789.cdopsuxXlhz''"
    "set ''#-+ 0'' \<subseteq> set ''#-+ 0123456789.cdopsuxXlhz''"
    "set ''123456789.cdopsuxXlhz'' \<subseteq> set ''#-+ 0123456789.cdopsuxXlhz''"
    "set ''123456789.cdopsuxXlhz'' \<inter> set ''#-+ 0'' = {}" "CHR ''%'' \<notin> set ''#-+ 0123456789.cdopsuxXlhz''"
    "CHR ''.'' \<in> set ''.cdopsuxXlhz''" "set ''0123456789'' - {CHR ''0''} \<subseteq> set ''123456789.cdopsuxXlhz''"
    by simp_all
  have "set mods \<subseteq> set ''lhz''" using wf(4) by (elim insertE emptyE) simp_all
  then have "set mods \<subseteq> set ''cdopsuxXlhz''" "hd (c # rest) \<in> set ''cdopsuxXlhz''"
    using subset_trans [OF _ sub(1)] subsetD [OF sub(2) wf(5)] unfolding list.sel by simp_all
  then show 1: "hd (mods @ c # rest) \<in> set ''cdopsuxXlhz''" by (rule hd_append_in)
  show 2: "hd ((case pr of None \<Rightarrow> [] | Some d \<Rightarrow> ''.'' @ d) @ mods @ c # rest) \<in> set ''.cdopsuxXlhz''"
    (is "hd ?q \<in> _")
  proof (cases pr)
    case None
    show ?thesis unfolding None option.case append.simps by (rule subsetD [OF sub(3) 1])
  next
    case (Some d)
    show ?thesis unfolding Some option.case append.simps list.sel by (rule sub(9))
  qed
  have ws: "hd (ws @ ?q) \<in> set ''123456789.cdopsuxXlhz''"
  proof (cases ws)
    case Nil
    show ?thesis unfolding Nil append_Nil by (rule subsetD [OF sub(4) 2])
  next
    case (Cons w ws')
    have "w \<in> set ''0123456789''" by (rule subsetD [OF wf(2)]) (simp add: Cons)
    moreover have "w \<noteq> CHR ''0''" using wf(3) Cons by simp
    ultimately have "w \<in> set ''0123456789'' - {CHR ''0''}" by (intro DiffI) simp_all
    from subsetD [OF sub(10) this] show ?thesis unfolding Cons append.simps list.sel .
  qed
  then show 3: "hd (ws @ ?q) \<notin> set ''#-+ 0''" using sub(7) by blast
  have "hd (fs @ ws @ ?q) \<in> set ''#-+ 0123456789.cdopsuxXlhz''"
    by (rule hd_append_in [OF subset_trans [OF wf(1) sub(5)] subsetD [OF sub(6) ws]])
  then have "hd (fs @ ws @ ?q) \<noteq> CHR ''%''" using sub(8) by metis
  then show "hd (directive_body (Directive fs ws pr mods c) @ rest) \<noteq> CHR ''%''" by simp
qed

lemma directive_parse:
  assumes "directive_wf (Directive fs ws pr mods c)"
  shows "\<exists>p. vprintf_directive func a va (directive_body (Directive fs ws pr mods c) @ rest)
    = vprintf_conv func (a\<lparr>pa_flags := flags_of fs, pa_width := width_of ws, pa_precision := p\<rparr>) 0 va (mods @ c # rest)"
proof -
  let ?q2 = "(case pr of None \<Rightarrow> [] | Some d \<Rightarrow> ''.'' @ d) @ mods @ c # rest"
  note hds = directive_tail_hd [OF assms, of rest]
  have 1: "vprintf_flags (fs @ ws @ ?q2) 0 = (flags_of fs, ws @ ?q2)"
    using assms flags_parse [of fs "ws @ ?q2" 0] hds(3) by (simp add: flags_of_def)
  have 2: "vprintf_width (ws @ ?q2) 0 = (width_of ws, ?q2)"
    using assms width_parse [of ws ?q2 0] hds(2) by (simp add: width_of_def)
  obtain p where 3: "vprintf_precision ?q2 = (p, mods @ c # rest)"
  proof (cases pr)
    case None
    moreover have "peek (mods @ c # rest) \<noteq> CHR ''.''" using hds(1) by (cases mods) auto
    ultimately show thesis using that by (simp add: vprintf_precision_def)
  next
    case (Some d)
    have "hd (mods @ c # rest) \<in> set ''.cdopsuxXlhz''" using hds(1) by auto
    then have "vprintf_width (d @ mods @ c # rest) 0 = (width_of d, mods @ c # rest)"
      using assms width_parse [of d "mods @ c # rest" 0] Some by (simp add: width_of_def)
    then show thesis using that Some by (simp add: vprintf_precision_def)
  qed
  show ?thesis using 1 2 3 by (intro exI [of _ p]) (simp add: vprintf_directive_def)
qed

lemma mods_parse:
  assumes "mods \<in> {[], ''l'', ''ll'', ''z'', ''h'', ''hh''}" "c \<in> set ''cdopsuxX''" "pa_shrt a = 0"
  shows "vprintf_conv func a 0 va (mods @ c # rest) =
    (case vprintf_convert func (a\<lparr>pa_shrt := shrt_of mods\<rparr>) (lng_of mods) va c of
       None \<Rightarrow> None | Some (Inl a') \<Rightarrow> Some (Inl a') | Some (Inr (va', a')) \<Rightarrow> Some (Inr (va', rest, a')))"
proof -
  have c: "c \<noteq> CHR ''l''" "c \<noteq> CHR ''h''" "c \<noteq> CHR ''z''" using assms(2) by auto
  have a: "a\<lparr>pa_shrt := 0\<rparr> = a" using assms(3) by simp
  show ?thesis using assms(1,3) c
    by (elim insertE emptyE; simp add: shrt_of_def lng_of_def a)
qed

lemma padded_0 [simp]: "padded 0 0 s = s"
  by (simp add: padded_def)

context print_sink begin

text \<open>Output without regard to the flags of the directive.\<close>

definition emits :: "'d print_args \<Rightarrow> string \<Rightarrow> 'd print_args \<Rightarrow> bool" where
  "emits a s a' \<longleftrightarrow> ready a' \<and> out (pa_dest a') = out (pa_dest a) @ take (pa_size a) s
     \<and> pa_size a' = pa_size a - length s \<and> pa_ret a' = pa_ret a + int (length s)"

lemma emits_trans: "emits a s a1 \<Longrightarrow> emits a1 t a2 \<Longrightarrow> emits a (s @ t) a2"
  by (auto simp: emits_def)

lemma emits_fits: "emits a s a1 \<Longrightarrow> fits_in a (s @ t) \<Longrightarrow> fits_in a1 t"
  by (simp add: emits_def fits_in_def)

lemma directive_emits:
  assumes "directive_wf d" "directive_text d x = Some t" "ready a" "pa_shrt a = 0" "fits_in a t"
  shows "\<exists>a'. vprintf_directive func a (x # va) (directive_body d @ rest) = Some (Inr (va, rest, a')) \<and> emits a t a'"
proof -
  obtain fs ws pr mods c where d: "d = Directive fs ws pr mods c" by (cases d)
  obtain p where p: "vprintf_directive func a (x # va) (directive_body d @ rest)
    = vprintf_conv func (a\<lparr>pa_flags := flags_of fs, pa_width := width_of ws, pa_precision := p\<rparr>) 0 (x # va) (mods @ c # rest)"
    using directive_parse assms(1) unfolding d by blast
  let ?a = "a\<lparr>pa_flags := flags_of fs, pa_width := width_of ws, pa_precision := p\<rparr>"
  let ?b = "?a\<lparr>pa_shrt := shrt_of mods\<rparr>"
  have m: "vprintf_conv func ?a 0 (x # va) (mods @ c # rest) =
    (case vprintf_convert func ?b (lng_of mods) (x # va) c of
       None \<Rightarrow> None | Some (Inl a') \<Rightarrow> Some (Inl a') | Some (Inr (va', a')) \<Rightarrow> Some (Inr (va', rest, a')))"
    using assms(1,4) d by (intro mods_parse) simp_all
  have "ready ?b" "fits_in ?b t" using assms(3,5) by (simp_all add: ready_def fits_in_def)
  moreover have "conv_text (pa_flags ?b) (pa_width ?b) (lng_of mods) (pa_shrt ?b) c x = Some t" using assms(2) d by simp
  ultimately obtain a' where a': "vprintf_convert func ?b (lng_of mods) (x # va) c = Some (Inr (va, a'))" "prints ?b t a'"
    using convert_prints by blast
  then have "emits a t a'" by (simp add: prints_def emits_def)
  with p m a'(1) show ?thesis by simp
qed

lemma loop_prints:
  assumes "format_wf segs tail" "text_of segs xs tail = Some t" "ready a" "fits_in a t"
  shows "\<exists>a'. vprintf_loop func a xs (format_of segs tail) = Some (Inr a') \<and> emits a t a'"
  using assms
proof (induction segs xs tail arbitrary: a t rule: text_of.induct)
  case (1 tail)
  let ?a = "a\<lparr>pa_flags := 0, pa_width := 0, pa_precision := 0, pa_shrt := 0\<rparr>"
  show ?case
  proof (cases "tail = []")
    case True
    with 1 show ?thesis by (auto simp: vprintf_loop.simps format_of_def emits_def)
  next
    case False
    have no: "takeWhile (\<lambda>c. c \<noteq> CHR ''%'') tail = tail" "dropWhile (\<lambda>c. c \<noteq> CHR ''%'') tail = []" "NUL \<notin> set tail"
      using "1.prems"(1) by (auto simp: format_wf_def takeWhile_eq_all_conv dropWhile_eq_Nil_conv)
    have "ready ?a" "fits_in ?a tail" using "1.prems" by (simp_all add: ready_def fits_in_def)
    from do_prints [OF this(1), of "length tail" tail] this(2) no(3) obtain a'
      where a': "vfprintf_do func ?a tail (length tail) = Some (0, a')" "prints ?a tail a'" by auto
    have "vprintf_loop func a [] tail = Some (Inr a')"
      by (subst vprintf_loop.simps) (simp only: no False a' if_False option.case prod.case list.case simp_thms)
    moreover have "emits a tail a'" using a'(2) by (simp add: prints_def emits_def)
    moreover have "t = tail" "format_of [] tail = tail" using "1.prems"(2) by (simp_all add: format_of_def)
    ultimately show ?thesis by (intro exI [of _ a']) simp
  qed
next
  case (2 l d segs x xs tail)
  let ?a = "a\<lparr>pa_flags := 0, pa_width := 0, pa_precision := 0, pa_shrt := 0\<rparr>"
  let ?rest = "format_of segs tail"
  obtain td r where td: "directive_text d x = Some td" "text_of segs xs tail = Some r" "t = l @ td @ r"
    using "2.prems"(2) by (auto split: bind_splits)
  have wf: "NUL \<notin> set l" "CHR ''%'' \<notin> set l" "directive_wf d" "format_wf segs tail"
    using "2.prems"(1) by (auto simp: format_wf_def)
  have fmt: "format_of ((l, d) # segs) tail = l @ CHR ''%'' # directive_body d @ ?rest" by (simp add: format_of_def)
  have split: "takeWhile (\<lambda>c. c \<noteq> CHR ''%'') (l @ CHR ''%'' # q) = l" "dropWhile (\<lambda>c. c \<noteq> CHR ''%'') (l @ CHR ''%'' # q) = CHR ''%'' # q" for q
    using wf(2) by (auto simp: takeWhile_append dropWhile_append takeWhile_eq_all_conv)
  have peek: "peek (directive_body d @ ?rest) \<noteq> CHR ''%''"
  proof (cases d)
    case (Directive fs ws pr mods c)
    then have "hd (directive_body d @ ?rest) \<noteq> CHR ''%''" "directive_body d \<noteq> []"
      using directive_tail_hd(4) wf(3) by auto
    then show ?thesis by (cases "directive_body d") auto
  qed
  have a: "ready ?a" "fits_in ?a (l @ td @ r)" using "2.prems"(3,4) td(3) by (simp_all add: ready_def fits_in_def)
  obtain a1 where a1: "(if l = [] then Some (0, ?a) else vfprintf_do func ?a (l @ CHR ''%'' # directive_body d @ ?rest) (length l)) = Some (0, a1)"
    "prints ?a l a1"
  proof (cases "l = []")
    case True
    then show thesis using that prints_nil [OF a(1)] by simp
  next
    case False
    have "fits_in ?a (padded (pa_flags ?a) (pa_width ?a) l)" using fits_in_first [OF a(2)] by simp
    moreover have "take (length l) (l @ CHR ''%'' # directive_body d @ ?rest) = l"
      "length l \<le> length (l @ CHR ''%'' # directive_body d @ ?rest)" by simp_all
    ultimately obtain a1 where a1: "vfprintf_do func ?a (l @ CHR ''%'' # directive_body d @ ?rest) (length l) = Some (0, a1)"
      "prints ?a (padded (pa_flags ?a) (pa_width ?a) l) a1"
      using do_prints [OF a(1), of "length l" "l @ CHR ''%'' # directive_body d @ ?rest"] wf(1) by metis
    have "prints ?a l a1" using a1(2) by simp
    with that False a1(1) show thesis by (simp only: if_False)
  qed
  then have p1: "ready a1" "pa_shrt a1 = 0" "emits a l a1" by (simp_all add: prints_def emits_def)
  have f1: "fits_in a1 (td @ r)" using fits_in_append [OF a1(2) a(2)] .
  from directive_emits [OF wf(3) td(1) p1(1,2) fits_in_first [OF f1], of xs ?rest] obtain a2
    where a2: "vprintf_directive func a1 (x # xs) (directive_body d @ ?rest) = Some (Inr (xs, ?rest, a2))" "emits a1 td a2" by blast
  then have "ready a2" by (simp add: emits_def)
  from "2.IH" [OF td(1) wf(4) td(2) this emits_fits [OF a2(2) f1]] obtain a3
    where a3: "vprintf_loop func a2 xs ?rest = Some (Inr a3)" "emits a2 r a3" by blast
  have "vprintf_loop func a (x # xs) (format_of ((l, d) # segs) tail) = vprintf_loop func a2 xs ?rest"
    unfolding fmt
    by (subst vprintf_loop.simps)
      (simp only: split a1(1) peek a2(1) if_False option.case prod.case list.case sum.case simp_thms append_is_Nil_conv list.distinct)
  moreover have "emits a t a3" using emits_trans [OF p1(3) emits_trans [OF a2(2) a3(2)]] td(3) by simp
  ultimately show ?case using a3(1) by simp
qed simp_all

lemma vprintf_prints:
  assumes "format_wf segs tail" "text_of segs xs tail = Some t" "room dest sz" "int (length t) \<le> INT_MAX"
  shows "\<exists>a'. vprintf_do func dest sz (format_of segs tail) xs = Some (int (length t), a')
    \<and> out (pa_dest a') = out dest @ take sz t \<and> room (pa_dest a') (sz - length t)"
proof -
  let ?a = "\<lparr>pa_ret = 0, pa_flags = 0, pa_width = 0, pa_precision = 0, pa_shrt = 0, pa_dest = dest, pa_size = sz, pa_errno = 0\<rparr>"
  have "ready ?a" "fits_in ?a t" using assms(3,4) by (simp_all add: ready_def fits_in_def INT_MAX_def)
  from loop_prints [OF assms(1,2) this] show ?thesis by (auto simp: vprintf_do_def emits_def ready_def)
qed

end

context print_sink begin

text \<open>A double percent sign behind the text \<open>l\<close>: the character printed is the first of the two together.\<close>

lemma percent_prints:
  assumes "NUL \<notin> set l" "CHR ''%'' \<notin> set l" "room dest sz" "int (length l) + 1 \<le> INT_MAX"
  shows "\<exists>a'. vprintf_do func dest sz (l @ ''%%'') [] = Some (int (length (l @ [hd (l @ ''%'')])), a')
    \<and> out (pa_dest a') = out dest @ take sz (l @ [hd (l @ ''%'')]) \<and> room (pa_dest a') (sz - length (l @ [hd (l @ ''%'')]))"
proof -
  let ?a = "\<lparr>pa_ret = 0, pa_flags = 0, pa_width = 0, pa_precision = 0, pa_shrt = 0, pa_dest = dest, pa_size = sz, pa_errno = 0\<rparr>"
  let ?p = "l @ ''%%''" and ?c = "hd (l @ ''%'')"
  have a: "ready ?a" "fits_in ?a (l @ [?c])" using assms(3,4) by (simp_all add: ready_def fits_in_def INT_MAX_def)
  obtain a1 where a1: "(if l = [] then Some (0, ?a) else vfprintf_do func ?a ?p (length l)) = Some (0, a1)" "prints ?a l a1"
  proof (cases "l = []")
    case True
    then show thesis using that prints_nil [OF a(1)] by simp
  next
    case False
    have "fits_in ?a (padded (pa_flags ?a) (pa_width ?a) l)" using fits_in_first [OF a(2)] by simp
    with do_prints [OF a(1), of "length l" ?p] assms(1) False that show thesis by auto
  qed
  have q: "take 1 ?p = [?c]" "1 \<le> length ?p" by (cases l; simp)+
  have "?c \<noteq> NUL" using assms(1) by (cases l) auto
  then have "\<exists>a'. vfprintf_do func a1 ?p 1 = Some (0, a') \<and> prints a1 (padded (pa_flags a1) (pa_width a1) (take 1 ?p)) a'"
    using a1(2) q fits_in_append [OF a1(2) a(2)] by (intro do_prints) (auto simp: prints_def)
  then obtain a2 where a2: "vfprintf_do func a1 ?p 1 = Some (0, a2)" "prints a1 [?c] a2"
    using a1(2) q(1) by (auto simp: prints_def)
  have split: "takeWhile (\<lambda>c. c \<noteq> CHR ''%'') ?p = l" "dropWhile (\<lambda>c. c \<noteq> CHR ''%'') ?p = ''%%''"
    using assms(2) by (auto simp: takeWhile_append dropWhile_append takeWhile_eq_all_conv)
  have reset: "?a\<lparr>pa_flags := 0, pa_width := 0, pa_precision := 0, pa_shrt := 0\<rparr> = ?a" by simp
  have "vprintf_loop func ?a [] ?p = vprintf_loop func a2 [] []"
    by (subst vprintf_loop.simps)
      (simp only: reset split a1(1) a2(1) if_False if_True option.case prod.case list.case simp_thms append_is_Nil_conv
        list.distinct peek.simps list.sel)
  also have "\<dots> = Some (Inr a2)" by (subst vprintf_loop.simps) simp
  finally have "vprintf_do func dest sz ?p [] = Some (pa_ret a2, a2)" by (simp add: vprintf_do_def)
  moreover have "prints ?a (l @ [?c]) a2" using prints_trans [OF a1(2) a2(2)] .
  ultimately show ?thesis by (intro exI [of _ a2]) (auto simp: prints_def ready_def)
qed

end

section \<open>Strings and streams as consumers\<close>

lemma strncpy_from_blit:
  "NUL \<notin> set (take n buf) \<Longrightarrow> n \<le> length buf \<Longrightarrow> d + n \<le> length m \<Longrightarrow> strncpy_from m d buf n = Some (blit m d (take n buf))"
proof (induction m d buf n rule: strncpy_from.induct)
  case (1 m d src)
  then show ?case by (simp add: blit_def)
next
  case (3 m d c src n)
  then have "c \<noteq> NUL" by auto
  with 3 show ?case by (simp add: blit_Cons)
qed simp

text \<open>The output of \<open>_sprint\<close>: the memory \<open>m\<close> with the text from \<open>str\<close> on.\<close>

interpretation sprint_sink: print_sink sprint "\<lambda>d. block (fst d) str (the (snd d) - str)"
  "\<lambda>d k. \<exists>t. d = (blit m str t, Some (str + length t)) \<and> str + length t + k \<le> length m" for m str
proof (unfold_locales, goal_cases takes)
  case (takes d k n buf)
  then obtain t where t: "d = (blit m str t, Some (str + length t))" "str + length t + k \<le> length m" by blast
  define u where "u = t @ take n buf"
  have u: "length u = length t + n" "str + length u + (k - n) \<le> length m" using takes(2,3) t(2) by (simp_all add: u_def)
  have "sprint d n buf = Some (0, (blit m str u, Some (str + length u)))"
  proof (cases "n = 0")
    case False
    have "strncpy_from (blit m str t) (str + length t) buf n = Some (blit (blit m str t) (str + length t) (take n buf))"
      using takes t by (intro strncpy_from_blit) simp_all
    also have "\<dots> = Some (blit m str u)"
      using takes t blit_blit [of str t "take n buf" m] by (simp add: u_def)
    finally show ?thesis using False u(1) by (simp add: t(1) add.assoc)
  qed (simp add: t(1) u_def)
  moreover have "block (blit m str u) str (length u) = u" "block (blit m str t) str (length t) = t"
    using u(2) t(2) by (simp_all add: block_blit_self)
  then have "block (blit m str u) str (the (Some (str + length u)) - str) = block (fst d) str (the (snd d) - str) @ take n buf"
    by (simp add: t(1) u_def)
  ultimately show ?case using u(2) by (intro exI [of _ "(blit m str u, Some (str + length u))"]) auto
qed


text \<open>The end of \<open>vsnprintf\<close>, when \<open>t\<close> was printed.\<close>

lemma vsnprintf_finish:
  assumes "vprintf_do sprint (m, Some str) sz fmt xs = Some (int (length t), a')"
    and "block (fst (pa_dest a')) str (the (snd (pa_dest a')) - str) = take sz t"
    and "\<exists>u. pa_dest a' = (blit m str u, Some (str + length u)) \<and> str + length u + (sz - length t) \<le> length m"
    and "0 < sz" "str + sz \<le> length m"
  shows "vsnprintf m (Some str) sz fmt xs = Some (int (length t), blit m str (take (sz - 1) t @ [NUL]))"
proof -
  from assms(3) obtain u where u: "pa_dest a' = (blit m str u, Some (str + length u))" "str + length u \<le> length m" by auto
  have "u = take sz t" using assms(2) u(1) block_blit_self [OF u(2)] by simp
  with u(1) have dest: "fst (pa_dest a') = blit m str (take sz t)" by simp
  show ?thesis
  proof (cases "length t < sz")
    case True
    have "store (blit m str t) (str + length t) NUL = Some (blit m str (t @ [NUL]))"
      using True assms(5) blit_end [of str t m NUL] by simp
    with True show ?thesis using assms(1) dest by (simp add: vsnprintf_def)
  next
    case False
    let ?s = "take (sz - 1) t"
    have split: "length ?s = sz - 1" using False assms(4) by simp
    have "(blit m str (take sz t))[str + (sz - 1) := NUL] = blit m str (?s @ [NUL])"
    proof (rule nth_equalityI)
      show "(blit m str (take sz t))[str + (sz - 1) := NUL] ! i = blit m str (?s @ [NUL]) ! i"
        if "i < length ((blit m str (take sz t))[str + (sz - 1) := NUL])" for i
        using that assms(4,5) False split by (auto simp: nth_list_update nth_blit nth_append)
    qed (use assms(4,5) False in simp)
    then have "store (blit m str (take sz t)) (str + (sz - 1)) NUL = Some (blit m str (?s @ [NUL]))"
      using assms(4,5) False by simp
    with False show ?thesis using assms(1,4) dest by (simp add: vsnprintf_def)
  qed
qed

lemma sprint_room: "str + sz \<le> length m \<Longrightarrow>
    \<exists>u. (m, Some str) = (blit m str u, Some (str + length u)) \<and> str + length u + sz \<le> length m"
  by (intro exI [of _ "[]"]) (simp add: blit_def)

lemma vsnprintf_text:
  assumes "format_wf segs tail" "text_of segs xs tail = Some t" "int (length t) \<le> INT_MAX"
    and "0 < sz" "str + sz \<le> length m"
  shows "vsnprintf m (Some str) sz (format_of segs tail) xs = Some (int (length t), blit m str (take (sz - 1) t @ [NUL]))"
proof -
  from sprint_sink.vprintf_prints [OF assms(1,2) sprint_room [OF assms(5)] assms(3)] obtain a' where a':
    "vprintf_do sprint (m, Some str) sz (format_of segs tail) xs = Some (int (length t), a')"
    "block (fst (pa_dest a')) str (the (snd (pa_dest a')) - str) = take sz t"
    "\<exists>u. pa_dest a' = (blit m str u, Some (str + length u)) \<and> str + length u + (sz - length t) \<le> length m" by auto
  from vsnprintf_finish [OF a' assms(4,5)] show ?thesis .
qed

section \<open>Properties\<close>

text \<open>
  C3: \<open>vsnprintf\<close> renders a format of literal text and directives, each with flags, width, length modifiers
  and an argument that fits, as the text they stand for: it returns the length of the whole text and stores as much of it
  as fits into the given size, always with a terminator, and nothing outside.
\<close>

theorem vsnprintf_renders:
  assumes "format_wf segs tail" "text_of segs xs tail = Some t" "int (length t) \<le> INT_MAX"
    and "0 < sz" "str + sz \<le> length m"
  shows "vsnprintf m (Some str) sz (format_of segs tail) xs = Some (int (length t), blit m str (take (sz - 1) t @ [NUL]))"
  using assms by (rule vsnprintf_text)

theorem vsnprintf_renders_witness:
  "vsnprintf (replicate 8 NUL) (Some 0) 8 (format_of [(''a='', Directive ''-'' ''3'' None [] CHR ''d'')] ''.'') [AInt 7]
    = Some (int (length ''a=7  .''), blit (replicate 8 NUL) 0 (take (8 - 1) ''a=7  .'' @ [NUL]))"
proof (rule vsnprintf_renders)
  show "format_wf [(''a='', Directive ''-'' ''3'' None [] CHR ''d'')] ''.''" by (simp add: format_wf_def)
  have w: "width_of ''3'' = 3" by (simp add: width_of_def sc_def uc_def)
  have f: "flags_of ''-'' = 2" by (simp add: flags_of_def flag_bit_def FLAGS_MINUS_def)
  have two: "replicate 2 CHR '' '' = ''  ''" by (simp add: numeral_2_eq_2)
  have n: "number_text 10 False 7 = ''7''" by (simp add: number_text_def nat_digits_small convl_def)
  show "text_of [(''a='', Directive ''-'' ''3'' None [] CHR ''d'')] [AInt 7] ''.'' = Some ''a=7  .''"
    by (simp add: conv_text_def w f lng_of_def va_signed_def signed_text_def padded_def FLAGS_MINUS_def n two)
qed (simp_all add: INT_MAX_def)



section \<open>Printing and reading numbers\<close>

lemma convl_digit_char: "d < 36 \<Longrightarrow> convl ! d = digit_char (int d)"
proof -
  have "\<forall>d \<in> set [0..<36]. convl ! d = digit_char (int d)"
    by code_simp
  then show "d < 36 \<Longrightarrow> convl ! d = digit_char (int d)" by simp
qed

lemma number_text_digits: "2 \<le> base \<Longrightarrow> base \<le> 36 \<Longrightarrow>
  number_text base False n = map digit_char (map int (nat_digits base n))"
  using nat_digits_less [of base _ n] by (auto simp: number_text_def intro!: convl_digit_char) (metis less_le_trans)

lemma nat_digits_value: "2 \<le> base \<Longrightarrow> digits_value (int base) (map int (nat_digits base n)) = int n"
proof (induction base n rule: nat_digits.induct)
  case (1 base n)
  show ?case
  proof (cases "n < base")
    case True
    then show ?thesis by (simp add: nat_digits_small digits_value_def)
  next
    case False
    with 1 have "foldl (\<lambda>v d. v * int base + d) 0 (map int (nat_digits base (n div base))) = int (n div base)"
      by (simp add: digits_value_def)
    moreover have "int (n div base) * int base + int (n mod base) = int n" by (simp flip: of_nat_mult of_nat_add)
    ultimately show ?thesis using False 1(2) by (simp add: nat_digits_step digits_value_def)
  qed
qed

lemma hd_nat_digits: "2 \<le> base \<Longrightarrow> 0 < n \<Longrightarrow> hd (nat_digits base n) \<noteq> 0"
proof (induction base n rule: nat_digits.induct)
  case (1 base n)
  then show ?case
    by (cases "n < base") (simp_all add: nat_digits_small nat_digits_step div_greater_zero_iff)
qed

lemma strtoull_number_text:
  assumes "2 \<le> base" "base \<le> 36"
  shows "strtoull (number_text base False (unat u)) (int base) = (u, Some [], None)"
proof (cases "base = 16 \<and> u = 0")
  case True
  moreover have "number_text 16 False 0 = ''0''" "strtoull ''0'' 16 = (0, Some [], None)" by code_simp+
  ultimately show ?thesis by simp
next
  case False
  let ?ds = "map int (nat_digits base (unat u))"
  have "strtoull_do ([] @ map digit_char ?ds @ []) (int base)
      = (word_of_int (digits_value (int base) ?ds), Some [], False, None)"
  proof (rule strtoull_do_digits)
    show "\<forall>d \<in> set ?ds. 0 \<le> d \<and> d < int base" using nat_digits_less [OF assms(1)] by auto
    show "int base \<noteq> 16 \<or> hd ?ds \<noteq> 0"
      using hd_nat_digits [OF assms(1), of "unat u"] False by (auto simp: hd_map unat_gt_0)
  qed (use assms in simp_all)
  then show ?thesis
    using assms(1,2) by (simp add: strtoull_def number_text_digits nat_digits_value)
qed

text \<open>
  C20: Printing an \<open>unsigned long\<close> with \<open>%lx\<close> and reading it with \<open>strtoull\<close> in base 16 gives it back; so does
  printing it with \<open>%lu\<close> and reading it in base 10, for numbers below 10^18 (from there on the buffer of the decimal
  conversion is too small).
\<close>

theorem printf_strtoull:
  assumes "20 \<le> length m"
  shows "(\<exists>s m'. vsnprintf m (Some 0) 20 ''%lx'' [ALong u] = Some (int (length s), m') \<and> cstr_at m' 0 s
      \<and> strtoull s 16 = (u, Some [], None))
    \<and> (unat u < 10 ^ 18 \<longrightarrow> (\<exists>s m'. vsnprintf m (Some 0) 20 ''%lu'' [ALong u] = Some (int (length s), m') \<and> cstr_at m' 0 s
      \<and> strtoull s 10 = (u, Some [], None)))"
proof -
  have one: "\<exists>m'. vsnprintf m (Some 0) 20 (''%l'' @ [c]) [ALong u] = Some (int (length t), m') \<and> cstr_at m' 0 t"
    if c: "c \<in> {CHR ''u'', CHR ''x''}" and t: "directive_text (Directive [] [] None ''l'' c) (ALong u) = Some t"
      "length t < 20" "NUL \<notin> set t" for c t
  proof -
    have w: "format_wf [([], Directive [] [] None ''l'' c)] []" "text_of [([], Directive [] [] None ''l'' c)] [ALong u] [] = Some t"
      "format_of [([], Directive [] [] None ''l'' c)] [] = ''%l'' @ [c]"
      using c t by (auto simp: format_wf_def format_of_def)
    have "vsnprintf m (Some 0) 20 (''%l'' @ [c]) [ALong u] = Some (int (length t), blit m 0 (take (20 - 1) t @ [NUL]))"
      unfolding w(3) [symmetric] using assms t(2) by (intro vsnprintf_text [OF w(1,2)]) (simp_all add: INT_MAX_def)
    moreover have "cstr_at (blit m 0 (t @ [NUL])) 0 t" using t(2,3) assms by (intro cstr_at_blitI) simp_all
    ultimately show ?thesis using t(2) by simp
  qed
  have hex: "directive_text (Directive [] [] None ''l'' CHR ''x'') (ALong u) = Some (number_text 16 False (unat u))"
    "length (number_text 16 False (unat u)) < 20"
    using length_nat_digits [of 16 "unat u" 15] unat64 [of u]
    by (simp_all add: conv_text_def va_unsigned_def lng_of_def shrt_of_def flags_of_def width_of_def hex_value_def FLAGS_HASH_def)
  have dec: "directive_text (Directive [] [] None ''l'' CHR ''u'') (ALong u) = Some (number_text 10 False (unat u))"
    "length (number_text 10 False (unat u)) < 20" if "unat u < 10 ^ 18"
    using that length_nat_digits [of 10 "unat u" 17]
    by (simp_all add: conv_text_def va_unsigned_def lng_of_def shrt_of_def flags_of_def width_of_def)
  show ?thesis
  proof (intro conjI impI)
    show "\<exists>s m'. vsnprintf m (Some 0) 20 ''%lx'' [ALong u] = Some (int (length s), m') \<and> cstr_at m' 0 s
        \<and> strtoull s 16 = (u, Some [], None)"
      using one [OF _ hex number_text_nonnul] strtoull_number_text [of 16 u] by - (rule exI [of _ "number_text 16 False (unat u)"], auto)
    assume "unat u < 10 ^ 18"
    from one [OF _ dec [OF this] number_text_nonnul] strtoull_number_text [of 10 u]
    show "\<exists>s m'. vsnprintf m (Some 0) 20 ''%lu'' [ALong u] = Some (int (length s), m') \<and> cstr_at m' 0 s
        \<and> strtoull s 10 = (u, Some [], None)" by - (rule exI [of _ "number_text 10 False (unat u)"], auto)
  qed
qed

theorem printf_strtoull_witness:
  "(\<exists>s m'. vsnprintf (replicate 20 NUL) (Some 0) 20 ''%lx'' [ALong 42] = Some (int (length s), m') \<and> cstr_at m' 0 s
      \<and> strtoull s 16 = (42, Some [], None))
    \<and> (\<exists>s m'. vsnprintf (replicate 20 NUL) (Some 0) 20 ''%lu'' [ALong 42] = Some (int (length s), m') \<and> cstr_at m' 0 s
      \<and> strtoull s 10 = (42, Some [], None))"
  using printf_strtoull [of "replicate 20 NUL" 42] by simp

text \<open>
  C40: An unsigned number of 19 digits or more, from 10^18 on, does not fit the 19 bytes of the buffer of
  \<open>_format_u\<close>: \<open>%lu\<close> writes behind it, whatever the output is.
\<close>

theorem printf_long_overflow:
  assumes "10 ^ 18 \<le> unat u"
  shows "vprintf_do func dest sz ''%lu'' [ALong u] = None"
proof -
  let ?m = "replicate 19 NUL" and ?l = "length (nat_digits 10 (unat u))"
  have l: "19 \<le> ?l" "lutoa_len (unat u) 10 = ?l" "unat u \<noteq> 0"
  proof -
    show "unat u \<noteq> 0" using assms by auto
    then show "lutoa_len (unat u) 10 = ?l" by (intro lutoa_len_digits) simp_all
    show "19 \<le> ?l" using length_nat_digits_ge [of 10 18 "unat u"] assms by simp
  qed
  have "format_lutoa ?m 0 (unat u) 10 False = None"
  proof (cases "?l = 19")
    case True
    then have "lutoa_fill ?m 0 19 (unat u) 10 convl = Some (blit ?m 0 (map ((!) convl) (nat_digits 10 (unat u))))"
      using lutoa_fill_digits [of 10 "unat u" 0 ?m convl] l(3) by simp
    moreover have "store (blit ?m 0 (map ((!) convl) (nat_digits 10 (unat u)))) 19 NUL = None"
      using True by (simp add: store_def)
    ultimately show ?thesis using l True by (simp add: format_lutoa_def convl_def [THEN arg_cong [where f = length]])
  next
    case False
    then have "store ?m (0 + ?l - 1) c = None" for c using l(1) by (simp add: store_def)
    then have "lutoa_fill ?m 0 ?l (unat u) 10 convl = None" using l(3) by (subst lutoa_fill.simps) simp
    then show ?thesis using l by (simp add: format_lutoa_def convl_def [THEN arg_cong [where f = length]])
  qed
  then have f: "format_u func a u = None" for a by (simp add: format_u_def)
  show ?thesis
    by (simp add: vprintf_do_def vprintf_loop.simps vprintf_directive_def vprintf_precision_def vprintf_convert_def
        va_unsigned_def f sc_def uc_def)
qed

theorem printf_long_overflow_witness:
  "vprintf_do sprint ([], None) 0 ''%lu'' [ALong (10 ^ 18)] = None"
  by (rule printf_long_overflow) simp

text \<open>
  A double percent sign prints the first character of the text before it, not a percent sign, unless there is
  no text before it.
\<close>

theorem printf_percent:
  assumes "NUL \<notin> set l" "CHR ''%'' \<notin> set l" "length l + 1 < sz" "str + sz \<le> length m" "int sz \<le> INT_MAX"
  shows "\<exists>m'. vsnprintf m (Some str) sz (l @ ''%%'') [] = Some (int (length l) + 1, m')
    \<and> cstr_at m' str (l @ [if l = [] then CHR ''%'' else hd l])"
proof -
  let ?t = "l @ [hd (l @ ''%'')]"
  have "int (length l) + 1 \<le> INT_MAX" using assms(3,5) by linarith
  from sprint_sink.percent_prints [OF assms(1,2) sprint_room [OF assms(4)] this] obtain a' where a':
    "vprintf_do sprint (m, Some str) sz (l @ ''%%'') [] = Some (int (length ?t), a')"
    "block (fst (pa_dest a')) str (the (snd (pa_dest a')) - str) = take sz ?t"
    "\<exists>u. pa_dest a' = (blit m str u, Some (str + length u)) \<and> str + length u + (sz - length ?t) \<le> length m" by auto
  have tk: "take (sz - 1) ?t = ?t" by (rule take_all) (use assms(3) in simp)
  have "vsnprintf m (Some str) sz (l @ ''%%'') [] = Some (int (length ?t), blit m str (take (sz - 1) ?t @ [NUL]))"
    using assms(3,4) by (intro vsnprintf_finish [OF a']) simp_all
  then have 1: "vsnprintf m (Some str) sz (l @ ''%%'') [] = Some (int (length l) + 1, blit m str (?t @ [NUL]))"
    unfolding tk by simp
  have "NUL \<notin> set ?t" using assms(1) by (cases l) auto
  then have 2: "cstr_at (blit m str (?t @ [NUL])) str ?t" using assms(3,4) by (intro cstr_at_blitI) simp_all
  have hd: "hd (l @ ''%'') = (if l = [] then CHR ''%'' else hd l)" by simp
  show ?thesis
  proof (intro exI conjI)
    show "vsnprintf m (Some str) sz (l @ ''%%'') [] = Some (int (length l) + 1, blit m str (?t @ [NUL]))" by (rule 1)
    show "cstr_at (blit m str (?t @ [NUL])) str (l @ [if l = [] then CHR ''%'' else hd l])" using 2 by (simp only: hd)
  qed
qed

theorem printf_percent_witness:
  "\<exists>m'. vsnprintf (replicate 8 NUL) (Some 0) 8 (''90'' @ ''%%'') [] = Some (int (length ''90'') + 1, m')
    \<and> cstr_at m' 0 (''90'' @ [if ''90'' = [] then CHR ''%'' else hd ''90''])"
  by (rule printf_percent) (simp_all add: INT_MAX_def)

text \<open>A negative number is padded twice: the sign by itself and the digits by themselves.\<close>

lemma printf_negative_width: "d < 0 \<Longrightarrow> length (signed_text 0 w d) \<ge> 2 * w"
  by (auto simp: signed_text_def padded_def)

end
