(* ===== verification/Libc_Env.thy ===== *)
theory Libc_Env
  imports Sys_Hash
begin

text \<open>
  The process services of \<open>libc/src/stdlib.c\<close>: functions run at exit, the environment, random numbers
  and names for temporary files.

  Functions to run at exit are numbers with an environment that gives their effect on the table, the
  world and the rest \<open>'u\<close> of the process. The environment variables are an array of pointers into a
  heap of strings. What \<open>malloc\<close> and \<open>realloc\<close> answer is part of the world (\<open>alloc\<close>), and whether
  \<open>realloc\<close> moves a block is an input (\<open>e_moves\<close>; when the list is used up, no block moves any more).
  \<open>None\<close> is undefined behaviour or a loop that does not end.
\<close>

section \<open>Functions to run at exit\<close>

datatype AtexitFunction = AF_EXEC | AF_PURGE | AF_REGISTER

record atexit_table =
  at_cb :: "nat list option"
  at_size :: nat
  at_pos :: nat

definition atexit0 :: atexit_table where
  "atexit0 = \<lparr>at_cb = None, at_size = 0, at_pos = 0\<rparr>"

type_synonym 'u exit_env = "nat \<Rightarrow> 'u \<times> atexit_table \<times> world \<Rightarrow> ('u \<times> atexit_table \<times> world) option"

definition atexit_start :: "atexit_table \<Rightarrow> world \<Rightarrow> bool \<times> atexit_table \<times> world" where
  "atexit_start t w =
     (if at_cb t = None \<and> at_size t = 0 then
        (case w_alloc w of
           (ok, w') \<Rightarrow> if ok then (True, t\<lparr>at_cb := Some (replicate 32 0), at_size := 32\<rparr>, w') else (False, t, w'))
      else (True, t, w))"

text \<open>\<open>while(cb_pos-- > 0) cb[cb_pos]();\<close> a function that is called may register others.\<close>

partial_function (option) exec_loop ::
  "'u exit_env \<Rightarrow> 'u \<Rightarrow> atexit_table \<Rightarrow> world \<Rightarrow> ('u \<times> atexit_table \<times> world) option" where
  "exec_loop env u t w =
     (if at_pos t > 0 then
        do { cb \<leftarrow> at_cb t;
             f \<leftarrow> nth_opt cb (at_pos t - 1);
             (u', t', w') \<leftarrow> env f (u, t\<lparr>at_pos := at_pos t - 1\<rparr>, w);
             exec_loop env u' t' w' }
      else Some (u, t\<lparr>at_pos := 2 ^ 64 - 1\<rparr>, w))"

definition atexit_purge :: "atexit_table \<Rightarrow> atexit_table" where
  "atexit_purge t = t\<lparr>at_cb := None, at_size := 0, at_pos := 0\<rparr>"

definition atexit_register :: "nat \<Rightarrow> atexit_table \<Rightarrow> world \<Rightarrow> (int \<times> atexit_table \<times> world) option" where
  "atexit_register callback t w =
     (let full = (at_pos t = at_size t);
          (ok, w1) = (if full then w_alloc w else (True, w)) in
      if \<not> ok then Some (- 1, t, w1)
      else do { cb \<leftarrow> at_cb t;
                let cb' = (if full then cb @ replicate 4 0 else cb);
                if at_pos t < length cb' then
                  Some (0, t\<lparr>at_cb := Some (cb'[at_pos t := callback]),
                    at_size := (if full then at_size t + 4 else at_size t), at_pos := at_pos t + 1\<rparr>, w1)
                else None })"

definition atexit_do ::
  "'u exit_env \<Rightarrow> AtexitFunction \<Rightarrow> nat \<Rightarrow> 'u \<Rightarrow> atexit_table \<Rightarrow> world
     \<Rightarrow> (int \<times> 'u \<times> atexit_table \<times> world) option" where
  "atexit_do env function callback u t w =
     (case atexit_start t w of
        (ok, t1, w1) \<Rightarrow>
          if \<not> ok then Some (- 1, u, t1, w1)
          else case function of
            AF_EXEC \<Rightarrow> do { (u2, t2, w2) \<leftarrow> exec_loop env u t1 w1; Some (0, u2, atexit_purge t2, w2) }
          | AF_PURGE \<Rightarrow> Some (0, u, atexit_purge t1, w1)
          | AF_REGISTER \<Rightarrow> do { (r, t2, w2) \<leftarrow> atexit_register callback t1 w1; Some (r, u, t2, w2) })"

definition atexit :: "nat \<Rightarrow> atexit_table \<Rightarrow> world \<Rightarrow> (int \<times> atexit_table \<times> world) option" where
  "atexit callback t w =
     do { (r, u, t', w') \<leftarrow> atexit_do (\<lambda>f st. Some st) AF_REGISTER callback () t w; Some (r, t', w') }"

text \<open>
  \<open>exit\<close>: the standard streams are flushed first (\<open>flush_stdout\<close> and \<open>flush_stderr\<close> are the effect on the
  rest of the process), then the functions run; the result is the status for \<open>_exit\<close>.
\<close>

definition exit_process ::
  "('u \<Rightarrow> 'u option) \<Rightarrow> ('u \<Rightarrow> 'u option) \<Rightarrow> 'u exit_env \<Rightarrow> int \<Rightarrow> 'u \<Rightarrow> atexit_table \<Rightarrow> world
     \<Rightarrow> (int \<times> 'u \<times> atexit_table \<times> world) option" where
  "exit_process flush_stdout flush_stderr env status u t w =
     do { u1 \<leftarrow> flush_stdout u;
          u2 \<leftarrow> flush_stderr u1;
          (r, u3, t3, w3) \<leftarrow> atexit_do env AF_EXEC 0 u2 t w;
          Some (status, u3, t3, w3) }"

section \<open>The environment\<close>

text \<open>
  \<open>e_environ\<close> is the array of the pointers, without its final \<open>NULL\<close> (or \<open>None\<close> when \<open>environ\<close> is
  \<open>NULL\<close>); once \<open>e_env\<close> is set, it is the array the static variable \<open>env\<close> points to as well.
\<close>

record penv =
  e_heap :: "nat \<Rightarrow> string option"
  e_next :: nat
  e_moves :: "bool list"
  e_environ :: "nat list option"
  e_env :: bool
  e_cnt :: nat

abbreviation eqsign :: char where "eqsign \<equiv> CHR ''=''"

text \<open>\<open>strncmp(s, t, n) == 0\<close>; for \<open>n = 0\<close> the length wraps and the whole strings are compared.\<close>

definition strncmp_same :: "string \<Rightarrow> string \<Rightarrow> nat \<Rightarrow> bool" where
  "strncmp_same s t n \<longleftrightarrow> (if n = 0 then s = t else take n s = take n t)"

definition env_match :: "string \<Rightarrow> string \<Rightarrow> bool" where
  "env_match s name \<longleftrightarrow> strncmp_same s name (length name) \<and> nth_opt (s @ [NUL]) (length name) = Some eqsign"

text \<open>The loops over the array stop at the first match: its position and the string.\<close>

fun env_find :: "penv \<Rightarrow> nat list \<Rightarrow> string \<Rightarrow> nat \<Rightarrow> (nat \<times> nat \<times> string) option option" where
  "env_find e [] name i = Some None"
| "env_find e (pos # ps) name i =
     (case e_heap e pos of
        None \<Rightarrow> None
      | Some s \<Rightarrow> if env_match s name then Some (Some (i, pos, s)) else env_find e ps name (i + 1))"

definition getenv :: "string \<Rightarrow> penv \<Rightarrow> world \<Rightarrow> (string option \<times> world) option" where
  "getenv name e w =
     (if eqsign \<in> set name then Some (None, w\<lparr>errno := EINVAL\<rparr>)
      else do { ps \<leftarrow> e_environ e;
                r \<leftarrow> env_find e ps name 0;
                Some (case r of None \<Rightarrow> None | Some (i, pos, s) \<Rightarrow> Some (drop (length name + 1) s), w) })"

text \<open>A new string on the heap: \<open>strdup\<close>, or \<open>malloc\<close> and \<open>sprintf\<close>.\<close>

definition new_string :: "string \<Rightarrow> penv \<Rightarrow> world \<Rightarrow> nat option \<times> penv \<times> world" where
  "new_string s e w =
     (case w_alloc w of
        (False, w') \<Rightarrow> (None, e, w')
      | (True, w') \<Rightarrow> (Some (e_next e), e\<lparr>e_heap := (e_heap e)(e_next e \<mapsto> s), e_next := e_next e + 1\<rparr>, w'))"

text \<open>The copies of the strings; on failure those already made are freed again.\<close>

fun init_loop :: "nat list \<Rightarrow> nat list \<Rightarrow> penv \<Rightarrow> world \<Rightarrow> (nat list option \<times> penv \<times> world) option" where
  "init_loop [] made e w = Some (Some made, e, w)"
| "init_loop (pos # ps) made e w =
     do { s \<leftarrow> e_heap e pos;
          case new_string s e w of
            (None, e', w') \<Rightarrow> Some (None, e'\<lparr>e_heap := (e_heap e') |` (- set made)\<rparr>, w')
          | (Some p, e', w') \<Rightarrow> init_loop ps (made @ [p]) e' w' }"

definition INIT_ATEXIT :: nat where "INIT_ATEXIT = 0"

definition setenv_init :: "penv \<Rightarrow> atexit_table \<Rightarrow> world \<Rightarrow> (bool \<times> penv \<times> atexit_table \<times> world) option" where
  "setenv_init e t w =
     do { ps \<leftarrow> e_environ e;
          let e0 = e\<lparr>e_cnt := length ps\<rparr>;
          case w_alloc w of
            (False, w1) \<Rightarrow> Some (False, e0, t, w1)
          | (True, w1) \<Rightarrow>
              do { (r, e2, w2) \<leftarrow> init_loop ps [] e0 w1;
                   case r of
                     None \<Rightarrow> Some (False, e2, t, w2)
                   | Some env \<Rightarrow>
                       do { (_, t3, w3) \<leftarrow> atexit INIT_ATEXIT t w2;
                            Some (True, e2\<lparr>e_environ := Some env, e_env := True\<rparr>, t3, w3) } } }"

text \<open>\<open>_init_atexit\<close> frees the strings and the array.\<close>

definition init_atexit :: "penv \<Rightarrow> penv option" where
  "init_atexit e = do { ps \<leftarrow> e_environ e; Some (e\<lparr>e_heap := (e_heap e) |` (- set ps), e_environ := None\<rparr>) }"

text \<open>
  The new text of a variable that does not fit into its old string: \<open>realloc\<close> may move the block, and
  the pointer in the array is not changed then.
\<close>

definition grow_string :: "nat \<Rightarrow> string \<Rightarrow> penv \<Rightarrow> world \<Rightarrow> int \<times> penv \<times> world" where
  "grow_string pos s e w =
     (case w_alloc w of
        (False, w') \<Rightarrow> (- 1, e, w')
      | (True, w') \<Rightarrow>
          (case e_moves e of
             [] \<Rightarrow> (0, e\<lparr>e_heap := (e_heap e)(pos \<mapsto> s)\<rparr>, w')
           | False # ms \<Rightarrow> (0, e\<lparr>e_heap := (e_heap e)(pos \<mapsto> s), e_moves := ms\<rparr>, w')
           | True # ms \<Rightarrow>
               (0, e\<lparr>e_heap := (e_heap e)(pos := None, e_next e \<mapsto> s), e_next := e_next e + 1, e_moves := ms\<rparr>, w')))"

definition setenv_found ::
  "string \<Rightarrow> string option \<Rightarrow> int \<Rightarrow> nat list \<Rightarrow> nat \<times> nat \<times> string \<Rightarrow> penv \<Rightarrow> world \<Rightarrow> int \<times> penv \<times> world" where
  "setenv_found name val overwrite ps found e w =
     (case found of (i, pos, s) \<Rightarrow>
        if overwrite = 0 then (0, e, w)
        else case val of
          None \<Rightarrow>
            (0, e\<lparr>e_heap := (e_heap e)(pos := None), e_environ := Some (take i ps @ drop (i + 1) ps),
                  e_cnt := e_cnt e - 1\<rparr>, w)
        | Some v \<Rightarrow>
            let s' = take (length name + 1) s @ v in
            if length (drop (length name + 1) s) \<ge> length v then (0, e\<lparr>e_heap := (e_heap e)(pos \<mapsto> s')\<rparr>, w)
            else grow_string pos s' e w)"

definition setenv_append :: "string \<Rightarrow> string \<Rightarrow> nat list \<Rightarrow> penv \<Rightarrow> world \<Rightarrow> int \<times> penv \<times> world" where
  "setenv_append name v ps e w =
     (case w_alloc w of
        (False, w1) \<Rightarrow> (- 1, e, w1)
      | (True, w1) \<Rightarrow>
          (case new_string (name @ eqsign # v) e w1 of
             (None, e2, w2) \<Rightarrow> (- 1, e2, w2)
           | (Some p, e2, w2) \<Rightarrow> (0, e2\<lparr>e_environ := Some (ps @ [p]), e_cnt := e_cnt e2 + 1\<rparr>, w2)))"

definition setenv_do ::
  "string \<Rightarrow> string option \<Rightarrow> int \<Rightarrow> penv \<Rightarrow> atexit_table \<Rightarrow> world
     \<Rightarrow> (int \<times> penv \<times> atexit_table \<times> world) option" where
  "setenv_do name val overwrite e t w =
     do { (ok, e1, t1, w1) \<leftarrow> (if e_env e then Some (True, e, t, w) else setenv_init e t w);
          if \<not> ok then Some (- 1, e1, t1, w1)
          else do { ps \<leftarrow> e_environ e1;
                    found \<leftarrow> env_find e1 ps name 0;
                    Some (case (case found of
                                  Some f \<Rightarrow> setenv_found name val overwrite ps f e1 w1
                                | None \<Rightarrow> (case val of None \<Rightarrow> (0, e1, w1) | Some v \<Rightarrow> setenv_append name v ps e1 w1)) of
                            (r, e2, w2) \<Rightarrow> (r, e2, t1, w2)) } }"

definition valid_name :: "string \<Rightarrow> bool" where
  "valid_name name \<longleftrightarrow> name \<noteq> [] \<and> eqsign \<notin> set name"

definition setenv ::
  "string option \<Rightarrow> string option \<Rightarrow> int \<Rightarrow> penv \<Rightarrow> atexit_table \<Rightarrow> world
     \<Rightarrow> (int \<times> penv \<times> atexit_table \<times> world) option" where
  "setenv name val overwrite e t w =
     (case name of
        Some n \<Rightarrow>
          if \<not> valid_name n \<or> val = None then Some (- 1, e, t, w\<lparr>errno := EINVAL\<rparr>)
          else setenv_do n val overwrite e t w
      | None \<Rightarrow> Some (- 1, e, t, w\<lparr>errno := EINVAL\<rparr>))"

definition unsetenv :: "string option \<Rightarrow> penv \<Rightarrow> atexit_table \<Rightarrow> world \<Rightarrow> (int \<times> penv \<times> atexit_table \<times> world) option" where
  "unsetenv name e t w =
     (case name of
        Some n \<Rightarrow>
          if \<not> valid_name n then Some (- 1, e, t, w\<lparr>errno := EINVAL\<rparr>) else setenv_do n None 1 e t w
      | None \<Rightarrow> Some (- 1, e, t, w\<lparr>errno := EINVAL\<rparr>))"

section \<open>Random numbers and temporary names\<close>

definition RAND_MAX :: int where "RAND_MAX = 32767"

definition rand :: "32 word \<Rightarrow> int \<times> 32 word" where
  "rand seed = (let seed' = seed * 0x23456789 in (uint seed' mod RAND_MAX, seed'))"

definition srand :: "32 word \<Rightarrow> 32 word" where "srand seed = seed"

definition temp_tab :: string where
  "temp_tab = ''0123456789abcdefghijklmnopqrstuvwxyzABCDEFGHIJKLMNOPQRSTUVWXYZ''"

fun mktemp_loop :: "nat \<Rightarrow> string \<Rightarrow> 32 word \<Rightarrow> string \<times> 32 word" where
  "mktemp_loop 0 template seed = (template, seed)"
| "mktemp_loop (Suc i) template seed =
     (if template ! i = CHR ''X'' then
        (case rand seed of (r, seed') \<Rightarrow> mktemp_loop i (template[i := temp_tab ! nat (r mod 62)]) seed')
      else (template, seed))"

definition ENOENT :: int where "ENOENT = 2"
definition EEXIST :: int where "EEXIST = 17"

text \<open>\<open>lstat\<close> answers with the error number, or with \<open>None\<close> when there is such a file.\<close>

definition mktemp :: "(string \<Rightarrow> int option) \<Rightarrow> string \<Rightarrow> 32 word \<Rightarrow> world \<Rightarrow> string option \<times> string \<times> 32 word \<times> world" where
  "mktemp lstat template seed w =
     (case mktemp_loop (length template) template seed of
        (name, seed') \<Rightarrow>
          (case lstat name of
             Some e \<Rightarrow> (if e = ENOENT then Some name else None, name, seed', w\<lparr>errno := e\<rparr>)
           | None \<Rightarrow> (None, name, seed', w\<lparr>errno := EEXIST\<rparr>)))"

text \<open>\<open>open_new\<close> is \<open>open\<close> with the flags for a new file: a descriptor or \<open>- 1\<close>.\<close>

definition mkstemp ::
  "(string \<Rightarrow> int option) \<Rightarrow> (string \<Rightarrow> int) \<Rightarrow> string \<Rightarrow> 32 word \<Rightarrow> world \<Rightarrow> int \<times> string \<times> 32 word \<times> world" where
  "mkstemp lstat open_new template seed w =
     (case mktemp lstat template seed w of
        (r, name, seed', w') \<Rightarrow> (if r = None then - 1 else open_new name, name, seed', w'))"

section \<open>Facts: functions at exit\<close>

text \<open>The functions registered and not yet run, in the order of their registration.\<close>

definition at_holds :: "atexit_table \<Rightarrow> nat list \<Rightarrow> bool" where
  "at_holds t fs \<longleftrightarrow> (case at_cb t of
       None \<Rightarrow> fs = [] \<and> at_size t = 0 \<and> at_pos t = 0
     | Some cb \<Rightarrow> at_size t = length cb \<and> at_pos t = length fs \<and> length fs \<le> length cb \<and> take (length fs) cb = fs
         \<and> cb \<noteq> [])"

lemma at_holds0: "at_holds atexit0 []"
  by (simp add: at_holds_def atexit0_def)

lemma atexit_start_ok:
  assumes "at_holds t fs" "plenty w"
  shows "\<exists>t' w' cb. atexit_start t w = (True, t', w') \<and> at_holds t' fs \<and> at_cb t' = Some cb \<and> plenty w'"
proof (cases "at_cb t")
  case None
  obtain w' where "w_alloc w = (True, w')" "plenty w'" using w_alloc_plenty [OF assms(2)] by blast
  with None assms(1) show ?thesis by (auto simp: atexit_start_def at_holds_def)
qed (use assms in \<open>auto simp: atexit_start_def\<close>)

lemma atexit_start_holds:
  "at_holds t fs \<Longrightarrow> atexit_start t w = (ok, t', w') \<Longrightarrow>
   at_holds t' fs \<and> (ok \<longrightarrow> at_cb t' \<noteq> None)"
  by (auto simp: atexit_start_def at_holds_def split: prod.splits if_splits option.splits)

text \<open>Registering never fails on a table in order, unless memory runs out.\<close>

lemma atexit_register_holds:
  assumes "at_holds t fs" "at_cb t \<noteq> None"
  shows "\<exists>r t' w'. atexit_register f t w = Some (r, t', w') \<and> at_holds t' (if r = 0 then fs @ [f] else fs)
    \<and> (plenty w \<longrightarrow> r = 0 \<and> plenty w')"
proof -
  from assms(2) obtain cb where cb: "at_cb t = Some cb" by blast
  with assms(1) have t: "at_size t = length cb" "at_pos t = length fs" "length fs \<le> length cb"
    "take (length fs) cb = fs" by (simp_all add: at_holds_def)
  show ?thesis
  proof (cases "length fs = length cb")
    case True
    obtain ok w' where w': "w_alloc w = (ok, w')" by fastforce
    have pl: "plenty w \<Longrightarrow> ok \<and> plenty w'" using w_alloc_plenty [of w] w' by auto
    show ?thesis
    proof (cases ok)
      case ok: True
      have "cb = fs" using True t(4) by simp
      with ok True t cb w' pl show ?thesis by (simp add: atexit_register_def at_holds_def list_update_append numeral_eq_Suc)
    next
      case False
      with True t cb w' pl assms(1) show ?thesis by (auto simp: atexit_register_def)
    qed
  next
    case False
    with t(3) have "length fs < length cb" by simp
    moreover from this t(4) have "take (Suc (length fs)) (cb[length fs := f]) = fs @ [f]"
      by (simp add: take_Suc_conv_app_nth)
    ultimately show ?thesis using t cb by (auto simp: atexit_register_def at_holds_def Let_def)
  qed
qed

lemma atexit_holds:
  assumes "at_holds t fs"
  shows "\<exists>r t' w'. atexit f t w = Some (r, t', w') \<and> at_holds t' (if r = 0 then fs @ [f] else fs)
    \<and> (plenty w \<longrightarrow> r = 0 \<and> plenty w')"
proof -
  obtain ok t1 w1 where start: "atexit_start t w = (ok, t1, w1)" by (metis prod_cases3)
  from atexit_start_holds [OF assms start] have t1: "at_holds t1 fs" "ok \<Longrightarrow> at_cb t1 \<noteq> None" by auto
  have w1: "plenty w \<Longrightarrow> ok \<and> plenty w1" using atexit_start_ok [OF assms, of w] start by auto
  show ?thesis
  proof (cases ok)
    case True
    from atexit_register_holds [OF t1(1) t1(2) [OF True], of f w1] obtain r t' w' where
      r: "atexit_register f t1 w1 = Some (r, t', w')" "at_holds t' (if r = 0 then fs @ [f] else fs)"
        "plenty w1 \<longrightarrow> r = 0 \<and> plenty w'" by blast
    from r(1) start True have "atexit f t w = Some (r, t', w')" by (simp add: atexit_def atexit_do_def)
    with r(2,3) w1 show ?thesis by blast
  next
    case False
    with start t1 w1 show ?thesis by (auto simp: atexit_def atexit_do_def)
  qed
qed

lemma exec_loop_quiet:
  assumes "\<And>f u t w. env f (u, t, w) = Some (eff f u, t, w)"
  shows "at_cb t = Some cb \<Longrightarrow> at_pos t \<le> length cb \<Longrightarrow>
    exec_loop env u t w = Some (fold eff (rev (take (at_pos t) cb)) u, t\<lparr>at_pos := 2 ^ 64 - 1\<rparr>, w)"
proof (induction "at_pos t" arbitrary: t u)
  case 0
  then show ?case by (subst exec_loop.simps) simp
next
  case (Suc n)
  from Suc.hyps(1) [of "t\<lparr>at_pos := n\<rparr>" "eff (cb ! n) u"] Suc.prems Suc.hyps(2) [symmetric]
  show ?case
    by (subst exec_loop.simps) (simp add: assms take_Suc_conv_app_nth)
qed

fun register_all :: "nat list \<Rightarrow> atexit_table \<Rightarrow> world \<Rightarrow> (atexit_table \<times> world) option" where
  "register_all [] t w = Some (t, w)"
| "register_all (f # fs) t w =
     do { (r, t', w') \<leftarrow> atexit f t w; if r = 0 then register_all fs t' w' else None }"

lemma register_all_holds:
  "at_holds t gs \<Longrightarrow> plenty w \<Longrightarrow>
   \<exists>t' w'. register_all fs t w = Some (t', w') \<and> at_holds t' (gs @ fs) \<and> plenty w'"
proof (induction fs arbitrary: t gs w)
  case (Cons f fs)
  from atexit_holds [OF Cons.prems(1), of f w] Cons.prems(2) obtain t1 w1 where
    "atexit f t w = Some (0, t1, w1)" "at_holds t1 (gs @ [f])" "plenty w1" by auto
  with Cons.IH [of t1 "gs @ [f]" w1] show ?case by auto
qed auto

section \<open>Properties: functions at exit\<close>

text \<open>
  C25: however many functions are registered with \<open>atexit\<close>, while there is memory, \<open>exit\<close> flushes the
  standard streams, then runs each of them exactly once, the last one first, and ends with its status; the
  table is empty then. (The functions themselves do not register others.)
\<close>

theorem atexit_lifo:
  assumes "plenty w" "\<And>f u t w. env f (u, t, w) = Some (eff f u, t, w)"
    and "out u = Some u1" "err u1 = Some u2"
  shows "\<exists>t' w'. register_all fs atexit0 w = Some (t', w')
    \<and> (\<exists>w''. exit_process out err env status u t' w' = Some (status, fold eff (rev fs) u2, atexit0, w''))"
proof -
  from register_all_holds [OF at_holds0 assms(1), of fs] obtain t w1 where
    t: "register_all fs atexit0 w = Some (t, w1)" "at_holds t fs" "plenty w1" by auto
  from atexit_start_ok [OF t(2,3)] obtain t2 w2 cb where
    t2: "atexit_start t w1 = (True, t2, w2)" "at_holds t2 fs" "at_cb t2 = Some cb" by blast
  then have "at_pos t2 = length fs" "length fs \<le> length cb" "take (length fs) cb = fs"
    by (simp_all add: at_holds_def)
  with exec_loop_quiet [of env eff t2 cb u2 w2, OF assms(2) t2(3)]
  have "exec_loop env u2 t2 w2 = Some (fold eff (rev fs) u2, t2\<lparr>at_pos := 2 ^ 64 - 1\<rparr>, w2)" by simp
  with t2(1) assms(3,4) have "exit_process out err env status u t w1 = Some (status, fold eff (rev fs) u2, atexit0, w2)"
    by (simp add: exit_process_def atexit_do_def atexit_purge_def atexit0_def)
  with t(1) show ?thesis by blast
qed

theorem atexit_lifo_witness:
  "\<exists>t' w'. register_all [1, 2] atexit0 world0 = Some (t', w')
    \<and> (\<exists>w''. exit_process Some Some (\<lambda>f (u, t, w). Some (u @ [f], t, w)) 3 [] t' w' = Some (3, [2, 1], atexit0, w''))"
  using atexit_lifo [of world0 "\<lambda>f (u, t, w). Some (u @ [f], t, w)" "\<lambda>f u. u @ [f]" Some "[]" "[]" Some "[]" "[1, 2]" 3]
  by simp

text \<open>
  A function that registers itself again is run for ever: \<open>exit\<close> does not return.
\<close>

theorem atexit_forever:
  assumes "at_holds t fs" "fs \<noteq> []" "last fs = f"
    and "\<And>u t w. env f (u, t, w) = (case atexit f t w of Some (r, t', w') \<Rightarrow> if r = 0 then Some (u, t', w') else None | None \<Rightarrow> None)"
  shows "atexit_do env AF_EXEC 0 u t w = None"
proof -
  have loop: "exec_loop env u t w \<noteq> Some r" if "at_holds t fs" "fs \<noteq> []" "last fs = f" for u t w r fs
  proof
    assume run: "exec_loop env u t w = Some r"
    have "\<forall>fs. env' = env \<longrightarrow> at_holds t fs \<longrightarrow> fs \<noteq> [] \<longrightarrow> last fs \<noteq> f" if "exec_loop env' u t w = Some r" for env' u t w r
    proof (rule exec_loop.raw_induct [where P = "\<lambda>env' u t w r. \<forall>fs. env' = env \<longrightarrow> at_holds t fs \<longrightarrow> fs \<noteq> [] \<longrightarrow> last fs \<noteq> f",
          OF _ that], intro allI impI notI, goal_cases)
      case (1 loop env' u t w r fs)
      then obtain cb where cb: "at_cb t = Some cb" by (auto simp: at_holds_def split: option.splits)
      with 1 have t: "at_pos t = length fs" "length fs \<le> length cb" "take (length fs) cb = fs" "at_size t = length cb"
        by (simp_all add: at_holds_def)
      have "0 < length fs" using 1(5) by simp
      with t(2) have len: "length fs - 1 < length fs" "length fs - 1 < length cb" by linarith+
      have "cb ! (length fs - 1) = take (length fs) cb ! (length fs - 1)" using len(1) by simp
      with t(3) 1(5,6) have f: "cb ! (length fs - 1) = f" by (simp add: last_conv_nth)
      let ?t = "t\<lparr>at_pos := length fs - 1\<rparr>"
      have "at_holds ?t (butlast fs)"
        using cb t 1(5) by (auto simp: at_holds_def butlast_conv_take take_take) (metis min.absorb1 take_take diff_le_self)
      from atexit_holds [OF this, of f w] obtain r1 t1 w1 where
        t1: "atexit f ?t w = Some (r1, t1, w1)" "at_holds t1 (if r1 = 0 then butlast fs @ [f] else butlast fs)" by blast
      from f len(2) have nth: "nth_opt cb (length fs - 1) = Some f" by (simp add: nth_opt_def)
      have env: "env f (u, ?t, w) = (if r1 = 0 then Some (u, t1, w1) else None)"
        by (simp only: assms(4) t1(1) option.case prod.case)
      have pos: "at_pos t > 0" using t(1) 1(5) by simp
      have run: "loop env' u t1 w1 = Some r" "r1 = 0"
        using 1(2) unfolding 1(3) if_P [OF pos] cb t(1) bind.bind_lunit nth env using 1(5) by (auto split: if_splits)
      from 1(1) [OF run(1)] 1(3) t1(2) run(2) show False by auto
    qed
    with run that show False by blast
  qed
  obtain ok t1 w1 where start: "atexit_start t w = (ok, t1, w1)" by (metis prod_cases3)
  have "at_cb t \<noteq> None" using assms(1,2) by (auto simp: at_holds_def split: option.splits)
  with start have t1: "t1 = t" "ok" "w1 = w" by (auto simp: atexit_start_def)
  from loop [OF assms(1-3), of u w] have "exec_loop env u t w = None" by blast
  with start t1 show ?thesis by (simp add: atexit_do_def)
qed

theorem atexit_forever_witness:
  "atexit_do (\<lambda>f (u, t, w). case atexit f t w of
        Some (r, t', w') \<Rightarrow> if r = 0 then Some (u, t', w') else None | None \<Rightarrow> None)
     AF_EXEC 0 (0 :: nat) \<lparr>at_cb = Some (1 # replicate 31 0), at_size = 32, at_pos = 1\<rparr> world0 = None"
  by (rule atexit_forever [where fs = "[1]" and f = 1]) (simp_all add: at_holds_def)

section \<open>Facts: the environment\<close>

definition var_of :: "string \<Rightarrow> string \<times> string" where
  "var_of s = (takeWhile (\<lambda>c. c \<noteq> eqsign) s, tl (dropWhile (\<lambda>c. c \<noteq> eqsign) s))"

definition env_var :: "penv \<Rightarrow> nat \<Rightarrow> string \<times> string" where
  "env_var e p = var_of (the (e_heap e p))"

definition env_lookup :: "penv \<Rightarrow> string \<Rightarrow> string option" where
  "env_lookup e = (case e_environ e of None \<Rightarrow> Map.empty | Some ps \<Rightarrow> map_of (map (env_var e) ps))"

definition vars_ok :: "penv \<Rightarrow> nat list \<Rightarrow> bool" where
  "vars_ok e ps \<longleftrightarrow> distinct ps \<and> (\<forall>p \<in> set ps. p < e_next e \<and> (\<exists>s. e_heap e p = Some s \<and> eqsign \<in> set s))
     \<and> distinct (map (fst \<circ> env_var e) ps)"

text \<open>An environment in order; \<open>realloc\<close> moves no block.\<close>

definition env_inv :: "penv \<Rightarrow> bool" where
  "env_inv e \<longleftrightarrow> (\<exists>ps. e_environ e = Some ps \<and> vars_ok e ps \<and> (e_env e \<longrightarrow> e_cnt e = length ps)) \<and> True \<notin> set (e_moves e)"

lemma var_of_eq [simp]: "eqsign \<notin> set k \<Longrightarrow> var_of (k @ eqsign # v) = (k, v)"
  by (induction k) (auto simp: var_of_def)

lemma var_of_split:
  assumes "eqsign \<in> set s"
  shows "s = fst (var_of s) @ eqsign # snd (var_of s) \<and> eqsign \<notin> set (fst (var_of s))"
proof -
  from assms obtain k v where "s = k @ eqsign # v" "eqsign \<notin> set k" by (metis split_list_first)
  then show ?thesis by simp
qed

lemma env_match_var:
  assumes "eqsign \<in> set s" "valid_name k"
  shows "env_match s k \<longleftrightarrow> fst (var_of s) = k"
proof -
  obtain k' v' where s: "s = k' @ eqsign # v'" "eqsign \<notin> set k'" using assms(1) by (metis split_list_first)
  have k: "k \<noteq> []" "eqsign \<notin> set k" using assms(2) by (auto simp: valid_name_def)
  have "env_match s k \<longleftrightarrow> k' = k"
  proof
    assume m: "env_match s k"
    then have t: "take (length k) s = k" and n: "length k < length s + 1" "(s @ [NUL]) ! length k = eqsign"
      using k(1) by (auto simp: env_match_def strncmp_same_def nth_opt_def split: if_splits)
    have "length k < length s" using n by (cases "length k = length s") auto
    with n have sk: "s ! length k = eqsign" by (simp add: nth_append)
    consider "length k < length k'" | "length k = length k'" | "length k > length k'" by linarith
    then show "k' = k"
    proof cases
      case 1
      with sk s show ?thesis by (auto simp: nth_append) (metis nth_mem)
    next
      case 2
      with t s show ?thesis by simp
    next
      case 3
      then have "take (length k) s ! length k' = eqsign" using s by (simp add: nth_append)
      with t 3 k(2) show ?thesis by (metis nth_mem)
    qed
  next
    assume "k' = k"
    with s k show "env_match s k" by (simp add: env_match_def strncmp_same_def nth_append)
  qed
  with s show ?thesis by simp
qed

lemma env_find_spec:
  assumes "valid_name k" "\<forall>p \<in> set ps. \<exists>s. e_heap e p = Some s \<and> eqsign \<in> set s"
  shows "(env_find e ps k i = Some None \<and> k \<notin> set (map (fst \<circ> env_var e) ps))
    \<or> (\<exists>us p vs v. ps = us @ p # vs \<and> e_heap e p = Some (k @ eqsign # v)
         \<and> env_find e ps k i = Some (Some (i + length us, p, k @ eqsign # v)))"
  using assms(2)
proof (induction ps arbitrary: i)
  case (Cons p ps)
  then obtain s where s: "e_heap e p = Some s" "eqsign \<in> set s" by auto
  show ?case
  proof (cases "fst (var_of s) = k")
    case True
    with var_of_split [OF s(2)] s(1) have "e_heap e p = Some (k @ eqsign # snd (var_of s))" by simp
    moreover from True s env_match_var [OF s(2) assms(1)] var_of_split [OF s(2)] have
      "env_find e (p # ps) k i = Some (Some (i, p, k @ eqsign # snd (var_of s)))" by simp
    ultimately show ?thesis by (metis append_Nil list.size(3) add_0_right)
  next
    case False
    with s env_match_var [OF s(2) assms(1)] have
      step: "env_find e (p # ps) k i = env_find e ps k (i + 1)" "fst (env_var e p) \<noteq> k" by (auto simp: env_var_def)
    from Cons.IH [of "i + 1"] Cons.prems consider
        "env_find e ps k (i + 1) = Some None" "k \<notin> set (map (fst \<circ> env_var e) ps)"
      | us q vs v where "ps = us @ q # vs" "e_heap e q = Some (k @ eqsign # v)"
        "env_find e ps k (i + 1) = Some (Some (i + 1 + length us, q, k @ eqsign # v))" by auto
    then show ?thesis
    proof cases
      case 1
      with step show ?thesis by auto
    next
      case (2 us q vs v)
      with step have "p # ps = (p # us) @ q # vs"
        "env_find e (p # ps) k i = Some (Some (i + length (p # us), q, k @ eqsign # v))" by auto
      with 2(2) show ?thesis by blast
    qed
  qed
qed simp

lemma map_of_middle:
  assumes "distinct (map fst (us @ (k, v0) # vs))"
  shows "map_of (us @ (k, v) # vs) = (map_of (us @ (k, v0) # vs))(k \<mapsto> v)"
    "map_of (us @ vs) = (map_of (us @ (k, v0) # vs))(k := None)"
proof -
  from assms have "map_of us k = None" "map_of vs k = None" by (auto simp: map_of_eq_None_iff)
  then show "map_of (us @ (k, v) # vs) = (map_of (us @ (k, v0) # vs))(k \<mapsto> v)"
    "map_of (us @ vs) = (map_of (us @ (k, v0) # vs))(k := None)"
    by (auto simp: fun_eq_iff map_add_def split: option.splits)
qed

lemma getenv_lookup:
  assumes "env_inv e" "valid_name k"
  shows "getenv k e w = Some (env_lookup e k, w)"
proof -
  from assms(1) obtain ps where ps: "e_environ e = Some ps" "vars_ok e ps" by (auto simp: env_inv_def)
  from ps(2) have def: "\<forall>p \<in> set ps. \<exists>s. e_heap e p = Some s \<and> eqsign \<in> set s"
    and dist: "distinct (map fst (map (env_var e) ps))" by (auto simp: vars_ok_def)
  have k: "eqsign \<notin> set k" using assms(2) by (simp add: valid_name_def)
  from env_find_spec [OF assms(2) def, of 0] show ?thesis
  proof (elim disjE exE conjE)
    assume "env_find e ps k 0 = Some None" "k \<notin> set (map (fst \<circ> env_var e) ps)"
    moreover from this(2) have "map_of (map (env_var e) ps) k = None" by (auto simp: map_of_eq_None_iff)
    ultimately show ?thesis using k ps(1) by (simp add: getenv_def env_lookup_def)
  next
    fix us p vs v
    assume p: "ps = us @ p # vs" "e_heap e p = Some (k @ eqsign # v)"
      "env_find e ps k 0 = Some (Some (0 + length us, p, k @ eqsign # v))"
    have "env_var e p = (k, v)" using p(2) k by (simp add: env_var_def)
    then have "map_of (map (env_var e) ps) k = Some v" using dist p(1)
      by (intro map_of_is_SomeI) (auto simp: image_image)
    with p(3) k ps(1) show ?thesis by (simp add: getenv_def env_lookup_def)
  qed
qed

text \<open>Two heaps that agree on the strings below an address; nothing else has changed.\<close>

definition same_below :: "nat \<Rightarrow> penv \<Rightarrow> penv \<Rightarrow> bool" where
  "same_below n e e' \<longleftrightarrow> (\<forall>p < n. e_heap e' p = e_heap e p) \<and> n \<le> e_next e' \<and> e_moves e' = e_moves e
     \<and> e_environ e' = e_environ e \<and> e_env e' = e_env e"

lemma init_loop_spec:
  assumes "\<forall>p \<in> set ps. p < n \<and> e_heap e p \<noteq> None" "n \<le> e_next e"
    and "\<forall>p \<in> set made. n \<le> p \<and> p < e_next e" "distinct made"
  shows "\<exists>r e' w'. init_loop ps made e w = Some (r, e', w') \<and> same_below n e e' \<and> (plenty w \<longrightarrow> r \<noteq> None \<and> plenty w')
    \<and> (case r of None \<Rightarrow> True | Some env \<Rightarrow> distinct env \<and> (\<forall>q \<in> set env. n \<le> q \<and> q < e_next e') \<and> e_cnt e' = e_cnt e
         \<and> map (e_heap e') env = map (e_heap e) (made @ ps))"
  using assms
proof (induction ps arbitrary: made e w)
  case Nil
  then show ?case by (auto simp: same_below_def)
next
  case (Cons p ps)
  then obtain s where s: "e_heap e p = Some s" "p < n" by auto
  obtain ok w1 where w1: "w_alloc w = (ok, w1)" by fastforce
  have pl: "plenty w \<Longrightarrow> ok \<and> plenty w1" using w_alloc_plenty [of w] w1 by auto
  show ?case
  proof (cases ok)
    case False
    with s w1 Cons.prems pl show ?thesis by (auto simp: new_string_def same_below_def restrict_map_def)
  next
    case True
    let ?e = "e\<lparr>e_heap := (e_heap e)(e_next e \<mapsto> s), e_next := e_next e + 1\<rparr>"
    have step: "init_loop (p # ps) made e w = init_loop ps (made @ [e_next e]) ?e w1"
      using True s w1 by (simp add: new_string_def)
    have "\<forall>q \<in> set ps. q < n \<and> e_heap ?e q \<noteq> None" "n \<le> e_next ?e" "distinct (made @ [e_next e])"
      "\<forall>q \<in> set (made @ [e_next e]). n \<le> q \<and> q < e_next ?e" using Cons.prems by auto
    from Cons.IH [OF this(1,2,4,3), of w1] obtain r e' w' where
      ih: "init_loop ps (made @ [e_next e]) ?e w1 = Some (r, e', w')" "same_below n ?e e'" "plenty w1 \<longrightarrow> r \<noteq> None \<and> plenty w'"
        "case r of None \<Rightarrow> True | Some env \<Rightarrow> distinct env \<and> (\<forall>q \<in> set env. n \<le> q \<and> q < e_next e') \<and> e_cnt e' = e_cnt ?e
         \<and> map (e_heap e') env = map (e_heap ?e) ((made @ [e_next e]) @ ps)" by blast
    have same: "same_below n e e'" using ih(2) Cons.prems(2) by (simp add: same_below_def)
    have "map (e_heap ?e) ((made @ [e_next e]) @ ps) = map (e_heap e) (made @ p # ps)"
      using Cons.prems s by auto
    with ih(4) have "case r of None \<Rightarrow> True | Some env \<Rightarrow> distinct env \<and> (\<forall>q \<in> set env. n \<le> q \<and> q < e_next e') \<and> e_cnt e' = e_cnt e
         \<and> map (e_heap e') env = map (e_heap e) (made @ p # ps)" by (auto split: option.splits)
    with ih(1,3) same step pl show ?thesis by auto
  qed
qed

lemma same_below_vars:
  assumes "same_below n e e'" "vars_ok e ps" "\<forall>p \<in> set ps. p < n"
  shows "vars_ok e' ps" "map (env_var e') ps = map (env_var e) ps"
proof -
  have heap: "\<forall>p \<in> set ps. e_heap e' p = e_heap e p \<and> p < e_next e'" using assms(1,3) by (auto simp: same_below_def)
  then show eq: "map (env_var e') ps = map (env_var e) ps" by (simp add: env_var_def)
  then have "map (fst \<circ> env_var e') ps = map (fst \<circ> env_var e) ps" by auto
  with heap assms(2) show "vars_ok e' ps" by (simp only: vars_ok_def) auto
qed

lemma setenv_init_spec:
  assumes "env_inv e" "at_holds t fs"
  shows "\<exists>ok e' t' w' fs'. setenv_init e t w = Some (ok, e', t', w') \<and> at_holds t' fs'
    \<and> (ok \<longrightarrow> e_env e') \<and> (\<not> e_env e \<longrightarrow> env_inv e' \<and> env_lookup e' = env_lookup e) \<and> (plenty w \<longrightarrow> ok \<and> plenty w')"
proof -
  from assms(1) obtain ps where ps: "e_environ e = Some ps" "vars_ok e ps" "True \<notin> set (e_moves e)"
    by (auto simp: env_inv_def)
  obtain ok w1 where w1: "w_alloc w = (ok, w1)" by fastforce
  have pl: "plenty w \<Longrightarrow> ok \<and> plenty w1" using w_alloc_plenty [of w] w1 by auto
  let ?e = "e\<lparr>e_cnt := length ps\<rparr>"
  have same0: "same_below (e_next e) e ?e" by (simp add: same_below_def)
  have below: "\<forall>p \<in> set ps. p < e_next e" using ps(2) by (simp add: vars_ok_def)
  have lookup: "env_lookup e' = env_lookup e" "env_inv e'" if same: "same_below (e_next e) e e'" "\<not> e_env e" for e'
  proof -
    note vars = same_below_vars [OF same(1) ps(2) below]
    have "e_environ e' = Some ps" using same(1) ps(1) by (simp add: same_below_def)
    then show "env_lookup e' = env_lookup e" using vars(2) ps(1) by (simp only: env_lookup_def option.case)
    show "env_inv e'" using vars(1) ps(1,3) same by (auto simp: env_inv_def same_below_def)
  qed
  show ?thesis
  proof (cases ok)
    case False
    with w1 ps(1) lookup [OF same0] pl assms(2) show ?thesis by (auto simp: setenv_init_def)
  next
    case True
    have "\<forall>p \<in> set ps. p < e_next e \<and> e_heap ?e p \<noteq> None" using ps(2) by (auto simp: vars_ok_def)
    from init_loop_spec [OF this, of "[]" w1] obtain r e2 w2 where
      r: "init_loop ps [] ?e w1 = Some (r, e2, w2)" "same_below (e_next e) ?e e2" "plenty w1 \<longrightarrow> r \<noteq> None \<and> plenty w2"
        "case r of None \<Rightarrow> True | Some env \<Rightarrow> distinct env \<and> (\<forall>q \<in> set env. e_next e \<le> q \<and> q < e_next e2)
          \<and> e_cnt e2 = e_cnt ?e \<and> map (e_heap e2) env = map (e_heap ?e) ([] @ ps)" by fastforce
    have same: "same_below (e_next e) e e2" using r(2) by (simp add: same_below_def)
    show ?thesis
    proof (cases r)
      case None
      with True w1 ps(1) r(1,3) lookup [OF same] pl assms(2) show ?thesis by (auto simp: setenv_init_def)
    next
      case (Some env)
      from atexit_holds [OF assms(2), of INIT_ATEXIT w2] obtain a t3 w3 where
        a: "atexit INIT_ATEXIT t w2 = Some (a, t3, w3)" "at_holds t3 (if a = 0 then fs @ [INIT_ATEXIT] else fs)"
          "plenty w2 \<longrightarrow> plenty w3" by blast
      let ?e3 = "e2\<lparr>e_environ := Some env, e_env := True\<rparr>"
      have run: "setenv_init e t w = Some (True, ?e3, t3, w3)" using True w1 ps(1) r(1) Some a(1) by (simp add: setenv_init_def)
      from r(4) Some have env: "distinct env" "\<forall>q \<in> set env. q < e_next e2" "e_cnt e2 = length ps"
        "map (e_heap e2) env = map (e_heap e) ps" by auto
      have "map (env_var ?e3) env = map (var_of \<circ> the) (map (e_heap e2) env)" by (simp add: env_var_def)
      also have "\<dots> = map (var_of \<circ> the) (map (e_heap e) ps)" by (simp only: env(4))
      also have "\<dots> = map (env_var e) ps" by (simp add: env_var_def)
      finally have vars: "map (env_var ?e3) env = map (env_var e) ps" .
      from env(4) have len: "length env = length ps" using map_eq_imp_length_eq by blast
      have heap: "\<forall>h \<in> set (map (e_heap e2) env). \<exists>s. h = Some s \<and> eqsign \<in> set s"
        unfolding env(4) using ps(2) by (auto simp: vars_ok_def)
      have "map (fst \<circ> env_var ?e3) env = map (fst \<circ> env_var e) ps" using arg_cong [OF vars, of "map fst"] by simp
      with heap env(1,2) ps(2) have "vars_ok ?e3 env" by (auto simp: vars_ok_def)
      moreover have "e_moves e2 = e_moves e" using same by (simp add: same_below_def)
      ultimately have "env_inv ?e3" using ps(3) env(3) len by (simp add: env_inv_def)
      moreover have "env_lookup ?e3 = env_lookup e" using vars ps(1) by (simp add: env_lookup_def)
      ultimately show ?thesis using run a(2,3) r(3) Some pl by auto
    qed
  qed
qed

lemma vars_ok_append [simp]:
  "vars_ok e (us @ p # vs) \<longleftrightarrow> vars_ok e (us @ vs) \<and> p \<notin> set (us @ vs) \<and> p < e_next e
    \<and> (\<exists>s. e_heap e p = Some s \<and> eqsign \<in> set s) \<and> fst (env_var e p) \<notin> set (map (fst \<circ> env_var e) (us @ vs))"
  by (auto simp: vars_ok_def)

lemma vars_ok_cong:
  assumes "\<forall>p \<in> set ps. e_heap e' p = e_heap e p" "e_next e \<le> e_next e'" "vars_ok e ps"
  shows "vars_ok e' ps \<and> map (env_var e') ps = map (env_var e) ps"
proof -
  from assms(1) have eq: "map (env_var e') ps = map (env_var e) ps" by (simp add: env_var_def)
  then have "map (fst \<circ> env_var e') ps = map (fst \<circ> env_var e) ps" by auto
  with assms eq show ?thesis by (simp only: vars_ok_def) fastforce
qed

text \<open>Removing a variable, giving one a new text in its place, and adding one.\<close>

lemma env_inv_remove:
  assumes "env_inv e" "e_environ e = Some (us @ p # vs)" "e_heap e p = Some (k @ eqsign # v)" "eqsign \<notin> set k" "e_env e"
  defines "e' \<equiv> e\<lparr>e_heap := (e_heap e)(p := None), e_environ := Some (us @ vs), e_cnt := e_cnt e - 1\<rparr>"
  shows "env_inv e'" "env_lookup e' = (env_lookup e)(k := None)"
proof -
  from assms(1,2) have ok: "vars_ok e (us @ p # vs)" by (simp add: env_inv_def)
  then have "\<forall>q \<in> set (us @ vs). e_heap e' q = e_heap e q" by (auto simp: e'_def)
  with vars_ok_cong [of "us @ vs" e' e] ok have vars: "vars_ok e' (us @ vs)"
    "map (env_var e') (us @ vs) = map (env_var e) (us @ vs)" by (simp_all add: e'_def)
  from vars(1) assms(1,2,5) show "env_inv e'" by (auto simp: env_inv_def e'_def)
  have kv: "env_var e p = (k, v)" using assms(3,4) by (simp add: env_var_def)
  from ok have "distinct (map fst (map (env_var e) (us @ p # vs)))" by (simp only: vars_ok_def map_map)
  with kv have dist: "distinct (map fst (map (env_var e) us @ (k, v) # map (env_var e) vs))" by simp
  have "map (env_var e') (us @ vs) = map (env_var e) us @ map (env_var e) vs" using vars(2) by simp
  moreover have "map (env_var e) (us @ p # vs) = map (env_var e) us @ (k, v) # map (env_var e) vs" using kv by simp
  moreover have "e_environ e' = Some (us @ vs)" by (simp add: e'_def)
  ultimately show "env_lookup e' = (env_lookup e)(k := None)"
    using assms(2) map_of_middle(2) [OF dist] by (simp only: env_lookup_def option.case)
qed

lemma env_inv_replace:
  fixes v :: string
  assumes "env_inv e" "e_environ e = Some (us @ p # vs)" "e_heap e p = Some (k @ eqsign # v0)" "eqsign \<notin> set k"
    and "True \<notin> set ms"
  defines "e' \<equiv> e\<lparr>e_heap := (e_heap e)(p \<mapsto> k @ eqsign # v), e_moves := ms\<rparr>"
  shows "env_inv e'" "env_lookup e' = (env_lookup e)(k \<mapsto> v)"
proof -
  from assms(1,2) have ok: "vars_ok e (us @ p # vs)" by (simp add: env_inv_def)
  then have "\<forall>q \<in> set (us @ vs). e_heap e' q = e_heap e q" by (auto simp: e'_def)
  with vars_ok_cong [of "us @ vs" e' e] ok have vars: "vars_ok e' (us @ vs)"
    "map (env_var e') (us @ vs) = map (env_var e) (us @ vs)" by (simp_all add: e'_def)
  have kv: "env_var e p = (k, v0)" "env_var e' p = (k, v)" using assms(3,4) by (simp_all add: env_var_def e'_def)
  have names: "map (fst \<circ> env_var e') (us @ vs) = map (fst \<circ> env_var e) (us @ vs)"
    using arg_cong [OF vars(2), of "map fst"] by simp
  have "e_heap e' p = Some (k @ eqsign # v)" "e_next e' = e_next e" by (simp_all add: e'_def)
  with ok kv names vars(1) have "vars_ok e' (us @ p # vs)" by (simp del: map_append)
  with assms(1,2,5) show "env_inv e'" by (auto simp: env_inv_def e'_def)
  from ok have "distinct (map fst (map (env_var e) (us @ p # vs)))" by (simp only: vars_ok_def map_map)
  with kv(1) have dist: "distinct (map fst (map (env_var e) us @ (k, v0) # map (env_var e) vs))" by simp
  have "map (env_var e') (us @ p # vs) = map (env_var e) us @ (k, v) # map (env_var e) vs" using kv(2) vars(2) by simp
  moreover have "map (env_var e) (us @ p # vs) = map (env_var e) us @ (k, v0) # map (env_var e) vs" using kv(1) by simp
  moreover have "e_environ e' = Some (us @ p # vs)" using assms(2) by (simp add: e'_def)
  ultimately show "env_lookup e' = (env_lookup e)(k \<mapsto> v)"
    using assms(2) map_of_middle(1) [OF dist, of v] by (simp only: env_lookup_def option.case)
qed

lemma env_inv_extend:
  fixes v :: string
  assumes "env_inv e" "e_environ e = Some ps" "k \<notin> set (map (fst \<circ> env_var e) ps)" "eqsign \<notin> set k"
  defines "e' \<equiv> e\<lparr>e_heap := (e_heap e)(e_next e \<mapsto> k @ eqsign # v), e_next := e_next e + 1,
    e_environ := Some (ps @ [e_next e]), e_cnt := e_cnt e + 1\<rparr>"
  shows "env_inv e'" "env_lookup e' = (env_lookup e)(k \<mapsto> v)"
proof -
  from assms(1,2) have ok: "vars_ok e ps" by (simp add: env_inv_def)
  then have "\<forall>q \<in> set ps. e_heap e' q = e_heap e q" by (auto simp: e'_def vars_ok_def)
  with vars_ok_cong [of ps e' e] ok have vars: "vars_ok e' ps" "map (env_var e') ps = map (env_var e) ps"
    by (simp_all add: e'_def)
  have names: "map (fst \<circ> env_var e') ps = map (fst \<circ> env_var e) ps" using arg_cong [OF vars(2), of "map fst"] by simp
  have kv: "env_var e' (e_next e) = (k, v)" using assms(4) by (simp add: env_var_def e'_def)
  have new: "e_next e \<notin> set ps" "e_next e < e_next e'" "e_heap e' (e_next e) = Some (k @ eqsign # v)"
    using ok by (auto simp: vars_ok_def e'_def)
  have "vars_ok e' (ps @ [e_next e])"
    using vars_ok_append [of e' ps "e_next e" "[]"] vars(1) kv names new assms(3) by (simp del: map_map)
  with assms(1,2) show "env_inv e'" by (auto simp: env_inv_def e'_def)
  have "map_of (map (env_var e) ps) k = None" using assms(3) by (auto simp: map_of_eq_None_iff)
  then have "map_of (map (env_var e) ps @ [(k, v)]) = (map_of (map (env_var e) ps))(k \<mapsto> v)"
    by (auto simp: fun_eq_iff map_add_def split: option.splits)
  moreover have "map (env_var e') (ps @ [e_next e]) = map (env_var e) ps @ [(k, v)]" using kv vars(2) by simp
  moreover have "e_environ e' = Some (ps @ [e_next e])" by (simp add: e'_def)
  ultimately show "env_lookup e' = (env_lookup e)(k \<mapsto> v)"
    using assms(2) by (simp only: env_lookup_def option.case)
qed

text \<open>What \<open>_setenv_do\<close> leaves: an environment in order, in which only the variable may have changed.\<close>

definition set_var :: "string \<Rightarrow> string option \<Rightarrow> int \<Rightarrow> (string \<Rightarrow> string option) \<Rightarrow> string \<Rightarrow> string option" where
  "set_var name v overwrite m = (if overwrite = 0 \<and> m name \<noteq> None then m else m(name := v))"

lemma grow_string_spec:
  assumes "env_inv e" "e_environ e = Some (us @ p # vs)" "e_heap e p = Some (k @ eqsign # v0)" "eqsign \<notin> set k"
  shows "\<exists>r e' w'. grow_string p (k @ eqsign # v) e w = (r, e', w') \<and> env_inv e'
    \<and> env_lookup e' = (if r = 0 then (env_lookup e)(k \<mapsto> v) else env_lookup e) \<and> (plenty w \<longrightarrow> r = 0 \<and> plenty w')"
proof -
  obtain ok w1 where w1: "w_alloc w = (ok, w1)" by fastforce
  have pl: "plenty w \<Longrightarrow> ok \<and> plenty w1" using w_alloc_plenty [of w] w1 by auto
  have moves: "True \<notin> set (e_moves e)" using assms(1) by (auto simp: env_inv_def)
  show ?thesis
  proof (cases ok)
    case True
    have "grow_string p (k @ eqsign # v) e w
      = (0, e\<lparr>e_heap := (e_heap e)(p \<mapsto> k @ eqsign # v), e_moves := tl (e_moves e)\<rparr>, w1)"
      using True w1 moves by (auto simp: grow_string_def split: list.splits)
    moreover have "True \<notin> set (tl (e_moves e))" using moves by (cases "e_moves e") auto
    ultimately show ?thesis using env_inv_replace [OF assms, of "tl (e_moves e)" v] True pl by simp
  next
    case False
    with w1 pl assms(1) show ?thesis by (auto simp: grow_string_def)
  qed
qed

lemma setenv_found_spec:
  assumes "env_inv e" "e_environ e = Some (us @ p # vs)" "e_heap e p = Some (k @ eqsign # v0)" "eqsign \<notin> set k" "e_env e"
  shows "\<exists>r e' w'. setenv_found k v ov (us @ p # vs) (length us, p, k @ eqsign # v0) e w = (r, e', w') \<and> env_inv e'
    \<and> env_lookup e' = (if r = 0 then set_var k v ov (env_lookup e) else env_lookup e) \<and> (plenty w \<longrightarrow> r = 0 \<and> plenty w')"
proof -
  from assms(1,2) have ok: "vars_ok e (us @ p # vs)" by (simp add: env_inv_def)
  have kv: "env_var e p = (k, v0)" using assms(3,4) by (simp add: env_var_def)
  from ok have "distinct (map fst (map (env_var e) (us @ p # vs)))" by (simp only: vars_ok_def map_map)
  with kv assms(2) have look: "env_lookup e k = Some v0" unfolding env_lookup_def assms(2) option.case
    by (intro map_of_is_SomeI) (auto simp: image_image)
  have same: "(env_lookup e)(k \<mapsto> v0) = env_lookup e" using look by auto
  show ?thesis
  proof (cases "ov = 0")
    case True
    with assms(1) look show ?thesis by (simp add: setenv_found_def set_var_def)
  next
    case False
    then have sv: "set_var k v ov (env_lookup e) = (env_lookup e)(k := v)" by (simp add: set_var_def)
    show ?thesis
    proof (cases v)
      case None
      with env_inv_remove [OF assms] False sv show ?thesis by (simp add: setenv_found_def)
    next
      case (Some v1)
      have moves: "True \<notin> set (e_moves e)" using assms(1) by (auto simp: env_inv_def)
      show ?thesis
      proof (cases "length v0 \<ge> length v1")
        case True
        with env_inv_replace [OF assms(1-4) moves, of v1] Some False sv show ?thesis
          by (simp add: setenv_found_def Let_def)
      next
        case False
        with Some \<open>ov \<noteq> 0\<close> have "setenv_found k v ov (us @ p # vs) (length us, p, k @ eqsign # v0) e w
          = grow_string p (k @ eqsign # v1) e w" by (simp add: setenv_found_def Let_def)
        with grow_string_spec [OF assms(1-4), of v1 w] show ?thesis unfolding Some sv [unfolded Some] by (simp only:)
      qed
    qed
  qed
qed

lemma setenv_append_spec:
  assumes "env_inv e" "e_environ e = Some ps" "k \<notin> set (map (fst \<circ> env_var e) ps)" "eqsign \<notin> set k"
  shows "\<exists>r e' w'. setenv_append k v ps e w = (r, e', w') \<and> env_inv e'
    \<and> env_lookup e' = (if r = 0 then (env_lookup e)(k \<mapsto> v) else env_lookup e) \<and> (plenty w \<longrightarrow> r = 0 \<and> plenty w')"
proof -
  obtain ok w1 where w1: "w_alloc w = (ok, w1)" by fastforce
  obtain ok2 w2 where w2: "w_alloc w1 = (ok2, w2)" by fastforce
  have pl: "plenty w \<Longrightarrow> ok \<and> ok2 \<and> plenty w2" using w_alloc_plenty [of w] w_alloc_plenty [of w1] w1 w2 by auto
  show ?thesis
    using env_inv_extend [OF assms, of v] w1 w2 pl assms(1)
    by (cases ok; cases ok2) (auto simp: setenv_append_def new_string_def)
qed

lemma setenv_missing_spec:
  assumes "env_inv e" "e_environ e = Some ps" "k \<notin> set (map (fst \<circ> env_var e) ps)" "eqsign \<notin> set k"
  shows "\<exists>r e' w'. (case v of None \<Rightarrow> (0, e, w) | Some v \<Rightarrow> setenv_append k v ps e w) = (r, e', w') \<and> env_inv e'
    \<and> env_lookup e' = (if r = 0 then set_var k v ov (env_lookup e) else env_lookup e) \<and> (plenty w \<longrightarrow> r = 0 \<and> plenty w')"
proof -
  have none: "env_lookup e k = None" using assms(2,3) by (auto simp: env_lookup_def map_of_eq_None_iff)
  then have eq: "set_var k v ov (env_lookup e) = (env_lookup e)(k := v)" "(env_lookup e)(k := None) = env_lookup e"
    by (auto simp: set_var_def)
  show ?thesis
  proof (cases v)
    case None
    with eq assms(1) show ?thesis by simp
  next
    case (Some a)
    from setenv_append_spec [OF assms, of a w] show ?thesis unfolding eq(1) unfolding Some by (simp only: option.case)
  qed
qed

lemma setenv_do_spec:
  assumes "env_inv e" "at_holds t fs" "valid_name k"
  shows "\<exists>r e' t' w' fs'. setenv_do k v ov e t w = Some (r, e', t', w') \<and> env_inv e' \<and> at_holds t' fs'
    \<and> env_lookup e' = (if r = 0 then set_var k v ov (env_lookup e) else env_lookup e) \<and> (plenty w \<longrightarrow> r = 0 \<and> plenty w')"
proof -
  obtain ok e1 t1 w1 fs1 where init: "(if e_env e then Some (True, e, t, w) else setenv_init e t w) = Some (ok, e1, t1, w1)"
      "at_holds t1 fs1" "ok \<longrightarrow> e_env e1" "env_inv e1" "env_lookup e1 = env_lookup e" "plenty w \<longrightarrow> ok \<and> plenty w1"
  proof (cases "e_env e")
    case True
    with assms that [of True e t w fs] show ?thesis by simp
  next
    case False
    with setenv_init_spec [OF assms(1,2), of w] obtain ok e1 t1 w1 fs1 where
      "setenv_init e t w = Some (ok, e1, t1, w1)" "at_holds t1 fs1" "ok \<longrightarrow> e_env e1" "env_inv e1"
      "env_lookup e1 = env_lookup e" "plenty w \<longrightarrow> ok \<and> plenty w1" by blast
    with False that [of ok e1 t1 w1 fs1] show ?thesis by simp
  qed
  show ?thesis
  proof (cases ok)
    case False
    with init show ?thesis by (auto simp: setenv_do_def)
  next
    case True
    from init(4) obtain ps where ps: "e_environ e1 = Some ps" "vars_ok e1 ps" by (auto simp: env_inv_def)
    from ps(2) have def: "\<forall>p \<in> set ps. \<exists>s. e_heap e1 p = Some s \<and> eqsign \<in> set s" by (auto simp: vars_ok_def)
    have k: "eqsign \<notin> set k" using assms(3) by (simp add: valid_name_def)
    obtain r e2 w2 where res: "(case the (env_find e1 ps k 0) of
           Some f \<Rightarrow> setenv_found k v ov ps f e1 w1
         | None \<Rightarrow> (case v of None \<Rightarrow> (0, e1, w1) | Some v \<Rightarrow> setenv_append k v ps e1 w1)) = (r, e2, w2)"
      "env_inv e2" "env_lookup e2 = (if r = 0 then set_var k v ov (env_lookup e1) else env_lookup e1)"
      "plenty w1 \<longrightarrow> r = 0 \<and> plenty w2" "\<exists>found. env_find e1 ps k 0 = Some found"
    proof (rule env_find_spec [OF assms(3) def, of 0, THEN disjE], goal_cases none found)
      case none
      with setenv_missing_spec [OF init(4) ps(1) _ k, where v = v and w = w1 and ov = ov] obtain r e2 w2 where
        "(case v of None \<Rightarrow> (0, e1, w1) | Some v \<Rightarrow> setenv_append k v ps e1 w1) = (r, e2, w2)" "env_inv e2"
        "env_lookup e2 = (if r = 0 then set_var k v ov (env_lookup e1) else env_lookup e1)" "plenty w1 \<longrightarrow> r = 0 \<and> plenty w2"
        by blast
      with that [of r e2 w2] none(2) show thesis by (simp only: option.sel option.case) blast
    next
      case found
      then obtain us p vs v0 where f: "ps = us @ p # vs" "e_heap e1 p = Some (k @ eqsign # v0)"
        "env_find e1 ps k 0 = Some (Some (length us, p, k @ eqsign # v0))" by auto
      from ps(1) init(3) True have "e_environ e1 = Some (us @ p # vs)" "e_env e1" by (simp_all add: f(1))
      with setenv_found_spec [OF init(4) _ f(2) k, where us = us and vs = vs and v = v and ov = ov and w = w1] f(1) obtain r e2 w2 where
        "setenv_found k v ov ps (length us, p, k @ eqsign # v0) e1 w1 = (r, e2, w2)" "env_inv e2"
        "env_lookup e2 = (if r = 0 then set_var k v ov (env_lookup e1) else env_lookup e1)" "plenty w1 \<longrightarrow> r = 0 \<and> plenty w2"
        by blast
      with that [of r e2 w2] f(3) show thesis by (simp only: option.sel option.case) blast
    qed
    have "setenv_do k v ov e t w = Some (r, e2, t1, w2)"
      using init(1) True ps(1) res(1,5) by (auto simp: setenv_do_def)
    with res(2-4) init(2,5,6) show ?thesis by auto
  qed
qed

lemma env_find_append:
  "\<forall>q \<in> set us. \<exists>s. e_heap e q = Some s \<and> \<not> env_match s k \<Longrightarrow>
   env_find e (us @ ps) k i = env_find e ps k (i + length us)"
  by (induction us arbitrary: i) auto

subsection \<open>The environment as an associative array\<close>

definition env_ok :: "penv \<times> atexit_table \<Rightarrow> bool" where
  "env_ok m \<longleftrightarrow> env_inv (fst m) \<and> (\<exists>fs. at_holds (snd m) fs)"

definition env_get :: "penv \<times> atexit_table \<Rightarrow> string \<Rightarrow> world \<Rightarrow> string option \<times> world" where
  "env_get m k w = (case getenv k (fst m) w of Some r \<Rightarrow> r | None \<Rightarrow> (None, w))"

definition env_change :: "penv \<times> atexit_table \<Rightarrow> string \<Rightarrow> string option \<Rightarrow> world \<Rightarrow> (int \<times> penv \<times> atexit_table \<times> world) option" where
  "env_change m k v w =
     (if v = None then unsetenv (Some k) (fst m) (snd m) w else setenv (Some k) v 1 (fst m) (snd m) w)"

definition env_put :: "penv \<times> atexit_table \<Rightarrow> string \<Rightarrow> string option \<Rightarrow> world \<Rightarrow> int \<times> (penv \<times> atexit_table) \<times> world" where
  "env_put m k v w = (case env_change m k v w of Some (r, e, t, w') \<Rightarrow> (r, (e, t), w') | None \<Rightarrow> (- 1, m, w))"

lemma env_change_spec:
  assumes "env_ok m" "valid_name k"
  shows "\<exists>r m' w'. env_change m k v w = Some (r, fst m', snd m', w') \<and> env_put m k v w = (r, m', w') \<and> env_ok m'
    \<and> env_lookup (fst m') = (if r = 0 then (env_lookup (fst m))(k := v) else env_lookup (fst m))
    \<and> (plenty w \<longrightarrow> r = 0 \<and> plenty w')"
proof -
  obtain fs where fs: "at_holds (snd m) fs" using assms(1) by (auto simp: env_ok_def)
  have run: "env_change m k v w = setenv_do k v 1 (fst m) (snd m) w"
    using assms(2) by (simp add: env_change_def setenv_def unsetenv_def)
  have "env_inv (fst m)" using assms(1) by (simp add: env_ok_def)
  from setenv_do_spec [OF this fs assms(2), of v 1 w] obtain r e' t' w' fs' where
    s: "setenv_do k v 1 (fst m) (snd m) w = Some (r, e', t', w')" "env_inv e'" "at_holds t' fs'"
      "env_lookup e' = (if r = 0 then set_var k v 1 (env_lookup (fst m)) else env_lookup (fst m))"
      "plenty w \<longrightarrow> r = 0 \<and> plenty w'" by blast
  have "env_put m k v w = (r, (e', t'), w')" using run s(1) by (simp add: env_put_def)
  moreover have "env_ok (e', t')" using s(2,3) by (auto simp: env_ok_def)
  ultimately show ?thesis using run s(1,4,5)
    by (intro exI [of _ r] exI [of _ "(e', t')"] exI [of _ w']) (simp add: set_var_def)
qed

interpretation penv: map_contract "\<lambda>m. env_lookup (fst m)" env_ok valid_name env_get env_put
proof (unfold_locales, goal_cases get get_alloc ok kept plenty)
  case (get m k w)
  then show ?case by (simp add: env_get_def getenv_lookup env_ok_def)
next
  case (get_alloc m k w)
  then show ?case by (auto simp: env_get_def getenv_def split: option.split prod.split bind_splits if_splits)
next
  case (ok m k v w m' w')
  with env_change_spec [OF ok(1,2), of v w] show ?case by auto
next
  case (kept m k v w r m' w')
  with env_change_spec [OF kept(1,2), of v w] show ?case by auto
next
  case (plenty m k w v)
  with env_change_spec [OF plenty(1,2), of v w] show ?case by auto
qed

text \<open>A sequence of \<open>setenv\<close> (with a value) and \<open>unsetenv\<close> (without) calls that all have to succeed.\<close>

fun setenv_all :: "(string \<times> string option) list \<Rightarrow> penv \<Rightarrow> atexit_table \<Rightarrow> world
    \<Rightarrow> (penv \<times> atexit_table \<times> world) option" where
  "setenv_all [] e t w = Some (e, t, w)"
| "setenv_all ((k, v) # kvs) e t w =
     do { (r, e', t', w') \<leftarrow> (if v = None then unsetenv (Some k) e t w else setenv (Some k) v 1 e t w);
          if r = 0 then setenv_all kvs e' t' w' else None }"

lemma setenv_all_contract:
  assumes "env_ok (e, t)" "list_all (\<lambda>(k, v). valid_name k) kvs"
  shows "penv.set_all kvs (e, t) w = (True, m', w') \<Longrightarrow> setenv_all kvs e t w = Some (fst m', snd m', w')"
  using assms
proof (induction kvs arbitrary: e t w)
  case (Cons kv kvs)
  obtain k v where kv: "kv = (k, v)" by fastforce
  with Cons.prems(3) env_change_spec [OF Cons.prems(2), of k v w] obtain r m1 w1 where
    step: "env_change (e, t) k v w = Some (r, fst m1, snd m1, w1)" "env_put (e, t) k v w = (r, m1, w1)" "env_ok m1" by auto
  then have r: "r = 0" "penv.set_all kvs m1 w1 = (True, m', w')" using Cons.prems(1) kv by (auto split: if_splits)
  from Cons.IH [of "fst m1" "snd m1" w1] r(2) step(3) Cons.prems(3) kv have
    rest: "setenv_all kvs (fst m1) (snd m1) w1 = Some (fst m', snd m', w')" by simp
  from step(1) r(1) have "(if v = None then unsetenv (Some k) e t w else setenv (Some k) v 1 e t w) = Some (0, fst m1, snd m1, w1)"
    by (simp only: env_change_def fst_conv snd_conv)
  with rest show ?case unfolding kv setenv_all.simps(2) by (simp only: bind.bind_lunit prod.case simp_thms if_True)
qed auto

section \<open>Properties: the environment\<close>

text \<open>
  C24: with an environment in order and memory, and as long as \<open>realloc\<close> moves no block, every sequence of
  \<open>setenv\<close> and \<open>unsetenv\<close> calls with valid names succeeds, and after it \<open>getenv\<close> gives for every valid name what the
  last call for that name left (else what was there before).
\<close>

theorem setenv_getenv:
  assumes "env_inv e" "at_holds t fs" "plenty w" "list_all (\<lambda>(k, v). valid_name k) kvs" "valid_name name"
  shows "\<exists>e' t' w'. setenv_all kvs e t w = Some (e', t', w')
    \<and> getenv name e' w' = Some (fold (\<lambda>(k, v) m. m(k := v)) kvs (env_lookup e) name, w')"
proof -
  have ok: "env_ok (e, t)" using assms(1,2) by (auto simp: env_ok_def)
  from penv.set_all_plenty [OF ok assms(3,4)] obtain m' w' where
    run: "penv.set_all kvs (e, t) w = (True, m', w')" "env_ok m'" by blast
  from penv.set_all_lookup [OF ok assms(4) run(1)] getenv_lookup [OF _ assms(5), of "fst m'" w'] run(2)
    setenv_all_contract [OF ok assms(4) run(1)] show ?thesis by (auto simp: env_ok_def)
qed

text \<open>An environment with one variable, as a program starts with it.\<close>

definition env_home :: penv where
  "env_home = \<lparr>e_heap = [0 \<mapsto> ''HOME=/''], e_next = 1, e_moves = [], e_environ = Some [0], e_env = False, e_cnt = 0\<rparr>"

lemma env_home_inv: "env_inv env_home" "env_lookup env_home = [''HOME'' \<mapsto> ''/'']"
  by (simp_all add: env_home_def env_inv_def vars_ok_def env_lookup_def env_var_def var_of_def)

theorem setenv_getenv_witness:
  "\<exists>e' t' w'. setenv_all [(''A'', Some ''1''), (''HOME'', Some ''/root''), (''A'', None)] env_home atexit0 world0 = Some (e', t', w')
    \<and> getenv ''HOME'' e' w' = Some (Some ''/root'', w')"
  using setenv_getenv [OF env_home_inv(1) at_holds0, of world0
      "[(''A'', Some ''1''), (''HOME'', Some ''/root''), (''A'', None)]" "''HOME''"]
  by (simp add: valid_name_def env_home_inv)

text \<open>
  C37: when a longer value makes \<open>realloc\<close> move the block of the variable, \<open>setenv\<close> reports success but the
  environment still points to the block that was freed: the next \<open>getenv\<close> of that name reads freed memory.
\<close>

theorem setenv_dangling:
  assumes "env_inv (e\<lparr>e_moves := []\<rparr>)" "e_env e" "e_moves e = True # ms" "valid_name name"
    and "env_lookup e name = Some v0" "length v0 < length v" "plenty w"
  shows "\<exists>e' w'. setenv (Some name) (Some v) 1 e t w = Some (0, e', t, w') \<and> (\<forall>w''. getenv name e' w'' = None)"
proof -
  from assms(1) obtain ps where ps: "e_environ e = Some ps" "vars_ok (e\<lparr>e_moves := []\<rparr>) ps" by (auto simp: env_inv_def)
  have def: "\<forall>p \<in> set ps. \<exists>s. e_heap e p = Some s \<and> eqsign \<in> set s" using ps(2) by (auto simp: vars_ok_def)
  have k: "eqsign \<notin> set name" using assms(4) by (simp add: valid_name_def)
  have "name \<in> set (map (fst \<circ> env_var e) ps)"
    using assms(5) ps(1) by (auto simp: env_lookup_def dest!: map_of_SomeD) (metis fst_conv image_eqI)
  with env_find_spec [OF assms(4) def, of 0] obtain us p vs v1 where
    p: "ps = us @ p # vs" "e_heap e p = Some (name @ eqsign # v1)"
      "env_find e ps name 0 = Some (Some (length us, p, name @ eqsign # v1))" by auto
  have var: "env_var e p = (name, v1)" using p(2) k by (simp add: env_var_def)
  have "distinct (map (fst \<circ> env_var e) ps)" using ps(2) by (simp add: vars_ok_def env_var_def comp_def)
  then have "map_of (map (env_var e) ps) name = Some v1" using p(1) var
    by (intro map_of_is_SomeI) (auto simp: image_image)
  with assms(5) ps(1) have v1: "v1 = v0" by (simp add: env_lookup_def)
  obtain w' where w': "w_alloc w = (True, w')" using w_alloc_plenty [OF assms(7)] by blast
  let ?e = "e\<lparr>e_heap := (e_heap e)(p := None, e_next e \<mapsto> name @ eqsign # v), e_next := e_next e + 1, e_moves := ms\<rparr>"
  have run: "setenv (Some name) (Some v) 1 e t w = Some (0, ?e, t, w')"
    using assms(2,3,4,6) ps(1) p(3) v1 w' by (simp add: setenv_def setenv_do_def setenv_found_def grow_string_def)
  have us: "\<forall>q \<in> set us. \<exists>s. e_heap ?e q = Some s \<and> \<not> env_match s name"
  proof
    fix q assume q: "q \<in> set us"
    with ps(2) p(1) have "q \<noteq> p" "q \<noteq> e_next e" "fst (env_var e q) \<noteq> name"
      using var by (auto simp: env_var_def vars_ok_def)
    moreover from q p(1) def obtain s where "e_heap e q = Some s" "eqsign \<in> set s" by auto
    ultimately show "\<exists>s. e_heap ?e q = Some s \<and> \<not> env_match s name"
      using env_match_var [OF _ assms(4), of s] by (auto simp: env_var_def)
  qed
  have "p \<noteq> e_next e" using ps(2) p(1) by auto
  then have "env_find ?e ps name 0 = None" unfolding p(1) env_find_append [OF us] by simp
  with run k ps(1) show ?thesis by (auto simp: getenv_def)
qed

theorem setenv_dangling_witness:
  "\<exists>e' w'. setenv (Some ''HOME'') (Some ''/root'') 1 (env_home\<lparr>e_env := True, e_cnt := 1, e_moves := [True]\<rparr>) atexit0 world0
      = Some (0, e', atexit0, w')
    \<and> (\<forall>w''. getenv ''HOME'' e' w'' = None)"
  using setenv_dangling [of "env_home\<lparr>e_env := True, e_cnt := 1, e_moves := [True]\<rparr>" "[]" "''HOME''" "''/''" "''/root''" world0 atexit0]
  by (simp add: valid_name_def env_home_def env_inv_def vars_ok_def env_lookup_def env_var_def var_of_def)

section \<open>Facts: random numbers and temporary names\<close>

lemma rand_range: "0 \<le> fst (rand seed) \<and> fst (rand seed) < RAND_MAX"
  by (simp add: rand_def RAND_MAX_def Let_def)

text \<open>A seed that has become zero stays zero.\<close>

lemma rand_zero: "rand (srand 0) = (0, 0)"
  by (simp add: rand_def srand_def RAND_MAX_def)

text \<open>\<open>mktemp\<close> changes the trailing \<open>X\<close>s of the template only, each to a letter or a digit.\<close>

lemma mktemp_loop_name:
  "n \<le> length tpl \<Longrightarrow>
   (case mktemp_loop n tpl seed of (name, seed') \<Rightarrow>
      length name = length tpl \<and> drop n name = drop n tpl
      \<and> (\<forall>i < n. name ! i = tpl ! i \<or> (name ! i \<in> set temp_tab \<and> (\<forall>j. i \<le> j \<longrightarrow> j < n \<longrightarrow> tpl ! j = CHR ''X''))))"
proof (induction n arbitrary: tpl seed)
  case (Suc n)
  show ?case
  proof (cases "tpl ! n = CHR ''X''")
    case False
    then show ?thesis by simp
  next
    case True
    obtain r s where r: "rand seed = (r, s)" by fastforce
    let ?t = "tpl[n := temp_tab ! nat (r mod 62)]"
    have tab: "temp_tab ! nat (r mod 62) \<in> set temp_tab" by (rule nth_mem) (simp add: temp_tab_def)
    obtain name s' where run: "mktemp_loop n ?t s = (name, s')" by fastforce
    from Suc.IH [of ?t s] Suc.prems run have ih: "length name = length tpl" "drop n name = drop n ?t"
      "\<forall>i < n. name ! i = ?t ! i \<or> (name ! i \<in> set temp_tab \<and> (\<forall>j. i \<le> j \<longrightarrow> j < n \<longrightarrow> ?t ! j = CHR ''X''))" by auto
    have "name ! n = ?t ! n" using ih(1,2) Suc.prems by (metis Suc_le_lessD hd_drop_conv_nth length_list_update)
    then have n: "name ! n \<in> set temp_tab" using tab Suc.prems by simp
    have "drop (Suc n) name = drop (Suc n) tpl"
      using arg_cong [OF ih(2), of "drop 1"] by simp
    moreover have "name ! i = tpl ! i \<or> (name ! i \<in> set temp_tab \<and> (\<forall>j. i \<le> j \<longrightarrow> j < Suc n \<longrightarrow> tpl ! j = CHR ''X''))"
      if "i < Suc n" for i using ih(3) n True that by (cases "i = n") (auto simp: less_Suc_eq)
    ultimately show ?thesis using True r run ih(1) by simp
  qed
qed simp

end
