(* ===== verification/Parser_Xml.thy ===== *)
theory Parser_Xml
  imports Sys_Parser Libc_Ctype
begin

text \<open>
  The XML parser of \<open>libParser/src/xml.c\<close>: its filters and callbacks for the parser of libSystem.

  The filters and callbacks run on the parser, the \<open>XML\<close> structure and the world. Nodes and
  attributes are heap objects: their pointers are indices into two lists of the structure, because
  the tree is built through pointers to the current node and to the last attribute. Deleted objects
  just stay behind in the lists. \<open>None\<close> is undefined behaviour or a loop that does not end.
\<close>

section \<open>Data\<close>

datatype XMLContext = XML_CONTEXT_DATA | XML_CONTEXT_TAG | XML_CONTEXT_TAG_ATTRIBUTES
  | XML_CONTEXT_TAG_ATTRIBUTES_VALUE

text \<open>The contexts are compared as the numbers of the enumeration.\<close>

fun context_number :: "XMLContext \<Rightarrow> nat" where
  "context_number XML_CONTEXT_DATA = 0"
| "context_number XML_CONTEXT_TAG = 1"
| "context_number XML_CONTEXT_TAG_ATTRIBUTES = 2"
| "context_number XML_CONTEXT_TAG_ATTRIBUTES_VALUE = 3"

lemma context_number_inject: "context_number a = context_number b \<longleftrightarrow> a = b"
  by (cases a; cases b) simp_all

instantiation XMLContext :: linorder
begin

definition less_eq_XMLContext :: "XMLContext \<Rightarrow> XMLContext \<Rightarrow> bool" where
  "less_eq_XMLContext a b \<longleftrightarrow> context_number a \<le> context_number b"

definition less_XMLContext :: "XMLContext \<Rightarrow> XMLContext \<Rightarrow> bool" where
  "less_XMLContext a b \<longleftrightarrow> context_number a < context_number b"

instance
  by standard (auto simp: less_eq_XMLContext_def less_XMLContext_def context_number_inject)

end

definition XML_CONTEXT_TAG_FIRST :: XMLContext where "XML_CONTEXT_TAG_FIRST = XML_CONTEXT_TAG"

definition XML_CONTEXT_TAG_LAST :: XMLContext where
  "XML_CONTEXT_TAG_LAST = XML_CONTEXT_TAG_ATTRIBUTES_VALUE"

datatype XMLCode = XML_CODE_DATA | XML_CODE_ENTITY | XML_CODE_TAG_ATTRIBUTE
  | XML_CODE_TAG_ATTRIBUTE_VALUE | XML_CODE_TAG_CLOSE | XML_CODE_TAG_ENTER | XML_CODE_TAG_LEAVE
  | XML_CODE_TAG_NAME | XML_CODE_TAG_SPECIAL

fun code_number :: "XMLCode \<Rightarrow> int" where
  "code_number XML_CODE_DATA = 0"
| "code_number XML_CODE_ENTITY = 1"
| "code_number XML_CODE_TAG_ATTRIBUTE = 2"
| "code_number XML_CODE_TAG_ATTRIBUTE_VALUE = 3"
| "code_number XML_CODE_TAG_CLOSE = 4"
| "code_number XML_CODE_TAG_ENTER = 5"
| "code_number XML_CODE_TAG_LEAVE = 6"
| "code_number XML_CODE_TAG_NAME = 7"
| "code_number XML_CODE_TAG_SPECIAL = 8"

record XMLAttribute =
  xa_name :: string
  xa_value :: string

text \<open>The union of the three kinds of nodes; children are pointers to nodes that may be \<open>NULL\<close>.\<close>

datatype XMLNode =
    XML_NODE_TYPE_TAG (n_parent: "nat option") (n_name: string) (n_attributes: "nat list")
      (n_childs: "nat option list")
  | XML_NODE_TYPE_DATA (n_parent: "nat option") (n_buffer: string) (n_size: nat)
  | XML_NODE_TYPE_ENTITY (n_parent: "nat option") (n_name: string)

text \<open>\<open>x_document\<close> is the document, when there is one, with its root, when there is one.\<close>

record XML =
  x_filters :: int
  x_document :: "nat option option"
  x_context :: XMLContext
  x_inject :: "string option"
  x_nodes :: "XMLNode list"
  x_attributes :: "XMLAttribute list"

type_synonym xml_state = "Parser \<times> XML \<times> world"

definition F_INJECT :: nat where "F_INJECT = 0"
definition F_WHITESPACE :: nat where "F_WHITESPACE = 1"
definition F_COMMENT :: nat where "F_COMMENT = 2"

text \<open>What a \<open>char *\<close> means to the string functions: the bytes before the first NUL.\<close>

definition c_string :: "string \<Rightarrow> string" where
  "c_string s = takeWhile (\<lambda>c. c \<noteq> NUL) s"

section \<open>Filters\<close>

definition xml_inject :: "XML \<Rightarrow> string \<Rightarrow> world \<Rightarrow> int \<times> XML \<times> world" where
  "xml_inject xml str w =
     (if str = [] then (0, xml, w)
      else if x_inject xml = None then
        (case string_new (Some str) w of
           (s, w') \<Rightarrow> (if s = None then - 1 else 0, xml\<lparr>x_inject := s\<rparr>, w'))
      else
        (case string_append (x_inject xml) (Some str) w of
           (r, s, w') \<Rightarrow> (if r \<noteq> 0 then - 1 else 0, xml\<lparr>x_inject := s\<rparr>, w')))"

text \<open>
  \<open>comment_start\<close> compares the characters after a \<open><\<close> with those of \<open><!--\<close>; it ends with the
  characters read when one differs, and with \<open>None\<close> in their place otherwise.
\<close>

fun comment_start :: "string \<Rightarrow> string \<Rightarrow> int \<Rightarrow> Parser \<Rightarrow> (string option \<times> int \<times> Parser) option" where
  "comment_start seen [] c parser = Some (None, c, parser)"
| "comment_start seen (e # start) c parser =
     do { (c', parser') \<leftarrow> parser_scan parser;
          if c' = sc e then comment_start (seen @ [e]) start c' parser'
          else Some (Some (seen @ [to_char c']), c', parser') }"

text \<open>\<open>i\<close> counts the dashes in a row.\<close>

partial_function (option) comment_skip :: "int \<Rightarrow> nat \<Rightarrow> Parser \<Rightarrow> Parser option" where
  "comment_skip c i parser =
     (if c = EOF then Some parser
      else if c = uc CHR ''-'' then
        do { (c', parser') \<leftarrow> parser_scan parser; comment_skip c' (i + 1) parser' }
      else if i \<ge> 2 \<and> c = uc CHR ''>'' then Some parser
      else do { (c', parser') \<leftarrow> parser_scan parser; comment_skip c' 0 parser' })"

definition xml_filter_comment :: "int \<Rightarrow> xml_state \<Rightarrow> (int \<times> int \<times> xml_state) option" where
  "xml_filter_comment c st =
     (case st of (parser, xml, w) \<Rightarrow>
        if c \<noteq> uc CHR ''<'' then Some (0, c, st)
        else do { (diff, c1, parser1) \<leftarrow> comment_start [] ''!--'' c parser;
                  case diff of
                    Some str \<Rightarrow>
                      (case xml_inject xml (c_string str) w of
                         (r, xml', w') \<Rightarrow>
                           Some (if r \<noteq> 0 then (- 1, c1, parser1, xml', w')
                                 else (1, uc CHR ''<'', parser1, xml', w')))
                  | None \<Rightarrow>
                      do { (c2, parser2) \<leftarrow> parser_scan parser1;
                           parser3 \<leftarrow> comment_skip c2 0 parser2;
                           (c4, parser4) \<leftarrow> parser_scan parser3;
                           Some (0, c4, parser4, xml, w) } })"

text \<open>The first character of \<open>inject\<close> takes the place of the character scanned.\<close>

definition xml_filter_inject :: "int \<Rightarrow> xml_state \<Rightarrow> (int \<times> int \<times> xml_state) option" where
  "xml_filter_inject c st =
     (case st of (parser, xml, w) \<Rightarrow>
        case x_inject xml of
          None \<Rightarrow> Some (0, c, st)
        | Some inject \<Rightarrow>
            let c' = (if length inject > 0 then sc (inject ! 0) else c);
                inject' = drop 1 inject
            in if length inject' > 0 then Some (1, c', parser, xml\<lparr>x_inject := Some inject'\<rparr>, w)
               else Some (0, c', parser, xml\<lparr>x_inject := None\<rparr>, w))"

partial_function (option) whitespace_skip :: "int \<Rightarrow> Parser \<Rightarrow> (int \<times> Parser) option" where
  "whitespace_skip c parser =
     (if isspace c then do { (c', parser') \<leftarrow> parser_scan parser; whitespace_skip c' parser' }
      else Some (c, parser))"

definition xml_filter_whitespace :: "int \<Rightarrow> xml_state \<Rightarrow> (int \<times> int \<times> xml_state) option" where
  "xml_filter_whitespace c st =
     (case st of (parser, xml, w) \<Rightarrow>
        if \<not> isspace c then Some (0, c, st)
        else do { (c1, parser1) \<leftarrow> parser_scan parser;
                  (c2, parser2) \<leftarrow> whitespace_skip c1 parser1;
                  if c2 = EOF then Some (0, c2, parser2, xml, w)
                  else case xml_inject xml (c_string [to_char c2]) w of
                    (r, xml', w') \<Rightarrow>
                      Some (if r \<noteq> 0 then (- 1, c2, parser2, xml', w')
                            else (1, uc CHR '' '', parser2, xml', w')) })"

definition xml_filters :: "(XML \<times> world) filter_env" where
  "xml_filters f c data st =
     (if f = F_INJECT then xml_filter_inject c st
      else if f = F_WHITESPACE then xml_filter_whitespace c st
      else xml_filter_comment c st)"

definition xml_scan :: "xml_state \<Rightarrow> (int \<times> xml_state) option" where
  "xml_scan st = (case st of (parser, xml, w) \<Rightarrow> parser_scan_filter xml_filters parser (xml, w))"

section \<open>Callbacks\<close>

text \<open>
  A callback returns 0 with the token filled in, or 1 when it declines. Its strings grow by one
  \<open>realloc\<close> for each character; when that fails the callback declines, with the characters lost.

  \<open>collect\<close> is the loop of the tag and attribute callbacks with the condition \<open>cond\<close>:
  \<open>while(cond) { realloc; string[len++] = c; c = parser_scan_filter(parser); }\<close>. The result is the
  string and the character the loop stopped at, or \<open>None\<close> for a failed \<open>realloc\<close>.
\<close>

partial_function (option) collect ::
  "(int \<Rightarrow> bool) \<Rightarrow> string \<Rightarrow> int \<Rightarrow> xml_state \<Rightarrow> ((string \<times> int) option \<times> xml_state) option" where
  "collect cond str c st =
     (case st of (parser, xml, w) \<Rightarrow>
        if cond c then
          (case w_alloc w of
             (ok, w') \<Rightarrow>
               if \<not> ok then Some (None, parser, xml, w')
               else do { (c', st') \<leftarrow> xml_scan (parser, xml, w'); collect cond (str @ [to_char c]) c' st' })
        else Some (Some (str, c), st))"

text \<open>The loops of the data and entity callbacks also end in their middle.\<close>

partial_function (option) data_loop ::
  "string \<Rightarrow> int \<Rightarrow> xml_state \<Rightarrow> (string option \<times> xml_state) option" where
  "data_loop str c st =
     (case st of (parser, xml, w) \<Rightarrow>
        if c \<noteq> EOF \<and> c \<noteq> uc CHR ''<'' then
          (case w_alloc w of
             (ok, w') \<Rightarrow>
               if \<not> ok then Some (None, parser, xml, w')
               else do { (c', st') \<leftarrow> xml_scan (parser, xml, w');
                         if c' = uc CHR ''&'' then Some (Some (str @ [to_char c]), st')
                         else data_loop (str @ [to_char c]) c' st' })
        else Some (Some str, st))"

text \<open>A final semicolon is overwritten by the terminator.\<close>

partial_function (option) entity_loop ::
  "string \<Rightarrow> int \<Rightarrow> xml_state \<Rightarrow> (string option \<times> xml_state) option" where
  "entity_loop str c st =
     (case st of (parser, xml, w) \<Rightarrow>
        if c \<noteq> EOF \<and> c \<noteq> uc CHR ''<'' then
          (case w_alloc w of
             (ok, w') \<Rightarrow>
               if \<not> ok then Some (None, parser, xml, w')
               else do { (c', st') \<leftarrow> xml_scan (parser, xml, w');
                         if to_char c = CHR '';'' then Some (Some str, st')
                         else entity_loop (str @ [to_char c]) c' st' })
        else Some (Some str, st))"

text \<open>\<open>token_set_code\<close> and \<open>token_set_string\<close>, whose result the callbacks ignore.\<close>

definition set_token :: "XMLCode \<Rightarrow> string \<Rightarrow> Token \<Rightarrow> world \<Rightarrow> Token \<times> world" where
  "set_token code str token w =
     (case token_set_string (token_set_code token (code_number code)) (Some (c_string str)) w of
        (r, token', w') \<Rightarrow> (token', w'))"

type_synonym xml_result = "(int \<times> Token \<times> xml_state) option"

definition decline :: "Token \<Rightarrow> xml_state \<Rightarrow> xml_result" where
  "decline token st = Some (1, token, st)"

definition accept :: "XMLCode \<Rightarrow> string \<Rightarrow> Token \<Rightarrow> xml_state \<Rightarrow> xml_result" where
  "accept code str token st =
     (case st of (parser, xml, w) \<Rightarrow>
        case set_token code str token w of (token', w') \<Rightarrow> Some (0, token', parser, xml, w'))"

definition set_context :: "XMLContext \<Rightarrow> xml_state \<Rightarrow> xml_state" where
  "set_context context st = (case st of (parser, xml, w) \<Rightarrow> (parser, xml\<lparr>x_context := context\<rparr>, w))"

definition get_context :: "xml_state \<Rightarrow> XMLContext" where
  "get_context st = (case st of (parser, xml, w) \<Rightarrow> x_context xml)"

definition xml_callback_data :: "Token \<Rightarrow> int \<Rightarrow> xml_state \<Rightarrow> xml_result" where
  "xml_callback_data token c st =
     (if get_context st \<noteq> XML_CONTEXT_DATA then decline token st
      else do { (s, st1) \<leftarrow> data_loop [] c st;
                case s of
                  None \<Rightarrow> decline token st1
                | Some str \<Rightarrow> if str = [] then decline token st1 else accept XML_CODE_DATA str token st1 })"

definition xml_callback_entity :: "Token \<Rightarrow> int \<Rightarrow> xml_state \<Rightarrow> xml_result" where
  "xml_callback_entity token c st =
     (if get_context st \<noteq> XML_CONTEXT_DATA \<or> c \<noteq> uc CHR ''&'' then decline token st
      else do { (c1, st1) \<leftarrow> xml_scan st;
                (s, st2) \<leftarrow> entity_loop [] c1 st1;
                case s of
                  None \<Rightarrow> decline token st2
                | Some str \<Rightarrow> if str = [] then decline token st2 else accept XML_CODE_ENTITY str token st2 })"

text \<open>\<open>q\<close> is the quote, or 0.\<close>

definition xml_callback_tag_attribute :: "Token \<Rightarrow> int \<Rightarrow> xml_state \<Rightarrow> xml_result" where
  "xml_callback_tag_attribute token c st =
     (if get_context st \<noteq> XML_CONTEXT_TAG_ATTRIBUTES \<or> \<not> isalnum c \<and> c \<noteq> uc CHR 0x22 then decline token st
      else do { (q, c1, st1) \<leftarrow>
                  (if c = uc CHR 0x22 then do { (c1, st1) \<leftarrow> xml_scan st; Some (c, c1, st1) }
                   else Some (0, c, st));
                (s, st2) \<leftarrow> collect (\<lambda>c. c \<noteq> EOF \<and> (isalnum c \<or> c = uc CHR '':'' \<or> c = uc CHR ''-''
                   \<or> q \<noteq> 0 \<and> c \<noteq> q)) [] c1 st1;
                case s of
                  None \<Rightarrow> decline token st2
                | Some (str, c2) \<Rightarrow>
                    if str = [] then decline token st2
                    else do { st3 \<leftarrow> (if q \<noteq> 0 then map_option snd (xml_scan st2) else Some st2);
                              (r, token', st4) \<leftarrow> accept XML_CODE_TAG_ATTRIBUTE str token st3;
                              Some (r, token', if c2 = uc CHR ''=''
                                then set_context XML_CONTEXT_TAG_ATTRIBUTES_VALUE st4 else st4) } })"

definition xml_callback_tag_attribute_value :: "Token \<Rightarrow> int \<Rightarrow> xml_state \<Rightarrow> xml_result" where
  "xml_callback_tag_attribute_value token c st =
     (if get_context st \<noteq> XML_CONTEXT_TAG_ATTRIBUTES_VALUE \<or> c \<noteq> uc CHR ''='' then decline token st
      else do { (c1, st1) \<leftarrow> xml_scan st;
                (q, c2, st2) \<leftarrow>
                  (if c1 = uc CHR 0x27 \<or> c1 = uc CHR 0x22
                   then do { (c2, st2) \<leftarrow> xml_scan st1; Some (c1, c2, st2) }
                   else Some (0, c1, st1));
                (s, st3) \<leftarrow> collect (\<lambda>c. c \<noteq> EOF \<and> (q = 0 \<and> isalnum c \<or> q \<noteq> 0 \<and> c \<noteq> q)) [] c2 st2;
                case s of
                  None \<Rightarrow> decline token st3
                | Some (str, c3) \<Rightarrow>
                    do { st4 \<leftarrow> (if q \<noteq> 0 then map_option snd (xml_scan st3) else Some st3);
                         (r, token', st5) \<leftarrow> accept XML_CODE_TAG_ATTRIBUTE_VALUE str token st4;
                         Some (r, token', set_context XML_CONTEXT_TAG_ATTRIBUTES st5) } })"

definition in_tag :: "xml_state \<Rightarrow> bool" where
  "in_tag st \<longleftrightarrow> \<not> (get_context st < XML_CONTEXT_TAG_FIRST \<or> get_context st > XML_CONTEXT_TAG_LAST)"

definition xml_callback_tag_close :: "Token \<Rightarrow> int \<Rightarrow> xml_state \<Rightarrow> xml_result" where
  "xml_callback_tag_close token c st =
     (if c \<noteq> uc CHR ''/'' \<or> \<not> in_tag st then decline token st
      else do { (_, st1) \<leftarrow> xml_scan st; accept XML_CODE_TAG_CLOSE ''/'' token st1 })"

definition xml_callback_tag_enter :: "Token \<Rightarrow> int \<Rightarrow> xml_state \<Rightarrow> xml_result" where
  "xml_callback_tag_enter token c st =
     (if get_context st \<noteq> XML_CONTEXT_DATA \<or> c \<noteq> uc CHR ''<'' then decline token st
      else do { (_, st1) \<leftarrow> xml_scan st;
                accept XML_CODE_TAG_ENTER ''<'' token (set_context XML_CONTEXT_TAG st1) })"

definition xml_callback_tag_leave :: "Token \<Rightarrow> int \<Rightarrow> xml_state \<Rightarrow> xml_result" where
  "xml_callback_tag_leave token c st =
     (if c \<noteq> uc CHR ''>'' \<or> \<not> in_tag st then decline token st
      else do { (_, st1) \<leftarrow> xml_scan st;
                accept XML_CODE_TAG_LEAVE ''>'' token (set_context XML_CONTEXT_DATA st1) })"

text \<open>The first character is taken before the condition is tested.\<close>

definition xml_callback_tag_name :: "Token \<Rightarrow> int \<Rightarrow> xml_state \<Rightarrow> xml_result" where
  "xml_callback_tag_name token c st =
     (if get_context st \<noteq> XML_CONTEXT_TAG \<or> \<not> isalnum c then decline token st
      else case st of (parser, xml, w) \<Rightarrow>
        case w_alloc w of (ok, w') \<Rightarrow>
          if \<not> ok then decline token (parser, xml, w')
          else do { (c1, st1) \<leftarrow> xml_scan (parser, xml, w');
                    (s, st2) \<leftarrow> collect (\<lambda>c. c \<noteq> EOF \<and> c \<noteq> uc CHR ''<'' \<and> c \<noteq> uc CHR ''!''
                       \<and> c \<noteq> uc CHR ''?'' \<and> c \<noteq> uc CHR ''/'' \<and> c \<noteq> uc CHR ''='' \<and> c \<noteq> uc CHR ''>''
                       \<and> \<not> isspace c) [to_char c] c1 st1;
                    case s of
                      None \<Rightarrow> decline token st2
                    | Some (str, _) \<Rightarrow>
                        do { (r, token', st3) \<leftarrow> accept XML_CODE_TAG_NAME str token st2;
                             Some (r, token', set_context XML_CONTEXT_TAG_ATTRIBUTES st3) } })"

definition xml_callback_tag_special :: "Token \<Rightarrow> int \<Rightarrow> xml_state \<Rightarrow> xml_result" where
  "xml_callback_tag_special token c st =
     (if get_context st \<noteq> XML_CONTEXT_TAG \<and> get_context st \<noteq> XML_CONTEXT_TAG_ATTRIBUTES
         \<or> c \<noteq> uc CHR ''?'' \<and> c \<noteq> uc CHR ''!'' then decline token st
      else do { (_, st1) \<leftarrow> xml_scan st; accept XML_CODE_TAG_SPECIAL [to_char c] token st1 })"

partial_function (option) space_loop :: "int \<Rightarrow> xml_state \<Rightarrow> xml_state option" where
  "space_loop c st =
     (if isspace c then do { (c', st') \<leftarrow> xml_scan st; space_loop c' st' } else Some st)"

definition xml_callback_tag_whitespace :: "Token \<Rightarrow> int \<Rightarrow> xml_state \<Rightarrow> xml_result" where
  "xml_callback_tag_whitespace token c st =
     (if \<not> isspace c \<or> \<not> in_tag st then decline token st
      else do { st1 \<leftarrow> space_loop c st;
                decline token (if get_context st1 = XML_CONTEXT_TAG_ATTRIBUTES_VALUE
                  then set_context XML_CONTEXT_TAG_ATTRIBUTES st1 else st1) })"

text \<open>The callbacks in the order of their registration.\<close>

definition xml_callback_list :: "(Token \<Rightarrow> int \<Rightarrow> xml_state \<Rightarrow> xml_result) list" where
  "xml_callback_list =
    [xml_callback_tag_whitespace, xml_callback_tag_special, xml_callback_tag_name,
     xml_callback_tag_attribute, xml_callback_tag_attribute_value, xml_callback_tag_close,
     xml_callback_tag_enter, xml_callback_tag_leave, xml_callback_entity, xml_callback_data]"

definition xml_callbacks :: "(XML \<times> world) callback_env" where
  "xml_callbacks f token c data st =
     (if f < length xml_callback_list then (xml_callback_list ! f) token c st else None)"

section \<open>Creation\<close>

fun add_filters :: "nat list \<Rightarrow> Parser \<Rightarrow> world \<Rightarrow> Parser \<times> world" where
  "add_filters [] parser w = (parser, w)"
| "add_filters (f # fs) parser w =
     (case parser_add_filter parser f 0 w of (_, parser', w') \<Rightarrow> add_filters fs parser' w')"

fun add_callbacks :: "nat list \<Rightarrow> Parser \<Rightarrow> world \<Rightarrow> Parser \<times> world" where
  "add_callbacks [] parser w = (parser, w)"
| "add_callbacks (f # fs) parser w =
     (case parser_add_callback parser f 0 w of (_, parser', w') \<Rightarrow> add_callbacks fs parser' w')"

definition XML_FILTER_WHITESPACE :: int where "XML_FILTER_WHITESPACE = 1"

text \<open>
  The source is a file or a string. The results of \<open>parser_add_filter\<close> and \<open>parser_add_callback\<close>
  are ignored.
\<close>

definition xml_new_do ::
  "(string \<Rightarrow> int + infile) \<Rightarrow> int option \<Rightarrow> int option \<Rightarrow> string option \<Rightarrow> string \<Rightarrow> nat \<Rightarrow> world
     \<Rightarrow> ((Parser \<times> XML) option \<times> world) option" where
  "xml_new_do fopen closing prefs pathname str n w =
     (case object_new 40 w of
        (False, w1) \<Rightarrow> Some (None, w1)
      | (True, w1) \<Rightarrow>
          do { (p, w2) \<leftarrow> (case pathname of
                 Some path \<Rightarrow> Some (parser_new fopen closing path w1)
               | None \<Rightarrow> parser_new_string str n w1);
               let filters = (case prefs of Some f \<Rightarrow> f | None \<Rightarrow> 0);
               case p of
                 None \<Rightarrow> Some (None, w2)
               | Some parser \<Rightarrow>
                   (case add_filters ([F_INJECT]
                        @ (if filters AND XML_FILTER_WHITESPACE = XML_FILTER_WHITESPACE then [F_WHITESPACE] else [])
                        @ [F_COMMENT]) parser w2 of
                      (parser1, w3) \<Rightarrow>
                        (case add_callbacks [0..<length xml_callback_list] parser1 w3 of
                           (parser2, w4) \<Rightarrow>
                             Some (Some (parser2, \<lparr>x_filters = filters, x_document = None,
                               x_context = XML_CONTEXT_DATA, x_inject = None, x_nodes = [],
                               x_attributes = []\<rparr>), w4))) })"

definition xml_new ::
  "(string \<Rightarrow> int + infile) \<Rightarrow> int option \<Rightarrow> int option \<Rightarrow> string \<Rightarrow> world
     \<Rightarrow> ((Parser \<times> XML) option \<times> world) option" where
  "xml_new fopen closing prefs pathname w = xml_new_do fopen closing prefs (Some pathname) [] 0 w"

definition xml_new_string :: "int option \<Rightarrow> string \<Rightarrow> nat \<Rightarrow> world \<Rightarrow> ((Parser \<times> XML) option \<times> world) option" where
  "xml_new_string prefs str n w = xml_new_do (\<lambda>_. Inl 0) None prefs None str n w"

definition xml_get_filename :: "xml_state \<Rightarrow> string option" where
  "xml_get_filename st = parser_get_filename (fst st)"

end
