(* ===== verification/Xml_Scan.thy ===== *)
theory Xml_Scan
  imports Parser_Xml "HOL-Library.Sublist"
begin

text \<open>
  The scanning side of the XML parser: no filter or callback touches the registrations, and what the
  filters deliver and the callbacks recognise on the text of a document. The lemmas are proved once for
  any source of characters (\<open>xml_source\<close>) and used for files and for strings.
\<close>

section \<open>Registrations are kept\<close>

definition regs_of :: "Parser \<Rightarrow> (nat \<times> nat) list \<times> nat \<times> (nat \<times> nat) list \<times> nat" where
  "regs_of p = (p_filters p, p_filters_cnt p, p_callbacks p, p_callbacks_cnt p)"

lemma regs_of_update [simp]:
  "regs_of (p\<lparr>p_last := c\<rparr>) = regs_of p" "regs_of (p\<lparr>p_lookahead := n\<rparr>) = regs_of p"
  "regs_of (p\<lparr>p_fp := f\<rparr>) = regs_of p" "regs_of (p\<lparr>p_string_pos := k\<rparr>) = regs_of p"
  "regs_of (advance p) = regs_of p"
  by (simp_all add: regs_of_def advance_def)

lemma run_scanner_regs:
  "run_scanner p = Some (r, c, q) \<Longrightarrow> regs_of q = regs_of p \<and> p_lookahead q = p_lookahead p"
  by (auto simp: run_scanner_def parser_scanner_file_def parser_scanner_string_def advance_def regs_of_def Let_def
      split: scanner.splits option.splits prod.splits bind_splits if_splits)

lemma parser_scan_regs:
  "parser_scan p = Some (c, q) \<Longrightarrow> regs_of q = regs_of p \<and> p_lookahead q = p_lookahead p"
  by (auto simp: parser_scan_def dest: run_scanner_regs split: bind_splits)

lemma comment_start_regs: "comment_start s es c p = Some (d, c', q) \<Longrightarrow> regs_of q = regs_of p"
proof (induction s es c p rule: comment_start.induct)
  case (2 seen e start c p)
  then show ?case
    by (auto split: bind_splits if_splits dest!: parser_scan_regs)
qed simp

lemma comment_skip_regs:
  assumes "comment_skip c i p = Some q"
  shows "regs_of q = regs_of p"
proof (rule comment_skip.raw_induct [where P = "\<lambda>c i p q. regs_of q = regs_of p", OF _ assms], goal_cases)
  case (1 skip c i p q)
  then show ?case
    by (auto split: bind_splits if_splits dest!: parser_scan_regs)
qed

lemma whitespace_skip_regs:
  assumes "whitespace_skip c p = Some r"
  shows "regs_of (snd r) = regs_of p"
proof (rule whitespace_skip.raw_induct [where P = "\<lambda>c p r. regs_of (snd r) = regs_of p", OF _ assms], goal_cases)
  case (1 skip c p r)
  then show ?case
    by (cases r) (auto split: bind_splits if_splits dest!: parser_scan_regs)
qed

lemma xml_filters_regs: "xml_filters f c d (p, st) = Some (l, c', q, st') \<Longrightarrow> regs_of q = regs_of p"
  by (cases st) (auto simp: xml_filters_def xml_filter_inject_def xml_filter_whitespace_def
      xml_filter_comment_def Let_def split: if_splits option.splits bind_splits prod.splits
      dest!: parser_scan_regs comment_start_regs comment_skip_regs whitespace_skip_regs)

lemma filters_loop_regs:
  assumes "filters_loop xml_filters i c p st = Some r"
  shows "regs_of (fst (snd r)) = regs_of p"
proof -
  have "env = xml_filters \<longrightarrow> regs_of (fst (snd r)) = regs_of p"
    if "filters_loop env i c p st = Some r" for env i c p r and st :: "XML \<times> world"
  proof (rule filters_loop.raw_induct [where P = "\<lambda>env i c p st r. env = xml_filters \<longrightarrow> regs_of (fst (snd r)) = regs_of p",
        OF _ that], goal_cases)
    case (1 loop env i c p st r)
    then show ?case
      by (cases r) (auto split: bind_splits if_splits dest!: xml_filters_regs)
  qed
  with assms show ?thesis by blast
qed

lemma xml_scan_regs: "xml_scan (p, xml, w) = Some (c, q, st') \<Longrightarrow> regs_of q = regs_of p"
  by (auto simp: xml_scan_def parser_scan_filter_def split: bind_splits if_splits option.splits
      dest!: run_scanner_regs filters_loop_regs)

lemma keeps_xml_filters: "keeps_filters xml_filters"
  unfolding keeps_filters_def
  by (intro allI impI) (drule xml_filters_regs, simp add: regs_of_def)

lemma keeps_regs_callback:
  assumes "\<And>cb t c p st r t' q st'. cb \<in> set xml_callback_list \<Longrightarrow> cb t c (p, st) = Some (r, t', q, st')
    \<Longrightarrow> regs_of q = regs_of p"
  shows "keeps_callbacks xml_callbacks"
  unfolding keeps_callbacks_def
proof (intro allI impI)
  fix f t c d p and st :: "XML \<times> world" and r t' q st'
  assume call: "xml_callbacks f t c d (p, st) = Some (r, t', q, st')"
  then have f: "f < length xml_callback_list" by (simp add: xml_callbacks_def split: if_splits)
  with call have "(xml_callback_list ! f) t c (p, st) = Some (r, t', q, st')" by (simp add: xml_callbacks_def)
  with f have "regs_of q = regs_of p" by (intro assms) (rule nth_mem)
  then show "p_callbacks q = p_callbacks p \<and> p_callbacks_cnt q = p_callbacks_cnt p" by (simp add: regs_of_def)
qed

lemma collect_regs:
  assumes "collect cond str c st = Some r"
  shows "regs_of (fst (snd r)) = regs_of (fst st)"
proof (rule collect.raw_induct [where P = "\<lambda>cond str c st r. regs_of (fst (snd r)) = regs_of (fst st)", OF _ assms],
    goal_cases)
  case (1 loop cond str c st r)
  then show ?case
    by (cases r; cases st) (auto split: bind_splits if_splits prod.splits dest!: xml_scan_regs)
qed

lemma data_loop_regs:
  assumes "data_loop str c st = Some r"
  shows "regs_of (fst (snd r)) = regs_of (fst st)"
proof (rule data_loop.raw_induct [where P = "\<lambda>str c st r. regs_of (fst (snd r)) = regs_of (fst st)", OF _ assms],
    goal_cases)
  case (1 loop str c st r)
  then show ?case
    by (cases r; cases st) (auto split: bind_splits if_splits prod.splits dest!: xml_scan_regs)
qed

lemma entity_loop_regs:
  assumes "entity_loop str c st = Some r"
  shows "regs_of (fst (snd r)) = regs_of (fst st)"
proof (rule entity_loop.raw_induct [where P = "\<lambda>str c st r. regs_of (fst (snd r)) = regs_of (fst st)", OF _ assms],
    goal_cases)
  case (1 loop str c st r)
  then show ?case
    by (cases r; cases st) (auto split: bind_splits if_splits prod.splits dest!: xml_scan_regs)
qed

lemma space_loop_regs:
  assumes "space_loop c st = Some st'"
  shows "regs_of (fst st') = regs_of (fst st)"
proof (rule space_loop.raw_induct [where P = "\<lambda>c st st'. regs_of (fst st') = regs_of (fst st)", OF _ assms],
    goal_cases)
  case (1 loop c st st')
  then show ?case
    by (cases st'; cases st) (auto split: bind_splits if_splits prod.splits dest!: xml_scan_regs)
qed

lemmas loop_regs = collect_regs data_loop_regs entity_loop_regs space_loop_regs xml_scan_regs

lemmas callback_defs = xml_callback_tag_whitespace_def xml_callback_tag_special_def xml_callback_tag_name_def
  xml_callback_tag_attribute_def xml_callback_tag_attribute_value_def xml_callback_tag_close_def
  xml_callback_tag_enter_def xml_callback_tag_leave_def xml_callback_entity_def xml_callback_data_def

lemma xml_callback_regs:
  assumes "cb \<in> set xml_callback_list" "cb t c (p, st) = Some (r, t', q, st')"
  shows "regs_of q = regs_of p"
  using assms by (cases st) (auto simp: xml_callback_list_def callback_defs decline_def accept_def set_context_def
      split: bind_splits if_splits prod.splits option.splits dest!: loop_regs)

lemma keeps_xml_callbacks: "keeps_callbacks xml_callbacks"
  by (rule keeps_regs_callback) (rule xml_callback_regs)

section \<open>Text\<close>

text \<open>What may follow a \<open><\<close> in a document, and text in which only that follows it.\<close>

definition lead :: "char \<Rightarrow> bool" where
  "lead c \<longleftrightarrow> c = CHR ''/'' \<or> isalnum (uc c)"

fun plain :: "string \<Rightarrow> bool" where
  "plain [] = True"
| "plain (c # s) \<longleftrightarrow> c \<noteq> NUL \<and> c \<noteq> CHR 0xFF \<and> (c = CHR ''<'' \<longrightarrow> s \<noteq> [] \<and> lead (hd s)) \<and> plain s"

lemma plain_append: "plain s \<Longrightarrow> plain t \<Longrightarrow> plain (s @ t)"
  by (induction s) auto

lemma plain_no_lt: "plain s \<longleftrightarrow> NUL \<notin> set s \<and> CHR 0xFF \<notin> set s" if "CHR ''<'' \<notin> set s"
  using that by (induction s) auto

lemma plain_FF: "plain s \<Longrightarrow> CHR 0xFF \<notin> set s"
  by (induction s) auto

lemma plain_NUL: "plain s \<Longrightarrow> NUL \<notin> set s"
  by (induction s) auto

lemma plain_tail: "plain (s @ t) \<Longrightarrow> plain t"
  by (induction s) auto

lemma c_string_plain: "NUL \<notin> set s \<Longrightarrow> c_string s = s"
  by (auto simp: c_string_def takeWhile_eq_all_conv)

lemma uc_CHR: "uc CHR ''<'' = 60" "uc CHR ''>'' = 62" "uc CHR ''/'' = 47" "uc CHR ''!'' = 33" "uc CHR ''-'' = 45"
  "uc CHR ''='' = 61" "uc CHR ''&'' = 38" "uc CHR '';'' = 59" "uc CHR ''?'' = 63" "uc CHR '':'' = 58"
  "uc CHR '' '' = 32" "uc CHR 0x22 = 34" "uc CHR 0x27 = 39"
  by (simp_all add: uc_def)

lemma sc_ascii: "uc c < 128 \<Longrightarrow> sc c = uc c"
  by (simp add: sc_def)

lemma isalnum_range: "isalnum c \<Longrightarrow> 48 \<le> c \<and> c \<le> 57 \<or> 65 \<le> c \<and> c \<le> 90 \<or> 97 \<le> c \<and> c \<le> 122"
  by (auto simp: isalnum_def isalpha_def isdigit_def islower_def isupper_def uc_def)

lemma isspace_range: "isspace c \<longleftrightarrow> c = 32 \<or> 9 \<le> c \<and> c \<le> 13"
  by (auto simp: isspace_def uc_def)

lemma alnum_not:
  "isalnum c \<Longrightarrow> \<not> isspace c \<and> c \<noteq> EOF \<and> c < 128 \<and> c \<notin> {60, 62, 47, 33, 45, 61, 38, 59, 63, 58, 32, 34, 39}"
  by (drule isalnum_range) (auto simp: isspace_range EOF_def)

lemma lead_range: "lead c \<Longrightarrow> uc c < 128 \<and> uc c \<notin> {60, 33} \<and> c \<noteq> NUL"
  using alnum_not [of "uc c"] by (auto simp: lead_def uc_CHR EOF_def uc_def isalnum_def isalpha_def isdigit_def islower_def isupper_def)

lemma alnum_char: "isalnum (uc c) \<Longrightarrow> c \<noteq> NUL \<and> c \<noteq> CHR 0xFF"
  using isalnum_range [of "uc c"] by (auto simp: uc_def)

text \<open>The names the parser reads.\<close>

definition name_char :: "char \<Rightarrow> bool" where
  "name_char c \<longleftrightarrow> c \<notin> {CHR ''<'', CHR ''!'', CHR ''?'', CHR ''/'', CHR ''='', CHR ''>'', NUL, CHR 0xFF}
     \<and> \<not> isspace (uc c)"

definition tag_name :: "string \<Rightarrow> bool" where
  "tag_name n \<longleftrightarrow> n \<noteq> [] \<and> isalnum (uc (hd n)) \<and> (\<forall>c \<in> set n. name_char c)"

definition attribute_name :: "string \<Rightarrow> bool" where
  "attribute_name k \<longleftrightarrow> k \<noteq> [] \<and> isalnum (uc (hd k))
     \<and> (\<forall>c \<in> set k. isalnum (uc c) \<or> c = CHR '':'' \<or> c = CHR ''-'')"

section \<open>Any source of characters\<close>

definition xml_regs :: "(nat \<times> nat) list \<times> nat \<times> (nat \<times> nat) list \<times> nat" where
  "xml_regs = ([(F_INJECT, 0), (F_COMMENT, 0)], 2, map (\<lambda>f. (f, 0)) [0..<10], 10)"

text \<open>The structure without the text put back for the scanner.\<close>

definition doc_of :: "xml_state \<Rightarrow> XML" where
  "doc_of st = (case st of (p, xml, w) \<Rightarrow> xml\<lparr>x_inject := None\<rparr>)"

definition filled :: "XMLCode \<Rightarrow> string \<Rightarrow> Token \<Rightarrow> Token" where
  "filled code str token = token\<lparr>t_code := word_of_int (code_number code), t_string := Some str\<rparr>"

lemma get_context_doc: "get_context st = x_context (doc_of st)"
  by (simp add: get_context_def doc_of_def split: prod.split)

lemma doc_of_set_context [simp]: "doc_of (set_context c st) = (doc_of st)\<lparr>x_context := c\<rparr>"
  by (simp add: set_context_def doc_of_def split: prod.split)

lemma in_tag_doc: "in_tag st \<longleftrightarrow> x_context (doc_of st) \<noteq> XML_CONTEXT_DATA"
  by (cases "x_context (doc_of st)") (simp_all add: in_tag_def get_context_doc XML_CONTEXT_TAG_FIRST_def
      XML_CONTEXT_TAG_LAST_def less_XMLContext_def)

text \<open>When a callback declines at once; characters are given as numbers.\<close>

lemma declines:
  "\<not> isspace c \<or> x_context (doc_of st) = XML_CONTEXT_DATA \<Longrightarrow>
     xml_callback_tag_whitespace t c st = Some (1, t, st)"
  "x_context (doc_of st) \<notin> {XML_CONTEXT_TAG, XML_CONTEXT_TAG_ATTRIBUTES} \<or> c \<noteq> 63 \<and> c \<noteq> 33 \<Longrightarrow>
     xml_callback_tag_special t c st = Some (1, t, st)"
  "x_context (doc_of st) \<noteq> XML_CONTEXT_TAG \<or> \<not> isalnum c \<Longrightarrow>
     xml_callback_tag_name t c st = Some (1, t, st)"
  "x_context (doc_of st) \<noteq> XML_CONTEXT_TAG_ATTRIBUTES \<or> \<not> isalnum c \<and> c \<noteq> 34 \<Longrightarrow>
     xml_callback_tag_attribute t c st = Some (1, t, st)"
  "x_context (doc_of st) \<noteq> XML_CONTEXT_TAG_ATTRIBUTES_VALUE \<or> c \<noteq> 61 \<Longrightarrow>
     xml_callback_tag_attribute_value t c st = Some (1, t, st)"
  "x_context (doc_of st) = XML_CONTEXT_DATA \<or> c \<noteq> 47 \<Longrightarrow>
     xml_callback_tag_close t c st = Some (1, t, st)"
  "x_context (doc_of st) \<noteq> XML_CONTEXT_DATA \<or> c \<noteq> 60 \<Longrightarrow>
     xml_callback_tag_enter t c st = Some (1, t, st)"
  "x_context (doc_of st) = XML_CONTEXT_DATA \<or> c \<noteq> 62 \<Longrightarrow>
     xml_callback_tag_leave t c st = Some (1, t, st)"
  "x_context (doc_of st) \<noteq> XML_CONTEXT_DATA \<or> c \<noteq> 38 \<Longrightarrow>
     xml_callback_entity t c st = Some (1, t, st)"
  by (auto simp: callback_defs decline_def get_context_doc in_tag_doc uc_CHR)

text \<open>The callbacks one after the other.\<close>

fun offer :: "(Token \<Rightarrow> int \<Rightarrow> xml_state \<Rightarrow> xml_result) list \<Rightarrow> Token \<Rightarrow> xml_state
    \<Rightarrow> (int option \<times> Token \<times> xml_state) option" where
  "offer [] t st = Some (None, t, st)"
| "offer (cb # cbs) t st =
     do { (r, t', st') \<leftarrow> cb t (p_last (fst st)) st;
          if r \<le> 0 then Some (Some r, t', st') else offer cbs t' st' }"

lemma run_callbacks_offer:
  "k \<le> 10 \<Longrightarrow> run_callbacks xml_callbacks (map (\<lambda>f. (f, 0)) [k..<10]) t p s
     = offer (drop k xml_callback_list) t (p, s)"
proof (induction k arbitrary: t p s rule: inc_induct)
  case base
  then show ?case by (simp add: xml_callback_list_def)
next
  case (step k)
  have "length xml_callback_list = 10" by (simp add: xml_callback_list_def)
  with step.hyps have "drop k xml_callback_list = xml_callback_list ! k # drop (Suc k) xml_callback_list"
    and "k < length xml_callback_list" by (simp_all add: Cons_nth_drop_Suc)
  with step show ?case
    by (cases "(xml_callback_list ! k) t (p_last p) (p, s)") (auto simp: upt_conv_Cons xml_callbacks_def)
qed

locale xml_source = scan_source parser_scan input valid
  for input :: "Parser \<Rightarrow> int list" and valid :: "Parser \<Rightarrow> bool" +
  fixes ended :: "Parser \<Rightarrow> bool" and enc :: "char \<Rightarrow> int"
  assumes scan_end: "valid p \<Longrightarrow> input p = [] \<Longrightarrow> parser_scan p = Some (i, q) \<Longrightarrow> ended q"
    and update_last: "valid (p\<lparr>p_last := x\<rparr>) = valid p" "input (p\<lparr>p_last := x\<rparr>) = input p"
      "ended (p\<lparr>p_last := x\<rparr>) = ended p"
    and update_lookahead: "valid (p\<lparr>p_lookahead := n\<rparr>) = valid p" "input (p\<lparr>p_lookahead := n\<rparr>) = input p"
      "ended (p\<lparr>p_lookahead := n\<rparr>) = ended p"
    and enc_char: "enc c = uc c \<or> enc c = sc c"
    and enc_EOF: "enc c = EOF \<Longrightarrow> c = CHR 0xFF"
begin

lemma enc_ascii: "uc c < 128 \<Longrightarrow> enc c = uc c"
  using enc_char [of c] by (auto simp: sc_ascii)

lemma to_char_enc [simp]: "to_char (enc c) = c"
proof -
  have "uc c mod 256 = uc c" "sc c mod 256 = uc c"
    using uc_bounds [of c] by (auto simp: sc_def)
  then have "sc c mod 256 = uc c mod 256" by simp
  then have "to_char (sc c) = to_char (uc c)" unfolding to_char_def by (rule arg_cong)
  with enc_char [of c] show ?thesis by auto
qed

lemma enc_eq: "enc c = uc d \<longleftrightarrow> c = d" if "uc d < 128"
  using to_char_enc [of c] to_char_uc [of d] enc_ascii [OF that] by metis

lemma enc_CHR: "enc c = 60 \<longleftrightarrow> c = CHR ''<''" "enc c = 62 \<longleftrightarrow> c = CHR ''>''" "enc c = 47 \<longleftrightarrow> c = CHR ''/''"
  "enc c = 33 \<longleftrightarrow> c = CHR ''!''" "enc c = 45 \<longleftrightarrow> c = CHR ''-''" "enc c = 61 \<longleftrightarrow> c = CHR ''=''"
  "enc c = 38 \<longleftrightarrow> c = CHR ''&''" "enc c = 59 \<longleftrightarrow> c = CHR '';''" "enc c = 63 \<longleftrightarrow> c = CHR ''?''"
  "enc c = 58 \<longleftrightarrow> c = CHR '':''" "enc c = 32 \<longleftrightarrow> c = CHR '' ''" "enc c = 34 \<longleftrightarrow> c = CHR 0x22"
  "enc c = 39 \<longleftrightarrow> c = CHR 0x27"
  using enc_eq [of "CHR ''<''"] enc_eq [of "CHR ''>''"] enc_eq [of "CHR ''/''"] enc_eq [of "CHR ''!''"]
    enc_eq [of "CHR ''-''"] enc_eq [of "CHR ''=''"] enc_eq [of "CHR ''&''"] enc_eq [of "CHR '';''"]
    enc_eq [of "CHR ''?''"] enc_eq [of "CHR '':''"] enc_eq [of "CHR '' ''"] enc_eq [of "CHR 0x22"]
    enc_eq [of "CHR 0x27"] by (simp_all add: uc_CHR)

lemma enc_alnum [simp]: "isalnum (enc c) = isalnum (uc c)"
proof (cases "uc c < 128")
  case False
  then have "\<not> isalnum (uc c)" "\<not> isalnum (sc c)"
    using isalnum_range [of "uc c"] isalnum_range [of "sc c"] uc_bounds [of c] by (auto simp: sc_def)
  with enc_char [of c] show ?thesis by auto
qed (simp add: enc_ascii)

lemma enc_space [simp]: "isspace (enc c) = isspace (uc c)"
proof (cases "uc c < 128")
  case False
  then have "\<not> isspace (uc c)" "\<not> isspace (sc c)"
    using uc_bounds [of c] by (auto simp: sc_def isspace_range)
  with enc_char [of c] show ?thesis by auto
qed (simp add: enc_ascii)

text \<open>\<open>s\<close> is what the filters will deliver: from the source, or first a character put back.\<close>

definition ready :: "string \<Rightarrow> xml_state \<Rightarrow> bool" where
  "ready s st \<longleftrightarrow> (case st of (p, xml, w) \<Rightarrow> regs_of p = xml_regs \<and> valid p \<and> plenty w
     \<and> (p_lookahead p = 0 \<and> x_inject xml = None \<and> input p = map enc s
       \<or> (\<exists>c s'. s = c # s' \<and> p_lookahead p = 1 \<and> x_inject xml = Some [c] \<and> input p = map enc s' \<and> lead c)))"

fun first_char :: "string \<Rightarrow> int" where
  "first_char [] = EOF"
| "first_char (c # s) = enc c"

text \<open>\<open>s\<close> is the text not yet used, its first character is scanned.\<close>

definition scanned :: "string \<Rightarrow> xml_state \<Rightarrow> bool" where
  "scanned s st \<longleftrightarrow> (case st of (p, xml, w) \<Rightarrow> p_last p = first_char s \<and> plain s
     \<and> (if s = [] then ended p \<and> regs_of p = xml_regs \<and> plenty w \<and> x_inject xml = None \<and> p_lookahead p = 0
        else ready (tl s) st))"

lemma run_scanner_char:
  "parser_scan p = Some (x, q) \<Longrightarrow> x \<noteq> EOF \<Longrightarrow> run_scanner p = Some (0, x, q)"
  by (auto simp: parser_scan_def split: bind_splits if_splits)

lemma xml_scan_run:
  assumes "regs_of p = xml_regs"
  shows "xml_scan (p, xml, w) =
    do { (r, c, p1) \<leftarrow> (if p_lookahead p \<noteq> 0 then Some (0, p_last p, p\<lparr>p_lookahead := p_lookahead p - 1\<rparr>)
                         else run_scanner p);
         if r \<noteq> 0 then Some (EOF, p1, xml, w)
         else do { (oc, p2, st') \<leftarrow> run_filters xml_filters [(F_INJECT, 0), (F_COMMENT, 0)] c p1 (xml, w);
                   Some (case oc of None \<Rightarrow> (EOF, p2, st') | Some c' \<Rightarrow> (c', p2\<lparr>p_last := c'\<rparr>, st')) } }"
proof -
  have f: "p_filters p = [(F_INJECT, 0), (F_COMMENT, 0)]" "p_filters_cnt p = 2"
    using assms by (simp_all add: regs_of_def xml_regs_def)
  show ?thesis
    using parser_scan_filter_run [OF keeps_xml_filters, of p "(xml, w)", unfolded f]
    unfolding xml_scan_def prod.case by simp
qed

lemmas filter_defs = xml_filters_def xml_filter_inject_def xml_filter_comment_def F_INJECT_def F_COMMENT_def
  F_WHITESPACE_def

lemma source_char:
  assumes "valid p" "input p = map enc (c # s)" "c \<noteq> CHR 0xFF"
  shows "\<exists>q. parser_scan p = Some (enc c, q) \<and> run_scanner p = Some (0, enc c, q) \<and> valid q
    \<and> input q = map enc s \<and> regs_of q = regs_of p \<and> p_lookahead q = p_lookahead p"
proof -
  from scan_Cons [OF assms(1), of "enc c" "map enc s"] assms(2) obtain q where
    q: "parser_scan p = Some (enc c, q)" "valid q" "input q = map enc s" by auto
  from assms(3) enc_EOF have "enc c \<noteq> EOF" by blast
  with q run_scanner_char [OF q(1)] parser_scan_regs [OF q(1)] show ?thesis by blast
qed

text \<open>Skipping a comment: \<open>i\<close> dashes are behind us.\<close>

lemma comment_skip_ok:
  assumes "valid p" "body @ ''-->'' @ rest = c # s" "input p = map enc s" "CHR 0xFF \<notin> set (c # s)"
    and "\<not> sublist ''-->'' (replicate i CHR ''-'' @ body)"
  shows "\<exists>q. comment_skip (enc c) i p = Some q \<and> valid q \<and> input q = map enc rest"
  using assms
proof (induction body arbitrary: c s i p)
  case Nil
  then have s: "c = CHR ''-''" "s = CHR ''-'' # CHR ''>'' # rest" by auto
  from source_char [OF Nil(1), of "CHR ''-''" "CHR ''>'' # rest"] Nil(3) s obtain p1 where
    p1: "parser_scan p = Some (enc CHR ''-'', p1)" "valid p1" "input p1 = map enc (CHR ''>'' # rest)" by auto
  from source_char [OF p1(2,3)] obtain p2 where
    p2: "parser_scan p1 = Some (enc CHR ''>'', p2)" "valid p2" "input p2 = map enc rest" by auto
  have enc: "enc CHR ''-'' = 45" "enc CHR ''>'' = 62" by (simp_all add: enc_CHR)
  have "comment_skip 62 (Suc (Suc i)) p2 = Some p2"
    by (subst comment_skip.simps) (simp add: uc_CHR EOF_def)
  with p2(1) enc have "comment_skip 45 (Suc i) p1 = Some p2"
    by (subst comment_skip.simps) (simp add: uc_CHR EOF_def)
  with p1(1) enc have "comment_skip 45 i p = Some p2"
    by (subst comment_skip.simps) (simp add: uc_CHR EOF_def)
  with p2 s(1) enc show ?case by auto
next
  case (Cons b body)
  then have c: "c = b" "s = body @ ''-->'' @ rest" by simp_all
  have "s \<noteq> []" using c(2) by simp
  then obtain d s' where s: "s = d # s'" by (cases s) simp_all
  from source_char [OF Cons.prems(1), of d s'] Cons.prems(3,4) s obtain p1 where
    p1: "parser_scan p = Some (enc d, p1)" "valid p1" "input p1 = map enc s'" by auto
  have step: "\<exists>q. comment_skip (enc d) j p1 = Some q \<and> valid q \<and> input q = map enc rest"
    if "\<not> sublist ''-->'' (replicate j CHR ''-'' @ body)" for j
    by (rule Cons.IH [OF p1(2) trans [OF c(2) [symmetric] s] p1(3) _ that]) (use Cons.prems(4) s in simp)
  have c_EOF: "enc c \<noteq> EOF" using Cons.prems(4) enc_EOF by auto
  show ?case
  proof (cases "c = CHR ''-''")
    case True
    then have "replicate i CHR ''-'' @ b # body = replicate (Suc i) CHR ''-'' @ body"
      using c(1) by (simp add: replicate_app_Cons_same)
    with step [of "Suc i"] Cons.prems(5) True c_EOF p1(1) show ?thesis
      by (subst comment_skip.simps) (simp add: enc_CHR uc_CHR)
  next
    case False
    have "\<not> sublist ''-->'' body"
      using Cons.prems(5) by (meson sublist_appendI sublist_order.order_trans sublist_append_leftI sublist_Cons_right)
    moreover have "\<not> (i \<ge> 2 \<and> c = CHR ''>'')"
    proof
      assume a: "i \<ge> 2 \<and> c = CHR ''>''"
      then have "replicate i CHR ''-'' = replicate (i - 2) CHR ''-'' @ ''--''"
        by (metis le_add_diff_inverse2 numeral_2_eq_2 replicate_add replicate_Suc replicate_0)
      with a c(1) Cons.prems(5) show False by (simp add: sublist_def) (metis append_Cons append_Nil append_assoc)
    qed
    ultimately show ?thesis using step [of 0] False c_EOF p1(1)
      by (subst comment_skip.simps) (auto simp: enc_CHR uc_CHR)
  qed
qed

lemma comment_filter_ok:
  assumes "valid p" "input p = map enc (''!--'' @ body @ ''-->'' @ d # rest)" "\<not> sublist ''-->'' body"
    and "CHR 0xFF \<notin> set (body @ d # rest)"
  shows "\<exists>q. xml_filter_comment 60 (p, xml, w) = Some (0, enc d, q, xml, w) \<and> valid q \<and> input q = map enc rest"
proof -
  from source_char [OF assms(1), of "CHR ''!''" "''--'' @ body @ ''-->'' @ d # rest"] assms(2) obtain p1 where
    p1: "parser_scan p = Some (enc CHR ''!'', p1)" "valid p1" "input p1 = map enc (''--'' @ body @ ''-->'' @ d # rest)"
    by auto
  from source_char [OF p1(2), of "CHR ''-''" "''-'' @ body @ ''-->'' @ d # rest"] p1(3) obtain p2 where
    p2: "parser_scan p1 = Some (enc CHR ''-'', p2)" "valid p2" "input p2 = map enc (''-'' @ body @ ''-->'' @ d # rest)"
    by auto
  from source_char [OF p2(2), of "CHR ''-''" "body @ ''-->'' @ d # rest"] p2(3) obtain p3 where
    p3: "parser_scan p2 = Some (enc CHR ''-'', p3)" "valid p3" "input p3 = map enc (body @ ''-->'' @ d # rest)"
    by auto
  obtain c s where s: "body @ ''-->'' @ d # rest = c # s" by (cases "body @ ''-->'' @ d # rest") auto
  have ff: "CHR 0xFF \<notin> set (c # s)" using assms(4) unfolding s [symmetric] by auto
  from source_char [OF p3(2) p3(3) [unfolded s]] ff obtain p4 where
    p4: "parser_scan p3 = Some (enc c, p4)" "valid p4" "input p4 = map enc s" by auto
  from comment_skip_ok [OF p4(2) s p4(3) ff, of 0] assms(3) obtain p5 where
    p5: "comment_skip (enc c) 0 p4 = Some p5" "valid p5" "input p5 = map enc (d # rest)" by auto
  from source_char [OF p5(2,3)] assms(4) obtain p6 where
    p6: "parser_scan p5 = Some (enc d, p6)" "valid p6" "input p6 = map enc rest" by auto
  have "enc CHR ''!'' = 33" "enc CHR ''-'' = 45" "sc CHR ''!'' = 33" "sc CHR ''-'' = 45"
    by (simp_all add: enc_CHR sc_ascii uc_CHR)
  with p1(1) p2(1) p3(1) p4(1) p5(1) p6 show ?thesis by (simp add: xml_filter_comment_def uc_CHR)
qed

lemma scan_char:
  assumes "ready (c # s) (p, xml, w)" "plain (c # s)"
  shows "\<exists>st'. xml_scan (p, xml, w) = Some (enc c, st') \<and> ready s st' \<and> p_last (fst st') = enc c
    \<and> doc_of st' = xml\<lparr>x_inject := None\<rparr>"
proof -
  from assms(1) have regs: "regs_of p = xml_regs" and v: "valid p" and w: "plenty w" by (auto simp: ready_def)
  from assms(2) have ff: "c \<noteq> CHR 0xFF" by simp
  have "p_lookahead p = 0 \<and> x_inject xml = None \<and> input p = map enc (c # s)
      \<or> p_lookahead p = 1 \<and> x_inject xml = Some [c] \<and> input p = map enc s \<and> lead c"
    using assms(1) by (auto simp: ready_def)
  then show ?thesis
  proof
    assume a: "p_lookahead p = 0 \<and> x_inject xml = None \<and> input p = map enc (c # s)"
    with source_char [OF v _ ff] obtain q where q: "run_scanner p = Some (0, enc c, q)" "valid q"
      "input q = map enc s" "regs_of q = xml_regs" "p_lookahead q = 0" using regs by metis
    show ?thesis
    proof (cases "c = CHR ''<''")
      case False
      then have "enc c \<noteq> uc CHR ''<''" by (simp add: enc_CHR uc_CHR)
      with a q w show ?thesis
        by (simp add: xml_scan_run [OF regs] filter_defs ready_def update_last update_lookahead doc_of_def)
    next
      case True
      with assms(2) obtain d s' where s: "s = d # s'" "lead d" "d \<noteq> CHR 0xFF" by (cases s) auto
      with source_char [OF q(2), of d s'] q obtain q' where q': "parser_scan q = Some (enc d, q')" "valid q'"
        "input q' = map enc s'" "regs_of q' = xml_regs" "p_lookahead q' = 0" by auto
      from lead_range [OF s(2)] have d: "enc d \<noteq> 33" "d \<noteq> NUL" "to_char (enc d) = d" "enc d = uc d"
        by (auto simp: enc_ascii)
      obtain w' where w': "string_new (Some [d]) w = (Some [d], w')" "plenty w'"
        using string_new_ok [OF w] by blast
      from True have "enc c = uc CHR ''<''" by (simp add: enc_CHR uc_CHR)
      with a q q' w' d s show ?thesis
        by (simp add: xml_scan_run [OF regs] filter_defs ready_def update_last update_lookahead doc_of_def
            sc_ascii uc_CHR c_string_def xml_inject_def)
    qed
  next
    assume b: "p_lookahead p = 1 \<and> x_inject xml = Some [c] \<and> input p = map enc s \<and> lead c"
    with lead_range [of c] have "sc c = enc c" "enc c \<noteq> uc CHR ''<''"
      by (auto simp: sc_ascii enc_ascii uc_CHR)
    with b v w regs show ?thesis
      by (simp add: xml_scan_run [OF regs] filter_defs ready_def update_last update_lookahead doc_of_def Let_def)
  qed
qed

lemma scan_EOF:
  assumes "ready [] (p, xml, w)"
  shows "\<exists>q. xml_scan (p, xml, w) = Some (EOF, q, xml, w) \<and> p_last q = EOF \<and> ended q \<and> regs_of q = xml_regs
    \<and> p_lookahead q = 0"
proof -
  from assms have a: "regs_of p = xml_regs" "valid p" "p_lookahead p = 0" "x_inject xml = None" "input p = []"
    by (auto simp: ready_def)
  from scan_Nil [OF a(2,5)] obtain q where q: "parser_scan p = Some (EOF, q)" "p_last q = EOF" by blast
  then obtain r c where run: "run_scanner p = Some (r, c, q)" "r = 0 \<longrightarrow> c = EOF"
    by (auto simp: parser_scan_def split: bind_splits if_splits)
  have "EOF \<noteq> uc CHR ''<''" by (simp add: EOF_def uc_CHR)
  with a q run scan_end [OF a(2,5) q(1)] parser_scan_regs [OF q(1)] show ?thesis
    by (cases "r = 0") (simp_all add: xml_scan_run [OF a(1)] filter_defs update_last update_lookahead)
qed

lemma scan_ready:
  assumes "ready s st" "plain s"
  shows "\<exists>st'. xml_scan st = Some (first_char s, st') \<and> scanned s st' \<and> doc_of st' = doc_of st"
proof -
  obtain p xml w where st: "st = (p, xml, w)" by (cases st)
  show ?thesis
  proof (cases s)
    case Nil
    with assms(1) st have "x_inject xml = None" "plenty w" by (auto simp: ready_def)
    with Nil scan_EOF [of p xml w] assms(1) st show ?thesis
      by (auto simp: scanned_def doc_of_def)
  next
    case (Cons c s')
    with scan_char [of c s' p xml w] assms st obtain st' where
      "xml_scan (p, xml, w) = Some (enc c, st')" "ready s' st'" "p_last (fst st') = enc c"
      "doc_of st' = xml\<lparr>x_inject := None\<rparr>" by blast
    moreover obtain p' xml' w' where "st' = (p', xml', w')" by (cases st')
    ultimately show ?thesis using Cons st assms(2) by (auto simp: scanned_def doc_of_def)
  qed
qed

lemma scanned_ready: "scanned (c # s) st \<Longrightarrow> ready s st \<and> plain s"
  by (auto simp: scanned_def)

lemma scan_next:
  "scanned (c # s) st \<Longrightarrow> \<exists>st'. xml_scan st = Some (first_char s, st') \<and> scanned s st' \<and> doc_of st' = doc_of st"
  using scan_ready scanned_ready by blast

lemma scanned_world:
  "scanned s (p, xml, w) \<Longrightarrow> plenty w' \<Longrightarrow> scanned s (p, xml, w')"
  by (auto simp: scanned_def ready_def)

lemma scanned_plenty: "scanned s (p, xml, w) \<Longrightarrow> plenty w"
  by (auto simp: scanned_def ready_def split: if_splits)

lemma scanned_last: "scanned s (p, xml, w) \<Longrightarrow> p_last p = first_char s"
  by (simp add: scanned_def)

lemma scanned_doc:
  "scanned s (p, xml, w) \<Longrightarrow> x_inject xml' = x_inject xml \<Longrightarrow> scanned s (p, xml', w)"
  by (auto simp: scanned_def ready_def)

lemma scanned_set_context [simp]: "scanned s (set_context c st) = scanned s st"
  by (auto simp: scanned_def ready_def set_context_def split: prod.splits)

lemma alloc_ok:
  assumes "scanned s (p, xml, w)"
  obtains w' where "w_alloc w = (True, w')" "scanned s (p, xml, w')"
  using w_alloc_plenty [OF scanned_plenty [OF assms]] scanned_world [OF assms] by blast

lemma accept_ok:
  assumes "scanned s st" "NUL \<notin> set str"
  shows "\<exists>st'. accept code str token st = Some (0, filled code str token, st') \<and> scanned s st' \<and> doc_of st' = doc_of st"
proof -
  obtain p xml w where st: "st = (p, xml, w)" by (cases st)
  obtain w' where "string_new (Some str) w = (Some str, w')" "plenty w'"
    using string_new_ok scanned_plenty assms(1) st by blast
  with assms scanned_world [of s p xml w w'] show ?thesis
    by (simp add: st accept_def set_token_def token_set_string_def token_set_code_def c_string_plain filled_def doc_of_def)
qed

lemma collect_ok:
  assumes "scanned (s @ t) st" "\<forall>c \<in> set s. cond (enc c)" "\<not> cond (first_char t)"
  shows "\<exists>st'. collect cond acc (first_char (s @ t)) st = Some (Some (acc @ s, first_char t), st')
    \<and> scanned t st' \<and> doc_of st' = doc_of st"
  using assms
proof (induction s arbitrary: acc st)
  case Nil
  then show ?case by (cases st) (subst collect.simps, simp)
next
  case (Cons c s)
  obtain p xml w where st: "st = (p, xml, w)" by (cases st)
  from Cons.prems(1) obtain w' where w': "w_alloc w = (True, w')" "scanned (c # s @ t) (p, xml, w')"
    unfolding st append_Cons by (rule alloc_ok)
  from scan_next [OF w'(2)] obtain st1 where
    st1: "xml_scan (p, xml, w') = Some (first_char (s @ t), st1)" "scanned (s @ t) st1" "doc_of st1 = doc_of st"
    by (auto simp: doc_of_def st)
  from Cons.IH [OF st1(2), of "acc @ [c]"] Cons.prems(2,3) obtain st' where
    "collect cond (acc @ [c]) (first_char (s @ t)) st1 = Some (Some (acc @ c # s, first_char t), st')"
    "scanned t st'" "doc_of st' = doc_of st" using st1(3) by auto
  with Cons.prems(2) w'(1) st1(1) show ?case by (subst collect.simps) (simp add: st)
qed

lemma data_loop_ok:
  assumes "s \<noteq> []" "scanned (s @ t) st" "CHR ''<'' \<notin> set s" "CHR ''&'' \<notin> set s" "CHR 0xFF \<notin> set s"
    and "t = [] \<or> hd t = CHR ''<'' \<or> hd t = CHR ''&''"
  shows "\<exists>st'. data_loop acc (first_char (s @ t)) st = Some (Some (acc @ s), st')
    \<and> scanned t st' \<and> doc_of st' = doc_of st"
  using assms(1-5)
proof (induction s arbitrary: acc st rule: list_nonempty_induct)
  case (single c)
  obtain p xml w where st: "st = (p, xml, w)" by (cases st)
  from single(1) obtain w' where w': "w_alloc w = (True, w')" "scanned (c # t) (p, xml, w')"
    unfolding st append_Cons append_Nil by (rule alloc_ok)
  from scan_next [OF w'(2)] obtain st1 where
    st1: "xml_scan (p, xml, w') = Some (first_char t, st1)" "scanned t st1" "doc_of st1 = doc_of st"
    by (auto simp: doc_of_def st)
  have "data_loop (acc @ [c]) (first_char t) st1 = Some (Some (acc @ [c]), st1)" if "first_char t \<noteq> 38"
    using assms(6) that by (cases t; cases st1) (subst data_loop.simps, simp add: enc_CHR uc_CHR)+
  moreover have "enc c \<noteq> EOF" "enc c \<noteq> 60" using single(4,2) enc_EOF by (auto simp: enc_CHR)
  ultimately have "data_loop acc (first_char ([c] @ t)) st = Some (Some (acc @ [c]), st1)"
    using w'(1) st1 by (subst data_loop.simps) (simp add: st uc_CHR)
  with st1(2,3) show ?case by blast
next
  case (cons c s)
  obtain p xml w where st: "st = (p, xml, w)" by (cases st)
  from cons.prems(1) obtain w' where w': "w_alloc w = (True, w')" "scanned (c # s @ t) (p, xml, w')"
    unfolding st append_Cons by (rule alloc_ok)
  from scan_next [OF w'(2)] obtain st1 where
    st1: "xml_scan (p, xml, w') = Some (first_char (s @ t), st1)" "scanned (s @ t) st1" "doc_of st1 = doc_of st"
    by (auto simp: doc_of_def st)
  from cons.IH [OF st1(2), of "acc @ [c]"] cons.prems(2-4) obtain st' where
    "data_loop (acc @ [c]) (first_char (s @ t)) st1 = Some (Some (acc @ c # s), st')"
    "scanned t st'" "doc_of st' = doc_of st" using st1(3) by auto
  moreover have "enc c \<noteq> EOF" "enc c \<noteq> 60" using cons.prems(2,4) enc_EOF by (auto simp: enc_CHR)
  moreover have "first_char (s @ t) \<noteq> 38" using cons.hyps cons.prems(3) by (cases s) (auto simp: enc_CHR)
  ultimately show ?case using w'(1) st1 by (subst data_loop.simps) (simp add: st uc_CHR)
qed

lemma entity_loop_ok:
  assumes "scanned (s @ CHR '';'' # t) st" "CHR ''<'' \<notin> set s" "CHR '';'' \<notin> set s" "CHR 0xFF \<notin> set s"
  shows "\<exists>st'. entity_loop acc (first_char (s @ CHR '';'' # t)) st = Some (Some (acc @ s), st')
    \<and> scanned t st' \<and> doc_of st' = doc_of st"
  using assms
proof (induction s arbitrary: acc st)
  case Nil
  obtain p xml w where st: "st = (p, xml, w)" by (cases st)
  from Nil(1) obtain w' where w': "w_alloc w = (True, w')" "scanned (CHR '';'' # t) (p, xml, w')"
    unfolding st append_Nil by (rule alloc_ok)
  have "enc CHR '';'' = 59" by (simp add: enc_CHR)
  with scan_next [OF w'(2)] w'(1) to_char_enc [of "CHR '';''"] show ?case
    by (subst entity_loop.simps) (auto simp: st uc_CHR EOF_def doc_of_def)
next
  case (Cons c s)
  obtain p xml w where st: "st = (p, xml, w)" by (cases st)
  from Cons.prems(1) obtain w' where
    w': "w_alloc w = (True, w')" "scanned (c # s @ CHR '';'' # t) (p, xml, w')"
    unfolding st append_Cons by (rule alloc_ok)
  from scan_next [OF w'(2)] obtain st1 where
    st1: "xml_scan (p, xml, w') = Some (first_char (s @ CHR '';'' # t), st1)" "scanned (s @ CHR '';'' # t) st1"
      "doc_of st1 = doc_of st"
    by (auto simp: doc_of_def st)
  from Cons.IH [OF st1(2), of "acc @ [c]"] Cons.prems(2-4) obtain st' where
    "entity_loop (acc @ [c]) (first_char (s @ CHR '';'' # t)) st1 = Some (Some (acc @ c # s), st')"
    "scanned t st'" "doc_of st' = doc_of st" using st1(3) by auto
  moreover have "enc c \<noteq> EOF" "enc c \<noteq> 60" "c \<noteq> CHR '';''"
    using Cons.prems(2,3,4) enc_EOF by (auto simp: enc_CHR)
  ultimately show ?case using w'(1) st1(1) by (subst entity_loop.simps) (simp add: st uc_CHR)
qed

lemma space_loop_ok:
  assumes "scanned (CHR '' '' # t) st" "\<not> isspace (first_char t)"
  shows "\<exists>st'. space_loop (enc CHR '' '') st = Some st' \<and> scanned t st' \<and> doc_of st' = doc_of st"
proof -
  from scan_next [OF assms(1)] obtain st1 where
    st1: "xml_scan st = Some (first_char t, st1)" "scanned t st1" "doc_of st1 = doc_of st" by blast
  moreover have "space_loop (first_char t) st1 = Some st1"
    using assms(2) by (subst space_loop.simps) simp
  moreover have "isspace (enc CHR '' '')" by (simp add: isspace_range enc_CHR)
  ultimately have "space_loop (enc CHR '' '') st = Some st1" by (subst space_loop.simps) simp
  with st1(2,3) show ?thesis by blast
qed

text \<open>What the callbacks make of the text before them, one lemma for each kind of token.\<close>

definition gives :: "xml_state \<Rightarrow> Token \<Rightarrow> XMLCode \<Rightarrow> string \<Rightarrow> string \<Rightarrow> XML \<Rightarrow> bool" where
  "gives st token code str t xml \<longleftrightarrow>
     (\<exists>st'. offer xml_callback_list token st = Some (Some 0, filled code str token, st')
       \<and> scanned t st' \<and> doc_of st' = xml)"

lemma scanned_p_last: "scanned s st \<Longrightarrow> p_last (fst st) = first_char s"
  by (cases st) (simp add: scanned_last)

lemma char_token:
  assumes "scanned (c # t) st" "NUL \<notin> set str"
  obtains st1 st' where "xml_scan st = Some (first_char t, st1)"
    "accept code str token st1 = Some (0, filled code str token, st')" "scanned t st'" "doc_of st' = doc_of st"
proof -
  from scan_next [OF assms(1)] obtain st1 where
    "xml_scan st = Some (first_char t, st1)" "scanned t st1" "doc_of st1 = doc_of st" by blast
  with accept_ok [OF _ assms(2)] that show thesis by metis
qed

lemma char_token_context:
  assumes "scanned (c # t) st" "NUL \<notin> set str"
  obtains st1 st' where "xml_scan st = Some (first_char t, st1)"
    "accept code str token (set_context ctx st1) = Some (0, filled code str token, st')"
    "scanned t st'" "doc_of st' = (doc_of st)\<lparr>x_context := ctx\<rparr>"
proof -
  from scan_next [OF assms(1)] obtain st1 where
    st1: "xml_scan st = Some (first_char t, st1)" "scanned t st1" "doc_of st1 = doc_of st" by blast
  then have "scanned t (set_context ctx st1)" "doc_of (set_context ctx st1) = (doc_of st)\<lparr>x_context := ctx\<rparr>"
    by simp_all
  with accept_ok [OF _ assms(2)] that st1(1) show thesis by metis
qed

lemma token_enter:
  assumes "scanned (CHR ''<'' # t) st" "x_context (doc_of st) = XML_CONTEXT_DATA"
  shows "gives st token XML_CODE_TAG_ENTER ''<'' t ((doc_of st)\<lparr>x_context := XML_CONTEXT_TAG\<rparr>)"
proof -
  obtain st1 st' where "xml_scan st = Some (first_char t, st1)"
    "accept XML_CODE_TAG_ENTER ''<'' token (set_context XML_CONTEXT_TAG st1) = Some (0, filled XML_CODE_TAG_ENTER ''<'' token, st')"
    "scanned t st'" "doc_of st' = (doc_of st)\<lparr>x_context := XML_CONTEXT_TAG\<rparr>"
    by (rule char_token_context [OF assms(1), where str = "''<''" and code = XML_CODE_TAG_ENTER and token = token
          and ctx = XML_CONTEXT_TAG]) (simp, erule (3) that)
  moreover have "enc CHR ''<'' = 60" by (simp add: enc_CHR)
  ultimately have "offer xml_callback_list token st = Some (Some 0, filled XML_CODE_TAG_ENTER ''<'' token, st')"
    using assms scanned_p_last [OF assms(1)]
    by (simp add: xml_callback_list_def declines xml_callback_tag_enter_def get_context_doc uc_CHR)
  with \<open>scanned t st'\<close> \<open>doc_of st' = _\<close> show ?thesis unfolding gives_def by blast
qed

lemma token_leave:
  assumes "scanned (CHR ''>'' # t) st" "x_context (doc_of st) \<noteq> XML_CONTEXT_DATA"
  shows "gives st token XML_CODE_TAG_LEAVE ''>'' t ((doc_of st)\<lparr>x_context := XML_CONTEXT_DATA\<rparr>)"
proof -
  obtain st1 st' where "xml_scan st = Some (first_char t, st1)"
    "accept XML_CODE_TAG_LEAVE ''>'' token (set_context XML_CONTEXT_DATA st1) = Some (0, filled XML_CODE_TAG_LEAVE ''>'' token, st')"
    "scanned t st'" "doc_of st' = (doc_of st)\<lparr>x_context := XML_CONTEXT_DATA\<rparr>"
    by (rule char_token_context [OF assms(1), where str = "''>''" and code = XML_CODE_TAG_LEAVE and token = token
          and ctx = XML_CONTEXT_DATA]) (simp, erule (3) that)
  moreover have "enc CHR ''>'' = 62" "\<not> isspace 62" "\<not> isalnum 62"
    by (auto simp: enc_CHR isspace_range dest: isalnum_range)
  ultimately have "offer xml_callback_list token st = Some (Some 0, filled XML_CODE_TAG_LEAVE ''>'' token, st')"
    using assms scanned_p_last [OF assms(1)]
    by (simp add: xml_callback_list_def declines xml_callback_tag_leave_def in_tag_doc uc_CHR)
  with \<open>scanned t st'\<close> \<open>doc_of st' = _\<close> show ?thesis unfolding gives_def by blast
qed

lemma token_close:
  assumes "scanned (CHR ''/'' # t) st" "x_context (doc_of st) \<noteq> XML_CONTEXT_DATA"
  shows "gives st token XML_CODE_TAG_CLOSE ''/'' t (doc_of st)"
proof -
  obtain st1 st' where "xml_scan st = Some (first_char t, st1)"
    "accept XML_CODE_TAG_CLOSE ''/'' token st1 = Some (0, filled XML_CODE_TAG_CLOSE ''/'' token, st')"
    "scanned t st'" "doc_of st' = doc_of st"
    by (rule char_token [OF assms(1), where str = "''/''" and code = XML_CODE_TAG_CLOSE and token = token])
      (simp, erule (3) that)
  moreover have "enc CHR ''/'' = 47" "\<not> isspace 47" "\<not> isalnum 47"
    by (auto simp: enc_CHR isspace_range dest: isalnum_range)
  ultimately have "offer xml_callback_list token st = Some (Some 0, filled XML_CODE_TAG_CLOSE ''/'' token, st')"
    using assms scanned_p_last [OF assms(1)]
    by (simp add: xml_callback_list_def declines xml_callback_tag_close_def in_tag_doc uc_CHR)
  with \<open>scanned t st'\<close> \<open>doc_of st' = _\<close> show ?thesis unfolding gives_def by blast
qed

lemma givesI:
  "offer xml_callback_list token st = Some (Some 0, filled code str token, st') \<Longrightarrow> scanned t st' \<Longrightarrow>
   doc_of st' = xml \<Longrightarrow> gives st token code str t xml"
  unfolding gives_def by blast

lemma token_name:
  assumes "scanned (n @ t) st" "tag_name n" "x_context (doc_of st) = XML_CONTEXT_TAG"
    and "t = [] \<or> hd t = CHR ''>'' \<or> hd t = CHR ''/'' \<or> hd t = CHR '' ''"
  shows "gives st token XML_CODE_TAG_NAME n t ((doc_of st)\<lparr>x_context := XML_CONTEXT_TAG_ATTRIBUTES\<rparr>)"
proof -
  let ?cond = "\<lambda>c. c \<noteq> EOF \<and> c \<noteq> uc CHR ''<'' \<and> c \<noteq> uc CHR ''!'' \<and> c \<noteq> uc CHR ''?'' \<and> c \<noteq> uc CHR ''/''
    \<and> c \<noteq> uc CHR ''='' \<and> c \<noteq> uc CHR ''>'' \<and> \<not> isspace c"
  obtain c n' where n: "n = c # n'" "isalnum (uc c)" "\<forall>c \<in> set n. name_char c"
    using assms(2) by (cases n) (auto simp: tag_name_def)
  obtain p xml w where st: "st = (p, xml, w)" by (cases st)
  from assms(1) obtain w' where w': "w_alloc w = (True, w')" "scanned (c # n' @ t) (p, xml, w')"
    unfolding st n(1) append_Cons by (rule alloc_ok)
  from scan_next [OF w'(2)] obtain st1 where
    st1: "xml_scan (p, xml, w') = Some (first_char (n' @ t), st1)" "scanned (n' @ t) st1" "doc_of st1 = doc_of st"
    by (auto simp: doc_of_def st)
  have name: "?cond (enc d)" if "name_char d" for d
    using that enc_EOF [of d] by (auto simp: name_char_def uc_CHR enc_CHR)
  have stop: "\<not> ?cond (first_char t)"
  proof (cases t)
    case (Cons a u)
    with assms(4) consider "a = CHR ''>''" | "a = CHR ''/''" | "a = CHR '' ''" by auto
    then show ?thesis by cases (simp_all add: Cons enc_CHR uc_CHR isspace_range)
  qed simp
  have all: "\<forall>d \<in> set n'. ?cond (enc d)" using n(1,3) name by simp
  from collect_ok [where cond = ?cond and acc = "[c]", OF st1(2) all stop] obtain st2 where
    st2: "collect ?cond [c] (first_char (n' @ t)) st1 = Some (Some ([c] @ n', first_char t), st2)" "scanned t st2"
      "doc_of st2 = doc_of st" unfolding st1(3) by blast
  have "NUL \<notin> set n" using n(3) by (auto simp: name_char_def)
  from accept_ok [OF st2(2) this] st2(3) obtain st3 where
    st3: "accept XML_CODE_TAG_NAME n token st2 = Some (0, filled XML_CODE_TAG_NAME n token, st3)" "scanned t st3"
      "doc_of st3 = doc_of st" by metis
  have "p_last (fst st) = enc c" using scanned_p_last [OF assms(1)] n(1) by simp
  with n(2) assms(3) w'(1) st1(1) st2(1) st3(1) alnum_not [of "enc c"]
  have "offer xml_callback_list token st =
      Some (Some 0, filled XML_CODE_TAG_NAME n token, set_context XML_CONTEXT_TAG_ATTRIBUTES st3)"
    by (simp add: xml_callback_list_def declines xml_callback_tag_name_def get_context_doc n(1) [symmetric])
      (simp add: st n(1))
  then show ?thesis by (rule givesI) (simp_all add: st3)
qed

lemma token_attribute:
  assumes "scanned (CHR '' '' # k @ CHR ''='' # t) st" "attribute_name k"
    and "x_context (doc_of st) = XML_CONTEXT_TAG_ATTRIBUTES"
  shows "gives st token XML_CODE_TAG_ATTRIBUTE k (CHR ''='' # t)
    ((doc_of st)\<lparr>x_context := XML_CONTEXT_TAG_ATTRIBUTES_VALUE\<rparr>)"
proof -
  let ?cond = "\<lambda>c. c \<noteq> EOF \<and> (isalnum c \<or> c = uc CHR '':'' \<or> c = uc CHR ''-'' \<or> (0 :: int) \<noteq> 0 \<and> c \<noteq> 0)"
  obtain c k' where k: "k = c # k'" "isalnum (uc c)"
    using assms(2) by (cases k) (auto simp: attribute_name_def)
  with alnum_not [of "enc c"] have c: "enc c \<noteq> 34" "\<not> isspace (uc c)" "enc c \<noteq> 63" "enc c \<noteq> 33" by auto
  with space_loop_ok [OF assms(1)] k obtain st1 where
    st1: "space_loop (enc CHR '' '') st = Some st1" "scanned (k @ CHR ''='' # t) st1" "doc_of st1 = doc_of st"
    by auto
  have chars: "?cond (enc d)" if "d \<in> set k" for d
    using assms(2) that enc_EOF [of d] alnum_char [of d] by (auto simp: attribute_name_def enc_CHR uc_CHR)
  have "enc CHR ''='' = 61" by (simp add: enc_CHR)
  moreover have "\<not> isalnum 61" by (auto dest: isalnum_range)
  ultimately have stop: "\<not> ?cond (first_char (CHR ''='' # t))" by (simp add: uc_CHR)
  from collect_ok [where cond = ?cond and acc = "[]", OF st1(2) ballI stop] chars obtain st2 where
    st2: "collect ?cond [] (first_char (k @ CHR ''='' # t)) st1
        = Some (Some ([] @ k, first_char (CHR ''='' # t)), st2)"
      "scanned (CHR ''='' # t) st2" "doc_of st2 = doc_of st" unfolding st1(3) by blast
  have "NUL \<notin> set k"
    using assms(2) alnum_char [of NUL] by (auto simp: attribute_name_def)
  from accept_ok [OF st2(2) this] st2(3) obtain st3 where
    st3: "accept XML_CODE_TAG_ATTRIBUTE k token st2 = Some (0, filled XML_CODE_TAG_ATTRIBUTE k token, st3)"
      "scanned (CHR ''='' # t) st3" "doc_of st3 = doc_of st" by metis
  have "p_last (fst st1) = enc c" "p_last (fst st) = 32"
    using scanned_p_last [OF st1(2)] scanned_p_last [OF assms(1)] k(1) by (simp_all add: enc_CHR)
  moreover have "isspace 32" "enc CHR '' '' = 32" by (simp_all add: isspace_range enc_CHR)
  ultimately have "offer xml_callback_list token st =
      Some (Some 0, filled XML_CODE_TAG_ATTRIBUTE k token, set_context XML_CONTEXT_TAG_ATTRIBUTES_VALUE st3)"
    using assms(3) st1(1,3) st2(1) st3(1) c k \<open>enc CHR ''='' = 61\<close>
    by (simp add: xml_callback_list_def declines xml_callback_tag_whitespace_def xml_callback_tag_attribute_def
        get_context_doc in_tag_doc decline_def uc_CHR)
  then show ?thesis by (rule givesI) (simp_all add: st3)
qed

lemma token_value:
  assumes "scanned (CHR ''='' # CHR 0x22 # v @ CHR 0x22 # t) st" "CHR 0x22 \<notin> set v"
    and "NUL \<notin> set v" "CHR 0xFF \<notin> set v" "x_context (doc_of st) = XML_CONTEXT_TAG_ATTRIBUTES_VALUE"
  shows "gives st token XML_CODE_TAG_ATTRIBUTE_VALUE v t ((doc_of st)\<lparr>x_context := XML_CONTEXT_TAG_ATTRIBUTES\<rparr>)"
proof -
  let ?cond = "\<lambda>c. c \<noteq> EOF \<and> ((34 :: int) = 0 \<and> isalnum c \<or> (34 :: int) \<noteq> 0 \<and> c \<noteq> 34)"
  have quote: "enc CHR 0x22 = 34" by (simp add: enc_CHR)
  from scan_next [OF assms(1)] obtain st1 where
    st1: "xml_scan st = Some (34, st1)" "scanned (CHR 0x22 # v @ CHR 0x22 # t) st1" "doc_of st1 = doc_of st"
    using quote by auto
  from scan_next [OF st1(2)] obtain st2 where
    st2: "xml_scan st1 = Some (first_char (v @ CHR 0x22 # t), st2)" "scanned (v @ CHR 0x22 # t) st2"
      "doc_of st2 = doc_of st" using st1(3) by auto
  have all: "\<forall>d \<in> set v. ?cond (enc d)"
  proof
    fix d
    assume "d \<in> set v"
    with assms(2,4) have "d \<noteq> CHR 0x22" "d \<noteq> CHR 0xFF" by auto
    with enc_EOF [of d] show "?cond (enc d)" by (auto simp: enc_CHR)
  qed
  have stop: "\<not> ?cond (first_char (CHR 0x22 # t))" by (simp add: quote)
  from collect_ok [where cond = ?cond and acc = "[]", OF st2(2) all stop] obtain st3 where
    st3: "collect ?cond [] (first_char (v @ CHR 0x22 # t)) st2 = Some (Some ([] @ v, first_char (CHR 0x22 # t)), st3)"
      "scanned (CHR 0x22 # t) st3" "doc_of st3 = doc_of st" unfolding st2(3) by blast
  from scan_next [OF st3(2)] obtain st4 where
    st4: "xml_scan st3 = Some (first_char t, st4)" "scanned t st4" "doc_of st4 = doc_of st" using st3(3) by auto
  from accept_ok [OF st4(2) assms(3)] st4(3) obtain st5 where
    st5: "accept XML_CODE_TAG_ATTRIBUTE_VALUE v token st4 = Some (0, filled XML_CODE_TAG_ATTRIBUTE_VALUE v token, st5)"
      "scanned t st5" "doc_of st5 = doc_of st" by metis
  have "p_last (fst st) = 61" using scanned_p_last [OF assms(1)] by (simp add: enc_CHR)
  moreover have "\<not> isspace 61" by (simp add: isspace_range)
  ultimately have "offer xml_callback_list token st =
      Some (Some 0, filled XML_CODE_TAG_ATTRIBUTE_VALUE v token, set_context XML_CONTEXT_TAG_ATTRIBUTES st5)"
    using assms(5) st1(1) st2(1) st3(1) st4(1) st5(1)
    by (simp add: xml_callback_list_def declines xml_callback_tag_attribute_value_def get_context_doc uc_CHR)
  then show ?thesis by (rule givesI) (simp_all add: st5)
qed

lemma token_data:
  assumes "s \<noteq> []" "scanned (s @ t) st" "CHR ''<'' \<notin> set s" "CHR ''&'' \<notin> set s" "plain s"
    and "t = [] \<or> hd t = CHR ''<'' \<or> hd t = CHR ''&''" "x_context (doc_of st) = XML_CONTEXT_DATA"
  shows "gives st token XML_CODE_DATA s t (doc_of st)"
proof -
  have chars: "NUL \<notin> set s" "CHR 0xFF \<notin> set s" using assms(3,5) by (simp_all add: plain_no_lt)
  from data_loop_ok [OF assms(1-4) chars(2) assms(6), of "[]"] obtain st1 where
    st1: "data_loop [] (first_char (s @ t)) st = Some (Some s, st1)" "scanned t st1" "doc_of st1 = doc_of st"
    by auto
  from accept_ok [OF st1(2) chars(1)] st1(3) obtain st2 where
    st2: "accept XML_CODE_DATA s token st1 = Some (0, filled XML_CODE_DATA s token, st2)" "scanned t st2"
      "doc_of st2 = doc_of st" by metis
  obtain c s' where s: "s = c # s'" using assms(1) by (cases s) auto
  with assms(3,4) have "enc c \<noteq> 60" "enc c \<noteq> 38" by (auto simp: enc_CHR)
  then have "offer xml_callback_list token st = Some (Some 0, filled XML_CODE_DATA s token, st2)"
    using assms(1,7) st1(1) st2(1) scanned_p_last [OF assms(2)] s
    by (simp add: xml_callback_list_def declines xml_callback_data_def get_context_doc)
  then show ?thesis by (rule givesI) (simp_all add: st2)
qed

lemma token_entity:
  assumes "scanned (CHR ''&'' # e @ CHR '';'' # t) st" "e \<noteq> []" "CHR ''<'' \<notin> set e" "CHR '';'' \<notin> set e" "plain e"
    and "x_context (doc_of st) = XML_CONTEXT_DATA"
  shows "gives st token XML_CODE_ENTITY e t (doc_of st)"
proof -
  have chars: "NUL \<notin> set e" "CHR 0xFF \<notin> set e" using assms(3,5) by (simp_all add: plain_no_lt)
  from scan_next [OF assms(1)] obtain st0 where
    st0: "xml_scan st = Some (first_char (e @ CHR '';'' # t), st0)" "scanned (e @ CHR '';'' # t) st0"
      "doc_of st0 = doc_of st" by auto
  from entity_loop_ok [OF st0(2) assms(3,4) chars(2), of "[]"] obtain st1 where
    st1: "entity_loop [] (first_char (e @ CHR '';'' # t)) st0 = Some (Some e, st1)" "scanned t st1"
      "doc_of st1 = doc_of st" using st0(3) by auto
  from accept_ok [OF st1(2) chars(1)] st1(3) obtain st2 where
    st2: "accept XML_CODE_ENTITY e token st1 = Some (0, filled XML_CODE_ENTITY e token, st2)" "scanned t st2"
      "doc_of st2 = doc_of st" by metis
  have "p_last (fst st) = 38" using scanned_p_last [OF assms(1)] by (simp add: enc_CHR)
  then have "offer xml_callback_list token st = Some (Some 0, filled XML_CODE_ENTITY e token, st2)"
    using assms(2,6) st0(1) st1(1) st2(1)
    by (simp add: xml_callback_list_def declines xml_callback_entity_def get_context_doc uc_CHR)
  then show ?thesis by (rule givesI) (simp_all add: st2)
qed

text \<open>The loop over the tokens takes one step.\<close>

lemma token_gives:
  assumes "scanned (c # s) (p1, xml1, w2)" "gives (p1, xml1, w2) token code str t xml'"
    and "token_new (p_filename p) (p_line p) (p_col p) w = (Some token, w1)"
    and "(if p_last p = EOF then xml_scan (p, xml, w1) else Some (c0, p, xml, w1)) = Some (c1, p1, xml1, w2)"
  shows "\<exists>q xml2 w3. parser_get_token xml_filters xml_callbacks p xml w
      = Some (0, Some (filled code str token), q, xml2, w3) \<and> scanned t (q, xml2, w3) \<and> doc_of (q, xml2, w3) = xml'"
proof -
  from assms(2) obtain st' where
    st': "offer xml_callback_list token (p1, xml1, w2) = Some (Some 0, filled code str token, st')"
      "scanned t st'" "doc_of st' = xml'" unfolding gives_def by blast
  from assms(1) have "regs_of p1 = xml_regs" by (auto simp: scanned_def ready_def)
  then have cb: "p_callbacks p1 = map (\<lambda>f. (f, 0)) [0..<10]" "p_callbacks_cnt p1 = length (p_callbacks p1)"
    by (simp_all add: regs_of_def xml_regs_def)
  from parser_get_token_run [OF keeps_xml_callbacks cb(2) assms(3), of xml_filters xml c0 c1 "(xml1, w2)",
      OF assms(4) [unfolded xml_scan_def prod.case]]
  have "parser_get_token xml_filters xml_callbacks p xml w = Some (0, Some (filled code str token), st')"
    using run_callbacks_offer [of 0 token p1 "(xml1, w2)"] st'(1) cb(1) by (cases st') simp
  with st'(2,3) show ?thesis by (cases st') blast
qed

lemma get_token_gives:
  assumes "scanned (c # s) (p, xml, w)" "\<And>token w1. scanned (c # s) (p, xml, w1) \<Longrightarrow>
      gives (p, xml, w1) token code str t xml'"
  shows "\<exists>token p1 xml1 w1. parser_get_token xml_filters xml_callbacks p xml w
      = Some (0, Some (filled code str token), p1, xml1, w1)
    \<and> scanned t (p1, xml1, w1) \<and> doc_of (p1, xml1, w1) = xml'"
proof -
  obtain token w1 where tok: "token_new (p_filename p) (p_line p) (p_col p) w = (Some token, w1)" "plenty w1"
    using token_new_ok [OF scanned_plenty [OF assms(1)], of "p_filename p" "p_line p" "p_col p"] by blast
  from assms(1) enc_EOF have "p_last p \<noteq> EOF" by (auto simp: scanned_def)
  with token_gives [OF scanned_world [OF assms(1) tok(2)] assms(2) tok(1)] scanned_world [OF assms(1) tok(2)]
  show ?thesis by (metis (no_types, lifting))
qed

text \<open>The first token, when nothing is scanned.\<close>

lemma get_first_token_gives:
  assumes "ready (c # s) (p, xml, w)" "plain (c # s)" "p_last p = EOF"
    and "\<And>token st1. scanned (c # s) st1 \<Longrightarrow> doc_of st1 = doc_of (p, xml, w) \<Longrightarrow> gives st1 token code str t xml'"
  shows "\<exists>token p1 xml1 w1. parser_get_token xml_filters xml_callbacks p xml w
      = Some (0, Some (filled code str token), p1, xml1, w1)
    \<and> scanned t (p1, xml1, w1) \<and> doc_of (p1, xml1, w1) = xml'"
proof -
  from assms(1) have "plenty w" by (auto simp: ready_def)
  then obtain token w1 where tok: "token_new (p_filename p) (p_line p) (p_col p) w = (Some token, w1)" "plenty w1"
    using token_new_ok [of w "p_filename p" "p_line p" "p_col p"] by blast
  have "ready (c # s) (p, xml, w1)" using assms(1) tok(2) by (auto simp: ready_def)
  from scan_ready [OF this assms(2)] obtain st1 where
    "xml_scan (p, xml, w1) = Some (first_char (c # s), st1)" "scanned (c # s) st1" "doc_of st1 = doc_of (p, xml, w1)"
    by blast
  moreover obtain p1 xml1 w2 where "st1 = (p1, xml1, w2)" by (cases st1)
  ultimately have st1: "xml_scan (p, xml, w1) = Some (first_char (c # s), p1, xml1, w2)"
    "scanned (c # s) (p1, xml1, w2)" "doc_of (p1, xml1, w2) = doc_of (p, xml, w)" by (simp_all add: doc_of_def)
  from token_gives [OF st1(2) assms(4) [OF st1(2,3)] tok(1)] assms(3) st1(1) show ?thesis
    by (metis (no_types, lifting))
qed

end

definition file_ended :: "Parser \<Rightarrow> bool" where
  "file_ended p \<longleftrightarrow> file_valid p \<and> file_input p = []"

definition string_ended :: "Parser \<Rightarrow> bool" where
  "string_ended p \<longleftrightarrow> p_scanner p = Scanner_string \<and> p_string_cnt p = length (p_string p)
     \<and> p_string_pos p = Suc (length (p_string p))"

lemma uc_EOF: "uc c \<noteq> EOF"
  using uc_bounds(1) [of c] by (simp add: EOF_def)

interpretation xml_file: xml_source file_input file_valid file_ended uc
proof (unfold_locales, goal_cases end_)
  case (end_ p i q)
  then show ?case
    by (auto simp: parser_scan_def run_scanner_def parser_scanner_file_def Let_def file_ended_def file_valid_def
        file_input_def feof_def)
qed (simp_all add: file_valid_def file_input_def file_ended_def uc_EOF)

declare xml_file.enc_alnum [simp del] xml_file.enc_space [simp del]

interpretation xml_string: xml_source string_input string_valid string_ended sc
proof (unfold_locales, goal_cases end_)
  case (end_ p i q)
  then show ?case
    by (auto simp: parser_scan_def run_scanner_def parser_scanner_string_def Let_def string_ended_def string_valid_def
        string_input_def load_def)
qed (simp_all add: string_valid_def string_input_def string_ended_def sc_EOF)

end
