(* ===== verification/Xml_Document.thy ===== *)
theory Xml_Document
  imports Parser_Xml
begin

text \<open>
  The documents of \<open>libParser/src/xml.c\<close>: nodes and attributes as heap objects, and the loop of
  \<open>xml_get_document\<close> that builds the tree from the tokens of the parser. Names are compared by
  \<open>strcmp\<close>, which is \<open>string_compare\<close> on the strings.
\<close>

section \<open>Attributes and nodes\<close>

text \<open>The result is the pointer to the new attribute.\<close>

definition xml_attribute_new :: "string option \<Rightarrow> string option \<Rightarrow> XML \<Rightarrow> world \<Rightarrow> nat option \<times> XML \<times> world" where
  "xml_attribute_new name val xml w =
     (case name of
        None \<Rightarrow> (None, xml, fail_errno EINVAL w)
      | Some nm \<Rightarrow>
          let v = (case val of None \<Rightarrow> nm | Some v \<Rightarrow> v) in
          case object_new 16 w of
            (False, w1) \<Rightarrow> (None, xml, w1)
          | (True, w1) \<Rightarrow>
              (case string_new (Some nm) w1 of
                 (n', w2) \<Rightarrow>
                   (case string_new (Some v) w2 of
                      (v', w3) \<Rightarrow>
                        (case (n', v') of
                           (Some n'', Some v'') \<Rightarrow>
                             (Some (length (x_attributes xml)),
                              xml\<lparr>x_attributes := x_attributes xml @ [\<lparr>xa_name = n'', xa_value = v''\<rparr>]\<rparr>, w3)
                         | _ \<Rightarrow> (None, xml, w3)))))"

definition xml_attribute_set_value ::
  "nat option \<Rightarrow> string option \<Rightarrow> XML \<Rightarrow> world \<Rightarrow> (int \<times> XML \<times> world) option" where
  "xml_attribute_set_value attribute val xml w =
     (case string_new val w of
        (None, w') \<Rightarrow> Some (1, xml, w')
      | (Some v, w') \<Rightarrow>
          (case attribute of
             None \<Rightarrow> None
           | Some a \<Rightarrow>
               if a < length (x_attributes xml) then
                 Some (0, xml\<lparr>x_attributes := (x_attributes xml)[a := (x_attributes xml ! a)\<lparr>xa_value := v\<rparr>]\<rparr>, w')
               else None))"

definition xml_document_new :: "nat option \<Rightarrow> XML \<Rightarrow> world \<Rightarrow> bool \<times> XML \<times> world" where
  "xml_document_new node xml w =
     (if (case node of None \<Rightarrow> False
          | Some n \<Rightarrow> (case x_nodes xml ! n of XML_NODE_TYPE_TAG _ _ _ _ \<Rightarrow> False | _ \<Rightarrow> True))
      then (False, xml, fail_errno EINVAL w)
      else case object_new 8 w of
        (False, w') \<Rightarrow> (False, xml, w')
      | (True, w') \<Rightarrow> (True, xml\<lparr>x_document := Some node\<rparr>, w'))"

definition push_node :: "XMLNode \<Rightarrow> XML \<Rightarrow> nat \<times> XML" where
  "push_node node xml = (length (x_nodes xml), xml\<lparr>x_nodes := x_nodes xml @ [node]\<rparr>)"

definition xml_node_new_data ::
  "nat option \<Rightarrow> string \<Rightarrow> nat \<Rightarrow> XML \<Rightarrow> world \<Rightarrow> nat option \<times> XML \<times> world" where
  "xml_node_new_data parent buffer n xml w =
     (case object_new 56 w of
        (False, w1) \<Rightarrow> (None, xml, w1)
      | (True, w1) \<Rightarrow>
          (case object_new (n + 1) w1 of
             (False, w2) \<Rightarrow> (None, xml, w2)
           | (True, w2) \<Rightarrow>
               (case push_node (XML_NODE_TYPE_DATA parent (take n buffer) n) xml of
                  (node, xml') \<Rightarrow> (Some node, xml', w2))))"

definition xml_node_new_entity ::
  "nat option \<Rightarrow> string \<Rightarrow> XML \<Rightarrow> world \<Rightarrow> nat option \<times> XML \<times> world" where
  "xml_node_new_entity parent name xml w =
     (case object_new 56 w of
        (False, w1) \<Rightarrow> (None, xml, w1)
      | (True, w1) \<Rightarrow>
          (case string_new (Some name) w1 of
             (None, w2) \<Rightarrow> (None, xml, w2)
           | (Some nm, w2) \<Rightarrow>
               (case push_node (XML_NODE_TYPE_ENTITY parent nm) xml of
                  (node, xml') \<Rightarrow> (Some node, xml', w2))))"

definition xml_node_new_tag ::
  "nat option \<Rightarrow> string option \<Rightarrow> XML \<Rightarrow> world \<Rightarrow> nat option \<times> XML \<times> world" where
  "xml_node_new_tag parent name xml w =
     (case object_new 56 w of
        (False, w1) \<Rightarrow> (None, xml, w1)
      | (True, w1) \<Rightarrow>
          (case string_new name w1 of
             (None, w2) \<Rightarrow> (None, xml, w2)
           | (Some nm, w2) \<Rightarrow>
               (case push_node (XML_NODE_TYPE_TAG parent nm [] []) xml of
                  (node, xml') \<Rightarrow> (Some node, xml', w2))))"

text \<open>The tag a pointer leads to; \<open>None\<close> for \<open>NULL\<close> and for anything that is not a tag.\<close>

definition tag_at :: "XML \<Rightarrow> nat option \<Rightarrow> (nat \<times> nat option \<times> string \<times> nat list \<times> nat option list) option" where
  "tag_at xml node =
     (case node of
        None \<Rightarrow> None
      | Some n \<Rightarrow>
          if n < length (x_nodes xml) then
            (case x_nodes xml ! n of
               XML_NODE_TYPE_TAG parent name attributes childs \<Rightarrow> Some (n, parent, name, attributes, childs)
             | _ \<Rightarrow> None)
          else None)"

definition xml_node_tag_add_attribute ::
  "nat option \<Rightarrow> nat \<Rightarrow> XML \<Rightarrow> world \<Rightarrow> (int \<times> XML \<times> world) option" where
  "xml_node_tag_add_attribute node attribute xml w =
     do { (n, parent, name, attributes, childs) \<leftarrow> tag_at xml node;
          case w_alloc w of
            (False, w') \<Rightarrow> Some (1, xml, fail_errno (errno w') w')
          | (True, w') \<Rightarrow>
              Some (0, xml\<lparr>x_nodes := (x_nodes xml)[n := XML_NODE_TYPE_TAG parent name (attributes @ [attribute]) childs]\<rparr>, w') }"

definition xml_node_tag_add_child ::
  "nat option \<Rightarrow> nat option \<Rightarrow> XML \<Rightarrow> world \<Rightarrow> (int \<times> XML \<times> world) option" where
  "xml_node_tag_add_child node child xml w =
     do { (n, parent, name, attributes, childs) \<leftarrow> tag_at xml node;
          case w_alloc w of
            (False, w') \<Rightarrow> Some (1, xml, fail_errno (errno w') w')
          | (True, w') \<Rightarrow>
              Some (0, xml\<lparr>x_nodes := (x_nodes xml)[n := XML_NODE_TYPE_TAG parent name attributes (childs @ [child])]\<rparr>, w') }"

section \<open>The document\<close>

definition document_data :: "Token \<Rightarrow> nat option \<Rightarrow> XML \<Rightarrow> world \<Rightarrow> (int \<times> XML \<times> world) option" where
  "document_data token current xml w =
     (if current = None then Some (- 1, xml, w)
      else let str = (case token_get_string token of Some s \<Rightarrow> s | None \<Rightarrow> []) in
        case xml_node_new_data current str (string_length str) xml w of
          (node, xml', w') \<Rightarrow> xml_node_tag_add_child current node xml' w')"

definition document_entity :: "Token \<Rightarrow> nat option \<Rightarrow> XML \<Rightarrow> world \<Rightarrow> (int \<times> XML \<times> world) option" where
  "document_entity token current xml w =
     (if current = None then Some (- 1, xml, w)
      else case token_get_string token of
        None \<Rightarrow> Some (- 1, xml, w)
      | Some str \<Rightarrow>
          (case xml_node_new_entity current str xml w of
             (None, xml', w') \<Rightarrow> Some (- 1, xml', w')
           | (Some node, xml', w') \<Rightarrow> xml_node_tag_add_child current (Some node) xml' w'))"

text \<open>The result has the new value of \<open>attribute\<close>.\<close>

definition document_tag_attribute ::
  "Token \<Rightarrow> nat option \<Rightarrow> XML \<Rightarrow> world \<Rightarrow> (int \<times> nat option \<times> XML \<times> world) option" where
  "document_tag_attribute token current xml w =
     (case xml_attribute_new (token_get_string token) None xml w of
        (None, xml', w') \<Rightarrow> Some (- 1, None, xml', w')
      | (Some attribute, xml', w') \<Rightarrow>
          do { (r, xml'', w'') \<leftarrow> xml_node_tag_add_attribute current attribute xml' w';
               Some (r, Some attribute, xml'', w'') })"

definition document_tag_attribute_value ::
  "Token \<Rightarrow> nat option \<Rightarrow> XML \<Rightarrow> world \<Rightarrow> (int \<times> XML \<times> world) option" where
  "document_tag_attribute_value token attribute xml w =
     xml_attribute_set_value attribute (token_get_string token) xml w"

text \<open>The result has the new value of \<open>current\<close>.\<close>

definition document_tag_close :: "Token \<Rightarrow> nat option \<Rightarrow> XML \<Rightarrow> (int \<times> nat option) option" where
  "document_tag_close token current xml =
     (if current = None then Some (- 1, current)
      else do { (n, parent, name, attributes, childs) \<leftarrow> tag_at xml current;
                str \<leftarrow> token_get_string token;
                Some (if string_compare name str \<noteq> 0 then (- 1, current) else (0, parent)) })"

definition document_tag_open ::
  "Token \<Rightarrow> nat option \<Rightarrow> XML \<Rightarrow> world \<Rightarrow> (int \<times> nat option \<times> XML \<times> world) option" where
  "document_tag_open token current xml w =
     (case xml_node_new_tag current (token_get_string token) xml w of
        (None, xml', w') \<Rightarrow> Some (- 1, current, xml', w')
      | (Some node, xml', w') \<Rightarrow>
          if current = None then Some (0, Some node, xml'\<lparr>x_document := Some (Some node)\<rparr>, w')
          else do { (r, xml'', w'') \<leftarrow> xml_node_tag_add_child current (Some node) xml' w';
                    Some (0, Some node, xml'', w'') })"

datatype TagState = TS_UNKNOWN | TS_OPEN | TS_CLOSE | TS_SHORT

text \<open>The body of the loop: what a token changes. The local variables of the loop are \<open>current\<close>, \<open>attribute\<close> and \<open>closed\<close>.\<close>

type_synonym xml_locals = "nat option \<times> nat option \<times> TagState"

definition code_is :: "Token \<Rightarrow> XMLCode \<Rightarrow> bool" where
  "code_is token code \<longleftrightarrow> token_get_code token = word_of_int (code_number code)"

definition document_token ::
  "Token \<Rightarrow> XML \<Rightarrow> world \<Rightarrow> xml_locals \<Rightarrow> (XML \<times> world \<times> xml_locals) option" where
  "document_token token xml w l =
     (case l of (current, attribute, closed) \<Rightarrow>
        if code_is token XML_CODE_DATA then
          do { (_, xml', w') \<leftarrow> document_data token current xml w; Some (xml', w', l) }
        else if code_is token XML_CODE_ENTITY then
          do { (_, xml', w') \<leftarrow> document_entity token current xml w; Some (xml', w', l) }
        else if code_is token XML_CODE_TAG_ATTRIBUTE then
          do { (_, attribute', xml', w') \<leftarrow> document_tag_attribute token current xml w;
               Some (xml', w', current, attribute', closed) }
        else if code_is token XML_CODE_TAG_ATTRIBUTE_VALUE then
          do { (_, xml', w') \<leftarrow> document_tag_attribute_value token attribute xml w; Some (xml', w', l) }
        else if code_is token XML_CODE_TAG_CLOSE then
          Some (xml, w, current, attribute, if closed = TS_OPEN then TS_SHORT else TS_CLOSE)
        else if code_is token XML_CODE_TAG_LEAVE then
          (if closed = TS_SHORT then
             do { (n, parent, name, attributes, childs) \<leftarrow> tag_at xml current;
                  Some (xml, w, parent, attribute, TS_UNKNOWN) }
           else Some (xml, w, current, attribute, TS_UNKNOWN))
        else if code_is token XML_CODE_TAG_NAME then
          (if closed = TS_CLOSE then
             do { (_, current') \<leftarrow> document_tag_close token current xml;
                  Some (xml, w, current', attribute, closed) }
           else
             do { (_, current', xml', w') \<leftarrow> document_tag_open token current xml w;
                  Some (xml', w', current', attribute, TS_OPEN) })
        else Some (xml, w, l))"

partial_function (option) document_loop :: "xml_state \<Rightarrow> xml_locals \<Rightarrow> xml_state option" where
  "document_loop st l =
     (case st of (parser, xml, w) \<Rightarrow>
        do { (r, token, parser1, xml1, w1) \<leftarrow> parser_get_token xml_filters xml_callbacks parser xml w;
             if r \<noteq> 0 then Some (parser1, xml1, w1)
             else case token of
               None \<Rightarrow> Some (parser1, xml1, w1)
             | Some tok \<Rightarrow>
                 do { (xml2, w2, l') \<leftarrow> document_token tok xml1 w1 l;
                      document_loop (parser1, xml2, w2) l' } })"

text \<open>The result is the document, \<open>None\<close> for \<open>NULL\<close>.\<close>

definition xml_get_document :: "xml_state \<Rightarrow> (nat option option \<times> xml_state) option" where
  "xml_get_document st =
     (case st of (parser, xml, w) \<Rightarrow>
        if x_document xml \<noteq> None then Some (x_document xml, st)
        else case xml_document_new None xml w of
          (False, xml', w') \<Rightarrow> Some (None, parser, xml', w')
        | (True, xml', w') \<Rightarrow>
            do { (parser2, xml2, w2) \<leftarrow> document_loop (parser, xml', w') (None, None, TS_UNKNOWN);
                 Some (x_document xml2, parser2, xml2, w2) })"

text \<open>The search over the attributes of a node.\<close>

fun attribute_loop :: "XML \<Rightarrow> nat list \<Rightarrow> string \<Rightarrow> string option" where
  "attribute_loop xml [] name = None"
| "attribute_loop xml (a # as) name =
     (if string_compare (xa_name (x_attributes xml ! a)) name = 0 then Some (xa_value (x_attributes xml ! a))
      else attribute_loop xml as name)"

definition xml_node_get_attribute_value_by_name :: "XML \<Rightarrow> nat \<Rightarrow> string \<Rightarrow> string option" where
  "xml_node_get_attribute_value_by_name xml node name =
     (case x_nodes xml ! node of
        XML_NODE_TYPE_TAG parent nm attributes childs \<Rightarrow> attribute_loop xml attributes name
      | _ \<Rightarrow> None)"

end
