(* ===== verification/Xml_Parse.thy ===== *)
theory Xml_Parse
  imports Xml_Scan Xml_Document
begin

text \<open>
  The document side of the XML parser: how the loop of \<open>xml_get_document\<close> builds the tree of nodes from
  the tokens, and the properties of the whole parser.
\<close>

section \<open>Building the document\<close>

lemma cmp_spec_refl: "cmp_spec s s = 0"
  by (induction s) auto

lemma code_is_filled [simp]: "code_is (filled code str token) code' \<longleftrightarrow> code = code'"
  by (cases code; cases code') (simp_all add: code_is_def filled_def token_get_code_def)

lemma get_string_filled [simp]: "token_get_string (filled code str token) = Some str"
  by (simp add: token_get_string_def filled_def)

lemma doc_of_fields [simp]: "x_nodes (doc_of (p, xml, w)) = x_nodes xml"
  "x_attributes (doc_of (p, xml, w)) = x_attributes xml" "x_context (doc_of (p, xml, w)) = x_context xml"
  "x_document (doc_of (p, xml, w)) = x_document xml" "x_filters (doc_of (p, xml, w)) = x_filters xml"
  by (simp_all add: doc_of_def)

lemma doc_of_updates [simp]:
  "doc_of (p, xml\<lparr>x_nodes := N\<rparr>, w) = (doc_of (p, xml, w))\<lparr>x_nodes := N\<rparr>"
  "doc_of (p, xml\<lparr>x_attributes := A\<rparr>, w) = (doc_of (p, xml, w))\<lparr>x_attributes := A\<rparr>"
  "doc_of (p, xml\<lparr>x_document := d\<rparr>, w) = (doc_of (p, xml, w))\<lparr>x_document := d\<rparr>"
  by (simp_all add: doc_of_def)

lemma tag_at_nodes: "x_nodes xml = x_nodes xml' \<Longrightarrow> tag_at xml node = tag_at xml' node"
  by (cases node) (simp_all add: tag_at_def)

lemma doc_of_nodes:
  "doc_of (p, xml, w) = xml' \<Longrightarrow> x_nodes xml = x_nodes xml' \<and> x_attributes xml = x_attributes xml'
     \<and> x_document xml = x_document xml' \<and> tag_at xml node = tag_at xml' node"
  by (auto intro: tag_at_nodes)

lemma tag_at_bound: "tag_at xml node = Some (n, par, name, as, cs) \<Longrightarrow>
    node = Some n \<and> n < length (x_nodes xml) \<and> x_nodes xml ! n = XML_NODE_TYPE_TAG par name as cs"
  by (auto simp: tag_at_def split: option.splits if_splits XMLNode.splits)

lemma tag_at_append:
  "tag_at xml node = Some (n, par, name, as, cs) \<Longrightarrow>
   tag_at (xml\<lparr>x_nodes := x_nodes xml @ N\<rparr>) node = Some (n, par, name, as, cs)"
  by (auto simp: tag_at_def nth_append split: option.splits if_splits XMLNode.splits)

text \<open>A new node becomes the last child.\<close>

lemma add_child_ok:
  assumes "plenty w" "tag_at xml node = Some (n, par, name, as, cs)"
  obtains w' where "xml_node_tag_add_child node (Some (length (x_nodes xml)))
      (xml\<lparr>x_nodes := x_nodes xml @ [new]\<rparr>) w = Some (0, xml\<lparr>x_nodes :=
      (x_nodes xml)[n := XML_NODE_TYPE_TAG par name as (cs @ [Some (length (x_nodes xml))])] @ [new]\<rparr>, w')" "plenty w'"
  using w_alloc_plenty [OF assms(1)] tag_at_append [OF assms(2), of "[new]"] tag_at_bound [OF assms(2)]
  by (auto simp: xml_node_tag_add_child_def list_update_append)

lemma add_attribute_ok:
  assumes "plenty w" "tag_at xml node = Some (n, par, name, as, cs)"
  obtains w' where "xml_node_tag_add_attribute node a xml w = Some (0, xml\<lparr>x_nodes :=
      (x_nodes xml)[n := XML_NODE_TYPE_TAG par name (as @ [a]) cs]\<rparr>, w')" "plenty w'"
  using w_alloc_plenty [OF assms(1)] assms(2) by (auto simp: xml_node_tag_add_attribute_def)

lemma new_tag_ok:
  assumes "plenty w"
  obtains w' where "xml_node_new_tag parent (Some name) xml w = (Some (length (x_nodes xml)),
      xml\<lparr>x_nodes := x_nodes xml @ [XML_NODE_TYPE_TAG parent name [] []]\<rparr>, w')" "plenty w'"
proof -
  obtain w1 where w1: "object_new 56 w = (True, w1)" "plenty w1" using object_new_ok [OF assms, of 56] by auto
  from string_new_ok [OF w1(2), of name] w1(1) that show thesis
    by (auto simp: xml_node_new_tag_def push_node_def)
qed

lemma new_entity_ok:
  assumes "plenty w"
  obtains w' where "xml_node_new_entity parent name xml w = (Some (length (x_nodes xml)),
      xml\<lparr>x_nodes := x_nodes xml @ [XML_NODE_TYPE_ENTITY parent name]\<rparr>, w')" "plenty w'"
proof -
  obtain w1 where w1: "object_new 56 w = (True, w1)" "plenty w1" using object_new_ok [OF assms, of 56] by auto
  from string_new_ok [OF w1(2), of name] w1(1) that show thesis
    by (auto simp: xml_node_new_entity_def push_node_def)
qed

lemma new_data_ok:
  assumes "plenty w"
  obtains w' where "xml_node_new_data parent s (length s) xml w = (Some (length (x_nodes xml)),
      xml\<lparr>x_nodes := x_nodes xml @ [XML_NODE_TYPE_DATA parent s (length s)]\<rparr>, w')" "plenty w'"
proof -
  obtain w1 where w1: "object_new 56 w = (True, w1)" "plenty w1" using object_new_ok [OF assms, of 56] by auto
  from object_new_ok [OF w1(2), of "length s + 1"] w1(1) that show thesis
    by (auto simp: xml_node_new_data_def push_node_def)
qed

lemma new_attribute_ok:
  assumes "plenty w"
  obtains w' where "xml_attribute_new (Some k) None xml w = (Some (length (x_attributes xml)),
      xml\<lparr>x_attributes := x_attributes xml @ [\<lparr>xa_name = k, xa_value = k\<rparr>]\<rparr>, w')" "plenty w'"
proof -
  obtain w1 where w1: "object_new 16 w = (True, w1)" "plenty w1" using object_new_ok [OF assms, of 16] by auto
  obtain w2 where w2: "string_new (Some k) w1 = (Some k, w2)" "plenty w2" using string_new_ok [OF w1(2)] by blast
  from string_new_ok [OF w2(2), of k] w1(1) w2(1) that show thesis
    by (auto simp: xml_attribute_new_def)
qed

section \<open>Documents\<close>

text \<open>A document as a tree, and its text; a tag without children may be written in the short form.\<close>

datatype xtree = XTag string "(string \<times> string) list" "xtree list" | XData string | XEntity string

definition render_attribute :: "string \<times> string \<Rightarrow> string" where
  "render_attribute kv = CHR '' '' # fst kv @ CHR ''='' # CHR 0x22 # snd kv @ [CHR 0x22]"

fun render :: "bool \<Rightarrow> xtree \<Rightarrow> string" where
  "render short (XTag n al ts) = CHR ''<'' # n @ concat (map render_attribute al)
     @ (if short \<and> ts = [] then ''/>'' else ''>'' @ concat (map (render short) ts) @ ''</'' @ n @ ''>'')"
| "render short (XData s) = s"
| "render short (XEntity e) = CHR ''&'' # e @ '';''"

text \<open>The trees that can be written down: no text is next to another one, and no character of a piece ends it.\<close>

fun apart :: "xtree list \<Rightarrow> bool" where
  "apart (XData s # XData s' # ts) = False"
| "apart (t # ts) = apart ts"
| "apart [] = True"

fun xml_ok :: "xtree \<Rightarrow> bool" where
  "xml_ok (XTag n al ts) \<longleftrightarrow> tag_name n
     \<and> (\<forall>(k, v) \<in> set al. attribute_name k \<and> plain v \<and> CHR 0x22 \<notin> set v)
     \<and> apart ts \<and> (\<forall>t \<in> set ts. xml_ok t)"
| "xml_ok (XData s) \<longleftrightarrow> s \<noteq> [] \<and> CHR ''<'' \<notin> set s \<and> CHR ''&'' \<notin> set s \<and> plain s"
| "xml_ok (XEntity e) \<longleftrightarrow> e \<noteq> [] \<and> CHR ''<'' \<notin> set e \<and> CHR '';'' \<notin> set e \<and> plain e"

text \<open>Its attributes and nodes in the order of the text, the first at the indices \<open>a\<close> and \<open>n\<close>.\<close>

fun node_count :: "xtree \<Rightarrow> nat" where
  "node_count (XTag nm al ts) = Suc (sum_list (map node_count ts))"
| "node_count (XData s) = 1"
| "node_count (XEntity e) = 1"

definition attribute_of :: "string \<times> string \<Rightarrow> XMLAttribute" where
  "attribute_of kv = \<lparr>xa_name = fst kv, xa_value = snd kv\<rparr>"

fun attributes_of :: "xtree \<Rightarrow> XMLAttribute list" where
  "attributes_of (XTag nm al ts) = map attribute_of al @ concat (map attributes_of ts)"
| "attributes_of (XData s) = []"
| "attributes_of (XEntity e) = []"

fun roots :: "nat \<Rightarrow> xtree list \<Rightarrow> nat list" where
  "roots n [] = []"
| "roots n (t # ts) = n # roots (n + node_count t) ts"

fun layout :: "nat \<Rightarrow> nat \<Rightarrow> nat option \<Rightarrow> xtree \<Rightarrow> XMLNode list"
  and layouts :: "nat \<Rightarrow> nat \<Rightarrow> nat option \<Rightarrow> xtree list \<Rightarrow> XMLNode list" where
  "layout n a par (XTag nm al ts) =
     XML_NODE_TYPE_TAG par nm [a..<a + length al] (map Some (roots (n + 1) ts))
     # layouts (n + 1) (a + length al) (Some n) ts"
| "layout n a par (XData s) = [XML_NODE_TYPE_DATA par s (length s)]"
| "layout n a par (XEntity e) = [XML_NODE_TYPE_ENTITY par e]"
| "layouts n a par [] = []"
| "layouts n a par (t # ts) =
     layout n a par t @ layouts (n + node_count t) (a + length (attributes_of t)) par ts"

text \<open>The nodes from \<open>n\<close> on are a tree with the given parent.\<close>

fun represents :: "XMLNode list \<Rightarrow> XMLAttribute list \<Rightarrow> nat option \<Rightarrow> nat \<Rightarrow> xtree \<Rightarrow> bool" where
  "represents N A par n (XTag nm al ts) \<longleftrightarrow> n < length N
     \<and> (\<exists>as cs. N ! n = XML_NODE_TYPE_TAG par nm as (map Some cs)
         \<and> (\<forall>a \<in> set as. a < length A) \<and> map ((!) A) as = map attribute_of al
         \<and> list_all2 (\<lambda>c t. represents N A (Some n) c t) cs ts)"
| "represents N A par n (XData s) \<longleftrightarrow> n < length N \<and> N ! n = XML_NODE_TYPE_DATA par s (length s)"
| "represents N A par n (XEntity e) \<longleftrightarrow> n < length N \<and> N ! n = XML_NODE_TYPE_ENTITY par e"

lemma length_layout: "length (layout n a par t) = node_count t"
  and length_layouts: "length (layouts n a par ts) = sum_list (map node_count ts)"
  by (induction n a par t and n a par ts rule: layout_layouts.induct) simp_all

lemma represents_layout:
  "N = L @ layout n a par t @ L' \<Longrightarrow> length L = n \<Longrightarrow> A = B @ attributes_of t @ B' \<Longrightarrow> length B = a \<Longrightarrow>
   represents N A par n t"
  and represents_layouts:
  "N = L @ layouts n a par ts @ L' \<Longrightarrow> length L = n \<Longrightarrow> A = B @ concat (map attributes_of ts) @ B' \<Longrightarrow>
   length B = a \<Longrightarrow> list_all2 (represents N A par) (roots n ts) ts"
proof (induction n a par t and n a par ts arbitrary: L L' B B' and L L' B B' rule: layout_layouts.induct)
  case (1 n a par nm al ts)
  from 1(1) [of "L @ [XML_NODE_TYPE_TAG par nm [a..<a + length al] (map Some (roots (n + 1) ts))]" L'
      "B @ map attribute_of al" B'] 1(2-)
  have "list_all2 (represents N A (Some n)) (roots (n + 1) ts) ts" by simp
  moreover have "map ((!) A) [a..<a + length al] = map attribute_of al"
    using 1(4,5) by (auto simp: nth_append intro!: nth_equalityI)
  ultimately show ?case using 1(2-) by (auto simp: nth_append)
next
  case (5 n a par t ts)
  from 5(1) [of L "layouts (n + node_count t) (a + length (attributes_of t)) par ts @ L'" B
      "concat (map attributes_of ts) @ B'"] 5(3-)
  have "represents N A par n t" by simp
  moreover from 5(2) [of "L @ layout n a par t" L' "B @ attributes_of t" B'] 5(3-)
  have "list_all2 (represents N A par) (roots (n + node_count t) ts) ts" by (simp add: length_layout)
  ultimately show ?case by simp
qed (auto simp: nth_append)

text \<open>The states the loop goes through on a document: \<open>B\<close> with a context, nodes and attributes.\<close>

definition doc :: "XML \<Rightarrow> XMLContext \<Rightarrow> XMLNode list \<Rightarrow> XMLAttribute list \<Rightarrow> XML" where
  "doc B C N A = B\<lparr>x_context := C, x_nodes := N, x_attributes := A\<rparr>"

lemma doc_simps [simp]:
  "x_context (doc B C N A) = C" "x_nodes (doc B C N A) = N" "x_attributes (doc B C N A) = A"
  "x_document (doc B C N A) = x_document B"
  "(doc B C N A)\<lparr>x_context := C'\<rparr> = doc B C' N A" "(doc B C N A)\<lparr>x_nodes := N'\<rparr> = doc B C N' A"
  "(doc B C N A)\<lparr>x_attributes := A'\<rparr> = doc B C N A'"
  "(doc B C N A)\<lparr>x_document := d\<rparr> = doc (B\<lparr>x_document := d\<rparr>) C N A"
  by (simp_all add: doc_def)

lemma tag_at_doc:
  "length M = k \<Longrightarrow> tag_at (doc B C (M @ XML_NODE_TYPE_TAG par n as cs # L) A) (Some k) = Some (k, par, n, as, cs)"
  by (auto simp: tag_at_def nth_append)

context xml_source
begin

lemma step_token:
  assumes "scanned (c # s) st" "\<And>token st1. scanned (c # s) st1 \<Longrightarrow> doc_of st1 = doc_of st \<Longrightarrow>
      gives st1 token code str t xml'"
    and "\<And>token p1 xml1 w1. scanned t (p1, xml1, w1) \<Longrightarrow> doc_of (p1, xml1, w1) = xml' \<Longrightarrow>
      \<exists>xml2 w2. document_token (filled code str token) xml1 w1 l = Some (xml2, w2, l')
        \<and> scanned t (p1, xml2, w2) \<and> doc_of (p1, xml2, w2) = xml''"
  shows "\<exists>st'. document_loop st l = document_loop st' l' \<and> scanned t st' \<and> doc_of st' = xml''"
proof -
  obtain p xml w where st: "st = (p, xml, w)" by (cases st)
  have "gives (p, xml, w1) token code str t xml'" if "scanned (c # s) (p, xml, w1)" for token w1
    by (rule assms(2) [OF that]) (simp add: st doc_of_def)
  from get_token_gives [OF assms(1) [unfolded st] this] obtain token p1 xml1 w1 where
    get: "parser_get_token xml_filters xml_callbacks p xml w = Some (0, Some (filled code str token), p1, xml1, w1)"
      "scanned t (p1, xml1, w1)" "doc_of (p1, xml1, w1) = xml'" by blast
  from assms(3) [OF get(2,3), of token] obtain xml2 w2 where
    "document_token (filled code str token) xml1 w1 l = Some (xml2, w2, l')"
    "scanned t (p1, xml2, w2)" "doc_of (p1, xml2, w2) = xml''" by blast
  moreover from this(1) get(1) have "document_loop st l = document_loop (p1, xml2, w2) l'"
    by (subst document_loop.simps) (simp add: st)
  ultimately show ?thesis by blast
qed

text \<open>
  What the loop does on the pieces of a document: it goes on behind the piece, in a state that
  differs in the given way.
\<close>

definition moves :: "xml_state \<Rightarrow> xml_locals \<Rightarrow> string \<Rightarrow> xml_locals \<Rightarrow> XML \<Rightarrow> bool" where
  "moves st l t l' xml \<longleftrightarrow> (\<exists>st'. document_loop st l = document_loop st' l' \<and> scanned t st' \<and> doc_of st' = xml)"

lemma moves_refl: "scanned t st \<Longrightarrow> doc_of st = xml \<Longrightarrow> moves st l t l xml"
  unfolding moves_def by blast

lemma moves_from:
  "document_loop st l = document_loop st1 l1 \<Longrightarrow> moves st1 l1 t l' xml \<Longrightarrow> moves st l t l' xml"
  unfolding moves_def by (simp only:)

lemma moves_trans:
  "moves st l t l' xml \<Longrightarrow> (\<And>st'. scanned t st' \<Longrightarrow> doc_of st' = xml \<Longrightarrow> moves st' l' t' l'' xml') \<Longrightarrow>
   moves st l t' l'' xml'"
  unfolding moves_def by metis

lemma moves_token:
  assumes "scanned (c # s) st" "\<And>token st1. scanned (c # s) st1 \<Longrightarrow> doc_of st1 = doc_of st \<Longrightarrow>
      gives st1 token code str t xml'"
    and "\<And>token p1 xml1 w1. scanned t (p1, xml1, w1) \<Longrightarrow> \<forall>w. doc_of (p1, xml1, w) = xml' \<Longrightarrow>
      \<exists>xml2 w2. document_token (filled code str token) xml1 w1 l = Some (xml2, w2, l') \<and> plenty w2
        \<and> x_inject xml2 = x_inject xml1 \<and> doc_of (p1, xml2, w2) = xml''"
  shows "moves st l t l' xml''"
  unfolding moves_def
proof (rule step_token [OF assms(1,2)])
  fix token p1 xml1 w1
  assume a: "scanned t (p1, xml1, w1)" "doc_of (p1, xml1, w1) = xml'"
  then have "\<forall>w. doc_of (p1, xml1, w) = xml'" by (simp add: doc_of_def)
  from assms(3) [OF a(1) this, of token] obtain xml2 w2 where
    "document_token (filled code str token) xml1 w1 l = Some (xml2, w2, l')" "plenty w2"
    "x_inject xml2 = x_inject xml1" "doc_of (p1, xml2, w2) = xml''" by blast
  with a(1) show "\<exists>xml2 w2. document_token (filled code str token) xml1 w1 l = Some (xml2, w2, l')
      \<and> scanned t (p1, xml2, w2) \<and> doc_of (p1, xml2, w2) = xml''"
    using scanned_doc scanned_world by metis
qed auto

lemma moves_enter:
  assumes "scanned (CHR ''<'' # t) st" "x_context (doc_of st) = XML_CONTEXT_DATA"
  shows "moves st l t l ((doc_of st)\<lparr>x_context := XML_CONTEXT_TAG\<rparr>)"
proof (rule moves_token [OF assms(1)])
  fix token st1
  assume "scanned (CHR ''<'' # t) st1" "doc_of st1 = doc_of st"
  with token_enter assms(2)
  show "gives st1 token XML_CODE_TAG_ENTER ''<'' t ((doc_of st)\<lparr>x_context := XML_CONTEXT_TAG\<rparr>)" by metis
qed (auto simp: document_token_def dest: scanned_plenty split: prod.split)

lemma moves_leave:
  assumes "scanned (CHR ''>'' # t) st" "x_context (doc_of st) \<noteq> XML_CONTEXT_DATA" "closed \<noteq> TS_SHORT"
  shows "moves st (cur, att, closed) t (cur, att, TS_UNKNOWN) ((doc_of st)\<lparr>x_context := XML_CONTEXT_DATA\<rparr>)"
proof (rule moves_token [OF assms(1)])
  fix token st1
  assume "scanned (CHR ''>'' # t) st1" "doc_of st1 = doc_of st"
  with token_leave assms(2)
  show "gives st1 token XML_CODE_TAG_LEAVE ''>'' t ((doc_of st)\<lparr>x_context := XML_CONTEXT_DATA\<rparr>)" by metis
qed (use assms(3) in \<open>auto simp: document_token_def dest: scanned_plenty\<close>)

lemma moves_leave_short:
  assumes "scanned (CHR ''>'' # t) st" "x_context (doc_of st) \<noteq> XML_CONTEXT_DATA"
    and "tag_at (doc_of st) cur = Some (n, par, name, as, cs)"
  shows "moves st (cur, att, TS_SHORT) t (par, att, TS_UNKNOWN) ((doc_of st)\<lparr>x_context := XML_CONTEXT_DATA\<rparr>)"
proof (rule moves_token [OF assms(1)])
  fix token st1
  assume "scanned (CHR ''>'' # t) st1" "doc_of st1 = doc_of st"
  with token_leave assms(2)
  show "gives st1 token XML_CODE_TAG_LEAVE ''>'' t ((doc_of st)\<lparr>x_context := XML_CONTEXT_DATA\<rparr>)" by metis
next
  fix token p1 xml1 w1
  assume a: "scanned t (p1, xml1, w1)" "\<forall>w. doc_of (p1, xml1, w) = (doc_of st)\<lparr>x_context := XML_CONTEXT_DATA\<rparr>"
  then have "tag_at xml1 cur = Some (n, par, name, as, cs)"
    using assms(3) doc_of_nodes [OF a(2) [rule_format], of cur] tag_at_nodes [of "(doc_of st)\<lparr>x_context := XML_CONTEXT_DATA\<rparr>"]
    by simp
  with a scanned_plenty [OF a(1)]
  show "\<exists>xml2 w2. document_token (filled XML_CODE_TAG_LEAVE ''>'' token) xml1 w1 (cur, att, TS_SHORT)
        = Some (xml2, w2, par, att, TS_UNKNOWN) \<and> plenty w2 \<and> x_inject xml2 = x_inject xml1
        \<and> doc_of (p1, xml2, w2) = (doc_of st)\<lparr>x_context := XML_CONTEXT_DATA\<rparr>"
    by (auto simp: document_token_def)
qed

lemma moves_close:
  assumes "scanned (CHR ''/'' # t) st" "x_context (doc_of st) \<noteq> XML_CONTEXT_DATA"
  shows "moves st (cur, att, closed) t (cur, att, if closed = TS_OPEN then TS_SHORT else TS_CLOSE) (doc_of st)"
proof (rule moves_token [OF assms(1)])
  fix token st1
  assume "scanned (CHR ''/'' # t) st1" "doc_of st1 = doc_of st"
  with token_close assms(2) show "gives st1 token XML_CODE_TAG_CLOSE ''/'' t (doc_of st)" by metis
qed (auto simp: document_token_def dest: scanned_plenty)

lemma moves_name_close:
  assumes "scanned (n @ t) st" "tag_name n" "x_context (doc_of st) = XML_CONTEXT_TAG"
    and "t = [] \<or> hd t = CHR ''>'' \<or> hd t = CHR ''/'' \<or> hd t = CHR '' ''"
    and "tag_at (doc_of st) cur = Some (i, par, n, as, cs)"
  shows "moves st (cur, att, TS_CLOSE) t (par, att, TS_CLOSE) ((doc_of st)\<lparr>x_context := XML_CONTEXT_TAG_ATTRIBUTES\<rparr>)"
proof -
  let ?doc = "(doc_of st)\<lparr>x_context := XML_CONTEXT_TAG_ATTRIBUTES\<rparr>"
  obtain c n' where n: "n @ t = c # n'" using assms(2) by (cases n) (auto simp: tag_name_def)
  show ?thesis
  proof (rule moves_token [OF assms(1) [unfolded n]])
    fix token st1
    assume "scanned (c # n') st1" "doc_of st1 = doc_of st"
    with token_name [OF _ assms(2)] assms(3,4) n show "gives st1 token XML_CODE_TAG_NAME n t ?doc" by metis
  next
    fix token p1 xml1 w1
    assume a: "scanned t (p1, xml1, w1)" "\<forall>w. doc_of (p1, xml1, w) = ?doc"
    have "tag_at xml1 cur = Some (i, par, n, as, cs)"
      using assms(5) doc_of_nodes [OF a(2) [rule_format], of cur] tag_at_nodes [of ?doc "doc_of st" cur] by simp
    with a scanned_plenty [OF a(1)] tag_at_bound [OF assms(5)]
    show "\<exists>xml2 w2. document_token (filled XML_CODE_TAG_NAME n token) xml1 w1 (cur, att, TS_CLOSE)
          = Some (xml2, w2, par, att, TS_CLOSE) \<and> plenty w2 \<and> x_inject xml2 = x_inject xml1
          \<and> doc_of (p1, xml2, w2) = ?doc"
      by (simp add: document_token_def document_tag_close_def string_compare_cmp cmp_spec_refl)
  qed
qed

text \<open>A new tag below the current one, and the root.\<close>

lemma moves_open:
  assumes "scanned (n @ t) st" "tag_name n" "x_context (doc_of st) = XML_CONTEXT_TAG"
    and "t = [] \<or> hd t = CHR ''>'' \<or> hd t = CHR ''/'' \<or> hd t = CHR '' ''"
    and "tag_at (doc_of st) cur = Some (i, par, name, as, cs)" "closed \<noteq> TS_CLOSE"
  shows "moves st (cur, att, closed) t (Some (length (x_nodes (doc_of st))), att, TS_OPEN)
    ((doc_of st)\<lparr>x_context := XML_CONTEXT_TAG_ATTRIBUTES,
      x_nodes := (x_nodes (doc_of st))[i := XML_NODE_TYPE_TAG par name as (cs @ [Some (length (x_nodes (doc_of st)))])]
        @ [XML_NODE_TYPE_TAG cur n [] []]\<rparr>)"
proof -
  let ?doc = "(doc_of st)\<lparr>x_context := XML_CONTEXT_TAG_ATTRIBUTES\<rparr>"
  obtain c n' where n: "n @ t = c # n'" using assms(2) by (cases n) (auto simp: tag_name_def)
  show ?thesis
  proof (rule moves_token [OF assms(1) [unfolded n]])
    fix token st1
    assume "scanned (c # n') st1" "doc_of st1 = doc_of st"
    with token_name [OF _ assms(2)] assms(3,4) n show "gives st1 token XML_CODE_TAG_NAME n t ?doc" by metis
  next
    fix token p1 xml1 w1
    assume a: "scanned t (p1, xml1, w1)" "\<forall>w. doc_of (p1, xml1, w) = ?doc"
    have tag: "tag_at xml1 cur = Some (i, par, name, as, cs)" and nodes: "x_nodes xml1 = x_nodes (doc_of st)"
      using assms(5) doc_of_nodes [OF a(2) [rule_format], of cur] tag_at_nodes [of ?doc "doc_of st" cur] by simp_all
    from tag_at_bound [OF tag] have cur: "cur = Some i" "i < length (x_nodes xml1)" by auto
    obtain w2 where w2: "xml_node_new_tag cur (Some n) xml1 w1 = (Some (length (x_nodes xml1)),
        xml1\<lparr>x_nodes := x_nodes xml1 @ [XML_NODE_TYPE_TAG cur n [] []]\<rparr>, w2)" "plenty w2"
      using new_tag_ok [OF scanned_plenty [OF a(1)]] by metis
    obtain w3 where "xml_node_tag_add_child cur (Some (length (x_nodes xml1)))
        (xml1\<lparr>x_nodes := x_nodes xml1 @ [XML_NODE_TYPE_TAG cur n [] []]\<rparr>) w2 =
      Some (0, xml1\<lparr>x_nodes := (x_nodes xml1)
          [i := XML_NODE_TYPE_TAG par name as (cs @ [Some (length (x_nodes xml1))])] @ [XML_NODE_TYPE_TAG cur n [] []]\<rparr>, w3)" "plenty w3"
      by (rule add_child_ok [OF w2(2) tag])
    with w2 a cur assms(6)
    show "\<exists>xml2 w2. document_token (filled XML_CODE_TAG_NAME n token) xml1 w1 (cur, att, closed)
        = Some (xml2, w2, Some (length (x_nodes (doc_of st))), att, TS_OPEN) \<and> plenty w2
        \<and> x_inject xml2 = x_inject xml1 \<and> doc_of (p1, xml2, w2) = (doc_of st)\<lparr>x_context := XML_CONTEXT_TAG_ATTRIBUTES,
          x_nodes := (x_nodes (doc_of st))[i := XML_NODE_TYPE_TAG par name as (cs @ [Some (length (x_nodes (doc_of st)))])]
            @ [XML_NODE_TYPE_TAG cur n [] []]\<rparr>"
      by (simp add: document_token_def document_tag_open_def list_update_append nodes)
  qed
qed

lemma moves_open_root:
  assumes "scanned (n @ t) st" "tag_name n" "x_context (doc_of st) = XML_CONTEXT_TAG"
    and "t = [] \<or> hd t = CHR ''>'' \<or> hd t = CHR ''/'' \<or> hd t = CHR '' ''" "closed \<noteq> TS_CLOSE"
  shows "moves st (None, att, closed) t (Some (length (x_nodes (doc_of st))), att, TS_OPEN)
    ((doc_of st)\<lparr>x_context := XML_CONTEXT_TAG_ATTRIBUTES,
      x_document := Some (Some (length (x_nodes (doc_of st)))),
      x_nodes := x_nodes (doc_of st) @ [XML_NODE_TYPE_TAG None n [] []]\<rparr>)"
proof -
  let ?doc = "(doc_of st)\<lparr>x_context := XML_CONTEXT_TAG_ATTRIBUTES\<rparr>"
  obtain c n' where n: "n @ t = c # n'" using assms(2) by (cases n) (auto simp: tag_name_def)
  show ?thesis
  proof (rule moves_token [OF assms(1) [unfolded n]])
    fix token st1
    assume "scanned (c # n') st1" "doc_of st1 = doc_of st"
    with token_name [OF _ assms(2)] assms(3,4) n show "gives st1 token XML_CODE_TAG_NAME n t ?doc" by metis
  next
    fix token p1 xml1 w1
    assume a: "scanned t (p1, xml1, w1)" "\<forall>w. doc_of (p1, xml1, w) = ?doc"
    have nodes: "x_nodes xml1 = x_nodes (doc_of st)" using doc_of_nodes [OF a(2) [rule_format]] by simp
    obtain w2 where w2: "xml_node_new_tag None (Some n) xml1 w1 = (Some (length (x_nodes xml1)),
        xml1\<lparr>x_nodes := x_nodes xml1 @ [XML_NODE_TYPE_TAG None n [] []]\<rparr>, w2)" "plenty w2"
      using new_tag_ok [OF scanned_plenty [OF a(1)]] by metis
    with a assms(5)
    show "\<exists>xml2 w2. document_token (filled XML_CODE_TAG_NAME n token) xml1 w1 (None, att, closed)
        = Some (xml2, w2, Some (length (x_nodes (doc_of st))), att, TS_OPEN) \<and> plenty w2
        \<and> x_inject xml2 = x_inject xml1 \<and> doc_of (p1, xml2, w2) = (doc_of st)\<lparr>x_context := XML_CONTEXT_TAG_ATTRIBUTES,
          x_document := Some (Some (length (x_nodes (doc_of st)))),
          x_nodes := x_nodes (doc_of st) @ [XML_NODE_TYPE_TAG None n [] []]\<rparr>"
      by (simp add: document_token_def document_tag_open_def nodes)
  qed
qed

lemma moves_data:
  assumes "s \<noteq> []" "scanned (s @ t) st" "CHR ''<'' \<notin> set s" "CHR ''&'' \<notin> set s" "plain s"
    and "t = [] \<or> hd t = CHR ''<'' \<or> hd t = CHR ''&''" "x_context (doc_of st) = XML_CONTEXT_DATA"
    and "tag_at (doc_of st) cur = Some (i, par, name, as, cs)"
  shows "moves st (cur, att, closed) t (cur, att, closed) ((doc_of st)\<lparr>
      x_nodes := (x_nodes (doc_of st))[i := XML_NODE_TYPE_TAG par name as (cs @ [Some (length (x_nodes (doc_of st)))])]
        @ [XML_NODE_TYPE_DATA cur s (length s)]\<rparr>)"
proof -
  obtain c s' where s: "s @ t = c # s'" using assms(1) by (cases s) auto
  show ?thesis
  proof (rule moves_token [OF assms(2) [unfolded s]])
    fix token st1
    assume "scanned (c # s') st1" "doc_of st1 = doc_of st"
    with token_data [OF assms(1) _ assms(3-6)] assms(7) s show "gives st1 token XML_CODE_DATA s t (doc_of st)" by metis
  next
    fix token p1 xml1 w1
    assume a: "scanned t (p1, xml1, w1)" "\<forall>w. doc_of (p1, xml1, w) = doc_of st"
    have tag: "tag_at xml1 cur = Some (i, par, name, as, cs)" and nodes: "x_nodes xml1 = x_nodes (doc_of st)"
      using assms(8) doc_of_nodes [OF a(2) [rule_format], of cur] by simp_all
    from tag_at_bound [OF tag] have cur: "cur = Some i" "i < length (x_nodes xml1)" by auto
    let ?node = "XML_NODE_TYPE_DATA cur s (length s)"
    obtain w2 where w2: "xml_node_new_data cur s (length s) xml1 w1 = (Some (length (x_nodes xml1)),
        xml1\<lparr>x_nodes := x_nodes xml1 @ [?node]\<rparr>, w2)" "plenty w2"
      using new_data_ok [OF scanned_plenty [OF a(1)]] by metis
    obtain w3 where "xml_node_tag_add_child cur (Some (length (x_nodes xml1)))
        (xml1\<lparr>x_nodes := x_nodes xml1 @ [?node]\<rparr>) w2 =
      Some (0, xml1\<lparr>x_nodes := (x_nodes xml1)
          [i := XML_NODE_TYPE_TAG par name as (cs @ [Some (length (x_nodes xml1))])] @ [?node]\<rparr>, w3)" "plenty w3"
      by (rule add_child_ok [OF w2(2) tag])
    with w2 a cur
    show "\<exists>xml2 w2. document_token (filled XML_CODE_DATA s token) xml1 w1 (cur, att, closed)
        = Some (xml2, w2, cur, att, closed) \<and> plenty w2
        \<and> x_inject xml2 = x_inject xml1 \<and> doc_of (p1, xml2, w2) = (doc_of st)\<lparr>
          x_nodes := (x_nodes (doc_of st))[i := XML_NODE_TYPE_TAG par name as (cs @ [Some (length (x_nodes (doc_of st)))])]
            @ [?node]\<rparr>"
      by (simp add: document_token_def document_data_def list_update_append nodes)
  qed
qed

lemma moves_entity:
  assumes "scanned (CHR ''&'' # e @ CHR '';'' # t) st" "e \<noteq> []" "CHR ''<'' \<notin> set e" "CHR '';'' \<notin> set e" "plain e"
    and "x_context (doc_of st) = XML_CONTEXT_DATA"
    and "tag_at (doc_of st) cur = Some (i, par, name, as, cs)"
  shows "moves st (cur, att, closed) t (cur, att, closed) ((doc_of st)\<lparr>
      x_nodes := (x_nodes (doc_of st))[i := XML_NODE_TYPE_TAG par name as (cs @ [Some (length (x_nodes (doc_of st)))])]
        @ [XML_NODE_TYPE_ENTITY cur e]\<rparr>)"
proof (rule moves_token [OF assms(1)])
  fix token st1
  assume "scanned (CHR ''&'' # e @ CHR '';'' # t) st1" "doc_of st1 = doc_of st"
  with token_entity [OF _ assms(2-5)] assms(6) show "gives st1 token XML_CODE_ENTITY e t (doc_of st)" by metis
next
  fix token p1 xml1 w1
  assume a: "scanned t (p1, xml1, w1)" "\<forall>w. doc_of (p1, xml1, w) = doc_of st"
  have tag: "tag_at xml1 cur = Some (i, par, name, as, cs)" and nodes: "x_nodes xml1 = x_nodes (doc_of st)"
    using assms(7) doc_of_nodes [OF a(2) [rule_format], of cur] by simp_all
  from tag_at_bound [OF tag] have cur: "cur = Some i" by auto
  let ?node = "XML_NODE_TYPE_ENTITY cur e"
  obtain w2 where w2: "xml_node_new_entity cur e xml1 w1 = (Some (length (x_nodes xml1)),
      xml1\<lparr>x_nodes := x_nodes xml1 @ [?node]\<rparr>, w2)" "plenty w2"
    using new_entity_ok [OF scanned_plenty [OF a(1)]] by metis
  obtain w3 where "xml_node_tag_add_child cur (Some (length (x_nodes xml1)))
      (xml1\<lparr>x_nodes := x_nodes xml1 @ [?node]\<rparr>) w2 =
    Some (0, xml1\<lparr>x_nodes := (x_nodes xml1)
        [i := XML_NODE_TYPE_TAG par name as (cs @ [Some (length (x_nodes xml1))])] @ [?node]\<rparr>, w3)" "plenty w3"
    by (rule add_child_ok [OF w2(2) tag])
  with w2 a cur
  show "\<exists>xml2 w2. document_token (filled XML_CODE_ENTITY e token) xml1 w1 (cur, att, closed)
      = Some (xml2, w2, cur, att, closed) \<and> plenty w2
      \<and> x_inject xml2 = x_inject xml1 \<and> doc_of (p1, xml2, w2) = (doc_of st)\<lparr>
        x_nodes := (x_nodes (doc_of st))[i := XML_NODE_TYPE_TAG par name as (cs @ [Some (length (x_nodes (doc_of st)))])]
          @ [?node]\<rparr>"
    by (simp add: document_token_def document_entity_def nodes)
qed

lemma moves_attribute_name:
  assumes "scanned (CHR '' '' # k @ CHR ''='' # t) st" "attribute_name k"
    and "x_context (doc_of st) = XML_CONTEXT_TAG_ATTRIBUTES"
    and "tag_at (doc_of st) cur = Some (i, par, name, as, cs)"
  shows "moves st (cur, att, closed) (CHR ''='' # t) (cur, Some (length (x_attributes (doc_of st))), closed)
    ((doc_of st)\<lparr>x_context := XML_CONTEXT_TAG_ATTRIBUTES_VALUE,
      x_nodes := (x_nodes (doc_of st))[i := XML_NODE_TYPE_TAG par name (as @ [length (x_attributes (doc_of st))]) cs],
      x_attributes := x_attributes (doc_of st) @ [\<lparr>xa_name = k, xa_value = k\<rparr>]\<rparr>)"
proof -
  let ?doc = "(doc_of st)\<lparr>x_context := XML_CONTEXT_TAG_ATTRIBUTES_VALUE\<rparr>"
  let ?A = "x_attributes (doc_of st)" and ?attr = "\<lparr>xa_name = k, xa_value = k\<rparr>"
  show ?thesis
  proof (rule moves_token [OF assms(1)])
    fix token st1
    assume "scanned (CHR '' '' # k @ CHR ''='' # t) st1" "doc_of st1 = doc_of st"
    with token_attribute [OF _ assms(2)] assms(3)
    show "gives st1 token XML_CODE_TAG_ATTRIBUTE k (CHR ''='' # t) ?doc" by metis
  next
    fix token p1 xml1 w1
    assume a: "scanned (CHR ''='' # t) (p1, xml1, w1)" "\<forall>w. doc_of (p1, xml1, w) = ?doc"
    have tag: "tag_at xml1 cur = Some (i, par, name, as, cs)" and nodes: "x_nodes xml1 = x_nodes (doc_of st)"
      and attrs: "x_attributes xml1 = ?A"
      using assms(4) doc_of_nodes [OF a(2) [rule_format], of cur] tag_at_nodes [of ?doc "doc_of st" cur] by simp_all
    obtain w2 where w2: "xml_attribute_new (Some k) None xml1 w1 = (Some (length ?A),
        xml1\<lparr>x_attributes := ?A @ [?attr]\<rparr>, w2)" "plenty w2"
      using new_attribute_ok [OF scanned_plenty [OF a(1)]] attrs by metis
    have "tag_at (xml1\<lparr>x_attributes := ?A @ [?attr]\<rparr>) cur = Some (i, par, name, as, cs)"
      using tag tag_at_nodes [of "xml1\<lparr>x_attributes := ?A @ [?attr]\<rparr>" xml1 cur] by simp
    from add_attribute_ok [OF w2(2) this, of "length ?A"] obtain w3 where
      "xml_node_tag_add_attribute cur (length ?A) (xml1\<lparr>x_attributes := ?A @ [?attr]\<rparr>) w2 =
        Some (0, xml1\<lparr>x_attributes := ?A @ [?attr],
          x_nodes := (x_nodes xml1)[i := XML_NODE_TYPE_TAG par name (as @ [length ?A]) cs]\<rparr>, w3)" "plenty w3"
      by auto
    with w2 a
    show "\<exists>xml2 w2. document_token (filled XML_CODE_TAG_ATTRIBUTE k token) xml1 w1 (cur, att, closed)
        = Some (xml2, w2, cur, Some (length ?A), closed) \<and> plenty w2
        \<and> x_inject xml2 = x_inject xml1 \<and> doc_of (p1, xml2, w2) = (doc_of st)\<lparr>
          x_context := XML_CONTEXT_TAG_ATTRIBUTES_VALUE,
          x_nodes := (x_nodes (doc_of st))[i := XML_NODE_TYPE_TAG par name (as @ [length ?A]) cs],
          x_attributes := ?A @ [?attr]\<rparr>"
      by (simp add: document_token_def document_tag_attribute_def nodes)
  qed
qed

lemma moves_attribute_value:
  assumes "scanned (CHR ''='' # CHR 0x22 # v @ CHR 0x22 # t) st" "CHR 0x22 \<notin> set v"
    and "NUL \<notin> set v" "CHR 0xFF \<notin> set v" "x_context (doc_of st) = XML_CONTEXT_TAG_ATTRIBUTES_VALUE"
    and "x_attributes (doc_of st) = A @ [\<lparr>xa_name = k, xa_value = u\<rparr>]"
  shows "moves st (cur, Some (length A), closed) t (cur, Some (length A), closed)
    ((doc_of st)\<lparr>x_context := XML_CONTEXT_TAG_ATTRIBUTES, x_attributes := A @ [\<lparr>xa_name = k, xa_value = v\<rparr>]\<rparr>)"
proof -
  let ?doc = "(doc_of st)\<lparr>x_context := XML_CONTEXT_TAG_ATTRIBUTES\<rparr>"
  show ?thesis
  proof (rule moves_token [OF assms(1)])
    fix token st1
    assume "scanned (CHR ''='' # CHR 0x22 # v @ CHR 0x22 # t) st1" "doc_of st1 = doc_of st"
    with token_value [OF _ assms(2-4)] assms(5)
    show "gives st1 token XML_CODE_TAG_ATTRIBUTE_VALUE v t ?doc" by metis
  next
    fix token p1 xml1 w1
    assume a: "scanned t (p1, xml1, w1)" "\<forall>w. doc_of (p1, xml1, w) = ?doc"
    have attrs: "x_attributes xml1 = A @ [\<lparr>xa_name = k, xa_value = u\<rparr>]"
      using assms(6) doc_of_nodes [OF a(2) [rule_format]] by simp
    from string_new_ok [OF scanned_plenty [OF a(1)], of v] obtain w2 where
      "string_new (Some v) w1 = (Some v, w2)" "plenty w2" by blast
    with a attrs
    show "\<exists>xml2 w2. document_token (filled XML_CODE_TAG_ATTRIBUTE_VALUE v token) xml1 w1 (cur, Some (length A), closed)
        = Some (xml2, w2, cur, Some (length A), closed) \<and> plenty w2
        \<and> x_inject xml2 = x_inject xml1 \<and> doc_of (p1, xml2, w2) = (doc_of st)\<lparr>
          x_context := XML_CONTEXT_TAG_ATTRIBUTES, x_attributes := A @ [\<lparr>xa_name = k, xa_value = v\<rparr>]\<rparr>"
      by (simp add: document_token_def document_tag_attribute_value_def xml_attribute_set_value_def)
  qed
qed

lemma moves_attributes:
  assumes "scanned (concat (map render_attribute al) @ t) st"
    and "doc_of st = doc B XML_CONTEXT_TAG_ATTRIBUTES (M @ [XML_NODE_TYPE_TAG par n as []]) A"
    and "\<forall>(k, v) \<in> set al. attribute_name k \<and> plain v \<and> CHR 0x22 \<notin> set v"
  shows "\<exists>att'. moves st (Some (length M), att, TS_OPEN) t (Some (length M), att', TS_OPEN)
    (doc B XML_CONTEXT_TAG_ATTRIBUTES (M @ [XML_NODE_TYPE_TAG par n (as @ [length A..<length A + length al]) []])
      (A @ map attribute_of al))"
  using assms
proof (induction al arbitrary: st as A att)
  case Nil
  then have "moves st (Some (length M), att, TS_OPEN) t (Some (length M), att, TS_OPEN)
      (doc B XML_CONTEXT_TAG_ATTRIBUTES (M @ [XML_NODE_TYPE_TAG par n as []]) A)" by (intro moves_refl) simp_all
  then show ?case by auto
next
  case (Cons kv al)
  obtain k v where kv: "kv = (k, v)" by (cases kv)
  let ?t = "concat (map render_attribute al) @ t" and ?k = "length M"
  have ok: "attribute_name k" "CHR 0x22 \<notin> set v" "plain v" using Cons.prems(3) kv by auto
  have sc: "scanned (CHR '' '' # k @ CHR ''='' # CHR 0x22 # v @ CHR 0x22 # ?t) st"
    using Cons.prems(1) render_attribute_def [of "(k, v)"] by (simp add: kv)
  have "NUL \<notin> set v \<and> CHR 0xFF \<notin> set v" using ok(3) by (induction v) auto
  then have chars: "NUL \<notin> set v" "CHR 0xFF \<notin> set v" by auto
  let ?N = "M @ [XML_NODE_TYPE_TAG par n (as @ [length A]) []]"
  have tag: "tag_at (doc_of st) (Some ?k) = Some (?k, par, n, as, [])"
    using Cons.prems(2) tag_at_doc [of M ?k] by simp
  have 1: "moves st (Some ?k, att, TS_OPEN) (CHR ''='' # CHR 0x22 # v @ CHR 0x22 # ?t)
      (Some ?k, Some (length A), TS_OPEN)
      (doc B XML_CONTEXT_TAG_ATTRIBUTES_VALUE ?N (A @ [\<lparr>xa_name = k, xa_value = k\<rparr>]))"
    using moves_attribute_name [OF sc ok(1) _ tag, of att TS_OPEN] Cons.prems(2) by simp
  have 2: "moves st1 (Some ?k, Some (length A), TS_OPEN) ?t (Some ?k, Some (length A), TS_OPEN)
      (doc B XML_CONTEXT_TAG_ATTRIBUTES ?N (A @ [attribute_of kv]))"
    if "scanned (CHR ''='' # CHR 0x22 # v @ CHR 0x22 # ?t) st1"
      "doc_of st1 = doc B XML_CONTEXT_TAG_ATTRIBUTES_VALUE ?N (A @ [\<lparr>xa_name = k, xa_value = k\<rparr>])" for st1
    using moves_attribute_value [OF that(1) ok(2) chars, of A k k "Some ?k" TS_OPEN] that(2) kv
    by (simp add: attribute_of_def)
  from moves_trans [OF 1 2] have "moves st (Some ?k, att, TS_OPEN) ?t (Some ?k, Some (length A), TS_OPEN)
      (doc B XML_CONTEXT_TAG_ATTRIBUTES ?N (A @ [attribute_of kv]))" .
  then obtain st2 where st2: "document_loop st (Some ?k, att, TS_OPEN)
      = document_loop st2 (Some ?k, Some (length A), TS_OPEN)" "scanned ?t st2"
    "doc_of st2 = doc B XML_CONTEXT_TAG_ATTRIBUTES ?N (A @ [attribute_of kv])" unfolding moves_def by blast
  have "[length A..<length A + length (kv # al)] = length A # [Suc (length A)..<Suc (length A) + length al]"
    by (subst upt_conv_Cons) simp_all
  with Cons.IH [OF st2(2,3), of "Some (length A)"] Cons.prems(3) obtain att' where
    "moves st2 (Some ?k, Some (length A), TS_OPEN) t (Some ?k, att', TS_OPEN)
      (doc B XML_CONTEXT_TAG_ATTRIBUTES (M @ [XML_NODE_TYPE_TAG par n
          (as @ [length A..<length A + length (kv # al)]) []])
        (A @ map attribute_of (kv # al)))" by auto
  with moves_from [OF st2(1)] show ?case by blast
qed

text \<open>What follows a piece: text is followed by a tag or an entity.\<close>

definition follows :: "xtree \<Rightarrow> string \<Rightarrow> bool" where
  "follows t rest \<longleftrightarrow> (case t of XData _ \<Rightarrow> rest = [] \<or> hd rest = CHR ''<'' \<or> hd rest = CHR ''&'' | _ \<Rightarrow> True)"

text \<open>A tag from behind its name on, with \<open>M\<close> the nodes before it.\<close>

lemma moves_body:
  assumes children: "\<And>st att N A cs. scanned (concat (map (render short) ts) @ ''</'' @ n @ ''>'' @ rest) st \<Longrightarrow>
      doc_of st = doc B XML_CONTEXT_DATA (M @ [XML_NODE_TYPE_TAG par n as []]) A \<Longrightarrow>
      \<exists>att'. moves st (Some (length M), att, TS_UNKNOWN) (''</'' @ n @ ''>'' @ rest) (Some (length M), att', TS_UNKNOWN)
        (doc B XML_CONTEXT_DATA (M @ XML_NODE_TYPE_TAG par n as (map Some (roots (Suc (length M)) ts))
            # layouts (Suc (length M)) (length A) (Some (length M)) ts)
          (A @ concat (map attributes_of ts)))"
    and "scanned (concat (map render_attribute al)
        @ (if short \<and> ts = [] then ''/>'' else ''>'' @ concat (map (render short) ts) @ ''</'' @ n @ ''>'') @ rest) st"
    and "doc_of st = doc B XML_CONTEXT_TAG_ATTRIBUTES (M @ [XML_NODE_TYPE_TAG par n [] []]) A"
    and "tag_name n" "\<forall>(k, v) \<in> set al. attribute_name k \<and> plain v \<and> CHR 0x22 \<notin> set v"
    and as: "as = [length A..<length A + length al]"
  shows "\<exists>att'. moves st (Some (length M), att, TS_OPEN) rest (par, att', TS_UNKNOWN)
    (doc B XML_CONTEXT_DATA (M @ layout (length M) (length A) par (XTag n al ts)) (A @ attributes_of (XTag n al ts)))"
proof -
  let ?k = "length M" and ?A = "A @ map attribute_of al"
  let ?N = "M @ [XML_NODE_TYPE_TAG par n as []]"
  let ?t = "(if short \<and> ts = [] then ''/>'' else ''>'' @ concat (map (render short) ts) @ ''</'' @ n @ ''>'') @ rest"
  from moves_attributes [OF assms(2,3,5), of att] obtain att1 where
    1: "moves st (Some ?k, att, TS_OPEN) ?t (Some ?k, att1, TS_OPEN) (doc B XML_CONTEXT_TAG_ATTRIBUTES ?N ?A)"
    unfolding as by auto
  then obtain st1 where st1: "document_loop st (Some ?k, att, TS_OPEN) = document_loop st1 (Some ?k, att1, TS_OPEN)"
    "scanned ?t st1" "doc_of st1 = doc B XML_CONTEXT_TAG_ATTRIBUTES ?N ?A" unfolding moves_def by blast
  have "\<exists>att'. moves st1 (Some ?k, att1, TS_OPEN) rest (par, att', TS_UNKNOWN)
    (doc B XML_CONTEXT_DATA (M @ layout ?k (length A) par (XTag n al ts)) (A @ attributes_of (XTag n al ts)))"
  proof (cases "short \<and> ts = []")
    case True
    then have sc: "scanned (CHR ''/'' # CHR ''>'' # rest) st1" using st1(2) by simp
    have 2: "moves st1 (Some ?k, att1, TS_OPEN) (CHR ''>'' # rest) (Some ?k, att1, TS_SHORT)
        (doc B XML_CONTEXT_TAG_ATTRIBUTES ?N ?A)"
      using moves_close [OF sc, of "Some ?k" att1 TS_OPEN] st1(3) by simp
    have 3: "moves st2 (Some ?k, att1, TS_SHORT) rest (par, att1, TS_UNKNOWN) (doc B XML_CONTEXT_DATA ?N ?A)"
      if "scanned (CHR ''>'' # rest) st2" "doc_of st2 = doc B XML_CONTEXT_TAG_ATTRIBUTES ?N ?A" for st2
      using moves_leave_short [OF that(1), of "Some ?k" ?k par n as "[]"] that(2) tag_at_doc [of M ?k] by simp
    from moves_trans [OF 2 3] True as show ?thesis by auto
  next
    case False
    let ?close = "''</'' @ n @ ''>'' @ rest"
    let ?N' = "M @ XML_NODE_TYPE_TAG par n as (map Some (roots (Suc ?k) ts))
      # layouts (Suc ?k) (length ?A) (Some ?k) ts" and ?A' = "?A @ concat (map attributes_of ts)"
    have "?t = CHR ''>'' # concat (map (render short) ts) @ ?close" by (simp only: if_not_P [OF False]) simp
    then have sc: "scanned (CHR ''>'' # concat (map (render short) ts) @ ?close) st1" using st1(2) by (simp only:)
    have 2: "moves st1 (Some ?k, att1, TS_OPEN) (concat (map (render short) ts) @ ?close) (Some ?k, att1, TS_UNKNOWN)
        (doc B XML_CONTEXT_DATA ?N ?A)"
      using moves_leave [OF sc, of TS_OPEN "Some ?k" att1] st1(3) by simp
    then obtain st2 where st2: "document_loop st1 (Some ?k, att1, TS_OPEN) = document_loop st2 (Some ?k, att1, TS_UNKNOWN)"
      "scanned (concat (map (render short) ts) @ ?close) st2" "doc_of st2 = doc B XML_CONTEXT_DATA ?N ?A"
      unfolding moves_def by blast
    from children [OF st2(2,3), of att1] obtain att2 where
      3: "moves st2 (Some ?k, att1, TS_UNKNOWN) ?close (Some ?k, att2, TS_UNKNOWN) (doc B XML_CONTEXT_DATA ?N' ?A')"
      by blast
    have 4: "moves st3 (Some ?k, att2, TS_UNKNOWN) (CHR ''/'' # n @ CHR ''>'' # rest) (Some ?k, att2, TS_UNKNOWN)
        (doc B XML_CONTEXT_TAG ?N' ?A')"
      if "scanned ?close st3" "doc_of st3 = doc B XML_CONTEXT_DATA ?N' ?A'" for st3
      using moves_enter [of "CHR ''/'' # n @ CHR ''>'' # rest" st3] that by simp
    have 5: "moves st3 (Some ?k, att2, TS_UNKNOWN) (n @ CHR ''>'' # rest) (Some ?k, att2, TS_CLOSE)
        (doc B XML_CONTEXT_TAG ?N' ?A')"
      if "scanned (CHR ''/'' # n @ CHR ''>'' # rest) st3" "doc_of st3 = doc B XML_CONTEXT_TAG ?N' ?A'" for st3
      using moves_close [OF that(1), of "Some ?k" att2 TS_UNKNOWN] that(2) by simp
    have 6: "moves st3 (Some ?k, att2, TS_CLOSE) (CHR ''>'' # rest) (par, att2, TS_CLOSE)
        (doc B XML_CONTEXT_TAG_ATTRIBUTES ?N' ?A')"
      if "scanned (n @ CHR ''>'' # rest) st3" "doc_of st3 = doc B XML_CONTEXT_TAG ?N' ?A'" for st3
      using moves_name_close [OF that(1) assms(4)] that(2) tag_at_doc [of M ?k] by simp
    have 7: "moves st3 (par, att2, TS_CLOSE) rest (par, att2, TS_UNKNOWN) (doc B XML_CONTEXT_DATA ?N' ?A')"
      if "scanned (CHR ''>'' # rest) st3" "doc_of st3 = doc B XML_CONTEXT_TAG_ATTRIBUTES ?N' ?A'" for st3
      using moves_leave [OF that(1), of TS_CLOSE par att2] that(2) by simp
    from moves_trans [OF moves_trans [OF moves_trans [OF moves_trans [OF 3 4] 5] 6] 7]
    have "moves st2 (Some ?k, att1, TS_UNKNOWN) rest (par, att2, TS_UNKNOWN) (doc B XML_CONTEXT_DATA ?N' ?A')" .
    from moves_from [OF st2(1) this] as show ?thesis by auto
  qed
  with moves_from [OF st1(1)] show ?thesis by blast
qed

lemma render_tag_next:
  "concat (map render_attribute al) @ (if short \<and> ts = [] then ''/>'' else ''>'' @ u) @ rest = s \<Longrightarrow>
   s = [] \<or> hd s = CHR ''>'' \<or> hd s = CHR ''/'' \<or> hd s = CHR '' ''"
  by (cases al) (auto simp: render_attribute_def split: if_splits)

lemma moves_forest:
  assumes tree: "\<And>t rest st cur i par name as cs att N A. t \<in> set ts \<Longrightarrow> scanned (render short t @ rest) st \<Longrightarrow>
      doc_of st = doc B XML_CONTEXT_DATA N A \<Longrightarrow> cur = Some i \<Longrightarrow> i < length N \<Longrightarrow>
      N ! i = XML_NODE_TYPE_TAG par name as cs \<Longrightarrow> xml_ok t \<Longrightarrow> follows t rest \<Longrightarrow>
      \<exists>att'. moves st (cur, att, TS_UNKNOWN) rest (cur, att', TS_UNKNOWN)
        (doc B XML_CONTEXT_DATA (N[i := XML_NODE_TYPE_TAG par name as (cs @ [Some (length N)])]
          @ layout (length N) (length A) cur t) (A @ attributes_of t))"
    and "scanned (concat (map (render short) ts) @ rest) st" "doc_of st = doc B XML_CONTEXT_DATA N A"
    and "cur = Some i" "i < length N" "N ! i = XML_NODE_TYPE_TAG par name as cs"
    and "\<forall>t \<in> set ts. xml_ok t" "apart ts" "rest \<noteq> []" "hd rest = CHR ''<''"
  shows "\<exists>att'. moves st (cur, att, TS_UNKNOWN) rest (cur, att', TS_UNKNOWN)
    (doc B XML_CONTEXT_DATA (N[i := XML_NODE_TYPE_TAG par name as (cs @ map Some (roots (length N) ts))]
      @ layouts (length N) (length A) cur ts) (A @ concat (map attributes_of ts)))"
  using assms
proof (induction ts arbitrary: st att N A cs)
  case Nil
  then have "N[i := XML_NODE_TYPE_TAG par name as cs] = N" by (metis list_update_id)
  moreover have "moves st (cur, att, TS_UNKNOWN) rest (cur, att, TS_UNKNOWN) (doc B XML_CONTEXT_DATA N A)"
    using Nil by (intro moves_refl) simp_all
  ultimately show ?case by auto
next
  case (Cons t ts)
  let ?rest = "concat (map (render short) ts) @ rest"
  have "follows t ?rest"
  proof (cases t)
    case (XData s)
    show ?thesis
    proof (cases ts)
      case Nil
      with Cons.prems(9,10) XData show ?thesis by (simp add: follows_def)
    next
      case (Cons t' ts')
      with XData \<open>apart (t # ts)\<close> have "\<nexists>s'. t' = XData s'" by auto
      then show ?thesis using Cons XData by (cases t') (simp_all add: follows_def)
    qed
  qed (simp_all add: follows_def)
  then obtain att1 where 1: "moves st (cur, att, TS_UNKNOWN) ?rest (cur, att1, TS_UNKNOWN)
      (doc B XML_CONTEXT_DATA (N[i := XML_NODE_TYPE_TAG par name as (cs @ [Some (length N)])]
        @ layout (length N) (length A) cur t) (A @ attributes_of t))"
    using Cons.prems(1) [of t ?rest st N A cur i par name as cs att] Cons.prems(2-7) by auto
  let ?N = "N[i := XML_NODE_TYPE_TAG par name as (cs @ [Some (length N)])] @ layout (length N) (length A) cur t"
  from 1 obtain st1 where st1: "document_loop st (cur, att, TS_UNKNOWN) = document_loop st1 (cur, att1, TS_UNKNOWN)"
    "scanned ?rest st1" "doc_of st1 = doc B XML_CONTEXT_DATA ?N (A @ attributes_of t)" unfolding moves_def by blast
  have "apart ts" using Cons.prems(8) by (cases t; cases ts; cases "hd ts") auto
  moreover have "i < length ?N" "?N ! i = XML_NODE_TYPE_TAG par name as (cs @ [Some (length N)])"
    using Cons.prems(5) by (simp_all add: nth_append)
  ultimately obtain att2 where "moves st1 (cur, att1, TS_UNKNOWN) rest (cur, att2, TS_UNKNOWN)
      (doc B XML_CONTEXT_DATA (?N[i := XML_NODE_TYPE_TAG par name as
          ((cs @ [Some (length N)]) @ map Some (roots (length ?N) ts))]
        @ layouts (length ?N) (length (A @ attributes_of t)) cur ts)
        ((A @ attributes_of t) @ concat (map attributes_of ts)))"
    using Cons.IH [OF Cons.prems(1) st1(2,3) Cons.prems(4), of _ att1] Cons.prems(7,9,10) by fastforce
  then have "moves st1 (cur, att1, TS_UNKNOWN) rest (cur, att2, TS_UNKNOWN)
      (doc B XML_CONTEXT_DATA (N[i := XML_NODE_TYPE_TAG par name as (cs @ map Some (roots (length N) (t # ts)))]
        @ layouts (length N) (length A) cur (t # ts)) (A @ concat (map attributes_of (t # ts))))"
    using Cons.prems(5) by (simp add: list_update_append length_layout)
  from moves_from [OF st1(1) this] show ?case by blast
qed

lemma moves_tree:
  assumes "scanned (render short t @ rest) st" "doc_of st = doc B XML_CONTEXT_DATA N A"
    and "cur = Some i" "i < length N" "N ! i = XML_NODE_TYPE_TAG par name as cs" "xml_ok t" "follows t rest"
  shows "\<exists>att'. moves st (cur, att, TS_UNKNOWN) rest (cur, att', TS_UNKNOWN)
    (doc B XML_CONTEXT_DATA (N[i := XML_NODE_TYPE_TAG par name as (cs @ [Some (length N)])]
      @ layout (length N) (length A) cur t) (A @ attributes_of t))"
  using assms
proof (induction t arbitrary: rest st cur i par name as cs att N A)
  case (XData s)
  then have "tag_at (doc_of st) cur = Some (i, par, name, as, cs)" by (simp add: tag_at_def)
  from moves_data [OF _ _ _ _ _ _ _ this, of s rest att TS_UNKNOWN] XData
  show ?case by (auto simp: follows_def)
next
  case (XEntity e)
  then have "tag_at (doc_of st) cur = Some (i, par, name, as, cs)" by (simp add: tag_at_def)
  from moves_entity [OF _ _ _ _ _ _ this, of e rest att TS_UNKNOWN] XEntity
  show ?case by auto
next
  case (XTag n al ts)
  let ?tail = "concat (map render_attribute al)
    @ (if short \<and> ts = [] then ''/>'' else ''>'' @ concat (map (render short) ts) @ ''</'' @ n @ ''>'') @ rest"
  let ?M = "N[i := XML_NODE_TYPE_TAG par name as (cs @ [Some (length N)])]"
  from XTag.prems(1) have sc: "scanned (CHR ''<'' # n @ ?tail) st" by simp
  have 1: "moves st (cur, att, TS_UNKNOWN) (n @ ?tail) (cur, att, TS_UNKNOWN) (doc B XML_CONTEXT_TAG N A)"
    using moves_enter [OF sc, of "(cur, att, TS_UNKNOWN)"] XTag.prems(2) by simp
  have 2: "moves st1 (cur, att, TS_UNKNOWN) ?tail (Some (length N), att, TS_OPEN)
      (doc B XML_CONTEXT_TAG_ATTRIBUTES (?M @ [XML_NODE_TYPE_TAG cur n [] []]) A)"
    if "scanned (n @ ?tail) st1" "doc_of st1 = doc B XML_CONTEXT_TAG N A" for st1
  proof -
    have "tag_at (doc_of st1) cur = Some (i, par, name, as, cs)" using that(2) XTag.prems(3-5) by (simp add: tag_at_def)
    from moves_open [OF that(1) _ _ render_tag_next [OF refl] this, of TS_UNKNOWN att] that(2) XTag.prems(6)
    show ?thesis by simp
  qed
  from moves_trans [OF 1 2] obtain st1 where
    st1: "document_loop st (cur, att, TS_UNKNOWN) = document_loop st1 (Some (length ?M), att, TS_OPEN)"
      "scanned ?tail st1"
      "doc_of st1 = doc B XML_CONTEXT_TAG_ATTRIBUTES (?M @ [XML_NODE_TYPE_TAG cur n [] []]) A"
    unfolding moves_def by auto
  have children: "\<exists>att'. moves st' (Some (length ?M), att, TS_UNKNOWN) (''</'' @ n @ ''>'' @ rest)
        (Some (length ?M), att', TS_UNKNOWN)
        (doc B XML_CONTEXT_DATA (?M @ XML_NODE_TYPE_TAG cur n as' (map Some (roots (Suc (length ?M)) ts))
            # layouts (Suc (length ?M)) (length A') (Some (length ?M)) ts) (A' @ concat (map attributes_of ts)))"
    if "scanned (concat (map (render short) ts) @ ''</'' @ n @ ''>'' @ rest) st'"
      "doc_of st' = doc B XML_CONTEXT_DATA (?M @ [XML_NODE_TYPE_TAG cur n as' []]) A'" for st' as' A' att
  proof -
    let ?X = "XML_NODE_TYPE_TAG cur n as' []" and ?close = "''</'' @ n @ ''>'' @ rest"
    have "\<exists>att'. moves st' (Some (length ?M), att, TS_UNKNOWN) ?close (Some (length ?M), att', TS_UNKNOWN)
        (doc B XML_CONTEXT_DATA ((?M @ [?X])[length ?M :=
            XML_NODE_TYPE_TAG cur n as' ([] @ map Some (roots (length (?M @ [?X])) ts))]
          @ layouts (length (?M @ [?X])) (length A') (Some (length ?M)) ts) (A' @ concat (map attributes_of ts)))"
      by (rule moves_forest [OF _ that refl]) (use XTag.IH XTag.prems(6) in \<open>simp_all add: nth_append\<close>)
    then show ?thesis by (simp add: list_update_append)
  qed
  from XTag.prems(6) have ok: "tag_name n" "\<forall>(k, v) \<in> set al. attribute_name k \<and> plain v \<and> CHR 0x22 \<notin> set v"
    by auto
  from moves_body [OF children st1(2,3) ok refl, of att] obtain att' where
    "moves st1 (Some (length ?M), att, TS_OPEN) rest (cur, att', TS_UNKNOWN)
      (doc B XML_CONTEXT_DATA (?M @ layout (length ?M) (length A) cur (XTag n al ts)) (A @ attributes_of (XTag n al ts)))"
    by blast
  with moves_from [OF st1(1)] show ?case by (metis length_list_update)
qed

text \<open>The whole document, up to the end of the source.\<close>

lemma document_text:
  assumes "ready (render short (XTag n al ts)) (p, xml, w)" "plain (render short (XTag n al ts))" "p_last p = EOF"
    and "xml_ok (XTag n al ts)" "doc_of (p, xml, w) = doc B XML_CONTEXT_DATA [] []"
  shows "\<exists>att. moves (p, xml, w) (None, None, TS_UNKNOWN) [] (None, att, TS_UNKNOWN)
    (doc (B\<lparr>x_document := Some (Some 0)\<rparr>) XML_CONTEXT_DATA (layout 0 0 None (XTag n al ts))
      (attributes_of (XTag n al ts)))"
proof -
  let ?B = "B\<lparr>x_document := Some (Some 0)\<rparr>"
  let ?tail = "concat (map render_attribute al)
    @ (if short \<and> ts = [] then ''/>'' else ''>'' @ concat (map (render short) ts) @ ''</'' @ n @ ''>'') @ []"
  from assms(4) have ok: "tag_name n" "\<forall>(k, v) \<in> set al. attribute_name k \<and> plain v \<and> CHR 0x22 \<notin> set v" by auto
  have rend: "render short (XTag n al ts) = CHR ''<'' # n @ ?tail" by simp
  have enter: "gives st1 token XML_CODE_TAG_ENTER ''<'' (n @ ?tail) (doc B XML_CONTEXT_TAG [] [])"
    if "scanned (CHR ''<'' # n @ ?tail) st1" "doc_of st1 = doc_of (p, xml, w)" for st1 token
    using token_enter [OF that(1), of token] that(2) assms(5) by simp
  obtain token p1 xml1 w1 where
    tok: "parser_get_token xml_filters xml_callbacks p xml w
        = Some (0, Some (filled XML_CODE_TAG_ENTER ''<'' token), p1, xml1, w1)"
      "scanned (n @ ?tail) (p1, xml1, w1)" "doc_of (p1, xml1, w1) = doc B XML_CONTEXT_TAG [] []"
    using get_first_token_gives [OF assms(1) [unfolded rend] assms(2) [unfolded rend] assms(3) enter] by blast
  have 1: "document_loop (p, xml, w) (None, None, TS_UNKNOWN) = document_loop (p1, xml1, w1) (None, None, TS_UNKNOWN)"
    using tok(1) by (subst document_loop.simps) (simp add: document_token_def)
  have 2: "moves (p1, xml1, w1) (None, None, TS_UNKNOWN) ?tail (Some 0, None, TS_OPEN)
      (doc ?B XML_CONTEXT_TAG_ATTRIBUTES ([] @ [XML_NODE_TYPE_TAG None n [] []]) [])"
    using moves_open_root [OF tok(2) ok(1) _ render_tag_next [OF refl], of TS_UNKNOWN None] tok(3) by simp
  then obtain st2 where st2: "document_loop (p1, xml1, w1) (None, None, TS_UNKNOWN)
      = document_loop st2 (Some (length ([] :: XMLNode list)), None, TS_OPEN)"
    "scanned ?tail st2" "doc_of st2 = doc ?B XML_CONTEXT_TAG_ATTRIBUTES ([] @ [XML_NODE_TYPE_TAG None n [] []]) []"
    unfolding moves_def by auto
  have children: "\<exists>att'. moves st' (Some (length ([] :: XMLNode list)), att, TS_UNKNOWN) (''</'' @ n @ ''>'' @ [])
        (Some (length ([] :: XMLNode list)), att', TS_UNKNOWN)
        (doc ?B XML_CONTEXT_DATA ([] @ XML_NODE_TYPE_TAG None n as' (map Some (roots (Suc (length ([] :: XMLNode list))) ts))
            # layouts (Suc (length ([] :: XMLNode list))) (length A') (Some (length ([] :: XMLNode list))) ts)
          (A' @ concat (map attributes_of ts)))"
    if "scanned (concat (map (render short) ts) @ ''</'' @ n @ ''>'' @ []) st'"
      "doc_of st' = doc ?B XML_CONTEXT_DATA ([] @ [XML_NODE_TYPE_TAG None n as' []]) A'" for st' as' A' att
  proof -
    let ?X = "XML_NODE_TYPE_TAG None n as' []"
    have "\<exists>att'. moves st' (Some 0, att, TS_UNKNOWN) (''</'' @ n @ ''>'' @ []) (Some 0, att', TS_UNKNOWN)
        (doc ?B XML_CONTEXT_DATA (([] @ [?X])[0 :=
            XML_NODE_TYPE_TAG None n as' ([] @ map Some (roots (length ([] @ [?X])) ts))]
          @ layouts (length ([] @ [?X])) (length A') (Some 0) ts) (A' @ concat (map attributes_of ts)))"
      by (rule moves_forest [OF moves_tree that refl]) (use assms(4) in simp_all)
    then show ?thesis by simp
  qed
  from moves_body [OF children st2(2,3) ok refl, of None] obtain att where
    "moves st2 (Some (length ([] :: XMLNode list)), None, TS_OPEN) [] (None, att, TS_UNKNOWN)
      (doc ?B XML_CONTEXT_DATA ([] @ layout (length ([] :: XMLNode list)) (length ([] :: XMLAttribute list)) None (XTag n al ts))
        ([] @ attributes_of (XTag n al ts)))" by blast
  from moves_from [OF trans [OF 1 st2(1)] this] show ?thesis
    unfolding append_Nil list.size(3) by blast
qed

end

section \<open>The end of the source\<close>

lemma offer_EOF:
  assumes "p_last (fst st) = EOF" "x_context (doc_of st) = XML_CONTEXT_DATA"
  shows "offer xml_callback_list token st = Some (None, token, st)"
proof -
  have "\<not> isspace EOF" "\<not> isalnum EOF" by (auto simp: isspace_range EOF_def dest: isalnum_range)
  moreover have "data_loop [] EOF st = Some (Some [], st)"
    by (cases st) (subst data_loop.simps, simp)
  ultimately show ?thesis using assms
    by (cases st) (simp add: xml_callback_list_def declines xml_callback_data_def get_context_doc decline_def EOF_def)
qed

lemma file_end:
  assumes "xml_file.scanned [] st" "x_context (doc_of st) = XML_CONTEXT_DATA"
  shows "\<exists>st'. document_loop st l = Some st' \<and> doc_of st' = doc_of st"
proof -
  obtain p xml w where st: "st = (p, xml, w)" by (cases st)
  from assms(1) have sc: "p_last p = EOF" "xml_file.ready [] (p, xml, w)" "plenty w"
    by (auto simp: st xml_file.scanned_def xml_file.ready_def file_ended_def)
  obtain token w1 where tok: "token_new (p_filename p) (p_line p) (p_col p) w = (Some token, w1)" "plenty w1"
    using token_new_ok [OF sc(3), of "p_filename p" "p_line p" "p_col p"] by blast
  have "xml_file.ready [] (p, xml, w1)" using sc(2) tok(2) by (auto simp: xml_file.ready_def)
  from xml_file.scan_ready [OF this] obtain st1 where st1: "xml_scan (p, xml, w1) = Some (EOF, st1)"
    "xml_file.scanned [] st1" "doc_of st1 = doc_of (p, xml, w1)" by auto
  obtain p1 xml1 w2 where e: "st1 = (p1, xml1, w2)" by (cases st1)
  from st1(2) have p1: "p_last p1 = EOF" "regs_of p1 = xml_regs"
    by (auto simp: e xml_file.scanned_def)
  then have cb: "p_callbacks p1 = map (\<lambda>f. (f, 0)) [0..<10]" "p_callbacks_cnt p1 = length (p_callbacks p1)"
    by (simp_all add: regs_of_def xml_regs_def)
  have doc: "doc_of (p1, xml1, w2) = doc_of st" using st1(3) by (simp add: st e doc_of_def)
  have off: "offer xml_callback_list token (p1, xml1, w2) = Some (None, token, p1, xml1, w2)"
    by (rule offer_EOF) (simp_all add: p1 doc assms(2))
  have "(if p_last p = EOF then parser_scan_filter xml_filters p (xml, w1) else Some (0, p, xml, w1))
      = Some (EOF, p1, xml1, w2)"
    using st1(1) sc(1) by (simp add: xml_scan_def e)
  from parser_get_token_run [OF keeps_xml_callbacks cb(2) tok(1) this]
  have "parser_get_token xml_filters xml_callbacks p xml w = Some (0, None, p1, xml1, w2)"
    using run_callbacks_offer [of 0 token p1 "(xml1, w2)"] cb(1) off p1(1) by simp
  then have "document_loop st l = Some (p1, xml1, w2)" by (subst document_loop.simps) (simp add: st)
  with doc show ?thesis by blast
qed

lemma string_end:
  assumes "xml_string.scanned [] st"
  shows "document_loop st l = None"
proof -
  obtain p xml w where st: "st = (p, xml, w)" by (cases st)
  from assms have sc: "p_last p = EOF" "regs_of p = xml_regs" "p_lookahead p = 0" "string_ended p" "plenty w"
    by (auto simp: st xml_string.scanned_def)
  obtain token w1 where tok: "token_new (p_filename p) (p_line p) (p_col p) w = (Some token, w1)"
    using token_new_ok [OF sc(5), of "p_filename p" "p_line p" "p_col p"] by blast
  have "run_scanner p = None"
    using sc(4) by (simp add: run_scanner_def parser_scanner_string_def string_ended_def Let_def load_def)
  then have "parser_scan_filter xml_filters p (xml, w1) = None"
    using sc(3) by (simp add: parser_scan_filter_def)
  then have "parser_get_token xml_filters xml_callbacks p xml w = None"
    using tok sc(1) by (simp add: parser_get_token_def)
  then show ?thesis by (subst document_loop.simps) (simp add: st)
qed

section \<open>Creation\<close>

lemma add_callbacks_ok:
  "plenty w \<Longrightarrow> p_callbacks_cnt p = length (p_callbacks p) \<Longrightarrow>
   \<exists>w'. add_callbacks fs p w = (p\<lparr>p_callbacks := p_callbacks p @ map (\<lambda>f. (f, 0)) fs,
      p_callbacks_cnt := p_callbacks_cnt p + length fs\<rparr>, w') \<and> plenty w'"
proof (induction fs arbitrary: p w)
  case Nil
  then show ?case by simp
next
  case (Cons f fs)
  obtain w1 where w1: "w_alloc w = (True, w1)" "plenty w1" using w_alloc_plenty [OF Cons.prems(1)] by blast
  have "\<exists>w'. add_callbacks fs (p\<lparr>p_callbacks := p_callbacks p @ [(f, 0)],
      p_callbacks_cnt := p_callbacks_cnt p + 1\<rparr>) w1 = (p\<lparr>p_callbacks := p_callbacks p @ map (\<lambda>f. (f, 0)) (f # fs),
      p_callbacks_cnt := p_callbacks_cnt p + length (f # fs)\<rparr>, w') \<and> plenty w'"
    using Cons.IH [OF w1(2), of "p\<lparr>p_callbacks := p_callbacks p @ [(f, 0)],
      p_callbacks_cnt := p_callbacks_cnt p + 1\<rparr>"] Cons.prems(2) by simp
  with w1 Cons.prems(2) show ?case by (simp add: parser_add_callback_def)
qed

lemma add_filters_ok:
  assumes "plenty w" "p_filters p = []" "p_filters_cnt p = 0"
  shows "\<exists>w'. add_filters [F_INJECT, F_COMMENT] p w = (p\<lparr>p_filters := [(F_INJECT, 0), (F_COMMENT, 0)],
      p_filters_cnt := 2\<rparr>, w') \<and> plenty w'"
proof -
  obtain w1 where w1: "w_alloc w = (True, w1)" "plenty w1" using w_alloc_plenty [OF assms(1)] by blast
  obtain w2 where "w_alloc w1 = (True, w2)" "plenty w2" using w_alloc_plenty [OF w1(2)] by blast
  with w1 assms(2,3) show ?thesis by (simp add: parser_add_filter_def)
qed

text \<open>Preferences that leave the whitespace alone.\<close>

definition keeps_space :: "int option \<Rightarrow> bool" where
  "keeps_space prefs \<longleftrightarrow> (case prefs of None \<Rightarrow> True | Some f \<Rightarrow> even f)"

lemma xml_registered:
  assumes "plenty w" "regs_of p = ([], 0, [], 0)" "keeps_space prefs"
  shows "\<exists>q w'. (case add_filters ([F_INJECT]
      @ (if (case prefs of Some f \<Rightarrow> f | None \<Rightarrow> 0) AND XML_FILTER_WHITESPACE = XML_FILTER_WHITESPACE then [F_WHITESPACE] else [])
      @ [F_COMMENT]) p w of (p1, w1) \<Rightarrow> add_callbacks [0..<length xml_callback_list] p1 w1) = (q, w')
    \<and> plenty w' \<and> regs_of q = xml_regs \<and> p_fp q = p_fp p \<and> p_scanner q = p_scanner p \<and> p_string q = p_string p
    \<and> p_string_cnt q = p_string_cnt p \<and> p_string_pos q = p_string_pos p \<and> p_last q = p_last p
    \<and> p_lookahead q = p_lookahead p"
proof -
  have "(case prefs of Some f \<Rightarrow> f | None \<Rightarrow> 0) AND XML_FILTER_WHITESPACE = 0"
    using assms(3) by (cases prefs) (simp_all add: keeps_space_def XML_FILTER_WHITESPACE_def and_one_eq)
  then have fs: "[F_INJECT]
      @ (if (case prefs of Some f \<Rightarrow> f | None \<Rightarrow> 0) AND XML_FILTER_WHITESPACE = XML_FILTER_WHITESPACE then [F_WHITESPACE] else [])
      @ [F_COMMENT] = [F_INJECT, F_COMMENT]" by (simp add: XML_FILTER_WHITESPACE_def)
  from add_filters_ok [OF assms(1), of p] assms(2) obtain w1 where
    w1: "add_filters [F_INJECT, F_COMMENT] p w = (p\<lparr>p_filters := [(F_INJECT, 0), (F_COMMENT, 0)],
      p_filters_cnt := 2\<rparr>, w1)" "plenty w1" by (auto simp: regs_of_def)
  have n: "length xml_callback_list = 10" by (simp add: xml_callback_list_def)
  from add_callbacks_ok [OF w1(2), of "p\<lparr>p_filters := [(F_INJECT, 0), (F_COMMENT, 0)], p_filters_cnt := 2\<rparr>" "[0..<10]"]
    assms(2) w1(1) show ?thesis
    unfolding fs n by (auto simp: regs_of_def xml_regs_def)
qed

abbreviation fresh_xml :: "int option \<Rightarrow> XML" where
  "fresh_xml prefs \<equiv> \<lparr>x_filters = (case prefs of Some f \<Rightarrow> f | None \<Rightarrow> 0), x_document = None,
     x_context = XML_CONTEXT_DATA, x_inject = None, x_nodes = [], x_attributes = []\<rparr>"

lemma xml_new_file:
  assumes "plenty w" "keeps_space prefs" "fopen path = Inr (in_open s)"
  shows "\<exists>p w1. xml_new fopen closing prefs path w = Some (Some (p, fresh_xml prefs), w1)
    \<and> xml_file.ready s (p, fresh_xml prefs, w1) \<and> p_last p = EOF"
proof -
  obtain w1 where w1: "object_new 40 w = (True, w1)" "plenty w1" using object_new_ok [OF assms(1), of 40] by auto
  obtain w2 where w2: "object_new 96 w1 = (True, w2)" "plenty w2" using object_new_ok [OF w1(2), of 96] by auto
  obtain w3 where w3: "string_new (Some path) w2 = (Some path, w3)" "plenty w3" using string_new_ok [OF w2(2)] by blast
  from w2 w3 assms(3) obtain p where p: "parser_new fopen closing path w1 = (Some p, w3)" "regs_of p = ([], 0, [], 0)"
    "p_fp p = Some (in_open s)" "p_scanner p = Scanner_file" "p_last p = EOF" "p_lookahead p = 0"
    by (simp add: parser_new_def new_do_def regs_of_def)
  from xml_registered [OF w3(2) p(2) assms(2)] obtain q w4 where
    q: "(case add_filters ([F_INJECT]
      @ (if (case prefs of Some f \<Rightarrow> f | None \<Rightarrow> 0) AND XML_FILTER_WHITESPACE = XML_FILTER_WHITESPACE then [F_WHITESPACE] else [])
      @ [F_COMMENT]) p w3 of (p1, w1) \<Rightarrow> add_callbacks [0..<length xml_callback_list] p1 w1) = (q, w4)"
    "plenty w4" "regs_of q = xml_regs" "p_fp q = p_fp p" "p_scanner q = p_scanner p" "p_last q = p_last p"
    "p_lookahead q = p_lookahead p" by blast
  then have "xml_file.ready s (q, fresh_xml prefs, w4)" using p
    by (simp add: xml_file.ready_def file_valid_def file_input_def in_open_def)
  moreover have "xml_new fopen closing prefs path w = Some (Some (q, fresh_xml prefs), w4)"
    using w1(1) p(1) q(1) by (auto simp: xml_new_def xml_new_do_def Let_def split: prod.splits)
  ultimately show ?thesis using p q by auto
qed

lemma xml_new_text:
  assumes "plenty w" "keeps_space prefs" "CHR 0xFF \<notin> set s"
  shows "\<exists>p w1. xml_new_string prefs s (length s) w = Some (Some (p, fresh_xml prefs), w1)
    \<and> xml_string.ready s (p, fresh_xml prefs, w1) \<and> p_last p = EOF"
proof -
  obtain w1 where w1: "object_new 40 w = (True, w1)" "plenty w1" using object_new_ok [OF assms(1), of 40] by auto
  obtain w2 where w2: "object_new 96 w1 = (True, w2)" "plenty w2" using object_new_ok [OF w1(2), of 96] by auto
  obtain w3 where w3: "w_alloc w2 = (True, w3)" "plenty w3" using w_alloc_plenty [OF w2(2)] by blast
  from w2 w3 obtain p where p: "parser_new_string s (length s) w1 = Some (Some p, w3)" "regs_of p = ([], 0, [], 0)"
    "p_string p = s" "p_string_cnt p = length s" "p_string_pos p = 0" "p_scanner p = Scanner_string" "p_last p = EOF"
    "p_lookahead p = 0"
    by (simp add: parser_new_string_def new_do_def regs_of_def)
  from xml_registered [OF w3(2) p(2) assms(2)] obtain q w4 where
    q: "(case add_filters ([F_INJECT]
      @ (if (case prefs of Some f \<Rightarrow> f | None \<Rightarrow> 0) AND XML_FILTER_WHITESPACE = XML_FILTER_WHITESPACE then [F_WHITESPACE] else [])
      @ [F_COMMENT]) p w3 of (p1, w1) \<Rightarrow> add_callbacks [0..<length xml_callback_list] p1 w1) = (q, w4)"
    "plenty w4" "regs_of q = xml_regs" "p_scanner q = p_scanner p" "p_string q = p_string p"
    "p_string_cnt q = p_string_cnt p" "p_string_pos q = p_string_pos p" "p_last q = p_last p"
    "p_lookahead q = p_lookahead p" by blast
  then have "xml_string.ready s (q, fresh_xml prefs, w4)" using p assms(3)
    by (simp add: xml_string.ready_def string_valid_def string_input_def)
  moreover have "xml_new_string prefs s (length s) w = Some (Some (q, fresh_xml prefs), w4)"
    using w1(1) p(1) q(1) by (auto simp: xml_new_string_def xml_new_do_def Let_def split: prod.splits)
  ultimately show ?thesis using p q by auto
qed

section \<open>The text of a tree\<close>

lemma plain_alnum: "isalnum (uc c) \<Longrightarrow> c \<noteq> NUL \<and> c \<noteq> CHR 0xFF \<and> c \<noteq> CHR ''<''"
  using isalnum_range [of "uc c"] by (auto simp: uc_def)

lemma plain_chars: "(\<And>c. c \<in> set s \<Longrightarrow> c \<noteq> CHR ''<'' \<and> c \<noteq> NUL \<and> c \<noteq> CHR 0xFF) \<Longrightarrow> plain s"
  by (induction s) auto

lemma plain_tag_name: "tag_name n \<Longrightarrow> plain n"
  by (rule plain_chars) (simp add: tag_name_def name_char_def)

lemma plain_attribute_name:
  assumes "attribute_name k"
  shows "plain k"
proof (rule plain_chars)
  fix c
  assume "c \<in> set k"
  with assms have "isalnum (uc c) \<or> c = CHR '':'' \<or> c = CHR ''-''" by (simp add: attribute_name_def)
  with plain_alnum [of c] show "c \<noteq> CHR ''<'' \<and> c \<noteq> NUL \<and> c \<noteq> CHR 0xFF" by auto
qed

lemma plain_concat: "(\<forall>s \<in> set ss. plain s) \<Longrightarrow> plain (concat ss)"
  by (induction ss) (auto intro: plain_append)

lemma plain_Cons: "c \<noteq> CHR ''<'' \<Longrightarrow> c \<noteq> NUL \<Longrightarrow> c \<noteq> CHR 0xFF \<Longrightarrow> plain (c # s) = plain s"
  by simp

lemma plain_attributes:
  assumes "\<forall>(k, v) \<in> set al. attribute_name k \<and> plain v \<and> CHR 0x22 \<notin> set v"
  shows "plain (concat (map render_attribute al))"
proof (rule plain_concat, rule ballI)
  fix s
  assume "s \<in> set (map render_attribute al)"
  then obtain k v where kv: "(k, v) \<in> set al" "s = CHR '' '' # k @ CHR ''='' # CHR 0x22 # v @ [CHR 0x22]"
    by (auto simp: render_attribute_def)
  with assms have "plain k" "plain v" using plain_attribute_name by auto
  then show "plain s" unfolding kv(2) by (simp add: plain_append)
qed

lemma plain_render: "xml_ok t \<Longrightarrow> plain (render short t)"
proof (induction t)
  case (XTag n al ts)
  have kids: "plain (concat (map (render short) ts))"
    using XTag by (intro plain_concat) auto
  have n: "plain n" "lead (hd n)" "n \<noteq> []"
    using XTag.prems plain_tag_name [of n] by (simp_all add: tag_name_def lead_def)
  have al: "plain (concat (map render_attribute al))" using XTag.prems by (intro plain_attributes) simp
  have "plain (''</'' @ n @ ''>'')" using n by (simp add: lead_def plain_append)
  then have "plain (if short \<and> ts = [] then ''/>'' else ''>'' @ concat (map (render short) ts) @ ''</'' @ n @ ''>'')"
    using kids plain_append by (cases "short \<and> ts = []") (simp_all only: if_True if_False append_Cons append_Nil plain.simps, simp_all)
  then show ?case using n al by (simp add: plain_append)
next
  case (XEntity e)
  then show ?case by (simp add: plain_append)
qed simp

lemma attribute_loop_map_of:
  assumes "\<forall>a \<in> set as. a < length (x_attributes xml)" "map ((!) (x_attributes xml)) as = map attribute_of al"
    and "NUL \<notin> set key" "\<forall>(k, v) \<in> set al. NUL \<notin> set k"
  shows "attribute_loop xml as key = map_of al key"
  using assms
proof (induction as arbitrary: al)
  case (Cons a as)
  then obtain k v al' where al: "al = (k, v) # al'" "x_attributes xml ! a = attribute_of (k, v)"
    "map ((!) (x_attributes xml)) as = map attribute_of al'" by (cases al) auto
  have "attribute_loop xml as key = map_of al' key"
    using Cons.IH [OF _ al(3)] Cons.prems al(1) by simp
  moreover have "cmp_spec k key = 0 \<longleftrightarrow> key = k"
    using Cons.prems(3,4) al(1) cmp_spec_eq_0 [of k key] by auto
  ultimately show ?case using al(1,2) by (simp add: attribute_of_def string_compare_cmp)
qed simp

section \<open>Properties\<close>

text \<open>
  C22: the parser reads back every document from a file: for a tree of tags with attributes, texts
  and entities (\<open>xml_ok\<close>), written with childless tags in the long or in the short form,
  \<open>xml_get_document\<close> builds exactly that tree, with the links to the parents, and
  \<open>xml_node_get_attribute_value_by_name\<close> finds the values of the root's attributes.
\<close>

theorem xml_document_file:
  assumes "xml_ok (XTag n al ts)" "fopen path = Inr (in_open (render short (XTag n al ts)))"
    and "plenty w" "keeps_space prefs"
  shows "\<exists>p xml w1 p' xml' w'. xml_new fopen closing prefs path w = Some (Some (p, xml), w1)
    \<and> xml_get_document (p, xml, w1) = Some (Some (Some 0), p', xml', w')
    \<and> represents (x_nodes xml') (x_attributes xml') None 0 (XTag n al ts)
    \<and> (\<forall>key. NUL \<notin> set key \<longrightarrow> xml_node_get_attribute_value_by_name xml' 0 key = map_of al key)"
proof -
  let ?t = "XTag n al ts" and ?xml = "fresh_xml prefs\<lparr>x_document := Some None\<rparr>"
  from xml_new_file [of w prefs fopen path "render short ?t" closing, OF assms(3,4,2)] obtain p w1 where
    new: "xml_new fopen closing prefs path w = Some (Some (p, fresh_xml prefs), w1)"
      "xml_file.ready (render short ?t) (p, fresh_xml prefs, w1)" "p_last p = EOF" by blast
  then have w1: "plenty w1" by (simp add: xml_file.ready_def)
  obtain w2 where w2: "object_new 8 w1 = (True, w2)" "plenty w2" using object_new_ok [OF w1, of 8] by auto
  with new(2) have ready: "xml_file.ready (render short ?t) (p, ?xml, w2)" by (simp add: xml_file.ready_def)
  have doc0: "doc_of (p, ?xml, w2) = doc ?xml XML_CONTEXT_DATA [] []" by (simp add: doc_of_def doc_def)
  from xml_file.document_text [OF ready plain_render [OF assms(1)] new(3) assms(1) doc0] obtain att st where
    st: "document_loop (p, ?xml, w2) (None, None, TS_UNKNOWN) = document_loop st (None, att, TS_UNKNOWN)"
      "xml_file.scanned [] st"
      "doc_of st = doc (?xml\<lparr>x_document := Some (Some 0)\<rparr>) XML_CONTEXT_DATA (layout 0 0 None ?t) (attributes_of ?t)"
    unfolding xml_file.moves_def by blast
  from file_end [OF st(2), of "(None, att, TS_UNKNOWN)"] st(3) obtain st' where
    st': "document_loop st (None, att, TS_UNKNOWN) = Some st'" "doc_of st' = doc_of st" by auto
  obtain p' xml' w' where e: "st' = (p', xml', w')" by (cases st')
  from doc_of_nodes [OF st'(2) [unfolded e]] st(3) have xml': "x_nodes xml' = layout 0 0 None ?t"
    "x_attributes xml' = attributes_of ?t" "x_document xml' = Some (Some 0)" by simp_all
  have "xml_get_document (p, fresh_xml prefs, w1) = Some (Some (Some 0), p', xml', w')"
    using w2(1) st(1) st'(1) e xml'(3) by (simp add: xml_get_document_def xml_document_new_def)
  moreover have rep: "represents (x_nodes xml') (x_attributes xml') None 0 ?t"
    using represents_layout [of "x_nodes xml'" "[]" 0 0 None ?t "[]" "x_attributes xml'" "[]" "[]"] xml' by simp
  moreover have "\<forall>(k, v) \<in> set al. NUL \<notin> set k"
  proof (rule ballI, clarify)
    fix k v
    assume "(k, v) \<in> set al" "NUL \<in> set k"
    with assms(1) have "attribute_name k" by auto
    with plain_attribute_name plain_NUL \<open>NUL \<in> set k\<close> show False by blast
  qed
  with rep have "xml_node_get_attribute_value_by_name xml' 0 key = map_of al key" if "NUL \<notin> set key" for key
    using attribute_loop_map_of [of _ xml' al key] that
    by (auto simp: xml_node_get_attribute_value_by_name_def)
  ultimately show ?thesis using new(1) by blast
qed

theorem xml_document_file_witness:
  "\<exists>p xml w1 p' xml' w'. xml_new (\<lambda>_. Inr (in_open (render True (XTag ''a'' [(''k'', ''v'')] [XTag ''b'' [] [], XData ''x'', XEntity ''amp''])))) None None ''f'' world0
      = Some (Some (p, xml), w1)
    \<and> xml_get_document (p, xml, w1) = Some (Some (Some 0), p', xml', w')
    \<and> represents (x_nodes xml') (x_attributes xml') None 0 (XTag ''a'' [(''k'', ''v'')] [XTag ''b'' [] [], XData ''x'', XEntity ''amp''])
    \<and> (\<forall>key. NUL \<notin> set key \<longrightarrow> xml_node_get_attribute_value_by_name xml' 0 key = map_of [(''k'', ''v'')] key)"
proof -
  have "isalnum (uc CHR ''a'')" "isalnum (uc CHR ''b'')" "isalnum (uc CHR ''k'')"
    by (simp_all add: isalnum_def isalpha_def islower_def uc_def)
  moreover from this have "\<not> isspace (uc CHR ''a'')" "\<not> isspace (uc CHR ''b'')" "\<not> isspace (uc CHR ''k'')"
    using alnum_not by blast+
  ultimately have "xml_ok (XTag ''a'' [(''k'', ''v'')] [XTag ''b'' [] [], XData ''x'', XEntity ''amp''])"
    by (simp add: tag_name_def attribute_name_def name_char_def)
  then show ?thesis by (rule xml_document_file [where short = True]) (simp_all add: keeps_space_def)
qed

text \<open>
  The same document in a string cannot be read: after the last token the parser asks its
  source once more, and the string source then reads behind the string.
\<close>

theorem xml_document_string:
  assumes "xml_ok (XTag n al ts)" "plenty w" "keeps_space prefs"
  shows "\<exists>p xml w1. xml_new_string prefs (render short (XTag n al ts)) (length (render short (XTag n al ts))) w
      = Some (Some (p, xml), w1)
    \<and> xml_get_document (p, xml, w1) = None"
proof -
  let ?t = "XTag n al ts" and ?xml = "fresh_xml prefs\<lparr>x_document := Some None\<rparr>"
  have plain: "plain (render short ?t)" by (rule plain_render [OF assms(1)])
  from xml_new_text [OF assms(2,3) plain_FF [OF plain]] obtain p w1 where
    new: "xml_new_string prefs (render short ?t) (length (render short ?t)) w = Some (Some (p, fresh_xml prefs), w1)"
      "xml_string.ready (render short ?t) (p, fresh_xml prefs, w1)" "p_last p = EOF" by blast
  then have w1: "plenty w1" by (simp add: xml_string.ready_def)
  obtain w2 where w2: "object_new 8 w1 = (True, w2)" "plenty w2" using object_new_ok [OF w1, of 8] by auto
  with new(2) have ready: "xml_string.ready (render short ?t) (p, ?xml, w2)" by (simp add: xml_string.ready_def)
  have doc0: "doc_of (p, ?xml, w2) = doc ?xml XML_CONTEXT_DATA [] []" by (simp add: doc_of_def doc_def)
  from xml_string.document_text [OF ready plain new(3) assms(1) doc0] obtain att st where
    st: "document_loop (p, ?xml, w2) (None, None, TS_UNKNOWN) = document_loop st (None, att, TS_UNKNOWN)"
      "xml_string.scanned [] st"
    unfolding xml_string.moves_def by blast
  with string_end [OF st(2)] w2(1) have "xml_get_document (p, fresh_xml prefs, w1) = None"
    by (simp add: xml_get_document_def xml_document_new_def)
  with new(1) show ?thesis by blast
qed

theorem xml_document_string_witness:
  "\<exists>p xml w1. xml_new_string None (render True (XTag ''a'' [] [])) (length (render True (XTag ''a'' [] []))) world0
      = Some (Some (p, xml), w1) \<and> xml_get_document (p, xml, w1) = None"
proof -
  have "isalnum (uc CHR ''a'')" by (simp add: isalnum_def isalpha_def islower_def uc_def)
  moreover from this have "\<not> isspace (uc CHR ''a'')" using alnum_not by blast
  ultimately have "xml_ok (XTag ''a'' [] [])" by (simp add: tag_name_def name_char_def)
  then show ?thesis by (rule xml_document_string) (simp_all add: keeps_space_def)
qed

text \<open>
  The comment filter drops a comment up to its first end mark, and passes on the character
  behind it without looking at it, so that a comment right behind another one is taken for a tag.
\<close>

theorem xml_comment_dropped:
  assumes "file_valid p" "file_input p = map uc (''!--'' @ body @ ''-->'' @ d # rest)" "\<not> sublist ''-->'' body"
    and "CHR 0xFF \<notin> set (body @ d # rest)"
  shows "\<exists>q. xml_filter_comment (uc CHR ''<'') (p, xml, w) = Some (0, uc d, q, xml, w) \<and> file_valid q
    \<and> file_input q = map uc rest"
  using xml_file.comment_filter_ok [OF assms] by (simp add: uc_CHR)

theorem xml_comment_dropped_witness:
  "\<exists>p q. xml_filter_comment (uc CHR ''<'') (p, fresh_xml None, world0) = Some (0, uc CHR ''<'', q, fresh_xml None, world0)
    \<and> file_valid q \<and> file_input q = map uc ''!--b-->''"
proof -
  let ?p = "\<lparr>p_filename = None, p_fp = Some (in_open ''!--a--><!--b-->''), p_string = [], p_string_cnt = 0,
    p_string_pos = 0, p_line = 1, p_col = 1, p_last = EOF, p_lookahead = 0, p_scanner = Scanner_file,
    p_filters = [], p_filters_cnt = 0, p_callbacks = [], p_callbacks_cnt = 0\<rparr>"
  have "\<not> sublist ''-->'' ''a''" by (simp add: sublist_code)
  moreover have "file_valid ?p" "file_input ?p = map uc (''!--'' @ ''a'' @ ''-->'' @ CHR ''<'' # ''!--b-->'')"
    by (simp_all add: file_valid_def file_input_def in_open_def)
  ultimately have "\<exists>q. xml_filter_comment (uc CHR ''<'') (?p, fresh_xml None, world0)
      = Some (0, uc CHR ''<'', q, fresh_xml None, world0) \<and> file_valid q \<and> file_input q = map uc ''!--b-->''"
    by (intro xml_comment_dropped [where body = "''a''"]) simp_all
  then show ?thesis by blast
qed

end
