(* ===== verification/App_Interface.thy ===== *)
theory App_Interface
  imports Sys_Config Sys_Buffer Libc_Number
begin

text \<open>
  The interfaces of remote procedure calls: \<open>libApp/src/appinterface.c\<close>. An interface is read from a
  configuration file (a section \<open>call::name\<close> for each call); with it the client turns a call into bytes
  (\<open>appinterface_call\<close>) and reads the answer (\<open>appinterface_call_receive\<close>), and the server runs a call
  found in bytes and produces the answer (\<open>appinterface_receive\<close>).

  A buffer of the code with its size is the list of its bytes. The machine is little-endian; the
  conversion of a \<open>double\<close> to \<open>float\<close> (\<open>dtof\<close>) and the functions of the server are parameters. \<open>None\<close> is
  undefined behaviour, such as an argument of another type than the one \<open>va_arg\<close> asks for.
\<close>

section \<open>Types\<close>

datatype AppInterfaceCallType =
  AICT_VOID | AICT_BOOL | AICT_INT8 | AICT_UINT8 | AICT_INT16 | AICT_UINT16 | AICT_INT32 | AICT_UINT32
| AICT_INT64 | AICT_UINT64 | AICT_STRING | AICT_BUFFER | AICT_FLOAT | AICT_DOUBLE

definition aict_all :: "AppInterfaceCallType list" where
  "aict_all = [AICT_VOID, AICT_BOOL, AICT_INT8, AICT_UINT8, AICT_INT16, AICT_UINT16, AICT_INT32, AICT_UINT32,
     AICT_INT64, AICT_UINT64, AICT_STRING, AICT_BUFFER, AICT_FLOAT, AICT_DOUBLE]"

definition AICT_MASK :: int where "AICT_MASK = 0x3F"

fun aict_size :: "AppInterfaceCallType \<Rightarrow> nat" where
  "aict_size AICT_VOID = 0"
| "aict_size AICT_BOOL = 1"
| "aict_size AICT_INT8 = 1"
| "aict_size AICT_UINT8 = 1"
| "aict_size AICT_INT16 = 2"
| "aict_size AICT_UINT16 = 2"
| "aict_size AICT_INT32 = 4"
| "aict_size AICT_UINT32 = 4"
| "aict_size AICT_INT64 = 8"
| "aict_size AICT_UINT64 = 8"
| "aict_size AICT_STRING = 0"
| "aict_size AICT_BUFFER = 0"
| "aict_size AICT_FLOAT = 4"
| "aict_size AICT_DOUBLE = 8"

datatype AppInterfaceCallDirection = AICD_IN | AICD_IN_OUT | AICD_OUT

definition AICD_MASK :: int where "AICD_MASK = 0x1C0"

record AppInterfaceCallArg =
  aa_type :: AppInterfaceCallType
  aa_direction :: AppInterfaceCallDirection
  aa_size :: nat

record AppInterfaceCall =
  ac_name :: string
  ac_type :: AppInterfaceCallArg
  ac_args :: "AppInterfaceCallArg list"
  ac_func :: "nat option"

record AppInterface =
  ai_name :: string
  ai_calls :: "AppInterfaceCall list"
  ai_port :: int
  ai_error :: int

text \<open>The codes of the table: the type, and \<open>AICD_OUT\<close> (0200) for results.\<close>

definition string_type :: "(string \<times> int) list" where
  "string_type =
    [(''VOID'', 0), (''BOOL'', 1), (''INT8'', 2), (''UINT8'', 3), (''INT16'', 4), (''UINT16'', 5), (''INT32'', 6),
     (''UINT32'', 7), (''INT64'', 8), (''UINT64'', 9), (''STRING'', 10), (''STRING_OUT'', 10 + 128), (''BUFFER'', 11),
     (''BUFFER_OUT'', 11 + 128), (''FLOAT'', 12), (''DOUBLE'', 13)]"

fun string_enum_loop :: "string \<Rightarrow> (string \<times> int) list \<Rightarrow> world \<Rightarrow> int \<times> world" where
  "string_enum_loop s [] w =
     (case error_set_code 1 (''Unknown enumerated value for '' @ [CHR 0x22] @ s @ [CHR 0x22]) w of (c, w') \<Rightarrow> (- c, w'))"
| "string_enum_loop s ((name, v) # se) w = (if string_compare s name = 0 then (v, w) else string_enum_loop s se w)"

definition string_enum :: "string option \<Rightarrow> (string \<times> int) list \<Rightarrow> world \<Rightarrow> int \<times> world" where
  "string_enum s se w =
     (case s of None \<Rightarrow> (- 1, fail_errno EINVAL w) | Some s \<Rightarrow> string_enum_loop s se w)"

text \<open>\<open>type & AICT_MASK\<close> and \<open>type & AICD_MASK\<close>; an index outside \<open>_aict_size\<close> is undefined.\<close>

definition arg_of_code :: "int \<Rightarrow> AppInterfaceCallArg option" where
  "arg_of_code code =
     do { t \<leftarrow> nth_opt aict_all (nat (code AND AICT_MASK));
          d \<leftarrow> map_of [(0, AICD_IN), (0x40, AICD_IN_OUT), (0x80, AICD_OUT)] (code AND AICD_MASK);
          Some \<lparr>aa_type = t, aa_direction = d, aa_size = aict_size t\<rparr> }"

fun get_call_loop :: "AppInterfaceCall list \<Rightarrow> string \<Rightarrow> AppInterfaceCall option" where
  "get_call_loop [] call = None"
| "get_call_loop (c # cs) call = (if string_compare (ac_name c) call = 0 then Some c else get_call_loop cs call)"

definition appinterface_get_call :: "AppInterface \<Rightarrow> string \<Rightarrow> world \<Rightarrow> AppInterfaceCall option \<times> world" where
  "appinterface_get_call ai call w =
     (case get_call_loop (ai_calls ai) call of
        Some c \<Rightarrow> (Some c, w)
      | None \<Rightarrow> (None, snd (error_set_code 1 (''Unknown call '' @ call @ '' for interface '' @ ai_name ai) w)))"

section \<open>Loading an interface\<close>

text \<open>The result \<open>None\<close> is a type that the masks take outside the table.\<close>

definition new_append :: "AppInterface \<Rightarrow> int \<Rightarrow> string \<Rightarrow> world \<Rightarrow> (int \<times> AppInterface \<times> world) option" where
  "new_append ai type function w =
     (case w_alloc w of
        (False, w1) \<Rightarrow> Some (- 1, ai, w1)
      | (True, w1) \<Rightarrow>
          (case string_new (Some function) w1 of
             (None, w2) \<Rightarrow> Some (- 1, ai, w2)
           | (Some name, w2) \<Rightarrow>
               do { t \<leftarrow> arg_of_code type;
                    Some (0, ai\<lparr>ai_calls := ai_calls ai @ [\<lparr>ac_name = name, ac_type = t, ac_args = [], ac_func = None\<rparr>]\<rparr>,
                      w2) }))"

text \<open>\<open>snprintf\<close> keeps 15 bytes of the text, which is then cut at the first comma.\<close>

definition arg_type_text :: "string \<Rightarrow> string" where
  "arg_type_text arg = takeWhile (\<lambda>c. c \<noteq> CHR '','') (take 15 arg)"

definition new_append_arg :: "AppInterface \<Rightarrow> string \<Rightarrow> world \<Rightarrow> (int \<times> AppInterface \<times> world) option" where
  "new_append_arg ai arg w =
     (case string_enum (Some (arg_type_text arg)) string_type w of
        (type, w1) \<Rightarrow>
          if type < 0 then Some (- 1, ai, w1)
          else if ai_calls ai = [] then None
          else (case w_alloc w1 of
            (False, w2) \<Rightarrow> Some (- 1, ai, fail_errno (errno w2) w2)
          | (True, w2) \<Rightarrow>
              do { r \<leftarrow> arg_of_code type;
                   let q = last (ai_calls ai);
                   Some (0, ai\<lparr>ai_calls := butlast (ai_calls ai) @ [q\<lparr>ac_args := ac_args q @ [r]\<rparr>]\<rparr>, w2) }))"

definition APPSERVER_MAX_ARGUMENTS :: nat where "APPSERVER_MAX_ARGUMENTS = 4"

text \<open>The loop over \<open>arg1\<close>, \<open>arg2\<close>, ...; \<open>n\<close> arguments may still come.\<close>

fun foreach_args :: "nat \<Rightarrow> nat \<Rightarrow> section_hash \<Rightarrow> AppInterface \<Rightarrow> world \<Rightarrow> (int \<times> AppInterface \<times> world) option" where
  "foreach_args 0 i value ai w = Some (0, ai, w)"
| "foreach_args (Suc n) i value ai w =
     (case hash_get value (''arg'' @ show_nat (i + 1)) w of
        (None, w1) \<Rightarrow> Some (0, ai, w1)
      | (Some p, w1) \<Rightarrow>
          do { (r, ai2, w2) \<leftarrow> new_append_arg ai p w1;
               if r \<noteq> 0 then Some (- 1, ai2\<lparr>ai_error := 1\<rparr>, w2)
               else foreach_args n (i + 1) value ai2 w2 })"

definition call_prefix :: string where "call_prefix = ''call::''"

definition new_foreach :: "string \<Rightarrow> section_hash \<Rightarrow> (AppInterface \<times> world) option \<Rightarrow> (AppInterface \<times> world) option" where
  "new_foreach key value d =
     do { (ai, w) \<leftarrow> d;
          if take (length call_prefix) key \<noteq> call_prefix then Some (ai, w)
          else do {
            let (p, w1) = hash_get value ''ret'' w;
            let (type, w2) = (case p of None \<Rightarrow> (0, w1) | Some s \<Rightarrow> string_enum (Some s) string_type w1);
            if type < 0 then
              (case error_set_code 1 ''Invalid return type'' w2 of (c, w3) \<Rightarrow> Some (ai\<lparr>ai_error := c\<rparr>, w3))
            else do {
              (r, ai3, w3) \<leftarrow> new_append ai type (drop (length call_prefix) key) w2;
              if r \<noteq> 0 then Some (ai3\<lparr>ai_error := 1\<rparr>, w3)
              else do { (_, ai4, w4) \<leftarrow> foreach_args APPSERVER_MAX_ARGUMENTS 0 value ai3 w3; Some (ai4, w4) } } } }"

text \<open>
  The checks before the file is read stop at the first failure. \<open>etcdir\<close> is the build setting
  \<open>ETCDIR\<close>, \<open>fopen\<close> and \<open>closing\<close> are the file operations of \<open>config_load\<close>.
\<close>

definition appinterface_new ::
  "(string \<Rightarrow> int + infile) \<Rightarrow> int option \<Rightarrow> string \<Rightarrow> string option \<Rightarrow> world \<Rightarrow> (AppInterface option \<times> world) option" where
  "appinterface_new fopen closing etcdir app w =
     (case app of
        None \<Rightarrow> Some (None, w)
      | Some a \<Rightarrow>
          (case object_new 40 w of
             (False, w1) \<Rightarrow> Some (None, w1)
           | (True, w1) \<Rightarrow>
               (case string_new (Some a) w1 of
                  (None, w2) \<Rightarrow> Some (None, w2)
                | (Some name, w2) \<Rightarrow>
                    (case string_new_append (Some (etcdir @ ''/AppInterface/'')) [a, ''.interface''] w2 of
                       (None, w3) \<Rightarrow> Some (None, w3)
                     | (Some pathname, w3) \<Rightarrow>
                         (case config_new w3 of
                            (None, w4) \<Rightarrow> Some (None, w4)
                          | (Some config, w4) \<Rightarrow>
                              (case config_load fopen closing config pathname w4 of
                                 (r, config', w5) \<Rightarrow>
                                   if r \<noteq> 0 then Some (None, w5)
                                   else do {
                                     let (p, w6) = config_get config' None ''port'' w5;
                                     port \<leftarrow> (case p of None \<Rightarrow> Some 0 | Some s \<Rightarrow> map_option (\<lambda>i. i mod 2 ^ 16) (atoi s));
                                     (ai, w7) \<leftarrow> hash_foreach config' new_foreach
                                       (Some (\<lparr>ai_name = name, ai_calls = [], ai_port = port, ai_error = 0\<rparr>, w6));
                                     Some (if ai_error ai \<noteq> 0 then None else Some ai, w7) }))))))"

text \<open>The functions of a server: \<open>lookup\<close> (\<open>plugin_lookup\<close>) finds a symbol of the program itself.\<close>

fun lookup_calls :: "(string option \<Rightarrow> nat option) \<Rightarrow> string \<Rightarrow> AppInterfaceCall list \<Rightarrow> world \<Rightarrow> AppInterfaceCall list option \<times> world" where
  "lookup_calls lookup iname [] w = (Some [], w)"
| "lookup_calls lookup iname (c # cs) w =
     (case string_new_append (Some iname) [''_'', ac_name c] w of
        (name, w1) \<Rightarrow>
          (case lookup name of
             None \<Rightarrow> (None, w1)
           | Some f \<Rightarrow>
               (case lookup_calls lookup iname cs w1 of
                  (cs', w2) \<Rightarrow> (map_option (\<lambda>cs'. c\<lparr>ac_func := Some f\<rparr> # cs') cs', w2))))"

definition appinterface_new_server ::
  "(string option \<Rightarrow> nat option) option \<Rightarrow> (string \<Rightarrow> int + infile) \<Rightarrow> int option \<Rightarrow> string \<Rightarrow> string option \<Rightarrow> world
     \<Rightarrow> (AppInterface option \<times> world) option" where
  "appinterface_new_server self fopen closing etcdir app w =
     (case self of
        None \<Rightarrow> Some (None, w)
      | Some lookup \<Rightarrow>
          do { (ai, w1) \<leftarrow> appinterface_new fopen closing etcdir app w;
               case ai of
                 None \<Rightarrow> Some (None, w1)
               | Some ai \<Rightarrow>
                   (case lookup_calls lookup (ai_name ai) (ai_calls ai) w1 of
                      (cs, w2) \<Rightarrow> Some (map_option (\<lambda>cs. ai\<lparr>ai_calls := cs\<rparr>) cs, w2)) })"

definition appinterface_get_port :: "AppInterface \<Rightarrow> int" where
  "appinterface_get_port ai = ai_port ai"

definition appinterface_get_args_count :: "AppInterface \<Rightarrow> string \<Rightarrow> world \<Rightarrow> int \<times> nat option \<times> world" where
  "appinterface_get_args_count ai function w =
     (case appinterface_get_call ai function w of
        (None, w1) \<Rightarrow> (- 1, None, w1)
      | (Some aic, w1) \<Rightarrow> (0, Some (length (ac_args aic)), w1))"


section \<open>Types of a loaded interface\<close>

definition arg_typed :: "AppInterfaceCallArg \<Rightarrow> bool" where
  "arg_typed a \<longleftrightarrow> aa_size a = aict_size (aa_type a)
     \<and> (aa_direction a = AICD_IN \<or> aa_direction a = AICD_OUT \<and> aa_type a \<in> {AICT_STRING, AICT_BUFFER})"

definition call_typed :: "AppInterfaceCall \<Rightarrow> bool" where
  "call_typed c \<longleftrightarrow> arg_typed (ac_type c) \<and> (\<forall>a \<in> set (ac_args c). arg_typed a)
     \<and> length (ac_args c) \<le> APPSERVER_MAX_ARGUMENTS"

definition interface_typed :: "AppInterface \<Rightarrow> bool" where
  "interface_typed ai \<longleftrightarrow> (\<forall>c \<in> set (ai_calls ai). call_typed c) \<and> 0 \<le> ai_port ai \<and> ai_port ai < 2 ^ 16"

lemma interface_typed_error [simp]: "interface_typed (ai\<lparr>ai_error := e\<rparr>) = interface_typed ai"
  by (simp add: interface_typed_def)

lemma string_enum_loop_type:
  "string_enum_loop s se w = (v, w') \<Longrightarrow> (\<forall>(n, x) \<in> set se. x \<in> X) \<Longrightarrow> v \<in> X \<or> v = - 1"
  by (induction s se w rule: string_enum_loop.induct) (auto simp: error_set_code_def split: if_splits prod.splits)

lemma string_enum_type:
  "string_enum s string_type w = (v, w') \<Longrightarrow> 0 \<le> v \<Longrightarrow> v \<in> snd ` set string_type"
  using string_enum_loop_type [of _ string_type w v w' "snd ` set string_type"]
  by (force simp: string_enum_def split: option.splits)

text \<open>Every code of the table is a type with a direction: the masks never lead outside \<open>_aict_size\<close>.\<close>

lemma arg_of_code_typed:
  assumes "v \<in> snd ` set string_type"
  shows "\<exists>a. arg_of_code v = Some a \<and> arg_typed a"
proof -
  have "\<forall>v \<in> snd ` set string_type. case arg_of_code v of Some a \<Rightarrow> arg_typed a | None \<Rightarrow> False"
    by code_simp
  with assms show ?thesis by (auto split: option.splits)
qed

lemma new_append_typed:
  assumes "v \<in> snd ` set string_type" "interface_typed ai"
  shows "\<exists>r ai' w'. new_append ai v f w = Some (r, ai', w') \<and> interface_typed ai'
    \<and> (r = 0 \<longrightarrow> (\<exists>c. ai_calls ai' = ai_calls ai @ [c] \<and> ac_args c = []))"
proof -
  obtain a where "arg_of_code v = Some a" "arg_typed a" using arg_of_code_typed [OF assms(1)] by blast
  with assms(2) show ?thesis
    by (auto simp: new_append_def interface_typed_def call_typed_def split: prod.split bool.split option.split)
qed

lemma new_append_arg_typed:
  assumes "interface_typed ai" "ai_calls ai = cs @ [c]" "length (ac_args c) < APPSERVER_MAX_ARGUMENTS"
  shows "\<exists>r ai' w'. new_append_arg ai arg w = Some (r, ai', w') \<and> interface_typed ai'
    \<and> (r = 0 \<longrightarrow> (\<exists>c'. ai_calls ai' = cs @ [c'] \<and> length (ac_args c') = Suc (length (ac_args c))))"
proof -
  obtain v w1 where v: "string_enum (Some (arg_type_text arg)) string_type w = (v, w1)" by fastforce
  show ?thesis
  proof (cases "v < 0")
    case False
    with string_enum_type [OF v] obtain a where "arg_of_code v = Some a" "arg_typed a" using arg_of_code_typed by force
    with False v assms show ?thesis
      by (auto simp: new_append_arg_def interface_typed_def call_typed_def split: prod.split bool.split)
  qed (use v assms in \<open>simp add: new_append_arg_def\<close>)
qed

lemma foreach_args_typed:
  assumes "interface_typed ai" "ai_calls ai = cs @ [c]" "length (ac_args c) + n \<le> APPSERVER_MAX_ARGUMENTS"
  shows "\<exists>r ai' w'. foreach_args n i value ai w = Some (r, ai', w') \<and> interface_typed ai'"
  using assms
proof (induction n arbitrary: i ai c w)
  case (Suc n)
  then have room: "length (ac_args c) < APPSERVER_MAX_ARGUMENTS" by simp
  obtain q w1 where q: "hash_get value (''arg'' @ show_nat (i + 1)) w = (q, w1)" by fastforce
  show ?case
  proof (cases q)
    case (Some p)
    obtain r ai2 w2 where a: "new_append_arg ai p w1 = Some (r, ai2, w2)" "interface_typed ai2"
      "r = 0 \<longrightarrow> (\<exists>c'. ai_calls ai2 = cs @ [c'] \<and> length (ac_args c') = Suc (length (ac_args c)))"
      using new_append_arg_typed [OF Suc.prems(1,2) room] by blast
    show ?thesis
    proof (cases "r = 0")
      case True
      with a(3) obtain c' where "ai_calls ai2 = cs @ [c']" "length (ac_args c') = Suc (length (ac_args c))" by blast
      with Suc.IH [OF a(2)] Suc.prems(3) show ?thesis using q Some a(1) True by simp
    qed (use q Some a in simp)
  qed (use q Suc.prems in simp)
qed simp

lemma new_foreach_typed:
  assumes "interface_typed ai"
  shows "\<exists>ai' w'. new_foreach key value (Some (ai, w)) = Some (ai', w') \<and> interface_typed ai'"
proof (cases "take (length call_prefix) key \<noteq> call_prefix")
  case False
  obtain p w1 where p: "hash_get value ''ret'' w = (p, w1)" by fastforce
  obtain v w2 where v: "(case p of None \<Rightarrow> (0, w1) | Some s \<Rightarrow> string_enum (Some s) string_type w1) = (v, w2)" by fastforce
  show ?thesis
  proof (cases "v < 0")
    case True
    with False p v assms show ?thesis by (simp add: new_foreach_def split: prod.split)
  next
    case pos: False
    with v string_enum_type [of p w1 v w2] have code: "v \<in> snd ` set string_type"
      by (auto simp: string_type_def split: option.splits)
    obtain r ai3 w3 where a: "new_append ai v (drop (length call_prefix) key) w2 = Some (r, ai3, w3)" "interface_typed ai3"
      "r = 0 \<longrightarrow> (\<exists>c. ai_calls ai3 = ai_calls ai @ [c] \<and> ac_args c = [])"
      using new_append_typed [OF code assms] by blast
    show ?thesis
    proof (cases "r = 0")
      case True
      with a(3) obtain c where "ai_calls ai3 = ai_calls ai @ [c]" "ac_args c = []" by blast
      then obtain r4 ai4 w4 where "foreach_args APPSERVER_MAX_ARGUMENTS 0 value ai3 w3 = Some (r4, ai4, w4)" "interface_typed ai4"
        using foreach_args_typed [OF a(2)] by (metis add_0 le_refl list.size(3))
      with False pos p v a(1) True show ?thesis by (simp add: new_foreach_def)
    qed (use False pos p v a in \<open>simp add: new_foreach_def\<close>)
  qed
qed (use assms in \<open>simp add: new_foreach_def\<close>)

lemma foreach_typed:
  "interface_typed ai \<Longrightarrow> \<exists>ai' w'. hash_foreach config new_foreach (Some (ai, w)) = Some (ai', w') \<and> interface_typed ai'"
proof -
  have "interface_typed ai \<Longrightarrow> \<exists>ai' w'. fold (hash_foreach_entry new_foreach) es (Some (ai, w)) = Some (ai', w') \<and> interface_typed ai'"
    for es ai w
  proof (induction es arbitrary: ai w)
    case (Cons e es)
    obtain ai1 w1 where "new_foreach (he_key e) (he_value e) (Some (ai, w)) = Some (ai1, w1)" "interface_typed ai1"
      using new_foreach_typed [OF Cons.prems] by blast
    with Cons.IH show ?case by (simp add: hash_foreach_entry_def)
  qed simp
  then show "interface_typed ai \<Longrightarrow> \<exists>ai' w'. hash_foreach config new_foreach (Some (ai, w)) = Some (ai', w') \<and> interface_typed ai'"
    by (simp add: hash_foreach_def)
qed

lemma loaded_typed:
  assumes "appinterface_new fopen closing etcdir app w = Some (Some ai, w')"
  shows "interface_typed ai \<and> ai_error ai = 0"
proof -
  from assms obtain config name port w1 ai1 where
    load: "hash_foreach config new_foreach (Some (\<lparr>ai_name = name, ai_calls = [], ai_port = port, ai_error = 0\<rparr>, w1)) = Some (ai1, w')"
      "ai = ai1" "ai_error ai1 = 0" and port: "0 \<le> port" "port < 2 ^ 16"
    by (auto simp: appinterface_new_def Option.bind_eq_Some_conv split: option.splits prod.splits bool.splits if_splits)
  with foreach_typed [of "\<lparr>ai_name = name, ai_calls = [], ai_port = port, ai_error = 0\<rparr>" config w1] show ?thesis
    by (auto simp: interface_typed_def)
qed


lemma typed_call:
  assumes "interface_typed ai" "get_call_loop (ai_calls ai) name = Some c"
  shows "call_typed c"
proof -
  have "get_call_loop cs name = Some c \<Longrightarrow> c \<in> set cs" for cs by (induction cs) (auto split: if_splits)
  with assms show ?thesis by (auto simp: interface_typed_def)
qed

text \<open>Loading is undefined only for a port that \<open>atoi\<close> cannot represent.\<close>

lemma loading_defined:
  assumes "appinterface_new fopen closing etcdir app w = None"
  shows "\<exists>config config' path w1 w2 s w3. config_load fopen closing config path w1 = (0, config', w2)
    \<and> config_get config' None ''port'' w2 = (Some s, w3) \<and> atoi s = None"
proof -
  let ?ai = "\<lambda>name port. \<lparr>ai_name = name, ai_calls = [], ai_port = port, ai_error = 0\<rparr>"
  have each: "\<exists>ai' w'. hash_foreach config new_foreach (Some (?ai name port, w)) = Some (ai', w')" if "0 \<le> port" "port < 2 ^ 16"
    for config name port w
    using foreach_typed [of "?ai name port" config w] that by (auto simp: interface_typed_def)
  have null: "hash_foreach config new_foreach (Some (?ai name 0, w)) \<bind> (\<lambda>(ai, w'). Some (f ai w')) \<noteq> None" for config name w f
    using each [of 0 config name w] by auto
  have number: "atoi s = None" if "map_option (\<lambda>i. i mod 65536) (atoi s) \<bind>
      (\<lambda>port. hash_foreach config new_foreach (Some (?ai name port, w)) \<bind> (\<lambda>(ai, w'). Some (f ai w'))) = None"
    for s config name w f
    using that each [of "the (atoi s) mod 2 ^ 16" config name w] by (cases "atoi s") auto
  from assms show ?thesis
    by (auto simp: appinterface_new_def Let_def null split: option.splits prod.splits bool.splits if_splits dest!: number) blast+
qed

section \<open>Properties\<close>

text \<open>
  C19: an interface that loads is well typed, whatever the file holds: each call has at most four arguments, sizes are those
  of the types, and only strings and buffers are results. Loading never leaves the tables of the code; it is
  undefined only when the port is not a number that fits.
\<close>

theorem appinterface_new_typed:
  "case appinterface_new fopen closing etcdir app w of
     Some (Some ai, w') \<Rightarrow> interface_typed ai \<and> ai_error ai = 0
   | Some (None, w') \<Rightarrow> True
   | None \<Rightarrow> \<exists>config config' path w1 w2 s w3. config_load fopen closing config path w1 = (0, config', w2)
       \<and> config_get config' None ''port'' w2 = (Some s, w3) \<and> atoi s = None"
  using loaded_typed [of fopen closing etcdir app w] loading_defined [of fopen closing etcdir app w]
  by (auto split: option.split prod.split)

text \<open>An interface with one call.\<close>

definition demo_text :: string where
  "demo_text = ''port=4242'' @ [NL] @ ''[call::f]'' @ [NL] @ ''ret=INT32'' @ [NL] @ ''arg1=INT32'' @ [NL] @ ''arg2=STRING_OUT,s'' @ [NL]"

definition demo_arg :: "AppInterfaceCallType \<Rightarrow> AppInterfaceCallDirection \<Rightarrow> AppInterfaceCallArg" where
  "demo_arg t d = \<lparr>aa_type = t, aa_direction = d, aa_size = aict_size t\<rparr>"

definition demo_call :: "nat option \<Rightarrow> AppInterfaceCall" where
  "demo_call f = \<lparr>ac_name = ''f'', ac_type = demo_arg AICT_INT32 AICD_IN,
     ac_args = [demo_arg AICT_INT32 AICD_IN, demo_arg AICT_STRING AICD_OUT], ac_func = f\<rparr>"

definition demo_interface :: "nat option \<Rightarrow> AppInterface" where
  "demo_interface f = \<lparr>ai_name = ''Demo'', ai_calls = [demo_call f], ai_port = 4242, ai_error = 0\<rparr>"

lemma demo_typed: "interface_typed (demo_interface f)"
  by (simp add: interface_typed_def call_typed_def arg_typed_def demo_interface_def demo_call_def demo_arg_def
    APPSERVER_MAX_ARGUMENTS_def)

lemma demo_loads:
  "map_option fst (appinterface_new (\<lambda>_. Inr (in_open demo_text)) None ''/etc'' (Some ''Demo'') world0) = Some (Some (demo_interface None))"
  by code_simp

theorem appinterface_new_typed_witness:
  "interface_typed (demo_interface None)
   \<and> map_option fst (appinterface_new (\<lambda>_. Inr (in_open demo_text)) None ''/etc'' (Some ''Demo'') world0) = Some (Some (demo_interface None))"
  using demo_loads appinterface_new_typed [of "\<lambda>_. Inr (in_open demo_text)" None "''/etc''" "Some ''Demo''" world0]
  by (auto split: prod.splits)

end
