(* ===== verification/App_Call.thy ===== *)
theory App_Call
  imports App_Interface
begin

text \<open>
  Calls as bytes, the second half of \<open>libApp/src/appinterface.c\<close>. An object of the client that an argument
  points to is a cell of a store; the server gives its function a list of argument slots of eight bytes:
  numbers, or pointers to the objects it allocated.
\<close>

definition EAGAIN :: int where "EAGAIN = 11"
definition ENOSYS :: int where "ENOSYS = 38"
definition ENOBUFS :: int where "ENOBUFS = 105"

section \<open>Numbers as bytes\<close>

text \<open>The bytes of a number in memory, the lowest first, and the number of some bytes.\<close>

fun bytes_of :: "nat \<Rightarrow> nat \<Rightarrow> string" where
  "bytes_of 0 x = []"
| "bytes_of (Suc n) x = char_of (x mod 256) # bytes_of n (x div 256)"

fun number_of :: "string \<Rightarrow> nat" where
  "number_of [] = 0"
| "number_of (c # cs) = of_char c + 256 * number_of cs"

definition htons :: "16 word \<Rightarrow> 16 word" where
  "htons x = word_of_nat (number_of (rev (bytes_of 2 (unat x))))"

definition htonl :: "32 word \<Rightarrow> 32 word" where
  "htonl x = word_of_nat (number_of (rev (bytes_of 4 (unat x))))"

abbreviation ntohs :: "16 word \<Rightarrow> 16 word" where "ntohs \<equiv> htons"
abbreviation ntohl :: "32 word \<Rightarrow> 32 word" where "ntohl \<equiv> htonl"

section \<open>Objects and arguments\<close>

datatype cell =
  C8 "8 word" | C16 "16 word" | C32 "32 word" | C64 "64 word" | CString "string option" | CBuffer Buffer

type_synonym cells = "nat \<Rightarrow> cell option"

text \<open>What \<open>va_arg\<close> finds: an \<open>int\<close>, an \<open>int64_t\<close>, a \<open>double\<close>, a string or a pointer to an object.\<close>

datatype call_arg = AInt "32 word" | ALong "64 word" | ADouble "64 word" | AString "string option" | APointer "nat option"

text \<open>The memory of a number.\<close>

fun image :: "cell \<Rightarrow> string" where
  "image (C8 x) = bytes_of 1 (unat x)"
| "image (C16 x) = bytes_of 2 (unat x)"
| "image (C32 x) = bytes_of 4 (unat x)"
| "image (C64 x) = bytes_of 8 (unat x)"
| "image (CString s) = []"
| "image (CBuffer b) = []"

text \<open>\<open>memcpy\<close> of exactly all bytes of a number over it.\<close>

fun overwrite :: "cell \<Rightarrow> string \<Rightarrow> cell option" where
  "overwrite (C8 x) bs = (if length bs = 1 then Some (C8 (word_of_nat (number_of bs))) else None)"
| "overwrite (C16 x) bs = (if length bs = 2 then Some (C16 (word_of_nat (number_of bs))) else None)"
| "overwrite (C32 x) bs = (if length bs = 4 then Some (C32 (word_of_nat (number_of bs))) else None)"
| "overwrite (C64 x) bs = (if length bs = 8 then Some (C64 (word_of_nat (number_of bs))) else None)"
| "overwrite _ bs = None"

section \<open>Writing\<close>

definition send_bytes :: "string \<Rightarrow> string \<Rightarrow> nat \<Rightarrow> world \<Rightarrow> int \<times> string \<times> nat \<times> world" where
  "send_bytes d buf pos w =
     (if pos + length d > length buf then (1, buf, pos, fail_errno ENOBUFS (w\<lparr>errno := ENOBUFS\<rparr>))
      else (0, blit buf pos d, pos + length d, w))"

text \<open>The loop over the bytes of a string with its terminator.\<close>

fun send_string_loop :: "string \<Rightarrow> string \<Rightarrow> nat \<Rightarrow> world \<Rightarrow> int \<times> string \<times> nat \<times> world" where
  "send_string_loop s buf pos w =
     (if pos < length buf then
        (case s of
           [] \<Rightarrow> (0, buf[pos := NUL], pos + 1, w)
         | c # s' \<Rightarrow> send_string_loop s' (buf[pos := c]) (pos + 1) w)
      else (1, buf, pos, fail_errno ENOBUFS (w\<lparr>errno := ENOBUFS\<rparr>)))"

declare send_string_loop.simps [simp del]

definition send_string :: "string option \<Rightarrow> string \<Rightarrow> nat \<Rightarrow> world \<Rightarrow> int \<times> string \<times> nat \<times> world" where
  "send_string s buf pos w = send_string_loop (case s of None \<Rightarrow> [] | Some s \<Rightarrow> s) buf pos w"

fun send_blocks :: "string list \<Rightarrow> string \<Rightarrow> nat \<Rightarrow> world \<Rightarrow> int \<times> string \<times> nat \<times> world" where
  "send_blocks [] buf pos w = (0, buf, pos, w)"
| "send_blocks (d # ds) buf pos w =
     (case send_bytes d buf pos w of
        (r, buf', pos', w') \<Rightarrow> if r \<noteq> 0 then (r, buf', pos', w') else send_blocks ds buf' pos' w')"

section \<open>The client: a call\<close>

text \<open>
  The three directions. The result has the blocks that are sent (\<open>size\<close> bytes of the object \<open>p\<close> points to;
  nothing for size zero), the pointer kept in \<open>args[i]\<close>, and the arguments that are left.
\<close>

definition sized :: "AppInterfaceCallArg \<Rightarrow> cell \<Rightarrow> string list option" where
  "sized a c = do { bs \<leftarrow> read_block (image c) 0 (aa_size a); Some (if bs = [] then [] else [bs]) }"

definition buffer_blocks :: "Buffer \<Rightarrow> string list option" where
  "buffer_blocks b =
     do { bs \<leftarrow> read_block (buffer_get_data b) 0 (buffer_get_size b);
          Some (image (C32 (htonl (word_of_nat (buffer_get_size b)))) # (if bs = [] then [] else [bs])) }"

fun call_in :: "(64 word \<Rightarrow> 32 word) \<Rightarrow> AppInterfaceCallArg \<Rightarrow> call_arg list \<Rightarrow> cells
    \<Rightarrow> (string list \<times> call_arg list) option" where
  "call_in dtof a va cs =
     (case (aa_type a, va) of
        (AICT_VOID, va) \<Rightarrow> Some ([], va)
      | (_, []) \<Rightarrow> None
      | (t, x # va') \<Rightarrow>
          do { blocks \<leftarrow> (case (t, x) of
                  (AICT_BOOL, AInt i) \<Rightarrow> sized a (C8 (ucast i))
                | (AICT_INT8, AInt i) \<Rightarrow> sized a (C8 (ucast i))
                | (AICT_UINT8, AInt i) \<Rightarrow> sized a (C8 (ucast i))
                | (AICT_INT16, AInt i) \<Rightarrow> sized a (C16 (htons (ucast i)))
                | (AICT_UINT16, AInt i) \<Rightarrow> sized a (C16 (htons (ucast i)))
                | (AICT_INT32, AInt i) \<Rightarrow> sized a (C32 (htonl i))
                | (AICT_UINT32, AInt i) \<Rightarrow> sized a (C32 (htonl i))
                | (AICT_DOUBLE, ADouble d) \<Rightarrow> sized a (C64 d)
                | (AICT_FLOAT, ADouble d) \<Rightarrow> sized a (C32 (dtof d))
                | (AICT_INT64, ALong i) \<Rightarrow> sized a (C64 i)
                | (AICT_UINT64, ALong i) \<Rightarrow> sized a (C64 i)
                | (AICT_STRING, AString (Some s)) \<Rightarrow> Some [s @ [NUL]]
                | (AICT_BUFFER, APointer (Some p)) \<Rightarrow>
                    (case cs p of Some (CBuffer b) \<Rightarrow> buffer_blocks b | _ \<Rightarrow> None)
                | _ \<Rightarrow> None);
               Some (blocks, va') })"

fun call_in_out :: "AppInterfaceCallArg \<Rightarrow> call_arg list \<Rightarrow> cells
    \<Rightarrow> (string list \<times> nat option \<times> call_arg list) option" where
  "call_in_out a va cs =
     (case (aa_type a, va) of
        (AICT_VOID, va) \<Rightarrow> Some ([], None, va)
      | (t, APointer (Some p) # va') \<Rightarrow>
          do { c \<leftarrow> cs p;
               blocks \<leftarrow> (case (t, c) of
                  (AICT_BOOL, C8 x) \<Rightarrow> sized a (C8 x)
                | (AICT_INT8, C8 x) \<Rightarrow> sized a (C8 x)
                | (AICT_UINT8, C8 x) \<Rightarrow> sized a (C8 x)
                | (AICT_INT16, C16 x) \<Rightarrow> sized a (C16 (htons x))
                | (AICT_UINT16, C16 x) \<Rightarrow> sized a (C16 (htons x))
                | (AICT_INT32, C32 x) \<Rightarrow> sized a (C32 (htonl x))
                | (AICT_UINT32, C32 x) \<Rightarrow> sized a (C32 (htonl x))
                | (AICT_FLOAT, C32 x) \<Rightarrow> sized a (C32 (htonl x))
                | (AICT_INT64, C64 x) \<Rightarrow> sized a (C64 x)
                | (AICT_UINT64, C64 x) \<Rightarrow> sized a (C64 x)
                | (AICT_DOUBLE, C64 x) \<Rightarrow> sized a (C64 x)
                | (AICT_STRING, CString (Some s)) \<Rightarrow> Some [s @ [NUL]]
                | (AICT_BUFFER, CBuffer b) \<Rightarrow> buffer_blocks b
                | _ \<Rightarrow> None);
               Some (blocks, Some p, va') }
      | _ \<Rightarrow> None)"

fun call_out :: "AppInterfaceCallArg \<Rightarrow> call_arg list \<Rightarrow> (nat option \<times> call_arg list) option" where
  "call_out a va =
     (case (aa_type a, va) of
        (AICT_VOID, va) \<Rightarrow> Some (None, va)
      | (_, APointer p # va') \<Rightarrow> Some (p, va')
      | _ \<Rightarrow> None)"

definition call_arg :: "(64 word \<Rightarrow> 32 word) \<Rightarrow> AppInterfaceCallArg \<Rightarrow> call_arg list \<Rightarrow> cells
    \<Rightarrow> (string list \<times> nat option \<times> call_arg list) option" where
  "call_arg dtof a va cs =
     (case aa_direction a of
        AICD_IN \<Rightarrow> do { (blocks, va') \<leftarrow> call_in dtof a va cs; Some (blocks, None, va') }
      | AICD_IN_OUT \<Rightarrow> call_in_out a va cs
      | AICD_OUT \<Rightarrow> do { (p, va') \<leftarrow> call_out a va; Some ([], p, va') })"

fun call_loop :: "(64 word \<Rightarrow> 32 word) \<Rightarrow> AppInterfaceCallArg list \<Rightarrow> call_arg list \<Rightarrow> cells \<Rightarrow> string \<Rightarrow> nat \<Rightarrow> world
    \<Rightarrow> (int \<times> nat option list \<times> string \<times> nat \<times> world) option" where
  "call_loop dtof [] va cs buf pos w = Some (0, [], buf, pos, w)"
| "call_loop dtof (a # as) va cs buf pos w =
     do { (blocks, p, va') \<leftarrow> call_arg dtof a va cs;
          case send_blocks blocks buf pos w of
            (r, buf1, pos1, w1) \<Rightarrow>
              if r \<noteq> 0 then Some (- 1, [], buf1, pos1, w1)
              else do { (r2, ps, buf2, pos2, w2) \<leftarrow> call_loop dtof as va' cs buf1 pos1 w1;
                        Some (r2, p # ps, buf2, pos2, w2) } }"

text \<open>The result: the number of bytes or \<open>- 1\<close>, the pointers in \<open>args\<close>, and the buffer.\<close>

definition appinterface_call ::
  "(64 word \<Rightarrow> 32 word) \<Rightarrow> AppInterface \<Rightarrow> string \<Rightarrow> string \<Rightarrow> call_arg list \<Rightarrow> cells \<Rightarrow> world
     \<Rightarrow> (int \<times> nat option list \<times> string \<times> world) option" where
  "appinterface_call dtof ai buf function va cs w =
     (case appinterface_get_call ai function w of
        (None, w1) \<Rightarrow> Some (- 1, [], buf, w1)
      | (Some aic, w1) \<Rightarrow>
          (case send_string (Some function) buf 0 w1 of
             (r, buf2, pos, w2) \<Rightarrow>
               if r \<noteq> 0 then Some (- 1, [], buf2, w2)
               else do { (r, ps, buf3, pos3, w3) \<leftarrow> call_loop dtof (ac_args aic) va cs buf2 pos w2;
                         Some (if r \<noteq> 0 then - 1 else int pos3, ps, buf3, w3) }))"

section \<open>Reading\<close>

text \<open>The string at \<open>pos\<close>, when it ends in the buffer: the position behind it and the copy.\<close>

definition read_string :: "string \<Rightarrow> nat \<Rightarrow> world \<Rightarrow> string option \<times> nat \<times> world" where
  "read_string buf pos w =
     (let str = takeWhile (\<lambda>c. c \<noteq> NUL) (drop pos buf); pos' = pos + length str in
      if pos' \<ge> length buf then (None, pos', w)
      else (case string_new (Some str) w of (s, w') \<Rightarrow> (s, pos' + 1, w')))"

definition read_bytes :: "nat \<Rightarrow> string \<Rightarrow> nat \<Rightarrow> world \<Rightarrow> int \<times> string \<times> nat \<times> world" where
  "read_bytes n buf pos w =
     (if n > length buf - pos then (- 1, [], pos, fail_errno EAGAIN (w\<lparr>errno := EAGAIN\<rparr>))
      else (0, block buf pos n, pos + n, w))"

section \<open>The client: the answer\<close>

datatype received = RFail | RMore | RNext nat

text \<open>The number an object holds is in network order for some types.\<close>

fun net_order :: "AppInterfaceCallType \<Rightarrow> cell \<Rightarrow> cell option" where
  "net_order AICT_INT16 c = (case c of C16 x \<Rightarrow> Some (C16 (ntohs x)) | _ \<Rightarrow> None)"
| "net_order AICT_UINT16 c = (case c of C16 x \<Rightarrow> Some (C16 (ntohs x)) | _ \<Rightarrow> None)"
| "net_order AICT_INT32 c = (case c of C32 x \<Rightarrow> Some (C32 (ntohl x)) | _ \<Rightarrow> None)"
| "net_order AICT_UINT32 c = (case c of C32 x \<Rightarrow> Some (C32 (ntohl x)) | _ \<Rightarrow> None)"
| "net_order _ c = Some c"

definition receive_number :: "AppInterfaceCallArg \<Rightarrow> nat option \<Rightarrow> string \<Rightarrow> nat \<Rightarrow> cells \<Rightarrow> (received \<times> cells) option" where
  "receive_number a p buf pos cs =
     (if aa_size a = 0 then Some (RNext pos, cs)
      else if pos + aa_size a > length buf then Some (RMore, cs)
      else do { q \<leftarrow> p;
                c \<leftarrow> cs q;
                c1 \<leftarrow> overwrite c (block buf pos (aa_size a));
                c2 \<leftarrow> net_order (aa_type a) c1;
                Some (RNext (pos + aa_size a), cs(q \<mapsto> c2)) })"

definition receive_string :: "nat option \<Rightarrow> string \<Rightarrow> nat \<Rightarrow> cells \<Rightarrow> world \<Rightarrow> (received \<times> cells \<times> world) option" where
  "receive_string p buf pos cs w =
     (case read_string buf pos w of
        (None, pos', w') \<Rightarrow> Some (RFail, cs, w')
      | (Some s, pos', w') \<Rightarrow>
          (case p of
             None \<Rightarrow> Some (RNext pos', cs, w')
           | Some q \<Rightarrow>
               (case cs q of
                  Some (CString _) \<Rightarrow> Some (RNext pos', cs(q \<mapsto> CString (Some s)), w')
                | _ \<Rightarrow> None)))"

definition receive_buffer :: "(nat \<Rightarrow> char) \<Rightarrow> nat option \<Rightarrow> string \<Rightarrow> nat \<Rightarrow> cells \<Rightarrow> world
    \<Rightarrow> (received \<times> cells \<times> world) option" where
  "receive_buffer junk p buf pos cs w =
     (if pos + 4 > length buf then Some (RMore, cs, w)
      else do {
        let bsize = unat (ntohl (word_of_nat (number_of (block buf pos 4))));
        q \<leftarrow> p;
        b \<leftarrow> (case cs q of Some (CBuffer b) \<Rightarrow> Some b | _ \<Rightarrow> None);
        (r, b1, w1) \<leftarrow> buffer_set_size junk b bsize w;
        if r \<noteq> 0 then Some (RFail, cs(q \<mapsto> CBuffer b1), w1)
        else if bsize = 0 then Some (RNext (pos + 4), cs(q \<mapsto> CBuffer b1), w1)
        else if pos + 4 + bsize > length buf then Some (RMore, cs(q \<mapsto> CBuffer b1), w1)
        else do { d \<leftarrow> write_block (buffer_get_data b1) 0 (block buf (pos + 4) bsize);
                  Some (RNext (pos + 4 + bsize), cs(q \<mapsto> CBuffer (b1\<lparr>buf_data := d\<rparr>)), w1) } })"

definition receive_arg :: "(nat \<Rightarrow> char) \<Rightarrow> AppInterfaceCallArg \<Rightarrow> nat option \<Rightarrow> string \<Rightarrow> nat \<Rightarrow> cells \<Rightarrow> world
    \<Rightarrow> (received \<times> cells \<times> world) option" where
  "receive_arg junk a p buf pos cs w =
     (if aa_direction a = AICD_IN then Some (RNext pos, cs, w)
      else case aa_type a of
        AICT_STRING \<Rightarrow> receive_string p buf pos cs w
      | AICT_BUFFER \<Rightarrow> receive_buffer junk p buf pos cs w
      | _ \<Rightarrow> do { (r, cs') \<leftarrow> receive_number a p buf pos cs; Some (r, cs', w) })"

fun receive_loop :: "(nat \<Rightarrow> char) \<Rightarrow> AppInterfaceCallArg list \<Rightarrow> nat option list \<Rightarrow> string \<Rightarrow> nat \<Rightarrow> cells \<Rightarrow> world
    \<Rightarrow> (received \<times> cells \<times> world) option" where
  "receive_loop junk [] ps buf pos cs w = Some (RNext pos, cs, w)"
| "receive_loop junk (a # as) [] buf pos cs w = None"
| "receive_loop junk (a # as) (p # ps) buf pos cs w =
     do { (r, cs1, w1) \<leftarrow> receive_arg junk a p buf pos cs w;
          case r of
            RNext pos1 \<Rightarrow> receive_loop junk as ps buf pos1 cs1 w1
          | _ \<Rightarrow> Some (r, cs1, w1) }"

text \<open>\<open>ret\<close> is the object for the value returned, or \<open>None\<close> for \<open>NULL\<close>.\<close>

definition appinterface_call_receive ::
  "(nat \<Rightarrow> char) \<Rightarrow> AppInterface \<Rightarrow> 32 word option \<Rightarrow> string \<Rightarrow> string \<Rightarrow> nat option list \<Rightarrow> cells \<Rightarrow> world
     \<Rightarrow> (int \<times> 32 word option \<times> cells \<times> world) option" where
  "appinterface_call_receive junk ai ret buf function ps cs w =
     (case appinterface_get_call ai function w of
        (None, w1) \<Rightarrow> Some (- 1, ret, cs, w1)
      | (Some aic, w1) \<Rightarrow>
          do { (r, cs2, w2) \<leftarrow> receive_loop junk (ac_args aic) ps buf 0 cs w1;
               case r of
                 RFail \<Rightarrow> Some (- 1, ret, cs2, w2)
               | RMore \<Rightarrow> Some (0, ret, cs2, w2)
               | RNext pos \<Rightarrow>
                   if pos + 4 > length buf then Some (0, ret, cs2, w2)
                   else Some (int (pos + 4), map_option (\<lambda>_. ntohl (word_of_nat (number_of (block buf pos 4)))) ret, cs2, w2) })"

end
