(* ===== verification/App_Serve.thy ===== *)
theory App_Serve
  imports App_Call
begin

text \<open>
  The server side of \<open>libApp/src/appinterface.c\<close>: \<open>appinterface_receive\<close> reads the name of a call and its
  arguments, runs the function, and writes the results.

  A function of the server is a number; its effect (the value it returns, the argument slots with the
  objects it has changed, the state \<open>'u\<close> of the server program, the world) is a parameter.
\<close>

datatype slot = SUndef | SLong "64 word" | SFloat "32 word" | SString string | SBuffer Buffer | SOut "cell option"

type_synonym 'u call_env = "nat \<Rightarrow> slot list \<Rightarrow> 'u \<Rightarrow> world \<Rightarrow> (32 word \<times> slot list \<times> 'u \<times> world) option"

section \<open>Preparing the arguments\<close>

definition pre_exec_buffer :: "string \<Rightarrow> nat \<Rightarrow> world \<Rightarrow> (slot option \<times> nat \<times> world) option" where
  "pre_exec_buffer buf pos w =
     (case read_bytes 4 buf pos w of
        (r, bs, pos1, w1) \<Rightarrow>
          if r \<noteq> 0 then Some (None, pos1, w1)
          else do {
            let sz = unat (ntohl (word_of_nat (number_of bs)));
            (b, w2) \<leftarrow> buffer_new sz None w1;
            case b of
              None \<Rightarrow> Some (None, pos1, w2)
            | Some b \<Rightarrow>
                (case read_bytes sz buf pos1 w2 of
                   (r, bs, pos3, w3) \<Rightarrow>
                     if r \<noteq> 0 then Some (None, pos3, w3)
                     else do { d \<leftarrow> write_block (buffer_get_data b) 0 bs;
                               Some (Some (SBuffer (b\<lparr>buf_data := d\<rparr>)), pos3, w3) }) })"

fun read_slot :: "nat \<Rightarrow> (nat \<Rightarrow> slot) \<Rightarrow> string \<Rightarrow> nat \<Rightarrow> world \<Rightarrow> slot option \<times> nat \<times> world" where
  "read_slot n f buf pos w =
     (case read_bytes n buf pos w of
        (r, bs, pos', w') \<Rightarrow> (if r \<noteq> 0 then None else Some (f (number_of bs)), pos', w'))"

text \<open>The slot that is filled, \<open>None\<close> on failure.\<close>

definition pre_exec_in :: "AppInterfaceCallArg \<Rightarrow> string \<Rightarrow> nat \<Rightarrow> world \<Rightarrow> (slot option \<times> nat \<times> world) option" where
  "pre_exec_in a buf pos w =
     (case aa_type a of
        AICT_VOID \<Rightarrow> Some (Some SUndef, pos, w)
      | AICT_BUFFER \<Rightarrow> pre_exec_buffer buf pos w
      | AICT_STRING \<Rightarrow> (case read_string buf pos w of (s, pos', w') \<Rightarrow> Some (map_option SString s, pos', w'))
      | AICT_FLOAT \<Rightarrow>
          (case w_alloc w of
             (False, w1) \<Rightarrow> Some (None, pos, w1)
           | (True, w1) \<Rightarrow> Some (read_slot 4 (\<lambda>x. SFloat (word_of_nat x)) buf pos w1))
      | AICT_INT64 \<Rightarrow> Some (None, pos, fail_errno ENOSYS (w\<lparr>errno := ENOSYS\<rparr>))
      | AICT_UINT64 \<Rightarrow> Some (None, pos, fail_errno ENOSYS (w\<lparr>errno := ENOSYS\<rparr>))
      | AICT_DOUBLE \<Rightarrow> Some (None, pos, fail_errno ENOSYS (w\<lparr>errno := ENOSYS\<rparr>))
      | AICT_INT16 \<Rightarrow> Some (read_slot 2 (\<lambda>x. SLong (ucast (ntohs (word_of_nat x)))) buf pos w)
      | AICT_UINT16 \<Rightarrow> Some (read_slot 2 (\<lambda>x. SLong (ucast (ntohs (word_of_nat x)))) buf pos w)
      | AICT_INT32 \<Rightarrow> Some (read_slot 4 (\<lambda>x. SLong (ucast (ntohl (word_of_nat x)))) buf pos w)
      | AICT_UINT32 \<Rightarrow> Some (read_slot 4 (\<lambda>x. SLong (ucast (ntohl (word_of_nat x)))) buf pos w)
      | _ \<Rightarrow> Some (read_slot 1 (\<lambda>x. SLong (scast (word_of_nat x :: 8 word))) buf pos w))"

text \<open>An object of the right size is allocated; its content is indeterminate, but for the \<open>NULL\<close> string.\<close>

definition pre_exec_out :: "AppInterfaceCallArg \<Rightarrow> world \<Rightarrow> (slot option \<times> world) option" where
  "pre_exec_out a w =
     (case aa_type a of
        AICT_VOID \<Rightarrow> Some (Some SUndef, w)
      | AICT_BUFFER \<Rightarrow> do { (b, w1) \<leftarrow> buffer_new 0 None w; Some (map_option SBuffer b, w1) }
      | AICT_STRING \<Rightarrow> (case w_alloc w of (ok, w1) \<Rightarrow> Some (if ok then Some (SOut (Some (CString None))) else None, w1))
      | _ \<Rightarrow> (case w_alloc w of (ok, w1) \<Rightarrow> Some (if ok then Some (SOut None) else None, w1)))"

text \<open>The slots that could be filled; \<open>AICD_IN_OUT\<close> stops, as it is not implemented.\<close>

fun args_pre_exec :: "AppInterfaceCallArg list \<Rightarrow> string \<Rightarrow> nat \<Rightarrow> world \<Rightarrow> (slot list \<times> nat \<times> world) option" where
  "args_pre_exec [] buf pos w = Some ([], pos, w)"
| "args_pre_exec (a # as) buf pos w =
     do { (s, pos1, w1) \<leftarrow>
            (case aa_direction a of
               AICD_IN \<Rightarrow> pre_exec_in a buf pos w
             | AICD_IN_OUT \<Rightarrow> Some (None, pos, w)
             | AICD_OUT \<Rightarrow> do { (s, w1) \<leftarrow> pre_exec_out a w; Some (s, pos, w1) });
          case s of
            None \<Rightarrow> Some ([], pos1, w1)
          | Some s \<Rightarrow> do { (ss, pos2, w2) \<leftarrow> args_pre_exec as buf pos1 w1; Some (s # ss, pos2, w2) } }"

section \<open>Running the function\<close>

text \<open>\<open>ret\<close> is indeterminate (\<open>None\<close>) until it is set.\<close>

definition args_exec ::
  "'u call_env \<Rightarrow> AppInterfaceCall \<Rightarrow> 32 word option \<Rightarrow> slot list \<Rightarrow> 'u \<Rightarrow> world
     \<Rightarrow> (int \<times> 32 word option \<times> slot list \<times> 'u \<times> world) option" where
  "args_exec env call ret args u w =
     (if length (ac_args call) > 4 then
        (case error_set_code 1 (''AppInterface: functions with '' @ show_nat (length (ac_args call))
             @ ''arguments are not supported'') w of (c, w') \<Rightarrow> Some (c, ret, args, u, w'))
      else do { f \<leftarrow> ac_func call;
                (r, args', u', w') \<leftarrow> env f args u w;
                Some (0, Some (if aa_type (ac_type call) = AICT_VOID then 0 else r), args', u', w') })"

section \<open>Sending the results\<close>

definition send_image :: "AppInterfaceCallArg \<Rightarrow> cell \<Rightarrow> string \<Rightarrow> nat \<Rightarrow> world \<Rightarrow> (int \<times> string \<times> nat \<times> world) option" where
  "send_image a c buf pos w =
     do { bs \<leftarrow> read_block (image c) 0 (aa_size a);
          case send_bytes bs buf pos w of (r, x) \<Rightarrow> Some (if r \<noteq> 0 then - 1 else 0, x) }"

definition send_buffer :: "Buffer \<Rightarrow> string \<Rightarrow> nat \<Rightarrow> world \<Rightarrow> (int \<times> string \<times> nat \<times> world) option" where
  "send_buffer b buf pos w =
     (case send_bytes (image (C32 (htonl (word_of_nat (buffer_get_size b))))) buf pos w of
        (r, buf1, pos1, w1) \<Rightarrow>
          if r \<noteq> 0 then Some (- 1, buf1, pos1, w1)
          else do { bs \<leftarrow> read_block (buffer_get_data b) 0 (buffer_get_size b);
                    case send_bytes bs buf1 pos1 w1 of (r, x) \<Rightarrow> Some (if r \<noteq> 0 then - 1 else 0, x) })"

definition post_exec_out :: "AppInterfaceCallArg \<Rightarrow> slot \<Rightarrow> string \<Rightarrow> nat \<Rightarrow> world
    \<Rightarrow> (int \<times> string \<times> nat \<times> world) option" where
  "post_exec_out a s buf pos w =
     (if aa_size a > length buf then Some (- 1, buf, pos, fail_errno ENOBUFS (w\<lparr>errno := ENOBUFS\<rparr>))
      else case aa_type a of
        AICT_VOID \<Rightarrow> Some (0, buf, pos, w)
      | AICT_INT64 \<Rightarrow> Some (- 1, buf, pos, fail_errno ENOSYS (w\<lparr>errno := ENOSYS\<rparr>))
      | AICT_UINT64 \<Rightarrow> Some (- 1, buf, pos, fail_errno ENOSYS (w\<lparr>errno := ENOSYS\<rparr>))
      | AICT_DOUBLE \<Rightarrow> Some (- 1, buf, pos, fail_errno ENOSYS (w\<lparr>errno := ENOSYS\<rparr>))
      | AICT_BUFFER \<Rightarrow> (case s of SBuffer b \<Rightarrow> send_buffer b buf pos w | _ \<Rightarrow> None)
      | AICT_STRING \<Rightarrow>
          (case s of
             SOut (Some (CString p)) \<Rightarrow> (case send_string p buf pos w of (r, x) \<Rightarrow> Some (if r \<noteq> 0 then - 1 else 0, x))
           | _ \<Rightarrow> None)
      | t \<Rightarrow>
          (case s of
             SOut (Some (C8 x)) \<Rightarrow> (if t \<in> {AICT_BOOL, AICT_INT8, AICT_UINT8} then send_image a (C8 x) buf pos w else None)
           | SOut (Some (C16 x)) \<Rightarrow> (if t \<in> {AICT_INT16, AICT_UINT16} then send_image a (C16 (htons x)) buf pos w else None)
           | SOut (Some (C32 x)) \<Rightarrow>
               (if t \<in> {AICT_INT32, AICT_UINT32, AICT_FLOAT} then send_image a (C32 (htonl x)) buf pos w else None)
           | _ \<Rightarrow> None))"

text \<open>A result that cannot be sent does not stop the loop; its index is returned.\<close>

fun post_send :: "AppInterfaceCallArg list \<Rightarrow> slot list \<Rightarrow> nat \<Rightarrow> nat \<Rightarrow> string \<Rightarrow> nat \<Rightarrow> world
    \<Rightarrow> (nat \<times> string \<times> nat \<times> world) option" where
  "post_send (a # as) (s # ss) j ret buf pos w =
     (if aa_direction a = AICD_OUT then
        do { (r, buf1, pos1, w1) \<leftarrow> post_exec_out a s buf pos w;
             post_send as ss (j + 1) (if r \<noteq> 0 then j else ret) buf1 pos1 w1 }
      else post_send as ss (j + 1) ret buf pos w)"
| "post_send _ _ j ret buf pos w = Some (ret, buf, pos, w)"

text \<open>What freeing the arguments does to the world: some types are not supported there.\<close>

definition post_exec_free_in :: "AppInterfaceCallArg \<Rightarrow> world \<Rightarrow> world" where
  "post_exec_free_in a w =
     (if aa_type a \<in> {AICT_INT64, AICT_UINT64, AICT_DOUBLE} then fail_errno ENOSYS (w\<lparr>errno := ENOSYS\<rparr>) else w)"

definition post_exec_free_out :: "AppInterfaceCallArg \<Rightarrow> world \<Rightarrow> world" where
  "post_exec_free_out a w = (if aa_type a = AICT_STRING then fail_errno ENOSYS (w\<lparr>errno := ENOSYS\<rparr>) else w)"

fun post_free :: "AppInterfaceCallArg list \<Rightarrow> world \<Rightarrow> world" where
  "post_free [] w = w"
| "post_free (a # as) w =
     post_free as (case aa_direction a of
        AICD_IN \<Rightarrow> post_exec_free_in a w | AICD_IN_OUT \<Rightarrow> w | AICD_OUT \<Rightarrow> post_exec_free_out a w)"

definition args_post_exec :: "AppInterfaceCall \<Rightarrow> string \<Rightarrow> nat \<Rightarrow> slot list \<Rightarrow> nat \<Rightarrow> world
    \<Rightarrow> (nat \<times> string \<times> nat \<times> world) option" where
  "args_post_exec call buf pos args i w =
     do { (ret, buf1, pos1, w1) \<leftarrow>
            (if i = length (ac_args call) then post_send (ac_args call) args 0 i buf pos w else Some (i, buf, pos, w));
          Some (ret, buf1, pos1, post_free (take i (ac_args call)) w1) }"

section \<open>A call received\<close>

definition receive_args ::
  "'u call_env \<Rightarrow> AppInterfaceCall \<Rightarrow> 32 word option \<Rightarrow> string \<Rightarrow> nat \<Rightarrow> string \<Rightarrow> nat \<Rightarrow> 'u \<Rightarrow> world
     \<Rightarrow> (int \<times> 32 word option \<times> nat \<times> string \<times> nat \<times> 'u \<times> world) option" where
  "receive_args env call ret buf pos bufw bufwpos u w =
     (case w_alloc w of
        (False, w1) \<Rightarrow> Some (1, ret, pos, bufw, bufwpos, u, fail_errno (errno w1) w1)
      | (True, w1) \<Rightarrow>
          do { (args, pos2, w2) \<leftarrow> args_pre_exec (ac_args call) buf pos w1;
               if length args \<noteq> length (ac_args call) then
                 do { (_, bufw3, bufwpos3, w3) \<leftarrow> args_post_exec call bufw bufwpos args (length args) w2;
                      Some (1, ret, pos2, bufw3, bufwpos3, u, w3) }
               else
                 do { (_, ret3, args3, u3, w3) \<leftarrow> args_exec env call ret args u w2;
                      (i, bufw4, bufwpos4, w4) \<leftarrow> args_post_exec call bufw bufwpos args3 (length args) w3;
                      Some (if i \<noteq> length args then 1 else 0, ret3, pos2, bufw4, bufwpos4, u3, w4) } })"

text \<open>The number of bytes read or \<open>- 1\<close>; the value returned; the answer in \<open>bufw\<close> up to \<open>bufwpos\<close>.\<close>

definition appinterface_receive ::
  "'u call_env \<Rightarrow> AppInterface \<Rightarrow> 32 word option \<Rightarrow> string \<Rightarrow> string \<Rightarrow> nat \<Rightarrow> 'u \<Rightarrow> world
     \<Rightarrow> (int \<times> 32 word option \<times> string \<times> nat \<times> 'u \<times> world) option" where
  "appinterface_receive env ai ret buf bufw bufwpos u w =
     (case read_string buf 0 w of
        (None, pos, w1) \<Rightarrow>
          (case error_set_code 1 ''Could not read the name of the call'' w1 of
             (c, w2) \<Rightarrow> Some (- c, ret, bufw, bufwpos, u, w2))
      | (Some func, pos, w1) \<Rightarrow>
          (case appinterface_get_call ai func w1 of
             (None, w2) \<Rightarrow> Some (- 1, ret, bufw, bufwpos, u, w2)
           | (Some aic, w2) \<Rightarrow>
               do { (r, ret3, pos3, bufw3, bufwpos3, u3, w3) \<leftarrow> receive_args env aic ret buf pos bufw bufwpos u w2;
                    Some (if r \<noteq> 0 then - 1 else int pos3, ret3, bufw3, bufwpos3, u3, w3) }))"

end
