(* ===== verification/App_Rpc.thy ===== *)
theory App_Rpc
  imports App_Serve
begin

text \<open>
  The two ends together: what the function of the server gets of the arguments of a call (\<open>passed\<close>), and
  what the objects of the client get of its results (\<open>answered\<close>).
\<close>

section \<open>Bytes of numbers\<close>

lemma length_bytes_of [simp]: "length (bytes_of n x) = n"
  by (induction n x rule: bytes_of.induct) auto

lemma number_of_bytes_of [simp]: "number_of (bytes_of n x) = x mod 256 ^ n"
proof (induction n x rule: bytes_of.induct)
  case (2 n x)
  have "x mod (256 * 256 ^ n) = x mod 256 + 256 * (x div 256 mod 256 ^ n)" by (simp add: mod_mult2_eq)
  with 2 show ?case by simp
qed simp

lemma bytes_of_number_of [simp]: "bytes_of (length bs) (number_of bs) = bs"
proof (induction bs)
  case (Cons c cs)
  have "(of_char c :: nat) < 256" by (rule nat_of_char_less_256)
  then have "(of_char c + 256 * number_of cs) mod 256 = (of_char c :: nat)"
    "(of_char c + 256 * number_of cs) div 256 = number_of cs" by simp_all
  with Cons show ?case by simp
qed simp

lemma number_of_less: "number_of bs < 256 ^ length bs"
  by (metis bytes_of_number_of length_bytes_of mod_less_divisor number_of_bytes_of zero_less_numeral zero_less_power)

lemma reverse_bytes:
  "number_of (rev (bytes_of n (number_of (rev (bytes_of n x))))) = x mod 256 ^ n"
proof -
  have "bytes_of n (number_of (rev (bytes_of n x))) = rev (bytes_of n x)"
    by (metis bytes_of_number_of length_bytes_of length_rev)
  then show ?thesis by simp
qed

lemma word_of_nat_mod [simp]:
  "word_of_nat (unat x mod 256) = x" "word_of_nat (unat y mod 65536) = y" "word_of_nat (unat z mod 4294967296) = z"
  for x :: "8 word" and y :: "16 word" and z :: "32 word"
proof -
  have "unat x < 256" "unat y < 65536" "unat z < 4294967296" by (rule order_less_le_trans [OF unsigned_less], simp)+
  then show "word_of_nat (unat x mod 256) = x" "word_of_nat (unat y mod 65536) = y" "word_of_nat (unat z mod 4294967296) = z"
    by simp_all
qed

lemma htons_htons [simp]: "htons (htons x) = x"
proof -
  have less: "number_of (rev (bytes_of 2 (unat x))) < 2 ^ 16" using number_of_less [of "rev (bytes_of 2 (unat x))"] by simp
  then have "unat (word_of_nat (number_of (rev (bytes_of 2 (unat x)))) :: 16 word) = number_of (rev (bytes_of 2 (unat x)))"
    by (simp add: unsigned_of_nat take_bit_nat_eq_self)
  with reverse_bytes [of 2 "unat x"] show ?thesis by (simp add: htons_def)
qed

lemma htonl_htonl [simp]: "htonl (htonl x) = x"
proof -
  have less: "number_of (rev (bytes_of 4 (unat x))) < 2 ^ 32" using number_of_less [of "rev (bytes_of 4 (unat x))"] by simp
  then have "unat (word_of_nat (number_of (rev (bytes_of 4 (unat x)))) :: 32 word) = number_of (rev (bytes_of 4 (unat x)))"
    by (simp add: unsigned_of_nat take_bit_nat_eq_self)
  with reverse_bytes [of 4 "unat x"] show ?thesis by (simp add: htonl_def)
qed

lemma word_of_image [simp]:
  "word_of_nat (number_of (image (C8 x))) = x" "word_of_nat (number_of (image (C16 y))) = y"
  "word_of_nat (number_of (image (C32 z))) = z"
  by simp_all

lemma length_image [simp]: "length (image (C8 x)) = 1" "length (image (C16 y)) = 2" "length (image (C32 z)) = 4"
  "length (image (C64 v)) = 8"
  by simp_all

lemma image_nonempty [simp]: "image (C8 x) \<noteq> []" "image (C16 y) \<noteq> []" "image (C32 z) \<noteq> []" "image (C64 v) \<noteq> []"
  by (simp_all flip: length_greater_0_conv)

declare image.simps [simp del]

lemma block_prefix: "block (pre @ bs @ rest) (length pre) (length bs) = bs"
  by (simp add: block_def)

lemma block_prefix_n: "length bs = n \<Longrightarrow> block (pre @ bs @ rest) (length pre) n = bs"
  by (simp add: block_def)

lemma sized_image [simp]:
  "aa_size a = length (image c) \<Longrightarrow> sized a c = Some (if image c = [] then [] else [image c])"
  by (simp add: sized_def read_block_def block_def)

section \<open>What arrives\<close>

text \<open>All sizes are those of the table, as in an interface that was loaded.\<close>

definition sizes_ok :: "AppInterfaceCallArg list \<Rightarrow> bool" where
  "sizes_ok as \<longleftrightarrow> (\<forall>a \<in> set as. aa_size a = aict_size (aa_type a))"

text \<open>
  The slot for a value that was passed in: the bytes of the value, extended to eight bytes as the code does.
\<close>

inductive arrives :: "(64 word \<Rightarrow> 32 word) \<Rightarrow> cells \<Rightarrow> AppInterfaceCallType \<Rightarrow> call_arg \<Rightarrow> slot \<Rightarrow> bool" for dtof cs where
  bits8: "t \<in> {AICT_BOOL, AICT_INT8, AICT_UINT8} \<Longrightarrow> arrives dtof cs t (AInt i) (SLong (scast (ucast i :: 8 word)))"
| bits16: "t \<in> {AICT_INT16, AICT_UINT16} \<Longrightarrow> arrives dtof cs t (AInt i) (SLong (ucast (ucast i :: 16 word)))"
| bits32: "t \<in> {AICT_INT32, AICT_UINT32} \<Longrightarrow> arrives dtof cs t (AInt i) (SLong (ucast i))"
| real: "arrives dtof cs AICT_FLOAT (ADouble d) (SFloat (dtof d))"
| chars: "NUL \<notin> set s \<Longrightarrow> arrives dtof cs AICT_STRING (AString (Some s)) (SString s)"
| object: "cs p = Some (CBuffer b) \<Longrightarrow> buffer_wf b \<Longrightarrow> buf_size b < 2 ^ 32 \<Longrightarrow>
    arrives dtof cs AICT_BUFFER (APointer (Some p)) (SBuffer b)"

text \<open>An object for a result, as the function gets it.\<close>

inductive fresh :: "AppInterfaceCallType \<Rightarrow> slot \<Rightarrow> bool" where
  number: "t \<notin> {AICT_VOID, AICT_STRING, AICT_BUFFER} \<Longrightarrow> fresh t (SOut None)"
| chars: "fresh AICT_STRING (SOut (Some (CString None)))"
| object: "fresh AICT_BUFFER (SBuffer \<lparr>buf_size = 0, buf_data = []\<rparr>)"

inductive passed :: "(64 word \<Rightarrow> 32 word) \<Rightarrow> cells \<Rightarrow> AppInterfaceCallArg list \<Rightarrow> call_arg list \<Rightarrow> slot list \<Rightarrow> nat option list \<Rightarrow> bool"
  for dtof cs where
  none: "passed dtof cs [] va [] []"
| void: "aa_type a = AICT_VOID \<Longrightarrow> aa_direction a \<noteq> AICD_IN_OUT \<Longrightarrow> passed dtof cs as va ss ps \<Longrightarrow>
    passed dtof cs (a # as) va (SUndef # ss) (None # ps)"
| arg: "aa_direction a = AICD_IN \<Longrightarrow> arrives dtof cs (aa_type a) x s \<Longrightarrow> passed dtof cs as va ss ps \<Longrightarrow>
    passed dtof cs (a # as) (x # va) (s # ss) (None # ps)"
| result: "aa_direction a = AICD_OUT \<Longrightarrow> fresh (aa_type a) s \<Longrightarrow> passed dtof cs as va ss ps \<Longrightarrow>
    passed dtof cs (a # as) (APointer p # va) (s # ss) (p # ps)"

inductive_cases arrives_void [elim!]: "arrives dtof cs AICT_VOID x s"
inductive_cases fresh_void [elim!]: "fresh AICT_VOID s"

section \<open>The call on the wire\<close>

fun wire :: "(64 word \<Rightarrow> 32 word) \<Rightarrow> AppInterfaceCallArg list \<Rightarrow> call_arg list \<Rightarrow> cells \<Rightarrow> (string \<times> nat option list) option" where
  "wire dtof [] va cs = Some ([], [])"
| "wire dtof (a # as) va cs =
     do { (blocks, p, va') \<leftarrow> call_arg dtof a va cs;
          (bs, ps) \<leftarrow> wire dtof as va' cs;
          Some (concat blocks @ bs, p # ps) }"

lemma send_bytes_fits:
  "pos + length d \<le> length buf \<Longrightarrow> send_bytes d buf pos w = (0, blit buf pos d, pos + length d, w)"
  by (simp add: send_bytes_def)

lemma send_blocks_fits:
  "pos + length (concat ds) \<le> length buf \<Longrightarrow>
   send_blocks ds buf pos w = (0, blit buf pos (concat ds), pos + length (concat ds), w)"
proof (induction ds arbitrary: buf pos)
  case (Cons d ds)
  then have "blit (blit buf pos d) (pos + length d) (concat ds) = blit buf pos (d @ concat ds)" by (intro blit_blit) simp
  with Cons.IH [of "pos + length d" "blit buf pos d"] Cons.prems show ?case by (simp add: send_bytes_fits)
qed simp

lemma send_blocks_full:
  "pos \<le> length buf \<Longrightarrow> length buf < pos + length (concat ds) \<Longrightarrow> \<exists>r buf' pos' w'. send_blocks ds buf pos w = (r, buf', pos', w') \<and> r \<noteq> 0"
proof (induction ds arbitrary: buf pos w)
  case (Cons d ds)
  show ?case
  proof (cases "pos + length d \<le> length buf")
    case True
    with Cons.IH [of "pos + length d" "blit buf pos d" w] Cons.prems show ?thesis by (simp add: send_bytes_fits add.assoc)
  qed (simp add: send_bytes_def)
qed simp

lemma send_string_loop_eq:
  "pos + length s < length buf \<Longrightarrow> send_string_loop s buf pos w = (0, blit buf pos (s @ [NUL]), pos + length s + 1, w)"
proof (induction s arbitrary: buf pos)
  case Nil
  then show ?case by (subst send_string_loop.simps) (simp add: blit_Cons [of _ _ _ "[]", simplified])
next
  case (Cons c s)
  then show ?case by (subst send_string_loop.simps) (simp add: blit_Cons)
qed

lemma send_string_fits:
  "pos + length s < length buf \<Longrightarrow> send_string (Some s) buf pos w = (0, blit buf pos (s @ [NUL]), pos + length s + 1, w)"
  by (simp add: send_string_def send_string_loop_eq)

lemma call_loop_wire:
  assumes "wire dtof as va cs = Some (bs, ps)" "pos + length bs \<le> length buf"
  shows "call_loop dtof as va cs buf pos w = Some (0, ps, blit buf pos bs, pos + length bs, w)"
  using assms
proof (induction as arbitrary: va bs ps buf pos)
  case (Cons a as)
  from Cons.prems(1) obtain blocks p va' bs' ps' where
    arg: "call_arg dtof a va cs = Some (blocks, p, va')" "wire dtof as va' cs = Some (bs', ps')"
      "bs = concat blocks @ bs'" "ps = p # ps'" by (auto simp: Option.bind_eq_Some_conv)
  let ?n = "length (concat blocks)"
  have fits: "pos + ?n \<le> length buf" "(pos + ?n) + length bs' \<le> length (blit buf pos (concat blocks))"
    using Cons.prems(2) arg(3) by simp_all
  from Cons.IH [OF arg(2) fits(2)] send_blocks_fits [OF fits(1)] arg show ?case
    using blit_blit [of pos "concat blocks" bs' buf] fits by (simp add: add.assoc)
qed simp

section \<open>The call read back\<close>

lemma read_bytes_at: "length bs = n \<Longrightarrow> read_bytes n (pre @ bs @ rest) (length pre) w = (0, bs, length pre + n, w)"
  by (simp add: read_bytes_def block_prefix_n)

lemma read_slot_at:
  "length bs = n \<Longrightarrow> read_slot n f (pre @ bs @ rest) (length pre) w = (Some (f (number_of bs)), length pre + n, w)"
  by (simp add: read_bytes_at)

declare read_slot.simps [simp del]

lemma read_string_at:
  assumes "NUL \<notin> set s" "plenty w"
  shows "\<exists>w'. read_string (pre @ (s @ [NUL]) @ rest) (length pre) w = (Some s, length pre + length s + 1, w') \<and> plenty w'"
proof -
  have "takeWhile (\<lambda>c. c \<noteq> NUL) (s @ NUL # rest) = s" using assms(1) by (induction s) auto
  with string_new_ok [OF assms(2), of s] show ?thesis by (auto simp: read_string_def Let_def)
qed

lemma buffer_new_plenty:
  assumes "plenty w"
  shows "\<exists>w'. buffer_new n None w = Some (Some \<lparr>buf_size = n, buf_data = replicate n NUL\<rparr>, w') \<and> plenty w'"
proof -
  obtain w1 where w1: "object_new 16 w = (True, w1)" "plenty w1" using object_new_ok [OF assms, of 16] by auto
  show ?thesis
  proof (cases "n = 0")
    case True
    have "plenty (snd (object_new 0 w1))" using w1(2) by (simp add: object_new_def)
    with True w1 show ?thesis by (auto simp: buffer_new_def split: prod.split)
  next
    case False
    with object_new_ok [OF w1(2), of n] w1 show ?thesis by (auto simp: buffer_new_def)
  qed
qed

lemma buffer_blocks_bytes:
  assumes "buffer_wf b"
  shows "\<exists>ds. buffer_blocks b = Some ds \<and> concat ds = image (C32 (htonl (word_of_nat (buf_size b)))) @ buf_data b"
  using assms by (auto simp: buffer_blocks_def buffer_wf_def buffer_get_data_def buffer_get_size_def read_block_def block_def)

lemma size_read: "n < 2 ^ 32 \<Longrightarrow> unat (ntohl (word_of_nat (number_of (image (C32 (htonl (word_of_nat n))))))) = n"
  by (simp add: unsigned_of_nat take_bit_nat_eq_self)

lemma pre_exec_buffer_at:
  assumes "buffer_wf b" "buf_size b < 2 ^ 32" "plenty w"
  defines "bs \<equiv> image (C32 (htonl (word_of_nat (buf_size b)))) @ buf_data b"
  shows "\<exists>w'. pre_exec_buffer (pre @ bs @ rest) (length pre) w = Some (Some (SBuffer b), length pre + length bs, w') \<and> plenty w'"
proof -
  let ?n = "buf_size b" and ?h = "image (C32 (htonl (word_of_nat (buf_size b))))"
  obtain w2 where w2: "buffer_new ?n None w = Some (Some \<lparr>buf_size = ?n, buf_data = replicate ?n NUL\<rparr>, w2)" "plenty w2"
    using buffer_new_plenty [OF assms(3)] by blast
  have len: "length (buf_data b) = ?n" using assms(1) by (simp add: buffer_wf_def)
  have h: "read_bytes 4 (pre @ bs @ rest) (length pre) w = (0, ?h, length pre + 4, w)"
    using read_bytes_at [of ?h 4 pre "buf_data b @ rest"] by (simp add: bs_def)
  have d: "read_bytes ?n (pre @ bs @ rest) (length pre + 4) w2 = (0, buf_data b, length pre + 4 + ?n, w2)"
    using read_bytes_at [OF len, of "pre @ ?h" rest] by (simp add: bs_def)
  have "write_block (replicate ?n NUL) 0 (buf_data b) = Some (buf_data b)" using len by (simp add: write_block_def blit_def)
  then show ?thesis using h d w2 size_read [OF assms(2)] len
    by (cases b) (simp add: pre_exec_buffer_def buffer_get_data_def bs_def Let_def)
qed

lemma arrives_wire:
  assumes "arrives dtof cs (aa_type a) x s" "aa_size a = aict_size (aa_type a)" "aa_direction a = AICD_IN"
  shows "\<exists>ds. call_arg dtof a (x # va) cs = Some (ds, None, va)
    \<and> (\<forall>pre rest w. plenty w \<longrightarrow> (\<exists>w'. plenty w'
          \<and> pre_exec_in a (pre @ concat ds @ rest) (length pre) w = Some (Some s, length pre + length (concat ds), w')))"
  using assms(1)
proof cases
  case (bits8 i)
  with assms(2,3) show ?thesis by (auto simp: call_arg_def pre_exec_in_def read_slot_at)
next
  case (bits16 i)
  with assms(2,3) show ?thesis by (auto simp: call_arg_def pre_exec_in_def read_slot_at)
next
  case (bits32 i)
  with assms(2,3) show ?thesis by (auto simp: call_arg_def pre_exec_in_def read_slot_at)
next
  case (real d)
  have "\<exists>w'. plenty w' \<and> pre_exec_in a (pre @ image (C32 (dtof d)) @ rest) (length pre) w = Some (Some s, length pre + 4, w')"
    if "plenty w" for pre rest w
    using w_alloc_plenty [OF that] real(1,3) by (auto simp: pre_exec_in_def read_slot_at)
  with real assms(2,3) show ?thesis by (simp add: call_arg_def)
next
  case (chars t)
  have "\<exists>w'. plenty w' \<and> pre_exec_in a (pre @ (t @ [NUL]) @ rest) (length pre) w = Some (Some s, length pre + (length t + 1), w')"
    if "plenty w" for pre rest w
    using read_string_at [OF chars(4) that, of pre rest] chars(1,3) by (auto simp: pre_exec_in_def)
  with chars assms(3) show ?thesis by (simp add: call_arg_def)
next
  case (object p b)
  obtain ds where ds: "buffer_blocks b = Some ds" "concat ds = image (C32 (htonl (word_of_nat (buf_size b)))) @ buf_data b"
    using buffer_blocks_bytes [OF object(5)] by blast
  have "\<exists>w'. plenty w' \<and> pre_exec_in a (pre @ concat ds @ rest) (length pre) w = Some (Some s, length pre + length (concat ds), w')"
    if "plenty w" for pre rest w
    using pre_exec_buffer_at [OF object(5,6) that, of pre rest] object(1,3) unfolding ds(2) by (auto simp: pre_exec_in_def)
  with ds(1) object assms(3) show ?thesis by (simp add: call_arg_def)
qed

lemma fresh_exec:
  assumes "fresh (aa_type a) s" "plenty w"
  shows "\<exists>w'. pre_exec_out a w = Some (Some s, w') \<and> plenty w'"
  using assms(1)
proof cases
  case number
  with w_alloc_plenty [OF assms(2)] show ?thesis by (cases "aa_type a") (auto simp: pre_exec_out_def)
next
  case chars
  with w_alloc_plenty [OF assms(2)] show ?thesis by (auto simp: pre_exec_out_def)
next
  case object
  with buffer_new_plenty [OF assms(2), of 0] show ?thesis by (auto simp: pre_exec_out_def)
qed

text \<open>The bytes are those of arguments that arrive in the slots.\<close>

definition decodes :: "AppInterfaceCallArg list \<Rightarrow> string \<Rightarrow> slot list \<Rightarrow> bool" where
  "decodes as bs ss \<longleftrightarrow> (\<forall>pre rest w. plenty w \<longrightarrow>
     (\<exists>w'. args_pre_exec as (pre @ bs @ rest) (length pre) w = Some (ss, length pre + length bs, w') \<and> plenty w'))"

lemma decodesD:
  "decodes as bs ss \<Longrightarrow> plenty w \<Longrightarrow>
   \<exists>w'. args_pre_exec as (pre @ bs @ rest) (length pre) w = Some (ss, length pre + length bs, w') \<and> plenty w'"
  by (simp add: decodes_def)

lemma passed_wire:
  "passed dtof cs as va ss ps \<Longrightarrow> sizes_ok as \<Longrightarrow> \<exists>bs. wire dtof as va cs = Some (bs, ps) \<and> decodes as bs ss"
proof (induction rule: passed.induct)
  case (none va)
  then show ?case by (simp add: decodes_def)
next
  case (void a as va ss ps)
  then obtain bs where bs: "wire dtof as va cs = Some (bs, ps)" "decodes as bs ss" by (auto simp: sizes_ok_def)
  have "decodes (a # as) bs (SUndef # ss)"
    unfolding decodes_def
  proof (intro allI impI)
    fix pre rest w assume "plenty w"
    from decodesD [OF bs(2) this, of pre rest] void(1,2)
    show "\<exists>w'. args_pre_exec (a # as) (pre @ bs @ rest) (length pre) w = Some (SUndef # ss, length pre + length bs, w') \<and> plenty w'"
      by (cases "aa_direction a") (auto simp: pre_exec_in_def pre_exec_out_def)
  qed
  with bs(1) void(1,2) show ?case by (cases "aa_direction a") (simp_all add: call_arg_def)
next
  case (arg a x s as va ss ps)
  then obtain bs where bs: "wire dtof as va cs = Some (bs, ps)" "decodes as bs ss" by (auto simp: sizes_ok_def)
  from arrives_wire [OF arg(2) _ arg(1), of va] arg.prems obtain ds where
    ds: "call_arg dtof a (x # va) cs = Some (ds, None, va)" "\<forall>pre rest w. plenty w \<longrightarrow> (\<exists>w'. plenty w'
       \<and> pre_exec_in a (pre @ concat ds @ rest) (length pre) w = Some (Some s, length pre + length (concat ds), w'))"
    by (auto simp: sizes_ok_def)
  have "decodes (a # as) (concat ds @ bs) (s # ss)" unfolding decodes_def
  proof (intro allI impI)
    fix pre rest w assume w: "plenty w"
    from ds(2) w obtain w1 where w1: "plenty w1"
      "pre_exec_in a (pre @ concat ds @ bs @ rest) (length pre) w = Some (Some s, length pre + length (concat ds), w1)" by blast
    from decodesD [OF bs(2) w1(1), of "pre @ concat ds" rest] w1(2) arg(1)
    show "\<exists>w'. args_pre_exec (a # as) (pre @ (concat ds @ bs) @ rest) (length pre) w
      = Some (s # ss, length pre + length (concat ds @ bs), w') \<and> plenty w'" by (auto simp: add.assoc)
  qed
  with bs(1) ds(1) show ?case by simp
next
  case (result a s as va ss ps p)
  then obtain bs where bs: "wire dtof as va cs = Some (bs, ps)" "decodes as bs ss" by (auto simp: sizes_ok_def)
  have "decodes (a # as) bs (s # ss)" unfolding decodes_def
  proof (intro allI impI)
    fix pre rest w assume w: "plenty w"
    from fresh_exec [OF result(2) w] obtain w1 where "pre_exec_out a w = Some (Some s, w1)" "plenty w1" by blast
    with decodesD [OF bs(2), of w1 pre rest] result(1)
    show "\<exists>w'. args_pre_exec (a # as) (pre @ bs @ rest) (length pre) w = Some (s # ss, length pre + length bs, w') \<and> plenty w'"
      by auto
  qed
  moreover have "aa_type a \<noteq> AICT_VOID" using result(2) by auto
  then have "call_arg dtof a (APointer p # va) cs = Some ([], p, va)"
    using result(1) by (cases "aa_type a") (simp_all add: call_arg_def)
  ultimately show ?case using bs(1) by simp
qed

section \<open>The answer on the wire\<close>

text \<open>What an object of the client holds afterwards, from what the function left in its slot.\<close>

inductive returns :: "AppInterfaceCallType \<Rightarrow> slot \<Rightarrow> cell \<Rightarrow> cell \<Rightarrow> bool" where
  bits8: "t \<in> {AICT_BOOL, AICT_INT8, AICT_UINT8} \<Longrightarrow> returns t (SOut (Some (C8 x))) (C8 y) (C8 x)"
| bits16: "t \<in> {AICT_INT16, AICT_UINT16} \<Longrightarrow> returns t (SOut (Some (C16 x))) (C16 y) (C16 x)"
| bits32: "t \<in> {AICT_INT32, AICT_UINT32} \<Longrightarrow> returns t (SOut (Some (C32 x))) (C32 y) (C32 x)"
| chars: "NUL \<notin> set s \<Longrightarrow> returns AICT_STRING (SOut (Some (CString (Some s)))) (CString y) (CString (Some s))"
| object: "buffer_wf b \<Longrightarrow> buf_size b < 2 ^ 32 \<Longrightarrow> buffer_wf y \<Longrightarrow> returns AICT_BUFFER (SBuffer b) (CBuffer y) (CBuffer b)"

inductive_cases returns_void [elim!]: "returns AICT_VOID s c c'"

inductive answered :: "AppInterfaceCallArg list \<Rightarrow> slot list \<Rightarrow> nat option list \<Rightarrow> cells \<Rightarrow> cells \<Rightarrow> bool" where
  none: "answered [] [] [] cs cs"
| skip: "aa_direction a = AICD_IN \<or> aa_direction a = AICD_OUT \<and> aa_type a = AICT_VOID \<Longrightarrow> answered as ss ps cs cs' \<Longrightarrow>
    answered (a # as) (s # ss) (p # ps) cs cs'"
| result: "aa_direction a = AICD_OUT \<Longrightarrow> cs q = Some c \<Longrightarrow> returns (aa_type a) s c c' \<Longrightarrow>
    answered as ss ps (cs(q \<mapsto> c')) cs' \<Longrightarrow> answered (a # as) (s # ss) (Some q # ps) cs cs'"

text \<open>The bytes the server writes for the results, and what the client makes of them.\<close>

definition sends :: "AppInterfaceCallArg list \<Rightarrow> slot list \<Rightarrow> string \<Rightarrow> bool" where
  "sends as ss bs \<longleftrightarrow> (\<forall>j ret buf pos w. pos + length bs \<le> length buf \<longrightarrow> 8 \<le> length buf \<longrightarrow>
     post_send as ss j ret buf pos w = Some (ret, blit buf pos bs, pos + length bs, w))"

definition delivers :: "AppInterfaceCallArg list \<Rightarrow> nat option list \<Rightarrow> string \<Rightarrow> cells \<Rightarrow> cells \<Rightarrow> bool" where
  "delivers as ps bs cs cs' \<longleftrightarrow> (\<forall>junk pre rest w. plenty w \<longrightarrow>
     (\<exists>w'. receive_loop junk as ps (pre @ bs @ rest) (length pre) cs w = Some (RNext (length pre + length bs), cs', w') \<and> plenty w'))"

lemma delivers_step:
  assumes "delivers as ps bs cs1 cs'"
    and "\<And>junk pre rest w. plenty w \<Longrightarrow>
      \<exists>w1. receive_arg junk a p (pre @ ds @ rest) (length pre) cs w = Some (RNext (length pre + length ds), cs1, w1) \<and> plenty w1"
  shows "delivers (a # as) (p # ps) (ds @ bs) cs cs'"
  unfolding delivers_def
proof (intro allI impI)
  fix junk :: "nat \<Rightarrow> char" and pre rest w assume w: "plenty w"
  from assms(2) [OF w, of junk pre "bs @ rest"] obtain w1 where
    w1: "receive_arg junk a p (pre @ ds @ bs @ rest) (length pre) cs w = Some (RNext (length pre + length ds), cs1, w1)" "plenty w1"
    by blast
  from assms(1) w1(2) obtain w2 where
    "receive_loop junk as ps ((pre @ ds) @ bs @ rest) (length (pre @ ds)) cs1 w1 = Some (RNext (length (pre @ ds) + length bs), cs', w2)"
    "plenty w2" unfolding delivers_def by blast
  with w1(1) show "\<exists>w'. receive_loop junk (a # as) (p # ps) (pre @ (ds @ bs) @ rest) (length pre) cs w
      = Some (RNext (length pre + length (ds @ bs)), cs', w') \<and> plenty w'" by (simp add: add.assoc)
qed

lemma sends_step:
  assumes "sends as ss bs" "aa_direction a = AICD_OUT"
    and "\<And>buf pos w. pos + length ds \<le> length buf \<Longrightarrow> 8 \<le> length buf \<Longrightarrow>
      post_exec_out a s buf pos w = Some (0, blit buf pos ds, pos + length ds, w)"
  shows "sends (a # as) (s # ss) (ds @ bs)"
  unfolding sends_def
proof (intro allI impI)
  fix j ret pos and buf :: string and w
  assume fits: "pos + length (ds @ bs) \<le> length buf" "8 \<le> length buf"
  then have "post_send as ss (j + 1) ret (blit buf pos ds) (pos + length ds) w
      = Some (ret, blit (blit buf pos ds) (pos + length ds) bs, pos + length ds + length bs, w)"
    using assms(1) by (simp add: sends_def)
  moreover have "blit (blit buf pos ds) (pos + length ds) bs = blit buf pos (ds @ bs)" using fits by (intro blit_blit) simp
  ultimately show "post_send (a # as) (s # ss) j ret buf pos w = Some (ret, blit buf pos (ds @ bs), pos + length (ds @ bs), w)"
    using assms(2,3) fits by (simp add: add.assoc)
qed

lemma send_image_fits:
  "aa_size a = length (image c) \<Longrightarrow> pos + length (image c) \<le> length buf \<Longrightarrow>
   send_image a c buf pos w = Some (0, blit buf pos (image c), pos + length (image c), w)"
  by (simp add: send_image_def read_block_def block_def send_bytes_fits)

lemma send_buffer_fits:
  assumes "buffer_wf b" "pos + 4 + buf_size b \<le> length buf"
  shows "send_buffer b buf pos w = Some (0, blit buf pos (image (C32 (htonl (word_of_nat (buf_size b)))) @ buf_data b),
    pos + 4 + buf_size b, w)"
proof -
  let ?h = "image (C32 (htonl (word_of_nat (buf_size b))))"
  have len: "length (buf_data b) = buf_size b" using assms(1) by (simp add: buffer_wf_def)
  have "blit (blit buf pos ?h) (pos + length ?h) (buf_data b) = blit buf pos (?h @ buf_data b)"
    using assms(2) len by (intro blit_blit) simp
  with assms(2) len show ?thesis
    by (simp add: send_buffer_def send_bytes_fits buffer_get_size_def buffer_get_data_def read_block_def block_def)
qed

lemma receive_number_at:
  assumes "length bs = aa_size a" "aa_size a \<noteq> 0" "cs q = Some c" "overwrite c bs = Some c1" "net_order (aa_type a) c1 = Some c2"
  shows "receive_number a (Some q) (pre @ bs @ rest) (length pre) cs = Some (RNext (length pre + length bs), cs(q \<mapsto> c2))"
  using assms by (simp add: receive_number_def block_prefix_n)

lemma receive_string_at:
  assumes "NUL \<notin> set s" "plenty w" "cs q = Some (CString y)"
  shows "\<exists>w1. receive_string (Some q) (pre @ (s @ [NUL]) @ rest) (length pre) cs w
    = Some (RNext (length pre + length (s @ [NUL])), cs(q \<mapsto> CString (Some s)), w1) \<and> plenty w1"
  using read_string_at [OF assms(1,2), of pre rest] assms(3) by (auto simp: receive_string_def)

lemma receive_buffer_at:
  assumes "buffer_wf b" "buf_size b < 2 ^ 32" "buffer_wf y" "plenty w" "cs q = Some (CBuffer y)"
  defines "bs \<equiv> image (C32 (htonl (word_of_nat (buf_size b)))) @ buf_data b"
  shows "\<exists>w1. receive_buffer junk (Some q) (pre @ bs @ rest) (length pre) cs w
    = Some (RNext (length pre + length bs), cs(q \<mapsto> CBuffer b), w1) \<and> plenty w1"
proof -
  let ?n = "buf_size b" and ?h = "image (C32 (htonl (word_of_nat (buf_size b))))"
  have len: "length (buf_data b) = ?n" using assms(1) by (simp add: buffer_wf_def)
  obtain w1 where w1: "w_alloc w = (True, w1)" "plenty w1" using w_alloc_plenty [OF assms(4)] by blast
  have h: "block (pre @ bs @ rest) (length pre) 4 = ?h" unfolding bs_def
    using block_prefix_n [of ?h 4 pre "buf_data b @ rest"] by simp
  have d: "block (pre @ bs @ rest) (length pre + 4) ?n = buf_data b" unfolding bs_def
    using block_prefix_n [OF len, of "pre @ ?h" rest] by simp
  have "write_block (resized (buf_data y) ?n) 0 (buf_data b) = Some (buf_data b)" using len by (simp add: write_block_def blit_def)
  with h d w1 size_read [OF assms(2)] len buffer_set_size_ok [OF assms(3) w1(1), of junk ?n] assms(5)
  show ?thesis by (cases b) (auto simp: receive_buffer_def buffer_get_data_def bs_def Let_def resized_def)
qed

text \<open>Both directions of one result: the bytes that are written are the bytes that are understood.\<close>

fun slot_bytes :: "slot \<Rightarrow> string" where
  "slot_bytes (SOut (Some (C8 x))) = image (C8 x)"
| "slot_bytes (SOut (Some (C16 x))) = image (C16 (htons x))"
| "slot_bytes (SOut (Some (C32 x))) = image (C32 (htonl x))"
| "slot_bytes (SOut (Some (CString (Some s)))) = s @ [NUL]"
| "slot_bytes (SBuffer b) = image (C32 (htonl (word_of_nat (buf_size b)))) @ buf_data b"
| "slot_bytes _ = []"

fun answer_bytes :: "AppInterfaceCallArg list \<Rightarrow> slot list \<Rightarrow> string" where
  "answer_bytes (a # as) (s # ss) =
     (if aa_direction a = AICD_OUT \<and> aa_type a \<noteq> AICT_VOID then slot_bytes s else []) @ answer_bytes as ss"
| "answer_bytes _ _ = []"

lemma returns_wire:
  assumes "returns (aa_type a) s c c'" "aa_size a = aict_size (aa_type a)" "aa_direction a = AICD_OUT"
  shows "(\<forall>buf pos w. pos + length (slot_bytes s) \<le> length buf \<longrightarrow> 8 \<le> length buf \<longrightarrow>
        post_exec_out a s buf pos w = Some (0, blit buf pos (slot_bytes s), pos + length (slot_bytes s), w))
    \<and> (\<forall>junk pre rest w cs q. cs q = Some c \<longrightarrow> plenty w \<longrightarrow> (\<exists>w1. plenty w1
        \<and> receive_arg junk a (Some q) (pre @ slot_bytes s @ rest) (length pre) cs w
          = Some (RNext (length pre + length (slot_bytes s)), cs(q \<mapsto> c'), w1)))"
  using assms(1)
proof cases
  case (bits8 x y)
  have "aa_size a = 1" using bits8 assms(2) by auto
  then have "post_exec_out a s buf pos w = Some (0, blit buf pos (image (C8 x)), pos + length (image (C8 x)), w)"
    if "pos + length (image (C8 x)) \<le> length buf" "8 \<le> length buf" for buf pos w
    using that bits8 by (auto simp: post_exec_out_def send_image_fits)
  moreover have "receive_arg junk a (Some q) (pre @ image (C8 x) @ rest) (length pre) cs w
      = Some (RNext (length pre + length (image (C8 x))), cs(q \<mapsto> c'), w)" if "cs q = Some c" for junk pre rest cs q w
    using that bits8 assms(3) \<open>aa_size a = 1\<close> receive_number_at [of "image (C8 x)" a cs q c]
    by (auto simp: receive_arg_def)
  ultimately show ?thesis unfolding bits8(1) slot_bytes.simps by blast
next
  case (bits16 x y)
  have sz: "aa_size a = 2" using bits16 assms(2) by auto
  then have "post_exec_out a s buf pos w = Some (0, blit buf pos (image (C16 (htons x))), pos + length (image (C16 (htons x))), w)"
    if "pos + length (image (C16 (htons x))) \<le> length buf" "8 \<le> length buf" for buf pos w
    using that bits16 by (auto simp: post_exec_out_def send_image_fits)
  moreover have "receive_arg junk a (Some q) (pre @ image (C16 (htons x)) @ rest) (length pre) cs w
      = Some (RNext (length pre + length (image (C16 (htons x)))), cs(q \<mapsto> c'), w)" if "cs q = Some c" for junk pre rest cs q w
    using that bits16 assms(3) sz receive_number_at [of "image (C16 (htons x))" a cs q c]
    by (auto simp: receive_arg_def)
  ultimately show ?thesis unfolding bits16(1) slot_bytes.simps by blast
next
  case (bits32 x y)
  have sz: "aa_size a = 4" using bits32 assms(2) by auto
  then have "post_exec_out a s buf pos w = Some (0, blit buf pos (image (C32 (htonl x))), pos + length (image (C32 (htonl x))), w)"
    if "pos + length (image (C32 (htonl x))) \<le> length buf" "8 \<le> length buf" for buf pos w
    using that bits32 by (auto simp: post_exec_out_def send_image_fits)
  moreover have "receive_arg junk a (Some q) (pre @ image (C32 (htonl x)) @ rest) (length pre) cs w
      = Some (RNext (length pre + length (image (C32 (htonl x)))), cs(q \<mapsto> c'), w)" if "cs q = Some c" for junk pre rest cs q w
    using that bits32 assms(3) sz receive_number_at [of "image (C32 (htonl x))" a cs q c]
    by (auto simp: receive_arg_def)
  ultimately show ?thesis unfolding bits32(1) slot_bytes.simps by blast
next
  case (chars t y)
  have "post_exec_out a s buf pos w = Some (0, blit buf pos (t @ [NUL]), pos + length (t @ [NUL]), w)"
    if "pos + length (t @ [NUL]) \<le> length buf" for buf pos w
    using that chars(1,2) assms(2) by (simp add: post_exec_out_def send_string_fits)
  moreover have "\<exists>w1. plenty w1 \<and> receive_arg junk a (Some q) (pre @ (t @ [NUL]) @ rest) (length pre) cs w
      = Some (RNext (length pre + length (t @ [NUL])), cs(q \<mapsto> c'), w1)" if "cs q = Some c" "plenty w" for junk pre rest cs q w
    using receive_string_at [OF chars(5) that(2), of cs q y pre rest] that(1) chars assms(3) by (auto simp: receive_arg_def)
  ultimately show ?thesis unfolding chars(2) slot_bytes.simps by blast
next
  case (object b y)
  let ?d = "image (C32 (htonl (word_of_nat (buf_size b)))) @ buf_data b"
  have len: "length ?d = 4 + buf_size b" using object(5) by (simp add: buffer_wf_def)
  have "post_exec_out a s buf pos w = Some (0, blit buf pos ?d, pos + length ?d, w)"
    if "pos + length ?d \<le> length buf" for buf pos w
    using that object(1,2) assms(2) send_buffer_fits [OF object(5), of pos buf w] len by (simp add: post_exec_out_def add.assoc)
  moreover have "\<exists>w1. plenty w1 \<and> receive_arg junk a (Some q) (pre @ ?d @ rest) (length pre) cs w
      = Some (RNext (length pre + length ?d), cs(q \<mapsto> c'), w1)" if "cs q = Some c" "plenty w" for junk pre rest cs q w
    using receive_buffer_at [OF object(5,6,7) that(2), of cs q junk pre rest] that(1) object assms(3) by (auto simp: receive_arg_def)
  ultimately show ?thesis unfolding object(2) slot_bytes.simps by blast
qed

lemma answered_wire:
  "answered as ss ps cs cs' \<Longrightarrow> sizes_ok as \<Longrightarrow>
   sends as ss (answer_bytes as ss) \<and> delivers as ps (answer_bytes as ss) cs cs' \<and> length ss = length as"
proof (induction rule: answered.induct)
  case (none cs)
  then show ?case by (simp add: sends_def delivers_def)
next
  case (skip a as ss ps cs cs' s p)
  have "sizes_ok as" using skip.prems by (simp add: sizes_ok_def)
  with skip.IH have bs: "sends as ss (answer_bytes as ss)" "delivers as ps (answer_bytes as ss) cs cs'" "length ss = length as"
    by blast+
  have eq: "answer_bytes (a # as) (s # ss) = answer_bytes as ss" using skip.hyps(1) by auto
  have "receive_arg junk a p buf pos cs w = Some (RNext pos, cs, w)" for junk buf pos w
    using skip.hyps(1) skip.prems by (auto simp: receive_arg_def receive_number_def sizes_ok_def)
  then have "delivers (a # as) (p # ps) (answer_bytes as ss) cs cs'" using bs(2) by (simp add: delivers_def)
  moreover have "sends (a # as) (s # ss) (answer_bytes as ss)"
    using bs(1) skip.hyps(1) skip.prems by (auto simp: sends_def sizes_ok_def post_exec_out_def)
  ultimately show ?case using bs(3) unfolding eq by simp
next
  case (result a cs q c s c' as ss ps cs')
  have "sizes_ok as" using result.prems by (simp add: sizes_ok_def)
  with result.IH have bs: "sends as ss (answer_bytes as ss)" "delivers as ps (answer_bytes as ss) (cs(q \<mapsto> c')) cs'"
    "length ss = length as" by blast+
  have "aa_size a = aict_size (aa_type a)" using result.prems by (simp add: sizes_ok_def)
  note wire = returns_wire [OF result.hyps(3) this result.hyps(1)]
  have eq: "answer_bytes (a # as) (s # ss) = slot_bytes s @ answer_bytes as ss" using result.hyps(1,3) by auto
  have "delivers (a # as) (Some q # ps) (slot_bytes s @ answer_bytes as ss) cs cs'"
    using wire result.hyps(2) by (intro delivers_step [OF bs(2)]) blast
  moreover have "sends (a # as) (s # ss) (slot_bytes s @ answer_bytes as ss)"
    using wire by (intro sends_step [OF bs(1) result.hyps(1)]) blast
  ultimately show ?case using bs(3) unfolding eq by simp
qed

section \<open>A call from end to end\<close>

lemma send_string_loop_full:
  "pos \<le> length buf \<Longrightarrow> length buf \<le> pos + length s \<Longrightarrow> \<exists>r buf' pos' w'. send_string_loop s buf pos w = (r, buf', pos', w') \<and> r \<noteq> 0"
proof (induction s arbitrary: buf pos)
  case Nil
  then show ?case by (subst send_string_loop.simps) simp
next
  case (Cons c s)
  from Cons.IH [of "pos + 1" "buf[pos := c]"] Cons.prems show ?case by (subst send_string_loop.simps) simp
qed

lemma call_loop_full:
  assumes "wire dtof as va cs = Some (bs, ps)" "pos \<le> length buf" "length buf < pos + length bs"
  shows "\<exists>ps' buf' pos' w'. call_loop dtof as va cs buf pos w = Some (- 1, ps', buf', pos', w')"
  using assms
proof (induction as arbitrary: va bs ps buf pos)
  case (Cons a as)
  from Cons.prems(1) obtain ds p va' bs' ps' where
    arg: "call_arg dtof a va cs = Some (ds, p, va')" "wire dtof as va' cs = Some (bs', ps')"
      "bs = concat ds @ bs'" by (auto simp: Option.bind_eq_Some_conv)
  show ?case
  proof (cases "pos + length (concat ds) \<le> length buf")
    case True
    with Cons.IH [OF arg(2), of "pos + length (concat ds)" "blit buf pos (concat ds)"] Cons.prems(3) arg(3)
    obtain ps2 buf2 pos2 w2 where
      "call_loop dtof as va' cs (blit buf pos (concat ds)) (pos + length (concat ds)) w = Some (- 1, ps2, buf2, pos2, w2)"
      by (auto simp: add.assoc)
    with arg(1) send_blocks_fits [OF True] show ?thesis by simp
  next
    case False
    then obtain r buf2 pos2 w2 where "send_blocks ds buf pos w = (r, buf2, pos2, w2)" "r \<noteq> 0"
      using send_blocks_full [OF Cons.prems(2), of ds w] by auto
    with arg(1) show ?thesis by simp
  qed
qed simp

text \<open>A call is written completely, or not reported as written.\<close>

lemma appinterface_call_bytes:
  assumes "get_call_loop (ai_calls ai) name = Some c" "wire dtof (ac_args c) va cs = Some (bs, ps)"
  shows "if length name + 1 + length bs \<le> length buf
    then appinterface_call dtof ai buf name va cs w
      = Some (int (length name + 1 + length bs), ps, blit buf 0 (name @ [NUL] @ bs), w)
    else \<exists>ps' buf' w'. appinterface_call dtof ai buf name va cs w = Some (- 1, ps', buf', w')"
proof -
  have get: "appinterface_get_call ai name w = (Some c, w)" using assms(1) by (simp add: appinterface_get_call_def)
  show ?thesis
  proof (cases "length name < length buf")
    case True
    let ?buf = "blit buf 0 (name @ [NUL])"
    have sent: "send_string (Some name) buf 0 w = (0, ?buf, length name + 1, w)" using True send_string_fits [of 0 name buf w] by simp
    show ?thesis
    proof (cases "length name + 1 + length bs \<le> length buf")
      case fits: True
      have "blit ?buf (length (name @ [NUL])) bs = blit buf 0 (name @ [NUL] @ bs)"
        using blit_blit [of 0 "name @ [NUL]" bs buf] fits by simp
      with call_loop_wire [OF assms(2), of "length name + 1" ?buf w] fits get sent show ?thesis
        by (simp add: appinterface_call_def)
    next
      case False
      with call_loop_full [OF assms(2), of "length name + 1" ?buf w] True get sent show ?thesis
        by (auto simp: appinterface_call_def)
    qed
  next
    case False
    then obtain r buf' pos' w' where "send_string (Some name) buf 0 w = (r, buf', pos', w')" "r \<noteq> 0"
      using send_string_loop_full [of 0 buf name w] by (auto simp: send_string_def)
    with get False show ?thesis by (auto simp: appinterface_call_def)
  qed
qed

lemma appinterface_receive_bytes:
  assumes "get_call_loop (ai_calls ai) name = Some c" "decodes (ac_args c) bs ss" "NUL \<notin> set name" "plenty w"
    and "length ss = length (ac_args c)"
  shows "\<exists>w2. plenty w2 \<and> appinterface_receive env ai ret ((name @ [NUL] @ bs) @ rest) bufw bufwpos u w =
    do { (_, ret3, ss3, u3, w3) \<leftarrow> args_exec env c ret ss u w2;
         (i, bufw4, pos4, w4) \<leftarrow> args_post_exec c bufw bufwpos ss3 (length ss) w3;
         Some (if i \<noteq> length ss then - 1 else int (length name + 1 + length bs), ret3, bufw4, pos4, u3, w4) }"
proof -
  from read_string_at [OF assms(3,4), of "[]" "bs @ rest"] obtain w1 where
    w1: "read_string ((name @ [NUL] @ bs) @ rest) 0 w = (Some name, length name + 1, w1)" "plenty w1" by auto
  obtain w2 where w2: "w_alloc w1 = (True, w2)" "plenty w2" using w_alloc_plenty [OF w1(2)] by blast
  from decodesD [OF assms(2) w2(2), of "name @ [NUL]" rest] obtain w3 where
    w3: "args_pre_exec (ac_args c) ((name @ [NUL] @ bs) @ rest) (length name + 1) w2
      = Some (ss, length name + 1 + length bs, w3)" "plenty w3" by auto
  have "appinterface_get_call ai name w1 = (Some c, w1)" using assms(1) by (simp add: appinterface_get_call_def)
  with w1 w2 w3 assms(5) show ?thesis
    by (intro exI [of _ w3]) (auto simp: appinterface_receive_def receive_args_def split: Option.bind_split)
qed

end
