(* ===== verification/App_Server.thy ===== *)
theory App_Server
  imports App_Rpc Sys_Event
begin

text \<open>
  The server of \<open>libApp/src/appserver.c\<close>, built without \<open>WITH_SSL\<close>. It accepts clients, reads their calls,
  runs them through \<open>appinterface_receive\<close> and writes the answers, from callbacks of the event loop of
  libSystem.

  The event of a server is a part of the state beside the record, as the callbacks of the event loop have it; who owns it
  (\<open>event_free\<close>) matters for the deletion only. The clients are objects in a store, as the array holds pointers to them; an access to an object that was
  freed is \<open>None\<close>, like a failed assertion. The address of a new client is the choice of \<open>malloc\<close>, an argument of \<open>appserver_accept\<close>:
  any address without a live client, one that an earlier client had included. The kernel is a parameter with a state \<open>'k\<close> of its own.
\<close>

datatype AppServerClientState = ASCS_NEW | ASCS_LOGGED

definition ASC_BUFSIZE :: nat where "ASC_BUFSIZE = 65536"

record AppServerClient =
  asc_state :: AppServerClientState
  asc_fd :: int
  asc_addr :: "32 word"
  asc_port :: "16 word"
  asc_buf_read :: string
  asc_buf_read_cnt :: nat
  asc_buf_write :: string
  asc_buf_write_cnt :: nat

record AppServer =
  as_interface :: "AppInterface option"
  as_clients :: "nat list"
  as_objs :: "nat \<Rightarrow> AppServerClient option"
  as_current :: "nat option"

text \<open>The system calls: an error number, or the result.\<close>

record 'k kernel =
  k_socket :: "'k \<Rightarrow> (int + int) \<times> 'k"
  k_bind :: "int \<Rightarrow> 32 word \<Rightarrow> 16 word \<Rightarrow> 'k \<Rightarrow> int option \<times> 'k"
  k_listen :: "int \<Rightarrow> int \<Rightarrow> 'k \<Rightarrow> int option \<times> 'k"
  k_accept :: "int \<Rightarrow> 'k \<Rightarrow> (int + int \<times> 32 word \<times> 16 word) \<times> 'k"
  k_read :: "int \<Rightarrow> nat \<Rightarrow> 'k \<Rightarrow> (int + string) \<times> 'k"
  k_write :: "int \<Rightarrow> string \<Rightarrow> 'k \<Rightarrow> (int + nat) \<times> 'k"
  k_close :: "int \<Rightarrow> 'k \<Rightarrow> 'k"
  k_setsockopt :: "int \<Rightarrow> bool \<Rightarrow> 'k \<Rightarrow> int option \<times> 'k"

text \<open>The state of the callbacks: the event, the world, and the server with the kernel and the program.\<close>

type_synonym ('k, 'u) srv = "(AppServer \<times> 'k \<times> 'u) rt"

text \<open>The functions of the server program may ask for the current client.\<close>

type_synonym 'u server_env = "nat option \<Rightarrow> 'u call_env"

definition F_ACCEPT :: nat where "F_ACCEPT = 0"
definition F_READ :: nat where "F_READ = 1"
definition F_WRITE :: nat where "F_WRITE = 2"

section \<open>Clients\<close>

definition common_socket_set_nodelay :: "'k kernel \<Rightarrow> int \<Rightarrow> bool \<Rightarrow> 'k \<Rightarrow> int \<times> 'k" where
  "common_socket_set_nodelay kern fd nodelay k =
     (case k_setsockopt kern fd nodelay k of (e, k') \<Rightarrow> (if e = None then 0 else - 1, k'))"

definition client_init :: "int \<Rightarrow> 32 word \<Rightarrow> 16 word \<Rightarrow> string \<Rightarrow> string \<Rightarrow> AppServerClient" where
  "client_init fd addr port rd wr =
     \<lparr>asc_state = ASCS_NEW, asc_fd = fd, asc_addr = addr, asc_port = port, asc_buf_read = rd, asc_buf_read_cnt = 0,
      asc_buf_write = wr, asc_buf_write_cnt = 0\<rparr>"

text \<open>What memory holds before it is written, \<open>junk\<close>, is the content of the two buffers at first.\<close>

definition appserverclient_new :: "'k kernel \<Rightarrow> (nat \<Rightarrow> char) \<Rightarrow> int \<Rightarrow> 32 word \<Rightarrow> 16 word \<Rightarrow> world \<times> 'k
    \<Rightarrow> AppServerClient option \<times> world \<times> 'k" where
  "appserverclient_new kern junk fd addr port s =
     (case s of (w, k) \<Rightarrow>
        case object_new 131152 w of
          (False, w1) \<Rightarrow> (None, w1, k)
        | (True, w1) \<Rightarrow>
            (case common_socket_set_nodelay kern fd True k of
               (_, k2) \<Rightarrow> (Some (client_init fd addr port (map junk [0 ..< ASC_BUFSIZE]) (map junk [0 ..< ASC_BUFSIZE])), w1, k2)))"

definition appserverclient_delete :: "'k kernel \<Rightarrow> nat \<Rightarrow> AppServer \<Rightarrow> 'k \<Rightarrow> (AppServer \<times> 'k) option" where
  "appserverclient_delete kern p srv k =
     do { asc \<leftarrow> as_objs srv p;
          Some (srv\<lparr>as_objs := (as_objs srv)(p := None)\<rparr>, if asc_fd asc \<noteq> - 1 then k_close kern (asc_fd asc) k else k) }"

text \<open>
  Neither the result of \<open>array_append\<close> nor that of the registration is looked at. \<open>p\<close> is the address of the
  client.
\<close>

definition appserver_client_add :: "nat \<Rightarrow> AppServerClient \<Rightarrow> ('k, 'u) srv \<Rightarrow> (int \<times> ('k, 'u) srv) option" where
  "appserver_client_add p asc s =
     (case s of (ev, w, srv, k, u) \<Rightarrow>
        case append_ptr (as_clients srv) p w of
          (ps, w1) \<Rightarrow>
            do { (_, ev2, w2) \<leftarrow> event_register_io_read ev (asc_fd asc) F_READ 0 w1;
                 Some (0, ev2, w2, srv\<lparr>as_clients := ps, as_objs := (as_objs srv)(p \<mapsto> asc)\<rparr>, k, u) })"

text \<open>The position of the client in the array, or the number of clients.\<close>

definition client_pos :: "nat list \<Rightarrow> nat \<Rightarrow> nat" where
  "client_pos ps p = length (takeWhile (\<lambda>q. q \<noteq> p) ps)"

definition appserver_client_remove :: "'k kernel \<Rightarrow> nat \<Rightarrow> ('k, 'u) srv \<Rightarrow> (int \<times> ('k, 'u) srv) option" where
  "appserver_client_remove kern p s =
     (case s of (ev, w, srv, k, u) \<Rightarrow>
        do { asc \<leftarrow> as_objs srv p;
             (_, ev1) \<leftarrow> (if asc_buf_write_cnt asc > 0 then event_unregister_io_write ev (asc_fd asc) else Some (0, ev));
             (_, ev2) \<leftarrow> event_unregister_io_read ev1 (asc_fd asc);
             (srv3, k3) \<leftarrow> appserverclient_delete kern p srv k;
             ps \<leftarrow> map_option snd (larr_remove_pos (as_clients srv3) (client_pos (as_clients srv3) p));
             Some (0, ev2, w, srv3\<lparr>as_clients := ps\<rparr>, k3, u) })"

text \<open>The first client with a descriptor.\<close>

fun find_client :: "nat list \<Rightarrow> (nat \<Rightarrow> AppServerClient option) \<Rightarrow> int \<Rightarrow> nat option option" where
  "find_client [] objs fd = Some None"
| "find_client (p # ps) objs fd =
     (case objs p of
        None \<Rightarrow> None
      | Some asc \<Rightarrow> if fd = asc_fd asc then Some (Some p) else find_client ps objs fd)"

section \<open>Accepting\<close>

definition appserver_accept :: "'k kernel \<Rightarrow> (nat \<Rightarrow> char) \<Rightarrow> nat \<Rightarrow> int \<Rightarrow> ('k, 'u) srv \<Rightarrow> (int \<times> ('k, 'u) srv) option" where
  "appserver_accept kern junk p fd s =
     (case s of (ev, w, srv, k, u) \<Rightarrow>
        case k_accept kern fd k of
          (Inl e, k1) \<Rightarrow>
            (case strerror e (w\<lparr>errno := e\<rparr>) of
               (msg, w1) \<Rightarrow> (case error_set_code 1 (''accept: '' @ msg) w1 of (c, w2) \<Rightarrow> Some (c, ev, w2, srv, k1, u)))
        | (Inr (newfd, addr, port), k1) \<Rightarrow>
            (case appserverclient_new kern junk newfd (htonl addr) (htons port) (w, k1) of
               (None, w2, k2) \<Rightarrow> Some (0, ev, w2, srv, k_close kern newfd k2, u)
             | (Some asc, w2, k2) \<Rightarrow> appserver_client_add p asc (ev, w2, srv, k2, u)))"

section \<open>Reading\<close>

text \<open>The call in the read buffer is run; what it leaves is kept at the start of the buffer.\<close>

definition read_logged :: "'u server_env \<Rightarrow> nat \<Rightarrow> ('k, 'u) srv \<Rightarrow> (int \<times> ('k, 'u) srv) option" where
  "read_logged env p s =
     (case s of (ev, w, srv, k, u) \<Rightarrow>
        do { asc \<leftarrow> as_objs srv p;
             ai \<leftarrow> as_interface srv;
             (i, ret, bufw, bufwpos, u1, w1) \<leftarrow> appinterface_receive (env (Some p)) ai None
               (take (asc_buf_read_cnt asc) (asc_buf_read asc)) (asc_buf_write asc) (asc_buf_write_cnt asc) u w;
             let asc1 = asc\<lparr>asc_buf_write := bufw, asc_buf_write_cnt := bufwpos\<rparr>;
             let put = (\<lambda>a. srv\<lparr>as_objs := (as_objs srv)(p \<mapsto> a), as_current := None\<rparr>);
             let cnt = asc_buf_read_cnt asc - nat i;
             let asc2 = asc1\<lparr>asc_buf_read := blit (asc_buf_read asc) 0 (block (asc_buf_read asc) (nat i) cnt),
                   asc_buf_read_cnt := cnt\<rparr>;
             if i \<le> 0 \<or> nat i > asc_buf_read_cnt asc then Some (1, ev, w1, put asc1, k, u1)
             else if bufwpos + 4 > length bufw then Some (1, ev, fail_errno ENOBUFS w1, put asc2, k, u1)
             else do {
               r \<leftarrow> ret;
               (_, ev3, w3) \<leftarrow> event_register_io_write ev (asc_fd asc) F_WRITE 0 w1;
               Some (if asc_fd asc \<noteq> - 1 then 0 else 1, ev3, w3,
                 put (asc2\<lparr>asc_buf_write := blit bufw bufwpos (image (C32 (htonl r))), asc_buf_write_cnt := bufwpos + 4\<rparr>),
                 k, u1) } })"

definition read_process :: "'u server_env \<Rightarrow> nat \<Rightarrow> ('k, 'u) srv \<Rightarrow> (int \<times> ('k, 'u) srv) option" where
  "read_process env p s =
     (case s of (ev, w, srv, k, u) \<Rightarrow>
        do { asc \<leftarrow> as_objs srv p;
             case asc_state asc of
               ASCS_NEW \<Rightarrow>
                 read_logged env p (ev, w, srv\<lparr>as_objs := (as_objs srv)(p \<mapsto> asc\<lparr>asc_state := ASCS_LOGGED\<rparr>)\<rparr>, k, u)
             | ASCS_LOGGED \<Rightarrow> read_logged env p s })"

definition read_eof :: "'k kernel \<Rightarrow> nat \<Rightarrow> ('k, 'u) srv \<Rightarrow> (int \<times> ('k, 'u) srv) option" where
  "read_eof kern p s = do { (_, s') \<leftarrow> appserver_client_remove kern p s; Some (1, s') }"

definition read_error :: "'k kernel \<Rightarrow> nat \<Rightarrow> ('k, 'u) srv \<Rightarrow> (int \<times> ('k, 'u) srv) option" where
  "read_error kern p s =
     (case s of (ev, w, srv, k, u) \<Rightarrow>
        do { (_, s') \<leftarrow> appserver_client_remove kern p (ev, fail_errno (errno w) w, srv, k, u); Some (1, s') })"

text \<open>\<open>assert(len > 0)\<close>: there is room in the read buffer.\<close>

definition appserver_read :: "'k kernel \<Rightarrow> 'u server_env \<Rightarrow> int \<Rightarrow> ('k, 'u) srv \<Rightarrow> (int \<times> ('k, 'u) srv) option" where
  "appserver_read kern env fd s =
     (case s of (ev, w, srv, k, u) \<Rightarrow>
        do { found \<leftarrow> find_client (as_clients srv) (as_objs srv) fd;
             case found of
               None \<Rightarrow> Some (1, s)
             | Some p \<Rightarrow>
                 do { asc \<leftarrow> as_objs srv p;
                      if \<not> asc_buf_read_cnt asc < length (asc_buf_read asc) then None
                      else case k_read kern (asc_fd asc) (length (asc_buf_read asc) - asc_buf_read_cnt asc) k of
                        (Inl e, k1) \<Rightarrow> read_error kern p (ev, w\<lparr>errno := e\<rparr>, srv, k1, u)
                      | (Inr bs, k1) \<Rightarrow>
                          if bs = [] then read_eof kern p (ev, w, srv, k1, u)
                          else do {
                            buf \<leftarrow> write_block (asc_buf_read asc) (asc_buf_read_cnt asc) bs;
                            let asc1 = asc\<lparr>asc_buf_read := buf, asc_buf_read_cnt := asc_buf_read_cnt asc + length bs\<rparr>;
                            (r, s2) \<leftarrow> read_process env p (ev, w, srv\<lparr>as_objs := (as_objs srv)(p \<mapsto> asc1)\<rparr>, k1, u);
                            if r \<noteq> 0 then do { (_, s3) \<leftarrow> appserver_client_remove kern p s2; Some (1, s3) }
                            else Some (0, s2) } } })"

section \<open>Writing\<close>

definition write_error :: "'k kernel \<Rightarrow> nat \<Rightarrow> ('k, 'u) srv \<Rightarrow> (int \<times> ('k, 'u) srv) option" where
  "write_error kern p s =
     (case s of (ev, w, srv, k, u) \<Rightarrow>
        do { asc \<leftarrow> as_objs srv p;
             Some (1, ev, fail_errno (errno w) w, srv\<lparr>as_objs := (as_objs srv)(p \<mapsto> asc\<lparr>asc_fd := - 1\<rparr>)\<rparr>,
               k_close kern (asc_fd asc) k, u) })"

text \<open>
  After the bytes are written, \<open>len\<close> bytes (not those that are left) are moved to the start of the buffer;
  reading behind it is undefined. Without any client the pointer that is tested is indeterminate.
\<close>

definition appserver_write :: "'k kernel \<Rightarrow> int \<Rightarrow> ('k, 'u) srv \<Rightarrow> (int \<times> ('k, 'u) srv) option" where
  "appserver_write kern fd s =
     (case s of (ev, w, srv, k, u) \<Rightarrow>
        if as_clients srv = [] then None
        else do { found \<leftarrow> find_client (as_clients srv) (as_objs srv) fd;
             case found of
               None \<Rightarrow> Some (1, s)
             | Some p \<Rightarrow>
                 do { asc \<leftarrow> as_objs srv p;
                      case k_write kern (asc_fd asc) (take (asc_buf_write_cnt asc) (asc_buf_write asc)) k of
                        (Inl e, k1) \<Rightarrow> write_error kern p (ev, w\<lparr>errno := e\<rparr>, srv, k1, u)
                      | (Inr len, k1) \<Rightarrow>
                          if len = 0 then write_error kern p (ev, w, srv, k1, u)
                          else do {
                            moved \<leftarrow> read_block (asc_buf_write asc) len len;
                            let asc1 = asc\<lparr>asc_buf_write := blit (asc_buf_write asc) 0 moved,
                              asc_buf_write_cnt := asc_buf_write_cnt asc - len\<rparr>;
                            Some (if asc_buf_write_cnt asc1 = 0 then 1 else 0, ev, w,
                              srv\<lparr>as_objs := (as_objs srv)(p \<mapsto> asc1)\<rparr>, k1, u) } } })"

section \<open>Creation and the loop\<close>

definition ASO_LOCAL :: int where "ASO_LOCAL = 1"
definition ASO_REMOTE :: int where "ASO_REMOTE = 2"
definition INADDR_ANY :: "32 word" where "INADDR_ANY = 0"
definition INADDR_LOOPBACK :: "32 word" where "INADDR_LOOPBACK = 0x7F000001"

definition set_errno_msg :: "string \<Rightarrow> int \<Rightarrow> world \<Rightarrow> world" where
  "set_errno_msg what e w =
     (case strerror e (w\<lparr>errno := e\<rparr>) of (msg, w1) \<Rightarrow> snd (error_set_code 1 (what @ msg) w1))"

text \<open>\<open>loader\<close> is \<open>appinterface_new_server\<close> with its parameters.\<close>

definition new_server ::
  "'k kernel \<Rightarrow> (string \<Rightarrow> world \<Rightarrow> (AppInterface option \<times> world) option) \<Rightarrow> string \<Rightarrow> int
     \<Rightarrow> Event \<times> world \<times> AppServer \<times> 'k \<Rightarrow> (int \<times> Event \<times> world \<times> AppServer \<times> 'k) option" where
  "new_server kern loader app options s =
     (case s of (ev, w, srv, k) \<Rightarrow>
        do { (ai, w1) \<leftarrow> loader app w;
             let srv1 = srv\<lparr>as_interface := ai\<rparr>;
             case ai of
               None \<Rightarrow> Some (- 1, ev, w1, srv1, k)
             | Some i \<Rightarrow>
                 (case k_socket kern k of
                    (Inl e, k1) \<Rightarrow> Some (- 1, ev, set_errno_msg ''socket: '' e w1, srv1, k1)
                  | (Inr fd, k1) \<Rightarrow>
                      (case k_bind kern fd (htonl (if options AND ASO_REMOTE \<noteq> 0 then INADDR_ANY else INADDR_LOOPBACK))
                              (htons (word_of_int (appinterface_get_port i))) k1 of
                         (Some e, k2) \<Rightarrow> Some (- 1, ev, set_errno_msg ''bind: '' e w1, srv1, k_close kern fd k2)
                       | (None, k2) \<Rightarrow>
                           (case k_listen kern fd 5 k2 of
                              (Some e, k3) \<Rightarrow> Some (- 1, ev, set_errno_msg ''listen: '' e w1, srv1, k_close kern fd k3)
                            | (None, k3) \<Rightarrow>
                                do { (_, ev4, w4) \<leftarrow> event_register_io_read ev fd F_ACCEPT 0 w1;
                                     Some (0, ev4, w4, srv1, k3) }))) })"

definition appserver_new_event ::
  "'k kernel \<Rightarrow> (string \<Rightarrow> world \<Rightarrow> (AppInterface option \<times> world) option) \<Rightarrow> string \<Rightarrow> int \<Rightarrow> Event \<times> world \<times> 'k
     \<Rightarrow> (AppServer option \<times> Event \<times> world \<times> 'k) option" where
  "appserver_new_event kern loader app options s =
     (case s of (ev, w, k) \<Rightarrow>
        case object_new 40 w of
          (False, w1) \<Rightarrow> Some (None, ev, w1, k)
        | (True, w1) \<Rightarrow>
            (case object_new 24 w1 of
               (False, w2) \<Rightarrow> None
             | (True, w2) \<Rightarrow>
                 do { (r, ev3, w3, srv, k3) \<leftarrow> new_server kern loader app options
                        (ev, w2, \<lparr>as_interface = None, as_clients = [], as_objs = Map.empty, as_current = None\<rparr>, k);
                      Some (if r \<noteq> 0 then None else Some srv, ev3, w3, k3) }))"

definition appserver_new ::
  "'k kernel \<Rightarrow> (string \<Rightarrow> world \<Rightarrow> (AppInterface option \<times> world) option) \<Rightarrow> string \<Rightarrow> int \<Rightarrow> world \<times> 'k
     \<Rightarrow> ((AppServer \<times> Event) option \<times> world \<times> 'k) option" where
  "appserver_new kern loader app options s =
     (case s of (w, k) \<Rightarrow>
        do { (ev, w1) \<leftarrow> event_new w;
             case ev of
               None \<Rightarrow> Some (None, w1, k)
             | Some ev \<Rightarrow>
                 do { (srv, ev2, w2, k2) \<leftarrow> appserver_new_event kern loader app options (ev, w1, k);
                      case srv of
                        None \<Rightarrow> do { _ \<leftarrow> event_delete ev2; Some (None, w2, k2) }
                      | Some srv \<Rightarrow> Some (Some (srv, ev2), w2, k2) } })"

text \<open>The clients and the listening socket are not closed; \<open>owned\<close> is \<open>event_free\<close>.\<close>

definition appserver_delete :: "bool \<Rightarrow> ('k, 'u) srv \<Rightarrow> Event option" where
  "appserver_delete owned s = (case s of (ev, w, srv, k, u) \<Rightarrow> if owned then event_delete ev else Some ev)"

definition appserver_get_client_id :: "AppServer \<Rightarrow> nat option" where
  "appserver_get_client_id srv = as_current srv"

text \<open>
  The callbacks of the server for the event loop; it registers no timeouts. \<open>adr\<close> is the address that \<open>malloc\<close>
  gives to the next client.
\<close>

definition server_events ::
  "'k kernel \<Rightarrow> (nat \<Rightarrow> char) \<Rightarrow> (AppServer \<Rightarrow> nat) \<Rightarrow> 'u server_env
     \<Rightarrow> (AppServer \<times> 'k \<times> 'u \<Rightarrow> (int + timeval) \<times> AppServer \<times> 'k \<times> 'u)
     \<Rightarrow> (int \<Rightarrow> int set \<Rightarrow> int set \<Rightarrow> timeval option \<Rightarrow> AppServer \<times> 'k \<times> 'u
           \<Rightarrow> (int + int set \<times> int set \<times> timeval) \<times> AppServer \<times> 'k \<times> 'u)
     \<Rightarrow> (AppServer \<times> 'k \<times> 'u) event_env" where
  "server_events kern junk adr env gettimeofday select =
     \<lparr>e_io = (\<lambda>f fd d s. if f = F_ACCEPT then appserver_accept kern junk (adr (fst (snd (snd s)))) fd s
                else if f = F_READ then appserver_read kern env fd s
                else if f = F_WRITE then appserver_write kern fd s else None),
      e_timer = (\<lambda>f d s. None), e_now = gettimeofday, e_select = select\<rparr>"

definition appserver_loop :: "(AppServer \<times> 'k \<times> 'u) event_env \<Rightarrow> ('k, 'u) srv \<Rightarrow> (int \<times> ('k, 'u) srv) option" where
  "appserver_loop events s = event_loop events s"

section \<open>Facts: a call is run\<close>

lemma event_register_io_write_plenty:
  assumes "plenty w" "0 \<le> fd" "fd < FD_SETSIZE"
  shows "\<exists>ev' w'. event_register_io_write ev fd f d w = Some (0, ev', w') \<and> plenty w'"
proof -
  obtain w1 where w1: "object_new 24 w = (True, w1)" "plenty w1" using object_new_ok [OF assms(1), of 24] by auto
  from append_ptr_plenty [OF w1(2)] obtain w2 where "append_ptr (ev_writes ev) (ev_next ev) w1 = (ev_writes ev @ [ev_next ev], w2)"
    "plenty w2" by blast
  with w1 assms(2,3) show ?thesis by (simp add: event_register_io_write_def)
qed

text \<open>A client in order: its descriptor and the sizes of its buffers.\<close>

definition client_ok :: "AppServerClient \<Rightarrow> bool" where
  "client_ok asc \<longleftrightarrow> 0 \<le> asc_fd asc \<and> asc_fd asc < FD_SETSIZE \<and> length (asc_buf_read asc) = ASC_BUFSIZE
     \<and> length (asc_buf_write asc) = ASC_BUFSIZE \<and> asc_buf_read_cnt asc < ASC_BUFSIZE \<and> asc_buf_write_cnt asc \<le> ASC_BUFSIZE"

text \<open>What an answer adds to a write buffer: the results and the value returned.\<close>

definition answer_of :: "AppInterfaceCall \<Rightarrow> slot list \<Rightarrow> 32 word \<Rightarrow> string" where
  "answer_of c ss r = answer_bytes (ac_args c) ss @ image (C32 (htonl (if aa_type (ac_type c) = AICT_VOID then 0 else r)))"

lemma post_exec_answer:
  assumes "sends (ac_args c) ss (answer_bytes (ac_args c) ss)" "length ss = length (ac_args c)"
    and "pos + length (answer_bytes (ac_args c) ss) \<le> length buf" "8 \<le> length buf"
  shows "args_post_exec c buf pos ss (length ss) w = Some (length ss, blit buf pos (answer_bytes (ac_args c) ss),
    pos + length (answer_bytes (ac_args c) ss), post_free (ac_args c) w)"
  using assms by (simp add: args_post_exec_def sends_def)

lemma plenty_post_free [simp]: "plenty (post_free as w) = plenty w"
  by (induction "as" arbitrary: w)
    (auto simp: post_exec_free_in_def post_exec_free_out_def split: AppInterfaceCallDirection.split)

text \<open>The function of a call, as the server runs it: any result and objects, but no failed allocation before it.\<close>

definition runs_to :: "'u call_env \<Rightarrow> nat \<Rightarrow> slot list \<Rightarrow> 'u \<Rightarrow> 32 word \<Rightarrow> slot list \<Rightarrow> 'u \<Rightarrow> bool" where
  "runs_to env f ss u r ss' u' \<longleftrightarrow> (\<forall>w. plenty w \<longrightarrow> (\<exists>w'. env f ss u w = Some (r, ss', u', w') \<and> plenty w'))"

lemma appinterface_receive_answer:
  assumes "get_call_loop (ai_calls ai) name = Some c" "length (ac_args c) \<le> 4" "ac_func c = Some f" "NUL \<notin> set name"
    and "decodes (ac_args c) bs ss" "length ss = length (ac_args c)" "plenty w"
    and "runs_to env f ss u r ss' u'" "sends (ac_args c) ss' (answer_bytes (ac_args c) ss')" "length ss' = length (ac_args c)"
    and "pos + length (answer_bytes (ac_args c) ss') \<le> length bufw" "8 \<le> length bufw"
  shows "\<exists>w'. plenty w' \<and> appinterface_receive env ai ret ((name @ [NUL] @ bs) @ rest) bufw pos u w =
    Some (int (length name + 1 + length bs), Some (if aa_type (ac_type c) = AICT_VOID then 0 else r),
      blit bufw pos (answer_bytes (ac_args c) ss'), pos + length (answer_bytes (ac_args c) ss'), u', w')"
proof -
  let ?r = "if aa_type (ac_type c) = AICT_VOID then 0 else r"
  from appinterface_receive_bytes [OF assms(1,5,4,7,6), of env ret rest bufw pos u] obtain w2 where
    w2: "plenty w2" "appinterface_receive env ai ret ((name @ [NUL] @ bs) @ rest) bufw pos u w =
      do { (_, ret3, ss3, u3, w3) \<leftarrow> args_exec env c ret ss u w2;
         (i, bufw4, pos4, w4) \<leftarrow> args_post_exec c bufw pos ss3 (length ss) w3;
         Some (if i \<noteq> length ss then - 1 else int (length name + 1 + length bs), ret3, bufw4, pos4, u3, w4) }" by blast
  from assms(8) w2(1) obtain w3 where w3: "env f ss u w2 = Some (r, ss', u', w3)" "plenty w3"
    unfolding runs_to_def by blast
  have "args_exec env c ret ss u w2 = Some (0, Some ?r, ss', u', w3)" using assms(2,3) w3(1) by (simp add: args_exec_def)
  with w2(2) w3(2) post_exec_answer [OF assms(9,10,11,12), of w3] assms(6,10) show ?thesis by simp
qed

text \<open>What a client is after one of its calls was run: the call is gone, the answer is added.\<close>

definition served :: "string \<Rightarrow> string \<Rightarrow> AppServerClient \<Rightarrow> AppServerClient \<Rightarrow> bool" where
  "served rest answer asc asc' \<longleftrightarrow> asc_state asc' = asc_state asc \<and> asc_fd asc' = asc_fd asc
     \<and> take (asc_buf_read_cnt asc') (asc_buf_read asc') = rest \<and> asc_buf_read_cnt asc' = length rest
     \<and> take (asc_buf_write_cnt asc') (asc_buf_write asc') = take (asc_buf_write_cnt asc) (asc_buf_write asc) @ answer
     \<and> asc_buf_write_cnt asc' = asc_buf_write_cnt asc + length answer
     \<and> length (asc_buf_read asc') = length (asc_buf_read asc) \<and> length (asc_buf_write asc') = length (asc_buf_write asc)"

lemma read_logged_call:
  assumes "as_objs srv p = Some asc" "as_interface srv = Some ai" "get_call_loop (ai_calls ai) name = Some c"
    and "length (ac_args c) \<le> 4" "ac_func c = Some f" "NUL \<notin> set name"
    and "decodes (ac_args c) bs ss" "length ss = length (ac_args c)" "plenty w"
    and "runs_to (env (Some p)) f ss u r ss' u'" "sends (ac_args c) ss' (answer_bytes (ac_args c) ss')"
    and "length ss' = length (ac_args c)"
    and "take (asc_buf_read_cnt asc) (asc_buf_read asc) = (name @ [NUL] @ bs) @ rest"
    and "asc_buf_read_cnt asc \<le> length (asc_buf_read asc)" "0 \<le> asc_fd asc" "asc_fd asc < FD_SETSIZE"
    and "asc_buf_write_cnt asc + length (answer_of c ss' r) \<le> length (asc_buf_write asc)" "8 \<le> length (asc_buf_write asc)"
  shows "\<exists>ev' w' asc'. read_logged env p (ev, w, srv, k, u) =
      Some (0, ev', w', srv\<lparr>as_objs := (as_objs srv)(p \<mapsto> asc'), as_current := None\<rparr>, k, u')
    \<and> plenty w' \<and> served rest (answer_of c ss' r) asc asc'"
proof -
  let ?a = "answer_bytes (ac_args c) ss'" and ?pos = "asc_buf_write_cnt asc"
  define n where "n = length name + 1 + length bs"
  let ?r = "if aa_type (ac_type c) = AICT_VOID then 0 else r" and ?buf = "asc_buf_write asc"
  have fits: "?pos + length ?a + 4 \<le> length ?buf" using assms(17) by (simp add: answer_of_def)
  from appinterface_receive_answer [OF assms(3-12), of ?pos ?buf None rest] fits assms(18) obtain w1 where
    w1: "plenty w1" "appinterface_receive (env (Some p)) ai None ((name @ [NUL] @ bs) @ rest) ?buf ?pos u w =
      Some (int n, Some ?r, blit ?buf ?pos ?a, ?pos + length ?a, u', w1)" unfolding n_def by auto
  obtain ev3 w3 where w3: "event_register_io_write ev (asc_fd asc) F_WRITE 0 w1 = Some (0, ev3, w3)" "plenty w3"
    using event_register_io_write_plenty [OF w1(1) assms(15,16)] by blast
  have cnt: "asc_buf_read_cnt asc = n + length rest" using arg_cong [OF assms(13), of length] assms(14) by (simp add: n_def)
  let ?answer = "answer_of c ss' r"
  let ?asc = "asc\<lparr>asc_buf_read := blit (asc_buf_read asc) 0 (block (asc_buf_read asc) n (length rest)),
    asc_buf_read_cnt := length rest, asc_buf_write := blit (blit ?buf ?pos ?a) (?pos + length ?a) (image (C32 (htonl ?r))),
    asc_buf_write_cnt := ?pos + length ?a + 4\<rparr>"
  have "read_logged env p (ev, w, srv, k, u) =
      Some (0, ev3, w3, srv\<lparr>as_objs := (as_objs srv)(p \<mapsto> ?asc), as_current := None\<rparr>, k, u')"
    using assms(1,2,13,15) w1(2) w3(1) cnt fits by (simp add: read_logged_def Let_def) (simp add: n_def)
  moreover have "served rest ?answer asc ?asc"
  proof -
    have "blit (blit ?buf ?pos ?a) (?pos + length ?a) (image (C32 (htonl ?r))) = blit ?buf ?pos ?answer"
      using blit_blit [of ?pos ?a "image (C32 (htonl ?r))" ?buf] fits by (simp add: answer_of_def)
    moreover have "take (?pos + length ?answer) (blit ?buf ?pos ?answer) = take ?pos ?buf @ ?answer"
      using assms(17) by (simp add: blit_def)
    moreover have "length ?answer = length ?a + 4" by (simp add: answer_of_def)
    moreover have "block (asc_buf_read asc) n (length rest) = rest"
    proof -
      have "drop n (take (n + length rest) (asc_buf_read asc)) = rest" using assms(13) cnt by (simp add: n_def)
      then show ?thesis by (simp add: block_def drop_take)
    qed
    ultimately show ?thesis using assms(14,17) cnt by (simp add: served_def add.assoc) (simp add: blit_def)
  qed
  ultimately show ?thesis using w3(2) by blast
qed

lemma read_process_call:
  assumes "read_logged env p (ev, w, srv\<lparr>as_objs := (as_objs srv)(p \<mapsto> asc\<lparr>asc_state := ASCS_LOGGED\<rparr>)\<rparr>, k, u) = res"
    and "as_objs srv p = Some asc"
  shows "read_process env p (ev, w, srv, k, u) = res"
proof (cases "asc_state asc")
  case ASCS_NEW
  with assms show ?thesis by (simp add: read_process_def)
next
  case ASCS_LOGGED
  then have asc: "asc\<lparr>asc_state := ASCS_LOGGED\<rparr> = asc" by (cases asc) simp
  have "(as_objs srv)(p \<mapsto> asc) = as_objs srv" using assms(2) by auto
  then have "srv\<lparr>as_objs := (as_objs srv)(p \<mapsto> asc\<lparr>asc_state := ASCS_LOGGED\<rparr>)\<rparr> = srv" unfolding asc by (cases srv) simp
  with assms ASCS_LOGGED show ?thesis by (simp add: read_process_def)
qed

lemma appserver_read_call:
  assumes "find_client (as_clients srv) (as_objs srv) fd = Some (Some p)" "as_objs srv p = Some asc" "asc_fd asc = fd"
    and "client_ok asc" "as_interface srv = Some ai" "get_call_loop (ai_calls ai) name = Some c"
    and "length (ac_args c) \<le> 4" "ac_func c = Some f" "NUL \<notin> set name"
    and "decodes (ac_args c) bs ss" "length ss = length (ac_args c)" "plenty w"
    and "runs_to (env (Some p)) f ss u r ss' u'" "sends (ac_args c) ss' (answer_bytes (ac_args c) ss')"
    and "length ss' = length (ac_args c)"
    and "k_read kern fd (ASC_BUFSIZE - asc_buf_read_cnt asc) k = (Inr input, k1)" "input \<noteq> []"
    and "length input \<le> ASC_BUFSIZE - asc_buf_read_cnt asc"
    and "take (asc_buf_read_cnt asc) (asc_buf_read asc) @ input = (name @ [NUL] @ bs) @ rest"
    and "asc_buf_write_cnt asc + length (answer_of c ss' r) \<le> ASC_BUFSIZE"
  shows "\<exists>ev' w' asc'. appserver_read kern env fd (ev, w, srv, k, u) =
      Some (0, ev', w', srv\<lparr>as_objs := (as_objs srv)(p \<mapsto> asc'), as_current := None\<rparr>, k1, u')
    \<and> plenty w' \<and> served rest (answer_of c ss' r) (asc\<lparr>asc_state := ASCS_LOGGED\<rparr>) asc'"
proof -
  let ?cnt = "asc_buf_read_cnt asc"
  let ?in = "asc\<lparr>asc_buf_read := blit (asc_buf_read asc) ?cnt input, asc_buf_read_cnt := ?cnt + length input\<rparr>"
  let ?srv = "srv\<lparr>as_objs := (as_objs srv)(p \<mapsto> ?in)\<rparr>"
  let ?log = "?srv\<lparr>as_objs := (as_objs ?srv)(p \<mapsto> ?in\<lparr>asc_state := ASCS_LOGGED\<rparr>)\<rparr>"
  have ok: "length (asc_buf_read asc) = ASC_BUFSIZE" "length (asc_buf_write asc) = ASC_BUFSIZE" "?cnt < ASC_BUFSIZE"
    "0 \<le> fd" "fd < FD_SETSIZE" using assms(3,4) by (auto simp: client_ok_def)
  have "take (?cnt + length input) (blit (asc_buf_read asc) ?cnt input) = take ?cnt (asc_buf_read asc) @ input"
    using ok(1,3) assms(18) by (simp add: blit_def)
  with assms(19) have buf: "take (asc_buf_read_cnt ?in) (asc_buf_read ?in) = (name @ [NUL] @ bs) @ rest" by simp
  obtain ev' w' asc' where run: "read_logged env p (ev, w, ?log, k1, u) =
      Some (0, ev', w', ?log\<lparr>as_objs := (as_objs ?log)(p \<mapsto> asc'), as_current := None\<rparr>, k1, u')" "plenty w'"
      "served rest (answer_of c ss' r) (?in\<lparr>asc_state := ASCS_LOGGED\<rparr>) asc'"
  proof -
    have "8 \<le> ASC_BUFSIZE" by (simp add: ASC_BUFSIZE_def)
    with ok assms(3,5,18,20) buf have "\<exists>ev' w' asc'. read_logged env p (ev, w, ?log, k1, u) =
        Some (0, ev', w', ?log\<lparr>as_objs := (as_objs ?log)(p \<mapsto> asc'), as_current := None\<rparr>, k1, u')
      \<and> plenty w' \<and> served rest (answer_of c ss' r) (?in\<lparr>asc_state := ASCS_LOGGED\<rparr>) asc'"
      by (intro read_logged_call [where env = env and p = p, OF _ _ assms(6-15)]) simp_all
    with that show thesis by blast
  qed
  have "read_process env p (ev, w, ?srv, k1, u) = Some (0, ev', w', srv\<lparr>as_objs := (as_objs srv)(p \<mapsto> asc'), as_current := None\<rparr>, k1, u')"
    using read_process_call [of env p ev w ?srv ?in k1 u, OF run(1)] by simp
  then have "appserver_read kern env fd (ev, w, srv, k, u) =
      Some (0, ev', w', srv\<lparr>as_objs := (as_objs srv)(p \<mapsto> asc'), as_current := None\<rparr>, k1, u')"
    using assms(1,2,3,16,17,18) ok by (simp add: appserver_read_def write_block_def Let_def)
  moreover have "served rest (answer_of c ss' r) (asc\<lparr>asc_state := ASCS_LOGGED\<rparr>) asc'"
    using run(3) ok assms(18) by (auto simp: served_def)
  ultimately show ?thesis using run(2) by blast
qed

text \<open>The client reads the answer, when it has arrived completely.\<close>

lemma call_receive_answer:
  assumes "get_call_loop (ai_calls ai) name = Some c" "delivers (ac_args c) ps (answer_bytes (ac_args c) ss) cs cs'" "plenty w"
  shows "\<exists>w'. plenty w' \<and> appinterface_call_receive junk ai (Some x) (answer_of c ss r) name ps cs w
    = Some (int (length (answer_of c ss r)), Some (if aa_type (ac_type c) = AICT_VOID then 0 else r), cs', w')"
proof -
  let ?r = "if aa_type (ac_type c) = AICT_VOID then 0 else r" and ?a = "answer_bytes (ac_args c) ss"
  have get: "appinterface_get_call ai name w = (Some c, w)" using assms(1) by (simp add: appinterface_get_call_def)
  have "\<exists>w'. receive_loop junk (ac_args c) ps ([] @ ?a @ image (C32 (htonl ?r))) (length ([] :: string)) cs w
      = Some (RNext (length ([] :: string) + length ?a), cs', w') \<and> plenty w'"
    using assms(2,3) unfolding delivers_def by blast
  then obtain w' where w': "receive_loop junk (ac_args c) ps (?a @ image (C32 (htonl ?r))) 0 cs w
      = Some (RNext (length ?a), cs', w')" "plenty w'" by auto
  have ret: "block (?a @ image (C32 (htonl ?r))) (length ?a) 4 = image (C32 (htonl ?r))"
    using block_prefix_n [of "image (C32 (htonl ?r))" 4 ?a "[]"] by simp
  show ?thesis
    by (intro exI [of _ w'] conjI w'(2))
      (simp add: appinterface_call_receive_def get answer_of_def w'(1) ret del: split_paired_Ex if_split)
qed

section \<open>Properties\<close>

text \<open>
  C14: a remote call from end to end. When the client has written a call with \<open>appinterface_call\<close> and these
  bytes reach the server with one \<open>read\<close>, \<open>appserver_read\<close> runs the function once, with the values that were passed, and
  its write buffer holds the answer; when all of that answer has arrived, \<open>appinterface_call_receive\<close> of the client returns
  the value of the function and leaves its results in the objects of the caller. Both sides have loaded the interface and
  know the call with the same arguments, each for passing in or for a result (none for both); these are booleans, integers
  of 8 to 32 bits, strings and buffers, and floats that are passed in: the types that both sides convert. The buffers of the
  connection are empty before, the answer fits into them, and memory does not run out.
\<close>

theorem rpc_end_to_end:
  assumes client: "get_call_loop (ai_calls ai) name = Some c"
    and server: "as_interface srv = Some ai'" "get_call_loop (ai_calls ai') name = Some c'" "ac_func c' = Some f"
    and same: "ac_args c' = ac_args c" "ac_type c' = ac_type c" "NUL \<notin> set name" and typed: "interface_typed ai"
    and call: "passed dtof cs (ac_args c) va ss ps" "appinterface_call dtof ai buf name va cs w = Some (n, ps', buf', w1)" "n > 0"
    and conn: "find_client (as_clients srv) (as_objs srv) fd = Some (Some p)" "as_objs srv p = Some asc" "asc_fd asc = fd"
      "client_ok asc" "asc_buf_read_cnt asc = 0" "asc_buf_write_cnt asc = 0" "length buf \<le> ASC_BUFSIZE"
    and kernel: "k_read kern fd ASC_BUFSIZE k = (Inr (take (nat n) buf'), k1)"
    and run: "plenty ws" "plenty wc" "runs_to (env (Some p)) f ss u r ss' u'" "answered (ac_args c) ss' ps cs cs'"
      "length (answer_of c ss' r) \<le> ASC_BUFSIZE"
  shows "\<exists>ev' ws' asc' wc'. appserver_read kern env fd (ev, ws, srv, k, u) =
      Some (0, ev', ws', srv\<lparr>as_objs := (as_objs srv)(p \<mapsto> asc'), as_current := None\<rparr>, k1, u')
    \<and> appinterface_call_receive junk ai (Some x) (take (asc_buf_write_cnt asc') (asc_buf_write asc')) name ps' cs wc
      = Some (int (asc_buf_write_cnt asc'), Some (if aa_type (ac_type c) = AICT_VOID then 0 else r), cs', wc')"
proof -
  have sizes: "length (ac_args c) \<le> 4" "sizes_ok (ac_args c)"
    using typed_call [OF typed client] by (auto simp: call_typed_def sizes_ok_def arg_typed_def APPSERVER_MAX_ARGUMENTS_def)
  obtain bs where bs: "wire dtof (ac_args c) va cs = Some (bs, ps)" "decodes (ac_args c) bs ss"
    using passed_wire [OF call(1) sizes(2)] by blast
  have len: "length ss = length (ac_args c)" using call(1) by (induction rule: passed.induct) auto
  from appinterface_call_bytes [OF client bs(1), of buf w] call(2,3) have
    sent: "length name + 1 + length bs \<le> length buf" "n = int (length name + 1 + length bs)" "ps' = ps"
      "buf' = blit buf 0 (name @ [NUL] @ bs)" by (auto split: if_splits)
  have input: "take (nat n) buf' = (name @ [NUL] @ bs)" using sent by (simp add: blit_def nat_add_distrib)
  have room: "Suc (length name + length bs) \<le> ASC_BUFSIZE" using sent(1) conn(7) by simp
  from answered_wire [OF run(4) sizes(2)] have
    ans: "sends (ac_args c) ss' (answer_bytes (ac_args c) ss')" "delivers (ac_args c) ps (answer_bytes (ac_args c) ss') cs cs'"
      "length ss' = length (ac_args c)" by blast+
  have eq: "answer_of c' ss' r = answer_of c ss' r" using same(1,2) by (simp add: answer_of_def)
  obtain ev' ws' asc' where read: "appserver_read kern env fd (ev, ws, srv, k, u) =
      Some (0, ev', ws', srv\<lparr>as_objs := (as_objs srv)(p \<mapsto> asc'), as_current := None\<rparr>, k1, u')"
      "served [] (answer_of c ss' r) (asc\<lparr>asc_state := ASCS_LOGGED\<rparr>) asc'"
  proof -
    have "\<exists>ev' w' asc'. appserver_read kern env fd (ev, ws, srv, k, u) =
        Some (0, ev', w', srv\<lparr>as_objs := (as_objs srv)(p \<mapsto> asc'), as_current := None\<rparr>, k1, u')
      \<and> plenty w' \<and> served [] (answer_of c' ss' r) (asc\<lparr>asc_state := ASCS_LOGGED\<rparr>) asc'"
      using bs(2) len ans kernel same sizes sent conn room run(1,3,5) server eq unfolding input
      by (intro appserver_read_call [where env = env and p = p, OF conn(1,2,3,4) server(1,2)], simp_all) linarith
    with that eq show thesis by auto
  qed
  then have "take (asc_buf_write_cnt asc') (asc_buf_write asc') = answer_of c ss' r" "asc_buf_write_cnt asc' = length (answer_of c ss' r)"
    using conn(6) by (auto simp: served_def)
  with read(1) call_receive_answer [OF client ans(2) run(2), of junk x r] sent(3) show ?thesis by auto
qed

text \<open>The interface of \<open>demo_text\<close>, with a call \<open>f(int, String **)\<close>; the function returns 7 and the string \<open>ok\<close>.\<close>

definition demo_server_env :: "nat server_env" where
  "demo_server_env cur f ss u w = Some (7, [ss ! 0, SOut (Some (CString (Some ''ok'')))], u + 1, w)"

definition demo_client :: AppServerClient where
  "demo_client = client_init 5 INADDR_LOOPBACK 1025 (map (\<lambda>i. NUL) [0 ..< ASC_BUFSIZE]) (map (\<lambda>i. NUL) [0 ..< ASC_BUFSIZE])"

definition demo_server :: AppServer where
  "demo_server = \<lparr>as_interface = Some (demo_interface (Some 0)), as_clients = [1], as_objs = [1 \<mapsto> demo_client],
     as_current = None\<rparr>"

text \<open>A kernel that gives the bytes in its state, all at once.\<close>

definition demo_kernel :: "string kernel" where
  "demo_kernel = \<lparr>k_socket = (\<lambda>k. (Inr 3, k)), k_bind = (\<lambda>fd a p k. (None, k)), k_listen = (\<lambda>fd n k. (None, k)),
     k_accept = (\<lambda>fd k. (Inr (5, INADDR_LOOPBACK, 1025), k)), k_read = (\<lambda>fd n k. (Inr (take n k), drop n k)),
     k_write = (\<lambda>fd bs k. (Inr (length bs), k)), k_close = (\<lambda>fd k. k), k_setsockopt = (\<lambda>fd b k. (None, k))\<rparr>"

lemma demo_client_ok: "client_ok demo_client" "asc_fd demo_client = 5" "asc_buf_read_cnt demo_client = 0"
  "asc_buf_write_cnt demo_client = 0"
  by (simp_all add: client_ok_def demo_client_def client_init_def FD_SETSIZE_def ASC_BUFSIZE_def)

lemma demo_passed:
  "passed dtof [9 \<mapsto> CString None] (ac_args (demo_call g)) [AInt 3, APointer (Some 9)] [SLong 3, SOut (Some (CString None))] [None, Some 9]"
proof -
  have "arrives dtof [9 \<mapsto> CString None] AICT_INT32 (AInt 3) (SLong 3)"
    using arrives.bits32 [of AICT_INT32 dtof "[9 \<mapsto> CString None]" 3] by simp
  then show ?thesis by (auto simp: demo_call_def demo_arg_def intro!: passed.intros fresh.intros)
qed

lemma demo_answered:
  "answered (ac_args (demo_call g)) [SLong 3, SOut (Some (CString (Some ''ok'')))] [None, Some 9] [9 \<mapsto> CString None]
     [9 \<mapsto> CString (Some ''ok'')]"
proof -
  have "answered [demo_arg AICT_STRING AICD_OUT] [SOut (Some (CString (Some ''ok'')))] [Some 9] [9 \<mapsto> CString None]
     ([9 \<mapsto> CString None](9 \<mapsto> CString (Some ''ok'')))"
    by (rule answered.result [OF _ _ _ answered.none]) (auto simp: demo_arg_def intro: returns.chars)
  then show ?thesis by (auto simp: demo_call_def intro!: answered.skip) (simp_all add: demo_arg_def)
qed

theorem rpc_end_to_end_witness:
  "\<exists>buf n ps ev' ws' asc' wc' srv' k' u'.
     appinterface_call (\<lambda>d. 0) (demo_interface None) (replicate 20 NUL) ''f'' [AInt 3, APointer (Some 9)] [9 \<mapsto> CString None] world0
       = Some (n, ps, buf, world0)
   \<and> appserver_read demo_kernel demo_server_env 5 (event_one_reader, world0, demo_server, take (nat n) buf, 0)
       = Some (0, ev', ws', srv', k', u')
   \<and> u' = 1 \<and> as_objs srv' 1 = Some asc'
   \<and> appinterface_call_receive (\<lambda>i. NUL) (demo_interface None) (Some 0) (take (asc_buf_write_cnt asc') (asc_buf_write asc'))
       ''f'' ps [9 \<mapsto> CString None] world0
       = Some (int (asc_buf_write_cnt asc'), Some 7, [9 \<mapsto> CString (Some ''ok'')], wc')"
proof -
  let ?cs = "[9 \<mapsto> CString None] :: cells" and ?va = "[AInt 3, APointer (Some 9)]"
  have get: "get_call_loop (ai_calls (demo_interface g)) ''f'' = Some (demo_call g)" for g
    by (simp add: demo_interface_def demo_call_def)
  have sizes: "sizes_ok (ac_args (demo_call g))" for g by (simp add: sizes_ok_def demo_call_def demo_arg_def)
  obtain bs where bs: "wire (\<lambda>d. 0) (ac_args (demo_call None)) ?va ?cs = Some (bs, [None, Some 9])"
    using passed_wire [OF demo_passed sizes] by blast
  then have "length bs = 4" by (auto simp: demo_call_def demo_arg_def call_arg_def)
  with appinterface_call_bytes [OF get bs, of "replicate 20 NUL" world0] obtain buf where
    call: "appinterface_call (\<lambda>d. 0) (demo_interface None) (replicate 20 NUL) ''f'' ?va ?cs world0
      = Some (6, [None, Some 9], buf, world0)" "length buf = 20" by auto
  have runs: "runs_to (demo_server_env (Some 1)) 0 [SLong 3, SOut (Some (CString None))] 0 7
      [SLong 3, SOut (Some (CString (Some ''ok'')))] 1"
    by (simp add: runs_to_def demo_server_env_def)
  have kern: "k_read demo_kernel 5 ASC_BUFSIZE (take (nat 6) buf) = (Inr (take (nat 6) buf), [])"
    by (simp add: demo_kernel_def ASC_BUFSIZE_def)
  have "\<exists>ev' ws' asc' wc'. appserver_read demo_kernel demo_server_env 5 (event_one_reader, world0, demo_server, take (nat 6) buf, 0) =
      Some (0, ev', ws', demo_server\<lparr>as_objs := (as_objs demo_server)(1 \<mapsto> asc'), as_current := None\<rparr>, [], 1)
    \<and> appinterface_call_receive (\<lambda>i. NUL) (demo_interface None) (Some 0) (take (asc_buf_write_cnt asc') (asc_buf_write asc'))
        ''f'' [None, Some 9] ?cs world0
      = Some (int (asc_buf_write_cnt asc'), Some (if aa_type (ac_type (demo_call None)) = AICT_VOID then 0 else 7),
          [9 \<mapsto> CString (Some ''ok'')], wc')"
  proof (rule rpc_end_to_end [where c = "demo_call None" and c' = "demo_call (Some 0)" and ai' = "demo_interface (Some 0)"
        and f = 0 and p = 1 and asc = demo_client and env = demo_server_env])
    show "passed (\<lambda>d. 0) ?cs (ac_args (demo_call None)) ?va [SLong 3, SOut (Some (CString None))] [None, Some 9]" by (rule demo_passed)
    show "runs_to (demo_server_env (Some 1)) 0 [SLong 3, SOut (Some (CString None))] 0 7
      [SLong 3, SOut (Some (CString (Some ''ok'')))] 1" by (rule runs)
    show "answered (ac_args (demo_call None)) [SLong 3, SOut (Some (CString (Some ''ok'')))] [None, Some 9] ?cs
      [9 \<mapsto> CString (Some ''ok'')]" by (rule demo_answered)
    show "k_read demo_kernel 5 ASC_BUFSIZE (take (nat 6) buf) = (Inr (take (nat 6) buf), [])" by (rule kern)
    show "appinterface_call (\<lambda>d. 0) (demo_interface None) (replicate 20 NUL) ''f'' ?va ?cs world0 = Some (6, [None, Some 9], buf, world0)"
      by (rule call(1))
    show "length (replicate 20 NUL) \<le> ASC_BUFSIZE" by (simp only: length_replicate ASC_BUFSIZE_def)
    show "interface_typed (demo_interface None)" by (rule demo_typed)
  qed (use get sizes demo_client_ok in
    \<open>simp_all add: demo_server_def demo_call_def demo_arg_def answer_of_def ASC_BUFSIZE_def\<close>)
  then show ?thesis using call(1) by (fastforce simp: demo_call_def demo_arg_def)
qed

end
