(* ===== verification/App_Safe.thy ===== *)
theory App_Safe
  imports App_Server
begin

text \<open>
  The handlers of the server, for any bytes that clients send and for any allocation that fails: which of them stay
  defined (no access outside a buffer or to a freed client, no failed assertion, no indeterminate value), and
  which do not.
\<close>

section \<open>A call, whatever the bytes\<close>

lemma read_bytes_pos:
  "read_bytes n buf pos w = (r, bs, pos', w') \<Longrightarrow> pos \<le> length buf \<Longrightarrow> pos' \<le> length buf \<and> (r = 0 \<longrightarrow> length bs = n)"
  by (auto simp: read_bytes_def block_def split: if_splits)

lemma read_slot_pos: "read_slot n f buf pos w = (s, pos', w') \<Longrightarrow> pos \<le> length buf \<Longrightarrow> pos' \<le> length buf"
  by (auto simp: read_slot.simps dest: read_bytes_pos split: prod.splits)

lemma read_slot_Some: "read_slot n f buf pos w = (Some s, pos', w') \<Longrightarrow> \<exists>x. s = f x"
  by (auto simp: read_slot.simps split: prod.splits if_splits)

lemma read_string_pos: "read_string buf pos w = (s, pos', w') \<Longrightarrow> pos \<le> length buf \<Longrightarrow> pos' \<le> length buf"
  using length_takeWhile_le [of "\<lambda>c. c \<noteq> NUL" "drop pos buf"]
  by (auto simp: read_string_def Let_def split: if_splits prod.splits)

lemma buffer_new_total: "\<exists>ob w'. buffer_new n None w = Some (ob, w') \<and> (\<forall>b. ob = Some b \<longrightarrow> buf_size b = n \<and> length (buf_data b) = n)"
  by (auto simp: buffer_new_def split: prod.split bool.split)

lemma pre_exec_buffer_safe:
  assumes "pos \<le> length buf"
  shows "\<exists>s pos' w'. pre_exec_buffer buf pos w = Some (s, pos', w') \<and> pos' \<le> length buf
    \<and> (\<forall>x. s = Some x \<longrightarrow> (\<exists>b. x = SBuffer b \<and> buffer_wf b))"
proof -
  obtain r bs pos1 w1 where 1: "read_bytes 4 buf pos w = (r, bs, pos1, w1)" by (metis prod_cases4)
  have p1: "pos1 \<le> length buf" using read_bytes_pos [OF 1 assms] by blast
  let ?n = "unat (ntohl (word_of_nat (number_of bs)))"
  obtain ob w2 where 2: "buffer_new ?n None w1 = Some (ob, w2)" "\<forall>b. ob = Some b \<longrightarrow> buf_size b = ?n \<and> length (buf_data b) = ?n"
    using buffer_new_total by blast
  obtain r3 bs3 pos3 w3 where 3: "read_bytes ?n buf pos1 w2 = (r3, bs3, pos3, w3)" by (metis prod_cases4)
  have p3: "pos3 \<le> length buf" "r3 = 0 \<Longrightarrow> length bs3 = ?n" using read_bytes_pos [OF 3 p1] by blast+
  show ?thesis using 1 2 3 p1 p3
    by (cases ob) (auto simp: pre_exec_buffer_def Let_def write_block_def buffer_get_data_def buffer_wf_def)
qed

text \<open>What a function is given for an argument of a typed interface, and what it has to leave there.\<close>

definition given :: "AppInterfaceCallArg \<Rightarrow> slot \<Rightarrow> bool" where
  "given a s \<longleftrightarrow>
     (case aa_type a of
        AICT_VOID \<Rightarrow> s = SUndef
      | AICT_STRING \<Rightarrow> if aa_direction a = AICD_OUT then s = SOut (Some (CString None)) else \<exists>t. s = SString t
      | AICT_BUFFER \<Rightarrow> \<exists>b. s = SBuffer b \<and> buffer_wf b
      | AICT_FLOAT \<Rightarrow> \<exists>x. s = SFloat x
      | _ \<Rightarrow> \<exists>x. s = SLong x)"

definition given_back :: "AppInterfaceCallArg \<Rightarrow> slot \<Rightarrow> bool" where
  "given_back a s \<longleftrightarrow> (aa_direction a = AICD_OUT \<longrightarrow>
     (case aa_type a of
        AICT_STRING \<Rightarrow> \<exists>p. s = SOut (Some (CString p))
      | AICT_BUFFER \<Rightarrow> \<exists>b. s = SBuffer b \<and> buffer_wf b
      | _ \<Rightarrow> True))"

lemma pre_exec_in_safe:
  assumes "pos \<le> length buf" "aa_direction a = AICD_IN"
  shows "\<exists>s pos' w'. pre_exec_in a buf pos w = Some (s, pos', w') \<and> pos' \<le> length buf \<and> (\<forall>x. s = Some x \<longrightarrow> given a x)"
proof (cases "aa_type a = AICT_BUFFER")
  case True
  with pre_exec_buffer_safe [OF assms(1), of w] show ?thesis by (auto simp: pre_exec_in_def given_def)
next
  case False
  have slot: "\<exists>s pos' w'. Some (read_slot n f buf pos w1) = Some (s, pos', w') \<and> pos' \<le> length buf \<and> (\<forall>x. s = Some x \<longrightarrow> given a x)"
    if "\<And>x. given a (f x)" for n f w1
  proof -
    obtain s pos' w' where r: "read_slot n f buf pos w1 = (s, pos', w')" by (metis prod_cases3)
    with read_slot_pos [OF r assms(1)] read_slot_Some [of n f buf pos w1 _ pos' w'] that show ?thesis by auto
  qed
  have str: "read_string buf pos w = (s, pos', w') \<Longrightarrow> pos' \<le> length buf" for s pos' w' using read_string_pos assms(1) by blast
  from False assms slot show ?thesis
    by (cases "aa_type a") (auto simp: pre_exec_in_def given_def dest: str split: prod.split bool.split)
qed

lemma pre_exec_out_safe:
  assumes "arg_typed a" "aa_direction a = AICD_OUT"
  shows "\<exists>s w'. pre_exec_out a w = Some (s, w') \<and> (\<forall>x. s = Some x \<longrightarrow> given a x)"
  using assms buffer_new_total [of 0 w]
  by (auto simp: arg_typed_def pre_exec_out_def given_def buffer_wf_def split: prod.split)

lemma args_pre_exec_safe:
  "\<forall>a \<in> set as. arg_typed a \<Longrightarrow> pos \<le> length buf \<Longrightarrow>
   \<exists>ss pos' w'. args_pre_exec as buf pos w = Some (ss, pos', w') \<and> pos' \<le> length buf
     \<and> length ss \<le> length as \<and> list_all2 given (take (length ss) as) ss"
proof (induction "as" arbitrary: pos w)
  case (Cons a as)
  have "\<exists>s pos1 w1. (case aa_direction a of AICD_IN \<Rightarrow> pre_exec_in a buf pos w | AICD_IN_OUT \<Rightarrow> Some (None, pos, w)
      | AICD_OUT \<Rightarrow> do { (s, w1) \<leftarrow> pre_exec_out a w; Some (s, pos, w1) }) = Some (s, pos1, w1)
    \<and> pos1 \<le> length buf \<and> (\<forall>x. s = Some x \<longrightarrow> given a x)"
    using pre_exec_in_safe [OF Cons.prems(2), of a w] pre_exec_out_safe [of a w] Cons.prems
    by (cases "aa_direction a") auto
  then obtain s pos1 w1 where 1: "(case aa_direction a of AICD_IN \<Rightarrow> pre_exec_in a buf pos w | AICD_IN_OUT \<Rightarrow> Some (None, pos, w)
      | AICD_OUT \<Rightarrow> do { (s, w1) \<leftarrow> pre_exec_out a w; Some (s, pos, w1) }) = Some (s, pos1, w1)"
    "pos1 \<le> length buf" "\<forall>x. s = Some x \<longrightarrow> given a x" by blast
  show ?case
  proof (cases s)
    case (Some x)
    from Cons.IH [OF _ 1(2), of w1] Cons.prems(1) obtain ss pos2 w2 where
      "args_pre_exec as buf pos1 w1 = Some (ss, pos2, w2)" "pos2 \<le> length buf" "length ss \<le> length as"
      "list_all2 given (take (length ss) as) ss" by auto
    with 1 Some show ?thesis by simp
  qed (use 1 in simp)
qed simp

lemma send_bytes_safe:
  "send_bytes d buf pos w = (r, buf', pos', w') \<Longrightarrow> pos \<le> length buf \<Longrightarrow> length buf' = length buf \<and> pos' \<le> length buf"
  by (auto simp: send_bytes_def blit_def split: if_splits)

lemma send_string_loop_safe:
  "send_string_loop s buf pos w = (r, buf', pos', w') \<Longrightarrow> pos \<le> length buf \<Longrightarrow> length buf' = length buf \<and> pos' \<le> length buf"
proof (induction s arbitrary: buf pos)
  case Nil
  then show ?case by (subst (asm) send_string_loop.simps) (auto split: if_splits)
next
  case (Cons c s)
  from Cons.prems have "if pos < length buf then send_string_loop s (buf[pos := c]) (pos + 1) w = (r, buf', pos', w')
      else buf' = buf \<and> pos' = pos" by (subst (asm) send_string_loop.simps) (auto split: if_splits)
  with Cons.IH [of "buf[pos := c]" "pos + 1"] Cons.prems(2) show ?case by (auto split: if_splits)
qed

lemma send_string_safe:
  "send_string s buf pos w = (r, buf', pos', w') \<Longrightarrow> pos \<le> length buf \<Longrightarrow> length buf' = length buf \<and> pos' \<le> length buf"
  by (auto simp: send_string_def dest: send_string_loop_safe split: option.splits)

lemma send_buffer_safe:
  assumes "buffer_wf b" "pos \<le> length buf"
  shows "\<exists>r buf' pos' w'. send_buffer b buf pos w = Some (r, buf', pos', w') \<and> length buf' = length buf \<and> pos' \<le> length buf"
proof -
  obtain r1 buf1 pos1 w1 where 1: "send_bytes (image (C32 (htonl (word_of_nat (buffer_get_size b))))) buf pos w = (r1, buf1, pos1, w1)"
    by (metis prod_cases4)
  note safe1 = send_bytes_safe [OF 1 assms(2)]
  obtain r2 buf2 pos2 w2 where 2: "send_bytes (buf_data b) buf1 pos1 w1 = (r2, buf2, pos2, w2)" by (metis prod_cases4)
  have "read_block (buffer_get_data b) 0 (buffer_get_size b) = Some (buf_data b)"
    using assms(1) by (simp add: read_block_def block_def buffer_wf_def buffer_get_data_def buffer_get_size_def)
  with 1 safe1 2 send_bytes_safe [OF 2] show ?thesis by (simp add: send_buffer_def)
qed

lemma post_exec_out_safe:
  assumes "given_back a s" "arg_typed a" "aa_direction a = AICD_OUT" "pos \<le> length buf"
  shows "\<exists>r buf' pos' w'. post_exec_out a s buf pos w = Some (r, buf', pos', w') \<and> length buf' = length buf \<and> pos' \<le> length buf"
proof -
  consider p where "aa_type a = AICT_STRING" "s = SOut (Some (CString p))" | b where "aa_type a = AICT_BUFFER" "s = SBuffer b" "buffer_wf b"
    using assms by (auto simp: arg_typed_def given_back_def)
  then show ?thesis
  proof cases
    case 1
    with assms(2,4) show ?thesis by (auto simp: post_exec_out_def arg_typed_def dest: send_string_safe split: prod.split)
  next
    case 2
    with assms(2,4) send_buffer_safe [OF 2(3) assms(4), of w] show ?thesis by (auto simp: post_exec_out_def arg_typed_def)
  qed
qed

lemma post_send_safe:
  "list_all2 given_back as ss \<Longrightarrow> \<forall>a \<in> set as. arg_typed a \<Longrightarrow> pos \<le> length buf \<Longrightarrow>
   \<exists>i buf' pos' w'. post_send as ss j ret buf pos w = Some (i, buf', pos', w') \<and> length buf' = length buf \<and> pos' \<le> length buf"
proof (induction arbitrary: j ret buf pos w rule: list_all2_induct)
  case (Cons a as s ss)
  show ?case
  proof (cases "aa_direction a = AICD_OUT")
    case True
    with post_exec_out_safe [OF Cons.hyps(1) _ True Cons.prems(2), of w] Cons.prems(1) obtain r buf1 pos1 w1 where
      1: "post_exec_out a s buf pos w = Some (r, buf1, pos1, w1)" "length buf1 = length buf" "pos1 \<le> length buf1" by auto
    from Cons.IH [of pos1 buf1 "j + 1" "if r \<noteq> 0 then j else ret" w1] Cons.prems(1) 1 True show ?thesis by auto
  next
    case False
    with Cons.IH [OF _ Cons.prems(2)] Cons.prems(1) show ?thesis by simp
  qed
qed simp

lemma args_post_exec_safe:
  assumes "i = length (ac_args c) \<Longrightarrow> list_all2 given_back (ac_args c) ss" "\<forall>a \<in> set (ac_args c). arg_typed a" "pos \<le> length buf"
  shows "\<exists>j buf' pos' w'. args_post_exec c buf pos ss i w = Some (j, buf', pos', w') \<and> length buf' = length buf \<and> pos' \<le> length buf"
proof (cases "i = length (ac_args c)")
  case True
  with post_send_safe [OF assms(1) [OF True] assms(2,3), of 0 i w] show ?thesis by (auto simp: args_post_exec_def)
qed (use assms in \<open>simp add: args_post_exec_def\<close>)

text \<open>A program with a function for every call, defined for all arguments it can be given.\<close>

definition call_serves :: "'u server_env \<Rightarrow> AppInterfaceCall \<Rightarrow> bool" where
  "call_serves env c \<longleftrightarrow> (\<exists>f. ac_func c = Some f \<and> (\<forall>cur ss u w. list_all2 given (ac_args c) ss \<longrightarrow>
     (\<exists>r ss' u' w'. env cur f ss u w = Some (r, ss', u', w') \<and> list_all2 given_back (ac_args c) ss')))"

definition program_ok :: "'u server_env \<Rightarrow> AppInterface \<Rightarrow> bool" where
  "program_ok env ai \<longleftrightarrow> interface_typed ai \<and> (\<forall>c \<in> set (ai_calls ai). call_serves env c)"

lemma program_call:
  assumes "program_ok env ai" "get_call_loop (ai_calls ai) name = Some c"
  shows "call_typed c \<and> call_serves env c"
proof -
  have "get_call_loop cs name = Some c \<Longrightarrow> c \<in> set cs" for cs by (induction cs) (auto split: if_splits)
  with assms show ?thesis by (auto simp: program_ok_def interface_typed_def)
qed

lemma receive_args_safe:
  assumes "call_typed c" "call_serves env c" "pos \<le> length buf" "bufwpos \<le> length bufw"
  shows "\<exists>r ret' pos' bufw' bufwpos' u' w'. receive_args (env cur) c ret buf pos bufw bufwpos u w
      = Some (r, ret', pos', bufw', bufwpos', u', w')
    \<and> pos' \<le> length buf \<and> length bufw' = length bufw \<and> bufwpos' \<le> length bufw \<and> (r = 0 \<longrightarrow> ret' \<noteq> None)"
proof -
  have typed: "\<forall>a \<in> set (ac_args c). arg_typed a" "length (ac_args c) \<le> 4"
    using assms(1) by (auto simp: call_typed_def APPSERVER_MAX_ARGUMENTS_def)
  obtain ok w1 where w1: "w_alloc w = (ok, w1)" by fastforce
  obtain ss pos2 w2 where pre: "args_pre_exec (ac_args c) buf pos w1 = Some (ss, pos2, w2)" "pos2 \<le> length buf"
    "length ss \<le> length (ac_args c)" "list_all2 given (take (length ss) (ac_args c)) ss"
    using args_pre_exec_safe [OF typed(1) assms(3)] by blast
  show ?thesis
  proof (cases "length ss = length (ac_args c)")
    case True
    with pre(4) have "list_all2 given (ac_args c) ss" by simp
    with assms(2) obtain f r ss' u' w3 where run: "ac_func c = Some f" "env cur f ss u w2 = Some (r, ss', u', w3)"
      "list_all2 given_back (ac_args c) ss'" unfolding call_serves_def by blast
    obtain i buf4 pos4 w4 where "args_post_exec c bufw bufwpos ss' (length ss) w3 = Some (i, buf4, pos4, w4)"
      "length buf4 = length bufw" "pos4 \<le> length bufw"
      using args_post_exec_safe [OF run(3) typed(1) assms(4)] by blast
    with w1 pre True run typed(2) assms(3,4) show ?thesis by (cases ok) (simp_all add: receive_args_def args_exec_def)
  next
    case False
    obtain i buf4 pos4 w4 where "args_post_exec c bufw bufwpos ss (length ss) w2 = Some (i, buf4, pos4, w4)"
      "length buf4 = length bufw" "pos4 \<le> length bufw"
      using args_post_exec_safe [OF _ typed(1) assms(4)] False by blast
    with w1 pre False assms(3,4) show ?thesis by (cases ok) (simp_all add: receive_args_def)
  qed
qed

lemma appinterface_receive_safe:
  assumes "program_ok env ai" "bufwpos \<le> length bufw"
  shows "\<exists>i ret' bufw' bufwpos' u' w'. appinterface_receive (env cur) ai ret buf bufw bufwpos u w = Some (i, ret', bufw', bufwpos', u', w')
    \<and> nat i \<le> length buf \<and> length bufw' = length bufw \<and> bufwpos' \<le> length bufw \<and> (i > 0 \<longrightarrow> ret' \<noteq> None)"
proof -
  obtain fn pos w1 where fn: "read_string buf 0 w = (fn, pos, w1)" by (metis prod_cases3)
  show ?thesis
  proof (cases fn)
    case None
    with fn assms(2) show ?thesis by (simp add: appinterface_receive_def error_set_code_def)
  next
    case (Some name)
    have pos: "pos \<le> length buf" using read_string_pos [OF fn] by simp
    show ?thesis
    proof (cases "get_call_loop (ai_calls ai) name")
      case None
      with fn Some assms(2) show ?thesis by (simp add: appinterface_receive_def appinterface_get_call_def)
    next
      case (Some c)
      have c: "call_typed c" "call_serves env c" using program_call [OF assms(1) Some] by blast+
      from receive_args_safe [OF c pos assms(2), of cur ret u w1] \<open>fn = Some name\<close> Some fn assms(2) show ?thesis
        by (auto simp: appinterface_receive_def appinterface_get_call_def)
    qed
  qed
qed


section \<open>The event of a server\<close>

text \<open>What remains of \<open>ev_inv\<close> when allocations may fail: the entries are objects in use.\<close>

definition ev_safe :: "Event \<Rightarrow> bool" where
  "ev_safe ev \<longleftrightarrow> distinct (ev_reads ev @ ev_writes ev)
     \<and> (\<forall>p \<in> set (ev_reads ev @ ev_writes ev). p < ev_next ev \<and> ev_eios ev p \<noteq> None \<and> 0 \<le> fd_of (ev_eios ev) p)"

lemma ev_safe_inv: "ev_inv ev \<Longrightarrow> ev_safe ev"
  by (simp add: ev_inv_def ev_safe_def)

lemma append_ptr_cases: "\<exists>w'. append_ptr ps p w = (ps @ [p], w') \<or> append_ptr ps p w = (ps, w')"
  by (auto simp: append_ptr_def larr_append_def split: option.split prod.split bool.splits)

lemma register_read_safe:
  assumes "ev_safe ev" "0 \<le> fd" "fd < FD_SETSIZE"
  shows "\<exists>r ev' w'. event_register_io_read ev fd func data w = Some (r, ev', w') \<and> ev_safe ev'"
proof -
  obtain ok w1 where "object_new 24 w = (ok, w1)" by fastforce
  moreover obtain w2 where "append_ptr (ev_reads ev) (ev_next ev) w1 = (ev_reads ev @ [ev_next ev], w2)
      \<or> append_ptr (ev_reads ev) (ev_next ev) w1 = (ev_reads ev, w2)" using append_ptr_cases by blast
  ultimately show ?thesis using assms
    by (cases ok) (auto simp: event_register_io_read_def ev_safe_def fd_of_def less_Suc_eq)
qed

lemma register_read_range: "event_register_io_read ev fd f d w = Some (r, ev', w') \<Longrightarrow> ev_safe ev \<Longrightarrow> ev_safe ev'"
proof -
  assume reg: "event_register_io_read ev fd f d w = Some (r, ev', w')" and "ev_safe ev"
  then consider "0 \<le> fd" "fd < FD_SETSIZE" | "ev' = ev"
    by (auto simp: event_register_io_read_def split: if_splits prod.splits bool.splits)
  then show "ev_safe ev'" using register_read_safe [OF \<open>ev_safe ev\<close>, of fd f d w] reg \<open>ev_safe ev\<close> by cases auto
qed

lemma register_write_safe:
  assumes "ev_safe ev" "0 \<le> fd" "fd < FD_SETSIZE"
  shows "\<exists>r ev' w'. event_register_io_write ev fd func data w = Some (r, ev', w') \<and> ev_safe ev'"
proof -
  obtain ok w1 where "object_new 24 w = (ok, w1)" by fastforce
  moreover obtain w2 where "append_ptr (ev_writes ev) (ev_next ev) w1 = (ev_writes ev @ [ev_next ev], w2)
      \<or> append_ptr (ev_writes ev) (ev_next ev) w1 = (ev_writes ev, w2)" using append_ptr_cases by blast
  ultimately show ?thesis using assms
    by (cases ok) (auto simp: event_register_io_write_def ev_safe_def fd_of_def less_Suc_eq)
qed

lemma unregister_safe:
  assumes "distinct (ps @ qs)" "\<forall>p \<in> set (ps @ qs). objs p \<noteq> None \<and> 0 \<le> fd_of objs p"
  shows "\<exists>m objs' fds' m'. unregister_io objs ps (Some fds) fd 0 (- 1) = Some (m, objs', filter (\<lambda>p. fd_of objs p \<noteq> fd) ps, Some fds')
    \<and> unregister_io objs' qs None (- 1) 0 (- 1) = Some (m', objs', qs, None)
    \<and> (\<forall>q \<in> set (filter (\<lambda>p. fd_of objs p \<noteq> fd) ps @ qs). objs' q = objs q)"
proof -
  define objs' where "objs' = (\<lambda>q. if q \<in> set ps \<and> fd_of objs q = fd then None else objs q)"
  define fds' where "fds' = (if fd \<in> fd_of objs ` set ps then fds - {fd} else fds)"
  have same: "objs' q = objs q" if "q \<in> set (filter (\<lambda>p. fd_of objs p \<noteq> fd) ps @ qs)" for q
    using that assms(1) by (auto simp: objs'_def)
  have "unregister_io objs ps (Some fds) fd 0 (- 1)
      = Some (fold max (map (fd_of objs) (filter (\<lambda>p. fd_of objs p \<noteq> fd) ps)) (- 1), objs', filter (\<lambda>p. fd_of objs p \<noteq> fd) ps, Some fds')"
    using unregister_io_filter [of "[]" ps objs "Some fds" fd "- 1"] assms by (auto simp: objs'_def fds'_def)
  moreover have "unregister_io objs' qs None (- 1) 0 (- 1) = Some (fold max (map (fd_of objs') qs) (- 1), objs', qs, None)"
    using assms same by (intro unregister_io_other) (auto simp: fd_of_def)
  ultimately show ?thesis using same by blast
qed

lemma unregister_read_safe:
  assumes "ev_safe ev"
  shows "\<exists>ev'. event_unregister_io_read ev fd = Some (0, ev') \<and> ev_safe ev'"
proof -
  have "distinct (ev_reads ev @ ev_writes ev)" "\<forall>p \<in> set (ev_reads ev @ ev_writes ev). ev_eios ev p \<noteq> None \<and> 0 \<le> fd_of (ev_eios ev) p"
    using assms by (auto simp: ev_safe_def)
  from unregister_safe [OF this, of "ev_rfds ev" fd] obtain m objs fds m' where
    "unregister_io (ev_eios ev) (ev_reads ev) (Some (ev_rfds ev)) fd 0 (- 1)
      = Some (m, objs, filter (\<lambda>p. fd_of (ev_eios ev) p \<noteq> fd) (ev_reads ev), Some fds)"
    "unregister_io objs (ev_writes ev) None (- 1) 0 (- 1) = Some (m', objs, ev_writes ev, None)"
    and same: "\<forall>q \<in> set (filter (\<lambda>p. fd_of (ev_eios ev) p \<noteq> fd) (ev_reads ev) @ ev_writes ev). objs q = ev_eios ev q" by blast
  moreover have "\<forall>q \<in> set (filter (\<lambda>p. fd_of (ev_eios ev) p \<noteq> fd) (ev_reads ev) @ ev_writes ev). fd_of objs q = fd_of (ev_eios ev) q"
    using same by (simp add: fd_of_def)
  ultimately show ?thesis using assms by (auto simp: event_unregister_io_read_def ev_safe_def)
qed

lemma unregister_write_safe:
  assumes "ev_safe ev"
  shows "\<exists>ev'. event_unregister_io_write ev fd = Some (0, ev') \<and> ev_safe ev'"
proof -
  have "distinct (ev_writes ev @ ev_reads ev)" "\<forall>p \<in> set (ev_writes ev @ ev_reads ev). ev_eios ev p \<noteq> None \<and> 0 \<le> fd_of (ev_eios ev) p"
    using assms by (auto simp: ev_safe_def)
  from unregister_safe [OF this, of "ev_wfds ev" fd] obtain m objs fds m' where
    "unregister_io (ev_eios ev) (ev_writes ev) (Some (ev_wfds ev)) fd 0 (- 1)
      = Some (m, objs, filter (\<lambda>p. fd_of (ev_eios ev) p \<noteq> fd) (ev_writes ev), Some fds)"
    "unregister_io objs (ev_reads ev) None (- 1) 0 (- 1) = Some (m', objs, ev_reads ev, None)"
    and same: "\<forall>q \<in> set (filter (\<lambda>p. fd_of (ev_eios ev) p \<noteq> fd) (ev_writes ev) @ ev_reads ev). objs q = ev_eios ev q" by blast
  moreover have "\<forall>q \<in> set (filter (\<lambda>p. fd_of (ev_eios ev) p \<noteq> fd) (ev_writes ev) @ ev_reads ev). fd_of objs q = fd_of (ev_eios ev) q"
    using same by (simp add: fd_of_def)
  ultimately show ?thesis using assms by (auto simp: event_unregister_io_write_def ev_safe_def)
qed

section \<open>The clients of a server\<close>

definition client_safe :: "AppServerClient \<Rightarrow> bool" where
  "client_safe asc \<longleftrightarrow> length (asc_buf_read asc) = ASC_BUFSIZE \<and> length (asc_buf_write asc) = ASC_BUFSIZE
     \<and> asc_buf_read_cnt asc < ASC_BUFSIZE \<and> asc_buf_write_cnt asc \<le> ASC_BUFSIZE"

text \<open>The array holds different clients, all in use; \<open>ai\<close> is the interface of the server.\<close>

definition srv_safe :: "AppInterface \<Rightarrow> ('k, 'u) srv \<Rightarrow> bool" where
  "srv_safe ai s =
     (case s of (ev, w, srv, k, u) \<Rightarrow>
        ev_safe ev \<and> as_interface srv = Some ai \<and> as_current srv = None \<and> distinct (as_clients srv)
        \<and> (\<forall>p \<in> set (as_clients srv). (\<exists>asc. as_objs srv p = Some asc \<and> client_safe asc)))"

lemma srv_safeI:
  "ev_safe ev \<Longrightarrow> as_interface srv = Some ai \<Longrightarrow> as_current srv = None \<Longrightarrow> distinct (as_clients srv) \<Longrightarrow>
   (\<And>p. p \<in> set (as_clients srv) \<Longrightarrow> (\<exists>asc. as_objs srv p = Some asc \<and> client_safe asc)) \<Longrightarrow>
   srv_safe ai (ev, w, srv, k, u)"
  by (simp add: srv_safe_def)

lemma find_client_safe:
  assumes "\<forall>p \<in> set ps. objs p \<noteq> None"
  shows "\<exists>found. find_client ps objs fd = Some found
    \<and> (\<forall>p. found = Some p \<longrightarrow> p \<in> set ps \<and> asc_fd (the (objs p)) = fd)"
  using assms by (induction ps) (auto split: option.splits)

lemma remove_at_client_pos: "snd (the (larr_remove_pos ps (client_pos ps p))) = remove1 p ps \<and> larr_remove_pos ps (client_pos ps p) \<noteq> None"
proof (induction ps)
  case (Cons q ps)
  then show ?case by (auto simp: larr_remove_pos_def client_pos_def split: if_splits)
qed (simp add: larr_remove_pos_def client_pos_def)

lemma appserver_client_remove_safe:
  assumes "ev_safe ev" "as_objs srv p = Some asc"
  shows "\<exists>ev'. appserver_client_remove kern p (ev, w, srv, k, u) =
    Some (0, ev', w, srv\<lparr>as_clients := remove1 p (as_clients srv), as_objs := (as_objs srv)(p := None)\<rparr>,
      if asc_fd asc \<noteq> - 1 then k_close kern (asc_fd asc) k else k, u) \<and> ev_safe ev'"
proof -
  have "\<exists>r ev1. (if asc_buf_write_cnt asc > 0 then event_unregister_io_write ev (asc_fd asc) else Some (0, ev)) = Some (r, ev1) \<and> ev_safe ev1"
    using unregister_write_safe [OF assms(1), of "asc_fd asc"] assms(1) by auto
  then obtain r ev1 where 1: "(if asc_buf_write_cnt asc > 0 then event_unregister_io_write ev (asc_fd asc) else Some (0, ev)) = Some (r, ev1)"
    "ev_safe ev1" by blast
  obtain ev2 where 2: "event_unregister_io_read ev1 (asc_fd asc) = Some (0, ev2)" "ev_safe ev2"
    using unregister_read_safe [OF 1(2)] by blast
  obtain r3 ps where 3: "larr_remove_pos (as_clients srv) (client_pos (as_clients srv) p) = Some (r3, ps)" "ps = remove1 p (as_clients srv)"
    using remove_at_client_pos [of "as_clients srv" p] by auto
  from 1 2 3 assms(2) show ?thesis
    by (simp add: appserver_client_remove_def appserverclient_delete_def)
qed

text \<open>The rest of a server whose client \<open>p\<close> was dropped is in order.\<close>

lemma dropped_safe:
  assumes "ev_safe ev'" "as_interface srv = Some ai" "distinct (as_clients srv)"
    and "\<forall>q \<in> set (as_clients srv) - {p}. (\<exists>asc. as_objs srv q = Some asc \<and> client_safe asc)"
    and "as_current srv = None"
  shows "srv_safe ai (ev', w, srv\<lparr>as_clients := remove1 p (as_clients srv), as_objs := (as_objs srv)(p := None)\<rparr>, k, u)"
  using assms by (intro srv_safeI) auto


section \<open>The handlers\<close>

text \<open>
  What is relied on of the kernel: the descriptors that \<open>accept\<close> returns are not negative, and no more bytes are read or
  written than asked for.
\<close>

definition kernel_ok :: "'k kernel \<Rightarrow> bool" where
  "kernel_ok kern \<longleftrightarrow> (\<forall>fd k new addr port k'. k_accept kern fd k = (Inr (new, addr, port), k') \<longrightarrow> 0 \<le> new)
     \<and> (\<forall>fd n k bs k'. k_read kern fd n k = (Inr bs, k') \<longrightarrow> length bs \<le> n)
     \<and> (\<forall>fd bs k n k'. k_write kern fd bs k = (Inr n, k') \<longrightarrow> n \<le> length bs)"

lemma read_logged_safe:
  assumes "program_ok env ai" "as_interface srv = Some ai" "as_objs srv p = Some asc" "ev_safe ev"
    and "0 \<le> asc_fd asc" "asc_fd asc < FD_SETSIZE" "length (asc_buf_read asc) = ASC_BUFSIZE" "length (asc_buf_write asc) = ASC_BUFSIZE"
    and "asc_buf_read_cnt asc \<le> ASC_BUFSIZE" "asc_buf_write_cnt asc \<le> ASC_BUFSIZE"
  shows "\<exists>r ev' w' asc' u'. read_logged env p (ev, w, srv, k, u) =
      Some (r, ev', w', srv\<lparr>as_objs := (as_objs srv)(p \<mapsto> asc'), as_current := None\<rparr>, k, u')
    \<and> ev_safe ev' \<and> asc_fd asc' = asc_fd asc \<and> (r = 0 \<longrightarrow> client_safe asc')"
proof -
  let ?in = "take (asc_buf_read_cnt asc) (asc_buf_read asc)"
  obtain i ret bufw pos u1 w1 where run: "appinterface_receive (env (Some p)) ai None ?in (asc_buf_write asc) (asc_buf_write_cnt asc) u w
      = Some (i, ret, bufw, pos, u1, w1)" "nat i \<le> length ?in" "length bufw = ASC_BUFSIZE" "pos \<le> ASC_BUFSIZE" "i > 0 \<longrightarrow> ret \<noteq> None"
    using appinterface_receive_safe [OF assms(1), of "asc_buf_write_cnt asc" "asc_buf_write asc" "Some p" None ?in u w] assms(8,10)
    by auto
  let ?cnt = "asc_buf_read_cnt asc - nat i"
  let ?asc2 = "asc\<lparr>asc_buf_write := bufw, asc_buf_write_cnt := pos, asc_buf_read := blit (asc_buf_read asc) 0 (block (asc_buf_read asc) (nat i) ?cnt),
    asc_buf_read_cnt := ?cnt\<rparr>"
  consider "i \<le> 0" | "i > 0" "pos + 4 > length bufw" | "i > 0" "pos + 4 \<le> length bufw" by linarith
  then show ?thesis
  proof cases
    case 1
    with run(1) assms(2,3) have eq: "read_logged env p (ev, w, srv, k, u) = Some (1, ev, w1,
        srv\<lparr>as_objs := (as_objs srv)(p \<mapsto> asc\<lparr>asc_buf_write := bufw, asc_buf_write_cnt := pos\<rparr>), as_current := None\<rparr>, k, u1)"
      by (simp add: read_logged_def Let_def)
    show ?thesis by (intro exI conjI, rule eq) (simp_all add: assms(4))
  next
    case 2
    with run(1,2) assms(2,3) have eq: "read_logged env p (ev, w, srv, k, u) = Some (1, ev, fail_errno ENOBUFS w1,
        srv\<lparr>as_objs := (as_objs srv)(p \<mapsto> ?asc2), as_current := None\<rparr>, k, u1)"
      by (simp add: read_logged_def Let_def)
    show ?thesis by (intro exI conjI, rule eq) (simp_all add: assms(4))
  next
    case 3
    then obtain v where v: "ret = Some v" using run(5) by auto
    obtain r ev3 w3 where reg: "event_register_io_write ev (asc_fd asc) F_WRITE 0 w1 = Some (r, ev3, w3)" "ev_safe ev3"
      using register_write_safe [OF assms(4,5,6)] by blast
    let ?asc3 = "?asc2\<lparr>asc_buf_write := blit bufw pos (image (C32 (htonl v))), asc_buf_write_cnt := pos + 4\<rparr>"
    have eq: "read_logged env p (ev, w, srv, k, u) = Some (0, ev3, w3, srv\<lparr>as_objs := (as_objs srv)(p \<mapsto> ?asc3), as_current := None\<rparr>, k, u1)"
      using 3 run(1,2) assms(2,3,5) v reg(1) by (auto simp: read_logged_def Let_def)
    have safe3: "client_safe ?asc3"
      using 3 run(2,3,4) assms(7,9) by (auto simp: client_safe_def block_def)
    show ?thesis by (intro exI conjI, rule eq) (use reg(2) safe3 in simp_all)
  qed
qed

lemma read_process_safe:
  assumes "program_ok env ai" "as_interface srv = Some ai" "as_objs srv p = Some asc" "ev_safe ev"
    and "0 \<le> asc_fd asc" "asc_fd asc < FD_SETSIZE" "length (asc_buf_read asc) = ASC_BUFSIZE" "length (asc_buf_write asc) = ASC_BUFSIZE"
    and "asc_buf_read_cnt asc \<le> ASC_BUFSIZE" "asc_buf_write_cnt asc \<le> ASC_BUFSIZE"
  shows "\<exists>r ev' w' asc' u'. read_process env p (ev, w, srv, k, u) =
      Some (r, ev', w', srv\<lparr>as_objs := (as_objs srv)(p \<mapsto> asc'), as_current := None\<rparr>, k, u')
    \<and> ev_safe ev' \<and> asc_fd asc' = asc_fd asc \<and> (r = 0 \<longrightarrow> client_safe asc')"
proof -
  let ?log = "srv\<lparr>as_objs := (as_objs srv)(p \<mapsto> asc\<lparr>asc_state := ASCS_LOGGED\<rparr>)\<rparr>"
  from read_logged_safe [of env ai ?log p "asc\<lparr>asc_state := ASCS_LOGGED\<rparr>" ev w k u] assms
  have "\<exists>r ev' w' asc' u'. read_logged env p (ev, w, ?log, k, u) =
      Some (r, ev', w', srv\<lparr>as_objs := (as_objs srv)(p \<mapsto> asc'), as_current := None\<rparr>, k, u')
    \<and> ev_safe ev' \<and> asc_fd asc' = asc_fd asc \<and> (r = 0 \<longrightarrow> client_safe asc')" by simp
  then show ?thesis using read_process_call [OF refl assms(3), of env ev w k u] by simp
qed

text \<open>The handler is called with a descriptor in order.\<close>

lemma appserver_read_safe:
  assumes "srv_safe ai s" "program_ok env ai" "kernel_ok kern" "0 \<le> fd" "fd < FD_SETSIZE"
  shows "\<exists>r s'. appserver_read kern env fd s = Some (r, s') \<and> srv_safe ai s'"
proof -
  obtain ev w srv k u where s: "s = (ev, w, srv, k, u)" by (cases s) auto
  have safe: "ev_safe ev" "as_interface srv = Some ai" "as_current srv = None" "distinct (as_clients srv)"
    "\<forall>p \<in> set (as_clients srv). (\<exists>asc. as_objs srv p = Some asc \<and> client_safe asc)"
    using assms(1) by (auto simp: s srv_safe_def)
  have drop: "\<exists>ev' k'. appserver_client_remove kern p (ev1, w1, srv1, k1, u1) = Some (0, ev', w1,
      srv1\<lparr>as_clients := remove1 p (as_clients srv1), as_objs := (as_objs srv1)(p := None)\<rparr>, k', u1)
    \<and> srv_safe ai (ev', w1, srv1\<lparr>as_clients := remove1 p (as_clients srv1), as_objs := (as_objs srv1)(p := None)\<rparr>, k', u1)"
    if "ev_safe ev1" "as_objs srv1 p = Some a" "as_interface srv1 = Some ai" "as_current srv1 = None" "as_clients srv1 = as_clients srv"
      "\<forall>q. q \<noteq> p \<longrightarrow> as_objs srv1 q = as_objs srv q" for ev1 w1 srv1 k1 u1 p a
  proof -
    note now = that
    obtain ev' k' where r: "appserver_client_remove kern p (ev1, w1, srv1, k1, u1) = Some (0, ev', w1,
        srv1\<lparr>as_clients := remove1 p (as_clients srv1), as_objs := (as_objs srv1)(p := None)\<rparr>, k', u1)" "ev_safe ev'"
      using appserver_client_remove_safe [OF now(1,2), of kern w1 k1 u1] by blast
    have "srv_safe ai (ev', w1, srv1\<lparr>as_clients := remove1 p (as_clients srv1), as_objs := (as_objs srv1)(p := None)\<rparr>, k', u1)"
      using now safe(4,5) by (intro dropped_safe [OF r(2)]) auto
    with r(1) show ?thesis by blast
  qed
  from safe(5) obtain found where found: "find_client (as_clients srv) (as_objs srv) fd = Some found"
    "\<forall>p. found = Some p \<longrightarrow> p \<in> set (as_clients srv) \<and> asc_fd (the (as_objs srv p)) = fd"
    using find_client_safe [of "as_clients srv" "as_objs srv" fd] by force
  show ?thesis
  proof (cases found)
    case None
    with found assms(1) show ?thesis by (simp add: appserver_read_def s)
  next
    case (Some p)
    with found safe(5) obtain asc where asc: "p \<in> set (as_clients srv)" "as_objs srv p = Some asc" "asc_fd asc = fd" "client_safe asc"
      by force
    let ?n = "length (asc_buf_read asc) - asc_buf_read_cnt asc"
    obtain res k1 where res: "k_read kern fd ?n k = (res, k1)" by fastforce
    have room: "asc_buf_read_cnt asc < length (asc_buf_read asc)" using asc(4) by (simp add: client_safe_def)
    show ?thesis
    proof (cases res)
      case (Inl e)
      with drop [of ev srv p asc "fail_errno e (w\<lparr>errno := e\<rparr>)" k1 u] safe asc(2) found Some asc(3) res room show ?thesis
        by (auto simp: appserver_read_def read_error_def s)
    next
      case (Inr bs)
      show ?thesis
      proof (cases "bs = []")
        case True
        with drop [of ev srv p asc w k1 u] safe asc(2) found Some asc(3) res room Inr show ?thesis
          by (auto simp: appserver_read_def read_eof_def s)
      next
        case False
        have fits: "asc_buf_read_cnt asc + length bs \<le> ASC_BUFSIZE"
        proof -
          have "length bs \<le> ?n" using assms(3) res Inr unfolding kernel_ok_def by blast
          then show ?thesis using asc(4) by (auto simp: client_safe_def)
        qed
        let ?asc = "asc\<lparr>asc_buf_read := blit (asc_buf_read asc) (asc_buf_read_cnt asc) bs, asc_buf_read_cnt := asc_buf_read_cnt asc + length bs\<rparr>"
        let ?srv = "srv\<lparr>as_objs := (as_objs srv)(p \<mapsto> ?asc)\<rparr>"
        have wrote: "write_block (asc_buf_read asc) (asc_buf_read_cnt asc) bs = Some (blit (asc_buf_read asc) (asc_buf_read_cnt asc) bs)"
          using fits asc(4) by (simp add: write_block_def client_safe_def)
        have "\<exists>r ev' w' asc' u'. read_process env p (ev, w, ?srv, k1, u) =
            Some (r, ev', w', ?srv\<lparr>as_objs := (as_objs ?srv)(p \<mapsto> asc'), as_current := None\<rparr>, k1, u')
          \<and> ev_safe ev' \<and> asc_fd asc' = asc_fd ?asc \<and> (r = 0 \<longrightarrow> client_safe asc')"
          using assms(2,4,5) safe(1,2) asc(3,4) fits by (intro read_process_safe) (auto simp: client_safe_def)
        then obtain r ev' w' asc' u' where run: "read_process env p (ev, w, ?srv, k1, u) =
            Some (r, ev', w', srv\<lparr>as_objs := (as_objs srv)(p \<mapsto> asc'), as_current := None\<rparr>, k1, u')" "ev_safe ev'"
          "r = 0 \<Longrightarrow> client_safe asc'" by auto
        let ?srv' = "srv\<lparr>as_objs := (as_objs srv)(p \<mapsto> asc'), as_current := None\<rparr>"
        have step: "appserver_read kern env fd s = (if r \<noteq> 0 then do { (_, s3) \<leftarrow> appserver_client_remove kern p (ev', w', ?srv', k1, u'); Some (1, s3) }
            else Some (0, ev', w', ?srv', k1, u'))"
          using found Some asc(2,3) res Inr False room wrote run(1) by (simp add: appserver_read_def s Let_def)
        show ?thesis
        proof (cases "r = 0")
          case True
          with run(2,3) safe asc(1) have "srv_safe ai (ev', w', ?srv', k1, u')" by (auto simp: srv_safe_def)
          with step True show ?thesis by simp
        next
          case False
          with drop [of ev' ?srv' p asc' w' k1 u'] run(2) safe(2) step show ?thesis by auto
        qed
      qed
    qed
  qed
qed

text \<open>
  Accepting is undefined only when \<open>accept\<close> returns a descriptor that does not fit into an \<open>fd_set\<close>, which the code does
  not check, and then whenever the client and its entry can be allocated.
\<close>

lemma register_read_None: "event_register_io_read ev fd f d w = None \<Longrightarrow> fd < 0 \<or> FD_SETSIZE \<le> fd"
  by (auto simp: event_register_io_read_def split: if_splits prod.splits bool.splits)

lemma appserverclient_new_fields:
  "appserverclient_new kern junk fd addr port (w, k) = (Some asc, w', k') \<Longrightarrow> asc_fd asc = fd \<and> client_safe asc"
  by (auto simp: appserverclient_new_def client_init_def client_safe_def ASC_BUFSIZE_def split: bool.splits prod.splits)

lemma appserver_accept_None:
  assumes "kernel_ok kern" "appserver_accept kern junk p fd (ev, w, srv, k, u) = None"
  shows "\<exists>new addr port k1. k_accept kern fd k = (Inr (new, addr, port), k1) \<and> FD_SETSIZE \<le> new"
proof -
  obtain res k1 where res: "k_accept kern fd k = (res, k1)" by fastforce
  with assms(2) obtain new addr port where v: "res = Inr (new, addr, port)"
    by (cases res) (auto simp: appserver_accept_def split: prod.splits)
  obtain oa w2 k2 where oa: "appserverclient_new kern junk new (htonl addr) (htons port) (w, k1) = (oa, w2, k2)" by (metis prod_cases3)
  with assms(2) res v obtain asc where asc: "oa = Some asc" by (cases oa) (auto simp: appserver_accept_def)
  obtain ps w3 where ps: "append_ptr (as_clients srv) p w2 = (ps, w3)" by fastforce
  have "asc_fd asc = new" using appserverclient_new_fields [OF oa [unfolded asc]] by simp
  with assms(2) res v oa asc ps have "event_register_io_read ev new F_READ 0 w3 = None"
    by (cases "event_register_io_read ev new F_READ 0 w3") (auto simp: appserver_accept_def appserver_client_add_def)
  from register_read_None [OF this] assms(1) res v have "FD_SETSIZE \<le> new" unfolding kernel_ok_def by fastforce
  with res v show ?thesis by blast
qed

lemma appserver_accept_high:
  assumes "plenty w" "k_accept kern fd k = (Inr (new, addr, port), k1)" "FD_SETSIZE \<le> new"
  shows "appserver_accept kern junk p fd (ev, w, srv, k, u) = None"
proof -
  obtain w1 where w1: "object_new 131152 w = (True, w1)" "plenty w1" using object_new_ok [OF assms(1), of 131152] by auto
  obtain r2 k2 where "common_socket_set_nodelay kern new True k1 = (r2, k2)" by fastforce
  with w1(1) obtain asc where oa: "appserverclient_new kern junk new (htonl addr) (htons port) (w, k1) = (Some asc, w1, k2)"
    by (simp add: appserverclient_new_def)
  have fd: "asc_fd asc = new" using appserverclient_new_fields [OF oa] by simp
  obtain w2 where w2: "append_ptr (as_clients srv) p w1 = (as_clients srv @ [p], w2)" "plenty w2"
    using append_ptr_plenty [OF w1(2)] by blast
  obtain w3 where w3: "object_new 24 w2 = (True, w3)" using object_new_ok [OF w2(2), of 24] by auto
  from w3 assms(3) have "event_register_io_read ev new F_READ 0 w2 = None" by (simp add: event_register_io_read_def)
  with assms(2) oa fd w2(1) show ?thesis by (simp add: appserver_accept_def appserver_client_add_def)
qed

lemma appserver_accept_safe:
  assumes "srv_safe ai (ev, w, srv, k, u)" "as_objs srv p = None"
    and "appserver_accept kern junk p fd (ev, w, srv, k, u) = Some (r, s')"
  shows "srv_safe ai s'"
proof -
  have safe: "ev_safe ev" "as_interface srv = Some ai" "as_current srv = None" "distinct (as_clients srv)"
    "\<forall>p \<in> set (as_clients srv). (\<exists>asc. as_objs srv p = Some asc \<and> client_safe asc)"
    using assms(1) by (auto simp: srv_safe_def)
  obtain res k1 where res: "k_accept kern fd k = (res, k1)" by fastforce
  show ?thesis
  proof (cases res)
    case (Inl e)
    with res safe assms(3) show ?thesis by (auto simp: appserver_accept_def srv_safe_def split: prod.splits)
  next
    case (Inr v)
    then obtain new addr port where v: "res = Inr (new, addr, port)" by (cases v) auto
    obtain oa w2 k2 where oa: "appserverclient_new kern junk new (htonl addr) (htons port) (w, k1) = (oa, w2, k2)" by (metis prod_cases3)
    show ?thesis
    proof (cases oa)
      case None
      with res v oa safe assms(3) show ?thesis by (auto simp: appserver_accept_def srv_safe_def)
    next
      case (Some asc)
      then have asc: "asc_fd asc = new" "client_safe asc" using appserverclient_new_fields [OF oa [unfolded Some]] by simp_all
      obtain ps w3 where ps: "append_ptr (as_clients srv) p w2 = (ps, w3)" "ps = as_clients srv @ [p] \<or> ps = as_clients srv"
        using append_ptr_cases [of "as_clients srv" p w2] by auto
      from res v oa Some ps(1) asc(1) assms(3) obtain r4 ev4 w4 where
        reg: "event_register_io_read ev new F_READ 0 w3 = Some (r4, ev4, w4)"
        and s': "s' = (ev4, w4, srv\<lparr>as_clients := ps, as_objs := (as_objs srv)(p \<mapsto> asc)\<rparr>, k2, u)"
        by (auto simp: appserver_accept_def appserver_client_add_def Option.bind_eq_Some_conv)
      have "p \<notin> set (as_clients srv)" using safe(5) assms(2) by auto
      with safe asc(2) ps(2) register_read_range [OF reg safe(1)] show ?thesis unfolding s' by (intro srv_safeI) auto
    qed
  qed
qed

text \<open>Writing stays in order when it is defined.\<close>

lemma appserver_write_safe:
  assumes "srv_safe ai s" "kernel_ok kern" "appserver_write kern fd s = Some (r, s')"
  shows "srv_safe ai s'"
proof -
  obtain ev w srv k u where s: "s = (ev, w, srv, k, u)" by (cases s) auto
  have safe: "ev_safe ev" "as_interface srv = Some ai" "as_current srv = None" "distinct (as_clients srv)"
    "\<forall>p \<in> set (as_clients srv). (\<exists>asc. as_objs srv p = Some asc \<and> client_safe asc)"
    using assms(1) by (auto simp: s srv_safe_def)
  have put: "srv_safe ai (ev, w1, srv\<lparr>as_objs := (as_objs srv)(p \<mapsto> a)\<rparr>, k1, u)" if "client_safe a" for w1 p a k1
    using safe that by (auto simp: srv_safe_def)
  from assms(3) obtain found where found: "find_client (as_clients srv) (as_objs srv) fd = Some found"
    by (auto simp: appserver_write_def s Option.bind_eq_Some_conv split: if_splits)
  show ?thesis
  proof (cases found)
    case None
    with assms(1,3) found show ?thesis by (auto simp: appserver_write_def s split: if_splits)
  next
    case (Some p)
    with found safe(5) find_client_safe [of "as_clients srv" "as_objs srv" fd] obtain asc where
      asc: "as_objs srv p = Some asc" "client_safe asc" by fastforce
    obtain res k1 where res: "k_write kern (asc_fd asc) (take (asc_buf_write_cnt asc) (asc_buf_write asc)) k = (res, k1)" by fastforce
    have closed: "client_safe (asc\<lparr>asc_fd := - 1\<rparr>)" using asc(2) by (simp add: client_safe_def)
    show ?thesis
    proof (cases res)
      case (Inl e)
      with assms(3) found Some asc(1) res put [OF closed] show ?thesis
        by (auto simp: appserver_write_def write_error_def s split: if_splits)
    next
      case (Inr n)
      show ?thesis
      proof (cases "n = 0")
        case True
        with assms(3) found Some asc(1) res Inr put [OF closed] show ?thesis
          by (auto simp: appserver_write_def write_error_def s split: if_splits)
      next
        case False
        with assms(3) found Some asc(1) res Inr obtain bs where bs: "read_block (asc_buf_write asc) n n = Some bs"
          "s' = (ev, w, srv\<lparr>as_objs := (as_objs srv)(p \<mapsto> asc\<lparr>asc_buf_write := blit (asc_buf_write asc) 0 bs,
             asc_buf_write_cnt := asc_buf_write_cnt asc - n\<rparr>)\<rparr>, k1, u)"
          by (auto simp: appserver_write_def s Option.bind_eq_Some_conv Let_def split: if_splits)
        have "client_safe (asc\<lparr>asc_buf_write := blit (asc_buf_write asc) 0 bs, asc_buf_write_cnt := asc_buf_write_cnt asc - n\<rparr>)"
          using asc(2) bs(1) by (auto simp: client_safe_def read_block_def block_def split: if_splits)
        with put bs(2) show ?thesis by simp
      qed
    qed
  qed
qed

section \<open>Every state of a server\<close>

lemma call_typed_func [simp]: "call_typed (c\<lparr>ac_func := f\<rparr>) = call_typed c"
  by (simp add: call_typed_def)

lemma lookup_calls_typed:
  "lookup_calls lookup n cs w = (Some cs', w') \<Longrightarrow> \<forall>c \<in> set cs. call_typed c \<Longrightarrow> \<forall>c \<in> set cs'. call_typed c"
  by (induction lookup n cs w arbitrary: cs' w' rule: lookup_calls.induct) (auto split: prod.splits option.splits)

lemma new_server_typed:
  assumes "appinterface_new_server self fopen closing etcdir app w = Some (Some ai, w')"
  shows "interface_typed ai"
proof -
  from assms obtain lookup where self: "self = Some lookup" by (cases self) (auto simp: appinterface_new_server_def)
  with assms obtain i w1 where i: "appinterface_new fopen closing etcdir app w = Some (Some i, w1)"
    "(case lookup_calls lookup (ai_name i) (ai_calls i) w1 of (cs, w2) \<Rightarrow> Some (map_option (\<lambda>cs. i\<lparr>ai_calls := cs\<rparr>) cs, w2))
      = Some (Some ai, w')"
    by (auto simp: appinterface_new_server_def Option.bind_eq_Some_conv split: option.splits)
  then obtain cs where load: "appinterface_new fopen closing etcdir app w = Some (Some i, w1)"
    "lookup_calls lookup (ai_name i) (ai_calls i) w1 = (Some cs, w')" "ai = i\<lparr>ai_calls := cs\<rparr>"
    by (cases "lookup_calls lookup (ai_name i) (ai_calls i) w1") auto
  from loaded_typed [OF load(1)] have "interface_typed i" by simp
  with lookup_calls_typed [OF load(2)] load(3) show ?thesis by (auto simp: interface_typed_def)
qed

text \<open>
  The states of a server with the interface \<open>ai\<close>: it is created, and the event loop calls its handlers for any descriptors, in
  any order, and unregisters them. A new client gets any address that has no client.
\<close>

inductive server_run ::
  "'k kernel \<Rightarrow> (nat \<Rightarrow> char) \<Rightarrow> 'u server_env \<Rightarrow> (string \<Rightarrow> world \<Rightarrow> (AppInterface option \<times> world) option) \<Rightarrow> AppInterface
     \<Rightarrow> ('k, 'u) srv \<Rightarrow> bool" for kern junk env loader ai where
  start: "appserver_new kern loader app options (w, k) = Some (Some (srv, ev), w', k') \<Longrightarrow> as_interface srv = Some ai \<Longrightarrow>
    server_run kern junk env loader ai (ev, w', srv, k', u)"
| accept: "server_run kern junk env loader ai (ev, w, srv, k, u) \<Longrightarrow> as_objs srv p = None \<Longrightarrow>
    appserver_accept kern junk p fd (ev, w, srv, k, u) = Some (r, s') \<Longrightarrow>
    server_run kern junk env loader ai s'"
| receive: "server_run kern junk env loader ai s \<Longrightarrow> 0 \<le> fd \<Longrightarrow> fd < FD_SETSIZE \<Longrightarrow> appserver_read kern env fd s = Some (r, s') \<Longrightarrow>
    server_run kern junk env loader ai s'"
| send: "server_run kern junk env loader ai s \<Longrightarrow> appserver_write kern fd s = Some (r, s') \<Longrightarrow>
    server_run kern junk env loader ai s'"
| done_reading: "server_run kern junk env loader ai (ev, w, srv, k, u) \<Longrightarrow> event_unregister_io_read ev fd = Some (r, ev') \<Longrightarrow>
    server_run kern junk env loader ai (ev', w, srv, k, u)"
| done_writing: "server_run kern junk env loader ai (ev, w, srv, k, u) \<Longrightarrow> event_unregister_io_write ev fd = Some (r, ev') \<Longrightarrow>
    server_run kern junk env loader ai (ev', w, srv, k, u)"

lemma new_server_safe:
  assumes "new_server kern loader app options (ev, w, srv, k) = Some (0, ev', w', srv', k')" "ev_safe ev"
  shows "ev_safe ev' \<and> (\<exists>ai w w1. loader app w = Some (Some ai, w1) \<and> srv' = srv\<lparr>as_interface := Some ai\<rparr>)"
proof -
  from assms(1) obtain oai w1 where load: "loader app w = Some (oai, w1)" by (auto simp: new_server_def Option.bind_eq_Some_conv)
  with assms(1) obtain i where i: "oai = Some i" by (cases oai) (auto simp: new_server_def)
  obtain rs k1 where sock: "k_socket kern k = (rs, k1)" by fastforce
  with assms(1) load i obtain fd where fd: "rs = Inr fd" by (cases rs) (auto simp: new_server_def)
  let ?addr = "htonl (if options AND ASO_REMOTE \<noteq> 0 then INADDR_ANY else INADDR_LOOPBACK)" and ?port = "htons (word_of_int (appinterface_get_port i))"
  obtain rb k2 where bind: "k_bind kern fd ?addr ?port k1 = (rb, k2)" by fastforce
  with assms(1) load i sock fd have rb: "rb = None" by (cases rb) (auto simp: new_server_def)
  obtain rl k3 where lis: "k_listen kern fd 5 k2 = (rl, k3)" by fastforce
  with assms(1) load i sock fd bind rb have "rl = None" by (cases rl) (auto simp: new_server_def)
  with assms(1) load i sock fd bind rb lis obtain r w4 where
    "event_register_io_read ev fd F_ACCEPT 0 w1 = Some (r, ev', w4)" "srv' = srv\<lparr>as_interface := Some i\<rparr>"
    by (auto simp: new_server_def Option.bind_eq_Some_conv)
  with register_read_range assms(2) load i show ?thesis by blast
qed

lemma appserver_new_safe:
  assumes "appserver_new kern loader app options (w, k) = Some (Some (srv, ev), w', k')" "as_interface srv = Some ai"
  shows "srv_safe ai (ev, w', srv, k', u) \<and> (\<exists>w w1. loader app w = Some (Some ai, w1))"
proof -
  from assms(1) obtain ev0 w1 where 1: "event_new w = Some (Some ev0, w1)"
    "appserver_new_event kern loader app options (ev0, w1, k) = Some (Some srv, ev, w', k')"
    by (auto simp: appserver_new_def Option.bind_eq_Some_conv split: option.splits)
  then obtain w2 where "new_server kern loader app options
      (ev0, w2, \<lparr>as_interface = None, as_clients = [], as_objs = Map.empty, as_current = None\<rparr>, k) = Some (0, ev, w', srv, k')"
    by (auto simp: appserver_new_event_def Option.bind_eq_Some_conv split: prod.splits bool.splits if_splits)
  from new_server_safe [OF this ev_safe_inv [OF ev_inv_new [OF 1(1)]]] obtain i w3 w4 where
    "ev_safe ev" "loader app w3 = Some (Some i, w4)"
    "srv = \<lparr>as_interface = Some i, as_clients = [], as_objs = Map.empty, as_current = None\<rparr>" by auto
  with assms(2) show ?thesis by (auto simp: srv_safe_def)
qed

lemma appserver_new_empty:
  assumes "appserver_new kern loader app options (w, k) = Some (Some (srv, ev), w', k')"
  shows "as_objs srv = Map.empty \<and> as_clients srv = []"
proof -
  from assms obtain ev0 w1 where "event_new w = Some (Some ev0, w1)"
    "appserver_new_event kern loader app options (ev0, w1, k) = Some (Some srv, ev, w', k')"
    by (auto simp: appserver_new_def Option.bind_eq_Some_conv split: option.splits)
  then obtain w2 where "new_server kern loader app options
      (ev0, w2, \<lparr>as_interface = None, as_clients = [], as_objs = Map.empty, as_current = None\<rparr>, k) = Some (0, ev, w', srv, k')"
    and "ev_safe ev0"
    using ev_safe_inv [OF ev_inv_new]
    by (auto simp: appserver_new_event_def Option.bind_eq_Some_conv split: prod.splits bool.splits if_splits)
  from new_server_safe [OF this] show ?thesis by auto
qed

lemma server_run_safe:
  assumes "server_run kern junk env (\<lambda>app. appinterface_new_server self fopen closing etcdir (Some app)) ai s" "kernel_ok kern"
    and "\<forall>c \<in> set (ai_calls ai). call_serves env c"
  shows "program_ok env ai \<and> srv_safe ai s"
  using assms(1)
proof (induction rule: server_run.induct)
  case (start app options w k srv ev w' k' u)
  from appserver_new_safe [OF start, of u] assms(3) new_server_typed show ?case by (auto simp: program_ok_def)
next
  case (accept ev w srv k u p fd r s')
  with appserver_accept_safe [of ai ev w srv k u p kern junk fd r s'] show ?case by auto
next
  case (receive s fd r s')
  with appserver_read_safe [of ai s env kern fd] assms(2) show ?case by auto
next
  case (send s fd r s')
  with appserver_write_safe [OF _ assms(2)] show ?case by blast
next
  case (done_reading ev w srv k u fd r ev')
  with unregister_read_safe [of ev fd] show ?case by (auto simp: srv_safe_def)
next
  case (done_writing ev w srv k u fd r ev')
  with unregister_write_safe [of ev fd] show ?case by (auto simp: srv_safe_def)
qed

text \<open>When the write handler is undefined.\<close>

lemma appserver_write_None:
  assumes "srv_safe ai (ev, w, srv, k, u)"
  shows "appserver_write kern fd (ev, w, srv, k, u) = None \<longleftrightarrow>
    as_clients srv = [] \<or> (\<exists>p asc n k1. find_client (as_clients srv) (as_objs srv) fd = Some (Some p) \<and> as_objs srv p = Some asc
      \<and> k_write kern (asc_fd asc) (take (asc_buf_write_cnt asc) (asc_buf_write asc)) k = (Inr n, k1) \<and> ASC_BUFSIZE < 2 * n)"
proof (cases "as_clients srv = []")
  case False
  have live: "\<forall>p \<in> set (as_clients srv). (\<exists>asc. as_objs srv p = Some asc \<and> client_safe asc)"
    using assms by (auto simp: srv_safe_def)
  then obtain found where found: "find_client (as_clients srv) (as_objs srv) fd = Some found"
    "\<forall>p. found = Some p \<longrightarrow> p \<in> set (as_clients srv) \<and> asc_fd (the (as_objs srv p)) = fd"
    using find_client_safe [of "as_clients srv" "as_objs srv" fd] by force
  show ?thesis
  proof (cases found)
    case (Some p)
    with found(2) live obtain asc where asc: "as_objs srv p = Some asc" "client_safe asc" by force
    obtain res k1 where res: "k_write kern (asc_fd asc) (take (asc_buf_write_cnt asc) (asc_buf_write asc)) k = (res, k1)" by fastforce
    have len: "length (asc_buf_write asc) = ASC_BUFSIZE" using asc(2) by (simp add: client_safe_def)
    show ?thesis
    proof (cases res)
      case (Inl e)
      with False found(1) Some asc(1) res show ?thesis by (simp add: appserver_write_def write_error_def)
    next
      case (Inr n)
      with False found(1) Some asc(1) res len show ?thesis
        by (cases "n = 0") (auto simp: appserver_write_def write_error_def read_block_def Let_def)
    qed
  qed (use False found in \<open>simp add: appserver_write_def\<close>)
qed (simp add: appserver_write_def)

section \<open>Properties\<close>

text \<open>
  C13: in every state that a server can reach, whatever its clients send, whatever addresses they get and whenever an
  allocation fails, the handler for reading is defined: no access outside a buffer or to a freed client, no failed assertion,
  no indeterminate value. The handler for accepting is undefined only if \<open>accept\<close> returned a descriptor that does not fit into
  an \<open>fd_set\<close> (and then always, while memory is available); the handler for writing exactly without clients, or when the
  kernel takes more than half the size of the write buffer at once. (The program has a function for each call; the kernel
  gives descriptors that are not negative, and no more bytes than asked for.)
\<close>

theorem server_safe:
  assumes "server_run kern junk env (\<lambda>app. appinterface_new_server self fopen closing etcdir (Some app)) ai (ev, w, srv, k, u)"
    and "kernel_ok kern" "\<forall>c \<in> set (ai_calls ai). call_serves env c" "0 \<le> fd" "fd < FD_SETSIZE"
  shows "appserver_read kern env fd (ev, w, srv, k, u) \<noteq> None
    \<and> event_unregister_io_read ev fd \<noteq> None \<and> event_unregister_io_write ev fd \<noteq> None
    \<and> (appserver_accept kern junk p fd (ev, w, srv, k, u) = None \<longrightarrow>
        (\<exists>new addr port k1. k_accept kern fd k = (Inr (new, addr, port), k1) \<and> FD_SETSIZE \<le> new))
    \<and> (plenty w \<and> (\<exists>new addr port k1. k_accept kern fd k = (Inr (new, addr, port), k1) \<and> FD_SETSIZE \<le> new) \<longrightarrow>
        appserver_accept kern junk p fd (ev, w, srv, k, u) = None)
    \<and> (appserver_write kern fd (ev, w, srv, k, u) = None \<longleftrightarrow>
      as_clients srv = [] \<or> (\<exists>p asc n k1. find_client (as_clients srv) (as_objs srv) fd = Some (Some p) \<and> as_objs srv p = Some asc
        \<and> k_write kern (asc_fd asc) (take (asc_buf_write_cnt asc) (asc_buf_write asc)) k = (Inr n, k1) \<and> ASC_BUFSIZE < 2 * n))"
proof -
  have safe: "program_ok env ai" "srv_safe ai (ev, w, srv, k, u)" using server_run_safe [OF assms(1-3)] by blast+
  then have "ev_safe ev" by (simp add: srv_safe_def)
  then have "event_unregister_io_read ev fd \<noteq> None" "event_unregister_io_write ev fd \<noteq> None"
    using unregister_read_safe [of ev fd] unregister_write_safe [of ev fd] by auto
  moreover have "appserver_read kern env fd (ev, w, srv, k, u) \<noteq> None"
    using appserver_read_safe [OF safe(2,1) assms(2,4,5)] by auto
  moreover have "\<exists>new addr port k1. k_accept kern fd k = (Inr (new, addr, port), k1) \<and> FD_SETSIZE \<le> new"
    if "appserver_accept kern junk p fd (ev, w, srv, k, u) = None"
    using appserver_accept_None [OF assms(2) that] .
  moreover have "appserver_accept kern junk p fd (ev, w, srv, k, u) = None"
    if "plenty w" "\<exists>new addr port k1. k_accept kern fd k = (Inr (new, addr, port), k1) \<and> FD_SETSIZE \<le> new"
    using that(2) appserver_accept_high [OF that(1), of kern fd k _ _ _ _ junk p ev srv u] by blast
  moreover note appserver_write_None [OF safe(2), of kern fd]
  ultimately show ?thesis by (intro conjI impI) (assumption | elim conjE)+
qed

definition demo_lookup :: "string option \<Rightarrow> nat option" where
  "demo_lookup name = (if name = Some ''Demo_f'' then Some 0 else None)"

definition demo_loader :: "string \<Rightarrow> world \<Rightarrow> (AppInterface option \<times> world) option" where
  "demo_loader app = appinterface_new_server (Some demo_lookup) (\<lambda>_. Inr (in_open demo_text)) None ''/etc'' (Some app)"

lemma demo_loader_loads:
  "case demo_loader ''Demo'' world0 of Some (Some ai, w) \<Rightarrow> ai = demo_interface (Some 0) | _ \<Rightarrow> False"
  by code_simp

lemma demo_starts:
  "\<exists>ev w srv k. appserver_new demo_kernel demo_loader ''Demo'' ASO_LOCAL (world0, ''junk'') = Some (Some (srv, ev), w, k)
     \<and> as_interface srv = Some (demo_interface (Some 0))"
proof -
  obtain w where load: "demo_loader ''Demo'' world0 = Some (Some (demo_interface (Some 0)), w)"
    using demo_loader_loads by (auto split: option.splits)
  have new: "object_new n world0 = (True, world0)" if "0 < n" for n using that by (simp add: object_new_def w_alloc_def)
  then obtain ev where ev: "event_new world0 = Some (Some ev, world0)" by (simp add: event_new_def)
  have "\<exists>r ev' w'. event_register_io_read ev 3 F_ACCEPT 0 w = Some (r, ev', w')"
    using register_read_safe [OF ev_safe_inv [OF ev_inv_new [OF ev]], of 3 F_ACCEPT 0 w] by (auto simp: FD_SETSIZE_def)
  with load ev new show ?thesis
    by (auto simp: appserver_new_def appserver_new_event_def new_server_def demo_kernel_def)
qed

lemma demo_serves: "\<forall>c \<in> set (ai_calls (demo_interface (Some 0))). call_serves demo_server_env c"
  by (auto simp: demo_interface_def demo_call_def demo_arg_def call_serves_def demo_server_env_def given_back_def list_all2_Cons1)

lemma demo_kernel_ok: "kernel_ok demo_kernel"
  by (auto simp: kernel_ok_def demo_kernel_def FD_SETSIZE_def)

text \<open>A server that was started and has accepted a client, which sends \<open>junk\<close>.\<close>

theorem server_safe_witness:
  "\<exists>ev w srv k. appserver_new demo_kernel demo_loader ''Demo'' ASO_LOCAL (world0, ''junk'') = Some (Some (srv, ev), w, k)
     \<and> (\<exists>r s'. appserver_accept demo_kernel (\<lambda>i. NUL) 1 3 (ev, w, srv, k, 0) = Some (r, s') \<and> appserver_read demo_kernel demo_server_env 5 s' \<noteq> None)"
proof -
  let ?junk = "\<lambda>i :: nat. NUL"
  let ?run = "server_run demo_kernel ?junk demo_server_env
    (\<lambda>app. appinterface_new_server (Some demo_lookup) (\<lambda>_. Inr (in_open demo_text)) None ''/etc'' (Some app)) (demo_interface (Some 0))"
  obtain ev w srv k where new: "appserver_new demo_kernel demo_loader ''Demo'' ASO_LOCAL (world0, ''junk'') = Some (Some (srv, ev), w, k)"
    "as_interface srv = Some (demo_interface (Some 0))"
    using demo_starts by blast
  have start: "?run (ev, w, srv, k, 0)" using server_run.start [OF new(1) [unfolded demo_loader_def] new(2)] .
  have empty: "as_objs srv 1 = None"
    using appserver_new_empty [OF new(1)] by simp
  have fds: "(0 :: int) \<le> 3" "3 < FD_SETSIZE" "(0 :: int) \<le> 5" "5 < FD_SETSIZE" by (simp_all add: FD_SETSIZE_def)
  have "appserver_accept demo_kernel ?junk 1 3 (ev, w, srv, k, 0 :: nat) \<noteq> None"
    using server_safe [OF start demo_kernel_ok demo_serves fds(1,2), of 1] by (auto simp: demo_kernel_def FD_SETSIZE_def)
  then obtain r s' where acc: "appserver_accept demo_kernel ?junk 1 3 (ev, w, srv, k, 0 :: nat) = Some (r, s')" by force
  obtain ev1 w1 srv1 k1 u1 where s': "s' = (ev1, w1, srv1, k1, u1)" by (cases s') auto
  have "?run (ev1, w1, srv1, k1, u1)" using server_run.accept [OF start _ acc] empty by (simp add: s')
  from server_safe [OF this demo_kernel_ok demo_serves fds(3,4), of 1] new(1) acc s' show ?thesis by blast
qed

text \<open>
  C39: after a partial write of \<open>n\<close> bytes, \<open>n\<close> bytes are moved to the start of the write buffer instead of those that are left.
  What follows is right only if at most \<open>n\<close> bytes are left; else some bytes are sent twice and the last ones never. Taking
  more than half of the buffer at once makes the handler read behind it.
\<close>

theorem appserver_write_short:
  assumes "find_client (as_clients srv) (as_objs srv) fd = Some (Some p)" "as_objs srv p = Some asc"
    and "length (asc_buf_write asc) = ASC_BUFSIZE" "asc_buf_write_cnt asc \<le> ASC_BUFSIZE"
    and "k_write kern (asc_fd asc) (take (asc_buf_write_cnt asc) (asc_buf_write asc)) k = (Inr n, k1)"
    and "0 < n" "n \<le> asc_buf_write_cnt asc"
  defines "left \<equiv> drop n (take (asc_buf_write_cnt asc) (asc_buf_write asc))"
  shows "if ASC_BUFSIZE < 2 * n then appserver_write kern fd (ev, w, srv, k, u) = None
    else \<exists>asc'. appserver_write kern fd (ev, w, srv, k, u) =
        Some (if left = [] then 1 else 0, ev, w, srv\<lparr>as_objs := (as_objs srv)(p \<mapsto> asc')\<rparr>, k1, u)
      \<and> take (asc_buf_write_cnt asc') (asc_buf_write asc')
        = (if length left \<le> n then left else take n left @ take (length left - n) left)"
proof -
  let ?cnt = "asc_buf_write_cnt asc" and ?buf = "asc_buf_write asc"
  have some: "as_clients srv \<noteq> []" using assms(1) by auto
  have left: "length left = ?cnt - n" using assms(3,4) by (simp add: left_def)
  then have empty: "left = [] \<longleftrightarrow> ?cnt = n" using assms(7) by (auto simp flip: length_0_conv)
  show ?thesis
  proof (cases "ASC_BUFSIZE < 2 * n")
    case True
    with some assms(1,2,3,5,6) show ?thesis by (simp add: appserver_write_def read_block_def)
  next
    case False
    let ?asc = "asc\<lparr>asc_buf_write := blit ?buf 0 (block ?buf n n), asc_buf_write_cnt := ?cnt - n\<rparr>"
    have eq: "appserver_write kern fd (ev, w, srv, k, u) =
        Some (if left = [] then 1 else 0, ev, w, srv\<lparr>as_objs := (as_objs srv)(p \<mapsto> ?asc)\<rparr>, k1, u)"
      using False some assms(1,2,3,5,6,7) by (simp add: empty appserver_write_def read_block_def Let_def)
    have rest: "take (?cnt - n) (blit ?buf 0 (block ?buf n n)) = (if length left \<le> n then left else take n left @ take (length left - n) left)"
    proof -
      have len: "length (block ?buf n n) = n" using False assms(3) by (simp add: block_def)
      have "take (?cnt - n) (block ?buf n n @ drop n ?buf) = take (?cnt - n) (block ?buf n n) @ take (?cnt - n - n) (drop n ?buf)"
        using len by simp
      then show ?thesis using assms(7) len left by (auto simp: blit_def left_def block_def drop_take min_def)
    qed
    show ?thesis unfolding if_not_P [OF False] by (intro exI conjI, rule eq) (use rest in simp)
  qed
qed

theorem appserver_write_short_witness:
  "\<exists>asc'. appserver_write (demo_kernel\<lparr>k_write := \<lambda>fd bs k. (Inr 1, k)\<rparr>) 5
      (event_one_reader, world0, demo_server\<lparr>as_objs := [1 \<mapsto> demo_client\<lparr>asc_buf_write := ''abcd'' @ replicate (ASC_BUFSIZE - 4) NUL,
        asc_buf_write_cnt := 4\<rparr>]\<rparr>, [], 0)
      = Some (0, event_one_reader, world0, demo_server\<lparr>as_objs := [1 \<mapsto> asc']\<rparr>, [], 0)
    \<and> take (asc_buf_write_cnt asc') (asc_buf_write asc') = ''bbc''"
proof -
  let ?asc = "demo_client\<lparr>asc_buf_write := ''abcd'' @ replicate (ASC_BUFSIZE - 4) NUL, asc_buf_write_cnt := 4\<rparr>"
  let ?srv = "demo_server\<lparr>as_objs := [1 \<mapsto> ?asc]\<rparr>" and ?kern = "demo_kernel\<lparr>k_write := \<lambda>fd bs k. (Inr 1, k)\<rparr>"
  have find: "find_client (as_clients ?srv) (as_objs ?srv) 5 = Some (Some 1)" "as_objs ?srv 1 = Some ?asc"
    by (simp_all add: demo_server_def demo_client_ok)
  have size: "4 \<le> ASC_BUFSIZE" "\<not> ASC_BUFSIZE < 2 * 1" by (simp_all add: ASC_BUFSIZE_def)
  have "length (asc_buf_write ?asc) = ASC_BUFSIZE" "asc_buf_write_cnt ?asc \<le> ASC_BUFSIZE" "(0 :: nat) < 1" "1 \<le> asc_buf_write_cnt ?asc"
    "k_write ?kern (asc_fd ?asc) (take (asc_buf_write_cnt ?asc) (asc_buf_write ?asc)) [] = (Inr 1, [])"
    using size by simp_all
  from appserver_write_short [OF find this(1,2,5,3,4), of event_one_reader world0 0] size(2) show ?thesis
    by (simp add: fun_upd_idem_iff demo_server_def)
qed

end
