(* ===== verification/App_Pieces.thy ===== *)
theory App_Pieces
  imports App_Safe
begin

text \<open>
  A call that reaches the server in more than one piece: what \<open>appinterface_receive\<close> makes of a part of a call, and
  what the server then does with the client.
\<close>

section \<open>A part of an argument\<close>

lemma read_bytes_cut: "m < n \<Longrightarrow> length bs = n \<Longrightarrow> \<exists>w'. read_bytes n (pre @ take m bs) (length pre) w = (- 1, [], length pre, w')"
  by (simp add: read_bytes_def)

lemma read_slot_cut:
  "m < n \<Longrightarrow> length bs = n \<Longrightarrow> fst (read_slot n f (pre @ take m bs) (length pre) w) = None"
  "0 < n \<Longrightarrow> fst (read_slot n f pre (length pre) w) = None"
  by (simp_all add: read_slot.simps read_bytes_def)

lemma ex_None: "(\<exists>p w'. x = (None, p, w')) \<longleftrightarrow> fst x = None"
  by (cases x) auto

lemma read_string_cut:
  assumes "NUL \<notin> set s" "m \<le> length s"
  shows "\<exists>p w'. read_string (pre @ take m (s @ [NUL])) (length pre) w = (None, p, w')"
proof -
  have all: "takeWhile (\<lambda>c. c \<noteq> NUL) (take m s) = take m s"
    by (rule takeWhile_eq_all_conv [THEN iffD2]) (use assms(1) in \<open>auto dest: in_set_takeD\<close>)
  show ?thesis using assms(2) by (simp add: read_string_def Let_def all)
qed

lemma pre_exec_buffer_cut:
  assumes "buffer_wf b" "buf_size b < 2 ^ 32"
  defines "bs \<equiv> image (C32 (htonl (word_of_nat (buf_size b)))) @ buf_data b"
  assumes "m < length bs"
  shows "\<exists>p w'. pre_exec_buffer (pre @ take m bs) (length pre) w = Some (None, p, w')"
proof -
  let ?n = "buf_size b" and ?h = "image (C32 (htonl (word_of_nat (buf_size b))))"
  have len: "length (buf_data b) = ?n" using assms(1) by (simp add: buffer_wf_def)
  show ?thesis
  proof (cases "m < 4")
    case True
    then have "take m bs = take m ?h" by (simp add: bs_def)
    with read_bytes_cut [OF True, of ?h pre w] show ?thesis by (auto simp: pre_exec_buffer_def)
  next
    case False
    then have bs: "take m bs = ?h @ take (m - 4) (buf_data b)" by (simp add: bs_def)
    have h: "read_bytes 4 (pre @ take m bs) (length pre) w = (0, ?h, length pre + 4, w)"
      using read_bytes_at [of ?h 4 pre "take (m - 4) (buf_data b)" w] by (simp add: bs)
    obtain ob w2 where ob: "buffer_new ?n None w = Some (ob, w2)" using buffer_new_total by blast
    have "m - 4 < ?n" using assms(4) False len by (simp add: bs_def)
    from read_bytes_cut [OF this len, of "pre @ ?h" w2] obtain w3 where
      "read_bytes ?n (pre @ take m bs) (length pre + 4) w2 = (- 1, [], length pre + 4, w3)" by (auto simp: bs)
    with h ob size_read [OF assms(2)] show ?thesis by (cases ob) (simp_all add: pre_exec_buffer_def Let_def)
  qed
qed

lemma arrives_cut:
  assumes "arrives dtof cs (aa_type a) x s" "aa_size a = aict_size (aa_type a)" "aa_direction a = AICD_IN"
    and "call_arg dtof a (x # va) cs = Some (ds, None, va)" "m < length (concat ds)"
  shows "\<exists>p w'. pre_exec_in a (pre @ take m (concat ds)) (length pre) w = Some (None, p, w')"
  using assms(1)
proof cases
  case (bits8 i)
  with assms(2-5) show ?thesis by (auto simp: call_arg_def pre_exec_in_def ex_None read_slot_cut)
next
  case (bits16 i)
  with assms(2-5) show ?thesis by (auto simp: call_arg_def pre_exec_in_def ex_None read_slot_cut)
next
  case (bits32 i)
  with assms(2-5) show ?thesis by (auto simp: call_arg_def pre_exec_in_def ex_None read_slot_cut)
next
  case (real d)
  with assms(2-5) show ?thesis
    by (auto simp: call_arg_def pre_exec_in_def ex_None read_slot_cut split: prod.split bool.split)
next
  case (chars t)
  with assms(3-5) have "concat ds = t @ [NUL]" "m \<le> length t" by (auto simp: call_arg_def)
  with chars read_string_cut [OF chars(4), of m pre w] show ?thesis by (auto simp: pre_exec_in_def)
next
  case (object p b)
  with assms(3,4) obtain blocks where "buffer_blocks b = Some blocks" "ds = blocks"
    by (auto simp: call_arg_def Option.bind_eq_Some_conv split: option.splits cell.splits)
  with buffer_blocks_bytes [OF object(5)] have "concat ds = image (C32 (htonl (word_of_nat (buf_size b)))) @ buf_data b" by auto
  with pre_exec_buffer_cut [OF object(5,6), of m pre w] assms(5) object(1,3) show ?thesis by (simp add: pre_exec_in_def)
qed

section \<open>A part of a call\<close>

text \<open>A part of the arguments is not enough.\<close>

definition cut :: "AppInterfaceCallArg list \<Rightarrow> string \<Rightarrow> bool" where
  "cut as bs \<longleftrightarrow> (\<forall>pre m w. plenty w \<longrightarrow> m < length bs \<longrightarrow>
     (\<exists>ss pos w'. args_pre_exec as (pre @ take m bs) (length pre) w = Some (ss, pos, w') \<and> length ss < length as))"

lemma passed_cut:
  "passed dtof cs as va ss ps \<Longrightarrow> sizes_ok as \<Longrightarrow> wire dtof as va cs = Some (bs, ps) \<Longrightarrow> cut as bs"
proof (induction arbitrary: bs rule: passed.induct)
  case (none va)
  then show ?case by (simp add: cut_def)
next
  case (void a as va ss ps)
  have "call_arg dtof a va cs = Some ([], None, va)"
    using void(1,2) by (cases "aa_direction a") (simp_all add: call_arg_def)
  with void.prems(2) have "wire dtof as va cs = Some (bs, ps)" by (auto simp: Option.bind_eq_Some_conv)
  with void.IH void.prems(1) have IH: "cut as bs" by (simp add: sizes_ok_def)
  have step: "args_pre_exec (a # as) buf pos w =
      do { (ss, pos2, w2) \<leftarrow> args_pre_exec as buf pos w; Some (SUndef # ss, pos2, w2) }" for buf pos w
    using void(1,2) by (cases "aa_direction a") (simp_all add: pre_exec_in_def pre_exec_out_def)
  show ?case unfolding cut_def
  proof (intro allI impI)
    fix pre m w assume "plenty w" "m < length bs"
    with IH obtain ss' pos w' where "args_pre_exec as (pre @ take m bs) (length pre) w = Some (ss', pos, w')" "length ss' < length as"
      unfolding cut_def by blast
    then show "\<exists>ss pos w'. args_pre_exec (a # as) (pre @ take m bs) (length pre) w = Some (ss, pos, w') \<and> length ss < length (a # as)"
      unfolding step by simp
  qed
next
  case (arg a x s as va ss ps)
  have size: "aa_size a = aict_size (aa_type a)" "sizes_ok as" using arg.prems(1) by (auto simp: sizes_ok_def)
  from arrives_wire [OF arg(2) size(1) arg(1), of va] obtain ds where
    ds: "call_arg dtof a (x # va) cs = Some (ds, None, va)" "\<forall>pre rest w. plenty w \<longrightarrow> (\<exists>w'. plenty w'
       \<and> pre_exec_in a (pre @ concat ds @ rest) (length pre) w = Some (Some s, length pre + length (concat ds), w'))" by blast
  with arg.prems(2) obtain bs' where bs': "wire dtof as va cs = Some (bs', ps)" "bs = concat ds @ bs'"
    by (auto simp: Option.bind_eq_Some_conv)
  have IH: "cut as bs'" using arg.IH [OF size(2) bs'(1)] .
  show ?case unfolding cut_def
  proof (intro allI impI)
    fix pre m w assume w: "plenty w" and m: "m < length bs"
    show "\<exists>ss pos w'. args_pre_exec (a # as) (pre @ take m bs) (length pre) w = Some (ss, pos, w') \<and> length ss < length (a # as)"
    proof (cases "m < length (concat ds)")
      case True
      then have "take m bs = take m (concat ds)" by (simp add: bs'(2))
      with arrives_cut [OF arg(2) size(1) arg(1) ds(1) True, of pre w] arg(1) show ?thesis by auto
    next
      case False
      let ?m = "m - length (concat ds)"
      have bs: "take m bs = concat ds @ take ?m bs'" using False by (simp add: bs'(2))
      obtain w1 where w1: "plenty w1" "pre_exec_in a (pre @ concat ds @ take ?m bs') (length pre) w
          = Some (Some s, length pre + length (concat ds), w1)" using ds(2) w by blast
      have "?m < length bs'" using m False by (simp add: bs'(2))
      with IH w1(1) obtain ss' pos w2 where "args_pre_exec as ((pre @ concat ds) @ take ?m bs') (length (pre @ concat ds)) w1
          = Some (ss', pos, w2)" "length ss' < length as" unfolding cut_def by blast
      with w1(2) arg(1) show ?thesis unfolding bs by simp
    qed
  qed
next
  case (result a s as va ss ps p)
  have "aa_type a \<noteq> AICT_VOID" using result(2) by auto
  then have "call_arg dtof a (APointer p # va) cs = Some ([], p, va)"
    using result(1) by (cases "aa_type a") (simp_all add: call_arg_def)
  with result.prems(2) have "wire dtof as va cs = Some (bs, ps)" by (auto simp: Option.bind_eq_Some_conv)
  with result.IH result.prems(1) have IH: "cut as bs" by (simp add: sizes_ok_def)
  show ?case unfolding cut_def
  proof (intro allI impI)
    fix pre m w assume w: "plenty w" and m: "m < length bs"
    obtain w1 where w1: "pre_exec_out a w = Some (Some s, w1)" "plenty w1" using fresh_exec [OF result(2) w] by blast
    with IH m obtain ss' pos w' where "args_pre_exec as (pre @ take m bs) (length pre) w1 = Some (ss', pos, w')" "length ss' < length as"
      unfolding cut_def by blast
    with w1 result(1) show "\<exists>ss pos w'. args_pre_exec (a # as) (pre @ take m bs) (length pre) w = Some (ss, pos, w')
        \<and> length ss < length (a # as)" by simp
  qed
qed

lemma appinterface_receive_cut:
  assumes "get_call_loop (ai_calls ai) name = Some c" "cut (ac_args c) bs" "NUL \<notin> set name" "plenty w"
    and "m < length name + 1 + length bs"
  shows "\<exists>r w'. appinterface_receive env ai ret (take m (name @ [NUL] @ bs)) bufw bufwpos u w = Some (r, ret, bufw, bufwpos, u, w') \<and> r < 0"
proof (cases "m \<le> length name")
  case True
  then have eq: "take m (name @ [NUL] @ bs) = take m (name @ [NUL])" by simp
  obtain p w1 where "read_string (take m (name @ [NUL])) 0 w = (None, p, w1)"
    using read_string_cut [OF assms(3) True, of "[]" w] by auto
  then show ?thesis unfolding eq by (auto simp: appinterface_receive_def error_set_code_def)
next
  case False
  let ?m = "m - length (name @ [NUL])"
  have eq: "take m (name @ [NUL] @ bs) = (name @ [NUL]) @ take ?m bs"
    unfolding append.assoc [symmetric] take_append using False by simp
  obtain w1 where w1: "read_string ((name @ [NUL]) @ take ?m bs) 0 w = (Some name, length name + 1, w1)" "plenty w1"
    using read_string_at [OF assms(3,4), of "[]" "take ?m bs"] by auto
  have get: "appinterface_get_call ai name w1 = (Some c, w1)" using assms(1) by (simp add: appinterface_get_call_def)
  obtain w2 where w2: "w_alloc w1 = (True, w2)" "plenty w2" using w_alloc_plenty [OF w1(2)] by blast
  have "?m < length bs" using assms(5) False by simp
  with assms(2) w2(2) obtain ss pos w3 where "args_pre_exec (ac_args c) ((name @ [NUL]) @ take ?m bs) (length (name @ [NUL])) w2 = Some (ss, pos, w3)"
    "length ss < length (ac_args c)" unfolding cut_def by blast
  then have "receive_args env c ret ((name @ [NUL]) @ take ?m bs) (length name + 1) bufw bufwpos u w1
      = Some (1, ret, pos, bufw, bufwpos, u, post_free (take (length ss) (ac_args c)) w3)"
    using w2(1) by (simp add: receive_args_def args_post_exec_def)
  with w1(1) get show ?thesis unfolding eq by (simp add: appinterface_receive_def)
qed

section \<open>Properties\<close>

text \<open>
  C38: a call that does not arrive in one piece is lost, and so is its client: when the first bytes of a call, but not all of them,
  are read, the server does not wait for the rest. It runs no function, removes the client and closes the
  connection, although nothing was wrong with the call.
\<close>

theorem call_in_pieces:
  assumes typed: "interface_typed ai"
    and server: "as_interface srv = Some ai'" "get_call_loop (ai_calls ai') name = Some c" "as_current srv = None"
    and client: "get_call_loop (ai_calls ai) name = Some c0" "ac_args c = ac_args c0" "NUL \<notin> set name"
      "passed dtof cs (ac_args c0) va ss ps" "appinterface_call dtof ai buf name va cs w0 = Some (n, ps', buf', w1)" "n > 0"
    and conn: "find_client (as_clients srv) (as_objs srv) fd = Some (Some p)" "as_objs srv p = Some asc" "asc_fd asc = fd"
      "client_ok asc" "asc_buf_read_cnt asc = 0" "ev_safe ev" "plenty w"
    and piece: "k_read kern fd ASC_BUFSIZE k = (Inr (take m buf'), k1)" "0 < m" "m < nat n" "m \<le> ASC_BUFSIZE"
  shows "\<exists>ev' w'. appserver_read kern env fd (ev, w, srv, k, u) =
    Some (1, ev', w', srv\<lparr>as_clients := remove1 p (as_clients srv), as_objs := (as_objs srv)(p := None)\<rparr>, k_close kern fd k1, u)"
proof -
  have sizes: "sizes_ok (ac_args c0)"
    using typed_call [OF typed client(1)] by (auto simp: call_typed_def sizes_ok_def arg_typed_def)
  obtain bs where bs: "wire dtof (ac_args c0) va cs = Some (bs, ps)" using passed_wire [OF client(4) sizes] by blast
  have cut: "cut (ac_args c) bs" using passed_cut [OF client(4) sizes bs] client(2) by simp
  from appinterface_call_bytes [OF client(1) bs, of buf w0] client(5,6) have
    sent: "length name + 1 + length bs \<le> length buf" "n = int (length name + 1 + length bs)" "buf' = blit buf 0 (name @ [NUL] @ bs)"
    by (auto split: if_splits)
  define inp where "inp = take m (name @ [NUL] @ bs)"
  have m: "m < length name + 1 + length bs" "length inp = m" using sent(2) piece(3) by (simp_all add: inp_def)
  have whole: "buf' = (name @ [NUL] @ bs) @ drop (length (name @ [NUL] @ bs)) buf" using sent by (simp add: blit_def)
  have front: "take m (xs @ ys) = take m xs" if "m < length xs" for xs ys :: string using that by simp
  have input: "take m buf' = inp" unfolding inp_def by (subst whole, rule front) (use m(1) in simp)
  let ?asc = "asc\<lparr>asc_buf_read := blit (asc_buf_read asc) 0 inp, asc_buf_read_cnt := m\<rparr>"
  let ?srv = "srv\<lparr>as_objs := (as_objs srv)(p \<mapsto> ?asc)\<rparr>"
  let ?log = "?srv\<lparr>as_objs := (as_objs ?srv)(p \<mapsto> ?asc\<lparr>asc_state := ASCS_LOGGED\<rparr>)\<rparr>"
  have size: "length (asc_buf_read asc) = ASC_BUFSIZE" "0 < ASC_BUFSIZE" using conn(4) by (auto simp: client_ok_def ASC_BUFSIZE_def)
  obtain r w2 where run: "appinterface_receive (env (Some p)) ai' None inp (asc_buf_write asc) (asc_buf_write_cnt asc) u w
      = Some (r, None, asc_buf_write asc, asc_buf_write_cnt asc, u, w2)" "r < 0"
    using appinterface_receive_cut [OF server(2) cut client(3) conn(7) m(1), of "env (Some p)" None "asc_buf_write asc" "asc_buf_write_cnt asc" u]
    unfolding inp_def by blast
  have buf: "take m (blit (asc_buf_read asc) 0 inp) = inp" using m(2) by (simp add: blit_def)
  have "read_logged env p (ev, w, ?log, k1, u) = Some (1, ev, w2,
      ?log\<lparr>as_objs := (as_objs ?log)(p \<mapsto> ?asc\<lparr>asc_state := ASCS_LOGGED\<rparr>), as_current := None\<rparr>, k1, u)"
    using server(1) run buf by (simp add: read_logged_def Let_def)
  from read_process_call [OF this] have proc: "read_process env p (ev, w, ?srv, k1, u) = Some (1, ev, w2,
      srv\<lparr>as_objs := (as_objs srv)(p \<mapsto> ?asc\<lparr>asc_state := ASCS_LOGGED\<rparr>), as_current := None\<rparr>, k1, u)" by simp
  let ?srv' = "srv\<lparr>as_objs := (as_objs srv)(p \<mapsto> ?asc\<lparr>asc_state := ASCS_LOGGED\<rparr>), as_current := None\<rparr>"
  obtain ev' where remove: "appserver_client_remove kern p (ev, w2, ?srv', k1, u) = Some (0, ev', w2,
      srv\<lparr>as_clients := remove1 p (as_clients srv), as_objs := (as_objs srv)(p := None), as_current := None\<rparr>, k_close kern fd k1, u)"
    using appserver_client_remove_safe [OF conn(6), of ?srv' p "?asc\<lparr>asc_state := ASCS_LOGGED\<rparr>" kern w2 k1 u] conn(3,4)
    by (auto simp: client_ok_def)
  have same: "srv\<lparr>as_clients := cl, as_objs := ob, as_current := None\<rparr> = srv\<lparr>as_clients := cl, as_objs := ob\<rparr>" for cl ob
    using server(3) by (cases srv) simp
  have wrote: "write_block (asc_buf_read asc) 0 inp = Some (blit (asc_buf_read asc) 0 inp)"
    using m(2) piece(4) size(1) by (simp add: write_block_def)
  have "inp \<noteq> []" using m(2) piece(2) by (auto simp flip: length_greater_0_conv)
  then have "appserver_read kern env fd (ev, w, srv, k, u) =
      do { (_, s3) \<leftarrow> appserver_client_remove kern p (ev, w2, ?srv', k1, u); Some (1, s3) }"
    using proc conn(1,2,3,5) piece(1) input size wrote m(2) by (simp add: appserver_read_def Let_def)
  with remove show ?thesis by (simp add: same)
qed

text \<open>The client of the demonstration writes its call, and the first three bytes arrive.\<close>

theorem call_in_pieces_witness:
  "\<exists>buf ev' w' srv'. appinterface_call (\<lambda>d. 0) (demo_interface None) (replicate 20 NUL) ''f'' [AInt 3, APointer (Some 9)]
        [9 \<mapsto> CString None] world0 = Some (6, [None, Some 9], buf, world0)
   \<and> appserver_read demo_kernel demo_server_env 5 (event_one_reader, world0, demo_server, take 3 buf, 0) = Some (1, ev', w', srv', [], 0)
   \<and> as_clients srv' = []"
proof -
  let ?cs = "[9 \<mapsto> CString None] :: cells" and ?va = "[AInt 3, APointer (Some 9)]"
  have get: "get_call_loop (ai_calls (demo_interface g)) ''f'' = Some (demo_call g)" for g
    by (simp add: demo_interface_def demo_call_def)
  have sizes: "sizes_ok (ac_args (demo_call g))" for g by (simp add: sizes_ok_def demo_call_def demo_arg_def)
  obtain bs where bs: "wire (\<lambda>d. 0) (ac_args (demo_call None)) ?va ?cs = Some (bs, [None, Some 9])"
    using passed_wire [OF demo_passed sizes] by blast
  then have "length bs = 4" by (auto simp: demo_call_def demo_arg_def call_arg_def)
  with appinterface_call_bytes [OF get bs, of "replicate 20 NUL" world0] obtain buf where
    call: "appinterface_call (\<lambda>d. 0) (demo_interface None) (replicate 20 NUL) ''f'' ?va ?cs world0
      = Some (6, [None, Some 9], buf, world0)" "length buf = 20" by auto
  have kern: "k_read demo_kernel 5 ASC_BUFSIZE (take 3 buf) = (Inr (take 3 buf), [])"
    by (simp add: demo_kernel_def ASC_BUFSIZE_def)
  have ev: "ev_safe event_one_reader" by (simp add: ev_safe_def event_one_reader_def fd_of_def)
  have "\<exists>ev' w'. appserver_read demo_kernel demo_server_env 5 (event_one_reader, world0, demo_server, take 3 buf, 0) = Some (1, ev', w',
      demo_server\<lparr>as_clients := remove1 1 (as_clients demo_server), as_objs := (as_objs demo_server)(1 := None)\<rparr>, k_close demo_kernel 5 [], 0)"
  proof (rule call_in_pieces [where ai = "demo_interface None" and ai' = "demo_interface (Some 0)" and name = "''f''" and c = "demo_call (Some 0)"
        and c0 = "demo_call None" and p = 1 and asc = demo_client and m = 3 and n = 6 and buf' = buf])
    show "passed (\<lambda>d. 0) ?cs (ac_args (demo_call None)) ?va [SLong 3, SOut (Some (CString None))] [None, Some 9]" by (rule demo_passed)
    show "appinterface_call (\<lambda>d. 0) (demo_interface None) (replicate 20 NUL) ''f'' ?va ?cs world0 = Some (6, [None, Some 9], buf, world0)"
      by (rule call(1))
    show "k_read demo_kernel 5 ASC_BUFSIZE (take 3 buf) = (Inr (take 3 buf), [])" by (rule kern)
    show "ev_safe event_one_reader" by (rule ev)
    show "interface_typed (demo_interface None)" by (rule demo_typed)
  qed (use get demo_client_ok in \<open>simp_all add: demo_server_def demo_call_def demo_arg_def ASC_BUFSIZE_def\<close>)
  then show ?thesis using call(1) by (auto simp: demo_server_def demo_kernel_def)
qed

end
