(* ===== verification/App_Client.thy ===== *)
theory App_Client
  imports App_Pieces
begin

text \<open>
  The client of libApp, \<open>libApp/src/appclient.c\<close> without \<open>WITH_SSL\<close>: a connection to a server and calls over it. A call is put into
  the write buffer and an event loop of its own is run until the answer was read, the connection failed, or ten seconds passed.

  The system calls of the server are extended by those of a client. The event that the client belongs to is only put aside
  during a call, and is left out. \<open>None\<close> is undefined behaviour, or a loop that does not end.
\<close>

section \<open>Data\<close>

record AppClient =
  cl_interface :: "AppInterface option"
  cl_fd :: int
  cl_buf_read :: string
  cl_buf_read_cnt :: nat
  cl_buf_write :: string
  cl_buf_write_cnt :: nat
  cl_lastfunc :: string
  cl_lastargs :: "nat option list"
  cl_lastret :: "32 word option"

text \<open>\<open>k_host\<close> is \<open>gethostbyname\<close>, with the text of \<open>hstrerror(h_errno)\<close> when it fails.\<close>

record 'k client_kernel = "'k kernel" +
  k_connect :: "int \<Rightarrow> 32 word \<Rightarrow> 16 word \<Rightarrow> 'k \<Rightarrow> int option \<times> 'k"
  k_host :: "string \<Rightarrow> 'k \<Rightarrow> (string + 32 word) \<times> 'k"
  k_now :: "'k \<Rightarrow> (int + timeval) \<times> 'k"
  k_select :: "int \<Rightarrow> int set \<Rightarrow> int set \<Rightarrow> timeval option \<Rightarrow> 'k \<Rightarrow> (int + int set \<times> int set \<times> timeval) \<times> 'k"

text \<open>The state of the callbacks: the client, the objects of the caller and the kernel.\<close>

type_synonym 'k clst = "AppClient \<times> cells \<times> 'k"

definition ETIMEDOUT :: int where "ETIMEDOUT = 110"

definition F_TIMEOUT :: nat where "F_TIMEOUT = 3"

definition client_now :: "'k client_kernel \<Rightarrow> 'k clst \<Rightarrow> (int + timeval) \<times> 'k clst" where
  "client_now kern st = (case st of (ac, cs, k) \<Rightarrow> case k_now kern k of (t, k1) \<Rightarrow> (t, ac, cs, k1))"

definition client_select :: "'k client_kernel \<Rightarrow> int \<Rightarrow> int set \<Rightarrow> int set \<Rightarrow> timeval option \<Rightarrow> 'k clst
    \<Rightarrow> (int + int set \<times> int set \<times> timeval) \<times> 'k clst" where
  "client_select kern n rfds wfds t st =
     (case st of (ac, cs, k) \<Rightarrow> case k_select kern n rfds wfds t k of (r, k1) \<Rightarrow> (r, ac, cs, k1))"

text \<open>The clock alone, for functions that call no callback.\<close>

definition client_clock :: "'k client_kernel \<Rightarrow> 'k clst event_env" where
  "client_clock kern = \<lparr>e_io = (\<lambda>f fd d s. None), e_timer = (\<lambda>f d s. None), e_now = client_now kern, e_select = client_select kern\<rparr>"

section \<open>Callbacks\<close>

definition callback_error :: "world \<Rightarrow> world" where
  "callback_error w = (case strerror (errno w) w of (msg, w1) \<Rightarrow> snd (error_set_code 1 msg w1))"

definition callback_read :: "'k client_kernel \<Rightarrow> int \<Rightarrow> nat \<Rightarrow> 'k \<Rightarrow> (int + string) \<times> 'k" where
  "callback_read kern fd n k = k_read kern fd n k"

definition callback_write :: "'k client_kernel \<Rightarrow> int \<Rightarrow> string \<Rightarrow> 'k \<Rightarrow> (int + nat) \<times> 'k" where
  "callback_write kern fd bs k = k_write kern fd bs k"

definition appclient_timeout :: "'k clst rt \<Rightarrow> (int \<times> 'k clst rt) option" where
  "appclient_timeout s =
     (case s of (ev, w, ac, cs, k) \<Rightarrow>
        do { (_, ev1) \<leftarrow> event_unregister_io_read ev (cl_fd ac);
             (_, ev2) \<leftarrow> event_unregister_io_write ev1 (cl_fd ac);
             let (msg, w1) = strerror ETIMEDOUT (w\<lparr>errno := ETIMEDOUT\<rparr>);
             let (r, w2) = error_set_code 1 msg w1;
             Some (r, ev2, w2, ac, cs, k) })"

definition client_read_unregister :: "'k client_kernel \<Rightarrow> 'k clst rt \<Rightarrow> (int \<times> 'k clst rt) option" where
  "client_read_unregister kern s = do { (_, s1) \<leftarrow> event_unregister_timeout (client_clock kern) F_TIMEOUT s; Some (1, s1) }"

text \<open>\<open>close(ac->fd); ac->fd = -1\<close>\<close>

definition client_close :: "'k client_kernel \<Rightarrow> 'k clst rt \<Rightarrow> 'k clst rt" where
  "client_close kern s = (case s of (ev, w, ac, cs, k) \<Rightarrow> (ev, w, ac\<lparr>cl_fd := - 1\<rparr>, cs, k_close kern (cl_fd ac) k))"

definition client_read_error :: "'k client_kernel \<Rightarrow> 'k clst rt \<Rightarrow> (int \<times> 'k clst rt) option" where
  "client_read_error kern s =
     (case s of (ev, w, x) \<Rightarrow> client_read_unregister kern (client_close kern (ev, callback_error w, x)))"

text \<open>The bytes behind the answer are not moved to the start of the buffer.\<close>

definition appclient_read :: "'k client_kernel \<Rightarrow> (nat \<Rightarrow> char) \<Rightarrow> int \<Rightarrow> 'k clst rt \<Rightarrow> (int \<times> 'k clst rt) option" where
  "appclient_read kern junk fd s =
     (case s of (ev, w, ac, cs, k) \<Rightarrow>
        if cl_fd ac \<noteq> fd \<or> length (cl_buf_read ac) < cl_buf_read_cnt ac then None
        else case callback_read kern (cl_fd ac) (length (cl_buf_read ac) - cl_buf_read_cnt ac) k of
          (Inl e, k1) \<Rightarrow> client_read_error kern (ev, w\<lparr>errno := e\<rparr>, ac, cs, k1)
        | (Inr bs, k1) \<Rightarrow>
            if bs = [] then client_read_error kern (ev, w, ac, cs, k1)
            else do {
              buf \<leftarrow> write_block (cl_buf_read ac) (cl_buf_read_cnt ac) bs;
              let ac1 = ac\<lparr>cl_buf_read := buf, cl_buf_read_cnt := cl_buf_read_cnt ac + length bs\<rparr>;
              ai \<leftarrow> cl_interface ac;
              (len, ret, cs1, w1) \<leftarrow> appinterface_call_receive junk ai (cl_lastret ac) (take (cl_buf_read_cnt ac1) buf)
                (cl_lastfunc ac) (cl_lastargs ac) cs w;
              let ac2 = ac1\<lparr>cl_lastret := ret\<rparr>;
              if len < 0 then client_read_unregister kern (client_close kern (ev, w1, ac2, cs1, k1))
              else if len = 0 then Some (0, ev, w1, ac2, cs1, k1)
              else if nat len > cl_buf_read_cnt ac2 then None
              else client_read_unregister kern (ev, w1, ac2\<lparr>cl_buf_read_cnt := cl_buf_read_cnt ac2 - nat len\<rparr>, cs1, k1) })"

definition client_write_error :: "'k client_kernel \<Rightarrow> 'k clst rt \<Rightarrow> int \<times> 'k clst rt" where
  "client_write_error kern s = (case s of (ev, w, x) \<Rightarrow> (1, client_close kern (ev, callback_error w, x)))"

text \<open>As in the server, \<open>len\<close> bytes are moved to the start instead of those that are left.\<close>

definition appclient_write :: "'k client_kernel \<Rightarrow> int \<Rightarrow> 'k clst rt \<Rightarrow> (int \<times> 'k clst rt) option" where
  "appclient_write kern fd s =
     (case s of (ev, w, ac, cs, k) \<Rightarrow>
        case callback_write kern (cl_fd ac) (take (cl_buf_write_cnt ac) (cl_buf_write ac)) k of
          (Inl e, k1) \<Rightarrow> Some (client_write_error kern (ev, w\<lparr>errno := e\<rparr>, ac, cs, k1))
        | (Inr len, k1) \<Rightarrow>
            if len = 0 then Some (client_write_error kern (ev, w, ac, cs, k1))
            else do {
              moved \<leftarrow> read_block (cl_buf_write ac) len len;
              let ac1 = ac\<lparr>cl_buf_write := blit (cl_buf_write ac) 0 moved, cl_buf_write_cnt := cl_buf_write_cnt ac - len\<rparr>;
              if cl_buf_write_cnt ac1 > 0 then Some (0, ev, w, ac1, cs, k1)
              else do { (_, ev1, w1) \<leftarrow> event_register_io_read ev fd F_READ 0 w; Some (1, ev1, w1, ac1, cs, k1) } })"

definition client_events :: "'k client_kernel \<Rightarrow> (nat \<Rightarrow> char) \<Rightarrow> 'k clst event_env" where
  "client_events kern junk =
     \<lparr>e_io = (\<lambda>f fd d s. if f = F_READ then appclient_read kern junk fd s else if f = F_WRITE then appclient_write kern fd s else None),
      e_timer = (\<lambda>f d s. if f = F_TIMEOUT then appclient_timeout s else None),
      e_now = client_now kern, e_select = client_select kern\<rparr>"

section \<open>A call\<close>

text \<open>A \<open>NULL\<close> event, when it cannot be allocated, is dereferenced.\<close>

definition call_event :: "'k client_kernel \<Rightarrow> (nat \<Rightarrow> char) \<Rightarrow> world \<times> 'k clst \<Rightarrow> (int \<times> world \<times> 'k clst) option" where
  "call_event kern junk s =
     (case s of (w, ac, cs, k) \<Rightarrow>
        do { (oe, w1) \<leftarrow> event_new w;
             ev \<leftarrow> oe;
             (_, ev2, w2, st2) \<leftarrow> event_register_timeout (client_events kern junk) \<lparr>tv_sec = 10, tv_usec = 0\<rparr> F_TIMEOUT 0 (ev, w1, ac, cs, k);
             (_, ev3, w3) \<leftarrow> event_register_io_write ev2 (cl_fd (fst st2)) F_WRITE 0 w2;
             (_, ev4, w4, ac4, cs4, k4) \<leftarrow> event_loop (client_events kern junk) (ev3, w3, st2);
             _ \<leftarrow> event_delete ev4;
             Some (if cl_fd ac4 \<ge> 0 then 0 else 1, w4, ac4, cs4, k4) })"

text \<open>\<open>ret\<close> is the value of the object that the result is stored in, \<open>None\<close> for \<open>NULL\<close>; it is left in \<open>cl_lastret\<close>.\<close>

definition appclient_call ::
  "'k client_kernel \<Rightarrow> (nat \<Rightarrow> char) \<Rightarrow> (64 word \<Rightarrow> 32 word) \<Rightarrow> 32 word option \<Rightarrow> string \<Rightarrow> call_arg list \<Rightarrow> world \<times> 'k clst
     \<Rightarrow> (int \<times> 32 word option \<times> world \<times> 'k clst) option" where
  "appclient_call kern junk dtof ret function va s =
     (case s of (w, ac, cs, k) \<Rightarrow>
        do { ai \<leftarrow> cl_interface ac;
             let (r, cnt, w1) = appinterface_get_args_count ai function w;
             if r \<noteq> 0 then Some (1, ret, w1, ac, cs, k)
             else case w_alloc w1 of
               (False, w2) \<Rightarrow>
                 (case strerror (errno w2) w2 of
                    (msg, w3) \<Rightarrow> (case error_set_code 1 msg w3 of (c, w4) \<Rightarrow> Some (c, ret, w4, ac, cs, k)))
             | (True, w2) \<Rightarrow>
                 if length (cl_buf_write ac) < cl_buf_write_cnt ac then None
                 else do {
                   (i, args, buf, w3) \<leftarrow> appinterface_call dtof ai (drop (cl_buf_write_cnt ac) (cl_buf_write ac)) function va cs w2;
                   let ac1 = ac\<lparr>cl_buf_write := take (cl_buf_write_cnt ac) (cl_buf_write ac) @ buf\<rparr>;
                   if i \<le> 0 then Some (1, ret, w3, ac1, cs, k)
                   else do {
                     (r, w4, ac2, cs2, k2) \<leftarrow> call_event kern junk
                       (w3, ac1\<lparr>cl_lastfunc := function, cl_lastargs := args, cl_lastret := ret,
                                cl_buf_write_cnt := cl_buf_write_cnt ac + nat i\<rparr>, cs, k);
                     Some (if r = 0 then 0 else 1, cl_lastret ac2, w4, ac2, cs2, k2) } } })"

section \<open>Connecting\<close>

text \<open>The address of a service: from the environment variable \<open>APPSERVER_<service>\<close>, or the local host.\<close>

definition connect_addr :: "'k client_kernel \<Rightarrow> (string \<Rightarrow> string option) \<Rightarrow> string \<Rightarrow> world \<times> 'k \<Rightarrow> int \<times> 32 word option \<times> world \<times> 'k" where
  "connect_addr kern getenv service s =
     (case s of (w, k) \<Rightarrow>
        case w_alloc w of
          (False, w1) \<Rightarrow>
            (case strerror (errno w1) w1 of (msg, w2) \<Rightarrow> (case error_set_code 1 msg w2 of (c, w3) \<Rightarrow> (c, None, w3, k)))
        | (True, w1) \<Rightarrow>
            (case getenv (''APPSERVER_'' @ service) of
               None \<Rightarrow> (0, Some (htonl INADDR_LOOPBACK), w1, k)
             | Some server \<Rightarrow>
                 (case k_host kern server k of
                    (Inl msg, k1) \<Rightarrow> (case error_set_code 1 msg w1 of (c, w2) \<Rightarrow> (c, None, w2, k1))
                  | (Inr a, k1) \<Rightarrow> (0, Some a, w1, k1))))"

text \<open>From \<open>common_socket_set_nodelay\<close> to the result of \<open>connect\<close>; the message of a failure starts with \<open>what\<close>.\<close>

definition connect_to :: "'k client_kernel \<Rightarrow> string \<Rightarrow> int \<Rightarrow> 32 word \<Rightarrow> 16 word \<Rightarrow> world \<times> 'k \<Rightarrow> int \<times> world \<times> 'k" where
  "connect_to kern what fd addr port s =
     (case s of (w, k) \<Rightarrow>
        case common_socket_set_nodelay (kernel.truncate kern) fd True k of
          (_, k1) \<Rightarrow>
            (case k_connect kern fd addr port k1 of
               (None, k2) \<Rightarrow> (0, w, k2)
             | (Some e, k2) \<Rightarrow>
                 (case strerror e (w\<lparr>errno := e\<rparr>) of
                    (msg, w1) \<Rightarrow> (case error_set_code 1 (what @ '': '' @ msg) w1 of (c, w2) \<Rightarrow> (c, w2, k2)))))"

text \<open>The second connection, to the port of the session; \<open>loader\<close> is \<open>appinterface_new\<close> with its parameters.\<close>

definition connect_session ::
  "'k client_kernel \<Rightarrow> (string \<Rightarrow> world \<Rightarrow> (AppInterface option \<times> world) option) \<Rightarrow> (string \<Rightarrow> string option) \<Rightarrow> string \<Rightarrow> 32 word
     \<Rightarrow> world \<times> 'k clst \<Rightarrow> (int \<times> world \<times> 'k clst) option" where
  "connect_session kern loader getenv app port s =
     (case s of (w, ac, cs, k) \<Rightarrow>
        do { (ai, w1) \<leftarrow> loader app w;
             let ac1 = ac\<lparr>cl_interface := ai\<rparr>;
             if ai = None then Some (1, w1, ac1, cs, k)
             else case k_socket kern (k_close kern (cl_fd ac) k) of
               (Inl e, k1) \<Rightarrow>
                 (case strerror e (w1\<lparr>errno := e\<rparr>) of
                    (msg, w2) \<Rightarrow> (case error_set_code 1 (''socket: '' @ msg) w2 of (c, w3) \<Rightarrow> Some (c, w3, ac1\<lparr>cl_fd := - 1\<rparr>, cs, k1)))
             | (Inr fd, k1) \<Rightarrow>
                 (case connect_addr kern getenv app (w1, k1) of
                    (r, None, w2, k2) \<Rightarrow> Some (1, w2, ac1\<lparr>cl_fd := fd\<rparr>, cs, k2)
                  | (r, Some addr, w2, k2) \<Rightarrow>
                      (case connect_to kern app fd addr (htons (ucast port)) (w2, k2) of
                         (r, w3, k3) \<Rightarrow> Some (r, w3, ac1\<lparr>cl_fd := fd\<rparr>, cs, k3))) })"

definition client_new_connect ::
  "'k client_kernel \<Rightarrow> (nat \<Rightarrow> char) \<Rightarrow> (64 word \<Rightarrow> 32 word) \<Rightarrow> (string \<Rightarrow> world \<Rightarrow> (AppInterface option \<times> world) option)
     \<Rightarrow> (string \<Rightarrow> string option) \<Rightarrow> string \<Rightarrow> world \<times> 'k clst \<Rightarrow> (int \<times> world \<times> 'k clst) option" where
  "client_new_connect kern junk dtof loader getenv app s =
     (case s of (w, ac, cs, k) \<Rightarrow>
        case k_socket kern k of
          (Inl e, k1) \<Rightarrow> Some (1, w\<lparr>errno := e\<rparr>, ac\<lparr>cl_fd := - 1\<rparr>, cs, k1)
        | (Inr fd, k1) \<Rightarrow>
            do { ai \<leftarrow> cl_interface ac;
                 let ac1 = ac\<lparr>cl_fd := fd\<rparr>;
                 case connect_addr kern getenv ''Init'' (w, k1) of
                   (r, None, w2, k2) \<Rightarrow> Some (1, w2, ac1, cs, k2)
                 | (r, Some addr, w2, k2) \<Rightarrow>
                     (case connect_to kern ''Init'' fd addr (htons (word_of_int (appinterface_get_port ai))) (w2, k2) of
                        (r, w3, k3) \<Rightarrow>
                          if r \<noteq> 0 then Some (r, w3, ac1, cs, k3)
                          else do {
                            (r4, ret, w4, ac4, cs4, k4) \<leftarrow>
                              appclient_call kern junk dtof (Some (- 1)) ''get_session'' [AString (Some app)] (w3, ac1, cs, k3);
                            if r4 \<noteq> 0 then Some (1, w4, ac4, cs4, k4)
                            else case ret of
                              None \<Rightarrow> None
                            | Some port \<Rightarrow>
                                if sint port < 0 then
                                  (case error_set_code 1 ''Could not obtain remote port'' w4 of (c, w5) \<Rightarrow> Some (c, w5, ac4, cs4, k4))
                                else if port = 0 then Some (0, w4, ac4, cs4, k4)
                                else connect_session kern loader getenv app port (w4, ac4, cs4, k4) }) })"

text \<open>Deleting a client dereferences its interface.\<close>

definition appclient_delete :: "'k client_kernel \<Rightarrow> AppClient \<Rightarrow> 'k \<Rightarrow> 'k option" where
  "appclient_delete kern ac k =
     do { _ \<leftarrow> cl_interface ac; Some (if cl_fd ac \<noteq> - 1 then k_close kern (cl_fd ac) k else k) }"

definition appclient_new_event ::
  "'k client_kernel \<Rightarrow> (nat \<Rightarrow> char) \<Rightarrow> (64 word \<Rightarrow> 32 word) \<Rightarrow> (string \<Rightarrow> world \<Rightarrow> (AppInterface option \<times> world) option)
     \<Rightarrow> (string \<Rightarrow> string option) \<Rightarrow> string \<Rightarrow> world \<times> cells \<times> 'k \<Rightarrow> (AppClient option \<times> world \<times> cells \<times> 'k) option" where
  "appclient_new_event kern junk dtof loader getenv app s =
     (case s of (w, cs, k) \<Rightarrow>
        case object_new 131176 w of
          (False, w1) \<Rightarrow> Some (None, w1, cs, k)
        | (True, w1) \<Rightarrow>
            do { (ai, w2) \<leftarrow> loader ''Init'' w1;
                 if ai = None then Some (None, w2, cs, k)
                 else do {
                   let bytes = map junk [0 ..< ASC_BUFSIZE];
                   let ac = \<lparr>cl_interface = ai, cl_fd = - 1, cl_buf_read = bytes, cl_buf_read_cnt = 0, cl_buf_write = bytes, cl_buf_write_cnt = 0,
                             cl_lastfunc = [], cl_lastargs = [], cl_lastret = None\<rparr>;
                   (r, w3, ac3, cs3, k3) \<leftarrow> client_new_connect kern junk dtof loader getenv app (w2, ac, cs, k);
                   if r \<noteq> 0 then do { k4 \<leftarrow> appclient_delete kern ac3 k3; Some (None, w3, cs3, k4) }
                   else Some (Some ac3, w3, cs3, k3) } })"

definition appclient_new ::
  "'k client_kernel \<Rightarrow> (nat \<Rightarrow> char) \<Rightarrow> (64 word \<Rightarrow> 32 word) \<Rightarrow> (string \<Rightarrow> world \<Rightarrow> (AppInterface option \<times> world) option)
     \<Rightarrow> (string \<Rightarrow> string option) \<Rightarrow> string \<Rightarrow> world \<times> cells \<times> 'k \<Rightarrow> (AppClient option \<times> Event option \<times> world \<times> cells \<times> 'k) option" where
  "appclient_new kern junk dtof loader getenv app s =
     (case s of (w, cs, k) \<Rightarrow>
        do { (oe, w1) \<leftarrow> event_new w;
             case oe of
               None \<Rightarrow> Some (None, None, w1, cs, k)
             | Some ev \<Rightarrow>
                 do { (oc, w2, cs2, k2) \<leftarrow> appclient_new_event kern junk dtof loader getenv app (w1, cs, k);
                      case oc of
                        None \<Rightarrow> do { _ \<leftarrow> event_delete ev; Some (None, None, w2, cs2, k2) }
                      | Some ac \<Rightarrow> Some (Some ac, Some ev, w2, cs2, k2) } })"

end
