(* ===== verification/App_Wait.thy ===== *)
theory App_Wait
  imports App_Client
begin

text \<open>
  What a call of a client comes to: on a kernel that takes the call and delivers the answer in time, and on one that is silent.
\<close>

section \<open>Events of a call\<close>











section \<open>A prompt server\<close>






section \<open>A silent server\<close>



section \<open>Calls\<close>






section \<open>Properties\<close>

















end
