(* ===== verification/Vfs_Common.thy ===== *)
theory Vfs_Common
  imports App_Call Libc_Fcntl
begin

text \<open>
  What the VFS server and its client library share, \<open>VFS/src/common.c\<close>: the tables between the numbers of the
  kernel and those of the protocol (\<open>VFS/include/VFS.h\<close>), and the two functions that translate with them. The
  numbers of the kernel are those of the C library for Linux (\<open>libc/include/kernel/linux\<close>, where
  \<open>ENFILE\<close>, \<open>EMFILE\<close>, \<open>ETXTBSY\<close>, \<open>EFBIG\<close> and \<open>EMLINK\<close> are not defined).
\<close>

unbundle bit_operations_syntax

section \<open>Tables\<close>

definition EPROTO :: int where "EPROTO = 71"
definition VFS_EPROTO :: int where "VFS_EPROTO = 96"

text \<open>
  The native number and the number of the protocol of \<open>EPERM\<close>, \<open>ENOENT\<close>, \<open>EIO\<close>, \<open>ENXIO\<close>, \<open>EBADF\<close>, \<open>EACCES\<close>, \<open>EFAULT\<close>,
  \<open>EBUSY\<close>, \<open>EEXIST\<close>, \<open>EXDEV\<close>, \<open>ENODEV\<close>, \<open>ENOTDIR\<close>, \<open>EISDIR\<close>, \<open>EINVAL\<close>, \<open>ENOSPC\<close>, \<open>EROFS\<close>, \<open>ENOTEMPTY\<close>,
  \<open>ENOSYS\<close>, \<open>ENOTSUP\<close> and \<open>EPROTO\<close>.
\<close>

definition vfs_error :: "(int \<times> int) list" where
  "vfs_error =
    [(1, 1), (2, 2), (5, 5), (6, 6), (9, 9), (13, 13),
     (14, 14), (16, 16), (17, 17), (18, 18), (19, 19),
     (20, 20), (21, 21), (22, 22), (28, 28), (30, 30),
     (39, 66), (38, 78), (95, 86), (71, 96)]"

text \<open>\<open>F_OK\<close>, \<open>R_OK\<close>, \<open>W_OK\<close> and \<open>X_OK\<close> are enumerated by the C library.\<close>

definition vfs_flags_access :: "(32 word \<times> 32 word) list" where
  "vfs_flags_access = [(0, 0), (1, 1), (2, 4), (3, 2)]"

definition vfs_flags_lseek :: "(32 word \<times> 32 word) list" where
  "vfs_flags_lseek = [(0, 0), (1, 1), (2, 2)]"

definition vfs_flags_open :: "(32 word \<times> 32 word) list" where
  "vfs_flags_open =
    [(O_RDONLY, 0), (O_WRONLY, 1), (O_RDWR, 2), (O_ACCMODE, 4), (O_CREAT, 0x10), (O_EXCL, 0x20), (O_TRUNC, 0x40),
     (O_NOCTTY, 0x80), (O_APPEND, 0x100), (O_DSYNC, 0x200), (O_NONBLOCK, 0x400), (O_RSYNC, 0x800), (O_SYNC, 0x1000)]"

section \<open>Translation\<close>

text \<open>To the number of the protocol (negative), or back into \<open>errno\<close>.\<close>

fun vfs_errno :: "(int \<times> int) list \<Rightarrow> int \<Rightarrow> bool \<Rightarrow> world \<Rightarrow> int \<times> world" where
  "vfs_errno [] v back w = (if \<not> back then (- VFS_EPROTO, w) else (- 1, w\<lparr>errno := EPROTO\<rparr>))"
| "vfs_errno ((native, err) # es) v back w =
     (if \<not> back \<and> v = native then (- err, w)
      else if back \<and> v = err then (- 1, w\<lparr>errno := native\<rparr>)
      else vfs_errno es v back w)"

fun vfs_flags_loop :: "(32 word \<times> 32 word) list \<Rightarrow> 32 word \<Rightarrow> bool \<Rightarrow> 32 word \<Rightarrow> 32 word \<times> 32 word" where
  "vfs_flags_loop [] v back ret = (v, ret)"
| "vfs_flags_loop ((native, flag) # fs) v back ret =
     (if \<not> back then
        (if v AND native = native then vfs_flags_loop fs (v - native) back (ret OR flag) else vfs_flags_loop fs v back ret)
      else if v AND flag = flag then vfs_flags_loop fs (v - flag) back (ret OR native)
      else vfs_flags_loop fs v back ret)"

definition vfs_flags :: "(32 word \<times> 32 word) list \<Rightarrow> 32 word \<Rightarrow> bool \<Rightarrow> int" where
  "vfs_flags fs v back = (case vfs_flags_loop fs v back 0 of (v', ret) \<Rightarrow> if v' \<noteq> 0 then - 1 else sint ret)"

section \<open>Errors\<close>

lemma vfs_errno_map: "vfs_errno es v False w = (- (case map_of es v of Some e \<Rightarrow> e | None \<Rightarrow> VFS_EPROTO), w)"
  by (induction es) auto

lemma vfs_errno_map_back:
  "vfs_errno es v True w = (- 1, w\<lparr>errno := (case map_of (map prod.swap es) v of Some e \<Rightarrow> e | None \<Rightarrow> EPROTO)\<rparr>)"
  by (induction es) auto

lemma vfs_error_unique: "distinct (map fst vfs_error)" "distinct (map snd vfs_error)" "\<forall>e \<in> set vfs_error. 0 < fst e \<and> 0 < snd e"
  by (simp_all add: vfs_error_def)

text \<open>An error that the kernel reports to the server is the error that the client reports, if the table has it.\<close>

lemma vfs_errno_through:
  assumes "vfs_errno vfs_error e False w = (r, w1)"
  shows "r < 0 \<and> w1 = w \<and> vfs_errno vfs_error (- r) True w2 = (- 1, w2\<lparr>errno := if e \<in> fst ` set vfs_error then e else EPROTO\<rparr>)"
proof (cases "map_of vfs_error e")
  case None
  then have "e \<notin> fst ` set vfs_error" by (simp add: map_of_eq_None_iff)
  moreover have "map_of (map prod.swap vfs_error) VFS_EPROTO = Some EPROTO"
    by (simp add: vfs_error_def VFS_EPROTO_def EPROTO_def)
  ultimately show ?thesis using assms None by (auto simp: vfs_errno_map vfs_errno_map_back VFS_EPROTO_def)
next
  case (Some x)
  then have in_table: "(e, x) \<in> set vfs_error" by (rule map_of_SomeD)
  have "map fst (map prod.swap vfs_error) = map snd vfs_error" by simp
  moreover have "(x, e) \<in> set (map prod.swap vfs_error)" using imageI [OF in_table, of prod.swap] by simp
  ultimately have "map_of (map prod.swap vfs_error) x = Some e"
    using vfs_error_unique(2) by (metis map_of_is_SomeI)
  moreover have "0 < x" "e \<in> fst ` set vfs_error" using in_table vfs_error_unique(3) by force+
  moreover have "r = - x" "w1 = w" using assms Some by (simp_all add: vfs_errno_map)
  ultimately show ?thesis by (simp add: vfs_errno_map_back)
qed

section \<open>Flags\<close>

text \<open>With single bits for the numbers of one side, each bit is translated.\<close>

definition ors :: "32 word list \<Rightarrow> 32 word" where
  "ors ws = foldr (OR) ws 0"

lemma ors_Cons: "ors (w # ws) = w OR ors ws"
  by (simp add: ors_def)

lemma vfs_flags_loop_swap: "vfs_flags_loop fs v False ret = vfs_flags_loop (map prod.swap fs) v True ret"
  by (induction fs arbitrary: v ret) auto

lemma bit_flag: "i < 32 \<Longrightarrow> (v AND 2 ^ i = (2 ^ i :: 32 word)) = bit v i"
proof
  assume "i < 32" "v AND 2 ^ i = (2 ^ i :: 32 word)"
  then have "bit (v AND 2 ^ i) i = bit (2 ^ i :: 32 word) i" by simp
  with \<open>i < 32\<close> show "bit v i" by (simp add: bit_simps)
next
  assume "bit v i"
  then show "v AND 2 ^ i = (2 ^ i :: 32 word)" by (intro bit_word_eqI) (auto simp: bit_and_iff bit_exp_iff)
qed

lemma minus_flag: "bit v i \<Longrightarrow> v - (2 ^ i :: 32 word) = v AND NOT (2 ^ i)"
proof -
  assume "bit v i"
  then have "v = (v AND NOT (2 ^ i)) OR 2 ^ i" by (intro bit_word_eqI) (auto simp: bit_simps)
  moreover have "(v AND NOT (2 ^ i)) OR 2 ^ i = (v AND NOT (2 ^ i)) + 2 ^ i"
    by (subst disjunctive_add) (auto simp: bit_simps)
  ultimately show ?thesis by (metis add_diff_cancel_right')
qed

lemma no_flag: "\<not> bit v i \<Longrightarrow> v AND NOT (2 ^ i) = (v :: 32 word)"
  by (intro bit_word_eqI) (auto simp: bit_simps)

lemma vfs_flags_bits:
  assumes "distinct (map snd ps)" "\<forall>(n, i) \<in> set ps. i < 32"
  shows "vfs_flags_loop (map (\<lambda>(n, i). (n, 2 ^ i)) ps @ fs) v True ret =
    vfs_flags_loop fs (v AND NOT (ors (map (\<lambda>(n, i). 2 ^ i) ps))) True (ret OR ors (map (\<lambda>(n, i). if bit v i then n else 0) ps))"
  using assms
proof (induction ps arbitrary: v ret)
  case Nil
  then show ?case by (simp add: ors_def)
next
  case (Cons p ps)
  obtain n i where p: "p = (n, i)" by (cases p)
  let ?v = "v AND NOT (2 ^ i)"
  have i: "i < 32" "i \<notin> snd ` set ps" using Cons.prems by (auto simp: p)
  have "bit ?v j = bit v j" if "(m, j) \<in> set ps" for m j
    using i(2) that Cons.prems(2) by (force simp: bit_simps)
  then have bits: "ors (map (\<lambda>(n, j). if bit ?v j then n else 0) ps) = ors (map (\<lambda>(n, j). if bit v j then n else 0) ps)"
    by (intro arg_cong [where f = ors] map_cong) auto
  have "vfs_flags_loop (map (\<lambda>(n, i). (n, 2 ^ i)) (p # ps) @ fs) v True ret =
      vfs_flags_loop (map (\<lambda>(n, i). (n, 2 ^ i)) ps @ fs) ?v True (ret OR (if bit v i then n else 0))"
    using i by (simp add: p bit_flag minus_flag no_flag)
  also have "\<dots> = vfs_flags_loop fs (?v AND NOT (ors (map (\<lambda>(n, i). 2 ^ i) ps))) True
      ((ret OR (if bit v i then n else 0)) OR ors (map (\<lambda>(n, j). if bit v j then n else 0) ps))"
    using Cons.IH [of ?v "ret OR (if bit v i then n else 0)"] Cons.prems unfolding bits by simp
  also have "?v AND NOT (ors (map (\<lambda>(n, i). 2 ^ i) ps)) = v AND NOT (ors (map (\<lambda>(n, i). 2 ^ i) (p # ps)))"
    by (simp add: p ors_Cons and.assoc)
  also have "(ret OR (if bit v i then n else 0)) OR ors (map (\<lambda>(n, j). if bit v j then n else 0) ps)
      = ret OR ors (map (\<lambda>(n, i). if bit v i then n else 0) (p # ps))"
    by (simp add: p ors_Cons or.assoc)
  finally show ?case .
qed

text \<open>The flags of \<open>open\<close> as the client sends them, and as the server then gives them to the kernel.\<close>

definition flag_bits :: "(32 word \<times> nat) list" where
  "flag_bits = [(2 ^ 0, 0), (2 ^ 1, 1), (3, 2), (2 ^ 6, 4), (2 ^ 7, 5), (2 ^ 9, 6), (2 ^ 8, 7), (2 ^ 10, 8), (2 ^ 12, 9), (2 ^ 11, 10),
     (2 ^ 12, 11), (2 ^ 12, 12)]"

lemma open_back: "vfs_flags_open = (0, 0) # map (\<lambda>(n, i). (n, 2 ^ i)) flag_bits"
  by (simp add: vfs_flags_open_def flag_bits_def O_RDONLY_def O_WRONLY_def O_RDWR_def O_ACCMODE_def O_CREAT_def O_EXCL_def
    O_TRUNC_def O_NOCTTY_def O_APPEND_def O_DSYNC_def O_NONBLOCK_def O_RSYNC_def O_SYNC_def)

lemma client_flags:
  "vfs_flags vfs_flags_open v True =
     (if v AND NOT (ors (map (\<lambda>(n, i). 2 ^ i) flag_bits)) \<noteq> 0 then - 1 else sint (ors (map (\<lambda>(n, i). if bit v i then n else 0) flag_bits)))"
proof -
  have "distinct (map snd flag_bits)" "\<forall>(n, i) \<in> set flag_bits. i < 32" by (auto simp: flag_bits_def)
  from vfs_flags_bits [OF this, of "[]" v 0] show ?thesis by (simp add: vfs_flags_def open_back)
qed

definition native_bits :: "(32 word \<times> nat) list" where
  "native_bits = [(2 ^ 4, 6), (2 ^ 5, 7), (2 ^ 6, 9), (2 ^ 7, 8), (2 ^ 8, 10), (2 ^ 9, 12), (2 ^ 10, 11)]"

lemma open_forth:
  "map prod.swap vfs_flags_open = (0, 0) # map (\<lambda>(n, i). (n, 2 ^ i)) [(1, 0), (2, 1)] @ (4, 3) #
     map (\<lambda>(n, i). (n, 2 ^ i)) native_bits @ [(0x800, 2 ^ 12), (0x1000, 2 ^ 12)]"
  by (simp add: vfs_flags_open_def native_bits_def O_RDONLY_def O_WRONLY_def O_RDWR_def O_ACCMODE_def O_CREAT_def O_EXCL_def
    O_TRUNC_def O_NOCTTY_def O_APPEND_def O_DSYNC_def O_NONBLOCK_def O_RSYNC_def O_SYNC_def)

lemma server_flags:
  "vfs_flags vfs_flags_open v False =
     (if (v AND NOT (1 OR 2)) AND NOT (ors (map (\<lambda>(n, i). 2 ^ i) native_bits)) \<noteq> 0 then - 1
      else sint ((if bit v 0 then 1 else 0) OR (if bit v 1 then 2 else 0) OR ors (map (\<lambda>(n, i). if bit v i then n else 0) native_bits)))"
proof -
  define v1 where "v1 = v AND NOT (1 OR 2)"
  define r1 :: "32 word" where "r1 = (if bit v 0 then 1 else 0) OR (if bit v 1 then 2 else 0)"
  define v2 where "v2 = v1 AND NOT (ors (map (\<lambda>(n, i). 2 ^ i) native_bits))"
  define r2 where "r2 = r1 OR ors (map (\<lambda>(n, i). if bit v i then n else 0) native_bits)"
  have "bit (v1 AND 3) 0 \<noteq> bit (3 :: 32 word) 0" by (simp add: v1_def bit_simps)
  then have acc: "v1 AND 3 \<noteq> 3" by metis
  have "\<not> bit v2 12" by (simp add: v2_def native_bits_def ors_def bit_simps)
  then have sync: "v2 AND 4096 \<noteq> 4096" using bit_flag [of 12 v2] by simp
  have nat: "map (\<lambda>(n, i). if bit v1 i then n else 0) native_bits = map (\<lambda>(n, i). if bit v i then n else 0) native_bits"
    by (simp add: native_bits_def v1_def bit_simps)
  have "vfs_flags_loop (map prod.swap vfs_flags_open) v True 0 =
      vfs_flags_loop ((4, 3) # map (\<lambda>(n, i). (n, 2 ^ i)) native_bits @ [(0x800, 2 ^ 12), (0x1000, 2 ^ 12)]) v1 True r1"
    unfolding open_forth v1_def r1_def using vfs_flags_bits [of "[(1, 0), (2, 1)]" _ v 0] by (simp add: ors_def)
  also have "\<dots> = vfs_flags_loop (map (\<lambda>(n, i). (n, 2 ^ i)) native_bits @ [(0x800, 2 ^ 12), (0x1000, 2 ^ 12)]) v1 True r1"
    using acc by simp
  also have "\<dots> = vfs_flags_loop [(0x800, 2 ^ 12), (0x1000, 2 ^ 12)] v2 True r2"
  proof -
    have "distinct (map snd native_bits)" "\<forall>(n, i) \<in> set native_bits. i < 32" by (auto simp: native_bits_def)
    from vfs_flags_bits [OF this, of _ v1 r1] show ?thesis unfolding v2_def r2_def nat .
  qed
  also have "\<dots> = (v2, r2)" using sync by simp
  finally show ?thesis
    by (simp only: vfs_flags_def vfs_flags_loop_swap [of _ v] prod.case v1_def v2_def r1_def r2_def or.assoc)
qed

text \<open>Without the flags that two of the bits stand for, the two translations cancel out.\<close>

definition open_through :: "32 word \<Rightarrow> int" where
  "open_through flags = vfs_flags vfs_flags_open (word_of_int (vfs_flags vfs_flags_open flags True)) False"

lemma flag_powers:
  "O_ACCMODE = 2 ^ 0 OR 2 ^ 1" "O_CREAT = 2 ^ 6" "O_EXCL = 2 ^ 7" "O_NOCTTY = 2 ^ 8" "O_TRUNC = 2 ^ 9" "O_APPEND = 2 ^ 10"
  "O_NONBLOCK = 2 ^ 11" "O_SYNC = 2 ^ 12"
  by (simp_all add: O_ACCMODE_def O_CREAT_def O_EXCL_def O_TRUNC_def O_NOCTTY_def O_APPEND_def O_NONBLOCK_def O_SYNC_def)

lemma bit_masked: "bit (if b then w else (0 :: 32 word)) n = (b \<and> bit w n)"
  by simp

lemma open_through:
  assumes "flags AND NOT (O_ACCMODE OR O_CREAT OR O_EXCL OR O_NOCTTY OR O_TRUNC OR O_APPEND OR O_NONBLOCK OR O_SYNC) = 0"
  shows "open_through flags = sint (if flags AND (O_NONBLOCK OR O_SYNC) = 0 then flags
    else flags AND NOT (O_NONBLOCK OR O_SYNC) OR O_TRUNC)"
proof -
  define m where "m = ors (map (\<lambda>(n, i). if bit flags i then n else 0) flag_bits)"
  have in_range: "i \<in> {0, 1, 6, 7, 8, 9, 10, 11, 12}" if "bit flags i" for i
  proof -
    have "i < 32" using that bit_imp_le_length by fastforce
    moreover have "bit (flags AND NOT (O_ACCMODE OR O_CREAT OR O_EXCL OR O_NOCTTY OR O_TRUNC OR O_APPEND OR O_NONBLOCK OR O_SYNC)) i = bit (0 :: 32 word) i"
      using assms by simp
    ultimately show ?thesis using that
      unfolding flag_powers bit_and_iff bit_or_iff bit_not_iff bit_exp_iff by auto
  qed
  have bit2: "\<not> bit flags 2" "\<not> bit flags 4" "\<not> bit flags 5" using in_range [of 2] in_range [of 4] in_range [of 5] by auto
  have no_rest: "flags AND NOT (ors (map (\<lambda>(n, i). 2 ^ i) flag_bits)) = 0"
  proof (rule bit_word_eqI)
    fix i
    show "bit (flags AND NOT (ors (map (\<lambda>(n, i). 2 ^ i) flag_bits))) i = bit (0 :: 32 word) i"
      unfolding flag_bits_def list.map prod.case ors_Cons bit_and_iff bit_or_iff bit_not_iff bit_exp_iff
      using in_range [of i] by auto
  qed
  have bits_m: "bit m n \<longleftrightarrow> n = 0 \<and> bit flags 0 \<or> n = 1 \<and> bit flags 1 \<or> n = 9 \<and> bit flags 6 \<or> n = 8 \<and> bit flags 7
    \<or> n = 10 \<and> bit flags 8 \<or> n = 12 \<and> bit flags 9 \<or> n = 11 \<and> bit flags 10 \<or> n = 12 \<and> bit flags 11
    \<or> n = 12 \<and> bit flags 12" for n
    unfolding m_def flag_bits_def list.map prod.case ors_Cons bit_or_iff bit_masked bit_exp_iff
    using bit2 by (cases "n < 32") (simp_all add: ors_def conj_commute)
  define r :: "32 word" where "r = (if bit m 0 then 1 else 0) OR (if bit m 1 then 2 else 0) OR ors (map (\<lambda>(n, i). if bit m i then n else 0) native_bits)"
  have bits_r: "bit r n \<longleftrightarrow> n = 0 \<and> bit m 0 \<or> n = 1 \<and> bit m 1 \<or> n = 4 \<and> bit m 6 \<or> n = 5 \<and> bit m 7 \<or> n = 6 \<and> bit m 9 \<or> n = 7 \<and> bit m 8
    \<or> n = 8 \<and> bit m 10 \<or> n = 9 \<and> bit m 12 \<or> n = 10 \<and> bit m 11" for n
  proof -
    have "bit (1 :: 32 word) n = (n = 0)" "bit (2 :: 32 word) n = (n = 1)"
      using bit_exp_iff [of 0 n, where ?'a = "32 word"] bit_exp_iff [of 1 n, where ?'a = "32 word"] by auto
    then show ?thesis
      unfolding r_def native_bits_def list.map prod.case ors_Cons bit_or_iff bit_masked bit_exp_iff
      by (cases "n < 32") (simp_all add: ors_def conj_commute)
  qed
  have no_rest_m: "(m AND NOT (1 OR 2)) AND NOT (ors (map (\<lambda>(n, i). 2 ^ i) native_bits)) = 0"
  proof (rule bit_word_eqI)
    fix i
    have "bit (1 :: 32 word) i = (i = 0)" "bit (2 :: 32 word) i = (i = 1)"
      using bit_exp_iff [of 0 i, where ?'a = "32 word"] bit_exp_iff [of 1 i, where ?'a = "32 word"] by auto
    then show "bit ((m AND NOT (1 OR 2)) AND NOT (ors (map (\<lambda>(n, i). 2 ^ i) native_bits))) i = bit (0 :: 32 word) i"
      unfolding native_bits_def list.map prod.case ors_Cons bit_and_iff bit_or_iff bit_not_iff bit_exp_iff
      using bits_m [of i] by auto
  qed
  have "open_through flags = sint r"
  proof -
    have "vfs_flags vfs_flags_open flags True = sint m" using no_rest by (simp only: client_flags m_def if_False simp_thms)
    moreover have "vfs_flags vfs_flags_open m False = sint r" using no_rest_m by (simp only: server_flags r_def if_False simp_thms)
    ultimately show ?thesis by (simp add: open_through_def)
  qed
  moreover have "r = (if flags AND (O_NONBLOCK OR O_SYNC) = 0 then flags else flags AND NOT (O_NONBLOCK OR O_SYNC) OR O_TRUNC)"
  proof (cases "flags AND (O_NONBLOCK OR O_SYNC) = 0")
    case True
    have "\<not> bit (flags AND (O_NONBLOCK OR O_SYNC)) i" for i using True by simp
    from this [of 11] this [of 12] have "\<not> bit flags 11" "\<not> bit flags 12"
      unfolding flag_powers bit_and_iff bit_or_iff bit_exp_iff by auto
    then have "bit r n = bit flags n" for n using in_range [of n] unfolding bits_r bits_m by auto
    with True show ?thesis by (simp add: bit_eq_iff)
  next
    case False
    then obtain i where "bit (flags AND (O_NONBLOCK OR O_SYNC)) i" by (metis bit_0_eq bit_eqI bot_apply bot_bool_def)
    then have "bit flags 11 \<or> bit flags 12" unfolding flag_powers bit_and_iff bit_or_iff bit_exp_iff by auto
    then have "bit r n = bit (flags AND NOT (O_NONBLOCK OR O_SYNC) OR O_TRUNC) n" for n
      using in_range [of n] unfolding bits_r bits_m flag_powers bit_and_iff bit_or_iff bit_not_iff bit_exp_iff by auto
    then have "r = flags AND NOT (O_NONBLOCK OR O_SYNC) OR O_TRUNC" by (intro bit_eqI) blast
    with False show ?thesis by simp
  qed
  ultimately show ?thesis by simp
qed

section \<open>Properties\<close>

text \<open>
  C33: the flags of \<open>open\<close> arrive at the kernel as the client gave them, for all flags that the C library has, except \<open>O_NONBLOCK\<close> and
  \<open>O_SYNC\<close>: a file opened with one of them is truncated instead. (The client translates with the columns of the table exchanged.)
\<close>

theorem vfs_open_flags:
  assumes "flags AND NOT (O_ACCMODE OR O_CREAT OR O_EXCL OR O_NOCTTY OR O_TRUNC OR O_APPEND OR O_NONBLOCK OR O_SYNC) = 0"
  shows "vfs_flags vfs_flags_open (word_of_int (vfs_flags vfs_flags_open flags True)) False
    = sint (if flags AND (O_NONBLOCK OR O_SYNC) = 0 then flags else flags AND NOT (O_NONBLOCK OR O_SYNC) OR O_TRUNC)"
  using open_through [OF assms] by (simp only: open_through_def)

theorem vfs_open_flags_witness:
  "vfs_flags vfs_flags_open (word_of_int (vfs_flags vfs_flags_open (O_RDWR OR O_CREAT) True)) False = sint (O_RDWR OR O_CREAT)
   \<and> vfs_flags vfs_flags_open (word_of_int (vfs_flags vfs_flags_open (O_RDWR OR O_SYNC) True)) False = sint (O_RDWR OR O_TRUNC)"
  using vfs_open_flags [of "O_RDWR OR O_CREAT"] vfs_open_flags [of "O_RDWR OR O_SYNC"]
  by (simp add: O_ACCMODE_def O_CREAT_def O_EXCL_def O_NOCTTY_def O_TRUNC_def O_APPEND_def O_NONBLOCK_def O_SYNC_def O_RDWR_def)

text \<open>
  An error number that the server translates is the one that the client gets from it: the server's translation is negative, and the
  client's gives \<open>- 1\<close> and the same error number, or \<open>EPROTO\<close> for errors that are not in the table.
\<close>

theorem vfs_errno_roundtrip:
  "case vfs_errno vfs_error e False w of (r, w1) \<Rightarrow>
     r < 0 \<and> w1 = w \<and> vfs_errno vfs_error (- r) True w2 = (- 1, w2\<lparr>errno := if e \<in> fst ` set vfs_error then e else EPROTO\<rparr>)"
  using vfs_errno_through [of e w _ _ w2] by (auto split: prod.split)

end
