(* ===== verification/Vfs_Server.thy ===== *)
theory Vfs_Server
  imports App_Safe Vfs_Common
begin

text \<open>
  The VFS server, \<open>VFS/src/vfs.c\<close>: a program of libApp that runs file operations for its clients. The calls of a client
  are its entry points \<open>VFS_access\<close>, \<open>VFS_chmod\<close>, ...; it keeps a table of the clients with the descriptors they have
  opened, and refuses the descriptors of others.

  A client is known by the address that \<open>appserver_get_client_id\<close> gives (\<open>None\<close>: no call is being run). The kernel (with
  the directory streams of the C library) is a parameter \<open>fs\<close> with a state \<open>'k\<close>; a call of it fails with
  an error number. A \<open>DIR *\<close> is a number.
\<close>

record VFSFile =
  vf_fd :: int
  vf_dir :: "nat option"

record VFSClient =
  vc_id :: nat
  vc_umask :: "32 word"
  vc_files :: "VFSFile list"

record 'k vfs =
  vs_clients :: "VFSClient list"
  vs_kernel :: 'k

record 'k files =
  f_access :: "string \<Rightarrow> int \<Rightarrow> 'k \<Rightarrow> int option \<times> 'k"
  f_chmod :: "string \<Rightarrow> 32 word \<Rightarrow> 'k \<Rightarrow> int option \<times> 'k"
  f_chown :: "string \<Rightarrow> 32 word \<Rightarrow> 32 word \<Rightarrow> 'k \<Rightarrow> int option \<times> 'k"
  f_close :: "int \<Rightarrow> 'k \<Rightarrow> int option \<times> 'k"
  f_closedir :: "nat \<Rightarrow> 'k \<Rightarrow> int option \<times> 'k"
  f_dirfd :: "nat \<Rightarrow> 'k \<Rightarrow> (int + int) \<times> 'k"
  f_fchmod :: "int \<Rightarrow> 32 word \<Rightarrow> 'k \<Rightarrow> int option \<times> 'k"
  f_fchown :: "int \<Rightarrow> 32 word \<Rightarrow> 32 word \<Rightarrow> 'k \<Rightarrow> int option \<times> 'k"
  f_flock :: "int \<Rightarrow> 32 word \<Rightarrow> 'k \<Rightarrow> int option \<times> 'k"
  f_lchown :: "string \<Rightarrow> 32 word \<Rightarrow> 32 word \<Rightarrow> 'k \<Rightarrow> int option \<times> 'k"
  f_link :: "string \<Rightarrow> string \<Rightarrow> 'k \<Rightarrow> int option \<times> 'k"
  f_lseek :: "int \<Rightarrow> int \<Rightarrow> int \<Rightarrow> 'k \<Rightarrow> (int + int) \<times> 'k"
  f_mkdir :: "string \<Rightarrow> 32 word \<Rightarrow> 'k \<Rightarrow> int option \<times> 'k"
  f_open :: "string \<Rightarrow> int \<Rightarrow> 32 word \<Rightarrow> 'k \<Rightarrow> (int + int) \<times> 'k"
  f_opendir :: "string \<Rightarrow> 'k \<Rightarrow> (int + nat) \<times> 'k"
  f_read :: "int \<Rightarrow> nat \<Rightarrow> 'k \<Rightarrow> (int + string) \<times> 'k"
  f_readdir :: "nat \<Rightarrow> 'k \<Rightarrow> string option \<times> 'k"
  f_rename :: "string \<Rightarrow> string \<Rightarrow> 'k \<Rightarrow> int option \<times> 'k"
  f_rewinddir :: "nat \<Rightarrow> 'k \<Rightarrow> 'k"
  f_rmdir :: "string \<Rightarrow> 'k \<Rightarrow> int option \<times> 'k"
  f_symlink :: "string \<Rightarrow> string \<Rightarrow> 'k \<Rightarrow> int option \<times> 'k"
  f_umask :: "32 word \<Rightarrow> 'k \<Rightarrow> 32 word \<times> 'k"
  f_unlink :: "string \<Rightarrow> 'k \<Rightarrow> int option \<times> 'k"
  f_write :: "int \<Rightarrow> string \<Rightarrow> 'k \<Rightarrow> (int + nat) \<times> 'k"

text \<open>The server program and the process it runs in.\<close>

type_synonym 'k vst = "'k vfs \<times> world"

definition vfs_package :: string where "vfs_package = ''VFS''"

section \<open>System calls\<close>

text \<open>A call with the result 0, or \<open>- 1\<close> and \<open>errno\<close>.\<close>

definition sys_call :: "('k \<Rightarrow> int option \<times> 'k) \<Rightarrow> 'k vst \<Rightarrow> int \<times> 'k vst" where
  "sys_call f st =
     (case st of (s, w) \<Rightarrow>
        case f (vs_kernel s) of
          (None, k) \<Rightarrow> (0, s\<lparr>vs_kernel := k\<rparr>, w)
        | (Some e, k) \<Rightarrow> (- 1, s\<lparr>vs_kernel := k\<rparr>, w\<lparr>errno := e\<rparr>))"

text \<open>A number that is kept as an \<open>int32_t\<close>.\<close>

definition int32 :: "int \<Rightarrow> int" where
  "int32 i = sint (word_of_int i :: 32 word)"

text \<open>\<open>_vfs_errno(_vfs_error, _vfs_error_cnt, errno, 0)\<close>\<close>

definition vfs_failed :: "'k vst \<Rightarrow> int \<times> 'k vst" where
  "vfs_failed st = (case st of (s, w) \<Rightarrow> case vfs_errno vfs_error (errno w) False w of (r, w') \<Rightarrow> (r, s, w'))"

section \<open>Clients\<close>

definition vfs_client_init :: "'k \<Rightarrow> 'k vfs" where
  "vfs_client_init k = \<lparr>vs_clients = [], vs_kernel = k\<rparr>"

definition vfs_client_destroy :: "'k vfs \<Rightarrow> 'k vfs" where
  "vfs_client_destroy s = s\<lparr>vs_clients := []\<rparr>"

fun vfs_client_find :: "VFSClient list \<Rightarrow> nat \<Rightarrow> nat option" where
  "vfs_client_find [] i = None"
| "vfs_client_find (c # cs) i = (if vc_id c = i then Some 0 else map_option Suc (vfs_client_find cs i))"

text \<open>The place of the current client in the table.\<close>

definition vfs_client_get :: "nat option \<Rightarrow> 'k vst \<Rightarrow> nat option \<times> 'k vst" where
  "vfs_client_get cur st =
     (case st of (s, w) \<Rightarrow>
        case cur of
          None \<Rightarrow> (None, s, snd (error_print (Some vfs_package) w))
        | Some i \<Rightarrow> (vfs_client_find (vs_clients s) i, s, w))"

text \<open>The default mask is read by setting it, and is restored.\<close>

definition umask_get :: "'k files \<Rightarrow> 'k \<Rightarrow> 32 word \<times> 'k" where
  "umask_get fs k = (case f_umask fs 0 k of (m, k1) \<Rightarrow> (m, snd (f_umask fs m k1)))"

definition vfs_client_get_umask :: "'k files \<Rightarrow> nat option \<Rightarrow> 'k vst \<Rightarrow> 32 word \<times> 'k vst" where
  "vfs_client_get_umask fs cur st =
     (case vfs_client_get cur st of
        (Some p, s, w) \<Rightarrow> (vc_umask (vs_clients s ! p), s, w)
      | (None, s, w) \<Rightarrow> (case umask_get fs (vs_kernel s) of (m, k) \<Rightarrow> (m, s\<lparr>vs_kernel := k\<rparr>, w)))"

definition vfs_client_add :: "'k files \<Rightarrow> nat option \<Rightarrow> 'k vst \<Rightarrow> nat option \<times> 'k vst" where
  "vfs_client_add fs cur st =
     (case vfs_client_get cur st of
        (Some p, s, w) \<Rightarrow> (Some p, s, w)
      | (None, s, w) \<Rightarrow>
          (case cur of
             None \<Rightarrow> (None, s, snd (error_print (Some vfs_package) w))
           | Some i \<Rightarrow>
               (case w_alloc w of
                  (False, w1) \<Rightarrow>
                    (case strerror (errno w1) w1 of
                       (msg, w2) \<Rightarrow> (None, s, snd (error_set_print (Some vfs_package) 1 msg w2)))
                | (True, w1) \<Rightarrow>
                    (case umask_get fs (vs_kernel s) of
                       (m, k) \<Rightarrow>
                         (Some (length (vs_clients s)),
                          s\<lparr>vs_clients := vs_clients s @ [\<lparr>vc_id = i, vc_umask = m, vc_files = []\<rparr>], vs_kernel := k\<rparr>, w1)))))"

definition vfs_client_set_umask :: "'k files \<Rightarrow> nat option \<Rightarrow> 32 word \<Rightarrow> 'k vst \<Rightarrow> int \<times> 'k vst" where
  "vfs_client_set_umask fs cur um st =
     (case vfs_client_add fs cur st of
        (None, s, w) \<Rightarrow> (1, s, w)
      | (Some p, s, w) \<Rightarrow> (0, s\<lparr>vs_clients := (vs_clients s)[p := (vs_clients s ! p)\<lparr>vc_umask := um\<rparr>]\<rparr>, w))"

text \<open>The first entry with a descriptor.\<close>

definition vfs_file_find :: "VFSFile list \<Rightarrow> int \<Rightarrow> VFSFile option" where
  "vfs_file_find fs fd = find (\<lambda>f. vf_fd f = fd) fs"

definition vfs_client_check :: "nat option \<Rightarrow> int \<Rightarrow> 'k vst \<Rightarrow> bool \<times> 'k vst" where
  "vfs_client_check cur fd st =
     (case vfs_client_get cur st of
        (None, s, w) \<Rightarrow> (False, s, w)
      | (Some p, s, w) \<Rightarrow>
          ((case vfs_file_find (vc_files (vs_clients s ! p)) fd of None \<Rightarrow> False | Some f \<Rightarrow> vf_dir f = None), s, w))"

definition vfs_client_check_dir :: "nat option \<Rightarrow> int \<Rightarrow> 'k vst \<Rightarrow> nat option \<times> 'k vst" where
  "vfs_client_check_dir cur fd st =
     (case vfs_client_get cur st of
        (None, s, w) \<Rightarrow> (None, s, w)
      | (Some p, s, w) \<Rightarrow>
          ((case vfs_file_find (vc_files (vs_clients s ! p)) fd of None \<Rightarrow> None | Some f \<Rightarrow> vf_dir f), s, w))"

definition vfs_client_add_file :: "'k files \<Rightarrow> nat option \<Rightarrow> int \<Rightarrow> nat option \<Rightarrow> 'k vst \<Rightarrow> int \<times> 'k vst" where
  "vfs_client_add_file fs cur fd dir st =
     (case vfs_client_add fs cur st of
        (None, s, w) \<Rightarrow> (1, s, w)
      | (Some p, s, w) \<Rightarrow>
          (case w_alloc w of
             (False, w1) \<Rightarrow>
               (case strerror (errno w1) w1 of
                  (msg, w2) \<Rightarrow> (case error_set_print (Some vfs_package) 1 msg w2 of (r, w3) \<Rightarrow> (r, s, w3)))
           | (True, w1) \<Rightarrow>
               (let c = vs_clients s ! p in
                (0, s\<lparr>vs_clients := (vs_clients s)[p := c\<lparr>vc_files := vc_files c @ [\<lparr>vf_fd = fd, vf_dir = dir\<rparr>]\<rparr>]\<rparr>, w1))))"

fun vfs_file_remove :: "VFSFile list \<Rightarrow> int \<Rightarrow> VFSFile list" where
  "vfs_file_remove [] fd = []"
| "vfs_file_remove (f # fs) fd = (if vf_fd f = fd then fs else f # vfs_file_remove fs fd)"

text \<open>A failed \<open>realloc\<close> leaves the larger block.\<close>

definition vfs_client_remove_file :: "nat option \<Rightarrow> int \<Rightarrow> 'k vst \<Rightarrow> int \<times> 'k vst" where
  "vfs_client_remove_file cur fd st =
     (if fd < 0 then
        (case st of (s, w) \<Rightarrow>
           case strerror EINVAL w of
             (msg, w1) \<Rightarrow> (case error_set_print (Some vfs_package) 1 msg w1 of (r, w2) \<Rightarrow> (r, s, w2)))
      else case vfs_client_get cur st of
        (None, s, w) \<Rightarrow> (1, s, w)
      | (Some p, s, w) \<Rightarrow>
          (let c = vs_clients s ! p in
           if vfs_file_find (vc_files c) fd = None then (0, s, w)
           else (0, s\<lparr>vs_clients := (vs_clients s)[p := c\<lparr>vc_files := vfs_file_remove (vc_files c) fd\<rparr>]\<rparr>, snd (w_alloc w))))"

section \<open>Calls on paths\<close>

text \<open>The stubs: the first two translate errors, the third does not.\<close>

definition vfs_stub :: "('k \<Rightarrow> int option \<times> 'k) \<Rightarrow> 'k vst \<Rightarrow> int \<times> 'k vst" where
  "vfs_stub f st = (case sys_call f st of (res, st1) \<Rightarrow> if res \<noteq> 0 then vfs_failed st1 else (res, st1))"

definition vfs_stub3 :: "('k \<Rightarrow> int option \<times> 'k) \<Rightarrow> 'k vst \<Rightarrow> int \<times> 'k vst" where
  "vfs_stub3 f st = sys_call f st"

definition VFS_chmod :: "'k files \<Rightarrow> string \<Rightarrow> 32 word \<Rightarrow> 'k vst \<Rightarrow> int \<times> 'k vst" where
  "VFS_chmod fs path mode = vfs_stub (f_chmod fs path mode)"

definition VFS_chown :: "'k files \<Rightarrow> string \<Rightarrow> 32 word \<Rightarrow> 32 word \<Rightarrow> 'k vst \<Rightarrow> int \<times> 'k vst" where
  "VFS_chown fs path owner grp = vfs_stub3 (f_chown fs path owner grp)"

definition VFS_lchown :: "'k files \<Rightarrow> string \<Rightarrow> 32 word \<Rightarrow> 32 word \<Rightarrow> 'k vst \<Rightarrow> int \<times> 'k vst" where
  "VFS_lchown fs path owner grp = vfs_stub3 (f_lchown fs path owner grp)"

definition VFS_link :: "'k files \<Rightarrow> string \<Rightarrow> string \<Rightarrow> 'k vst \<Rightarrow> int \<times> 'k vst" where
  "VFS_link fs name1 name2 = vfs_stub (f_link fs name1 name2)"

definition VFS_rename :: "'k files \<Rightarrow> string \<Rightarrow> string \<Rightarrow> 'k vst \<Rightarrow> int \<times> 'k vst" where
  "VFS_rename fs old new = vfs_stub (f_rename fs old new)"

definition VFS_rmdir :: "'k files \<Rightarrow> string \<Rightarrow> 'k vst \<Rightarrow> int \<times> 'k vst" where
  "VFS_rmdir fs path = vfs_stub (f_rmdir fs path)"

definition VFS_symlink :: "'k files \<Rightarrow> string \<Rightarrow> string \<Rightarrow> 'k vst \<Rightarrow> int \<times> 'k vst" where
  "VFS_symlink fs name1 name2 = vfs_stub (f_symlink fs name1 name2)"

definition VFS_unlink :: "'k files \<Rightarrow> string \<Rightarrow> 'k vst \<Rightarrow> int \<times> 'k vst" where
  "VFS_unlink fs path = vfs_stub (f_unlink fs path)"

definition VFS_access :: "'k files \<Rightarrow> string \<Rightarrow> 32 word \<Rightarrow> 'k vst \<Rightarrow> int \<times> 'k vst" where
  "VFS_access fs path mode st =
     (let vfsmode = vfs_flags vfs_flags_access mode False in
      if vfsmode < 0 then (- VFS_EPROTO, st)
      else case sys_call (f_access fs path vfsmode) st of (r, st1) \<Rightarrow> if r \<noteq> 0 then vfs_failed st1 else (0, st1))"

definition VFS_mkdir :: "'k files \<Rightarrow> nat option \<Rightarrow> string \<Rightarrow> 32 word \<Rightarrow> 'k vst \<Rightarrow> int \<times> 'k vst" where
  "VFS_mkdir fs cur path mode st =
     (case vfs_client_get_umask fs cur st of
        (um, st1) \<Rightarrow>
          (case sys_call (f_mkdir fs path (mode AND um)) st1 of
             (r, st2) \<Rightarrow> if r \<noteq> 0 then vfs_failed st2 else (0, st2)))"

definition VFS_umask :: "'k files \<Rightarrow> nat option \<Rightarrow> 32 word \<Rightarrow> 'k vst \<Rightarrow> 32 word \<times> 'k vst" where
  "VFS_umask fs cur um st =
     (case vfs_client_get_umask fs cur st of
        (ret, st1) \<Rightarrow> (case vfs_client_set_umask fs cur um st1 of (_, st2) \<Rightarrow> (ret, st2)))"

section \<open>Opening\<close>

definition VFS_open :: "'k files \<Rightarrow> nat option \<Rightarrow> string \<Rightarrow> 32 word \<Rightarrow> 32 word \<Rightarrow> 'k vst \<Rightarrow> int \<times> 'k vst" where
  "VFS_open fs cur filename flags mode st =
     (let vfsflags = vfs_flags vfs_flags_open flags False in
      if vfsflags < 0 then (- 1, st)
      else case vfs_client_get_umask fs cur st of
        (um, s, w) \<Rightarrow>
          (case f_open fs filename vfsflags (mode AND um) (vs_kernel s) of
             (Inl e, k) \<Rightarrow> vfs_failed (s\<lparr>vs_kernel := k\<rparr>, w\<lparr>errno := e\<rparr>)
           | (Inr fd, k) \<Rightarrow>
               (case vfs_client_add_file fs cur fd None (s\<lparr>vs_kernel := k\<rparr>, w) of
                  (r, st2) \<Rightarrow> if r \<noteq> 0 then (- VFS_EPROTO, snd (sys_call (f_close fs fd) st2)) else (fd, st2))))"

text \<open>\<open>opendir\<close> and \<open>dirfd\<close> with a condition; a stream that was opened is closed again when there is no descriptor.\<close>

definition VFS_opendir :: "'k files \<Rightarrow> nat option \<Rightarrow> string \<Rightarrow> 'k vst \<Rightarrow> int \<times> 'k vst" where
  "VFS_opendir fs cur filename st =
     (case st of (s, w) \<Rightarrow>
        case f_opendir fs filename (vs_kernel s) of
          (Inl e, k) \<Rightarrow> vfs_failed (s\<lparr>vs_kernel := k\<rparr>, w\<lparr>errno := e\<rparr>)
        | (Inr dir, k) \<Rightarrow>
            (case f_dirfd fs dir k of
               (Inl e, k2) \<Rightarrow> vfs_failed (snd (sys_call (f_closedir fs dir) (s\<lparr>vs_kernel := k2\<rparr>, w\<lparr>errno := e\<rparr>)))
             | (Inr fd, k2) \<Rightarrow>
                 (case vfs_client_add_file fs cur fd (Some dir) (s\<lparr>vs_kernel := k2\<rparr>, w) of
                    (r, st2) \<Rightarrow> if r \<noteq> 0 then (- VFS_EPROTO, snd (sys_call (f_closedir fs dir) st2)) else (fd, st2))))"

section \<open>Calls on descriptors\<close>

definition VFS_close :: "'k files \<Rightarrow> nat option \<Rightarrow> int \<Rightarrow> 'k vst \<Rightarrow> int \<times> 'k vst" where
  "VFS_close fs cur fd st =
     (case vfs_client_check cur fd st of
        (ok, st1) \<Rightarrow>
          if \<not> ok then (- VFS_EPROTO, st1)
          else case sys_call (f_close fs fd) st1 of
            (ret, st2) \<Rightarrow> if ret = 0 then (0, snd (vfs_client_remove_file cur fd st2)) else vfs_failed st2)"

definition VFS_closedir :: "'k files \<Rightarrow> nat option \<Rightarrow> int \<Rightarrow> 'k vst \<Rightarrow> int \<times> 'k vst" where
  "VFS_closedir fs cur dir st =
     (case vfs_client_check_dir cur dir st of
        (None, st1) \<Rightarrow> (- VFS_EPROTO, st1)
      | (Some d, st1) \<Rightarrow>
          (case sys_call (f_closedir fs d) st1 of
             (ret, st2) \<Rightarrow> if ret = 0 then (0, snd (vfs_client_remove_file cur dir st2)) else vfs_failed st2))"

definition VFS_dirfd :: "nat option \<Rightarrow> int \<Rightarrow> 'k vst \<Rightarrow> int \<times> 'k vst" where
  "VFS_dirfd cur dir st =
     (case vfs_client_check_dir cur dir st of (d, st1) \<Rightarrow> (if d = None then - VFS_EPROTO else dir, st1))"

text \<open>The check of the descriptor, then a call whose errors are translated.\<close>

definition vfs_on_fd :: "nat option \<Rightarrow> int \<Rightarrow> ('k \<Rightarrow> int option \<times> 'k) \<Rightarrow> 'k vst \<Rightarrow> int \<times> 'k vst" where
  "vfs_on_fd cur fd f st =
     (case vfs_client_check cur fd st of
        (ok, st1) \<Rightarrow>
          if \<not> ok then (- VFS_EPROTO, st1)
          else case sys_call f st1 of (r, st2) \<Rightarrow> if r \<noteq> 0 then vfs_failed st2 else (0, st2))"

definition VFS_fchmod :: "'k files \<Rightarrow> nat option \<Rightarrow> int \<Rightarrow> 32 word \<Rightarrow> 'k vst \<Rightarrow> int \<times> 'k vst" where
  "VFS_fchmod fs cur fd mode = vfs_on_fd cur fd (f_fchmod fs fd mode)"

definition VFS_fchown :: "'k files \<Rightarrow> nat option \<Rightarrow> int \<Rightarrow> 32 word \<Rightarrow> 32 word \<Rightarrow> 'k vst \<Rightarrow> int \<times> 'k vst" where
  "VFS_fchown fs cur fd owner grp = vfs_on_fd cur fd (f_fchown fs fd owner grp)"

definition VFS_flock :: "'k files \<Rightarrow> nat option \<Rightarrow> int \<Rightarrow> 32 word \<Rightarrow> 'k vst \<Rightarrow> int \<times> 'k vst" where
  "VFS_flock fs cur fd operation = vfs_on_fd cur fd (f_flock fs fd operation)"

text \<open>The new offset is kept in an \<open>int\<close>; a negative one is taken for an error.\<close>

definition VFS_lseek :: "'k files \<Rightarrow> nat option \<Rightarrow> int \<Rightarrow> int \<Rightarrow> 32 word \<Rightarrow> 'k vst \<Rightarrow> int \<times> 'k vst" where
  "VFS_lseek fs cur fd off whence st =
     (case vfs_client_check cur fd st of
        (ok, s, w) \<Rightarrow>
          if \<not> ok then (- VFS_EPROTO, s, w)
          else let how = vfs_flags vfs_flags_lseek whence False in
            if how < 0 then (- VFS_EPROTO, s, w)
            else case f_lseek fs fd off how (vs_kernel s) of
              (Inl e, k) \<Rightarrow> vfs_failed (s\<lparr>vs_kernel := k\<rparr>, w\<lparr>errno := e\<rparr>)
            | (Inr n, k) \<Rightarrow>
                if int32 n < 0 then vfs_failed (s\<lparr>vs_kernel := k\<rparr>, w) else (int32 n, s\<lparr>vs_kernel := k\<rparr>, w))"

text \<open>The buffer is made as large as asked for, filled, and cut to what was read; \<open>memset\<close> when that fails.\<close>

definition VFS_read :: "'k files \<Rightarrow> (nat \<Rightarrow> char) \<Rightarrow> nat option \<Rightarrow> int \<Rightarrow> Buffer \<Rightarrow> 32 word \<Rightarrow> 'k vst
    \<Rightarrow> (int \<times> Buffer \<times> 'k vst) option" where
  "VFS_read fs junk cur fd b sz st =
     (case vfs_client_check cur fd st of
        (ok, s, w) \<Rightarrow>
          if \<not> ok then Some (- VFS_EPROTO, b, s, w)
          else do {
            (r, b1, w1) \<leftarrow> buffer_set_size junk b (unat sz) w;
            if r \<noteq> 0 then Some (- VFS_EPROTO, b1, s, w1)
            else do {
              let (res, k) = f_read fs fd (unat sz) (vs_kernel s);
              (ret, b2, w2) \<leftarrow>
                (case res of
                   Inl e \<Rightarrow> Some (- 1, b1, w1\<lparr>errno := e\<rparr>)
                 | Inr bs \<Rightarrow> do { d \<leftarrow> write_block (buffer_get_data b1) 0 bs; Some (int32 (int (length bs)), b1\<lparr>buf_data := d\<rparr>, w1) });
              (r3, b3, w3) \<leftarrow> buffer_set_size junk b2 (if ret < 0 then 0 else nat ret) w2;
              if r3 \<noteq> 0 then
                do { d \<leftarrow> write_block (buffer_get_data b3) 0 (replicate (unat sz) NUL);
                     Some (- VFS_EPROTO, b3\<lparr>buf_data := d\<rparr>, s\<lparr>vs_kernel := k\<rparr>, w3) }
              else if ret < 0 then
                (case vfs_failed (s\<lparr>vs_kernel := k\<rparr>, w3) of (e, st4) \<Rightarrow> Some (e, b3, st4))
              else Some (ret, b3, s\<lparr>vs_kernel := k\<rparr>, w3) } })"

text \<open>\<open>str\<close> is the string that the caller's pointer points to.\<close>

definition VFS_readdir :: "'k files \<Rightarrow> nat option \<Rightarrow> int \<Rightarrow> string option \<Rightarrow> 'k vst \<Rightarrow> int \<times> string option \<times> 'k vst" where
  "VFS_readdir fs cur dir str st =
     (case vfs_client_check_dir cur dir st of
        (None, st1) \<Rightarrow> (- VFS_EPROTO, str, st1)
      | (Some d, s, w) \<Rightarrow>
          (case f_readdir fs d (vs_kernel s) of
             (None, k) \<Rightarrow> (- VFS_EPROTO, str, s\<lparr>vs_kernel := k\<rparr>, w)
           | (Some name, k) \<Rightarrow>
               (case string_new (Some name) w of
                  (new, w1) \<Rightarrow> (if new = None then - VFS_EPROTO else 0, new, s\<lparr>vs_kernel := k\<rparr>, w1))))"

definition VFS_rewinddir :: "'k files \<Rightarrow> nat option \<Rightarrow> int \<Rightarrow> 'k vst \<Rightarrow> int \<times> 'k vst" where
  "VFS_rewinddir fs cur dir st =
     (case vfs_client_check_dir cur dir st of
        (None, st1) \<Rightarrow> (- 1, st1)
      | (Some d, s, w) \<Rightarrow> (0, s\<lparr>vs_kernel := f_rewinddir fs d (vs_kernel s)\<rparr>, w))"

text \<open>The result of \<open>write\<close> is returned as it is.\<close>

definition VFS_write :: "'k files \<Rightarrow> nat option \<Rightarrow> int \<Rightarrow> Buffer \<Rightarrow> 32 word \<Rightarrow> 'k vst \<Rightarrow> (int \<times> 'k vst) option" where
  "VFS_write fs cur fd b sz st =
     (case vfs_client_check cur fd st of
        (ok, s, w) \<Rightarrow>
          if \<not> ok then Some (- VFS_EPROTO, s, w)
          else if buffer_get_size b < unat sz then Some (- 1, s, w)
          else do {
            bs \<leftarrow> read_block (buffer_get_data b) 0 (unat sz);
            case f_write fs fd bs (vs_kernel s) of
              (Inl e, k) \<Rightarrow> Some (- 1, s\<lparr>vs_kernel := k\<rparr>, w\<lparr>errno := e\<rparr>)
            | (Inr n, k) \<Rightarrow> Some (int32 (int n), s\<lparr>vs_kernel := k\<rparr>, w) })"

section \<open>The program\<close>

text \<open>The arguments of a call as the functions declare them.\<close>

abbreviation "i32 x \<equiv> sint (ucast (x :: 64 word) :: 32 word)"
abbreviation "u32 x \<equiv> ucast (x :: 64 word) :: 32 word"

definition plain :: "slot list \<Rightarrow> int \<times> 'k vst \<Rightarrow> (32 word \<times> slot list \<times> 'k vst) option" where
  "plain ss x = (case x of (r, st) \<Rightarrow> Some (word_of_int r, ss, st))"

text \<open>The symbols of the program, for the calls of \<open>VFS/include/VFS.interface\<close>.\<close>

definition vfs_functions ::
  "'k files \<Rightarrow> (nat \<Rightarrow> char)
     \<Rightarrow> (string \<times> (nat option \<Rightarrow> slot list \<Rightarrow> 'k vst \<Rightarrow> (32 word \<times> slot list \<times> 'k vst) option)) list" where
  "vfs_functions fs junk =
    [(''VFS_access'', \<lambda>cur ss st. case ss of [SString p, SLong m] \<Rightarrow> plain ss (VFS_access fs p (u32 m) st) | _ \<Rightarrow> None),
     (''VFS_chmod'', \<lambda>cur ss st. case ss of [SString p, SLong m] \<Rightarrow> plain ss (VFS_chmod fs p (u32 m) st) | _ \<Rightarrow> None),
     (''VFS_chown'', \<lambda>cur ss st. case ss of [SString p, SLong u, SLong g] \<Rightarrow> plain ss (VFS_chown fs p (u32 u) (u32 g) st) | _ \<Rightarrow> None),
     (''VFS_close'', \<lambda>cur ss st. case ss of [SLong fd] \<Rightarrow> plain ss (VFS_close fs cur (i32 fd) st) | _ \<Rightarrow> None),
     (''VFS_closedir'', \<lambda>cur ss st. case ss of [SLong d] \<Rightarrow> plain ss (VFS_closedir fs cur (i32 d) st) | _ \<Rightarrow> None),
     (''VFS_dirfd'', \<lambda>cur ss st. case ss of [SLong d] \<Rightarrow> plain ss (VFS_dirfd cur (i32 d) st) | _ \<Rightarrow> None),
     (''VFS_fchmod'', \<lambda>cur ss st. case ss of [SLong fd, SLong m] \<Rightarrow> plain ss (VFS_fchmod fs cur (i32 fd) (u32 m) st) | _ \<Rightarrow> None),
     (''VFS_fchown'', \<lambda>cur ss st. case ss of
        [SLong fd, SLong u, SLong g] \<Rightarrow> plain ss (VFS_fchown fs cur (i32 fd) (u32 u) (u32 g) st) | _ \<Rightarrow> None),
     (''VFS_flock'', \<lambda>cur ss st. case ss of [SLong fd, SLong m] \<Rightarrow> plain ss (VFS_flock fs cur (i32 fd) (u32 m) st) | _ \<Rightarrow> None),
     (''VFS_lchown'', \<lambda>cur ss st. case ss of [SString p, SLong u, SLong g] \<Rightarrow> plain ss (VFS_lchown fs p (u32 u) (u32 g) st) | _ \<Rightarrow> None),
     (''VFS_link'', \<lambda>cur ss st. case ss of [SString p, SString q] \<Rightarrow> plain ss (VFS_link fs p q st) | _ \<Rightarrow> None),
     (''VFS_lseek'', \<lambda>cur ss st. case ss of
        [SLong fd, SLong off, SLong how] \<Rightarrow> plain ss (VFS_lseek fs cur (i32 fd) (i32 off) (u32 how) st) | _ \<Rightarrow> None),
     (''VFS_mkdir'', \<lambda>cur ss st. case ss of [SString p, SLong m] \<Rightarrow> plain ss (VFS_mkdir fs cur p (u32 m) st) | _ \<Rightarrow> None),
     (''VFS_open'', \<lambda>cur ss st. case ss of
        [SString p, SLong f, SLong m] \<Rightarrow> plain ss (VFS_open fs cur p (u32 f) (u32 m) st) | _ \<Rightarrow> None),
     (''VFS_opendir'', \<lambda>cur ss st. case ss of [SString p] \<Rightarrow> plain ss (VFS_opendir fs cur p st) | _ \<Rightarrow> None),
     (''VFS_read'', \<lambda>cur ss st. case ss of
        [SLong fd, SBuffer b, SLong n] \<Rightarrow>
          do { (r, b', st') \<leftarrow> VFS_read fs junk cur (i32 fd) b (u32 n) st;
               Some (word_of_int r, [SLong fd, SBuffer b', SLong n], st') } | _ \<Rightarrow> None),
     (''VFS_readdir'', \<lambda>cur ss st. case ss of
        [SLong d, SOut (Some (CString p))] \<Rightarrow>
          (case VFS_readdir fs cur (i32 d) p st of
             (r, str, st') \<Rightarrow> Some (word_of_int r, [SLong d, SOut (Some (CString str))], st')) | _ \<Rightarrow> None),
     (''VFS_rename'', \<lambda>cur ss st. case ss of [SString p, SString q] \<Rightarrow> plain ss (VFS_rename fs p q st) | _ \<Rightarrow> None),
     (''VFS_rewinddir'', \<lambda>cur ss st. case ss of [SLong d] \<Rightarrow> plain ss (VFS_rewinddir fs cur (i32 d) st) | _ \<Rightarrow> None),
     (''VFS_rmdir'', \<lambda>cur ss st. case ss of [SString p] \<Rightarrow> plain ss (VFS_rmdir fs p st) | _ \<Rightarrow> None),
     (''VFS_symlink'', \<lambda>cur ss st. case ss of [SString p, SString q] \<Rightarrow> plain ss (VFS_symlink fs p q st) | _ \<Rightarrow> None),
     (''VFS_umask'', \<lambda>cur ss st. case ss of
        [SLong m] \<Rightarrow> (case VFS_umask fs cur (u32 m) st of (r, st') \<Rightarrow> Some (r, ss, st')) | _ \<Rightarrow> None),
     (''VFS_unlink'', \<lambda>cur ss st. case ss of [SString p] \<Rightarrow> plain ss (VFS_unlink fs p st) | _ \<Rightarrow> None),
     (''VFS_write'', \<lambda>cur ss st. case ss of
        [SLong fd, SBuffer b, SLong n] \<Rightarrow>
          do { (r, st') \<leftarrow> VFS_write fs cur (i32 fd) b (u32 n) st; Some (word_of_int r, ss, st') } | _ \<Rightarrow> None)]"

definition vfs_symbols :: "string list" where
  "vfs_symbols = [''VFS_access'', ''VFS_chmod'', ''VFS_chown'', ''VFS_close'', ''VFS_closedir'', ''VFS_dirfd'', ''VFS_fchmod'',
     ''VFS_fchown'', ''VFS_flock'', ''VFS_lchown'', ''VFS_link'', ''VFS_lseek'', ''VFS_mkdir'', ''VFS_open'', ''VFS_opendir'',
     ''VFS_read'', ''VFS_readdir'', ''VFS_rename'', ''VFS_rewinddir'', ''VFS_rmdir'', ''VFS_symlink'', ''VFS_umask'',
     ''VFS_unlink'', ''VFS_write'']"

text \<open>The program for libApp: a symbol is its place, a call runs the function there.\<close>

definition vfs_lookup :: "string option \<Rightarrow> nat option" where
  "vfs_lookup name = map_of (zip (map Some vfs_symbols) [0 ..< length vfs_symbols]) name"

definition vfs_env :: "'k files \<Rightarrow> (nat \<Rightarrow> char) \<Rightarrow> 'k vfs server_env" where
  "vfs_env fs junk cur f ss s w =
     do { (name, g) \<leftarrow> nth_opt (vfs_functions fs junk) f;
          g cur ss (s, w) }"

text \<open>\<open>options\<close> and \<open>mask\<close> come from the command line; \<open>adr\<close> gives the addresses of the clients; the root is not implemented.\<close>

definition vfs_main ::
  "'k kernel \<Rightarrow> (nat \<Rightarrow> char) \<Rightarrow> (AppServer \<Rightarrow> nat) \<Rightarrow> 'f files \<Rightarrow> (string \<Rightarrow> world \<Rightarrow> (AppInterface option \<times> world) option)
     \<Rightarrow> (AppServer \<times> 'k \<times> 'f vfs \<Rightarrow> (int + timeval) \<times> AppServer \<times> 'k \<times> 'f vfs)
     \<Rightarrow> (int \<Rightarrow> int set \<Rightarrow> int set \<Rightarrow> timeval option \<Rightarrow> AppServer \<times> 'k \<times> 'f vfs
           \<Rightarrow> (int + int set \<times> int set \<times> timeval) \<times> AppServer \<times> 'k \<times> 'f vfs)
     \<Rightarrow> int \<Rightarrow> 32 word \<Rightarrow> world \<Rightarrow> 'k \<Rightarrow> 'f \<Rightarrow> (int \<times> world \<times> 'k \<times> 'f vfs) option" where
  "vfs_main kern junk adr fs loader gettimeofday select options um w k f =
     do { (r, w1, k1) \<leftarrow> appserver_new kern loader ''VFS'' options (w, k);
          case r of
            None \<Rightarrow> Some (1, snd (error_print (Some vfs_package) w1), k1, vfs_client_init f)
          | Some (srv, ev) \<Rightarrow>
              do { (_, ev2, w2, srv2, k2, u2) \<leftarrow>
                     appserver_loop (server_events kern junk adr (vfs_env fs junk) gettimeofday select)
                       (ev, w1, srv, k1, vfs_client_init (snd (f_umask fs um f)));
                   _ \<leftarrow> appserver_delete True (ev2, w2, srv2, k2, u2);
                   Some (0, w2, k2, vfs_client_destroy u2) } }"

end
