(* ===== verification/App_Declare.thy ===== *)
theory App_Declare
  imports App_Interface
begin

text \<open>
  Interface files as they are written by hand: what \<open>config_load\<close> reads from a text of comments, blank lines, headings and
  settings, and which calls \<open>appinterface_new\<close> makes of it.
\<close>

section \<open>Configuration files\<close>

datatype item = Comment string | Blank | Heading string | Setting string string

fun item_text :: "item \<Rightarrow> string" where
  "item_text (Comment s) = CHR ''#'' # s @ [NL]"
| "item_text Blank = [NL]"
| "item_text (Heading s) = CHR ''['' # s @ [CHR '']'', NL]"
| "item_text (Setting v x) = line_text (v, x)"

fun item_ok :: "item \<Rightarrow> bool" where
  "item_ok (Comment s) \<longleftrightarrow> NL \<notin> set s"
| "item_ok Blank \<longleftrightarrow> True"
| "item_ok (Heading s) \<longleftrightarrow> savable_section s"
| "item_ok (Setting v x) \<longleftrightarrow> savable_variable v \<and> printable x"

definition items_text :: "item list \<Rightarrow> string" where
  "items_text its = concat (map item_text its)"

text \<open>The settings with their sections, in order; the last one for a variable counts.\<close>

fun settings :: "string \<Rightarrow> item list \<Rightarrow> (string \<times> string \<times> string) list" where
  "settings sec [] = []"
| "settings sec (Heading s # its) = settings s its"
| "settings sec (Setting v x # its) = (sec, v, x) # settings sec its"
| "settings sec (_ # its) = settings sec its"

definition declared :: "item list \<Rightarrow> string \<Rightarrow> string \<Rightarrow> string option" where
  "declared its sec = map_of (rev (map snd (filter (\<lambda>p. fst p = sec) (settings [] its))))"

text \<open>No section is without a variable.\<close>

definition cfg_full :: "Config \<Rightarrow> bool" where
  "cfg_full config \<longleftrightarrow> (\<forall>s h. hash_lookup config s = Some h \<longrightarrow> hash_lookup h \<noteq> Map.empty)"

lemma config_set_variable_store:
  assumes "cfg_inv config" "cstring sec" "cstring var" "hash_lookup config sec = Some h"
    and "config_set_variable config sec h var val w = (0, config', w')"
  shows "\<exists>h'. hash_lookup config' = (hash_lookup config)(sec \<mapsto> h') \<and> hash_lookup h' var = val"
proof -
  have h: "str_hash_inv h" "str_hash_inv config" using assms(1,4) by (auto simp: cfg_inv_def)
  from assms(5) obtain h' w1 w2 where "hash_set h var val w1 = (0, h', w2)" "config' = section_store config sec h'"
    by (auto simp: config_set_variable_def dest!: string_new_result split: prod.splits option.splits if_splits)
  with strkeys.set_result [OF h(1) assms(3)] section_store_lookup [OF h(2) assms(2)] assms(4) show ?thesis by auto
qed

lemma config_set_store:
  assumes "cfg_inv config" "cstring sec" "cstring var" "config_set config (Some sec) var val w = (0, config', w')"
  shows "\<exists>h'. hash_lookup config' = (hash_lookup config)(sec \<mapsto> h') \<and> hash_lookup h' var = val"
proof -
  have c: "str_hash_inv config" using assms(1) by (simp add: cfg_inv_def)
  obtain p w1 where get: "hash_get config sec w = (p, w1)" by fastforce
  with strkeys.get_lookup [OF c assms(2), of w] have p: "p = hash_lookup config sec" by simp
  show ?thesis
  proof (cases p)
    case (Some h)
    obtain q w2 where "hash_get h var w1 = (q, w2)" by fastforce
    with assms(4) get Some have "config_set_variable config sec h var val w2 = (0, config', w')" by (simp add: config_set_def)
    moreover have "hash_lookup config sec = Some h" using p Some by simp
    ultimately show ?thesis using config_set_variable_store [OF assms(1-3)] by blast
  next
    case None
    let ?h = "\<lparr>h_func = Some hash_func_string, h_compare = hash_compare_string, h_entries = []\<rparr> :: section_hash"
    from assms(4) get None obtain c1 w3 w4 where
      3: "hash_set config sec (Some ?h) w3 = (0, c1, w4)" "config_set_variable c1 sec ?h var val w4 = (0, config', w')"
      by (auto simp: config_set_def dest!: string_new_result hash_new_result split: prod.splits option.splits if_splits)
    from strkeys.set_ok [OF c assms(2) 3(1)] have c1: "str_hash_inv c1" "hash_lookup c1 = (hash_lookup config)(sec \<mapsto> ?h)" by auto
    then have "cfg_inv c1" using assms(1) by (auto simp: cfg_inv_def)
    from config_set_variable_store [OF this assms(2,3) _ 3(2)] c1(2) show ?thesis by auto
  qed
qed

lemma skip_comment_text: "NL \<notin> set s \<Longrightarrow> in_rest f = s @ NL # rest \<Longrightarrow> skip_comment f = f\<lparr>in_rest := rest\<rparr>"
proof (induction s arbitrary: f)
  case Nil
  then show ?case by (subst skip_comment.simps) (simp add: fgetc_def)
next
  case (Cons c s)
  then show ?case using Cons.IH [of "f\<lparr>in_rest := s @ NL # rest\<rparr>"] by (subst skip_comment.simps) (auto simp: fgetc_def)
qed

lemma load_loop_item:
  assumes "cfg_inv config" "cfg_full config" "cstring sec" "plenty w" "item_ok i" "in_rest f = item_text i @ rest"
  shows "\<exists>config' line' w'. load_loop config sec f line w = load_loop config' (case i of Heading s \<Rightarrow> s | _ \<Rightarrow> sec) (f\<lparr>in_rest := rest\<rparr>) line' w'
    \<and> plenty w' \<and> cfg_inv config' \<and> cfg_full config'
    \<and> cfg_lookup config' = (case i of Setting v x \<Rightarrow> cfg_upd (cfg_lookup config) sec v (Some x) | _ \<Rightarrow> cfg_lookup config)"
proof (cases i)
  case (Comment s)
  then have "load_loop config sec f line w = load_loop config sec (f\<lparr>in_rest := rest\<rparr>) (line + 1) w"
    using assms(5,6) skip_comment_text [of s "f\<lparr>in_rest := s @ NL # rest\<rparr>" rest] by (subst load_loop.simps) simp
  with Comment assms(1,2,4) show ?thesis by auto
next
  case Blank
  then have "load_loop config sec f line w = load_loop config sec (f\<lparr>in_rest := rest\<rparr>) (line + 1) w"
    using assms(6) by (subst load_loop.simps) (simp add: load_isprint_def)
  with Blank assms(1,2,4) show ?thesis by auto
next
  case (Heading s)
  obtain w1 where sec: "load_section (f\<lparr>in_rest := s @ CHR '']'' # NL # rest\<rparr>) None w = (Some s, f\<lparr>in_rest := NL # rest\<rparr>, w1)" "plenty w1"
    using load_section_text [of "f\<lparr>in_rest := s @ CHR '']'' # NL # rest\<rparr>" s "NL # rest" w None] assms(4,5) Heading
    by (auto simp: savable_section_def)
  have "load_loop config sec f line w = load_loop config s (f\<lparr>in_rest := NL # rest\<rparr>) (line + 1) w1"
    using sec(1) assms(6) Heading by (subst load_loop.simps) simp
  also have "\<dots> = load_loop config s (f\<lparr>in_rest := rest\<rparr>) (line + 2) w1"
    by (subst load_loop.simps) (simp add: load_isprint_def)
  finally show ?thesis using Heading assms(1,2) sec(2) by auto
next
  case (Setting v x)
  then have ok: "savable_variable v" "printable x" using assms(5) by auto
  then obtain c v' where v: "v = c # v'" "c \<noteq> CHR ''#''" "c \<noteq> CHR ''[''" "load_isprint c" "printable v'" "CHR ''='' \<notin> set v'"
    by (cases v) (auto simp: savable_variable_def printable_def)
  have cv: "cstring v" using ok(1) by (simp add: printable_cstring savable_variable_def)
  have shape: "in_rest f = c # v' @ CHR ''='' # (x @ NL # rest)" using assms(6) Setting by (simp add: line_text_def v(1))
  obtain w1 where var: "load_variable (f\<lparr>in_rest := v' @ CHR ''='' # (x @ NL # rest)\<rparr>) c w = (Some v, f\<lparr>in_rest := x @ NL # rest\<rparr>, w1)" "plenty w1"
    using load_variable_text [of "f\<lparr>in_rest := v' @ CHR ''='' # (x @ NL # rest)\<rparr>" v' "x @ NL # rest" w c] v assms(4) by auto
  obtain w2 where val: "load_value (f\<lparr>in_rest := x @ NL # rest\<rparr>) None w1 = (Some x, f\<lparr>in_rest := rest\<rparr>, w2)" "plenty w2"
    using load_value_text [of "f\<lparr>in_rest := x @ NL # rest\<rparr>" x rest w1 None] var(2) ok(2) by auto
  obtain config' w3 where set: "config_set config (Some sec) v (Some x) w2 = (0, config', w3)" "plenty w3"
    using config_set_plenty [OF assms(1,3) cv val(2)] by blast
  have new: "cfg_inv config'" "cfg_lookup config' = cfg_upd (cfg_lookup config) sec v (Some x)"
    using config_set_result [OF assms(1,3) cv set(1)] by auto
  obtain h' where "hash_lookup config' = (hash_lookup config)(sec \<mapsto> h')" "hash_lookup h' v = Some x"
    using config_set_store [OF assms(1,3) cv set(1)] by blast
  then have "cfg_full config'" using assms(2) unfolding cfg_full_def by (metis fun_upd_apply option.discI option.inject)
  moreover have "load_loop config sec f line w = load_loop config' sec (f\<lparr>in_rest := rest\<rparr>) (line + 1) w3"
    using shape v(2-4) var(1) val(1) set(1) by (subst load_loop.simps) auto
  ultimately show ?thesis using new set(2) Setting by auto
qed

text \<open>A whole file.\<close>

lemma settings_upd: "fold (\<lambda>(s, v, x) M. cfg_upd M s v (Some x)) ps M s
    = M s ++ map_of (rev (map snd (filter (\<lambda>p. fst p = s) ps)))"
  by (induction ps arbitrary: M) (auto simp: cfg_upd_def fun_eq_iff map_add_def split: option.split)

lemma load_loop_items:
  "cfg_inv config \<Longrightarrow> cfg_full config \<Longrightarrow> cstring sec \<Longrightarrow> plenty w \<Longrightarrow> \<forall>i \<in> set its. item_ok i \<Longrightarrow> in_rest f = items_text its \<Longrightarrow> \<not> in_fails f \<Longrightarrow>
   \<exists>config' f' line' w'. load_loop config sec f line w = (config', f', line', w') \<and> feof f' \<and> plenty w' \<and> cfg_inv config' \<and> cfg_full config'
    \<and> cfg_lookup config' = fold (\<lambda>(s, v, x) M. cfg_upd M s v (Some x)) (settings sec its) (cfg_lookup config)"
proof (induction its arbitrary: config sec f line w)
  case Nil
  then show ?case by (subst load_loop.simps) (simp add: items_text_def feof_def)
next
  case (Cons i its)
  let ?sec = "case i of Heading s \<Rightarrow> s | _ \<Rightarrow> sec"
  have i: "item_ok i" "in_rest f = item_text i @ items_text its" using Cons.prems(5,6) by (simp_all add: items_text_def)
  obtain config1 line1 w1 where 1: "load_loop config sec f line w = load_loop config1 ?sec (f\<lparr>in_rest := items_text its\<rparr>) line1 w1"
    "plenty w1" "cfg_inv config1" "cfg_full config1"
    "cfg_lookup config1 = (case i of Setting v x \<Rightarrow> cfg_upd (cfg_lookup config) sec v (Some x) | _ \<Rightarrow> cfg_lookup config)"
    using load_loop_item [OF Cons.prems(1-4) i] by blast
  have "cstring ?sec" using i(1) Cons.prems(3) by (auto simp: savable_section_def printable_cstring split: item.split)
  from Cons.IH [OF 1(3,4) this 1(2), of "f\<lparr>in_rest := items_text its\<rparr>" line1] Cons.prems(5,7) obtain config' f' line' w' where
    "load_loop config1 ?sec (f\<lparr>in_rest := items_text its\<rparr>) line1 w1 = (config', f', line', w')" "feof f'" "plenty w'" "cfg_inv config'" "cfg_full config'"
    "cfg_lookup config' = fold (\<lambda>(s, v, x) M. cfg_upd M s v (Some x)) (settings ?sec its) (cfg_lookup config1)"
    by auto
  with 1(1,5) show ?case by (cases i) auto
qed

lemma config_load_items:
  assumes "plenty w" "\<forall>i \<in> set its. item_ok i" "fopen name = Inr (in_open (items_text its))"
  shows "\<exists>config' w'. config_load fopen None config_empty name w = (0, config', w') \<and> plenty w' \<and> cfg_inv config' \<and> cfg_full config'
    \<and> cfg_lookup config' = declared its"
proof -
  obtain w1 where w1: "string_new (Some []) w = (Some [], w1)" "plenty w1" using string_new_ok [OF assms(1)] by blast
  have "cfg_full config_empty" by (simp add: cfg_full_def hash_lookup_def pairs_def)
  from load_loop_items [OF cfg_inv_empty this _ w1(2) assms(2), of "[]" "in_open (items_text its)" 0] obtain config' f' line' w' where
    2: "load_loop config_empty [] (in_open (items_text its)) 0 w1 = (config', f', line', w')" "feof f'" "plenty w'" "cfg_inv config'" "cfg_full config'"
    "cfg_lookup config' = fold (\<lambda>(s, v, x) M. cfg_upd M s v (Some x)) (settings [] its) (\<lambda>s. Map.empty)"
    by (auto simp: in_open_def cstring_def cfg_lookup_empty)
  have "cfg_lookup config' = declared its" by (simp add: 2(6) fun_eq_iff settings_upd declared_def)
  with w1 2 assms(3) show ?thesis by (simp add: config_load_def fclose_result_def)
qed

section \<open>Calls\<close>

definition type_named :: "string \<Rightarrow> AppInterfaceCallArg option" where
  "type_named s = Option.bind (map_of string_type s) arg_of_code"

fun args_of :: "nat \<Rightarrow> nat \<Rightarrow> (string \<Rightarrow> string option) \<Rightarrow> AppInterfaceCallArg list option" where
  "args_of 0 i M = Some []"
| "args_of (Suc n) i M =
     (case M (''arg'' @ show_nat (i + 1)) of
        None \<Rightarrow> Some []
      | Some p \<Rightarrow> do { a \<leftarrow> type_named (arg_type_text p); as \<leftarrow> args_of n (i + 1) M; Some (a # as) })"

text \<open>The calls with settings.\<close>

definition call_names :: "item list \<Rightarrow> string list" where
  "call_names its = map (drop (length call_prefix))
     (filter (\<lambda>s. take (length call_prefix) s = call_prefix) (remdups (map fst (settings [] its))))"

lemma declared_names: "declared its (call_prefix @ n) \<noteq> Map.empty \<longleftrightarrow> n \<in> set (call_names its)"
proof -
  have "declared its s \<noteq> Map.empty \<longleftrightarrow> s \<in> fst ` set (settings [] its)" for s
    by (auto simp: declared_def map_of_eq_empty_iff filter_empty_conv)
  moreover have "call_prefix @ n \<in> A \<longleftrightarrow> n \<in> drop (length call_prefix) ` (A \<inter> {s. take (length call_prefix) s = call_prefix})" for A
  proof
    assume "call_prefix @ n \<in> A"
    then show "n \<in> drop (length call_prefix) ` (A \<inter> {s. take (length call_prefix) s = call_prefix})"
      by (intro image_eqI [of _ _ "call_prefix @ n"]) simp_all
  next
    assume "n \<in> drop (length call_prefix) ` (A \<inter> {s. take (length call_prefix) s = call_prefix})"
    then obtain s where s: "s \<in> A" "take (length call_prefix) s = call_prefix" "n = drop (length call_prefix) s" by blast
    then have "s = call_prefix @ n" by (metis append_take_drop_id)
    with s(1) show "call_prefix @ n \<in> A" by simp
  qed
  ultimately show ?thesis by (simp add: call_names_def Int_def conj_commute)
qed

text \<open>The call that a section declares.\<close>

definition call_of :: "string \<Rightarrow> (string \<Rightarrow> string option) \<Rightarrow> AppInterfaceCall option" where
  "call_of name M =
     do { t \<leftarrow> (case M ''ret'' of None \<Rightarrow> arg_of_code 0 | Some s \<Rightarrow> type_named s);
          as \<leftarrow> args_of APPSERVER_MAX_ARGUMENTS 0 M;
          Some \<lparr>ac_name = name, ac_type = t, ac_args = as, ac_func = None\<rparr> }"

lemma string_enum_named:
  assumes "type_named s = Some a" "cstring s"
  shows "\<exists>v. string_enum (Some s) string_type w = (v, w) \<and> arg_of_code v = Some a \<and> 0 \<le> v"
proof -
  have keys: "\<forall>p \<in> set string_type. cstring (fst p) \<and> 0 \<le> snd p" by (simp add: string_type_def cstring_def)
  have "\<exists>v. string_enum_loop s se w = (v, w) \<and> map_of se s = Some v \<and> 0 \<le> v" if "map_of se s \<noteq> None" "\<forall>p \<in> set se. cstring (fst p) \<and> 0 \<le> snd p" for se
    using that
  proof (induction se)
    case (Cons p se)
    have "string_compare s (fst p) = 0 \<longleftrightarrow> s = fst p" using Cons.prems(2) assms(2)
      by (simp add: string_compare_cmp cmp_spec_eq_0 cstring_def)
    with Cons show ?case by (cases p) auto
  qed simp
  moreover have "map_of string_type s \<noteq> None" using assms(1) by (auto simp: type_named_def Option.bind_eq_Some_conv)
  ultimately show ?thesis using keys assms(1) by (fastforce simp: string_enum_def type_named_def)
qed

lemma hash_get_of:
  assumes "str_hash_inv h" "cstring key"
  shows "\<exists>w'. hash_get h key w = (hash_lookup h key, w') \<and> plenty w' = plenty w"
  using strkeys.get_lookup [OF assms, of w] plenty_hash_get [of h key w] by (cases "hash_get h key w") auto

lemma cstring_arg: "cstring (''arg'' @ show_nat n)"
proof -
  have digit: "(char_of (48 + m) :: char) \<noteq> CHR 0x00" if "m < 10" for m :: nat
  proof
    assume "(char_of (48 + m) :: char) = CHR 0x00"
    then have "of_char (char_of (48 + m) :: char) = (0 :: nat)" by simp
    with that show False by simp
  qed
  have "cstring (show_nat n)" for n
  proof (induction n rule: less_induct)
    case (less n)
    then have "10 \<le> n \<Longrightarrow> cstring (show_nat (n div 10))" by simp
    with digit [of n] digit [of "n mod 10"] show ?case by (subst show_nat.simps) (auto simp: cstring_def)
  qed
  then show ?thesis by (simp add: cstring_def)
qed

lemma foreach_args_of:
  assumes "str_hash_inv value" "\<forall>v x. hash_lookup value v = Some x \<longrightarrow> cstring x"
  shows "ai_calls ai = cs @ [c] \<Longrightarrow> args_of n i (hash_lookup value) = Some as \<Longrightarrow> plenty w \<Longrightarrow>
    \<exists>w'. foreach_args n i value ai w = Some (0, ai\<lparr>ai_calls := cs @ [c\<lparr>ac_args := ac_args c @ as\<rparr>]\<rparr>, w') \<and> plenty w'"
proof (induction n i "hash_lookup value" arbitrary: ai c as w rule: args_of.induct)
  case (1 i)
  then show ?case by simp
next
  case (2 n i)
  obtain w1 where get: "hash_get value (''arg'' @ show_nat (i + 1)) w = (hash_lookup value (''arg'' @ show_nat (i + 1)), w1)" "plenty w1"
    using hash_get_of [OF assms(1) cstring_arg, of "i + 1" w] "2.prems"(3) by auto
  show ?case
  proof (cases "hash_lookup value (''arg'' @ show_nat (i + 1))")
    case None
    with get "2.prems" show ?thesis by auto
  next
    case (Some p)
    with "2.prems"(2) obtain a bs where a: "type_named (arg_type_text p) = Some a" "args_of n (i + 1) (hash_lookup value) = Some bs" "as = a # bs"
      by (auto simp: Option.bind_eq_Some_conv)
    have "cstring (arg_type_text p)" using assms(2) Some
      by (auto simp: arg_type_text_def cstring_def dest: in_set_takeD set_takeWhileD)
    from string_enum_named [OF a(1) this, of w1] obtain v where v: "string_enum (Some (arg_type_text p)) string_type w1 = (v, w1)"
      "arg_of_code v = Some a" "0 \<le> v" by blast
    obtain w2 where w2: "w_alloc w1 = (True, w2)" "plenty w2" using w_alloc_plenty [OF get(2)] by auto
    let ?ai = "ai\<lparr>ai_calls := cs @ [c\<lparr>ac_args := ac_args c @ [a]\<rparr>]\<rparr>"
    have step: "new_append_arg ai p w1 = Some (0, ?ai, w2)" using v w2 "2.prems"(1) by (simp add: new_append_arg_def)
    from "2.hyps" [OF Some a(1) _ a(2) w2(2), of ?ai "c\<lparr>ac_args := ac_args c @ [a]\<rparr>"]
    show ?thesis using get(1) Some step a(3) by simp
  qed
qed

lemma new_foreach_of:
  assumes "str_hash_inv value" "\<forall>v x. hash_lookup value v = Some x \<longrightarrow> cstring x" "plenty w"
    and "call_of name (hash_lookup value) = Some c"
  shows "\<exists>w'. new_foreach (call_prefix @ name) value (Some (ai, w)) = Some (ai\<lparr>ai_calls := ai_calls ai @ [c]\<rparr>, w') \<and> plenty w'"
proof -
  obtain w1 where get: "hash_get value ''ret'' w = (hash_lookup value ''ret'', w1)" "plenty w1"
    using hash_get_of [OF assms(1), of "''ret''" w] assms(3) by (auto simp: cstring_def)
  from assms(4) obtain t as where t: "(case hash_lookup value ''ret'' of None \<Rightarrow> arg_of_code 0 | Some s \<Rightarrow> type_named s) = Some t"
    "args_of APPSERVER_MAX_ARGUMENTS 0 (hash_lookup value) = Some as" "c = \<lparr>ac_name = name, ac_type = t, ac_args = as, ac_func = None\<rparr>"
    by (auto simp: call_of_def Option.bind_eq_Some_conv)
  have "\<exists>v. (case hash_lookup value ''ret'' of None \<Rightarrow> (0, w1) | Some s \<Rightarrow> string_enum (Some s) string_type w1) = (v, w1)
      \<and> arg_of_code v = Some t \<and> 0 \<le> v"
    using t(1) string_enum_named [of _ t w1] assms(2) by (cases "hash_lookup value ''ret''") auto
  then obtain v where v: "(case hash_lookup value ''ret'' of None \<Rightarrow> (0, w1) | Some s \<Rightarrow> string_enum (Some s) string_type w1) = (v, w1)"
    "arg_of_code v = Some t" "0 \<le> v" by blast
  obtain w2 where w2: "w_alloc w1 = (True, w2)" "plenty w2" using w_alloc_plenty [OF get(2)] by auto
  obtain w3 where w3: "string_new (Some name) w2 = (Some name, w3)" "plenty w3" using string_new_ok [OF w2(2)] by blast
  let ?c = "\<lparr>ac_name = name, ac_type = t, ac_args = [], ac_func = None\<rparr>"
  have new: "new_append ai v name w1 = Some (0, ai\<lparr>ai_calls := ai_calls ai @ [?c]\<rparr>, w3)"
    using w2 w3 v(2) by (simp add: new_append_def)
  from foreach_args_of [OF assms(1,2) _ t(2) w3(2), of "ai\<lparr>ai_calls := ai_calls ai @ [?c]\<rparr>" "ai_calls ai" ?c] obtain w4 where
    "foreach_args APPSERVER_MAX_ARGUMENTS 0 value (ai\<lparr>ai_calls := ai_calls ai @ [?c]\<rparr>) w3 = Some (0, ai\<lparr>ai_calls := ai_calls ai @ [c]\<rparr>, w4)"
    "plenty w4" by (auto simp: t(3))
  with get v new show ?thesis by (simp add: new_foreach_def Let_def)
qed

text \<open>The calls of the sections of a configuration, in the order of its entries.\<close>

definition calls_of :: "(string \<times> section_hash) list \<Rightarrow> AppInterfaceCall list" where
  "calls_of ps = map (\<lambda>(s, h). the (call_of (drop (length call_prefix) s) (hash_lookup h)))
     (filter (\<lambda>p. take (length call_prefix) (fst p) = call_prefix) ps)"

lemma fold_new_foreach:
  "\<forall>(s, h) \<in> set ps. str_hash_inv h \<and> (\<forall>v x. hash_lookup h v = Some x \<longrightarrow> cstring x)
     \<and> (take (length call_prefix) s = call_prefix \<longrightarrow> call_of (drop (length call_prefix) s) (hash_lookup h) \<noteq> None) \<Longrightarrow> plenty w \<Longrightarrow>
   \<exists>w'. fold (\<lambda>(k, v). new_foreach k v) ps (Some (ai, w)) = Some (ai\<lparr>ai_calls := ai_calls ai @ calls_of ps\<rparr>, w') \<and> plenty w'"
proof (induction ps arbitrary: ai w)
  case Nil
  then show ?case by (simp add: calls_of_def)
next
  case (Cons p ps)
  obtain s h where p: "p = (s, h)" by fastforce
  note h = Cons.prems(1) [unfolded p, simplified]
  show ?case
  proof (cases "take (length call_prefix) s = call_prefix")
    case False
    then have "new_foreach s h (Some (ai, w)) = Some (ai, w)" by (simp add: new_foreach_def)
    with False Cons.IH [OF _ Cons.prems(2), of ai] Cons.prems(1) show ?thesis by (simp add: p calls_of_def)
  next
    case True
    then have s: "s = call_prefix @ drop (length call_prefix) s" by (metis append_take_drop_id)
    from True h obtain c where c: "call_of (drop (length call_prefix) s) (hash_lookup h) = Some c" by auto
    from new_foreach_of [OF _ _ Cons.prems(2) c, of ai] h s obtain w1 where
      1: "new_foreach s h (Some (ai, w)) = Some (ai\<lparr>ai_calls := ai_calls ai @ [c]\<rparr>, w1)" "plenty w1" by metis
    from Cons.IH [OF _ 1(2), of "ai\<lparr>ai_calls := ai_calls ai @ [c]\<rparr>"] Cons.prems(1) obtain w2 where
      "fold (\<lambda>(k, v). new_foreach k v) ps (Some (ai\<lparr>ai_calls := ai_calls ai @ [c]\<rparr>, w1))
        = Some (ai\<lparr>ai_calls := ai_calls ai @ [c] @ calls_of ps\<rparr>, w2)" "plenty w2" by auto
    with 1(1) True c show ?thesis by (simp add: p calls_of_def)
  qed
qed

lemma settings_ok: "(s, v, x) \<in> set (settings sec its) \<Longrightarrow> \<forall>i \<in> set its. item_ok i \<Longrightarrow> printable x"
  by (induction sec its rule: settings.induct) auto

lemma declared_value: "\<forall>i \<in> set its. item_ok i \<Longrightarrow> declared its s v = Some x \<Longrightarrow> printable x"
  using settings_ok [of s v x "[]" its] by (auto simp: declared_def dest!: map_of_SomeD)

text \<open>What the sections of a configuration with these variables are.\<close>

lemma calls_declared:
  assumes "cfg_inv config" "cfg_full config" "cfg_lookup config = M"
  shows "set (calls_of (pairs config)) = {the (call_of n (M (call_prefix @ n))) |n. M (call_prefix @ n) \<noteq> Map.empty}"
    "\<forall>(s, h) \<in> set (pairs config). str_hash_inv h \<and> hash_lookup h = M s \<and> M s \<noteq> Map.empty"
    "\<forall>n. M (call_prefix @ n) \<noteq> Map.empty \<longrightarrow> call_of n (M (call_prefix @ n)) \<noteq> None \<Longrightarrow> distinct (map ac_name (calls_of (pairs config)))"
proof -
  have dist: "distinct (map fst (pairs config))" using assms(1) pairs_keys [of config] by (simp add: cfg_inv_def)
  have at: "(s, h) \<in> set (pairs config) \<longleftrightarrow> hash_lookup config s = Some h" for s h
    using dist by (auto simp: hash_lookup_def map_of_eq_Some_iff)
  have M: "M s = (case hash_lookup config s of None \<Rightarrow> Map.empty | Some h \<Rightarrow> hash_lookup h)" for s
    using assms(3) by (auto simp: cfg_lookup_def)
  show secs: "\<forall>(s, h) \<in> set (pairs config). str_hash_inv h \<and> hash_lookup h = M s \<and> M s \<noteq> Map.empty"
    using assms(1,2) by (auto simp: at M cfg_inv_def cfg_full_def)
  have prefix: "take (length call_prefix) s = call_prefix \<longleftrightarrow> (\<exists>n. s = call_prefix @ n)" for s
    by (metis append_eq_conv_conj append_take_drop_id)
  show "set (calls_of (pairs config)) = {the (call_of n (M (call_prefix @ n))) |n. M (call_prefix @ n) \<noteq> Map.empty}" (is "?L = ?R")
  proof
    show "?L \<subseteq> ?R" using secs by (force simp: calls_of_def prefix)
    show "?R \<subseteq> ?L"
    proof
      fix c assume "c \<in> ?R"
      then obtain n where n: "c = the (call_of n (M (call_prefix @ n)))" "M (call_prefix @ n) \<noteq> Map.empty" by blast
      then obtain h where "hash_lookup config (call_prefix @ n) = Some h" "hash_lookup h = M (call_prefix @ n)"
        by (auto simp: M split: option.splits)
      then show "c \<in> ?L" using n(1) by (force simp: calls_of_def at [symmetric] image_iff)
    qed
  qed
  assume ok: "\<forall>n. M (call_prefix @ n) \<noteq> Map.empty \<longrightarrow> call_of n (M (call_prefix @ n)) \<noteq> None"
  have name: "ac_name (the (call_of n m)) = n" if "call_of n m \<noteq> None" for n m
    using that by (auto simp: call_of_def Option.bind_eq_Some_conv)
  have "map ac_name (calls_of ps) = map (drop (length call_prefix) \<circ> fst) (filter (\<lambda>p. take (length call_prefix) (fst p) = call_prefix) ps)"
    if "\<forall>(s, h) \<in> set ps. hash_lookup h = M s \<and> M s \<noteq> Map.empty" for ps
    using that ok name by (induction ps) (auto simp: calls_of_def prefix)
  moreover have "distinct (map (drop (length call_prefix) \<circ> fst) (filter (\<lambda>p. take (length call_prefix) (fst p) = call_prefix) ps))"
    if "distinct (map fst ps)" for ps :: "(string \<times> section_hash) list"
    using that by (induction ps) (force simp: prefix)+
  moreover have "\<forall>(s, h) \<in> set (pairs config). hash_lookup h = M s \<and> M s \<noteq> Map.empty" using secs by auto
  ultimately show "distinct (map ac_name (calls_of (pairs config)))" using dist by simp
qed

lemma string_new_append_plenty:
  assumes "plenty w"
  shows "\<exists>w'. string_new_append (Some s) ap w = (Some (s @ concat ap), w') \<and> plenty w'"
proof -
  have "plenty w \<Longrightarrow> \<exists>w'. new_append_loop (Some s) ap w = (Some (s @ concat ap), w') \<and> plenty w'" for s w
  proof (induction ap arbitrary: s w)
    case (Cons a ap)
    obtain w1 where "string_append (Some s) (Some a) w = (0, Some (s @ a), w1)" "plenty w1"
      using string_append_ok [OF Cons.prems, of "Some s" a] by auto
    with Cons.IH [of w1 "s @ a"] show ?case by simp
  qed simp
  with string_new_ok [OF assms, of s] show ?thesis by (fastforce simp: string_new_append_def)
qed

lemma config_get_plenty: "plenty (snd (config_get config sec v w)) = plenty w"
proof -
  have "plenty (snd (hash_get h k w)) = plenty w" for h :: "(string, 'v) Hash" and k w
    using plenty_hash_get by (cases "hash_get h k w") fastforce
  note p = this
  show ?thesis unfolding config_get_def Let_def
    using p [of config "case sec of None \<Rightarrow> [] | Some s \<Rightarrow> s" w]
    by (cases "hash_get config (case sec of None \<Rightarrow> [] | Some s \<Rightarrow> s) w") (auto simp: p split: option.split prod.split dest: plenty_hash_get)
qed

lemma interface_declared:
  assumes "plenty w" "\<forall>i \<in> set its. item_ok i" "fopen (etcdir @ ''/AppInterface/'' @ app @ ''.interface'') = Inr (in_open (items_text its))"
    and "\<forall>n. declared its (call_prefix @ n) \<noteq> Map.empty \<longrightarrow> call_of n (declared its (call_prefix @ n)) \<noteq> None"
    and "case declared its [] ''port'' of None \<Rightarrow> port = 0 | Some s \<Rightarrow> \<exists>i. atoi s = Some i \<and> port = i mod 2 ^ 16"
  shows "\<exists>cs w'. appinterface_new fopen None etcdir (Some app) w
      = Some (Some \<lparr>ai_name = app, ai_calls = cs, ai_port = port, ai_error = 0\<rparr>, w') \<and> plenty w' \<and> distinct (map ac_name cs)
    \<and> set cs = {the (call_of n (declared its (call_prefix @ n))) |n. declared its (call_prefix @ n) \<noteq> Map.empty}"
proof -
  obtain w1 where w1: "object_new 40 w = (True, w1)" "plenty w1" using object_new_ok [OF assms(1), of 40] by auto
  obtain w2 where w2: "string_new (Some app) w1 = (Some app, w2)" "plenty w2" using string_new_ok [OF w1(2)] by blast
  obtain w3 where w3: "string_new_append (Some (etcdir @ ''/AppInterface/'')) [app, ''.interface''] w2
      = (Some (etcdir @ ''/AppInterface/'' @ app @ ''.interface''), w3)" "plenty w3"
    using string_new_append_plenty [OF w2(2), of "etcdir @ ''/AppInterface/''" "[app, ''.interface'']"] by auto
  obtain w4 where w4: "config_new w3 = (Some config_empty, w4)" "plenty w4"
    using hash_new_ok [OF w3(2), of "Some hash_func_string" hash_compare_string] hash_new_result by (fastforce simp: config_new_def)
  obtain config w5 where w5: "config_load fopen None config_empty (etcdir @ ''/AppInterface/'' @ app @ ''.interface'') w4 = (0, config, w5)"
    "plenty w5" "cfg_inv config" "cfg_full config" "cfg_lookup config = declared its"
    using config_load_items [where fopen = fopen and name = "etcdir @ ''/AppInterface/'' @ app @ ''.interface''", OF w4(2) assms(2,3)] by blast
  obtain p w6 where w6: "config_get config None ''port'' w5 = (p, w6)" by fastforce
  have "config_get config None ''port'' w5 = config_get config (Some []) ''port'' w5" by (simp add: config_get_def)
  with w6 have "config_get config (Some []) ''port'' w5 = (p, w6)" by simp
  then have p: "p = declared its [] ''port''" "plenty w6"
    using config_get_lookup [OF w5(3), of "[]" "''port''" w5] config_get_plenty [of config "Some []" "''port''" w5] w5(2,5)
    by (simp_all add: cstring_def)
  have port: "(case p of None \<Rightarrow> Some 0 | Some s \<Rightarrow> map_option (\<lambda>i. i mod 2 ^ 16) (atoi s)) = Some port"
    using assms(5) p(1) by (auto split: option.splits)
  note decl = calls_declared [OF w5(3-5)]
  have "\<forall>(s, h) \<in> set (pairs config). str_hash_inv h \<and> (\<forall>v x. hash_lookup h v = Some x \<longrightarrow> cstring x)
      \<and> (take (length call_prefix) s = call_prefix \<longrightarrow> call_of (drop (length call_prefix) s) (hash_lookup h) \<noteq> None)"
  proof (intro ballI, clarify)
    fix s h assume "(s, h) \<in> set (pairs config)"
    with decl(2) have h: "str_hash_inv h" "hash_lookup h = declared its s" "declared its s \<noteq> Map.empty" by auto
    have "call_of (drop (length call_prefix) s) (hash_lookup h) \<noteq> None" if "take (length call_prefix) s = call_prefix"
    proof -
      have "s = call_prefix @ drop (length call_prefix) s" using that by (metis append_take_drop_id)
      then show ?thesis using h assms(4) by metis
    qed
    with h declared_value [OF assms(2)] show "str_hash_inv h \<and> (\<forall>v x. hash_lookup h v = Some x \<longrightarrow> cstring x)
      \<and> (take (length call_prefix) s = call_prefix \<longrightarrow> call_of (drop (length call_prefix) s) (hash_lookup h) \<noteq> None)"
      by (auto simp: printable_cstring)
  qed
  from fold_new_foreach [OF this p(2), of "\<lparr>ai_name = app, ai_calls = [], ai_port = port, ai_error = 0\<rparr>"] obtain w7 where
    "hash_foreach config new_foreach (Some (\<lparr>ai_name = app, ai_calls = [], ai_port = port, ai_error = 0\<rparr>, w6))
      = Some (\<lparr>ai_name = app, ai_calls = calls_of (pairs config), ai_port = port, ai_error = 0\<rparr>, w7)" "plenty w7"
    by (auto simp: hash_foreach_pairs)
  then have "appinterface_new fopen None etcdir (Some app) w
      = Some (Some \<lparr>ai_name = app, ai_calls = calls_of (pairs config), ai_port = port, ai_error = 0\<rparr>, w7)"
    using w1(1) w2(1) w3(1) w4(1) w5(1) w6 port by (simp add: appinterface_new_def)
  with decl(1) decl(3) [OF assms(4)] \<open>plenty w7\<close> show ?thesis by blast
qed

section \<open>Properties\<close>

text \<open>
  C17: the calls of an interface are those its file declares. From a file of comments, blank lines, headings and settings, with
  memory for all of it, \<open>appinterface_new\<close> makes an interface with one call for each section \<open>call::\<close>, with the result and the
  arguments that \<open>ret\<close>, \<open>arg1\<close>, ... of the section name, and the port; comments, blank lines, other sections and settings that
  were overridden make no difference.
\<close>

theorem appinterface_declared:
  assumes "plenty w" "\<forall>i \<in> set its. item_ok i" "fopen (etcdir @ ''/AppInterface/'' @ app @ ''.interface'') = Inr (in_open (items_text its))"
    and "\<forall>n \<in> set (call_names its). call_of n (declared its (call_prefix @ n)) \<noteq> None"
    and "case declared its [] ''port'' of None \<Rightarrow> port = 0 | Some s \<Rightarrow> \<exists>i. atoi s = Some i \<and> port = i mod 2 ^ 16"
  shows "\<exists>cs w'. appinterface_new fopen None etcdir (Some app) w
      = Some (Some \<lparr>ai_name = app, ai_calls = cs, ai_port = port, ai_error = 0\<rparr>, w') \<and> distinct (map ac_name cs)
    \<and> set (map Some cs) = set (map (\<lambda>n. call_of n (declared its (call_prefix @ n))) (call_names its))"
proof -
  have "\<forall>n. declared its (call_prefix @ n) \<noteq> Map.empty \<longrightarrow> call_of n (declared its (call_prefix @ n)) \<noteq> None"
    using assms(4) by (simp add: declared_names)
  from interface_declared [where fopen = fopen and etcdir = etcdir and app = app, OF assms(1-3) this assms(5)] obtain cs w' where
    1: "appinterface_new fopen None etcdir (Some app) w = Some (Some \<lparr>ai_name = app, ai_calls = cs, ai_port = port, ai_error = 0\<rparr>, w')"
      "distinct (map ac_name cs)"
    "set cs = {the (call_of n (declared its (call_prefix @ n))) |n. declared its (call_prefix @ n) \<noteq> Map.empty}" by blast
  have "set (map Some cs) = set (map (\<lambda>n. call_of n (declared its (call_prefix @ n))) (call_names its))"
    using 1(3) assms(4) by (fastforce simp: declared_names image_iff)
  with 1(1,2) show ?thesis by blast
qed

definition demo_items :: "item list" where
  "demo_items = [Comment ''$Id$'', Setting ''port'' ''4242'', Blank, Heading ''call::f'', Setting ''ret'' ''VOID'', Setting ''ret'' ''INT32'',
     Setting ''arg1'' ''INT32'', Setting ''arg2'' ''STRING_OUT,s'']"

theorem appinterface_declared_witness:
  "\<exists>w'. appinterface_new (\<lambda>_. Inr (in_open (items_text demo_items))) None ''/etc'' (Some ''Demo'') world0 = Some (Some (demo_interface None), w')"
proof -
  have ok: "\<forall>i \<in> set demo_items. item_ok i"
    by (simp add: demo_items_def savable_section_def savable_variable_def printable_def load_isprint_def)
  have names: "call_names demo_items = [''f'']" by code_simp
  have call: "call_of ''f'' (declared demo_items (call_prefix @ ''f'')) = Some (demo_call None)" by code_simp
  have port: "declared demo_items [] ''port'' = Some ''4242''" "atoi ''4242'' = Some 4242" by code_simp+
  have "plenty world0" by simp
  from appinterface_declared [of world0 demo_items "\<lambda>_. Inr (in_open (items_text demo_items))" "''/etc''" "''Demo''" 4242, OF this ok] names call port
  obtain cs w' where 1: "appinterface_new (\<lambda>_. Inr (in_open (items_text demo_items))) None ''/etc'' (Some ''Demo'') world0
      = Some (Some \<lparr>ai_name = ''Demo'', ai_calls = cs, ai_port = 4242, ai_error = 0\<rparr>, w')" "distinct (map ac_name cs)" "set (map Some cs) = {Some (demo_call None)}"
    by auto
  then have "set cs = {demo_call None}" by auto
  with 1(2) have "cs = [demo_call None]" by (cases cs; cases "tl cs") auto
  with 1(1) show ?thesis by (simp add: demo_interface_def)
qed

end
