(* ===== verification/Vfs_Iface.thy ===== *)
theory Vfs_Iface
  imports Vfs_Server App_Declare
begin

text \<open>
  The interface of the VFS server: its file, the calls it declares, and that every call of it has a function of the server for
  its arguments.
\<close>

section \<open>The interface\<close>

text \<open>The file \<open>include/VFS.interface\<close>.\<close>

definition vfs_items :: "item list" where
  "vfs_items =
    [Comment ''$Id$'', Setting ''service'' ''VFS'', Setting ''port'' ''4245'', Blank, Heading ''constants'',
     Comment ''access'', Setting ''F_OK'' ''0'', Setting ''R_OK'' ''1'', Setting ''X_OK'' ''2'', Setting ''W_OK'' ''4'',
     Comment ''errno'', Setting ''EPERM'' ''1'', Setting ''ENOENT'' ''2'', Setting ''EIO'' ''5'', Setting ''ENXIO'' ''6'',
     Setting ''EBADF'' ''9'', Setting ''EACCES'' ''13'', Setting ''EFAULT'' ''14'', Setting ''EBUSY'' ''16'',
     Setting ''EEXIST'' ''17'', Setting ''EXDEV'' ''18'', Setting ''ENODEV'' ''19'', Setting ''ENOTDIR'' ''20'',
     Setting ''EISDIR'' ''21'', Setting ''EINVAL'' ''22'', Setting ''ENFILE'' ''23'', Setting ''EMFILE'' ''24'',
     Setting ''ETXTBUSY'' ''26'', Setting ''EFBIG'' ''27'', Setting ''ENOSPC'' ''28'', Setting ''EROFS'' ''30'',
     Setting ''EMLINK'' ''31'', Setting ''ENOTEMPTY'' ''66'', Setting ''ENOSYS'' ''78'', Setting ''ENOTSUP'' ''86'',
     Setting ''EPROTO'' ''96'', Comment ''lseek'', Setting ''SEEK_SET'' ''0'', Setting ''SEEK_CUR'' ''1'',
     Setting ''SEEK_END'' ''2'', Comment ''open'', Setting ''O_RDONLY'' ''0x0'', Setting ''O_WRONLY'' ''0x1'',
     Setting ''O_RDWR'' ''0x2'', Setting ''O_ACCMODE'' ''0x4'', Setting ''O_CREAT'' ''0x10'', Setting ''O_EXCL'' ''0x20'',
     Setting ''O_TRUNC'' ''0x40'', Setting ''O_NOCTTY'' ''0x80'', Setting ''O_APPEND'' ''0x100'',
     Setting ''O_DSYNC'' ''0x200'', Setting ''O_NONBLOCK'' ''0x400'', Setting ''O_RSYNC'' ''0x800'',
     Setting ''O_SYNC'' ''0x1000'', Blank, Heading ''call::access'', Setting ''ret'' ''INT32'',
     Setting ''arg1'' ''STRING,pathname'', Setting ''arg2'' ''UINT32,mode'', Blank, Heading ''call::chmod'',
     Setting ''ret'' ''INT32'', Setting ''arg1'' ''STRING,pathname'', Setting ''arg2'' ''UINT32,mode'', Blank,
     Heading ''call::chown'', Setting ''ret'' ''INT32'', Setting ''arg1'' ''STRING,pathname'',
     Setting ''arg2'' ''UINT32,owner'', Setting ''arg3'' ''UINT32,group'', Blank, Heading ''call::close'',
     Setting ''ret'' ''INT32'', Setting ''arg1'' ''INT32,fd'', Blank, Heading ''call::closedir'', Setting ''ret'' ''INT32'',
     Setting ''arg1'' ''INT32,dir'', Blank, Heading ''call::dirfd'', Setting ''ret'' ''INT32'',
     Setting ''arg1'' ''INT32,dir'', Blank, Heading ''call::fchmod'', Setting ''ret'' ''INT32'',
     Setting ''arg1'' ''INT32,fd'', Setting ''arg2'' ''UINT32,mode'', Blank, Heading ''call::fchown'',
     Setting ''ret'' ''INT32'', Setting ''arg1'' ''INT32,fd'', Setting ''arg2'' ''UINT32,owner'',
     Setting ''arg3'' ''UINT32,group'', Blank, Heading ''call::flock'', Setting ''ret'' ''INT32'',
     Setting ''arg1'' ''INT32,fd'', Setting ''arg2'' ''UINT32,operation'', Blank, Heading ''call::lchown'',
     Setting ''ret'' ''INT32'', Setting ''arg1'' ''STRING,pathname'', Setting ''arg2'' ''UINT32,owner'',
     Setting ''arg3'' ''UINT32,group'', Blank, Heading ''call::link'', Setting ''ret'' ''INT32'',
     Setting ''arg1'' ''STRING,name1'', Setting ''arg2'' ''STRING,name2'', Blank, Heading ''call::lseek'',
     Setting ''ret'' ''INT32'', Setting ''arg1'' ''INT32,fd'', Setting ''arg2'' ''INT32,offset'',
     Setting ''arg3'' ''INT32,whence'', Blank, Heading ''call::mkdir'', Setting ''ret'' ''INT32'',
     Setting ''arg1'' ''STRING,pathname'', Setting ''arg2'' ''UINT32,mode'', Blank, Heading ''call::open'',
     Setting ''ret'' ''INT32'', Setting ''arg1'' ''STRING,pathname'', Setting ''arg2'' ''UINT32,flags'',
     Setting ''arg3'' ''UINT32,mode'', Blank, Heading ''call::opendir'', Setting ''ret'' ''INT32'',
     Setting ''arg1'' ''STRING,pathname'', Blank, Heading ''call::read'', Setting ''ret'' ''INT32'',
     Setting ''arg1'' ''INT32,fd'', Setting ''arg2'' ''BUFFER_OUT,buf'', Setting ''arg3'' ''UINT32,size'', Blank,
     Heading ''call::readdir'', Setting ''ret'' ''INT32'', Setting ''arg1'' ''INT32,dir'',
     Setting ''arg2'' ''STRING_OUT,de'', Blank, Heading ''call::rename'', Setting ''ret'' ''INT32'',
     Setting ''arg1'' ''STRING,from'', Setting ''arg2'' ''STRING,to'', Blank, Heading ''call::rewinddir'',
     Setting ''ret'' ''INT32'', Setting ''arg1'' ''INT32,dir'', Blank, Heading ''call::rmdir'', Setting ''ret'' ''INT32'',
     Setting ''arg1'' ''STRING,pathname'', Blank, Heading ''call::symlink'', Setting ''ret'' ''INT32'',
     Setting ''arg1'' ''STRING,name1'', Setting ''arg2'' ''STRING,name2'', Blank, Heading ''call::umask'',
     Setting ''ret'' ''UINT32'', Setting ''arg1'' ''UINT32,mode'', Blank, Heading ''call::unlink'',
     Setting ''ret'' ''INT32'', Setting ''arg1'' ''STRING,pathname'', Blank, Heading ''call::write'',
     Setting ''ret'' ''INT32'', Setting ''arg1'' ''INT32,fd'', Setting ''arg2'' ''BUFFER,buffer'',
     Setting ''arg3'' ''UINT32,size'']"

text \<open>The name of a call, its result and its arguments.\<close>

definition vfs_signatures :: "(string \<times> AppInterfaceCallArg \<times> AppInterfaceCallArg list) list" where
  "vfs_signatures =
    (let I = \<lparr>aa_type = AICT_INT32, aa_direction = AICD_IN, aa_size = 4\<rparr>;
         U = \<lparr>aa_type = AICT_UINT32, aa_direction = AICD_IN, aa_size = 4\<rparr>;
         S = \<lparr>aa_type = AICT_STRING, aa_direction = AICD_IN, aa_size = 0\<rparr>;
         B = \<lparr>aa_type = AICT_BUFFER, aa_direction = AICD_IN, aa_size = 0\<rparr>;
         SO = \<lparr>aa_type = AICT_STRING, aa_direction = AICD_OUT, aa_size = 0\<rparr>;
         BO = \<lparr>aa_type = AICT_BUFFER, aa_direction = AICD_OUT, aa_size = 0\<rparr> in
     [(''access'', I, [S, U]), (''chmod'', I, [S, U]), (''chown'', I, [S, U, U]), (''close'', I, [I]),
      (''closedir'', I, [I]), (''dirfd'', I, [I]), (''fchmod'', I, [I, U]), (''fchown'', I, [I, U, U]),
      (''flock'', I, [I, U]), (''lchown'', I, [S, U, U]), (''link'', I, [S, S]), (''lseek'', I, [I, I, I]),
      (''mkdir'', I, [S, U]), (''open'', I, [S, U, U]), (''opendir'', I, [S]), (''read'', I, [I, BO, U]),
      (''readdir'', I, [I, SO]), (''rename'', I, [S, S]), (''rewinddir'', I, [I]), (''rmdir'', I, [S]),
      (''symlink'', I, [S, S]), (''umask'', U, [U]), (''unlink'', I, [S]), (''write'', I, [I, B, U])])"

definition vfs_calls :: "AppInterfaceCall list" where
  "vfs_calls = map (\<lambda>((n, r, as), f). \<lparr>ac_name = n, ac_type = r, ac_args = as, ac_func = Some f\<rparr>)
     (zip vfs_signatures [0 ..< length vfs_signatures])"

definition vfs_loader :: "string \<Rightarrow> world \<Rightarrow> (AppInterface option \<times> world) option" where
  "vfs_loader app = appinterface_new_server (Some vfs_lookup) (\<lambda>_. Inr (in_open (items_text vfs_items))) None ''/etc'' (Some app)"

text \<open>The file declares the calls of the functions.\<close>

lemma vfs_items_ok: "\<forall>i \<in> set vfs_items. item_ok i"
  by (simp add: vfs_items_def savable_section_def savable_variable_def printable_def load_isprint_def)

lemma vfs_names: "call_names vfs_items = map fst vfs_signatures"
  by code_simp

lemma vfs_declared:
  "map (\<lambda>n. call_of n (declared vfs_items (call_prefix @ n))) (map fst vfs_signatures)
     = map (\<lambda>c. Some (c\<lparr>ac_func := None\<rparr>)) vfs_calls"
  by code_simp

lemma vfs_port: "declared vfs_items [] ''port'' = Some ''4245''" "atoi ''4245'' = Some 4245"
  by code_simp+

lemma vfs_found: "\<forall>c \<in> set vfs_calls. vfs_lookup (Some (''VFS_'' @ ac_name c)) = ac_func c \<and> ac_func c \<noteq> None"
  by (simp add: vfs_calls_def vfs_signatures_def vfs_lookup_def vfs_symbols_def Let_def upt_rec)

lemma lookup_calls_found:
  "plenty w \<Longrightarrow> \<forall>c \<in> set cs. lookup (Some (name @ ''_'' @ ac_name c)) = Some (f c) \<Longrightarrow>
   \<exists>w'. lookup_calls lookup name cs w = (Some (map (\<lambda>c. c\<lparr>ac_func := Some (f c)\<rparr>) cs), w') \<and> plenty w'"
proof (induction cs arbitrary: w)
  case (Cons c cs)
  obtain w1 where "string_new_append (Some name) [''_'', ac_name c] w = (Some (name @ ''_'' @ ac_name c), w1)" "plenty w1"
    using string_new_append_plenty [OF Cons.prems(1), of name "[''_'', ac_name c]"] by auto
  with Cons.IH [of w1] Cons.prems(2) show ?case by auto
qed simp

lemma vfs_loads:
  assumes "plenty w"
  shows "\<exists>cs w'. vfs_loader ''VFS'' w = Some (Some \<lparr>ai_name = ''VFS'', ai_calls = cs, ai_port = 4245, ai_error = 0\<rparr>, w')
    \<and> plenty w' \<and> distinct (map ac_name cs) \<and> set cs = set vfs_calls"
proof -
  let ?open = "\<lambda>_. Inr (in_open (items_text vfs_items)) :: int + infile"
  have some: "call_of n (declared vfs_items (call_prefix @ n)) \<noteq> None" if "n \<in> set (call_names vfs_items)" for n
    using that vfs_declared unfolding vfs_names by (metis (no_types, lifting) in_set_conv_nth length_map nth_map option.discI)
  obtain cs w' where 1: "appinterface_new ?open None ''/etc'' (Some ''VFS'') w
      = Some (Some \<lparr>ai_name = ''VFS'', ai_calls = cs, ai_port = 4245, ai_error = 0\<rparr>, w')" "plenty w'" "distinct (map ac_name cs)"
    "set cs = {the (call_of n (declared vfs_items (call_prefix @ n))) |n. declared vfs_items (call_prefix @ n) \<noteq> Map.empty}"
    using interface_declared [where fopen = ?open and etcdir = "''/etc''" and app = "''VFS''", OF assms vfs_items_ok refl, of 4245]
      some vfs_port by (auto simp: declared_names)
  have "set (map Some cs) = set (map (\<lambda>n. call_of n (declared vfs_items (call_prefix @ n))) (map fst vfs_signatures))"
    using 1(4) some by (fastforce simp: declared_names vfs_names [symmetric] image_iff)
  then have "Some ` set cs = Some ` ((\<lambda>c. c\<lparr>ac_func := None\<rparr>) ` set vfs_calls)" unfolding vfs_declared by (simp add: image_image)
  then have cs: "set cs = (\<lambda>c. c\<lparr>ac_func := None\<rparr>) ` set vfs_calls" by (simp only: inj_image_eq_iff [OF inj_Some])
  define f where "f c = the (vfs_lookup (Some (''VFS_'' @ ac_name c)))" for c :: AppInterfaceCall
  have found: "vfs_lookup (Some (''VFS'' @ ''_'' @ ac_name c)) = Some (f c)" if "c \<in> set cs" for c
    using that vfs_found by (auto simp: cs f_def)
  obtain w2 where w2: "lookup_calls vfs_lookup ''VFS'' cs w' = (Some (map (\<lambda>c. c\<lparr>ac_func := Some (f c)\<rparr>) cs), w2)" "plenty w2"
    using lookup_calls_found [OF 1(2), of cs vfs_lookup "''VFS''" f] found by blast
  have restored: "c\<lparr>ac_func := None, ac_func := Some (f (c\<lparr>ac_func := None\<rparr>))\<rparr> = c" if "c \<in> set vfs_calls" for c
  proof -
    have "ac_func c = Some (f (c\<lparr>ac_func := None\<rparr>))" using bspec [OF vfs_found that] by (auto simp: f_def)
    then show ?thesis by simp
  qed
  have "set (map (\<lambda>c. c\<lparr>ac_func := Some (f c)\<rparr>) cs) = (\<lambda>c. c) ` set vfs_calls"
    unfolding set_map cs image_image by (intro image_cong refl) (simp only: restored)
  moreover have "distinct (map ac_name (map (\<lambda>c. c\<lparr>ac_func := Some (f c)\<rparr>) cs))" using 1(3) by (simp add: comp_def)
  moreover have "vfs_loader ''VFS'' w = Some (Some \<lparr>ai_name = ''VFS'', ai_calls = map (\<lambda>c. c\<lparr>ac_func := Some (f c)\<rparr>) cs,
      ai_port = 4245, ai_error = 0\<rparr>, w2)"
    using 1(1) w2(1) by (simp add: vfs_loader_def appinterface_new_server_def)
  ultimately show ?thesis using w2(2) by fastforce
qed

section \<open>Every call has a function\<close>

definition files_ok :: "'k files \<Rightarrow> bool" where
  "files_ok fs \<longleftrightarrow> (\<forall>fd n k bs k'. f_read fs fd n k = (Inr bs, k') \<longrightarrow> length bs \<le> n)"

lemma buffer_set_size_safe:
  assumes "buffer_wf b"
  shows "\<exists>r b' w'. buffer_set_size junk b n w = Some (r, b', w') \<and> buffer_wf b'
    \<and> (if r = 0 then buf_size b' = n else b' = b)"
proof -
  obtain ok w1 where w1: "w_alloc w = (ok, w1)" by fastforce
  show ?thesis
  proof (cases "ok \<or> n = 0")
    case True
    have "length (buf_data b) = buf_size b" using assms by (simp add: buffer_wf_def)
    with True w1 show ?thesis
      by (auto simp: buffer_set_size_def buffer_wf_def Let_def write_block_def realloc_block_def)
  qed (use w1 assms in \<open>simp add: buffer_set_size_def\<close>)
qed

lemma VFS_read_safe:
  assumes "files_ok fs" "buffer_wf b"
  shows "\<exists>r b' st'. VFS_read fs junk cur fd b sz st = Some (r, b', st') \<and> buffer_wf b'"
proof -
  let ?n = "unat sz"
  obtain ok s w where ok: "vfs_client_check cur fd st = (ok, s, w)" by (metis prod_cases3)
  obtain r b1 w1 where 1: "buffer_set_size junk b ?n w = Some (r, b1, w1)" "buffer_wf b1" "if r = 0 then buf_size b1 = ?n else b1 = b"
    using buffer_set_size_safe [OF assms(2)] by blast
  obtain res k where res: "f_read fs fd ?n (vs_kernel s) = (res, k)" by fastforce
  show ?thesis
  proof (cases "ok \<and> r = 0")
    case True
    have short: "length bs \<le> ?n" if "res = Inr bs" for bs using assms(1) res that unfolding files_ok_def by blast
    have "\<exists>ret b2 w2. (case res of Inl e \<Rightarrow> Some (- 1, b1, w1\<lparr>errno := e\<rparr>)
        | Inr bs \<Rightarrow> do { d \<leftarrow> write_block (buffer_get_data b1) 0 bs; Some (int32 (int (length bs)), b1\<lparr>buf_data := d\<rparr>, w1) }) = Some (ret, b2, w2)
      \<and> buffer_wf b2 \<and> buf_size b2 = ?n"
      using short 1 True by (cases res) (auto simp: write_block_def buffer_wf_def buffer_get_data_def)
    then obtain ret b2 w2 where 2: "(case res of Inl e \<Rightarrow> Some (- 1, b1, w1\<lparr>errno := e\<rparr>)
        | Inr bs \<Rightarrow> do { d \<leftarrow> write_block (buffer_get_data b1) 0 bs; Some (int32 (int (length bs)), b1\<lparr>buf_data := d\<rparr>, w1) }) = Some (ret, b2, w2)"
      "buffer_wf b2" "buf_size b2 = ?n" by blast
    obtain r3 b3 w3 where 3: "buffer_set_size junk b2 (if ret < 0 then 0 else nat ret) w2 = Some (r3, b3, w3)" "buffer_wf b3"
      "if r3 = 0 then buf_size b3 = (if ret < 0 then 0 else nat ret) else b3 = b2"
      using buffer_set_size_safe [OF 2(2)] by blast
    have "\<exists>d. write_block (buffer_get_data b3) 0 (replicate ?n NUL) = Some d \<and> length d = ?n" if "r3 \<noteq> 0"
      using that 3(3) 2(2,3) by (auto simp: write_block_def buffer_wf_def buffer_get_data_def)
    with True ok 1 res 2 3 show ?thesis
      by (auto simp: VFS_read_def buffer_wf_def Let_def split: prod.split)
  qed (use ok 1 assms(2) in \<open>auto simp: VFS_read_def\<close>)
qed

lemma VFS_write_safe:
  assumes "buffer_wf b"
  shows "\<exists>r st'. VFS_write fs cur fd b sz st = Some (r, st')"
proof -
  obtain ok s w where "vfs_client_check cur fd st = (ok, s, w)" by (metis prod_cases3)
  with assms show ?thesis
    by (auto simp: VFS_write_def read_block_def buffer_wf_def buffer_get_data_def buffer_get_size_def split: prod.split sum.split)
qed

lemma vfs_serves:
  assumes "files_ok fs"
  shows "list_all (call_serves (vfs_env fs junk)) vfs_calls"
  unfolding vfs_calls_def vfs_signatures_def Let_def
  apply (simp add: upt_rec)
  apply (auto simp: call_serves_def list_all2_Cons1 given_def given_back_def vfs_env_def vfs_functions_def nth_opt_def plain_def split: prod.split)
  subgoal for cur u w x b y
    using VFS_read_safe [OF assms, of b junk cur "i32 x" "u32 y" "(u, w)"] by force
  subgoal for cur u w x b y
    using VFS_write_safe [of b fs cur "i32 x" "u32 y" "(u, w)"] by force
  done

text \<open>
  C18: the interface of the VFS server and its functions fit. Loading \<open>VFS.interface\<close> with memory for all of it gives the 24 calls
  of \<open>vfs_calls\<close>, each once and with the function of its name, and the port; each function is defined on all arguments of the
  types that its call declares, and gives back values of the types it must, whatever the files do.
\<close>

theorem vfs_interface_fits:
  assumes "plenty w" "files_ok fs"
  shows "\<exists>cs w'. vfs_loader ''VFS'' w = Some (Some \<lparr>ai_name = ''VFS'', ai_calls = cs, ai_port = 4245, ai_error = 0\<rparr>, w')
    \<and> distinct (map ac_name cs) \<and> set cs = set vfs_calls \<and> list_all (call_serves (vfs_env fs junk)) cs"
  using vfs_loads [OF assms(1)] vfs_serves [OF assms(2), of junk] unfolding list_all_iff by metis

text \<open>A kernel that gives each file the next descriptor.\<close>

definition demo_files :: "int list files" where
  "demo_files =
     (let ok = \<lambda>k. (None, k) in
      \<lparr>f_access = \<lambda>p m. ok, f_chmod = \<lambda>p m. ok, f_chown = \<lambda>p u g. ok,
       f_close = \<lambda>fd k. if fd \<in> set k then (None, removeAll fd k) else (Some 9, k),
       f_closedir = \<lambda>d k. (Some 9, k), f_dirfd = \<lambda>d k. (Inl 9, k), f_fchmod = \<lambda>fd m. ok, f_fchown = \<lambda>fd u g. ok,
       f_flock = \<lambda>fd m. ok, f_lchown = \<lambda>p u g. ok, f_link = \<lambda>p q. ok, f_lseek = \<lambda>fd off how k. (Inr off, k),
       f_mkdir = \<lambda>p m. ok, f_open = \<lambda>p flags m k. (Inr (foldr max k 2 + 1), (foldr max k 2 + 1) # k),
       f_opendir = \<lambda>p k. (Inl 2, k), f_read = \<lambda>fd n k. (Inr (replicate (min n 3) CHR ''x''), k), f_readdir = \<lambda>d k. (None, k),
       f_rename = \<lambda>p q. ok, f_rewinddir = \<lambda>d k. k, f_rmdir = \<lambda>p. ok, f_symlink = \<lambda>p q. ok, f_umask = \<lambda>m k. (18, k),
       f_unlink = \<lambda>p. ok, f_write = \<lambda>fd bs k. (Inr (length bs), k)\<rparr>)"

lemma demo_files_ok: "files_ok demo_files"
  by (auto simp: files_ok_def demo_files_def Let_def)

theorem vfs_interface_fits_witness:
  "case vfs_loader ''VFS'' world0 of Some (Some ai, w') \<Rightarrow> length (ai_calls ai) = 24 \<and> ai_port ai = 4245 | _ \<Rightarrow> False"
proof -
  have "plenty world0" by simp
  from vfs_interface_fits [OF this demo_files_ok, of "\<lambda>i. NUL"] obtain cs w' where
    cs: "vfs_loader ''VFS'' world0 = Some (Some \<lparr>ai_name = ''VFS'', ai_calls = cs, ai_port = 4245, ai_error = 0\<rparr>, w')"
      "distinct (map ac_name cs)" "set cs = set vfs_calls" by blast
  have "distinct (map ac_name vfs_calls)" "length vfs_calls = 24" by code_simp+
  with cs(2,3) have "length cs = 24" by (metis distinct_card distinct_map)
  with cs(1) show ?thesis by simp
qed

end
