(* ===== verification/Vfs_Isolated.thy ===== *)
theory Vfs_Isolated
  imports Vfs_Iface
begin

text \<open>
  What the clients of the VFS server can do to each other: in every state that calls of any clients lead to, their tables of
  descriptors are disjoint, a call changes the table of its client only, and a descriptor of another client is refused.
\<close>

section \<open>Descriptors of the kernel\<close>

text \<open>
  What is relied on: \<open>view\<close> gives the open descriptors and the descriptors of the directory streams of a state. A new
  descriptor was not open; closing that succeeds removes one; closing that fails removes it or leaves it (POSIX does not say which); nothing
  else changes them.
\<close>

definition same_view :: "('k \<Rightarrow> int set \<times> (nat \<Rightarrow> int option)) \<Rightarrow> ('k \<Rightarrow> 'a \<times> 'k) \<Rightarrow> bool" where
  "same_view view f \<longleftrightarrow> (\<forall>k. view (snd (f k)) = view k)"

definition open_ok :: "'k files \<Rightarrow> ('k \<Rightarrow> int set \<times> (nat \<Rightarrow> int option)) \<Rightarrow> bool" where
  "open_ok fs view \<longleftrightarrow> (\<forall>p flags m k. case f_open fs p flags m k of
     (Inr fd, k') \<Rightarrow> 0 \<le> fd \<and> fd \<notin> fst (view k) \<and> view k' = (insert fd (fst (view k)), snd (view k))
   | (Inl e, k') \<Rightarrow> view k' = view k)"

definition opendir_ok :: "'k files \<Rightarrow> ('k \<Rightarrow> int set \<times> (nat \<Rightarrow> int option)) \<Rightarrow> bool" where
  "opendir_ok fs view \<longleftrightarrow> (\<forall>p k. case f_opendir fs p k of
     (Inr d, k') \<Rightarrow> (\<exists>fd. 0 \<le> fd \<and> fd \<notin> fst (view k) \<and> snd (view k) d = None
       \<and> view k' = (insert fd (fst (view k)), (snd (view k))(d \<mapsto> fd)))
   | (Inl e, k') \<Rightarrow> view k' = view k)"

definition dirfd_ok :: "'k files \<Rightarrow> ('k \<Rightarrow> int set \<times> (nat \<Rightarrow> int option)) \<Rightarrow> bool" where
  "dirfd_ok fs view \<longleftrightarrow> (\<forall>d k. case f_dirfd fs d k of
     (Inr fd, k') \<Rightarrow> snd (view k) d = Some fd \<and> view k' = view k
   | (Inl e, k') \<Rightarrow> view k' = view k)"

definition close_ok :: "'k files \<Rightarrow> ('k \<Rightarrow> int set \<times> (nat \<Rightarrow> int option)) \<Rightarrow> bool" where
  "close_ok fs view \<longleftrightarrow> (\<forall>fd k. case f_close fs fd k of
     (None, k') \<Rightarrow> view k' = (fst (view k) - {fd}, snd (view k))
   | (Some e, k') \<Rightarrow> view k' = view k \<or> view k' = (fst (view k) - {fd}, snd (view k)))"

definition closedir_ok :: "'k files \<Rightarrow> ('k \<Rightarrow> int set \<times> (nat \<Rightarrow> int option)) \<Rightarrow> bool" where
  "closedir_ok fs view \<longleftrightarrow> (\<forall>d k. case f_closedir fs d k of
     (None, k') \<Rightarrow> view k' = (fst (view k) - set_option (snd (view k) d), (snd (view k))(d := None))
   | (Some e, k') \<Rightarrow> view k' = view k
       \<or> view k' = (fst (view k) - set_option (snd (view k) d), (snd (view k))(d := None)))"

text \<open>In the state \<open>k\<close>, closing an open descriptor or stream would succeed.\<close>

definition closing_works :: "'k files \<Rightarrow> ('k \<Rightarrow> int set \<times> (nat \<Rightarrow> int option)) \<Rightarrow> 'k \<Rightarrow> bool" where
  "closing_works fs view k \<longleftrightarrow> (\<forall>fd. fd \<in> fst (view k) \<longrightarrow> fst (f_close fs fd k) = None)
     \<and> (\<forall>d. snd (view k) d \<noteq> None \<longrightarrow> fst (f_closedir fs d k) = None)"

definition descriptors :: "'k files \<Rightarrow> ('k \<Rightarrow> int set \<times> (nat \<Rightarrow> int option)) \<Rightarrow> bool" where
  "descriptors fs view \<longleftrightarrow>
     open_ok fs view \<and> opendir_ok fs view \<and> dirfd_ok fs view \<and> close_ok fs view \<and> closedir_ok fs view
     \<and> (\<forall>p m. same_view view (f_access fs p m)) \<and> (\<forall>p m. same_view view (f_chmod fs p m))
     \<and> (\<forall>p u g. same_view view (f_chown fs p u g)) \<and> (\<forall>p u g. same_view view (f_lchown fs p u g))
     \<and> (\<forall>fd m. same_view view (f_fchmod fs fd m)) \<and> (\<forall>fd u g. same_view view (f_fchown fs fd u g))
     \<and> (\<forall>fd m. same_view view (f_flock fs fd m)) \<and> (\<forall>p q. same_view view (f_link fs p q))
     \<and> (\<forall>fd off how. same_view view (f_lseek fs fd off how)) \<and> (\<forall>p m. same_view view (f_mkdir fs p m))
     \<and> (\<forall>fd n. same_view view (f_read fs fd n)) \<and> (\<forall>d. same_view view (f_readdir fs d))
     \<and> (\<forall>p q. same_view view (f_rename fs p q)) \<and> (\<forall>d k. view (f_rewinddir fs d k) = view k)
     \<and> (\<forall>p. same_view view (f_rmdir fs p)) \<and> (\<forall>p q. same_view view (f_symlink fs p q))
     \<and> (\<forall>m. same_view view (f_umask fs m)) \<and> (\<forall>p. same_view view (f_unlink fs p))
     \<and> (\<forall>fd bs. same_view view (f_write fs fd bs))"

section \<open>The tables\<close>

text \<open>The entry of a client, and its descriptors.\<close>

definition vfs_client :: "'k vfs \<Rightarrow> nat \<Rightarrow> VFSClient option" where
  "vfs_client s i = find (\<lambda>c. vc_id c = i) (vs_clients s)"

definition vfs_fds :: "VFSClient \<Rightarrow> int list" where
  "vfs_fds c = map vf_fd (vc_files c)"

definition all_fds :: "VFSClient list \<Rightarrow> int set" where
  "all_fds cs = (\<Union>c \<in> set cs. set (vfs_fds c))"

definition tables_ok :: "int set \<times> (nat \<Rightarrow> int option) \<Rightarrow> VFSClient list \<Rightarrow> bool" where
  "tables_ok V cs \<longleftrightarrow> distinct (map vc_id cs) \<and> distinct (concat (map vfs_fds cs))
     \<and> (\<forall>c \<in> set cs. \<forall>f \<in> set (vc_files c). 0 \<le> vf_fd f \<and> vf_fd f \<in> fst V \<and> (\<forall>d. vf_dir f = Some d \<longrightarrow> snd V d = Some (vf_fd f)))"

definition vfs_inv :: "('k \<Rightarrow> int set \<times> (nat \<Rightarrow> int option)) \<Rightarrow> 'k vfs \<Rightarrow> bool" where
  "vfs_inv view s \<longleftrightarrow> tables_ok (view (vs_kernel s)) (vs_clients s)"

inductive vfs_run :: "'k files \<Rightarrow> (nat \<Rightarrow> char) \<Rightarrow> 'k vfs \<Rightarrow> bool" for fs junk where
  start: "vfs_run fs junk (vfs_client_init k)"
| call: "vfs_run fs junk s \<Longrightarrow> vfs_env fs junk cur f ss s w = Some (r, ss', s', w') \<Longrightarrow> vfs_run fs junk s'"

text \<open>The states of a server in which no closing of an open descriptor has failed.\<close>

inductive vfs_steady :: "'k files \<Rightarrow> ('k \<Rightarrow> int set \<times> (nat \<Rightarrow> int option)) \<Rightarrow> (nat \<Rightarrow> char) \<Rightarrow> 'k vfs \<Rightarrow> bool" for fs view junk where
  start: "vfs_steady fs view junk (vfs_client_init k)"
| call: "vfs_steady fs view junk s \<Longrightarrow> closing_works fs view (vs_kernel s) \<Longrightarrow>
    vfs_env fs junk cur f ss s w = Some (r, ss', s', w') \<Longrightarrow> vfs_steady fs view junk s'"

lemma vfs_run_steady: "vfs_run fs junk s \<Longrightarrow> \<forall>k. closing_works fs view k \<Longrightarrow> vfs_steady fs view junk s"
  by (induction rule: vfs_run.induct) (blast intro: vfs_steady.intros)+

text \<open>What a call of the client \<open>cur\<close> may do: the invariant is kept, and the entries of the others.\<close>

definition own_step :: "('k \<Rightarrow> int set \<times> (nat \<Rightarrow> int option)) \<Rightarrow> nat option \<Rightarrow> 'k vfs \<Rightarrow> 'k vfs \<Rightarrow> bool" where
  "own_step view cur s s' \<longleftrightarrow> (vfs_inv view s \<longrightarrow> vfs_inv view s' \<and> (\<forall>i. cur \<noteq> Some i \<longrightarrow> vfs_client s' i = vfs_client s i))"

lemma own_step_refl: "own_step view cur s s"
  by (simp add: own_step_def)

lemma own_step_trans [trans]: "own_step view cur s s1 \<Longrightarrow> own_step view cur s1 s2 \<Longrightarrow> own_step view cur s s2"
  by (auto simp: own_step_def)

lemma own_step_kernel: "view k = view (vs_kernel s) \<Longrightarrow> own_step view cur s (s\<lparr>vs_kernel := k\<rparr>)"
  by (simp add: own_step_def vfs_inv_def vfs_client_def)

lemma same_views:
  assumes "descriptors fs view"
  shows "same_view view (f_access fs p am)" "same_view view (f_chmod fs p m)" "same_view view (f_chown fs p u g)"
    "same_view view (f_lchown fs p u g)" "same_view view (f_fchmod fs fd m)" "same_view view (f_fchown fs fd u g)"
    "same_view view (f_flock fs fd m)" "same_view view (f_link fs p q)" "same_view view (f_lseek fs fd off how)"
    "same_view view (f_mkdir fs p m)" "same_view view (f_read fs fd n)" "same_view view (f_readdir fs d)"
    "same_view view (f_rename fs p q)" "same_view view (f_rmdir fs p)" "same_view view (f_symlink fs p q)"
    "same_view view (f_umask fs m)" "same_view view (f_unlink fs p)" "same_view view (f_write fs fd bs)"
    "view (f_rewinddir fs d k) = view k"
  using assms by (simp_all add: descriptors_def)

lemma descriptors_open:
  assumes "descriptors fs view" "f_open fs p flags m k = (x, k')"
  shows "case x of Inr fd \<Rightarrow> 0 \<le> fd \<and> fd \<notin> fst (view k) \<and> view k' = (insert fd (fst (view k)), snd (view k)) | Inl e \<Rightarrow> view k' = view k"
proof -
  have "open_ok fs view" using assms(1) by (simp add: descriptors_def)
  then show ?thesis using assms(2) unfolding open_ok_def by - (drule spec [of _ p], drule spec [of _ flags], drule spec [of _ m], drule spec [of _ k], cases x, simp_all)
qed

lemma descriptors_opendir:
  assumes "descriptors fs view" "f_opendir fs p k = (x, k')"
  shows "case x of Inr d \<Rightarrow> (\<exists>fd. 0 \<le> fd \<and> fd \<notin> fst (view k) \<and> snd (view k) d = None
      \<and> view k' = (insert fd (fst (view k)), (snd (view k))(d \<mapsto> fd))) | Inl e \<Rightarrow> view k' = view k"
proof -
  have "opendir_ok fs view" using assms(1) by (simp add: descriptors_def)
  then show ?thesis using assms(2) unfolding opendir_ok_def by - (drule spec [of _ p], drule spec [of _ k], cases x, simp_all)
qed

lemma descriptors_dirfd:
  assumes "descriptors fs view" "f_dirfd fs d k = (x, k')"
  shows "view k' = view k \<and> (\<forall>fd. x = Inr fd \<longrightarrow> snd (view k) d = Some fd)"
proof -
  have "dirfd_ok fs view" using assms(1) by (simp add: descriptors_def)
  then show ?thesis using assms(2) unfolding dirfd_ok_def by - (drule spec [of _ d], drule spec [of _ k], cases x, simp_all)
qed

lemma descriptors_close:
  assumes "descriptors fs view" "f_close fs fd k = (e, k')"
  shows "view k' = (fst (view k) - {fd}, snd (view k)) \<or> e \<noteq> None \<and> view k' = view k"
proof -
  have "close_ok fs view" using assms(1) by (simp add: descriptors_def)
  then show ?thesis using assms(2) unfolding close_ok_def by - (drule spec [of _ fd], drule spec [of _ k], cases e, auto)
qed

lemma descriptors_closedir:
  assumes "descriptors fs view" "f_closedir fs d k = (e, k')"
  shows "view k' = (fst (view k) - set_option (snd (view k) d), (snd (view k))(d := None)) \<or> e \<noteq> None \<and> view k' = view k"
proof -
  have "closedir_ok fs view" using assms(1) by (simp add: descriptors_def)
  then show ?thesis using assms(2) unfolding closedir_ok_def by - (drule spec [of _ d], drule spec [of _ k], cases e, auto)
qed

lemma same_viewD: "same_view view f \<Longrightarrow> f k = (x, k') \<Longrightarrow> view k' = view k"
  by (metis same_view_def snd_conv)

lemma sys_call_step:
  assumes "same_view view f" "sys_call f (s, w) = (r, s', w')"
  shows "own_step view cur s s'"
proof -
  obtain e k where k: "f (vs_kernel s) = (e, k)" by fastforce
  with assms(2) have "s' = s\<lparr>vs_kernel := k\<rparr>" by (auto simp: sys_call_def split: option.splits)
  with own_step_kernel same_viewD [OF assms(1) k] show ?thesis by metis
qed

lemma vfs_failed_eq: "vfs_failed (s, w) = (fst (vfs_errno vfs_error (errno w) False w), s, w)"
  by (simp add: vfs_failed_def vfs_errno_map)

lemma vfs_failed_same: "vfs_failed (s, w) = (r, s', w') \<Longrightarrow> s' = s"
  by (auto simp: vfs_failed_def split: prod.splits)

lemma vfs_stub_step:
  assumes "same_view view f" "vfs_stub f (s, w) = (r, s', w')"
  shows "own_step view cur s s'"
proof -
  obtain e s1 w1 where 1: "sys_call f (s, w) = (e, s1, w1)" by (metis prod_cases3)
  with assms(2) vfs_failed_same have "s' = s1" by (fastforce simp: vfs_stub_def split: if_splits)
  with sys_call_step [OF assms(1) 1] show ?thesis by simp
qed

lemma client_get_same: "vfs_client_get cur (s, w) = (p, s1, w1) \<Longrightarrow> s1 = s
    \<and> p = (case cur of None \<Rightarrow> None | Some i \<Rightarrow> vfs_client_find (vs_clients s) i)"
  by (auto simp: vfs_client_get_def split: option.splits)

lemma client_check_same: "vfs_client_check cur fd (s, w) = (ok, s1, w1) \<Longrightarrow> s1 = s"
  by (auto simp: vfs_client_check_def dest: client_get_same split: prod.splits option.splits)

lemma client_check_dir_same: "vfs_client_check_dir cur fd (s, w) = (d, s1, w1) \<Longrightarrow> s1 = s"
  by (auto simp: vfs_client_check_dir_def dest: client_get_same split: prod.splits option.splits)

lemma vfs_on_fd_step:
  assumes "same_view view f" "vfs_on_fd cur fd f (s, w) = (r, s', w')"
  shows "own_step view cur s s'"
proof -
  obtain ok s1 w1 where 1: "vfs_client_check cur fd (s, w) = (ok, s1, w1)" by (metis prod_cases3)
  obtain e s2 w2 where 2: "sys_call f (s1, w1) = (e, s2, w2)" by (metis prod_cases3)
  have s1: "s1 = s" using client_check_same [OF 1] .
  have "s' = s \<or> s' = s2" using assms(2) 1 2 s1 vfs_failed_same by (fastforce simp: vfs_on_fd_def split: if_splits)
  with sys_call_step [OF assms(1) 2] s1 own_step_refl show ?thesis by blast
qed

lemma client_find_at:
  "vfs_client_find cs i = Some p \<Longrightarrow> p < length cs \<and> vc_id (cs ! p) = i \<and> find (\<lambda>c. vc_id c = i) cs = Some (cs ! p)"
  by (induction cs arbitrary: p) (auto split: if_splits)

lemma client_find_None: "vfs_client_find cs i = None \<longleftrightarrow> i \<notin> vc_id ` set cs"
  by (induction cs) auto

lemma find_other: "\<not> P c \<Longrightarrow> find P (cs @ [c]) = find P cs"
  by (induction cs) auto

text \<open>Another entry for a client in its place.\<close>

lemma find_update:
  assumes "p < length cs" "vc_id (cs ! p) = vc_id c" "vc_id c \<noteq> i"
  shows "find (\<lambda>c. vc_id c = i) (cs[p := c]) = find (\<lambda>c. vc_id c = i) cs"
  using assms
proof (induction cs arbitrary: p)
  case (Cons a cs)
  then show ?case by (cases p) auto
qed simp

lemma umask_get_view:
  assumes "descriptors fs view" "umask_get fs k = (m, k')"
  shows "view k' = view k"
proof -
  obtain x k1 where 1: "f_umask fs 0 k = (x, k1)" by fastforce
  obtain y k2 where 2: "f_umask fs x k1 = (y, k2)" by fastforce
  from assms(2) 1 2 have "k' = k2" by (simp add: umask_get_def)
  then show ?thesis using same_viewD [OF same_views(16) [OF assms(1)] 1] same_viewD [OF same_views(16) [OF assms(1)] 2] by simp
qed

lemma get_umask_step:
  assumes "descriptors fs view" "vfs_client_get_umask fs cur (s, w) = (m, s', w')"
  shows "own_step view cur s s'"
proof -
  obtain p s1 w1 where 1: "vfs_client_get cur (s, w) = (p, s1, w1)" by (metis prod_cases3)
  then have s1: "s1 = s" using client_get_same by blast
  obtain m2 k where k: "umask_get fs (vs_kernel s) = (m2, k)" by fastforce
  from assms(2) 1 s1 k have "s' = s \<or> s' = s\<lparr>vs_kernel := k\<rparr>" by (auto simp: vfs_client_get_umask_def split: option.splits)
  with umask_get_view [OF assms(1) k] own_step_kernel own_step_refl show ?thesis by metis
qed

text \<open>An entry for the client of a call.\<close>

lemma client_add_step:
  assumes "descriptors fs view" "vfs_client_add fs cur (s, w) = (p, s', w')"
  shows "own_step view cur s s' \<and> view (vs_kernel s') = view (vs_kernel s)
    \<and> (\<forall>q. p = Some q \<longrightarrow> q < length (vs_clients s') \<and> cur = Some (vc_id (vs_clients s' ! q)))
    \<and> all_fds (vs_clients s') = all_fds (vs_clients s)"
proof -
  obtain p1 s1 w1 where 1: "vfs_client_get cur (s, w) = (p1, s1, w1)" by (metis prod_cases3)
  have s1: "s1 = s" "p1 = (case cur of None \<Rightarrow> None | Some i \<Rightarrow> vfs_client_find (vs_clients s) i)" using client_get_same [OF 1] by auto
  show ?thesis
  proof (cases p1)
    case (Some q)
    with assms(2) 1 s1(1) have "p = Some q" "s' = s" by (auto simp: vfs_client_add_def)
    moreover obtain i where "cur = Some i" "vfs_client_find (vs_clients s) i = Some q" using s1(2) Some by (cases cur) auto
    ultimately show ?thesis using client_find_at own_step_refl by fastforce
  next
    case None
    show ?thesis
    proof (cases "p = None")
      case True
      with assms(2) 1 s1(1) None have "s' = s"
        by (auto simp: vfs_client_add_def split: option.splits prod.splits bool.splits)
      with True own_step_refl show ?thesis by auto
    next
      case False
      obtain m k where k: "umask_get fs (vs_kernel s) = (m, k)" by fastforce
      obtain i where i: "cur = Some i" using False assms(2) 1 None by (cases cur) (auto simp: vfs_client_add_def)
      with False assms(2) 1 s1(1) None k have s': "p = Some (length (vs_clients s))"
        "s' = s\<lparr>vs_clients := vs_clients s @ [\<lparr>vc_id = i, vc_umask = m, vc_files = []\<rparr>], vs_kernel := k\<rparr>"
        by (auto simp: vfs_client_add_def split: option.splits prod.splits bool.splits)
      have new: "i \<notin> vc_id ` set (vs_clients s)" using s1(2) None i client_find_None by fastforce
      have "find (\<lambda>c. vc_id c = j) (vs_clients s @ [\<lparr>vc_id = i, vc_umask = m, vc_files = []\<rparr>]) = find (\<lambda>c. vc_id c = j) (vs_clients s)"
        if "j \<noteq> i" for j using that by (simp add: find_other)
      then have "own_step view cur s s'"
        using new i umask_get_view [OF assms(1) k]
        by (auto simp: s' own_step_def vfs_inv_def tables_ok_def vfs_client_def vfs_fds_def)
      with s' i umask_get_view [OF assms(1) k] show ?thesis by (simp add: all_fds_def vfs_fds_def)
    qed
  qed
qed

section \<open>Changing a table\<close>

lemma all_fds_concat: "all_fds cs = set (concat (map vfs_fds cs))"
  by (auto simp: all_fds_def)

lemma tables_open: "tables_ok V cs \<Longrightarrow> all_fds cs \<subseteq> fst V"
  by (auto simp: tables_ok_def all_fds_def vfs_fds_def)

lemma tables_more:
  "tables_ok V cs \<Longrightarrow> fst V \<subseteq> fst V' \<Longrightarrow> (\<And>d x. snd V d = Some x \<Longrightarrow> snd V' d = Some x) \<Longrightarrow> tables_ok V' cs"
  by (auto simp: tables_ok_def)

text \<open>Closing a descriptor that is in no table, with its stream.\<close>

lemma tables_drop: "tables_ok V cs \<Longrightarrow> fd \<notin> all_fds cs \<Longrightarrow> tables_ok (fst V - {fd}, snd V) cs"
  by (auto simp: tables_ok_def all_fds_def vfs_fds_def)

lemma tables_drop_dir:
  assumes "tables_ok V cs" "snd V d = Some fd" "fd \<notin> all_fds cs"
  shows "tables_ok (fst V - {fd}, (snd V)(d := None)) cs"
  using assms unfolding tables_ok_def all_fds_def vfs_fds_def by fastforce

lemma update_parts:
  assumes "p < length cs"
  obtains as bs where "cs = as @ cs ! p # bs" "\<And>c. cs[p := c] = as @ c # bs"
  using assms that [of "take p cs" "drop (Suc p) cs"] by (simp add: id_take_nth_drop [symmetric] upd_conv_take_nth_drop)

lemma tables_add:
  assumes "tables_ok V cs" "p < length cs" "vf_fd f \<notin> all_fds cs" "0 \<le> vf_fd f" "vf_fd f \<in> fst V"
    and "\<forall>d. vf_dir f = Some d \<longrightarrow> snd V d = Some (vf_fd f)"
  shows "tables_ok V (cs[p := (cs ! p)\<lparr>vc_files := vc_files (cs ! p) @ [f]\<rparr>])"
proof -
  obtain as bs where split: "cs = as @ cs ! p # bs" "\<And>c. cs[p := c] = as @ c # bs" using update_parts [OF assms(2)] by blast
  define c where "c = cs ! p"
  have cs: "cs = as @ c # bs" using split(1) by (simp add: c_def)
  show ?thesis unfolding split(2) c_def [symmetric]
    using assms(1,3-6) unfolding cs by (auto simp: tables_ok_def all_fds_def vfs_fds_def)
qed

lemma file_remove_sub: "set (vfs_file_remove fs fd) \<subseteq> set fs"
  by (induction fs) auto

lemma file_remove_fds: "distinct (map vf_fd fs) \<Longrightarrow> map vf_fd (vfs_file_remove fs fd) = remove1 fd (map vf_fd fs)"
  by (induction fs) auto

lemma distinct_part: "distinct (A @ X @ B) \<Longrightarrow> distinct Y \<Longrightarrow> set Y \<subseteq> set X \<Longrightarrow> distinct (A @ Y @ B)"
  by auto

lemma tables_remove:
  assumes "tables_ok V cs" "p < length cs"
  shows "tables_ok V (cs[p := (cs ! p)\<lparr>vc_files := vfs_file_remove (vc_files (cs ! p)) fd\<rparr>])
    \<and> (fd \<in> set (vfs_fds (cs ! p)) \<longrightarrow> fd \<notin> all_fds (cs[p := (cs ! p)\<lparr>vc_files := vfs_file_remove (vc_files (cs ! p)) fd\<rparr>]))"
proof -
  obtain as bs where split: "cs = as @ cs ! p # bs" "\<And>c. cs[p := c] = as @ c # bs" using update_parts [OF assms(2)] by blast
  define c where "c = cs ! p"
  have cs: "cs = as @ c # bs" using split(1) by (simp add: c_def)
  define r where "r = vfs_file_remove (vc_files c) fd"
  have "distinct (map vf_fd (vc_files c))" using assms(1) unfolding cs by (simp add: tables_ok_def vfs_fds_def)
  then have r: "map vf_fd r = remove1 fd (map vf_fd (vc_files c))" "set r \<subseteq> set (vc_files c)"
    using file_remove_fds file_remove_sub by (auto simp: r_def)
  define A where "A = concat (map vfs_fds as)"
  define B where "B = concat (map vfs_fds bs)"
  have d: "distinct (A @ map vf_fd (vc_files c) @ B)" using assms(1) by (simp add: A_def B_def cs tables_ok_def vfs_fds_def)
  have sub: "set (map vf_fd r) \<subseteq> set (map vf_fd (vc_files c))" using r(2) by auto
  have fds: "distinct (map vf_fd (vc_files c))" using d by simp
  have "distinct (map vf_fd r)" unfolding r(1) by (rule distinct_remove1 [OF fds])
  note d' = distinct_part [OF d this sub]
  have out: "fd \<notin> set (A @ map vf_fd r @ B)" if "fd \<in> set (vfs_fds c)"
  proof -
    have "fd \<notin> set (map vf_fd r)" unfolding r(1) set_remove1_eq [OF fds] by simp
    moreover have "fd \<in> set (map vf_fd (vc_files c))" using that by (simp add: vfs_fds_def)
    ultimately show ?thesis using d by auto
  qed
  have "tables_ok V (as @ c\<lparr>vc_files := r\<rparr> # bs)"
    using assms(1) d' r(2) unfolding A_def B_def by (auto simp: cs tables_ok_def vfs_fds_def)
  moreover have "all_fds (as @ c\<lparr>vc_files := r\<rparr> # bs) = set (A @ map vf_fd r @ B)"
    by (simp only: all_fds_concat A_def B_def vfs_fds_def list.map map_append concat.simps concat_append VFSClient.select_convs VFSClient.update_convs) simp
  ultimately show ?thesis unfolding split(2) c_def [symmetric] r_def [symmetric] using out by simp
qed

section \<open>The operations\<close>

lemma client_set_umask_step:
  assumes "descriptors fs view" "vfs_client_set_umask fs cur um (s, w) = (r, s', w')"
  shows "own_step view cur s s'"
proof -
  obtain p s1 w1 where 1: "vfs_client_add fs cur (s, w) = (p, s1, w1)" by (metis prod_cases3)
  note add = client_add_step [OF assms(1) 1]
  show ?thesis
  proof (cases p)
    case (Some q)
    define c where "c = (vs_clients s1 ! q)\<lparr>vc_umask := um\<rparr>"
    have s': "s' = s1\<lparr>vs_clients := (vs_clients s1)[q := c]\<rparr>" using assms(2) 1 Some by (simp add: vfs_client_set_umask_def c_def)
    have q: "q < length (vs_clients s1)" "cur = Some (vc_id (vs_clients s1 ! q))" using add Some by auto
    have "map vc_id ((vs_clients s1)[q := c]) = map vc_id (vs_clients s1)" "map vfs_fds ((vs_clients s1)[q := c]) = map vfs_fds (vs_clients s1)"
      using q(1) by (simp_all add: c_def map_update vfs_fds_def list_update_same_conv)
    moreover have "\<exists>c' \<in> set (vs_clients s1). vc_files x = vc_files c'" if "x \<in> set ((vs_clients s1)[q := c])" for x
      using that q(1) set_update_subset_insert [of "vs_clients s1" q c] nth_mem by (fastforce simp: c_def)
    ultimately have ok: "tables_ok V ((vs_clients s1)[q := c])" if "tables_ok V (vs_clients s1)" for V
      using that unfolding tables_ok_def by fastforce
    have "own_step view cur s1 s'"
      using ok q find_update [OF q(1), of c] by (simp add: s' own_step_def vfs_inv_def vfs_client_def c_def)
    with add own_step_trans show ?thesis by blast
  qed (use add assms(2) 1 in \<open>auto simp: vfs_client_set_umask_def\<close>)
qed

text \<open>A new descriptor in the table of the client, or in no table.\<close>

lemma client_add_file_step:
  assumes "descriptors fs view" "vfs_client_add_file fs cur fd dir (s\<lparr>vs_kernel := k\<rparr>, w) = (r, s', w')" "vfs_inv view s"
    and new: "0 \<le> fd" "fd \<notin> fst (view (vs_kernel s))" "fst (view k) = insert fd (fst (view (vs_kernel s)))"
      "\<And>d x. snd (view (vs_kernel s)) d = Some x \<Longrightarrow> snd (view k) d = Some x" "\<And>d. dir = Some d \<Longrightarrow> snd (view k) d = Some fd"
  shows "vfs_inv view s' \<and> (\<forall>i. cur \<noteq> Some i \<longrightarrow> vfs_client s' i = vfs_client s i) \<and> view (vs_kernel s') = view k
    \<and> (r \<noteq> 0 \<longrightarrow> fd \<notin> all_fds (vs_clients s'))"
proof -
  define s0 where "s0 = s\<lparr>vs_kernel := k\<rparr>"
  have "fst (view (vs_kernel s)) \<subseteq> fst (view k)" using new(3) by blast
  then have inv0: "vfs_inv view s0"
    using assms(3) tables_more [OF _ _ new(4)] by (simp add: vfs_inv_def s0_def)
  obtain p s1 w1 where 1: "vfs_client_add fs cur (s0, w) = (p, s1, w1)" by (metis prod_cases3)
  note add = client_add_step [OF assms(1) 1]
  have inv1: "vfs_inv view s1" "\<forall>i. cur \<noteq> Some i \<longrightarrow> vfs_client s1 i = vfs_client s0 i" "view (vs_kernel s1) = view k"
    using add inv0 by (auto simp: own_step_def s0_def)
  have others: "\<forall>i. vfs_client s0 i = vfs_client s i" by (simp add: vfs_client_def s0_def)
  have "all_fds (vs_clients s1) = all_fds (vs_clients s0)" using add by blast
  moreover have "all_fds (vs_clients s0) \<subseteq> fst (view (vs_kernel s))" using assms(3) tables_open by (auto simp: vfs_inv_def s0_def)
  ultimately have fresh: "fd \<notin> all_fds (vs_clients s1)" using new(2) by blast
  show ?thesis
  proof (cases "\<exists>q. p = Some q \<and> s' \<noteq> s1")
    case False
    then have "s' = s1" using assms(2) 1
      by (cases p) (auto simp: vfs_client_add_file_def s0_def [symmetric])
    with inv1 others fresh show ?thesis by simp
  next
    case True
    then obtain q where q: "p = Some q" "s' \<noteq> s1" by blast
    define f where "f = \<lparr>vf_fd = fd, vf_dir = dir\<rparr>"
    define c where "c = (vs_clients s1 ! q)\<lparr>vc_files := vc_files (vs_clients s1 ! q) @ [f]\<rparr>"
    have s': "s' = s1\<lparr>vs_clients := (vs_clients s1)[q := c]\<rparr>" "r = 0" using assms(2) 1 q
      by (auto simp: vfs_client_add_file_def s0_def [symmetric] Let_def c_def f_def split: prod.splits bool.splits)
    have at: "q < length (vs_clients s1)" "cur = Some (vc_id (vs_clients s1 ! q))" using add q(1) by auto
    have "tables_ok (view k) ((vs_clients s1)[q := c])"
      unfolding c_def using inv1 fresh new at(1)
      by (intro tables_add) (auto simp: f_def vfs_inv_def)
    moreover have "vfs_client s' i = vfs_client s1 i" if "cur \<noteq> Some i" for i
      using that at find_update [OF at(1), of c i] by (simp add: s' vfs_client_def c_def)
    ultimately show ?thesis using inv1 others by (simp add: s' vfs_inv_def)
  qed
qed

text \<open>An entry that is in the table of the client of a call.\<close>

lemma client_check_own:
  assumes "vfs_client_check cur fd (s, w) = (True, s1, w1)"
  shows "\<exists>i p. cur = Some i \<and> vfs_client_find (vs_clients s) i = Some p \<and> fd \<in> set (vfs_fds (vs_clients s ! p))"
proof -
  obtain q s2 w2 where 1: "vfs_client_get cur (s, w) = (q, s2, w2)" by (metis prod_cases3)
  note get = client_get_same [OF 1]
  from assms 1 get obtain p f where "q = Some p" "vfs_file_find (vc_files (vs_clients s ! p)) fd = Some f"
    by (auto simp: vfs_client_check_def split: option.splits)
  moreover from get \<open>q = Some p\<close> obtain i where "cur = Some i" "vfs_client_find (vs_clients s) i = Some p" by (cases cur) auto
  ultimately show ?thesis by (auto simp: vfs_file_find_def vfs_fds_def find_Some_iff)
qed

lemma client_check_dir_own:
  assumes "vfs_client_check_dir cur fd (s, w) = (Some d, s1, w1)"
  shows "\<exists>i p f. cur = Some i \<and> vfs_client_find (vs_clients s) i = Some p \<and> f \<in> set (vc_files (vs_clients s ! p))
    \<and> vf_fd f = fd \<and> vf_dir f = Some d"
proof -
  obtain q s2 w2 where 1: "vfs_client_get cur (s, w) = (q, s2, w2)" by (metis prod_cases3)
  note get = client_get_same [OF 1]
  from assms 1 get obtain p f where "q = Some p" "vfs_file_find (vc_files (vs_clients s ! p)) fd = Some f" "vf_dir f = Some d"
    by (auto simp: vfs_client_check_dir_def split: option.splits)
  moreover from get \<open>q = Some p\<close> obtain i where "cur = Some i" "vfs_client_find (vs_clients s) i = Some p" by (cases cur) auto
  moreover have "f \<in> set (vc_files (vs_clients s ! p)) \<and> vf_fd f = fd"
    using \<open>vfs_file_find (vc_files (vs_clients s ! p)) fd = Some f\<close> by (auto simp: vfs_file_find_def find_Some_iff)
  ultimately show ?thesis using \<open>vf_dir f = Some d\<close> by blast
qed

lemma client_remove_file_step:
  assumes "vfs_client_remove_file (Some i) fd (s\<lparr>vs_kernel := k\<rparr>, w) = (r, s', w')" "vfs_inv view s"
    and "vfs_client_find (vs_clients s) i = Some p" "fd \<in> set (vfs_fds (vs_clients s ! p))"
    and "view k = (fst (view (vs_kernel s)) - {fd}, ds)"
      "ds = snd (view (vs_kernel s)) \<or> (\<exists>d. snd (view (vs_kernel s)) d = Some fd \<and> ds = (snd (view (vs_kernel s)))(d := None))"
  shows "vfs_inv view s' \<and> (\<forall>j. j \<noteq> i \<longrightarrow> vfs_client s' j = vfs_client s j)"
proof -
  define c where "c = (vs_clients s ! p)\<lparr>vc_files := vfs_file_remove (vc_files (vs_clients s ! p)) fd\<rparr>"
  have p: "p < length (vs_clients s)" "vc_id (vs_clients s ! p) = i" using client_find_at [OF assms(3)] by auto
  have ok: "tables_ok (view (vs_kernel s)) (vs_clients s)" using assms(2) by (simp add: vfs_inv_def)
  then have "0 \<le> fd" using assms(4) nth_mem [OF p(1)] by (auto simp: tables_ok_def vfs_fds_def)
  moreover have "vfs_file_find (vc_files (vs_clients s ! p)) fd \<noteq> None" using assms(4) by (auto simp: vfs_file_find_def vfs_fds_def find_None_iff)
  ultimately have s': "s' = s\<lparr>vs_clients := (vs_clients s)[p := c], vs_kernel := k\<rparr>"
    using assms(1,3) by (auto simp: vfs_client_remove_file_def vfs_client_get_def Let_def c_def)
  note rem = tables_remove [OF ok p(1), of fd, folded c_def]
  have "tables_ok (view k) ((vs_clients s)[p := c])"
    using rem assms(4,5,6) tables_drop tables_drop_dir by fastforce
  then show ?thesis using find_update [OF p(1), of c] p(2) by (auto simp: s' vfs_inv_def vfs_client_def c_def)
qed

lemma own_stepI:
  "(vfs_inv view s \<Longrightarrow> vfs_inv view s' \<and> (\<forall>i. cur \<noteq> Some i \<longrightarrow> vfs_client s' i = vfs_client s i)) \<Longrightarrow> own_step view cur s s'"
  by (simp add: own_step_def)

lemma VFS_close_step:
  assumes "descriptors fs view" "closing_works fs view (vs_kernel s)" "VFS_close fs cur fd (s, w) = (r, s', w')"
  shows "own_step view cur s s'"
proof (rule own_stepI)
  assume inv: "vfs_inv view s"
  obtain ok s1 w1 where 1: "vfs_client_check cur fd (s, w) = (ok, s1, w1)" by (metis prod_cases3)
  have s1: "s1 = s" using client_check_same [OF 1] .
  obtain e k where k: "f_close fs fd (vs_kernel s) = (e, k)" by fastforce
  show "vfs_inv view s' \<and> (\<forall>i. cur \<noteq> Some i \<longrightarrow> vfs_client s' i = vfs_client s i)"
  proof (cases ok)
    case True
    with 1 client_check_own [of cur fd s w s1 w1] obtain i p where own: "cur = Some i"
      "vfs_client_find (vs_clients s) i = Some p" "fd \<in> set (vfs_fds (vs_clients s ! p))" by auto
    have "fd \<in> fst (view (vs_kernel s))"
      using inv own(3) client_find_at [OF own(2)] nth_mem [of p "vs_clients s"] by (auto simp: vfs_inv_def tables_ok_def vfs_fds_def)
    then have None: "e = None" using assms(2) k by (auto simp: closing_works_def)
    have "view k = (fst (view (vs_kernel s)) - {fd}, snd (view (vs_kernel s)))"
      using descriptors_close [OF assms(1) k] None by simp
    moreover obtain r2 w2 where "vfs_client_remove_file (Some i) fd (s\<lparr>vs_kernel := k\<rparr>, w1) = (r2, s', w2)"
      using assms(3) 1 s1 k None own(1) True by (auto simp: VFS_close_def sys_call_def) (metis prod.collapse)
    ultimately show ?thesis using client_remove_file_step [OF _ inv own(2,3)] own(1) by force
  qed (use assms(3) 1 s1 inv in \<open>simp add: VFS_close_def\<close>)
qed

lemma VFS_closedir_step:
  assumes "descriptors fs view" "closing_works fs view (vs_kernel s)" "VFS_closedir fs cur dir (s, w) = (r, s', w')"
  shows "own_step view cur s s'"
proof (rule own_stepI)
  assume inv: "vfs_inv view s"
  obtain od s1 w1 where 1: "vfs_client_check_dir cur dir (s, w) = (od, s1, w1)" by (metis prod_cases3)
  have s1: "s1 = s" using client_check_dir_same [OF 1] .
  show "vfs_inv view s' \<and> (\<forall>i. cur \<noteq> Some i \<longrightarrow> vfs_client s' i = vfs_client s i)"
  proof (cases od)
    case (Some d)
    with 1 client_check_dir_own [of cur dir s w d s1 w1] obtain i p f where own: "cur = Some i"
      "vfs_client_find (vs_clients s) i = Some p" "f \<in> set (vc_files (vs_clients s ! p))" "vf_fd f = dir" "vf_dir f = Some d" by auto
    have "vs_clients s ! p \<in> set (vs_clients s)" using client_find_at [OF own(2)] by simp
    then have d: "snd (view (vs_kernel s)) d = Some dir"
      using inv own(3,4,5) unfolding vfs_inv_def tables_ok_def by blast
    obtain e k where k: "f_closedir fs d (vs_kernel s) = (e, k)" by fastforce
    have None: "e = None" using assms(2) k d by (auto simp: closing_works_def)
    have vk: "view k = (fst (view (vs_kernel s)) - {dir}, (snd (view (vs_kernel s)))(d := None))"
      using descriptors_closedir [OF assms(1) k] None d by simp
    obtain r2 w2 where rem: "vfs_client_remove_file (Some i) dir (s\<lparr>vs_kernel := k\<rparr>, w1) = (r2, s', w2)"
      using assms(3) 1 s1 k None own(1) Some by (auto simp: VFS_closedir_def sys_call_def) (metis prod.collapse)
    have table: "dir \<in> set (vfs_fds (vs_clients s ! p))" using own(3,4) by (auto simp: vfs_fds_def)
    have "vfs_inv view s' \<and> (\<forall>j. j \<noteq> i \<longrightarrow> vfs_client s' j = vfs_client s j)"
      using d by (intro client_remove_file_step [OF rem inv own(2) table vk]) blast
    then show ?thesis using own(1) by simp
  qed (use assms(3) 1 s1 inv in \<open>simp add: VFS_closedir_def\<close>)
qed

lemma VFS_open_step:
  assumes "descriptors fs view" "VFS_open fs cur name flags mode (s, w) = (r, s', w')"
  shows "own_step view cur s s'"
proof (rule own_stepI)
  assume inv0: "vfs_inv view s"
  define fl where "fl = vfs_flags vfs_flags_open flags False"
  obtain um s1 w1 where 1: "vfs_client_get_umask fs cur (s, w) = (um, s1, w1)" by (metis prod_cases3)
  have inv: "vfs_inv view s1" "\<forall>i. cur \<noteq> Some i \<longrightarrow> vfs_client s1 i = vfs_client s i"
    using get_umask_step [OF assms(1) 1] inv0 by (auto simp: own_step_def)
  obtain x k where k: "f_open fs name fl (mode AND um) (vs_kernel s1) = (x, k)" by fastforce
  show "vfs_inv view s' \<and> (\<forall>i. cur \<noteq> Some i \<longrightarrow> vfs_client s' i = vfs_client s i)"
  proof (cases "fl < 0")
    case False
    show ?thesis
    proof (cases x)
      case (Inl e)
      have "s' = s1\<lparr>vs_kernel := k\<rparr>"
        using assms(2) 1 k Inl False vfs_failed_same by (fastforce simp: VFS_open_def fl_def)
      moreover have "view k = view (vs_kernel s1)" using descriptors_open [OF assms(1) k] Inl by simp
      ultimately show ?thesis using inv by (simp add: vfs_inv_def vfs_client_def)
    next
      case (Inr fd)
      note op = descriptors_open [OF assms(1) k, unfolded Inr, simplified]
      obtain r2 s2 w2 where 2: "vfs_client_add_file fs cur fd None (s1\<lparr>vs_kernel := k\<rparr>, w1) = (r2, s2, w2)" by (metis prod_cases3)
      have add: "vfs_inv view s2" "\<forall>i. cur \<noteq> Some i \<longrightarrow> vfs_client s2 i = vfs_client s1 i" "view (vs_kernel s2) = view k"
        "r2 \<noteq> 0 \<longrightarrow> fd \<notin> all_fds (vs_clients s2)"
        using client_add_file_step [OF assms(1) 2 inv(1)] op by auto
      show ?thesis
      proof (cases "r2 = 0")
        case True
        with assms(2) 1 k Inr False 2 have "s' = s2" by (simp add: VFS_open_def fl_def [symmetric])
        with add inv show ?thesis by simp
      next
        case ne: False
        obtain e k3 where k3: "f_close fs fd (vs_kernel s2) = (e, k3)" by fastforce
        have s': "s' = s2\<lparr>vs_kernel := k3\<rparr>"
          using assms(2) 1 k Inr False 2 ne k3
          by (auto simp: VFS_open_def fl_def [symmetric] sys_call_def split: option.splits)
        have "tables_ok (view k3) (vs_clients s2)"
          using descriptors_close [OF assms(1) k3] add ne tables_drop [of "view (vs_kernel s2)" "vs_clients s2" fd]
          by (auto simp: vfs_inv_def)
        with add inv show ?thesis by (simp add: s' vfs_inv_def vfs_client_def)
      qed
    qed
  qed (use assms(2) inv0 in \<open>simp add: VFS_open_def fl_def\<close>)
qed

lemma VFS_opendir_step:
  assumes "descriptors fs view" "VFS_opendir fs cur name (s, w) = (r, s', w')"
  shows "own_step view cur s s'"
proof (rule own_stepI)
  assume inv: "vfs_inv view s"
  obtain x k where k: "f_opendir fs name (vs_kernel s) = (x, k)" by fastforce
  show "vfs_inv view s' \<and> (\<forall>i. cur \<noteq> Some i \<longrightarrow> vfs_client s' i = vfs_client s i)"
  proof (cases x)
    case (Inl e)
    have "s' = s\<lparr>vs_kernel := k\<rparr>" using assms(2) k Inl vfs_failed_same by (fastforce simp: VFS_opendir_def)
    moreover have "view k = view (vs_kernel s)" using descriptors_opendir [OF assms(1) k] Inl by simp
    ultimately show ?thesis using inv by (simp add: vfs_inv_def vfs_client_def)
  next
    case (Inr d)
    from descriptors_opendir [OF assms(1) k] Inr obtain fd where op: "0 \<le> fd" "fd \<notin> fst (view (vs_kernel s))"
      "snd (view (vs_kernel s)) d = None" "view k = (insert fd (fst (view (vs_kernel s))), (snd (view (vs_kernel s)))(d \<mapsto> fd))" by auto
    obtain y k2 where k2: "f_dirfd fs d k = (y, k2)" by fastforce
    have v2: "view k2 = view k" "y = Inr x \<Longrightarrow> x = fd" for x using descriptors_dirfd [OF assms(1) k2] op(4) by auto
    have fresh: "fd \<notin> all_fds (vs_clients s)" using inv op(2) tables_open unfolding vfs_inv_def by blast
    have closed: "tables_ok (view k4) cs" if "f_closedir fs d k3 = (e, k4)" "view k3 = view k" "tables_ok (view k) cs" "fd \<notin> all_fds cs"
      for e k3 k4 cs
      using descriptors_closedir [OF assms(1) that(1)] that(2-4) op(4) tables_drop_dir [of "view k" cs d fd] by auto
    show ?thesis
    proof (cases y)
      case (Inl e)
      obtain e4 k4 where k4: "f_closedir fs d k2 = (e4, k4)" by fastforce
      have s': "s' = s\<lparr>vs_kernel := k4\<rparr>"
        using assms(2) k \<open>x = Inr d\<close> k2 Inl k4 vfs_failed_same
        by (cases e4) (fastforce simp: VFS_opendir_def sys_call_def)+
      have "tables_ok (view k) (vs_clients s)"
      proof (rule tables_more)
        show "tables_ok (view (vs_kernel s)) (vs_clients s)" using inv by (simp add: vfs_inv_def)
        show "snd (view k) d' = Some x" if "snd (view (vs_kernel s)) d' = Some x" for d' x using that op(3,4) by auto
      qed (use op(4) in auto)
      from closed [OF k4 v2(1) this fresh] inv show ?thesis by (simp add: s' vfs_inv_def vfs_client_def)
    next
      case (Inr fd')
      then have fd': "y = Inr fd" using v2(2) by simp
      obtain r3 s3 w3 where 3: "vfs_client_add_file fs cur fd (Some d) (s\<lparr>vs_kernel := k2\<rparr>, w) = (r3, s3, w3)" by (metis prod_cases3)
      have "\<And>d' x. snd (view (vs_kernel s)) d' = Some x \<Longrightarrow> snd (view k2) d' = Some x" using op(3,4) v2(1) by auto
      then have add: "vfs_inv view s3" "\<forall>i. cur \<noteq> Some i \<longrightarrow> vfs_client s3 i = vfs_client s i" "view (vs_kernel s3) = view k"
        "r3 \<noteq> 0 \<longrightarrow> fd \<notin> all_fds (vs_clients s3)"
        using client_add_file_step [OF assms(1) 3 inv] op v2(1) by auto
      show ?thesis
      proof (cases "r3 = 0")
        case True
        with assms(2) k \<open>x = Inr d\<close> k2 fd' 3 have "s' = s3" by (simp add: VFS_opendir_def)
        with add show ?thesis by simp
      next
        case False
        obtain e4 k4 where k4: "f_closedir fs d (vs_kernel s3) = (e4, k4)" by fastforce
        have s': "s' = s3\<lparr>vs_kernel := k4\<rparr>"
          using assms(2) k \<open>x = Inr d\<close> k2 fd' 3 False k4 by (auto simp: VFS_opendir_def sys_call_def split: option.splits)
        have "tables_ok (view k) (vs_clients s3)" using add(1,3) by (simp add: vfs_inv_def)
        from closed [OF k4 add(3) this] add False show ?thesis by (simp add: s' vfs_inv_def vfs_client_def)
      qed
    qed
  qed
qed

lemma VFS_access_step:
  assumes "descriptors fs view" "VFS_access fs path mode (s, w) = (r, s', w')"
  shows "own_step view cur s s'"
proof -
  obtain e s1 w1 where 1: "sys_call (f_access fs path (vfs_flags vfs_flags_access mode False)) (s, w) = (e, s1, w1)"
    by (metis prod_cases3)
  have "s' = s \<or> s' = s1" using assms(2) 1 vfs_failed_same by (fastforce simp: VFS_access_def Let_def split: if_splits)
  with sys_call_step [OF same_views(1) [OF assms(1)] 1] own_step_refl show ?thesis by blast
qed

lemma VFS_mkdir_step:
  assumes "descriptors fs view" "VFS_mkdir fs cur path mode (s, w) = (r, s', w')"
  shows "own_step view cur s s'"
proof -
  obtain um s1 w1 where 1: "vfs_client_get_umask fs cur (s, w) = (um, s1, w1)" by (metis prod_cases3)
  obtain e s2 w2 where 2: "sys_call (f_mkdir fs path (mode AND um)) (s1, w1) = (e, s2, w2)" by (metis prod_cases3)
  have "s' = s2" using assms(2) 1 2 vfs_failed_same by (fastforce simp: VFS_mkdir_def split: if_splits)
  with own_step_trans [OF get_umask_step [OF assms(1) 1] sys_call_step [OF same_views(10) [OF assms(1)] 2]] show ?thesis by simp
qed

lemma VFS_umask_step:
  assumes "descriptors fs view" "VFS_umask fs cur um (s, w) = (r, s', w')"
  shows "own_step view cur s s'"
proof -
  obtain m s1 w1 where 1: "vfs_client_get_umask fs cur (s, w) = (m, s1, w1)" by (metis prod_cases3)
  obtain e s2 w2 where 2: "vfs_client_set_umask fs cur um (s1, w1) = (e, s2, w2)" by (metis prod_cases3)
  have "s' = s2" using assms(2) 1 2 by (simp add: VFS_umask_def)
  with own_step_trans [OF get_umask_step [OF assms(1) 1] client_set_umask_step [OF assms(1) 2]] show ?thesis by simp
qed

text \<open>The calls on a descriptor that change the kernel only.\<close>

lemma only_kernel: "s' = s \<or> s' = s\<lparr>vs_kernel := k\<rparr> \<Longrightarrow> view k = view (vs_kernel s) \<Longrightarrow> own_step view cur s s'"
  using own_step_kernel own_step_refl by metis

lemma VFS_dirfd_step: "VFS_dirfd cur dir (s, w) = (r, s', w') \<Longrightarrow> own_step view cur s s'"
  using own_step_refl by (auto simp: VFS_dirfd_def dest: client_check_dir_same split: prod.splits)

lemma VFS_lseek_step:
  assumes "descriptors fs view" "VFS_lseek fs cur fd off whence (s, w) = (r, s', w')"
  shows "own_step view cur s s'"
proof -
  obtain ok s1 w1 where 1: "vfs_client_check cur fd (s, w) = (ok, s1, w1)" by (metis prod_cases3)
  have s1: "s1 = s" using client_check_same [OF 1] .
  obtain x k where k: "f_lseek fs fd off (vfs_flags vfs_flags_lseek whence False) (vs_kernel s) = (x, k)" by fastforce
  have "fst (snd (VFS_lseek fs cur fd off whence (s, w))) \<in> {s, s\<lparr>vs_kernel := k\<rparr>}"
    using 1 s1 k by (cases x) (simp_all add: VFS_lseek_def Let_def vfs_failed_eq)
  then have "s' = s \<or> s' = s\<lparr>vs_kernel := k\<rparr>" using assms(2) by simp
  then show ?thesis by (rule only_kernel [OF _ same_viewD [OF same_views(9) [OF assms(1)] k]])
qed

lemma VFS_read_step:
  assumes "descriptors fs view" "VFS_read fs junk cur fd b sz (s, w) = Some (r, b', s', w')"
  shows "own_step view cur s s'"
proof -
  obtain ok s1 w1 where 1: "vfs_client_check cur fd (s, w) = (ok, s1, w1)" by (metis prod_cases3)
  have s1: "s1 = s" using client_check_same [OF 1] .
  obtain x k where k: "f_read fs fd (unat sz) (vs_kernel s) = (x, k)" by fastforce
  have "case VFS_read fs junk cur fd b sz (s, w) of None \<Rightarrow> True | Some (r, b', s', w') \<Rightarrow> s' \<in> {s, s\<lparr>vs_kernel := k\<rparr>}"
    using 1 s1 k by (cases x) (simp_all add: VFS_read_def Let_def vfs_failed_eq split: Option.bind_split prod.split)
  then have "s' = s \<or> s' = s\<lparr>vs_kernel := k\<rparr>" using assms(2) by simp
  then show ?thesis by (rule only_kernel [OF _ same_viewD [OF same_views(11) [OF assms(1)] k]])
qed

lemma VFS_readdir_step:
  assumes "descriptors fs view" "VFS_readdir fs cur dir str (s, w) = (r, str', s', w')"
  shows "own_step view cur s s'"
proof -
  obtain od s1 w1 where 1: "vfs_client_check_dir cur dir (s, w) = (od, s1, w1)" by (metis prod_cases3)
  have s1: "s1 = s" using client_check_dir_same [OF 1] .
  obtain x k where k: "f_readdir fs (the od) (vs_kernel s) = (x, k)" by fastforce
  have "fst (snd (snd (VFS_readdir fs cur dir str (s, w)))) \<in> {s, s\<lparr>vs_kernel := k\<rparr>}"
    using 1 s1 k by (cases od; cases x) (auto simp: VFS_readdir_def split: prod.split)
  then have "s' = s \<or> s' = s\<lparr>vs_kernel := k\<rparr>" using assms(2) by simp
  then show ?thesis by (rule only_kernel [OF _ same_viewD [OF same_views(12) [OF assms(1)] k]])
qed

lemma VFS_rewinddir_step:
  assumes "descriptors fs view" "VFS_rewinddir fs cur dir (s, w) = (r, s', w')"
  shows "own_step view cur s s'"
proof -
  obtain od s1 w1 where 1: "vfs_client_check_dir cur dir (s, w) = (od, s1, w1)" by (metis prod_cases3)
  have s1: "s1 = s" using client_check_dir_same [OF 1] .
  have "s' = s \<or> s' = s\<lparr>vs_kernel := f_rewinddir fs (the od) (vs_kernel s)\<rparr>"
    using assms(2) 1 s1 by (auto simp: VFS_rewinddir_def split: option.splits)
  then show ?thesis by (rule only_kernel) (rule same_views(19) [OF assms(1)])
qed

lemma VFS_write_step:
  assumes "descriptors fs view" "VFS_write fs cur fd b sz (s, w) = Some (r, s', w')"
  shows "own_step view cur s s'"
proof -
  obtain ok s1 w1 where 1: "vfs_client_check cur fd (s, w) = (ok, s1, w1)" by (metis prod_cases3)
  have s1: "s1 = s" using client_check_same [OF 1] .
  have "case VFS_write fs cur fd b sz (s, w) of None \<Rightarrow> True
      | Some (r, s', w') \<Rightarrow> s' = s \<or> (\<exists>bs x k. f_write fs fd bs (vs_kernel s) = (x, k) \<and> s' = s\<lparr>vs_kernel := k\<rparr>)"
    using 1 s1 by (auto simp: VFS_write_def split: Option.bind_split prod.split sum.split)
  then have "s' = s \<or> (\<exists>bs x k. f_write fs fd bs (vs_kernel s) = (x, k) \<and> s' = s\<lparr>vs_kernel := k\<rparr>)"
    using assms(2) by simp
  then show ?thesis
  proof
    assume "\<exists>bs x k. f_write fs fd bs (vs_kernel s) = (x, k) \<and> s' = s\<lparr>vs_kernel := k\<rparr>"
    then obtain bs x k where k: "f_write fs fd bs (vs_kernel s) = (x, k)" "s' = s\<lparr>vs_kernel := k\<rparr>" by blast
    show ?thesis by (rule only_kernel [OF _ same_viewD [OF same_views(18) [OF assms(1)] k(1)]]) (simp add: k(2))
  qed (simp add: own_step_refl)
qed

section \<open>A call\<close>

lemma stub_steps:
  assumes "descriptors fs view"
  shows "VFS_chmod fs path m (s, w) = (r, s', w') \<Longrightarrow> own_step view cur s s'"
    "VFS_chown fs path o' g (s, w) = (r, s', w') \<Longrightarrow> own_step view cur s s'"
    "VFS_lchown fs path o' g (s, w) = (r, s', w') \<Longrightarrow> own_step view cur s s'"
    "VFS_link fs path path' (s, w) = (r, s', w') \<Longrightarrow> own_step view cur s s'"
    "VFS_rename fs path path' (s, w) = (r, s', w') \<Longrightarrow> own_step view cur s s'"
    "VFS_rmdir fs path (s, w) = (r, s', w') \<Longrightarrow> own_step view cur s s'"
    "VFS_symlink fs path path' (s, w) = (r, s', w') \<Longrightarrow> own_step view cur s s'"
    "VFS_unlink fs path (s, w) = (r, s', w') \<Longrightarrow> own_step view cur s s'"
    "VFS_fchmod fs cur fd m (s, w) = (r, s', w') \<Longrightarrow> own_step view cur s s'"
    "VFS_fchown fs cur fd o' g (s, w) = (r, s', w') \<Longrightarrow> own_step view cur s s'"
    "VFS_flock fs cur fd m (s, w) = (r, s', w') \<Longrightarrow> own_step view cur s s'"
  using same_views [OF assms] unfolding VFS_chmod_def VFS_chown_def VFS_lchown_def VFS_link_def VFS_rename_def VFS_rmdir_def
    VFS_symlink_def VFS_unlink_def VFS_fchmod_def VFS_fchown_def VFS_flock_def vfs_stub3_def
  by (metis vfs_stub_step sys_call_step vfs_on_fd_step)+

lemmas vfs_steps = stub_steps VFS_access_step VFS_mkdir_step VFS_umask_step VFS_close_step VFS_closedir_step VFS_open_step
  VFS_opendir_step VFS_lseek_step VFS_read_step VFS_readdir_step VFS_rewinddir_step VFS_write_step

lemma plain_step:
  "plain ss x = Some (r, ss', s', w') \<Longrightarrow> (\<And>r0. x = (r0, s', w') \<Longrightarrow> own_step view cur s s') \<Longrightarrow> own_step view cur s s'"
  by (cases x) (auto simp: plain_def)

lemma vfs_functions_step:
  assumes "descriptors fs view"
  shows "list_all (\<lambda>(n, g). \<forall>cur ss s w r ss' s' w'. closing_works fs view (vs_kernel s) \<longrightarrow>
      g cur ss (s, w) = Some (r, ss', s', w') \<longrightarrow> own_step view cur s s')
    (vfs_functions fs junk)"
  unfolding vfs_functions_def list.pred_inject prod.case
  by (intro conjI allI impI TrueI)
    (auto simp: Option.bind_eq_Some_conv split: list.splits slot.splits prod.splits option.splits cell.splits elim!: plain_step
      intro: vfs_steps [OF assms] VFS_dirfd_step)

lemma vfs_env_step:
  assumes "descriptors fs view" "closing_works fs view (vs_kernel s)" "vfs_env fs junk cur f ss s w = Some (r, ss', s', w')"
  shows "own_step view cur s s'"
proof -
  from assms(3) obtain n g where "nth_opt (vfs_functions fs junk) f = Some (n, g)" "g cur ss (s, w) = Some (r, ss', s', w')"
    by (auto simp: vfs_env_def Option.bind_eq_Some_conv)
  moreover from this(1) have "(n, g) \<in> set (vfs_functions fs junk)" by (auto simp: nth_opt_def split: if_splits) (metis nth_mem)
  ultimately show ?thesis using vfs_functions_step [OF assms(1), of junk] assms(2) unfolding list_all_iff by blast
qed

lemma vfs_steady_inv: "vfs_steady fs view junk s \<Longrightarrow> descriptors fs view \<Longrightarrow> vfs_inv view s"
proof (induction rule: vfs_steady.induct)
  case (start k)
  show ?case by (simp add: vfs_client_init_def vfs_inv_def tables_ok_def)
next
  case (call s cur f ss w r ss' s' w')
  with vfs_env_step [of fs view s junk cur f ss w] show ?case by (auto simp: own_step_def)
qed

section \<open>Descriptors of others\<close>

text \<open>The descriptors of a client, none without an entry.\<close>

definition own_fds :: "'k vfs \<Rightarrow> nat \<Rightarrow> int set" where
  "own_fds s i = (case vfs_client s i of None \<Rightarrow> {} | Some c \<Rightarrow> set (vfs_fds c))"

lemma file_find_None: "fd \<notin> set (vfs_fds c) \<Longrightarrow> vfs_file_find (vc_files c) fd = None"
  by (auto simp: vfs_file_find_def vfs_fds_def find_None_iff)

lemma client_check_other:
  assumes "fd \<notin> own_fds s i"
  shows "vfs_client_check (Some i) fd (s, w) = (False, s, w)" "vfs_client_check_dir (Some i) fd (s, w) = (None, s, w)"
  using assms client_find_at [of "vs_clients s" i]
  by (auto simp: vfs_client_check_def vfs_client_check_dir_def vfs_client_get_def own_fds_def vfs_client_def file_find_None
      split: option.split)

lemma calls_refused:
  assumes "fd \<notin> own_fds s i"
  shows "VFS_close fs (Some i) fd (s, w) = (- VFS_EPROTO, s, w)"
    "VFS_closedir fs (Some i) fd (s, w) = (- VFS_EPROTO, s, w)"
    "VFS_dirfd (Some i) fd (s, w) = (- VFS_EPROTO, s, w)"
    "VFS_fchmod fs (Some i) fd m (s, w) = (- VFS_EPROTO, s, w)"
    "VFS_fchown fs (Some i) fd o' g (s, w) = (- VFS_EPROTO, s, w)"
    "VFS_flock fs (Some i) fd m (s, w) = (- VFS_EPROTO, s, w)"
    "VFS_lseek fs (Some i) fd off how (s, w) = (- VFS_EPROTO, s, w)"
    "VFS_read fs junk (Some i) fd b sz (s, w) = Some (- VFS_EPROTO, b, s, w)"
    "VFS_readdir fs (Some i) fd str (s, w) = (- VFS_EPROTO, str, s, w)"
    "VFS_rewinddir fs (Some i) fd (s, w) = (- 1, s, w)"
    "VFS_write fs (Some i) fd b sz (s, w) = Some (- VFS_EPROTO, s, w)"
  by (simp_all add: client_check_other [OF assms] VFS_close_def VFS_closedir_def VFS_dirfd_def VFS_fchmod_def VFS_fchown_def
      VFS_flock_def VFS_lseek_def VFS_read_def VFS_readdir_def VFS_rewinddir_def VFS_write_def vfs_on_fd_def)

lemma vfs_refused:
  assumes "vfs_env fs junk (Some i) f (SLong x # ss) s w = Some (r, ss', s', w')" "vfs_symbols ! f \<noteq> ''VFS_umask''"
    and "i32 x \<notin> own_fds s i"
  shows "s' = s \<and> w' = w \<and> ss' = SLong x # ss \<and> r \<in> {word_of_int (- VFS_EPROTO), - 1}"
proof -
  have ok: "list_all (\<lambda>((n, g), n'). n = n' \<and> (n \<noteq> ''VFS_umask'' \<longrightarrow> (\<forall>r ss' s' w'. g (Some i) (SLong x # ss) (s, w) = Some (r, ss', s', w')
      \<longrightarrow> s' = s \<and> w' = w \<and> ss' = SLong x # ss \<and> r \<in> {word_of_int (- VFS_EPROTO), - 1})))
    (zip (vfs_functions fs junk) vfs_symbols)"
    unfolding vfs_functions_def vfs_symbols_def zip_Cons_Cons zip_Nil list.pred_inject prod.case
    by (intro conjI impI allI TrueI refl)
      (auto simp: calls_refused [OF assms(3)] plain_def split: list.splits slot.splits option.splits cell.splits)
  from assms(1) obtain n g where g: "f < length (vfs_functions fs junk)" "vfs_functions fs junk ! f = (n, g)"
    "g (Some i) (SLong x # ss) (s, w) = Some (r, ss', s', w')"
    by (auto simp: vfs_env_def Option.bind_eq_Some_conv nth_opt_def split: if_splits)
  have "length (vfs_functions fs junk) = length vfs_symbols" by (simp add: vfs_functions_def vfs_symbols_def)
  with g(1,2) nth_mem [of f "zip (vfs_functions fs junk) vfs_symbols"]
  have "((n, g), vfs_symbols ! f) \<in> set (zip (vfs_functions fs junk) vfs_symbols)"
    by simp
  with ok have "n = vfs_symbols ! f \<and> (n \<noteq> ''VFS_umask'' \<longrightarrow> (\<forall>r ss' s' w'. g (Some i) (SLong x # ss) (s, w) = Some (r, ss', s', w')
      \<longrightarrow> s' = s \<and> w' = w \<and> ss' = SLong x # ss \<and> r \<in> {word_of_int (- VFS_EPROTO), - 1}))"
    by (auto simp: list_all_iff)
  with g(3) assms(2) show ?thesis by metis
qed

text \<open>
  The whole: \<open>i\<close> and \<open>j\<close> are clients, \<open>x\<close> is what the call of \<open>i\<close> has for a descriptor. \<open>VFS_umask\<close> is the only function
  with a number for its first argument that is not a descriptor.
\<close>

lemma concat_disjoint: "distinct (concat (map f xs)) \<Longrightarrow> a \<in> set xs \<Longrightarrow> b \<in> set xs \<Longrightarrow> a \<noteq> b \<Longrightarrow> set (f a) \<inter> set (f b) = {}"
  by (induction xs) auto

lemma isolated:
  assumes "descriptors fs view" "vfs_steady fs view junk s" "closing_works fs view (vs_kernel s)" "i \<noteq> j"
    and "vfs_env fs junk (Some i) f ss s w = Some (r, ss', s', w')"
  shows "own_fds s i \<inter> own_fds s j = {}" "vfs_client s' j = vfs_client s j" "own_fds s i \<subseteq> fst (view (vs_kernel s))"
proof -
  have inv: "tables_ok (view (vs_kernel s)) (vs_clients s)" using vfs_steady_inv [OF assms(2,1)] by (simp add: vfs_inv_def)
  have step: "own_step view (Some i) s s'" using vfs_env_step [OF assms(1,3,5)] .
  then show "vfs_client s' j = vfs_client s j" using inv assms(4) by (auto simp: own_step_def vfs_inv_def)
  have c: "c \<in> set (vs_clients s) \<and> vc_id c = a" if "vfs_client s a = Some c" for a c
    using that by (auto simp: vfs_client_def find_Some_iff)
  show "own_fds s i \<subseteq> fst (view (vs_kernel s))"
    using inv c by (fastforce simp: own_fds_def vfs_fds_def tables_ok_def split: option.splits)
  have "set (vfs_fds a) \<inter> set (vfs_fds b) = {}" if "vfs_client s i = Some a" "vfs_client s j = Some b" for a b
  proof -
    have "a \<in> set (vs_clients s)" "b \<in> set (vs_clients s)" "a \<noteq> b" using c that assms(4) by blast+
    moreover have "distinct (concat (map vfs_fds (vs_clients s)))" using inv by (simp add: tables_ok_def)
    ultimately show ?thesis using concat_disjoint [of vfs_fds "vs_clients s" a b] by simp
  qed
  then show "own_fds s i \<inter> own_fds s j = {}" by (auto simp: own_fds_def split: option.splits)
qed

text \<open>
  C15: in every state that calls of any clients lead to, as long as closing an open descriptor does not fail (what a failed
  closing leaves is not specified), the clients have different descriptors, all of them open ones; the call
  of a client leaves the entry of every other client as it is; and a call with a descriptor that is not its client's is
  refused and changes nothing. A client is what \<open>appserver_get_client_id\<close> gives, an address. \<open>descriptors\<close> is what the
  kernel promises of its descriptors; \<open>VFS_umask\<close> is the only function whose first argument is a number and not a descriptor.
\<close>

theorem vfs_isolated:
  assumes "descriptors fs view" "vfs_steady fs view junk s" "closing_works fs view (vs_kernel s)" "i \<noteq> j"
    and "vfs_env fs junk (Some i) f ss s w = Some (r, ss', s', w')"
  shows "own_fds s i \<inter> own_fds s j = {} \<and> own_fds s i \<subseteq> fst (view (vs_kernel s)) \<and> vfs_client s' j = vfs_client s j
    \<and> (case ss of
         SLong x # ss0 \<Rightarrow> vfs_symbols ! f \<noteq> ''VFS_umask'' \<and> i32 x \<notin> own_fds s i \<longrightarrow>
           s' = s \<and> w' = w \<and> ss' = ss \<and> r \<in> {word_of_int (- VFS_EPROTO), - 1}
       | _ \<Rightarrow> True)"
  using isolated [OF assms] vfs_refused [of fs junk i f _ _ s w r ss' s' w'] assms(5)
  by (auto split: list.split slot.split)

text \<open>The descriptors of the kernel of the examples.\<close>

definition demo_view :: "int list \<Rightarrow> int set \<times> (nat \<Rightarrow> int option)" where
  "demo_view k = (set k, \<lambda>d. None)"

lemma foldr_max: "x \<in> set k \<Longrightarrow> x \<le> foldr max k (2 :: int)" "2 \<le> foldr max k (2 :: int)"
  by (induction k) auto

lemma demo_descriptors: "descriptors demo_files demo_view"
proof -
  have fresh: "foldr max k 2 + 1 \<notin> set k" "0 \<le> foldr max k (2 :: int) + 1" for k
    using foldr_max(1) [of "foldr max k 2 + 1" k] foldr_max(2) [of k] by auto
  show ?thesis
    by (auto simp: descriptors_def demo_files_def demo_view_def same_view_def open_ok_def opendir_ok_def dirfd_ok_def close_ok_def
        closedir_ok_def fresh Let_def split: if_splits)
qed

lemma demo_closing: "closing_works demo_files demo_view k"
  by (auto simp: closing_works_def demo_files_def demo_view_def Let_def)

definition demo_open :: "int list vfs \<times> world" where
  "demo_open = (case vfs_env demo_files (\<lambda>i. NUL) (Some 7) 13 [SString ''/f'', SLong 0, SLong 0] (vfs_client_init []) world0 of
     Some (r, ss, s, w) \<Rightarrow> (s, w) | None \<Rightarrow> (vfs_client_init [], world0))"

theorem vfs_isolated_witness:
  "own_fds (fst demo_open) 7 = {3} \<and> (\<exists>s' w'. vfs_env demo_files (\<lambda>i. NUL) (Some 8) 3 [SLong 3] (fst demo_open) world0 = Some (word_of_int (- VFS_EPROTO), [SLong 3], s', w')
     \<and> vfs_client s' 7 = vfs_client (fst demo_open) 7 \<and> s' = fst demo_open)"
proof -
  let ?junk = "\<lambda>i :: nat. NUL"
  have "case vfs_env demo_files ?junk (Some 7) 13 [SString ''/f'', SLong 0, SLong 0] (vfs_client_init []) world0 of
      Some (r, ss, s, w) \<Rightarrow> vs_clients s = [\<lparr>vc_id = 7, vc_umask = 18, vc_files = [\<lparr>vf_fd = 3, vf_dir = None\<rparr>]\<rparr>] | None \<Rightarrow> False"
    by code_simp
  then obtain r ss s w where 1: "vfs_env demo_files ?junk (Some 7) 13 [SString ''/f'', SLong 0, SLong 0] (vfs_client_init []) world0 = Some (r, ss, s, w)"
    and c: "vs_clients s = [\<lparr>vc_id = 7, vc_umask = 18, vc_files = [\<lparr>vf_fd = 3, vf_dir = None\<rparr>]\<rparr>]"
    by (auto split: option.splits)
  from c have own: "own_fds s 7 = {3}" "own_fds s 8 = {}" by (simp_all add: own_fds_def vfs_client_def vfs_fds_def)
  have run: "vfs_steady demo_files demo_view ?junk s" by (rule vfs_steady.call [OF vfs_steady.start demo_closing 1])
  have s: "fst demo_open = s" by (simp add: demo_open_def 1)
  obtain r2 ss2 s2 w2 where 2: "vfs_env demo_files ?junk (Some 8) 3 [SLong 3] s world0 = Some (r2, ss2, s2, w2)"
    "r2 = word_of_int (- VFS_EPROTO)"
    by (simp add: vfs_env_def vfs_functions_def nth_opt_def plain_def calls_refused own)
  have "vfs_symbols ! 3 \<noteq> ''VFS_umask''" by (simp add: vfs_symbols_def)
  with vfs_isolated [OF demo_descriptors run demo_closing _ 2(1), of 7] own 2 s show ?thesis by auto
qed

section \<open>Closing that fails\<close>

text \<open>
  The condition on closing is needed: \<open>VFS_close\<close> keeps the entry when \<open>close\<close> fails. On a kernel that releases the
  descriptor all the same (as Linux does), the next descriptor of another client is the same one, and both may use it.
\<close>

definition broken_files :: "int list files" where
  "broken_files = demo_files\<lparr>f_close := \<lambda>fd k. (Some 5, removeAll fd k)\<rparr>"

lemma broken_descriptors: "descriptors broken_files demo_view"
proof -
  have "close_ok broken_files demo_view" by (auto simp: close_ok_def broken_files_def demo_view_def)
  then show ?thesis using demo_descriptors
    by (simp add: descriptors_def broken_files_def open_ok_def opendir_ok_def dirfd_ok_def closedir_ok_def)
qed

definition step_of :: "'a files \<Rightarrow> nat \<Rightarrow> nat \<Rightarrow> slot list \<Rightarrow> 'a vfs \<Rightarrow> 'a vfs" where
  "step_of fs i f ss s = (case vfs_env fs (\<lambda>i. NUL) (Some i) f ss s world0 of Some (r, ss', s', w') \<Rightarrow> s' | None \<Rightarrow> s)"

lemma run_step_of: "vfs_run fs (\<lambda>i. NUL) s \<Longrightarrow> vfs_run fs (\<lambda>i. NUL) (step_of fs i f ss s)"
  by (auto simp: step_of_def intro: vfs_run.call split: option.split)

definition shared :: "int list vfs" where
  "shared = step_of broken_files 8 13 [SString ''/g'', SLong 0, SLong 0]
     (step_of broken_files 7 3 [SLong 3] (step_of broken_files 7 13 [SString ''/f'', SLong 0, SLong 0] (vfs_client_init [])))"

theorem failed_close_shares:
  "descriptors broken_files demo_view \<and> vfs_run broken_files (\<lambda>i. NUL) shared \<and> own_fds shared 7 = {3} \<and> own_fds shared 8 = {3}"
proof -
  have "vs_clients shared = [\<lparr>vc_id = 7, vc_umask = 18, vc_files = [\<lparr>vf_fd = 3, vf_dir = None\<rparr>]\<rparr>,
    \<lparr>vc_id = 8, vc_umask = 18, vc_files = [\<lparr>vf_fd = 3, vf_dir = None\<rparr>]\<rparr>]" by code_simp
  then have "own_fds shared 7 = {3}" "own_fds shared 8 = {3}" by (simp_all add: own_fds_def vfs_client_def vfs_fds_def)
  moreover have "vfs_run broken_files (\<lambda>i. NUL) shared" unfolding shared_def by (intro run_step_of vfs_run.start)
  ultimately show ?thesis using broken_descriptors by blast
qed

end
