(* ===== verification/Vfs_Serve.thy ===== *)
theory Vfs_Serve
  imports Vfs_Isolated
begin

text \<open>
  The VFS program inside the server of libApp: a property of its state that every call keeps is kept by the handlers of the
  server, and with the functions for all calls of its interface the handlers are never undefined.
\<close>

section \<open>Handlers and the state of the program\<close>

definition keeps :: "'u server_env \<Rightarrow> ('u \<Rightarrow> bool) \<Rightarrow> bool" where
  "keeps env Q \<longleftrightarrow> (\<forall>cur f ss u w r ss' u' w'. Q u \<longrightarrow> env cur f ss u w = Some (r, ss', u', w') \<longrightarrow> Q u')"

definition state_of :: "('k, 'u) srv \<Rightarrow> 'u" where
  "state_of s = (case s of (ev, w, srv, k, u) \<Rightarrow> u)"

lemma exec_keeps:
  assumes "keeps env Q" "Q u" "args_exec (env cur) call ret args u w = Some (r, ret', args', u', w')"
  shows "Q u'"
proof (cases "length (ac_args call) > 4")
  case False
  with assms(3) obtain f r0 where "env cur f args u w = Some (r0, args', u', w')"
    by (auto simp: args_exec_def Option.bind_eq_Some_conv)
  with assms(1,2) show ?thesis unfolding keeps_def by blast
qed (use assms in \<open>auto simp: args_exec_def split: prod.splits\<close>)

lemma receive_args_keeps:
  assumes "keeps env Q" "Q u" "receive_args (env cur) call ret buf pos bufw bufwpos u w = Some (r, ret', pos', bufw', bufwpos', u', w')"
  shows "Q u'"
  using assms(2,3)
  by (auto simp: receive_args_def Option.bind_eq_Some_conv split: prod.splits bool.splits if_splits dest: exec_keeps [OF assms(1,2)])

lemma receive_keeps:
  assumes "keeps env Q" "Q u" "appinterface_receive (env cur) ai ret buf bufw bufwpos u w = Some (i, ret', bufw', bufwpos', u', w')"
  shows "Q u'"
  using assms(2,3)
  by (auto simp: appinterface_receive_def Option.bind_eq_Some_conv split: prod.splits option.splits dest: receive_args_keeps [OF assms(1,2)])

lemma client_remove_state: "appserver_client_remove kern p s = Some (r, s') \<Longrightarrow> state_of s' = state_of s"
  by (auto simp: appserver_client_remove_def state_of_def Option.bind_eq_Some_conv split: prod.splits)

lemma read_logged_keeps:
  assumes "keeps env Q" "Q (state_of s)" "read_logged env p s = Some (r, s')"
  shows "Q (state_of s')"
proof -
  obtain ev w srv k u where s: "s = (ev, w, srv, k, u)" by (cases s) auto
  obtain asc ai where asc: "as_objs srv p = Some asc" "as_interface srv = Some ai"
    using assms(3) by (auto simp: s read_logged_def Option.bind_eq_Some_conv)
  let ?receive = "appinterface_receive (env (Some p)) ai None (take (asc_buf_read_cnt asc) (asc_buf_read asc)) (asc_buf_write asc)
    (asc_buf_write_cnt asc) u w"
  from assms(3) obtain i ret bufw bufwpos u1 w1 where got: "?receive = Some (i, ret, bufw, bufwpos, u1, w1)"
    by (cases ?receive) (auto simp: s asc read_logged_def)
  with assms(3) have "state_of s' = u1"
    by (simp add: s asc read_logged_def Let_def split: if_splits) (auto simp: state_of_def Option.bind_eq_Some_conv)
  moreover have "Q u1" using receive_keeps [OF assms(1) _ got] assms(2) by (simp add: s state_of_def)
  ultimately show ?thesis by simp
qed

lemma read_process_keeps:
  assumes "keeps env Q" "Q (state_of s)" "read_process env p s = Some (r, s')"
  shows "Q (state_of s')"
proof -
  obtain ev w srv k u where s: "s = (ev, w, srv, k, u)" by (cases s) auto
  from assms(3) obtain asc where asc: "as_objs srv p = Some asc" by (auto simp: s read_process_def Option.bind_eq_Some_conv)
  have u: "Q (state_of (ev, w, srv', k, u))" for srv' using assms(2) by (simp add: s state_of_def)
  show ?thesis
  proof (cases "asc_state asc")
    case ASCS_NEW
    with assms(3) read_logged_keeps [OF assms(1) u] show ?thesis by (simp add: s asc read_process_def)
  next
    case ASCS_LOGGED
    with assms(3) read_logged_keeps [OF assms(1) u] show ?thesis by (simp add: s asc read_process_def)
  qed
qed

lemma read_keeps:
  assumes "keeps env Q" "Q (state_of s)" "appserver_read kern env fd s = Some (r, s')"
  shows "Q (state_of s')"
proof -
  obtain ev w srv k u where s: "s = (ev, w, srv, k, u)" by (cases s) auto
  have u: "Q u" using assms(2) s by (simp add: state_of_def)
  have err: "Q (state_of s')" if "read_error kern p (ev1, w1, srv1, k1, u) = Some (r, s')" for p ev1 w1 srv1 k1
    using that u client_remove_state by (fastforce simp: read_error_def state_of_def Option.bind_eq_Some_conv)
  have eof: "Q (state_of s')" if "read_eof kern p (ev1, w1, srv1, k1, u) = Some (r, s')" for p ev1 w1 srv1 k1
    using that u client_remove_state by (fastforce simp: read_eof_def state_of_def Option.bind_eq_Some_conv)
  have run: "Q (state_of s2)" if "read_process env p (ev1, w1, srv1, k1, u) = Some (r2, s2)" for p ev1 w1 srv1 k1 r2 s2
    using read_process_keeps [OF assms(1) _ that] u by (simp add: state_of_def)
  have gone: "Q (state_of s3)" if "appserver_client_remove kern p s2 = Some (r2, s3)" "Q (state_of s2)" for p s2 r2 s3
    using that client_remove_state by metis
  from assms(3) obtain found where found: "find_client (as_clients srv) (as_objs srv) fd = Some found"
    by (auto simp: s appserver_read_def Option.bind_eq_Some_conv)
  show ?thesis
  proof (cases found)
    case None
    with assms(2,3) found show ?thesis by (simp add: s appserver_read_def)
  next
    case (Some p)
    with assms(3) found obtain asc where asc: "as_objs srv p = Some asc" "asc_buf_read_cnt asc < length (asc_buf_read asc)"
      by (auto simp: s appserver_read_def Option.bind_eq_Some_conv split: if_splits)
    obtain x k1 where x: "k_read kern (asc_fd asc) (length (asc_buf_read asc) - asc_buf_read_cnt asc) k = (x, k1)" by fastforce
    show ?thesis
    proof (cases x)
      case (Inl e)
      with assms(3) found Some asc x err show ?thesis by (simp add: s appserver_read_def)
    next
      case (Inr bs)
      show ?thesis
      proof (cases "bs = []")
        case True
        with assms(3) found Some asc x Inr eof show ?thesis by (simp add: s appserver_read_def)
      next
        case False
        with assms(3) found Some asc x Inr obtain buf r2 s2 where
          2: "read_process env p (ev, w, srv\<lparr>as_objs := (as_objs srv)(p \<mapsto> asc\<lparr>asc_buf_read := buf,
              asc_buf_read_cnt := asc_buf_read_cnt asc + length bs\<rparr>)\<rparr>, k1, u) = Some (r2, s2)"
            "(if r2 \<noteq> 0 then do { (_, s3) \<leftarrow> appserver_client_remove kern p s2; Some (1, s3) } else Some (0, s2)) = Some (r, s')"
          by (simp add: s appserver_read_def Let_def Option.bind_eq_Some_conv) (auto split: prod.splits)
        from read_process_keeps [OF assms(1) _ 2(1)] u have "Q (state_of s2)" by (simp add: state_of_def)
        then show ?thesis using 2(2) gone [of p s2] by (cases "r2 = 0"; cases "appserver_client_remove kern p s2") auto
      qed
    qed
  qed
qed

lemma accept_state: "appserver_accept kern junk p fd s = Some (r, s') \<Longrightarrow> state_of s' = state_of s"
  by (auto simp: appserver_accept_def appserver_client_add_def state_of_def Option.bind_eq_Some_conv
      split: prod.splits sum.splits option.splits)

section \<open>The VFS server\<close>

lemma vfs_keeps: "keeps (vfs_env fs junk) (vfs_run fs junk)"
  unfolding keeps_def by (blast intro: vfs_run.call)

lemma vfs_serves_all:
  assumes "files_ok fs" "set (ai_calls ai) \<subseteq> set vfs_calls"
  shows "\<forall>c \<in> set (ai_calls ai). call_serves (vfs_env fs junk) c"
  using vfs_serves [OF assms(1), of junk] assms(2) by (auto simp: list_all_iff)

text \<open>
  C16: the VFS program in its server. In every state of a server with calls of the VFS interface, the handler for input is
  defined, whatever bytes the clients send, and leads to a state where again the tables are what calls of the functions make
  them, so that what holds for \<open>vfs_run\<close> holds in the server. The handler for new connections leaves the tables alone, and is
  undefined only if \<open>accept\<close> returned a descriptor that does not fit into an \<open>fd_set\<close>. \<open>kernel_ok\<close> and \<open>files_ok\<close> say that
  \<open>read\<close> gives no more than it was asked for, and that descriptors are not negative.
\<close>

theorem vfs_server_safe:
  assumes "server_run kern junk (vfs_env fs fjunk) (\<lambda>app. appinterface_new_server (Some vfs_lookup) fopen closing etcdir (Some app)) ai
      (ev, w, srv, k, u)"
    and "kernel_ok kern" "files_ok fs" "set (ai_calls ai) \<subseteq> set vfs_calls" "vfs_run fs fjunk u" "0 \<le> fd" "fd < FD_SETSIZE"
  shows "(\<exists>r s'. appserver_read kern (vfs_env fs fjunk) fd (ev, w, srv, k, u) = Some (r, s') \<and> vfs_run fs fjunk (state_of s'))
    \<and> (appserver_accept kern junk p fd (ev, w, srv, k, u) = None \<longrightarrow>
        (\<exists>new addr port k1. k_accept kern fd k = (Inr (new, addr, port), k1) \<and> FD_SETSIZE \<le> new))
    \<and> (\<forall>r s'. appserver_accept kern junk p fd (ev, w, srv, k, u) = Some (r, s') \<longrightarrow> state_of s' = u)"
proof -
  have "program_ok (vfs_env fs fjunk) ai" "srv_safe ai (ev, w, srv, k, u)"
    using server_run_safe [OF assms(1,2) vfs_serves_all [OF assms(3,4)]] by blast+
  note safe = this
  obtain r2 s2 where 2: "appserver_read kern (vfs_env fs fjunk) fd (ev, w, srv, k, u) = Some (r2, s2)"
    using appserver_read_safe [OF safe(2,1) assms(2,6,7)] by blast
  have "vfs_run fs fjunk (state_of s2)"
    using read_keeps [OF vfs_keeps _ 2] assms(5) by (simp add: state_of_def)
  moreover have "state_of s' = u" if "appserver_accept kern junk p fd (ev, w, srv, k, u) = Some (r, s')" for r s'
    using accept_state [OF that] by (simp add: state_of_def)
  ultimately show ?thesis using 2 appserver_accept_None [OF assms(2), of junk p fd ev w srv k u] by blast
qed

text \<open>The server is started with its interface, on a kernel whose clients send \<open>junk\<close>.\<close>

lemma vfs_starts:
  "\<exists>ai ev w srv k. appserver_new demo_kernel vfs_loader ''VFS'' ASO_LOCAL (world0, ''junk'') = Some (Some (srv, ev), w, k)
     \<and> as_interface srv = Some ai \<and> set (ai_calls ai) = set vfs_calls"
proof -
  obtain cs w where load: "vfs_loader ''VFS'' world0 = Some (Some \<lparr>ai_name = ''VFS'', ai_calls = cs, ai_port = 4245, ai_error = 0\<rparr>, w)"
    "set cs = set vfs_calls"
    using vfs_loads [of world0] by auto
  have new: "object_new n world0 = (True, world0)" if "0 < n" for n using that by (simp add: object_new_def w_alloc_def)
  then obtain ev where ev: "event_new world0 = Some (Some ev, world0)" by (simp add: event_new_def)
  have "\<exists>r ev' w'. event_register_io_read ev 3 F_ACCEPT 0 w = Some (r, ev', w')"
    using register_read_safe [OF ev_safe_inv [OF ev_inv_new [OF ev]], of 3 F_ACCEPT 0 w] by (auto simp: FD_SETSIZE_def)
  with load ev new show ?thesis
    by (auto simp: appserver_new_def appserver_new_event_def new_server_def demo_kernel_def)
qed

theorem vfs_server_safe_witness:
  "\<exists>ev w srv k. appserver_new demo_kernel vfs_loader ''VFS'' ASO_LOCAL (world0, ''junk'') = Some (Some (srv, ev), w, k)
     \<and> (\<exists>r s' r2 s2. appserver_accept demo_kernel (\<lambda>i. NUL) 1 3 (ev, w, srv, k, vfs_client_init []) = Some (r, s')
         \<and> appserver_read demo_kernel (vfs_env demo_files (\<lambda>i. NUL)) 5 s' = Some (r2, s2) \<and> vfs_inv demo_view (state_of s2))"
proof -
  let ?junk = "\<lambda>i :: nat. NUL" and ?u = "vfs_client_init [] :: int list vfs"
  obtain ai ev w srv k where new: "appserver_new demo_kernel vfs_loader ''VFS'' ASO_LOCAL (world0, ''junk'') = Some (Some (srv, ev), w, k)"
    "as_interface srv = Some ai" "set (ai_calls ai) = set vfs_calls"
    using vfs_starts by blast
  let ?run = "server_run demo_kernel ?junk (vfs_env demo_files ?junk)
    (\<lambda>app. appinterface_new_server (Some vfs_lookup) (\<lambda>_. Inr (in_open (items_text vfs_items))) None ''/etc'' (Some app)) ai"
  have start: "?run (ev, w, srv, k, ?u)" using server_run.start [OF new(1) [unfolded vfs_loader_def] new(2)] .
  have calls: "set (ai_calls ai) \<subseteq> set vfs_calls" using new(3) by simp
  have fds: "(0 :: int) \<le> 3" "3 < FD_SETSIZE" "(0 :: int) \<le> 5" "5 < FD_SETSIZE" by (simp_all add: FD_SETSIZE_def)
  obtain r s' where acc: "appserver_accept demo_kernel ?junk 1 3 (ev, w, srv, k, ?u) = Some (r, s')" "state_of s' = ?u"
  proof (cases "appserver_accept demo_kernel ?junk 1 3 (ev, w, srv, k, ?u)")
    case None
    with vfs_server_safe [OF start demo_kernel_ok demo_files_ok calls vfs_run.start fds(1,2), of 1] show ?thesis
      by (simp add: demo_kernel_def FD_SETSIZE_def)
  next
    case (Some v)
    with that accept_state [of demo_kernel ?junk 1 3 "(ev, w, srv, k, ?u)" "fst v" "snd v"] show ?thesis
      by (cases v) (simp add: state_of_def)
  qed
  obtain ev1 w1 srv1 k1 where s': "s' = (ev1, w1, srv1, k1, ?u)" using acc(2) by (cases s') (auto simp: state_of_def)
  have "?run (ev1, w1, srv1, k1, ?u)" using server_run.accept [OF start _ acc(1)] appserver_new_empty [OF new(1)] by (simp add: s')
  from vfs_server_safe [OF this demo_kernel_ok demo_files_ok calls vfs_run.start fds(3,4), of 1] obtain r2 s2 where
    "appserver_read demo_kernel (vfs_env demo_files ?junk) 5 s' = Some (r2, s2)" "vfs_run demo_files ?junk (state_of s2)"
    unfolding s' by blast
  with vfs_steady_inv [OF vfs_run_steady demo_descriptors] demo_closing new(1) acc(1) show ?thesis by blast
qed

section \<open>The mask of a client\<close>

text \<open>Calls of other clients, none of which fails to close an open descriptor.\<close>

inductive vfs_others :: "'k files \<Rightarrow> ('k \<Rightarrow> int set \<times> (nat \<Rightarrow> int option)) \<Rightarrow> (nat \<Rightarrow> char) \<Rightarrow> nat \<Rightarrow> 'k vfs \<Rightarrow> 'k vfs \<Rightarrow> bool"
  for fs view junk i where
  none: "vfs_others fs view junk i s s"
| call: "vfs_others fs view junk i s s1 \<Longrightarrow> cur \<noteq> Some i \<Longrightarrow> closing_works fs view (vs_kernel s1) \<Longrightarrow>
    vfs_env fs junk cur f ss s1 w = Some (r, ss', s2, w') \<Longrightarrow> vfs_others fs view junk i s s2"

lemma others_keep:
  assumes "vfs_others fs view junk i s s'" "descriptors fs view" "vfs_inv view s"
  shows "vfs_inv view s' \<and> vfs_client s' i = vfs_client s i"
  using assms(1,3)
proof (induction rule: vfs_others.induct)
  case (call s s1 cur f ss w r ss' s2 w')
  with vfs_env_step [OF assms(2) call.hyps(3,4)] show ?case by (simp add: own_step_def)
qed simp

lemma find_place: "find (\<lambda>c. vc_id c = i) cs = Some c \<Longrightarrow> \<exists>p. vfs_client_find cs i = Some p \<and> cs ! p = c"
  by (induction cs) (auto split: if_splits)

lemma find_client: "vfs_client s i = Some c \<Longrightarrow> \<exists>p. vfs_client_find (vs_clients s) i = Some p \<and> vs_clients s ! p = c"
  unfolding vfs_client_def by (rule find_place)

lemma get_umask_of:
  assumes "vfs_client s i = Some c"
  shows "vfs_client_get_umask fs (Some i) (s, w) = (vc_umask c, s, w)"
  using find_client [OF assms] by (auto simp: vfs_client_get_umask_def vfs_client_get_def)

lemma find_updated: "vfs_client_find cs i = Some q \<Longrightarrow> vc_id c = i \<Longrightarrow> find (\<lambda>c. vc_id c = i) (cs[q := c]) = Some c"
proof (induction cs arbitrary: q)
  case (Cons a cs)
  then show ?case by (cases q) (auto split: if_splits)
qed simp

lemma umask_stored:
  assumes "VFS_umask fs (Some i) um (s, w) = (old, s1, w1)" "plenty w"
  shows "\<exists>c. vfs_client s1 i = Some c \<and> vc_umask c = um"
proof -
  obtain m s0 w0 where 0: "vfs_client_get_umask fs (Some i) (s, w) = (m, s0, w0)" by (metis prod_cases3)
  then have cl: "vs_clients s0 = vs_clients s" "w0 = w"
    by (auto simp: vfs_client_get_umask_def vfs_client_get_def split: option.splits prod.splits)
  obtain p s2 w2 where add: "vfs_client_add fs (Some i) (s0, w0) = (p, s2, w2)" by (metis prod_cases3)
  have "\<exists>q. p = Some q \<and> q < length (vs_clients s2) \<and> vc_id (vs_clients s2 ! q) = i
    \<and> vfs_client_find (vs_clients s2) i = Some q"
  proof (cases "vfs_client_find (vs_clients s) i")
    case (Some q)
    with add cl have "p = Some q" "vs_clients s2 = vs_clients s" by (auto simp: vfs_client_add_def vfs_client_get_def)
    with Some client_find_at [OF Some] show ?thesis by simp
  next
    case None
    obtain w3 where "w_alloc w = (True, w3)" using w_alloc_plenty [OF assms(2)] by blast
    moreover obtain m2 k where "umask_get fs (vs_kernel s0) = (m2, k)" by fastforce
    moreover have "vfs_client_find (cs @ [c]) i = Some (length cs)" if "vfs_client_find cs i = None" "vc_id c = i" for cs c
      using that by (induction cs) auto
    ultimately show ?thesis using add cl None by (auto simp: vfs_client_add_def vfs_client_get_def)
  qed
  then obtain q where q: "p = Some q" "q < length (vs_clients s2)" "vc_id (vs_clients s2 ! q) = i"
    "vfs_client_find (vs_clients s2) i = Some q" by blast
  let ?c = "(vs_clients s2 ! q)\<lparr>vc_umask := um\<rparr>"
  have s1: "s1 = s2\<lparr>vs_clients := (vs_clients s2)[q := ?c]\<rparr>"
    using assms(1) 0 add q(1) by (simp add: VFS_umask_def vfs_client_set_umask_def)
  from find_updated [OF q(4), of ?c] q(3) show ?thesis by (simp add: s1 vfs_client_def)
qed

text \<open>
  C34: after the call \<open>VFS_umask\<close> of a client, and whatever calls other clients make then, the modes that the client gives to
  \<open>VFS_mkdir\<close> and \<open>VFS_open\<close> reach the kernel as \<open>mode AND um\<close>: the permissions that the mask names are kept and all
  others are dropped, where a mask should do the reverse. A file that could be opened becomes the client's. (While memory is
  available, and as long as closing an open descriptor does not fail.)
\<close>

theorem vfs_umask_used:
  assumes "descriptors fs view" "vfs_steady fs view junk s" "closing_works fs view (vs_kernel s)"
    and "VFS_umask fs (Some i) um (s, w) = (old, s1, w1)" "plenty w"
    and "vfs_others fs view junk i s1 s2" "plenty w2"
  shows "VFS_mkdir fs (Some i) path mode (s2, w2) = vfs_stub (f_mkdir fs path (mode AND um)) (s2, w2)
    \<and> (vfs_flags vfs_flags_open flags False \<ge> 0 \<longrightarrow>
        (case f_open fs path (vfs_flags vfs_flags_open flags False) (mode AND um) (vs_kernel s2) of
           (Inl e, k) \<Rightarrow> VFS_open fs (Some i) path flags mode (s2, w2) = vfs_failed (s2\<lparr>vs_kernel := k\<rparr>, w2\<lparr>errno := e\<rparr>)
         | (Inr fd, k) \<Rightarrow> \<exists>s3 w3. VFS_open fs (Some i) path flags mode (s2, w2) = (fd, s3, w3)
             \<and> own_fds s3 i = insert fd (own_fds s2 i) \<and> vs_kernel s3 = k))"
proof -
  have inv: "vfs_inv view s" using vfs_steady_inv [OF assms(2,1)] .
  have "vfs_inv view s1" using VFS_umask_step [OF assms(1,4)] inv by (simp add: own_step_def)
  with others_keep [OF assms(6,1)] umask_stored [OF assms(4,5)] obtain c where
    c: "vfs_client s2 i = Some c" "vc_umask c = um" by auto
  note um = get_umask_of [OF c(1), of fs]
  obtain p where p: "vfs_client_find (vs_clients s2) i = Some p" "vs_clients s2 ! p = c" using find_client [OF c(1)] by blast
  have mkdir: "VFS_mkdir fs (Some i) path mode (s2, w2) = vfs_stub (f_mkdir fs path (mode AND um)) (s2, w2)"
    using um c(2) by (auto simp: VFS_mkdir_def vfs_stub_def split: prod.split)
  obtain x k where x: "f_open fs path (vfs_flags vfs_flags_open flags False) (mode AND um) (vs_kernel s2) = (x, k)" by fastforce
  have "\<exists>s3 w3. VFS_open fs (Some i) path flags mode (s2, w2) = (fd, s3, w3) \<and> own_fds s3 i = insert fd (own_fds s2 i) \<and> vs_kernel s3 = k"
    if "x = Inr fd" "vfs_flags vfs_flags_open flags False \<ge> 0" for fd
  proof -
    obtain w3 where w3: "w_alloc w2 = (True, w3)" using w_alloc_plenty [OF assms(7)] by blast
    let ?c = "c\<lparr>vc_files := vc_files c @ [\<lparr>vf_fd = fd, vf_dir = None\<rparr>]\<rparr>"
    let ?s3 = "s2\<lparr>vs_clients := (vs_clients s2)[p := ?c], vs_kernel := k\<rparr>"
    have open_eq: "VFS_open fs (Some i) path flags mode (s2, w2) = (fd, ?s3, w3)"
      using um c(2) x that p w3
      by (simp add: VFS_open_def vfs_client_add_file_def vfs_client_add_def vfs_client_get_def Let_def)
    have at: "p < length (vs_clients s2)" "vc_id (vs_clients s2 ! p) = i" using client_find_at [OF p(1)] by auto
    from find_updated [OF p(1), of ?c] at p(2) have "vfs_client ?s3 i = Some ?c" by (simp add: vfs_client_def)
    then have "own_fds ?s3 i = insert fd (own_fds s2 i)" using c(1) by (simp add: own_fds_def vfs_fds_def)
    with open_eq show ?thesis by auto
  qed
  moreover have "VFS_open fs (Some i) path flags mode (s2, w2) = vfs_failed (s2\<lparr>vs_kernel := k\<rparr>, w2\<lparr>errno := e\<rparr>)"
    if "x = Inl e" "vfs_flags vfs_flags_open flags False \<ge> 0" for e
    using um c(2) x that by (simp add: VFS_open_def)
  ultimately show ?thesis using mkdir x by (cases x) simp_all
qed

text \<open>The client 7 sets its mask, the client 8 opens a file, then the client 7 makes a directory and opens a file.\<close>

lemma others_step_of:
  assumes "vfs_others fs view (\<lambda>i. NUL) i s s1" "\<forall>k. closing_works fs view k" "j \<noteq> i"
  shows "vfs_others fs view (\<lambda>i. NUL) i s (step_of fs j f ss s1)"
  using assms by (auto simp: step_of_def intro: vfs_others.call split: option.split)

definition demo_masked :: "int list vfs" where
  "demo_masked = fst (snd (VFS_umask demo_files (Some 7) 0x1C0 (vfs_client_init [], world0)))"

definition demo_later :: "int list vfs" where
  "demo_later = step_of demo_files 8 13 [SString ''/g'', SLong 0, SLong 0] demo_masked"

theorem vfs_umask_used_witness:
  "own_fds demo_later 8 = {3}
    \<and> VFS_mkdir demo_files (Some 7) ''/d'' 0x1FF (demo_later, world0) = vfs_stub (f_mkdir demo_files ''/d'' 0x1C0) (demo_later, world0)
    \<and> (\<exists>s3 w3. VFS_open demo_files (Some 7) ''/f'' 0 0x1FF (demo_later, world0) = (4, s3, w3) \<and> own_fds s3 7 = {4})"
proof -
  have later: "demo_later = \<lparr>vs_clients = [\<lparr>vc_id = 7, vc_umask = 0x1C0, vc_files = []\<rparr>,
      \<lparr>vc_id = 8, vc_umask = 18, vc_files = [\<lparr>vf_fd = 3, vf_dir = None\<rparr>]\<rparr>], vs_kernel = [3]\<rparr>" by code_simp
  have own: "own_fds demo_later 8 = {3}" "own_fds demo_later 7 = {}" by (simp_all add: later own_fds_def vfs_client_def vfs_fds_def)
  obtain old w1 where um: "VFS_umask demo_files (Some 7) 0x1C0 (vfs_client_init [], world0) = (old, demo_masked, w1)"
    unfolding demo_masked_def by (cases "VFS_umask demo_files (Some 7) 0x1C0 (vfs_client_init [], world0)") auto
  have "vfs_others demo_files demo_view (\<lambda>i. NUL) 7 demo_masked demo_later"
    unfolding demo_later_def by (intro others_step_of vfs_others.none) (simp_all add: demo_closing)
  from vfs_umask_used [OF demo_descriptors vfs_steady.start demo_closing um _ this, of world0 "''/d''" "0x1FF"]
    vfs_umask_used [OF demo_descriptors vfs_steady.start demo_closing um _ this, of world0 "''/f''" "0x1FF" 0]
  have used: "VFS_mkdir demo_files (Some 7) ''/d'' 0x1FF (demo_later, world0) = vfs_stub (f_mkdir demo_files ''/d'' (0x1FF AND 0x1C0)) (demo_later, world0)"
    "0 \<le> vfs_flags vfs_flags_open 0 False \<longrightarrow>
      (case f_open demo_files ''/f'' (vfs_flags vfs_flags_open 0 False) (0x1FF AND 0x1C0) (vs_kernel demo_later) of
         (Inl e, k) \<Rightarrow> VFS_open demo_files (Some 7) ''/f'' 0 0x1FF (demo_later, world0) = vfs_failed (demo_later\<lparr>vs_kernel := k\<rparr>, world0\<lparr>errno := e\<rparr>)
       | (Inr fd, k) \<Rightarrow> \<exists>s3 w3. VFS_open demo_files (Some 7) ''/f'' 0 0x1FF (demo_later, world0) = (fd, s3, w3)
           \<and> own_fds s3 7 = insert fd (own_fds demo_later 7) \<and> vs_kernel s3 = k)" by simp_all
  have flags: "0 \<le> vfs_flags vfs_flags_open 0 False" by code_simp
  have "f_open demo_files ''/f'' fl m (vs_kernel demo_later) = (Inr 4, [4, 3])" for fl m
    by (simp add: demo_files_def later Let_def)
  with used(2) flags own(2) have "\<exists>s3 w3. VFS_open demo_files (Some 7) ''/f'' 0 0x1FF (demo_later, world0) = (4, s3, w3) \<and> own_fds s3 7 = {4}"
    by auto
  with used(1) own(1) show ?thesis by simp
qed

text \<open>
  Clients are told apart by address only: the tables outlive the connection, so a new client at the address of an earlier one
  has its mask and its descriptors.
\<close>

theorem vfs_address_reused:
  assumes "appserver_client_remove kern p s = Some (r, s1)"
    and "appserver_accept kern junk p fd s1 = Some (r2, s2)"
  shows "vfs_client (state_of s2) p = vfs_client (state_of s) p \<and> own_fds (state_of s2) p = own_fds (state_of s) p"
proof -
  have "state_of s1 = state_of s"
    using assms(1) by (cases s) (auto simp: appserver_client_remove_def state_of_def Option.bind_eq_Some_conv split: prod.splits)
  with accept_state [OF assms(2)] show ?thesis by (simp add: own_fds_def)
qed

end
