(* ===== verification/Spec2Isabelle.thy ===== *)
theory Spec2Isabelle
  imports Sys_Config Sys_Parser Sys_Event Sys_Buffer Libc_Alloc Libc_Number Libc_Sort Libc_Printf Libc_Env Xml_Parse App_Wait Vfs_Serve
begin

text \<open>
  Verification library of the DeforaOS System libraries: the C library (\<open>DeforaOS/System/src/libc\<close>) and
  libSystem (\<open>DeforaOS/System/src/libSystem\<close>), the layer every other program of the repository is built on, and two
  libraries over it: the XML parser of libParser (\<open>DeforaOS/System/src/libParser\<close>) and the remote procedure calls of libApp
  (\<open>DeforaOS/System/src/libApp\<close>), with a program that uses them: the VFS server (\<open>DeforaOS/System/src/VFS\<close>).

  \<^bold>\<open>The parts and how they interact.\<close> libSystem has strings (\<open>string.c\<close>), error slots and allocation
  wrappers (\<open>error.c\<close>, \<open>object.c\<close>), arrays (\<open>array.c\<close>), buffers (\<open>buffer.c\<close>), hash tables over arrays
  (\<open>hash.c\<close>), configuration files as hashes of hashes with a text form (\<open>config.c\<close>), tokens (\<open>token.c\<close>), a
  parser framework with sources, filters and callbacks (\<open>parser.c\<close>), and an event loop over arrays of registered
  descriptors and timeouts (\<open>event.c\<close>). libParser registers filters and callbacks with that parser and builds a tree of the
  tokens (\<open>xml.c\<close>). libApp loads interfaces from configuration files and turns calls into bytes and back
  (\<open>appinterface.c\<close>); its server registers handlers with the event loop (\<open>appserver.c\<close>), and its client runs an event loop of
  its own for each call (\<open>appclient.c\<close>). The VFS server
  is a program of libApp whose functions run file operations for the clients, each with its own descriptors (\<open>vfs.c\<close>, \<open>common.c\<close>). libSystem calls the C library: byte strings (\<open>string.c\<close>, \<open>strings.c\<close>,
  \<open>ctype.c\<close>), the allocator over \<open>sbrk\<close>, number conversion, searching and sorting (\<open>stdlib.c\<close>, \<open>unistd.c\<close>),
  buffered streams and formatted output (\<open>stdio.c\<close>).

  \<^bold>\<open>Theories.\<close>
  \<^item> \<^theory_text>\<open>Prelude\<close>: characters, the byte memory (\<open>None\<close>: access outside it), blocks, list facts.
  \<^item> \<^theory_text>\<open>Libc_String\<close>, \<^theory_text>\<open>Libc_Ctype\<close>: \<open>string.c\<close> over the byte memory; \<open>ctype.c\<close>, \<open>strings.c\<close>.
  \<^item> \<^theory_text>\<open>Libc_Alloc\<close>: \<open>malloc\<close>, \<open>free\<close>, \<open>realloc\<close>, \<open>calloc\<close> and \<open>sbrk\<close> on a heap of headers.
  \<^item> \<^theory_text>\<open>Libc_Number\<close>, \<^theory_text>\<open>Libc_Sort\<close>: \<open>atoi\<close>, the \<open>strtol\<close> family, \<open>abs\<close>; \<open>bsearch\<close> and \<open>qsort\<close>.
  \<^item> \<^theory_text>\<open>Libc_Env\<close>: functions run at exit, the environment, random numbers, temporary names (\<open>stdlib.c\<close>).
  \<^item> \<^theory_text>\<open>Libc_Stdio\<close>, \<^theory_text>\<open>Libc_Printf\<close>: the streams of \<open>stdio.c\<close> over system calls; its \<open>printf\<close> family.
  \<^item> \<^theory_text>\<open>Sys_World\<close>: the state a libSystem call works on (outcomes of the coming allocations, \<open>errno\<close>, the last
    error), \<open>error.c\<close>, \<open>object.c\<close>; \<^theory_text>\<open>Sys_File\<close>: files as libSystem sees them.
  \<^item> \<^theory_text>\<open>Sys_String\<close>, \<^theory_text>\<open>Sys_Array\<close>, \<^theory_text>\<open>Sys_Buffer\<close>, \<^theory_text>\<open>Sys_Hash\<close>, \<^theory_text>\<open>Sys_Config\<close>, \<^theory_text>\<open>Sys_Token\<close>,
    \<^theory_text>\<open>Sys_Parser\<close>, \<^theory_text>\<open>Sys_Event\<close>: the files of libSystem with these names.
  \<^item> \<^theory_text>\<open>Parser_Xml\<close>, \<^theory_text>\<open>Xml_Document\<close>: filters, callbacks and documents of \<open>xml.c\<close>; \<^theory_text>\<open>Xml_Scan\<close>,
    \<^theory_text>\<open>Xml_Parse\<close>: what a token takes from a source, and what the parser makes of the text of a tree.
  \<^item> \<^theory_text>\<open>App_Interface\<close>, \<^theory_text>\<open>App_Call\<close>, \<^theory_text>\<open>App_Serve\<close>: \<open>appinterface.c\<close>: loading, the client's side and the server's side of
    a call. \<^theory_text>\<open>App_Server\<close>: \<open>appserver.c\<close>.
  \<^item> \<^theory_text>\<open>App_Rpc\<close>: both sides together, with the values that arrive (\<open>passed\<close>) and return (\<open>answered\<close>) as inductive
    relations; \<^theory_text>\<open>App_Safe\<close>: the states a server can reach, for any input; \<^theory_text>\<open>App_Pieces\<close>: parts of a call;
    \<^theory_text>\<open>App_Declare\<close>: the calls that an interface file declares.
  \<^item> \<^theory_text>\<open>App_Client\<close>: \<open>appclient.c\<close>; \<^theory_text>\<open>App_Wait\<close>: the event loop of a call, with a server that answers and one that is silent.
  \<^item> \<^theory_text>\<open>Libc_Fcntl\<close>: constants for files. \<^theory_text>\<open>Vfs_Common\<close>, \<^theory_text>\<open>Vfs_Server\<close>: the VFS server; \<^theory_text>\<open>Vfs_Iface\<close>: its interface file and
    the functions for it; \<^theory_text>\<open>Vfs_Isolated\<close>: what clients can do to each other; \<^theory_text>\<open>Vfs_Serve\<close>: the program inside the server of libApp.

  \<^bold>\<open>State and operations.\<close> A struct is a record with the fields of the source; an operation is a function of
  the same name on it (a leading underscore is dropped, a loop of the function is a function of its own named after
  it). Bytes are HOL characters, \<open>uc\<close> and \<open>sc\<close> their value as unsigned and signed \<open>char\<close>; integers that may wrap
  are words or taken modulo \<open>2 ^ 64\<close>. An outer \<open>option\<close> is undefined behaviour (or a loop that does not end); a \<open>NULL\<close>
  pointer is an inner \<open>None\<close>. Function pointers are numbers with an environment, or parameters. The kernel, the
  outcomes of allocation and of file operations are parameters, and so are the functions of a server program and the conversion of
  a \<open>double\<close> to \<open>float\<close>; so are the addresses of the objects of the clients, which the VFS server tells them apart by. Sums and
  differences of times are \<open>long\<close>, and undefined when they overflow. Numbers in memory are those of a little-endian machine.

  \<^bold>\<open>What is shown.\<close> Contracts between components are locales, interpreted on the model: an associative
  array that may run out of memory (\<open>map_contract\<close>, for hashes and for the environment), a list view of arrays, the sources of the parser (\<open>scan_source\<close> and
  \<open>xml_source\<close>, for files and strings), comparison functions (\<open>comparison\<close>, for \<open>strcmp\<close>), consumers of formatted output
  (\<open>print_sink\<close>, for strings and streams). Properties: the allocator keeps disjoint blocks and their bytes; strings and
  memory blocks behave as lists; arrays refine lists; hashes and configurations refine maps; a saved
  configuration is read back; the event loop keeps its descriptor sets and fires what is due; formatted output is the text the
  format stands for, on strings and on streams, and numbers can be read back; streams deliver all bytes in order; the text of a document tree in a file is read back as that tree;
  functions registered for the exit run in reverse order; loaded interfaces are well typed; a remote call runs the
  function with the values passed, and its results reach the caller; a call of the client ends with the answer, or with an old
  one after a timeout; no bytes from a client make the server's read handler undefined; the clients of the VFS server have
  disjoint descriptors that the others cannot use. Where the code
  departs from its contract, a property states exactly how.

  \<^bold>\<open>What is assumed of the kernel.\<close> A property names the behaviour it needs: descriptors are not negative and \<open>read\<close> gives no
  more than asked for (\<open>kernel_ok\<close>, \<open>files_ok\<close>), new descriptors are not open ones (\<open>descriptors\<close>), every \<open>write\<close> from here on takes
  all its bytes (\<open>full_writer\<close>), closing an open descriptor does not fail (\<open>closing_works\<close>), no allocation fails (\<open>plenty\<close>). A
  descriptor that does not fit into an \<open>fd_set\<close>, a partial \<open>write\<close>, a failed \<open>close\<close> and a moved block are covered by
  properties or theorems of their own (\<open>server_safe\<close>, \<open>fwrite_short_write\<close>, \<open>appserver_write_short\<close>, \<open>failed_close_shares\<close>,
  \<open>setenv_dangling\<close>).

  \<^bold>\<open>Bounds and fuel.\<close> There is no fuel: loops that end are functions with a termination proof, loops that may not are partial
  functions into \<open>option\<close>, and the properties show that a result exists. Sizes are bounded by the widths of the source.

  \<^bold>\<open>Not modelled.\<close> Plug-ins and the dynamic loader, threads, floating point, system call stubs, the user and group databases,
  locales, regular expressions (stubs in the source), the encryption of libApp (\<open>WITH_SSL\<close>), its unfinished messages and
  transports, the other servers, the client library of the VFS server, the desktop applications, and the imported \<open>minix\<close> tree. Deletion functions that only free memory have no counterpart where
  values model the objects.
\<close>

end
